(* ===== verification/Prelude.thy ===== *)
theory Prelude
  imports Main "HOL-Library.Word" "HOL-Library.List_Lexorder"
begin

section \<open>Shared types, error values and generic lemmas\<close>

text \<open>
  The vocabulary every component of the model uses: identifiers, bytes, instants, Go's
  signed 32-bit arithmetic, Go \<open>error\<close> values, and the generic facts on lists, maps
  and counters that the component theories share.
\<close>

type_synonym byte = "8 word"
type_synonym bytes = "byte list"

text \<open>
  A \<open>uuid.UUID\<close> is a 16-byte array that the code only compares; \<open>uuid.Nil\<close> is the
  zero array.
\<close>

type_synonym uuid = "128 word"

definition nilUUID :: uuid where
  "nilUUID = 0"

text \<open>
  A \<open>time.Time\<close> is a number of nanoseconds; the zero value \<open>time.Time{}\<close>
  (for which \<open>IsZero\<close> holds) is 0, so every reading of a real clock is positive.
\<close>

type_synonym time = int

definition zeroTime :: time where
  "zeroTime = 0"

text \<open>Go's \<open>int32\<close> arithmetic: the result is reduced to the signed 32-bit range.\<close>

definition wrap32 :: "int \<Rightarrow> int" where
  "wrap32 x = ((x + 2147483648) mod 4294967296) - 2147483648"

definition int32 :: "int \<Rightarrow> bool" where
  "int32 x \<longleftrightarrow> - 2147483648 \<le> x \<and> x \<le> 2147483647"

text \<open>The status codes of the RPC layer that the code returns.\<close>

datatype rpc_code =
    InvalidArgument | NotFound | AlreadyExists | PermissionDenied | ResourceExhausted
  | FailedPrecondition | Unimplemented | Internal | Unavailable | DataLoss

text \<open>
  A non-nil Go \<open>error\<close>. \<open>CacheErr code details\<close> is \<open>lutra.CacheableError\<close>, the one
  error type of the repository with a \<open>Cacheable\<close> method; a nil error is \<^term>\<open>None\<close>
  of type \<open>goerr option\<close>.
\<close>

datatype goerr =
    Plain string
  | CacheErr string bytes
  | Rpc rpc_code string
  | CtxCanceled

text \<open>The text \<open>err.Error()\<close>.\<close>

fun errText :: "goerr \<Rightarrow> string" where
  "errText (Plain m) = m"
| "errText (CacheErr code details) = code"
| "errText (Rpc c m) = m"
| "errText CtxCanceled = ''context canceled''"

named_theorems graph_simps \<open>characteristic equations of the scheduler's operations\<close>
named_theorems frame_simps \<open>fields an operation leaves alone\<close>

subsection \<open>Signed 32-bit arithmetic\<close>

lemma wrap32_int32 [simp]: "int32 (wrap32 x)"
  unfolding wrap32_def int32_def
  using pos_mod_bound [of 4294967296 "x + 2147483648"]
    pos_mod_sign [of 4294967296 "x + 2147483648"] by linarith

lemma wrap32_id [simp]: "int32 x \<Longrightarrow> wrap32 x = x"
  by (simp add: wrap32_def int32_def)

lemma wrap32_succ: "int32 x \<Longrightarrow> x < 2147483647 \<Longrightarrow> wrap32 (x + 1) = x + 1"
  by (intro wrap32_id) (simp add: int32_def)

subsection \<open>Counting the elements of a list\<close>

definition countP :: "('a \<Rightarrow> bool) \<Rightarrow> 'a list \<Rightarrow> nat" where
  "countP P xs = length (filter P xs)"

lemma countP_Nil [simp]: "countP P [] = 0"
  by (simp add: countP_def)

lemma countP_Cons [simp]: "countP P (x # xs) = (if P x then 1 else 0) + countP P xs"
  by (simp add: countP_def)

lemma countP_append [simp]: "countP P (xs @ ys) = countP P xs + countP P ys"
  by (simp add: countP_def)

lemma countP_update:
  "i < length xs \<Longrightarrow>
   countP P (xs[i := y]) + (if P (xs ! i) then 1 else 0) = countP P xs + (if P y then 1 else 0)"
proof (induction xs arbitrary: i)
  case Nil
  then show ?case by simp
next
  case (Cons x xs)
  then show ?case by (cases i) (auto split: if_splits)
qed

lemma countP_update_same:
  assumes "i < length xs" and "P (xs ! i) = P y"
  shows "countP P (xs[i := y]) = countP P xs"
  using countP_update [of i xs P y] assms by (auto split: if_splits)

lemma countP_update_gain:
  assumes "i < length xs" and "\<not> P (xs ! i)" and "P y"
  shows "countP P (xs[i := y]) = Suc (countP P xs)"
  using countP_update [of i xs P y] assms by simp

lemma countP_update_lose:
  assumes "i < length xs" and "P (xs ! i)" and "\<not> P y"
  shows "Suc (countP P (xs[i := y])) = countP P xs"
  using countP_update [of i xs P y] assms by simp

lemma countP_pos: "i < length xs \<Longrightarrow> P (xs ! i) \<Longrightarrow> 0 < countP P xs"
  by (auto simp: countP_def filter_empty_conv)

lemma countP_none: "(\<And>x. x \<in> set xs \<Longrightarrow> \<not> P x) \<Longrightarrow> countP P xs = 0"
  by (simp add: countP_def)

lemma countP_mono: "(\<And>x. x \<in> set xs \<Longrightarrow> P x \<Longrightarrow> Q x) \<Longrightarrow> countP P xs \<le> countP Q xs"
  by (induction xs) auto

lemma nth_upd: "a < length xs \<Longrightarrow> xs[i := v] ! a = (if i = a then v else xs ! a)"
  by auto

subsection \<open>Bounded maps\<close>

lemma finite_dom_upd [intro]: "finite (dom m) \<Longrightarrow> finite (dom (m(k \<mapsto> v)))"
  by simp

lemma dom_upd_same: "k \<in> dom m \<Longrightarrow> dom (m(k \<mapsto> v)) = dom m"
  by auto

end
