(* ===== verification/Graph_Model.thy ===== *)
theory Graph_Model
  imports Prelude
begin

section \<open>The graph executor: data, construction and committing a node\<close>

text \<open>
  \<open>internal/graphexec/executor.go\<close>, lines 14 to 207: the node states, the node, the
  transition handed to the store, the slot pool, the executor's own state, and the three
  functions every other operation is built from: \<open>New\<close>, \<open>notifyLocked\<close> and
  \<open>commitLocked\<close>.

  Conventions. A function that runs with \<open>e.mu\<close> held is one HOL function on the
  executor's state \<open>exec\<close>, since nothing else can touch the state meanwhile.
  \<open>clone\<close> copies a node so that later writes do not alias; values of HOL never alias,
  so it has no counterpart. A \<open>*active\<close> is a heap object that outlives its entry in
  \<open>e.active\<close>; it is an address in the list \<open>acts\<close>, so that the code's pointer
  comparison is a comparison of addresses. \<open>'db\<close> is the state behind the \<open>Store\<close>
  interface, which the code calls under the lock.
\<close>

subsection \<open>Nodes\<close>

datatype state =
    Unset \<comment> \<open>the zero value of the Go string type, replaced by \<open>Pending\<close> on entry\<close>
  | Pending | Ready | Running | Waiting | Done | Failed | Canceled

definition Terminal :: "state \<Rightarrow> bool" where
  "Terminal s \<longleftrightarrow> s = Done \<or> s = Failed \<or> s = Canceled"

lemma Terminal_simps [simp]:
  "Terminal Done" "Terminal Failed" "Terminal Canceled"
  "\<not> Terminal Unset" "\<not> Terminal Pending" "\<not> Terminal Ready" "\<not> Terminal Running" "\<not> Terminal Waiting"
  by (simp_all add: Terminal_def)

datatype waitReason = NoWait | WaitingForImage | WaitingForChildren | WaitingForRetry

record node =
  nodeID :: uuid
  parentID :: "uuid option"
  attempt :: int
  failures :: int
  maxAttempts :: int
  nstate :: state
  waitingOn :: waitReason
  imageKey :: bytes
  noutput :: bytes
  cacheKey :: bytes
  cacheHit :: bool
  nerror :: string
  nextAttemptAt :: time
  prerequisites :: "uuid list"

record transition =
  t_run :: uuid
  t_token :: uuid
  t_node :: uuid
  t_from :: state
  t_state :: state
  t_waitingOn :: waitReason
  t_attempt :: int
  t_failures :: int
  t_expected :: int
  t_output :: bytes
  t_error :: string
  t_at :: time
  t_next :: time
  t_cacheHit :: bool

subsection \<open>The slot pool\<close>

text \<open>
  A buffered channel used as a counting semaphore: \<open>used\<close> is the number of elements in
  the buffer. \<open>Acquire\<close> blocks while the buffer is full (\<^const>\<open>None\<close>), unless the
  context ends it; \<open>Release\<close> receives one element, and blocks on an empty buffer
  (\<^const>\<open>None\<close>), with \<open>e.mu\<close> held in most places.
\<close>

record slotPool =
  capacity :: nat
  used :: nat

definition NewSlots :: "int \<Rightarrow> slotPool" where
  "NewSlots n = \<lparr>capacity = nat (max n 1), used = 0\<rparr>"

definition slotAcquire :: "slotPool \<Rightarrow> slotPool option" where
  "slotAcquire p = (if used p < capacity p then Some (p\<lparr>used := Suc (used p)\<rparr>) else None)"

definition slotRelease :: "slotPool \<Rightarrow> slotPool option" where
  "slotRelease p = (case used p of 0 \<Rightarrow> None | Suc n \<Rightarrow> Some (p\<lparr>used := n\<rparr>))"

subsection \<open>Executor state\<close>

text \<open>
  \<open>o_store\<close> is the \<open>Store\<close> interface, or \<^const>\<open>None\<close> when it is nil: given the
  database, whether the passed context has already ended, and a transition, it returns an
  error or nil and the database after the call. \<open>o_clock n\<close> is the \<open>n\<close>-th reading of
  \<open>Clock.Now\<close>. The \<open>Runner\<close>, \<open>Images\<close> and \<open>Cache\<close> interfaces are called without
  the lock; their results are inputs of the step that takes the lock again, so only their
  being nil or not is recorded here.
\<close>

type_synonym 'db store = "'db \<Rightarrow> bool \<Rightarrow> transition \<Rightarrow> goerr option \<times> 'db"

record 'db opts =
  o_run :: uuid
  o_token :: uuid
  o_slots :: int
  o_pool :: "slotPool option"
  o_clock :: "nat \<Rightarrow> time"
  o_store :: "'db store option"
  o_hasRunner :: bool
  o_hasImages :: bool
  o_hasCache :: bool
  o_backoff :: "(int \<Rightarrow> int) option"

text \<open>
  \<open>own_cancel\<close> records that the attempt's own \<open>cancel\<close> was called; its context has also
  ended when the executor's has. \<open>resumeMu\<close> is the mutex of the same name.
\<close>

record active =
  own_cancel :: bool
  held :: bool
  waiters :: int
  resumeMu :: bool

record 'db exec =
  nodes :: "uuid \<rightharpoonup> node"
  actives :: "uuid \<rightharpoonup> nat"
  acts :: "active list"
  epoch :: nat \<comment> \<open>which \<open>changed\<close> channel is current\<close>
  wake :: bool \<comment> \<open>the one-element \<open>wake\<close> channel is full\<close>
  opts :: "'db opts"
  cancelled :: bool \<comment> \<open>\<open>e.ctx.Err() != nil\<close>\<close>
  started :: bool \<comment> \<open>also: \<open>e.cancel != nil\<close>\<close>
  err :: "goerr option"
  db :: 'db
  readings :: nat \<comment> \<open>readings of the clock so far\<close>
  pool :: slotPool
  timers :: "(uuid \<times> int \<times> time) list"

abbreviation node_state :: "'db exec \<Rightarrow> uuid \<Rightarrow> state option" where
  "node_state s i \<equiv> map_option nstate (nodes s i)"

definition now :: "'db exec \<Rightarrow> time" where
  "now s = o_clock (opts s) (readings s)"

abbreviation tick :: "'db exec \<Rightarrow> 'db exec" where
  "tick s \<equiv> s\<lparr>readings := Suc (readings s)\<rparr>"

subsection \<open>Construction\<close>

text \<open>The default \<open>RetryBackoff\<close>, in nanoseconds.\<close>

definition defaultBackoff :: "int \<Rightarrow> int" where
  "defaultBackoff n = 1000000000 * 2 ^ nat (min (max (wrap32 (n - 1)) 0) 6)"

definition backoff :: "'db opts \<Rightarrow> int \<Rightarrow> int" where
  "backoff o' n = (case o_backoff o' of None \<Rightarrow> defaultBackoff n | Some f \<Rightarrow> f n)"

definition orPending :: "node \<Rightarrow> node" where
  "orPending n = (if nstate n = Unset then n\<lparr>nstate := Pending\<rparr> else n)"

fun addSnapshot :: "node list \<Rightarrow> 'db exec \<Rightarrow> 'db exec" where
  "addSnapshot [] s = s"
| "addSnapshot (n # ns) s =
     (let s1 = (if nodes s (nodeID n) \<noteq> None
                then s\<lparr>err := Some (Plain ''graph has duplicate node IDs'')\<rparr> else s)
      in addSnapshot ns (s1\<lparr>nodes := (nodes s1)(nodeID n \<mapsto> orPending n)\<rparr>))"

definition New :: "node list \<Rightarrow> 'db opts \<Rightarrow> 'db \<Rightarrow> 'db exec" where
  "New snapshot o' d =
     addSnapshot snapshot
       \<lparr>nodes = Map.empty, actives = Map.empty, acts = [], epoch = 0, wake = False, opts = o',
        cancelled = False, started = False, err = None, db = d, readings = 0,
        pool = (case o_pool o' of None \<Rightarrow> NewSlots (o_slots o') | Some p \<Rightarrow> p),
        timers = []\<rparr>"

subsection \<open>Notifying and committing\<close>

text \<open>Closing \<open>changed\<close> and replacing it is a new epoch; the send to \<open>wake\<close> never blocks.\<close>

definition notifyLocked :: "'db exec \<Rightarrow> 'db exec" where
  "notifyLocked s = s\<lparr>epoch := Suc (epoch s), wake := True\<rparr>"

definition transitionOf :: "'db exec \<Rightarrow> node \<Rightarrow> node \<Rightarrow> transition" where
  "transitionOf s old next =
     \<lparr>t_run = o_run (opts s), t_token = o_token (opts s), t_node = nodeID next,
      t_from = nstate old, t_state = nstate next, t_waitingOn = waitingOn next,
      t_attempt = attempt next, t_failures = failures next, t_expected = attempt old,
      t_output = noutput next, t_error = nerror next, t_at = now s,
      t_next = nextAttemptAt next, t_cacheHit = cacheHit next\<rparr>"

text \<open>
  \<open>ctxErr\<close> says whether the context passed in has already ended. Reading \<open>old.State\<close>
  of a missing node panics; the branch is never taken by the code's callers.
\<close>

definition nilDeref :: goerr where
  "nilDeref = Plain ''runtime error: invalid memory address or nil pointer dereference''"

definition putNode :: "node \<Rightarrow> 'db exec \<Rightarrow> 'db exec" where
  "putNode n s = s\<lparr>nodes := (nodes s)(nodeID n \<mapsto> n)\<rparr>"

definition failStore :: "goerr \<Rightarrow> 'db exec \<Rightarrow> 'db exec" where
  "failStore e s = notifyLocked (s\<lparr>err := Some e, cancelled := cancelled s \<or> started s\<rparr>)"

definition commitLocked :: "bool \<Rightarrow> node \<Rightarrow> 'db exec \<Rightarrow> goerr option \<times> 'db exec" where
  "commitLocked ctxErr next s =
     (case err s of
        Some e \<Rightarrow> (Some e, s)
      | None \<Rightarrow>
          (case o_store (opts s) of
             None \<Rightarrow> (None, notifyLocked (putNode next s))
           | Some transition \<Rightarrow>
               (case nodes s (nodeID next) of
                  None \<Rightarrow> (Some nilDeref, s)
                | Some old \<Rightarrow>
                    (case transition (db s) ctxErr (transitionOf s old next) of
                       (Some e, d) \<Rightarrow> (Some e, failStore e (tick (s\<lparr>db := d\<rparr>)))
                     | (None, d) \<Rightarrow>
                         (None, notifyLocked (putNode next (tick (s\<lparr>db := d\<rparr>))))))))"

subsection \<open>What an operation may do to the graph\<close>

text \<open>
  Identity, tree position and keys of a node never change, and a terminal node never
  changes at all.
\<close>

definition sameStatic :: "node \<Rightarrow> node \<Rightarrow> bool" where
  "sameStatic n n' \<longleftrightarrow>
     nodeID n' = nodeID n \<and> parentID n' = parentID n \<and> maxAttempts n' = maxAttempts n \<and>
     imageKey n' = imageKey n \<and> cacheKey n' = cacheKey n \<and> prerequisites n' = prerequisites n"

definition node_le :: "node \<Rightarrow> node \<Rightarrow> bool" where
  "node_le n n' \<longleftrightarrow> sameStatic n n' \<and> (Terminal (nstate n) \<longrightarrow> n' = n)"

text \<open>
  The relation every operation of the executor respects: nodes never disappear and
  respect \<open>node_le\<close>; an error, once set, stays and freezes the graph; the context of a
  started run stays cancelled once it is; attempt objects are only added, and their cancellation is
  final.
\<close>

definition evolves :: "'db exec \<Rightarrow> 'db exec \<Rightarrow> bool" where
  "evolves s s' \<longleftrightarrow>
     (\<forall>i n. nodes s i = Some n \<longrightarrow> (\<exists>n'. nodes s' i = Some n' \<and> node_le n n')) \<and>
     (err s \<noteq> None \<longrightarrow> nodes s' = nodes s \<and> err s' = err s) \<and>
     (started s \<longrightarrow> started s' \<and> (cancelled s \<longrightarrow> cancelled s')) \<and> opts s' = opts s \<and>
     length (acts s) \<le> length (acts s') \<and>
     (\<forall>a < length (acts s). own_cancel (acts s ! a) \<longrightarrow> own_cancel (acts s' ! a))"

lemma sameStatic_refl [simp]: "sameStatic n n"
  by (simp add: sameStatic_def)

lemma node_le_refl [simp]: "node_le n n"
  by (simp add: node_le_def sameStatic_def)

lemma node_le_trans: "node_le a b \<Longrightarrow> node_le b c \<Longrightarrow> node_le a c"
  by (auto simp: node_le_def sameStatic_def)

lemma evolves_refl [simp, intro]: "evolves s s"
  by (auto simp: evolves_def)

lemma evolves_trans [trans]:
  assumes "evolves a b" and "evolves b c"
  shows "evolves a c"
  unfolding evolves_def
proof (intro conjI allI impI)
  fix i n assume "nodes a i = Some n"
  then show "\<exists>n'. nodes c i = Some n' \<and> node_le n n'"
    using assms node_le_trans unfolding evolves_def by meson
next
  fix k assume "k < length (acts a)" and "own_cancel (acts a ! k)"
  then show "own_cancel (acts c ! k)"
    using assms unfolding evolves_def by auto
qed (use assms in \<open>auto simp: evolves_def\<close>)

lemma evolves_terminal:
  "evolves s s' \<Longrightarrow> nodes s i = Some n \<Longrightarrow> Terminal (nstate n) \<Longrightarrow> nodes s' i = Some n"
  by (auto simp: evolves_def node_le_def dest: spec)

lemma evolves_errD: "evolves s s' \<Longrightarrow> err s = Some e \<Longrightarrow> nodes s' = nodes s \<and> err s' = Some e"
  by (simp add: evolves_def)

text \<open>Changes outside the fields of \<^const>\<open>evolves\<close> are free.\<close>

lemma evolves_same:
  assumes "nodes s' = nodes s" "err s' = err s" "cancelled s \<Longrightarrow> cancelled s'"
    "started s \<Longrightarrow> started s'" "opts s' = opts s" "acts s' = acts s"
  shows "evolves s s'"
  using assms by (auto simp: evolves_def)

text \<open>
  The shape of every node the code commits: a copy of the current node with its dynamic
  fields changed, made while the node was not terminal (or an identical copy).
\<close>

definition updates :: "'db exec \<Rightarrow> node \<Rightarrow> bool" where
  "updates s next \<longleftrightarrow>
     (\<exists>old. nodes s (nodeID next) = Some old \<and> node_le old next)"

subsection \<open>Facts about committing\<close>

lemma notifyLocked_frame [simp]:
  "nodes (notifyLocked s) = nodes s" "actives (notifyLocked s) = actives s"
  "acts (notifyLocked s) = acts s" "opts (notifyLocked s) = opts s"
  "cancelled (notifyLocked s) = cancelled s" "started (notifyLocked s) = started s"
  "err (notifyLocked s) = err s" "db (notifyLocked s) = db s"
  "readings (notifyLocked s) = readings s" "pool (notifyLocked s) = pool s"
  "timers (notifyLocked s) = timers s" "wake (notifyLocked s)"
  by (simp_all add: notifyLocked_def)

lemma putNode_frame [simp]:
  "nodes (putNode n s) = (nodes s)(nodeID n \<mapsto> n)" "actives (putNode n s) = actives s"
  "acts (putNode n s) = acts s" "opts (putNode n s) = opts s"
  "cancelled (putNode n s) = cancelled s" "started (putNode n s) = started s"
  "err (putNode n s) = err s" "db (putNode n s) = db s" "readings (putNode n s) = readings s"
  "pool (putNode n s) = pool s" "timers (putNode n s) = timers s"
  by (simp_all add: putNode_def)

lemma failStore_frame [simp]:
  "nodes (failStore e s) = nodes s" "actives (failStore e s) = actives s"
  "acts (failStore e s) = acts s" "opts (failStore e s) = opts s"
  "cancelled (failStore e s) = (cancelled s \<or> started s)" "started (failStore e s) = started s"
  "err (failStore e s) = Some e" "db (failStore e s) = db s"
  "readings (failStore e s) = readings s" "pool (failStore e s) = pool s"
  "timers (failStore e s) = timers s"
  by (simp_all add: failStore_def)

text \<open>What a commit leaves alone, whatever its outcome.\<close>

lemma commit_frame [frame_simps]:
  assumes "commitLocked c next s = (r, s')"
  shows "actives s' = actives s" "acts s' = acts s" "opts s' = opts s" "started s' = started s"
    "pool s' = pool s" "timers s' = timers s"
  using assms by (auto simp: commitLocked_def split: option.splits prod.splits)

lemma commit_dom:
  assumes "commitLocked c next s = (r, s')" and "nodeID next \<in> dom (nodes s)"
  shows "dom (nodes s') = dom (nodes s)"
  using assms
  by (auto simp: commitLocked_def split: option.splits prod.splits if_splits)

lemma commit_ok:
  assumes "commitLocked c next s = (None, s')"
  shows "nodes s' = (nodes s)(nodeID next \<mapsto> next)" "err s = None" "err s' = None"
    "cancelled s' = cancelled s" "wake s'"
  using assms by (auto simp: commitLocked_def split: option.splits prod.splits)

lemma commit_failed:
  assumes "commitLocked c next s = (Some e, s')"
  shows "nodes s' = nodes s" "err s = None \<Longrightarrow> nodeID next \<in> dom (nodes s) \<Longrightarrow> err s' = Some e"
    "err s \<noteq> None \<Longrightarrow> s' = s \<and> err s = Some e"
    "err s = None \<Longrightarrow> nodeID next \<in> dom (nodes s) \<Longrightarrow> started s \<Longrightarrow> cancelled s'"
  using assms by (auto simp: commitLocked_def split: option.splits prod.splits)

lemma commit_err:
  assumes "commitLocked c next s = (Some e, s')" and "nodeID next \<in> dom (nodes s)"
  shows "err s' \<noteq> None"
  using commit_failed(2,3) [OF assms(1)] assms(2) by (cases "err s") auto

lemma commit_cancelled:
  assumes "commitLocked c next s = (r, s')"
  shows "cancelled s' = (cancelled s \<or> started s \<and> err s = None \<and> err s' \<noteq> None)"
  using assms by (auto simp: commitLocked_def split: option.splits prod.splits)

text \<open>Committing a well-shaped update respects \<^const>\<open>evolves\<close>.\<close>

lemma commit_evolves:
  assumes c: "commitLocked c next s = (r, s')" and u: "updates s next"
  shows "evolves s s'"
proof -
  from u obtain old where old: "nodes s (nodeID next) = Some old" "node_le old next"
    by (auto simp: updates_def)
  show ?thesis
  proof (cases r)
    case None
    with c have ok: "commitLocked c next s = (None, s')" by simp
    show ?thesis
      unfolding evolves_def
      using commit_ok [OF ok] commit_frame [OF c] old by auto
  next
    case (Some e)
    with c have bad: "commitLocked c next s = (Some e, s')" by simp
    have "nodes s' = nodes s" by (rule commit_failed [OF bad])
    moreover have "err s \<noteq> None \<Longrightarrow> s' = s"
      using commit_failed (3) [OF bad] by simp
    moreover have "cancelled s \<Longrightarrow> cancelled s'"
      using commit_cancelled [OF c] by simp
    ultimately show ?thesis
      unfolding evolves_def using commit_frame [OF c] by auto
  qed
qed

end
