(* ===== verification/Graph_Validate.thy ===== *)
theory Graph_Validate
  imports Graph_Model
begin

section \<open>Validation of the graph\<close>

text \<open>
  \<open>validateLocked\<close> (lines 209 to 251 of \<open>internal/graphexec/executor.go\<close>): a depth-first
  search over prerequisites with the maps \<open>visiting\<close> and \<open>visited\<close>, and a walk up the
  parent chain of every node. The main result is that the search accepts exactly the
  graphs without dangling references and without cycles.

  \<open>visiting[id]\<close> is set before the recursive calls and cleared after them, and an error
  ends the whole search, so it is the set of the ids on the path to the current one and is
  passed down. The recursion and the parent walk get a fuel argument;
  \<open>visit_total\<close> and \<open>chain_total\<close> show that one more than the number of nodes is
  enough on every graph.
\<close>

definition cycleErr :: goerr where "cycleErr = Plain ''graph contains a cycle''"
definition missingErr :: goerr where "missingErr = Plain ''graph references a missing node''"
definition missingParentErr :: goerr where
  "missingParentErr = Plain ''graph references a missing parent''"
definition parentCycleErr :: goerr where
  "parentCycleErr = Plain ''graph contains a parent cycle''"
definition outOfFuel :: goerr where "outOfFuel = Plain ''out of fuel''"

fun visit :: "nat \<Rightarrow> (uuid \<rightharpoonup> node) \<Rightarrow> uuid set \<Rightarrow> uuid set \<Rightarrow> uuid \<Rightarrow>
    (goerr + uuid set) option"
  and visits :: "nat \<Rightarrow> (uuid \<rightharpoonup> node) \<Rightarrow> uuid set \<Rightarrow> uuid set \<Rightarrow> uuid list \<Rightarrow>
    (goerr + uuid set) option" where
  "visit 0 ns visiting visited i = None"
| "visit (Suc k) ns visiting visited i =
     (if i \<in> visiting then Some (Inl cycleErr)
      else if i \<in> visited then Some (Inr visited)
      else (case ns i of
              None \<Rightarrow> Some (Inl missingErr)
            | Some n \<Rightarrow>
                (case visits k ns (insert i visiting) visited (prerequisites n) of
                   None \<Rightarrow> None
                 | Some (Inl e) \<Rightarrow> Some (Inl e)
                 | Some (Inr v) \<Rightarrow> Some (Inr (insert i v)))))"
| "visits k ns visiting visited [] = Some (Inr visited)"
| "visits k ns visiting visited (p # ps) =
     (case visit k ns visiting visited p of
        None \<Rightarrow> None
      | Some (Inl e) \<Rightarrow> Some (Inl e)
      | Some (Inr v) \<Rightarrow> visits k ns visiting v ps)"

fun chain :: "nat \<Rightarrow> (uuid \<rightharpoonup> node) \<Rightarrow> uuid set \<Rightarrow> node \<Rightarrow> goerr option option" where
  "chain 0 ns ancestors current = None"
| "chain (Suc k) ns ancestors current =
     (case parentID current of
        None \<Rightarrow> Some None
      | Some p \<Rightarrow>
          (case ns p of
             None \<Rightarrow> Some (Some missingParentErr)
           | Some parent \<Rightarrow>
               if nodeID current \<in> ancestors then Some (Some parentCycleErr)
               else chain k ns (insert (nodeID current) ancestors) parent))"

fun validateEach :: "nat \<Rightarrow> (uuid \<rightharpoonup> node) \<Rightarrow> uuid set \<Rightarrow> uuid list \<Rightarrow> goerr option" where
  "validateEach k ns visited [] = None"
| "validateEach k ns visited (i # is) =
     (case ns i of
        None \<Rightarrow> Some nilDeref
      | Some n \<Rightarrow>
          (case chain k ns {} n of
             None \<Rightarrow> Some outOfFuel
           | Some (Some e) \<Rightarrow> Some e
           | Some None \<Rightarrow>
               (case visit k ns {} visited i of
                  None \<Rightarrow> Some outOfFuel
                | Some (Inl e) \<Rightarrow> Some e
                | Some (Inr v) \<Rightarrow> validateEach k ns v is)))"

text \<open>\<open>order\<close> is the order in which \<open>range e.nodes\<close> yields the keys.\<close>

definition validateLocked :: "uuid list \<Rightarrow> 'db exec \<Rightarrow> goerr option" where
  "validateLocked order s =
     (case err s of
        Some e \<Rightarrow> Some e
      | None \<Rightarrow> validateEach (Suc (length order)) (nodes s) {} order)"

subsection \<open>What a valid graph is\<close>

text \<open>Both searches follow references of a node: \<open>refs\<close> is \<open>prerequisites\<close> or the parent.\<close>

definition parentRefs :: "node \<Rightarrow> uuid list" where
  "parentRefs n = (case parentID n of None \<Rightarrow> [] | Some p \<Rightarrow> [p])"

definition refRel :: "(node \<Rightarrow> uuid list) \<Rightarrow> (uuid \<rightharpoonup> node) \<Rightarrow> (uuid \<times> uuid) set" where
  "refRel refs ns = {(p, i). \<exists>n. ns i = Some n \<and> p \<in> set (refs n)}"

definition closedAcyclic :: "(node \<Rightarrow> uuid list) \<Rightarrow> (uuid \<rightharpoonup> node) \<Rightarrow> bool" where
  "closedAcyclic refs ns \<longleftrightarrow> Domain (refRel refs ns) \<subseteq> dom ns \<and> acyclic (refRel refs ns)"

definition validGraph :: "(uuid \<rightharpoonup> node) \<Rightarrow> bool" where
  "validGraph ns \<longleftrightarrow> closedAcyclic prerequisites ns \<and> closedAcyclic parentRefs ns"

definition keyed :: "(uuid \<rightharpoonup> node) \<Rightarrow> bool" where
  "keyed ns \<longleftrightarrow> (\<forall>i n. ns i = Some n \<longrightarrow> nodeID n = i)"

text \<open>A node whose references all lead, without a cycle, to nodes of the graph.\<close>

inductive clean :: "(node \<Rightarrow> uuid list) \<Rightarrow> (uuid \<rightharpoonup> node) \<Rightarrow> uuid \<Rightarrow> bool"
  for refs ns where
  clean: "ns i = Some n \<Longrightarrow> (\<And>p. p \<in> set (refs n) \<Longrightarrow> clean refs ns p) \<Longrightarrow> clean refs ns i"

inductive_cases cleanE: "clean refs ns i"

lemma cleanI:
  "ns i = Some n \<Longrightarrow> \<forall>p\<in>set (refs n). clean refs ns p \<Longrightarrow> clean refs ns i"
  by (rule clean.clean) auto

lemma clean_no_cycle:
  assumes "clean refs ns i"
  shows "(i, i) \<notin> (refRel refs ns)\<^sup>+"
  using assms
proof (induction rule: clean.induct)
  case (clean i n)
  show ?case
  proof
    assume "(i, i) \<in> (refRel refs ns)\<^sup>+"
    then obtain p where ip: "(i, p) \<in> (refRel refs ns)\<^sup>*" and pi: "(p, i) \<in> refRel refs ns"
      by (metis tranclD2)
    from pi clean.hyps have "p \<in> set (refs n)" by (auto simp: refRel_def)
    then have "(p, p) \<notin> (refRel refs ns)\<^sup>+" by (rule clean.IH)
    moreover from pi ip have "(p, p) \<in> (refRel refs ns)\<^sup>+" by (rule rtrancl_into_trancl2)
    ultimately show False by contradiction
  qed
qed

lemma clean_closedAcyclic:
  assumes "\<And>i. i \<in> dom ns \<Longrightarrow> clean refs ns i"
  shows "closedAcyclic refs ns"
  unfolding closedAcyclic_def
proof
  show "Domain (refRel refs ns) \<subseteq> dom ns"
  proof
    fix p assume "p \<in> Domain (refRel refs ns)"
    then obtain i n where "ns i = Some n" "p \<in> set (refs n)" by (auto simp: refRel_def)
    moreover from this have "clean refs ns i" using assms by blast
    ultimately have "clean refs ns p" by (auto elim: cleanE)
    then show "p \<in> dom ns" by (auto elim: cleanE)
  qed
  show "acyclic (refRel refs ns)"
  proof (rule acyclicI, rule allI, rule notI)
    fix i assume c: "(i, i) \<in> (refRel refs ns)\<^sup>+"
    then obtain p where "(p, i) \<in> refRel refs ns" by (auto dest: tranclD2)
    then have "i \<in> dom ns" by (auto simp: refRel_def)
    then show False using assms clean_no_cycle c by blast
  qed
qed

subsection \<open>The search is sound\<close>

lemma visit_sound:
  "visit k ns vg vd i = Some (Inr v) \<Longrightarrow> (\<forall>j\<in>vd. clean prerequisites ns j) \<Longrightarrow>
     i \<in> v \<and> vd \<subseteq> v \<and> (\<forall>j\<in>v. clean prerequisites ns j)"
  "visits k ns vg vd ps = Some (Inr v) \<Longrightarrow> (\<forall>j\<in>vd. clean prerequisites ns j) \<Longrightarrow>
     set ps \<subseteq> v \<and> vd \<subseteq> v \<and> (\<forall>j\<in>v. clean prerequisites ns j)"
proof (induction k ns vg vd i and k ns vg vd ps arbitrary: v and v rule: visit_visits.induct)
  case (1 ns vg vd i)
  then show ?case by simp
next
  case (2 k ns vg vd i)
  show ?case
  proof (cases "i \<in> vg \<or> i \<in> vd")
    case True
    with "2.prems" show ?thesis by (auto split: if_splits)
  next
    case False
    with "2.prems"(1) obtain n v' where n: "ns i = Some n" and v: "v = insert i v'"
      and vs: "visits k ns (insert i vg) vd (prerequisites n) = Some (Inr v')"
      by (auto split: option.splits sum.splits)
    have IH: "set (prerequisites n) \<subseteq> v' \<and> vd \<subseteq> v' \<and> (\<forall>j\<in>v'. clean prerequisites ns j)"
      using "2.IH" False n vs "2.prems"(2) by blast
    then have "\<forall>p\<in>set (prerequisites n). clean prerequisites ns p" by blast
    with n have "clean prerequisites ns i" by (rule cleanI)
    with IH v show ?thesis by auto
  qed
next
  case (3 k ns vg vd)
  then show ?case by simp
next
  case (4 k ns vg vd p ps)
  then obtain w where w: "visit k ns vg vd p = Some (Inr w)" "visits k ns vg w ps = Some (Inr v)"
    by (auto split: option.splits sum.splits)
  with "4.IH"(1) [OF w(1) "4.prems"(2)] "4.IH"(2) [OF w(1) refl w(2)]
  show ?case by auto
qed

lemma chain_sound:
  assumes "chain k ns anc cur = Some None" and "keyed ns" and "ns (nodeID cur) = Some cur"
  shows "clean parentRefs ns (nodeID cur)"
  using assms
proof (induction k ns anc cur rule: chain.induct)
  case (1 ns anc cur)
  then show ?case by simp
next
  case (2 k ns anc cur)
  show ?case
  proof (cases "parentID cur")
    case None
    with "2.prems"(3) show ?thesis
      by (intro cleanI [where refs = parentRefs]) (auto simp: parentRefs_def)
  next
    case (Some p)
    with "2.prems"(1) obtain par where par: "ns p = Some par"
      and rest: "chain k ns (insert (nodeID cur) anc) par = Some None"
      and new: "nodeID cur \<notin> anc"
      by (auto split: option.splits if_splits)
    have "nodeID par = p" using par "2.prems"(2) by (simp add: keyed_def)
    with "2.IH" [OF Some par new rest "2.prems"(2)] par have "clean parentRefs ns p" by simp
    with Some "2.prems"(3) show ?thesis
      by (intro cleanI [where refs = parentRefs]) (auto simp: parentRefs_def)
  qed
qed

lemma validateEach_sound:
  assumes "validateEach k ns vd is = None" and "keyed ns"
    and "\<forall>j\<in>vd. clean prerequisites ns j"
  shows "\<forall>j\<in>set is. clean prerequisites ns j \<and> clean parentRefs ns j"
  using assms
proof (induction k ns vd "is" rule: validateEach.induct)
  case (1 k ns vd)
  then show ?case by simp
next
  case (2 k ns vd i "is")
  from "2.prems"(1) obtain n v where n: "ns i = Some n" "chain k ns {} n = Some None"
    and v: "visit k ns {} vd i = Some (Inr v)" "validateEach k ns v is = None"
    by (auto split: option.splits sum.splits)
  have "nodeID n = i" using n(1) "2.prems"(2) by (simp add: keyed_def)
  then have "clean parentRefs ns i"
    using chain_sound [OF n(2) "2.prems"(2)] n(1) by simp
  moreover have "i \<in> v \<and> vd \<subseteq> v \<and> (\<forall>j\<in>v. clean prerequisites ns j)"
    by (rule visit_sound(1) [OF v(1) "2.prems"(3)])
  moreover from this have "\<forall>j\<in>v. clean prerequisites ns j" by blast
  then have "\<forall>j\<in>set is. clean prerequisites ns j \<and> clean parentRefs ns j"
    by (rule "2.IH" [OF n(1) n(2) refl v(1) refl v(2) "2.prems"(2)])
  ultimately show ?case by auto
qed

subsection \<open>The search is complete and its fuel is enough\<close>

lemma card_shrinks:
  assumes "finite D" and "i \<in> D" and "i \<notin> V"
  shows "card (D - insert i V) < card (D - V)"
  using assms by (intro psubset_card_mono) auto

lemma closedAcyclic_ref:
  assumes "closedAcyclic refs ns" and "ns i = Some n" and "p \<in> set (refs n)"
  shows "(p, i) \<in> refRel refs ns" "p \<in> dom ns"
proof -
  show r: "(p, i) \<in> refRel refs ns" using assms by (auto simp: refRel_def)
  then show "p \<in> dom ns" using assms(1) by (auto simp: closedAcyclic_def)
qed

lemma visit_complete:
  "closedAcyclic prerequisites ns \<Longrightarrow> finite (dom ns) \<Longrightarrow> vg \<subseteq> dom ns \<Longrightarrow> i \<in> dom ns \<Longrightarrow>
     (\<forall>q\<in>vg. (i, q) \<in> (refRel prerequisites ns)\<^sup>+) \<Longrightarrow> card (dom ns - vg) < k \<Longrightarrow>
     \<exists>v. visit k ns vg vd i = Some (Inr v)"
  "closedAcyclic prerequisites ns \<Longrightarrow> finite (dom ns) \<Longrightarrow> vg \<subseteq> dom ns \<Longrightarrow> set ps \<subseteq> dom ns \<Longrightarrow>
     (\<forall>p\<in>set ps. \<forall>q\<in>vg. (p, q) \<in> (refRel prerequisites ns)\<^sup>+) \<Longrightarrow> card (dom ns - vg) < k \<Longrightarrow>
     \<exists>v. visits k ns vg vd ps = Some (Inr v)"
proof (induction k ns vg vd i and k ns vg vd ps rule: visit_visits.induct)
  case (1 ns vg vd i)
  then show ?case by simp
next
  case (2 k ns vg vd i)
  let ?r = "refRel prerequisites ns"
  have ac: "acyclic ?r" using "2.prems"(1) by (simp add: closedAcyclic_def)
  have fresh: "i \<notin> vg" using "2.prems"(5) ac by (auto simp: acyclic_def)
  obtain n where n: "ns i = Some n" using "2.prems"(4) by auto
  show ?case
  proof (cases "i \<in> vd")
    case True
    with fresh show ?thesis by simp
  next
    case False
    have sub: "set (prerequisites n) \<subseteq> dom ns"
      using closedAcyclic_ref(2) [OF "2.prems"(1) n] by blast
    have path: "\<forall>p\<in>set (prerequisites n). \<forall>q\<in>insert i vg. (p, q) \<in> ?r\<^sup>+"
    proof (intro ballI)
      fix p q assume p: "p \<in> set (prerequisites n)" and q: "q \<in> insert i vg"
      have pi: "(p, i) \<in> ?r" by (rule closedAcyclic_ref(1) [OF "2.prems"(1) n p])
      show "(p, q) \<in> ?r\<^sup>+"
      proof (cases "q = i")
        case True
        with pi show ?thesis by auto
      next
        case False
        with q "2.prems"(5) have "(i, q) \<in> ?r\<^sup>+" by auto
        with pi show ?thesis by (rule trancl_into_trancl2)
      qed
    qed
    have fuel: "card (dom ns - insert i vg) < k"
      using card_shrinks [OF "2.prems"(2) "2.prems"(4) fresh] "2.prems"(6) by simp
    have vg': "insert i vg \<subseteq> dom ns" using "2.prems"(3,4) by simp
    obtain v where "visits k ns (insert i vg) vd (prerequisites n) = Some (Inr v)"
      using "2.IH" [OF fresh False n "2.prems"(1,2) vg' sub path fuel] by blast
    with fresh False n show ?thesis by simp
  qed
next
  case (3 k ns vg vd)
  then show ?case by simp
next
  case (4 k ns vg vd p ps)
  have p: "p \<in> dom ns" "\<forall>q\<in>vg. (p, q) \<in> (refRel prerequisites ns)\<^sup>+"
    and ps: "set ps \<subseteq> dom ns" "\<forall>p\<in>set ps. \<forall>q\<in>vg. (p, q) \<in> (refRel prerequisites ns)\<^sup>+"
    using "4.prems"(4,5) by auto
  obtain w where w: "visit k ns vg vd p = Some (Inr w)"
    using "4.IH"(1) [OF "4.prems"(1,2,3) p "4.prems"(6)] by blast
  obtain v where "visits k ns vg w ps = Some (Inr v)"
    using "4.IH"(2) [OF w refl "4.prems"(1,2,3) ps "4.prems"(6)] by blast
  with w show ?case by simp
qed

lemma chain_complete:
  assumes "closedAcyclic parentRefs ns" and "finite (dom ns)" and "keyed ns"
    and "ns (nodeID cur) = Some cur" and "anc \<subseteq> dom ns"
    and "\<forall>q\<in>anc. (nodeID cur, q) \<in> (refRel parentRefs ns)\<^sup>+" and "card (dom ns - anc) \<le> k"
  shows "chain k ns anc cur = Some None"
  using assms
proof (induction k ns anc cur rule: chain.induct)
  case (1 ns anc cur)
  then have "nodeID cur \<in> anc" by auto
  with "1.prems"(1,6) show ?case by (auto simp: closedAcyclic_def acyclic_def)
next
  case (2 k ns anc cur)
  let ?r = "refRel parentRefs ns"
  show ?case
  proof (cases "parentID cur")
    case None
    then show ?thesis by simp
  next
    case (Some p)
    then have "p \<in> set (parentRefs cur)" by (simp add: parentRefs_def)
    from closedAcyclic_ref [OF "2.prems"(1,4) this]
    have pr: "(p, nodeID cur) \<in> ?r" and "p \<in> dom ns" by auto
    then obtain par where par: "ns p = Some par" by auto
    then have pid: "nodeID par = p" using "2.prems"(3) by (simp add: keyed_def)
    have fresh: "nodeID cur \<notin> anc"
      using "2.prems"(1,6) by (auto simp: closedAcyclic_def acyclic_def)
    have "\<forall>q\<in>insert (nodeID cur) anc. (nodeID par, q) \<in> ?r\<^sup>+"
      using pr pid "2.prems"(6) by (auto intro: trancl_into_trancl2)
    moreover have "card (dom ns - insert (nodeID cur) anc) \<le> k"
      using card_shrinks [of "dom ns" "nodeID cur" anc] fresh "2.prems"(2,4,7) by fastforce
    moreover have "insert (nodeID cur) anc \<subseteq> dom ns" using "2.prems"(4,5) by auto
    ultimately have "chain k ns (insert (nodeID cur) anc) par = Some None"
      using "2.IH" [OF Some par fresh "2.prems"(1,2,3)] par pid by simp
    with Some par fresh show ?thesis by simp
  qed
qed

lemma validateEach_complete:
  assumes "validGraph ns" and "finite (dom ns)" and "keyed ns" and "set is \<subseteq> dom ns"
    and "card (dom ns) < k"
  shows "validateEach k ns vd is = None"
  using assms
proof (induction k ns vd "is" rule: validateEach.induct)
  case (1 k ns vd)
  then show ?case by simp
next
  case (2 k ns vd i "is")
  from "2.prems"(4) obtain n where n: "ns i = Some n" by auto
  have "chain k ns {} n = Some None"
    using n "2.prems" by (intro chain_complete) (auto simp: validGraph_def keyed_def)
  moreover obtain v where "visit k ns {} vd i = Some (Inr v)"
    using visit_complete(1) [of ns "{}" i k vd] n "2.prems" by (auto simp: validGraph_def)
  ultimately show ?case
    using "2.IH" [OF n] "2.prems" n by simp
qed

text \<open>On any graph, cyclic or not, the fuel does not run out.\<close>

lemma visit_total:
  "finite (dom ns) \<Longrightarrow> vg \<subseteq> dom ns \<Longrightarrow> card (dom ns - vg) < k \<Longrightarrow>
     visit k ns vg vd i \<noteq> None"
  "finite (dom ns) \<Longrightarrow> vg \<subseteq> dom ns \<Longrightarrow> card (dom ns - vg) < k \<Longrightarrow>
     visits k ns vg vd ps \<noteq> None"
proof (induction k ns vg vd i and k ns vg vd ps rule: visit_visits.induct)
  case (1 ns vg vd i)
  then show ?case by simp
next
  case (2 k ns vg vd i)
  show ?case
  proof (cases "i \<in> vg \<or> i \<in> vd \<or> ns i = None")
    case True
    then show ?thesis by auto
  next
    case False
    then obtain n where n: "ns i = Some n" and new: "i \<notin> vg" "i \<notin> vd" by auto
    have "card (dom ns - insert i vg) < k"
      using card_shrinks [of "dom ns" i vg] n new "2.prems" by fastforce
    moreover have "insert i vg \<subseteq> dom ns" using n "2.prems"(2) by auto
    ultimately have "visits k ns (insert i vg) vd (prerequisites n) \<noteq> None"
      using "2.IH" [OF new n "2.prems"(1)] by blast
    with n new show ?thesis by (auto split: sum.splits)
  qed
next
  case (3 k ns vg vd)
  then show ?case by simp
next
  case (4 k ns vg vd p ps)
  have "visit k ns vg vd p \<noteq> None" by (rule "4.IH"(1) [OF "4.prems"])
  then consider e where "visit k ns vg vd p = Some (Inl e)"
    | w where "visit k ns vg vd p = Some (Inr w)" by (metis not_None_eq sum.exhaust)
  then show ?case
  proof cases
    case (2 w)
    with "4.IH"(2) [OF 2 refl "4.prems"] show ?thesis by simp
  qed simp
qed

lemma chain_total:
  assumes "finite (dom ns)" and "keyed ns" and "ns (nodeID cur) = Some cur"
    and "anc \<subseteq> dom ns" and "card (dom ns - anc) < k"
  shows "chain k ns anc cur \<noteq> None"
  using assms
proof (induction k ns anc cur rule: chain.induct)
  case (1 ns anc cur)
  then show ?case by simp
next
  case (2 k ns anc cur)
  show ?case
  proof (cases "\<exists>p par. parentID cur = Some p \<and> ns p = Some par \<and> nodeID cur \<notin> anc")
    case True
    then obtain p par where p: "parentID cur = Some p" "ns p = Some par" "nodeID cur \<notin> anc"
      by blast
    have "nodeID par = p" using p(2) "2.prems"(2) by (simp add: keyed_def)
    moreover have "card (dom ns - insert (nodeID cur) anc) < k"
      using card_shrinks [of "dom ns" "nodeID cur" anc] p "2.prems" by fastforce
    moreover have "insert (nodeID cur) anc \<subseteq> dom ns" using "2.prems"(3,4) by auto
    ultimately have "chain k ns (insert (nodeID cur) anc) par \<noteq> None"
      using "2.IH" [OF p "2.prems"(1,2)] p by simp
    with p show ?thesis by simp
  next
    case False
    then show ?thesis by (auto split: option.splits)
  qed
qed

lemma visit_not_outOfFuel:
  "visit k ns vg vd i \<noteq> Some (Inl outOfFuel)" "visits k ns vg vd ps \<noteq> Some (Inl outOfFuel)"
proof (induction k ns vg vd i and k ns vg vd ps rule: visit_visits.induct)
  case (2 k ns vg vd i)
  then show ?case
    by (auto simp: cycleErr_def missingErr_def outOfFuel_def split: option.splits sum.splits)
next
  case (4 k ns vg vd p ps)
  show ?case
    using "4.IH"(1) "4.IH"(2) by (auto split: option.splits sum.splits)
qed simp_all

lemma chain_not_outOfFuel: "chain k ns anc cur \<noteq> Some (Some outOfFuel)"
  by (induction k ns anc cur rule: chain.induct)
    (auto simp: missingParentErr_def parentCycleErr_def outOfFuel_def split: option.splits)

lemma validateEach_enough_fuel:
  assumes "finite (dom ns)" and "keyed ns" and "card (dom ns) < k"
  shows "validateEach k ns vd is \<noteq> Some outOfFuel"
  using assms
proof (induction k ns vd "is" rule: validateEach.induct)
  case (1 k ns vd)
  then show ?case by simp
next
  case (2 k ns vd i "is")
  show ?case
  proof (cases "ns i")
    case None
    then show ?thesis by (simp add: nilDeref_def outOfFuel_def)
  next
    case (Some n)
    have c: "chain k ns {} n \<noteq> None"
      using Some "2.prems" by (intro chain_total) (auto simp: keyed_def)
    have v: "visit k ns {} vd i \<noteq> None"
      using "2.prems" by (intro visit_total) auto
    show ?thesis
    proof (cases "chain k ns {} n = Some None \<and> (\<exists>w. visit k ns {} vd i = Some (Inr w))")
      case True
      then obtain w where w: "chain k ns {} n = Some None" "visit k ns {} vd i = Some (Inr w)"
        by blast
      from "2.IH" [OF Some w(1) refl w(2) refl "2.prems"] Some w show ?thesis by simp
    next
      case False
      with c v Some show ?thesis
        using chain_not_outOfFuel [of k ns "{}" n] visit_not_outOfFuel(1) [of k ns "{}" vd i]
        by (auto split: option.splits sum.splits)
    qed
  qed
qed

subsection \<open>The verdict of validation\<close>

lemma validateLocked_correct:
  assumes "err s = None" and "keyed (nodes s)" and "set order = dom (nodes s)"
  shows "validateLocked order s = None \<longleftrightarrow> validGraph (nodes s)"
proof
  assume "validateLocked order s = None"
  then have "validateEach (Suc (length order)) (nodes s) {} order = None"
    using assms(1) by (simp add: validateLocked_def)
  from validateEach_sound [OF this assms(2)]
  have "\<forall>j\<in>dom (nodes s). clean prerequisites (nodes s) j \<and> clean parentRefs (nodes s) j"
    using assms(3) by auto
  then show "validGraph (nodes s)"
    unfolding validGraph_def by (auto intro!: clean_closedAcyclic)
next
  assume v: "validGraph (nodes s)"
  have "finite (dom (nodes s))" using assms(3) by (metis finite_set)
  moreover have "card (dom (nodes s)) < Suc (length order)"
    using assms(3) by (metis card_length less_Suc_eq_le)
  ultimately have "validateEach (Suc (length order)) (nodes s) {} order = None"
    using v assms(2,3) by (intro validateEach_complete) auto
  then show "validateLocked order s = None"
    using assms(1) by (simp add: validateLocked_def)
qed

text \<open>
  The search of \<open>validateLocked\<close> always ends with a verdict: its fuel covers the deepest
  path of any graph, so \<open>outOfFuel\<close> is never its answer.
\<close>

lemma validateLocked_enough_fuel:
  assumes "err s = None" and "keyed (nodes s)" and "set order = dom (nodes s)"
  shows "validateLocked order s \<noteq> Some outOfFuel"
proof -
  have "finite (dom (nodes s))" using assms(3) by (metis finite_set)
  moreover have "card (dom (nodes s)) < Suc (length order)"
    using assms(3) by (metis card_length less_Suc_eq_le)
  ultimately show ?thesis
    using assms(1,2) validateEach_enough_fuel by (auto simp: validateLocked_def)
qed

end
