(* ===== verification/Graph_Close.thy ===== *)
theory Graph_Close
  imports Graph_Validate
begin

section \<open>Closing a subtree, cancelling\<close>

text \<open>
  \<open>closeLocked\<close>, \<open>Cancel\<close> and \<open>CancelSubtree\<close> (lines 706 to 771 of
  \<open>internal/graphexec/executor.go\<close>). \<open>order\<close> is the order in which \<open>range e.nodes\<close>
  yields the keys; the breadth-first search collects the same set of ids in every order
  (\<open>set_closeIDs\<close>), and the final loop visits them in the order of \<open>order\<close>.
\<close>

definition isChild :: "(uuid \<rightharpoonup> node) \<Rightarrow> uuid \<Rightarrow> uuid \<Rightarrow> bool" where
  "isChild ns p c = (case ns c of None \<Rightarrow> False | Some n \<Rightarrow> parentID n = Some p)"

function closeIDs :: "(uuid \<rightharpoonup> node) \<Rightarrow> uuid list \<Rightarrow> uuid list \<Rightarrow> uuid list \<Rightarrow> uuid list" where
  "closeIDs ns order [] ids = ids"
| "closeIDs ns order (q # queue) ids =
     (let new = filter (\<lambda>c. isChild ns q c \<and> c \<notin> set ids) order
      in closeIDs ns order (queue @ new) (ids @ new))"
  by pat_completeness auto
termination
proof (relation "measures [\<lambda>(ns, order, queue, ids). card (set order - set ids),
                           \<lambda>(ns, order, queue, ids). length queue]", goal_cases)
  case 1
  show ?case by simp
next
  case (2 ns order q queue ids new)
  show ?case
  proof (cases "new = []")
    case True
    then show ?thesis by simp
  next
    case False
    then have "set order - set (ids @ new) \<subset> set order - set ids"
      using 2 by (auto simp: filter_empty_conv)
    then have "card (set order - set (ids @ new)) < card (set order - set ids)"
      by (intro psubset_card_mono) auto
    then show ?thesis by simp
  qed
qed

definition cancelActive :: "uuid \<Rightarrow> 'db exec \<Rightarrow> 'db exec" where
  "cancelActive i s =
     (case actives s i of
        None \<Rightarrow> s
      | Some a \<Rightarrow> s\<lparr>acts := (acts s)[a := (acts s ! a)\<lparr>own_cancel := True\<rparr>]\<rparr>)"

fun closeEach :: "bool \<Rightarrow> string \<Rightarrow> uuid list \<Rightarrow> 'db exec \<Rightarrow> goerr option \<times> 'db exec" where
  "closeEach ctxErr reason [] s = (None, s)"
| "closeEach ctxErr reason (i # is) s =
     (case nodes s i of
        None \<Rightarrow> (Some nilDeref, s)
      | Some n \<Rightarrow>
          if Terminal (nstate n) then closeEach ctxErr reason is s
          else (case commitLocked ctxErr
                       (n\<lparr>nstate := Canceled, waitingOn := NoWait, nerror := reason\<rparr>)
                       (cancelActive i s) of
                  (Some e, s') \<Rightarrow> (Some e, s')
                | (None, s') \<Rightarrow> closeEach ctxErr reason is s'))"

definition closeTargets :: "(uuid \<rightharpoonup> node) \<Rightarrow> uuid list \<Rightarrow> uuid \<Rightarrow> uuid list" where
  "closeTargets ns order parent =
     (if parent = nilUUID then order
      else (let ids = closeIDs ns order [parent] [] in filter (\<lambda>i. i \<in> set ids) order))"

definition closeLocked ::
    "uuid list \<Rightarrow> bool \<Rightarrow> uuid \<Rightarrow> string \<Rightarrow> 'db exec \<Rightarrow> goerr option \<times> 'db exec" where
  "closeLocked order ctxErr parent reason s =
     closeEach ctxErr reason (closeTargets (nodes s) order parent) s"

text \<open>\<open>e.cancel()\<close>, when there is one.\<close>

definition cancelExec :: "'db exec \<Rightarrow> 'db exec" where
  "cancelExec s = (if started s then s\<lparr>cancelled := True\<rparr> else s)"

definition Cancel :: "uuid list \<Rightarrow> 'db exec \<Rightarrow> 'db exec" where
  "Cancel order s = cancelExec (snd (closeLocked order False nilUUID ''run canceled'' s))"

definition nodeNotFound :: goerr where "nodeNotFound = Plain ''node not found''"

definition CancelSubtree :: "uuid list \<Rightarrow> bool \<Rightarrow> uuid \<Rightarrow> 'db exec \<Rightarrow> goerr option \<times> 'db exec" where
  "CancelSubtree order ctxErr i s =
     (case nodes s i of
        None \<Rightarrow> (Some nodeNotFound, s)
      | Some n \<Rightarrow>
          if Terminal (nstate n) then closeLocked order ctxErr i ''ancestor canceled'' s
          else (case commitLocked ctxErr (n\<lparr>nstate := Canceled, nerror := ''action canceled''\<rparr>)
                       (cancelActive i s) of
                  (Some e, s') \<Rightarrow> (Some e, s')
                | (None, s') \<Rightarrow> closeLocked order ctxErr i ''ancestor canceled'' s'))"

subsection \<open>The breadth-first search collects the descendants\<close>

definition childRel :: "(uuid \<rightharpoonup> node) \<Rightarrow> (uuid \<times> uuid) set" where
  "childRel ns = {(p, c). isChild ns p c}"

lemma isChild_dom: "isChild ns p c \<Longrightarrow> c \<in> dom ns"
  by (auto simp: isChild_def split: option.splits)

text \<open>
  The loop invariant: every id collected is a descendant of a start, and the children of
  an id that was collected or queued first are collected unless it is still in the queue.
\<close>

lemma closeIDs_correct:
  assumes "set order = dom ns"
    and "\<forall>q\<in>set queue. q = root \<or> (root, q) \<in> (childRel ns)\<^sup>+"
    and "\<forall>i\<in>set ids. (root, i) \<in> (childRel ns)\<^sup>+"
    and "\<forall>i. (i = root \<or> i \<in> set ids) \<and> i \<notin> set queue \<longrightarrow> (\<forall>c. isChild ns i c \<longrightarrow> c \<in> set ids)"
  shows "set (closeIDs ns order queue ids) = {c. (root, c) \<in> (childRel ns)\<^sup>+}"
  using assms
proof (induction ns order queue ids rule: closeIDs.induct)
  case (1 ns order ids)
  have "(root, c) \<in> (childRel ns)\<^sup>+ \<Longrightarrow> c \<in> set ids" for c
    by (induction rule: trancl_induct) (use "1.prems"(4) in \<open>auto simp: childRel_def\<close>)
  with "1.prems"(3) show ?case by auto
next
  case (2 ns order q queue ids)
  define new where "new = filter (\<lambda>c. isChild ns q c \<and> c \<notin> set ids) order"
  have q: "q = root \<or> (root, q) \<in> (childRel ns)\<^sup>+" using "2.prems"(2) by simp
  have new: "(root, c) \<in> (childRel ns)\<^sup>+" if "c \<in> set new" for c
  proof -
    from that have "(q, c) \<in> childRel ns" by (auto simp: new_def childRel_def)
    with q show ?thesis by (auto intro: trancl.trancl_into_trancl)
  qed
  have all: "c \<in> set (ids @ new)" if "isChild ns q c" for c
    using that isChild_dom [OF that] "2.prems"(1) by (auto simp: new_def)
  have "set (closeIDs ns order (queue @ new) (ids @ new)) = {c. (root, c) \<in> (childRel ns)\<^sup>+}"
  proof (rule "2.IH" [OF new_def "2.prems"(1)])
    show "\<forall>q\<in>set (queue @ new). q = root \<or> (root, q) \<in> (childRel ns)\<^sup>+"
      using "2.prems"(2) new by auto
    show "\<forall>i\<in>set (ids @ new). (root, i) \<in> (childRel ns)\<^sup>+"
      using "2.prems"(3) new by auto
    show "\<forall>i. (i = root \<or> i \<in> set (ids @ new)) \<and> i \<notin> set (queue @ new) \<longrightarrow>
        (\<forall>c. isChild ns i c \<longrightarrow> c \<in> set (ids @ new))"
      using "2.prems"(4) all by auto
  qed
  then show ?case by (simp add: new_def Let_def)
qed

declare closeIDs.simps [simp del]

lemma set_closeIDs:
  assumes "set order = dom ns"
  shows "set (closeIDs ns order [parent] []) = {c. (parent, c) \<in> (childRel ns)\<^sup>+}"
  using assms by (intro closeIDs_correct) auto

lemma trancl_child_dom: "(p, c) \<in> (childRel ns)\<^sup>+ \<Longrightarrow> c \<in> dom ns"
  by (induction rule: trancl_induct) (auto simp: childRel_def dest: isChild_dom)

lemma set_closeTargets:
  assumes "set order = dom ns"
  shows "set (closeTargets ns order parent) =
    (if parent = nilUUID then dom ns else {c. (parent, c) \<in> (childRel ns)\<^sup>+})"
  using assms by (auto simp: closeTargets_def set_closeIDs dest: trancl_child_dom)

subsection \<open>What closing does\<close>

lemma cancelActive_frame [simp]:
  "nodes (cancelActive i s) = nodes s" "actives (cancelActive i s) = actives s"
  "opts (cancelActive i s) = opts s" "cancelled (cancelActive i s) = cancelled s"
  "started (cancelActive i s) = started s" "err (cancelActive i s) = err s"
  "db (cancelActive i s) = db s" "readings (cancelActive i s) = readings s"
  "pool (cancelActive i s) = pool s" "timers (cancelActive i s) = timers s"
  "length (acts (cancelActive i s)) = length (acts s)"
  by (simp_all add: cancelActive_def split: option.splits)

lemma cancelActive_acts:
  "a < length (acts s) \<Longrightarrow> held (acts (cancelActive i s) ! a) = held (acts s ! a)"
  "a < length (acts s) \<Longrightarrow> waiters (acts (cancelActive i s) ! a) = waiters (acts s ! a)"
  "a < length (acts s) \<Longrightarrow> resumeMu (acts (cancelActive i s) ! a) = resumeMu (acts s ! a)"
  "a < length (acts s) \<Longrightarrow> own_cancel (acts s ! a) \<Longrightarrow> own_cancel (acts (cancelActive i s) ! a)"
  by (auto simp: cancelActive_def nth_upd split: option.splits)

lemma cancelActive_evolves [simp]: "evolves s (cancelActive i s)"
  using cancelActive_acts(4) by (fastforce simp: evolves_def)

lemma countP_held_cancelActive [simp]:
  "countP held (acts (cancelActive i s)) = countP held (acts s)"
proof (cases "actives s i")
  case (Some a)
  then show ?thesis
    by (cases "a < length (acts s)")
      (simp_all add: cancelActive_def countP_update_same list_update_beyond)
qed (simp add: cancelActive_def)

lemma updates_node:
  assumes "nodes s i = Some n" and "keyed (nodes s)" and "\<not> Terminal (nstate n)"
    and "sameStatic n n'"
  shows "updates s n'"
  using assms by (auto simp: updates_def node_le_def keyed_def sameStatic_def)

lemma keyed_commit:
  "keyed (nodes s) \<Longrightarrow> commitLocked c next s = (r, s') \<Longrightarrow> keyed (nodes s')"
  by (auto simp: keyed_def commitLocked_def split: option.splits prod.splits if_splits)

text \<open>
  \<open>calm\<close> relates the states around an operation that commits nodes and may cancel
  attempts, but neither starts nor ends one and takes and gives back no slot.
\<close>

definition calm :: "'db exec \<Rightarrow> 'db exec \<Rightarrow> bool" where
  "calm s s' \<longleftrightarrow>
     actives s' = actives s \<and> pool s' = pool s \<and> started s' = started s \<and>
     map held (acts s') = map held (acts s) \<and> map waiters (acts s') = map waiters (acts s) \<and>
     map resumeMu (acts s') = map resumeMu (acts s) \<and> dom (nodes s') = dom (nodes s)"

lemma calm_refl [simp, intro]: "calm s s"
  by (simp add: calm_def)

lemma calm_trans [trans]: "calm a b \<Longrightarrow> calm b c \<Longrightarrow> calm a c"
  by (simp add: calm_def)

lemma countP_map: "countP P (map f xs) = countP (P \<circ> f) xs"
  by (induction xs) auto

lemma calm_held: "calm s s' \<Longrightarrow> countP held (acts s') = countP held (acts s)"
proof -
  assume "calm s s'"
  then have "countP id (map held (acts s')) = countP id (map held (acts s))"
    by (simp add: calm_def)
  then show ?thesis by (simp add: countP_map)
qed

lemma calm_length: "calm s s' \<Longrightarrow> length (acts s') = length (acts s)"
  unfolding calm_def by (metis length_map)

lemma map_upd_same: "f x = f (xs ! i) \<Longrightarrow> map f (xs[i := x]) = map f xs"
  by (cases "i < length xs") (simp_all add: map_update list_update_same_conv list_update_beyond)

lemma cancelActive_calm [simp]: "calm s (cancelActive i s)"
  by (simp add: calm_def cancelActive_def map_upd_same split: option.splits)

lemma commit_calm:
  assumes "commitLocked c next s = (r, s')" and "nodeID next \<in> dom (nodes s)"
  shows "calm s s'"
  using commit_frame [OF assms(1)] commit_dom [OF assms] by (simp add: calm_def)

lemma updates_dom: "updates s next \<Longrightarrow> nodeID next \<in> dom (nodes s)"
  by (auto simp: updates_def)

text \<open>The bundle of facts every committing section satisfies.\<close>

definition tidy :: "'db exec \<Rightarrow> 'db exec \<Rightarrow> bool" where
  "tidy s s' \<longleftrightarrow> evolves s s' \<and> calm s s' \<and> (keyed (nodes s) \<longrightarrow> keyed (nodes s'))"

lemma tidy_refl [simp, intro]: "tidy s s"
  by (simp add: tidy_def)

lemma tidy_trans [trans]: "tidy a b \<Longrightarrow> tidy b c \<Longrightarrow> tidy a c"
  unfolding tidy_def using evolves_trans calm_trans by blast

lemma cancelActive_tidy [simp]: "tidy s (cancelActive i s)"
  by (simp add: tidy_def)

lemma commit_tidy:
  "commitLocked c next s = (r, s') \<Longrightarrow> updates s next \<Longrightarrow> tidy s s'"
  unfolding tidy_def
  by (intro conjI impI, erule (1) commit_evolves, erule commit_calm, erule updates_dom,
      erule (1) keyed_commit)

definition closedNode :: "string \<Rightarrow> node \<Rightarrow> node" where
  "closedNode reason n =
     (if Terminal (nstate n) then n
      else n\<lparr>nstate := Canceled, waitingOn := NoWait, nerror := reason\<rparr>)"

lemma closedNode_Terminal [simp]: "Terminal (nstate (closedNode reason n))"
  by (simp add: closedNode_def)

lemma closedNode_ID [simp]: "nodeID (closedNode reason n) = nodeID n"
  by (simp add: closedNode_def)

lemma closed_updates:
  "nodes s i = Some n \<Longrightarrow> keyed (nodes s) \<Longrightarrow> \<not> Terminal (nstate n) \<Longrightarrow>
   updates s (n\<lparr>nstate := t, waitingOn := w, nerror := e\<rparr>)"
  by (rule updates_node) (auto simp: sameStatic_def)

lemma closeEach_tidy:
  assumes "closeEach c reason is s = (r, s')" and "keyed (nodes s)"
  shows "tidy s s'"
  using assms
proof (induction c reason "is" s arbitrary: r s' rule: closeEach.induct)
  case (1 c reason s)
  then show ?case by simp
next
  case (2 c reason i "is" s)
  show ?case
  proof (cases "\<exists>n. nodes s i = Some n \<and> \<not> Terminal (nstate n)")
    case False
    with 2 show ?thesis by (auto split: option.splits)
  next
    case True
    then obtain n where n: "nodes s i = Some n" "\<not> Terminal (nstate n)" by blast
    let ?next = "n\<lparr>nstate := Canceled, waitingOn := NoWait, nerror := reason\<rparr>"
    obtain q t where q: "commitLocked c ?next (cancelActive i s) = (q, t)"
      by (metis surj_pair)
    have "updates (cancelActive i s) ?next"
      using n "2.prems"(2) by (intro closed_updates) auto
    from commit_tidy [OF q this] have t: "tidy s t"
      using tidy_trans cancelActive_tidy by blast
    show ?thesis
    proof (cases q)
      case (Some e)
      with "2.prems"(1) n q t show ?thesis by simp
    next
      case None
      with "2.prems"(1) n q have rest: "closeEach c reason is t = (r, s')" by simp
      have "keyed (nodes t)" using t "2.prems"(2) by (simp add: tidy_def)
      with "2.IH"(2) [OF n q [symmetric] None rest] t
      show ?thesis using tidy_trans by blast
    qed
  qed
qed

lemma closeEach_ok:
  assumes "closeEach c reason is s = (None, s')" and "keyed (nodes s)"
  shows "nodes s' = (\<lambda>i. if i \<in> set is then map_option (closedNode reason) (nodes s i)
                         else nodes s i)"
  using assms
proof (induction c reason "is" s arbitrary: s' rule: closeEach.induct)
  case (1 c reason s)
  then show ?case by simp
next
  case (2 c reason i "is" s)
  from "2.prems"(1) obtain n where n: "nodes s i = Some n" by (auto split: option.splits)
  show ?case
  proof (cases "Terminal (nstate n)")
    case True
    with 2 n have "nodes s' = (\<lambda>i. if i \<in> set is then map_option (closedNode reason) (nodes s i)
                         else nodes s i)" by simp
    with n True show ?thesis by (auto simp: closedNode_def fun_eq_iff)
  next
    case False
    let ?next = "n\<lparr>nstate := Canceled, waitingOn := NoWait, nerror := reason\<rparr>"
    from "2.prems"(1) n False obtain t where
      q: "commitLocked c ?next (cancelActive i s) = (None, t)"
      and rest: "closeEach c reason is t = (None, s')"
      by (auto split: prod.splits option.splits)
    have id: "nodeID n = i" using n "2.prems"(2) by (simp add: keyed_def)
    have t: "nodes t = (nodes s)(i \<mapsto> closedNode reason n)"
      using commit_ok(1) [OF q] False id by (simp add: closedNode_def)
    have "keyed (nodes t)" using keyed_commit [OF _ q] "2.prems"(2) by simp
    from "2.IH"(2) [OF n False q [symmetric] refl rest this]
    show ?thesis using t n by (auto simp: fun_eq_iff closedNode_def)
  qed
qed

text \<open>Closing fails only with an error that is recorded.\<close>

lemma closeEach_err:
  assumes "closeEach c reason is s = (Some e, s')" and "set is \<subseteq> dom (nodes s)" and "keyed (nodes s)"
  shows "err s' \<noteq> None"
  using assms
proof (induction c reason "is" s arbitrary: s' rule: closeEach.induct)
  case (1 c reason s)
  then show ?case by simp
next
  case (2 c reason i "is" s)
  from "2.prems"(2) obtain n where n: "nodes s i = Some n" by auto
  show ?case
  proof (cases "Terminal (nstate n)")
    case True
    with 2 n show ?thesis by auto
  next
    case False
    let ?next = "n\<lparr>nstate := Canceled, waitingOn := NoWait, nerror := reason\<rparr>"
    have id: "nodeID ?next \<in> dom (nodes (cancelActive i s))"
      using n "2.prems"(3) by (auto simp: keyed_def)
    obtain q t where q: "commitLocked c ?next (cancelActive i s) = (q, t)"
      by (metis surj_pair)
    show ?thesis
    proof (cases q)
      case (Some x)
      with "2.prems"(1) n q False have "s' = t" by simp
      with commit_err [OF _ id] q Some show ?thesis by blast
    next
      case None
      with "2.prems"(1) n q False have rest: "closeEach c reason is t = (Some e, s')" by simp
      have "dom (nodes t) = dom (nodes s)" using commit_dom [OF q id] by simp
      with "2.IH"(2) [OF n False q [symmetric] None rest] "2.prems"(2,3) keyed_commit [OF _ q]
      show ?thesis by simp
    qed
  qed
qed

lemma closeLocked_tidy:
  "closeLocked order c parent reason s = (r, s') \<Longrightarrow> keyed (nodes s) \<Longrightarrow> tidy s s'"
  unfolding closeLocked_def by (rule closeEach_tidy)

lemma closeLocked_ok:
  assumes "closeLocked order c parent reason s = (None, s')" and "keyed (nodes s)"
    and "set order = dom (nodes s)"
  shows "nodes s' = (\<lambda>i. if parent = nilUUID \<or> (parent, i) \<in> (childRel (nodes s))\<^sup>+
                         then map_option (closedNode reason) (nodes s i) else nodes s i)"
proof -
  have "nodes s' = (\<lambda>i. if i \<in> set (closeTargets (nodes s) order parent)
      then map_option (closedNode reason) (nodes s i) else nodes s i)"
    using assms by (intro closeEach_ok) (auto simp: closeLocked_def)
  then show ?thesis
    using set_closeTargets [OF assms(3), of parent] by (auto simp: fun_eq_iff domIff)
qed

lemma cancelExec_tidy [simp]: "tidy s (cancelExec s)"
  by (auto simp: tidy_def calm_def evolves_def cancelExec_def)

lemma Cancel_tidy: "keyed (nodes s) \<Longrightarrow> tidy s (Cancel order s)"
  unfolding Cancel_def
  by (rule tidy_trans [OF closeLocked_tidy cancelExec_tidy]) (auto simp: prod_eq_iff)

lemma CancelSubtree_tidy:
  assumes "CancelSubtree order c i s = (r, s')" and "keyed (nodes s)"
  shows "tidy s s'"
proof (cases "\<exists>n. nodes s i = Some n \<and> \<not> Terminal (nstate n)")
  case False
  with assms show ?thesis
    by (auto simp: CancelSubtree_def split: option.splits dest: closeLocked_tidy)
next
  case True
  then obtain n where n: "nodes s i = Some n" "\<not> Terminal (nstate n)" by blast
  let ?next = "n\<lparr>nstate := Canceled, nerror := ''action canceled''\<rparr>"
  obtain q t where q: "commitLocked c ?next (cancelActive i s) = (q, t)"
    by (metis surj_pair)
  have "updates (cancelActive i s) ?next"
    using n assms(2) by (intro updates_node [where n = n]) (auto simp: sameStatic_def)
  from commit_tidy [OF q this] have t: "tidy s t"
    using tidy_trans cancelActive_tidy by blast
  then have "keyed (nodes t)" using assms(2) by (simp add: tidy_def)
  with assms(1) n q t show ?thesis
    by (cases q) (auto simp: CancelSubtree_def dest: closeLocked_tidy intro: tidy_trans)
qed

end
