(* ===== verification/Graph_Dispatch.thy ===== *)
theory Graph_Dispatch
  imports Graph_Close
begin

section \<open>Dispatching ready nodes\<close>

text \<open>
  \<open>dispatchLocked\<close> (lines 321 to 360 of \<open>internal/graphexec/executor.go\<close>): rounds over
  \<open>e.nodes\<close> that start every due node whose prerequisites are done and fail every due node
  with a failed or missing prerequisite, until a round fails none. A goroutine started by
  the code is an id in the list of spawned ids. Each round ranges over the map in an order
  of its own; the list of these orders also bounds the rounds, and
  \<open>dispatchLoop_enough\<close> shows that one more than the number of pending nodes is enough.
\<close>

definition failPrereq :: "node \<Rightarrow> node" where
  "failPrereq n = n\<lparr>nstate := Failed, nerror := ''prerequisite failed''\<rparr>"

definition makeReady :: "node \<Rightarrow> node" where
  "makeReady n = n\<lparr>nstate := Ready, waitingOn := NoWait\<rparr>"

text \<open>
  The loop over \<open>current.Prerequisites\<close>: \<open>(returned, ready, propagated, state)\<close>, where
  \<open>returned\<close> says that a failed commit made \<open>dispatchLocked\<close> return.
\<close>

fun prereqLoop :: "node \<Rightarrow> uuid list \<Rightarrow> bool \<Rightarrow> bool \<Rightarrow> 'db exec \<Rightarrow>
    bool \<times> bool \<times> bool \<times> 'db exec" where
  "prereqLoop cur [] ready propagated s = (False, ready, propagated, s)"
| "prereqLoop cur (p # ps) ready propagated s =
     (if (\<exists>q. nodes s p = Some q \<and> nstate q = Done) then prereqLoop cur ps ready propagated s
      else if nodes s p = None \<or> (\<exists>q. nodes s p = Some q \<and> Terminal (nstate q)) then
        (case commitLocked (cancelled s) (failPrereq cur) s of
           (Some e, s') \<Rightarrow> (True, False, propagated, s')
         | (None, s') \<Rightarrow> prereqLoop cur ps False True s')
      else prereqLoop cur ps False propagated s)"

fun dispatchRound :: "uuid list \<Rightarrow> bool \<Rightarrow> uuid list \<Rightarrow> 'db exec \<Rightarrow>
    bool \<times> bool \<times> uuid list \<times> 'db exec" where
  "dispatchRound [] propagated spawned s = (False, propagated, spawned, s)"
| "dispatchRound (i # is) propagated spawned s =
     (case nodes s i of
        None \<Rightarrow> dispatchRound is propagated spawned s
      | Some cur \<Rightarrow>
          if nstate cur \<noteq> Pending then dispatchRound is propagated spawned s
          else if now s < nextAttemptAt cur then dispatchRound is propagated spawned (tick s)
          else (case prereqLoop cur (prerequisites cur) True propagated (tick s) of
                  (True, _, p, s1) \<Rightarrow> (True, p, spawned, s1)
                | (False, False, p, s1) \<Rightarrow> dispatchRound is p spawned s1
                | (False, True, p, s1) \<Rightarrow>
                    (case commitLocked (cancelled s1) (makeReady cur) s1 of
                       (Some e, s2) \<Rightarrow> (True, p, spawned, s2)
                     | (None, s2) \<Rightarrow> dispatchRound is p (spawned @ [i]) s2)))"

fun dispatchLoop :: "uuid list list \<Rightarrow> uuid list \<Rightarrow> 'db exec \<Rightarrow> (uuid list \<times> 'db exec) option" where
  "dispatchLoop [] spawned s = None"
| "dispatchLoop (order # orders) spawned s =
     (case dispatchRound order False spawned s of
        (True, _, spawned', s') \<Rightarrow> Some (spawned', s')
      | (False, False, spawned', s') \<Rightarrow> Some (spawned', s')
      | (False, True, spawned', s') \<Rightarrow> dispatchLoop orders spawned' s')"

definition dispatchLocked :: "uuid list list \<Rightarrow> 'db exec \<Rightarrow> (uuid list \<times> 'db exec) option" where
  "dispatchLocked orders s = dispatchLoop orders [] s"

subsection \<open>What a dispatch changes\<close>

text \<open>
  Only pending nodes change, each at most once, and in one of the two ways; the clock
  moves on and no error goes away.
\<close>

definition dispatched :: "'db exec \<Rightarrow> 'db exec \<Rightarrow> bool" where
  "dispatched s s' \<longleftrightarrow>
     (\<forall>i. nodes s' i = nodes s i \<or>
          (\<exists>n. nodes s i = Some n \<and> nstate n = Pending \<and>
               (nodes s' i = Some (makeReady n) \<or> nodes s' i = Some (failPrereq n)))) \<and>
     readings s \<le> readings s'"

lemma failPrereq_simps [simp]:
  "nodeID (failPrereq n) = nodeID n" "nstate (failPrereq n) = Failed"
  "sameStatic n (failPrereq n)" "prerequisites (failPrereq n) = prerequisites n"
  "nextAttemptAt (failPrereq n) = nextAttemptAt n"
  by (simp_all add: failPrereq_def sameStatic_def)

lemma makeReady_simps [simp]:
  "nodeID (makeReady n) = nodeID n" "nstate (makeReady n) = Ready"
  "sameStatic n (makeReady n)" "prerequisites (makeReady n) = prerequisites n"
  "nextAttemptAt (makeReady n) = nextAttemptAt n"
  by (simp_all add: makeReady_def sameStatic_def)

lemma dispatched_refl [simp, intro]: "dispatched s s"
  by (simp add: dispatched_def)

lemma dispatched_trans [trans]:
  assumes "dispatched a b" and "dispatched b c"
  shows "dispatched a c"
  unfolding dispatched_def
proof (intro conjI allI)
  fix i
  have ab: "nodes b i = nodes a i \<or> (\<exists>n. nodes a i = Some n \<and> nstate n = Pending \<and>
      (nodes b i = Some (makeReady n) \<or> nodes b i = Some (failPrereq n)))"
    using assms(1) by (simp add: dispatched_def)
  have bc: "nodes c i = nodes b i \<or> (\<exists>n. nodes b i = Some n \<and> nstate n = Pending \<and>
      (nodes c i = Some (makeReady n) \<or> nodes c i = Some (failPrereq n)))"
    using assms(2) by (simp add: dispatched_def)
  from ab show "nodes c i = nodes a i \<or> (\<exists>n. nodes a i = Some n \<and> nstate n = Pending \<and>
      (nodes c i = Some (makeReady n) \<or> nodes c i = Some (failPrereq n)))"
    using bc by (elim disjE) auto
qed (use assms in \<open>auto simp: dispatched_def\<close>)

lemma tick_dispatched [simp]: "dispatched s (tick s)"
  by (simp add: dispatched_def)

lemma tick_tidy [simp]: "tidy s (tick s)"
  by (auto simp: tidy_def calm_def evolves_def)

lemma commit_readings: "commitLocked c next s = (r, s') \<Longrightarrow> readings s \<le> readings s'"
  by (auto simp: commitLocked_def notifyLocked_def putNode_def failStore_def
      split: option.splits prod.splits)

lemma commit_dispatched:
  assumes c: "commitLocked c n' s = (r, s')" and n: "nodes s i = Some n" "nstate n = Pending"
    and id: "nodeID n = i" and n': "n' = makeReady n \<or> n' = failPrereq n"
  shows "dispatched s s'"
proof -
  have id': "nodeID n' = i" using n' id by auto
  have "nodes s' = nodes s \<or> nodes s' = (nodes s)(i \<mapsto> n')"
    using commit_ok(1) [of c n' s s'] commit_failed(1) [of c n' s _ s'] c id' by (cases r) auto
  then have "nodes s' j = nodes s j \<or> j = i \<and> nodes s' j = Some n'" for j
    by (auto split: if_splits)
  with n n' have "nodes s' j = nodes s j \<or> (\<exists>n. nodes s j = Some n \<and> nstate n = Pending \<and>
      (nodes s' j = Some (makeReady n) \<or> nodes s' j = Some (failPrereq n)))" for j
    by blast
  then show ?thesis
    using commit_readings [OF c] unfolding dispatched_def by blast
qed

text \<open>The prerequisite loop: it never touches another node, and what its flags mean.\<close>

lemma prereqLoop_facts:
  assumes "prereqLoop cur ps ready p s = (ret, ready', p', s')"
    and "nodes s (nodeID cur) = Some cur \<or> nodes s (nodeID cur) = Some (failPrereq cur)"
    and "nstate cur = Pending" and "keyed (nodes s)"
  shows "tidy s s' \<and> readings s \<le> readings s' \<and>
    (\<forall>i. i \<noteq> nodeID cur \<longrightarrow> nodes s' i = nodes s i) \<and>
    (nodes s' (nodeID cur) = nodes s (nodeID cur) \<or>
     nodes s' (nodeID cur) = Some (failPrereq cur)) \<and>
    (ready' \<longrightarrow> ready) \<and> (p \<longrightarrow> p')"
  using assms
proof (induction ps arbitrary: ready p s)
  case Nil
  then show ?case by auto
next
  case (Cons x ps)
  show ?case
  proof (cases "(\<exists>q. nodes s x = Some q \<and> nstate q = Done)")
    case True
    with Cons.prems(1) have rest: "prereqLoop cur ps ready p s = (ret, ready', p', s')"
      by simp
    from Cons.IH [OF this Cons.prems(2,3,4)] show ?thesis .
  next
    case False
    show ?thesis
    proof (cases "nodes s x = None \<or> (\<exists>q. nodes s x = Some q \<and> Terminal (nstate q))")
      case bad: True
      obtain q t where q: "commitLocked (cancelled s) (failPrereq cur) s = (q, t)"
        by (metis surj_pair)
      have "updates s (failPrereq cur)"
        using Cons.prems(2,3) by (auto simp: updates_def node_le_def)
      from commit_tidy [OF q this] have t: "tidy s t" .
      then have k: "keyed (nodes t)" using Cons.prems(4) by (simp add: tidy_def)
      have r: "readings s \<le> readings t" by (rule commit_readings [OF q])
      show ?thesis
      proof (cases q)
        case (Some e)
        with q commit_failed(1) have "nodes t = nodes s" by blast
        with Cons.prems(1) False bad q Some t r show ?thesis by auto
      next
        case None
        with q have ok: "commitLocked (cancelled s) (failPrereq cur) s = (None, t)" by simp
        have nt: "nodes t = (nodes s)(nodeID cur \<mapsto> failPrereq cur)"
          using commit_ok(1) [OF ok] by simp
        have rest: "prereqLoop cur ps False True t = (ret, ready', p', s')"
          using Cons.prems(1) False bad ok by simp
        have "nodes t (nodeID cur) = Some cur \<or> nodes t (nodeID cur) = Some (failPrereq cur)"
          using nt by simp
        from Cons.IH [OF rest this Cons.prems(3) k] t r nt
        show ?thesis using tidy_trans by fastforce
      qed
    next
      case ok: False
      with False Cons.prems(1) have rest: "prereqLoop cur ps False p s = (ret, ready', p', s')"
        by (auto split: if_splits)
      from Cons.IH [OF this Cons.prems(2,3,4)] show ?thesis by simp
    qed
  qed
qed

lemma prereqLoop_returned:
  "prereqLoop cur ps ready p s = (True, ready', p', s') \<Longrightarrow> nodeID cur \<in> dom (nodes s) \<Longrightarrow>
   err s' \<noteq> None"
proof (induction ps arbitrary: ready p s)
  case (Cons x ps)
  show ?case
  proof (cases "commitLocked (cancelled s) (failPrereq cur) s")
    case (Pair q t)
    have "q = Some e \<Longrightarrow> err t \<noteq> None" for e
      using Pair Cons.prems(2) commit_failed(2,3) [of "cancelled s" "failPrereq cur" s e t]
      by (cases "err s") auto
    moreover have "dom (nodes t) = dom (nodes s)"
      using commit_dom [OF Pair] Cons.prems(2) by simp
    ultimately show ?thesis
      using Cons Pair by (auto split: if_splits option.splits)
  qed
qed simp

text \<open>Ready means: nothing was committed and every prerequisite is done.\<close>

lemma prereqLoop_ready:
  "prereqLoop cur ps True p s = (False, True, p', s') \<Longrightarrow>
   s' = s \<and> p' = p \<and> (\<forall>x\<in>set ps. \<exists>q. nodes s x = Some q \<and> nstate q = Done)"
proof (induction ps arbitrary: p s)
  case (Cons x ps)
  have no: "prereqLoop cur ps False q t \<noteq> (False, True, p', s')" for q t
  proof (induction ps arbitrary: q t)
    case (Cons y ys)
    then show ?case by (auto split: option.splits prod.splits)
  qed simp
  with Cons show ?case by (auto split: if_splits option.splits prod.splits)
qed simp

text \<open>Not ready and nothing propagated: blocked by a prerequisite that is still open.\<close>

definition openOrDone :: "'db exec \<Rightarrow> uuid \<Rightarrow> bool" where
  "openOrDone s x \<longleftrightarrow> (\<exists>q. nodes s x = Some q \<and> (nstate q = Done \<or> \<not> Terminal (nstate q)))"

definition isOpen :: "'db exec \<Rightarrow> uuid \<Rightarrow> bool" where
  "isOpen s x \<longleftrightarrow> (\<exists>q. nodes s x = Some q \<and> \<not> Terminal (nstate q))"

lemma prereqLoop_propagated:
  "prereqLoop cur ps ready True s = (ret, ready', p', s') \<Longrightarrow> p'"
proof (induction ps arbitrary: ready s)
  case (Cons x ps)
  then show ?case by (auto split: if_splits option.splits prod.splits)
qed simp

lemma prereqLoop_blocked:
  "prereqLoop cur ps ready False s = (False, False, False, s') \<Longrightarrow>
   s' = s \<and> (\<forall>x\<in>set ps. openOrDone s x) \<and> (ready \<longrightarrow> (\<exists>x\<in>set ps. isOpen s x))"
proof (induction ps arbitrary: ready s)
  case (Cons x ps)
  have no: "prereqLoop cur ps False True t \<noteq> (False, False, False, s')" for t
    using prereqLoop_propagated by blast
  show ?case
    using Cons.prems Cons.IH [of ready s] Cons.IH [of False s] no
    by (auto simp: openOrDone_def isOpen_def split: if_splits option.splits prod.splits)
qed simp

subsection \<open>One node of a round\<close>

text \<open>
  The four outcomes of visiting one key: skipped or not due (nothing changes but the
  clock), blocked, failed by a prerequisite, started; or \<open>dispatchLocked\<close> returns because a
  commit failed.
\<close>

datatype visitOutcome = Skipped | NotDue | Blocked | Propagated | Started | Returned

inductive visited :: "uuid \<Rightarrow> 'db exec \<Rightarrow> visitOutcome \<Rightarrow> 'db exec \<Rightarrow> bool" where
  skipped: "(\<And>n. nodes s i = Some n \<Longrightarrow> nstate n \<noteq> Pending) \<Longrightarrow> visited i s Skipped s"
| notDue: "nodes s i = Some n \<Longrightarrow> nstate n = Pending \<Longrightarrow> now s < nextAttemptAt n \<Longrightarrow>
    visited i s NotDue (tick s)"
| blocked: "nodes s i = Some n \<Longrightarrow> nstate n = Pending \<Longrightarrow> \<not> now s < nextAttemptAt n \<Longrightarrow>
    (\<forall>x\<in>set (prerequisites n). openOrDone s x) \<Longrightarrow> (\<exists>x\<in>set (prerequisites n). isOpen s x) \<Longrightarrow>
    visited i s Blocked (tick s)"
| propagated: "nodes s i = Some n \<Longrightarrow> nstate n = Pending \<Longrightarrow> \<not> now s < nextAttemptAt n \<Longrightarrow>
    tidy s s' \<Longrightarrow> dispatched s s' \<Longrightarrow> nodes s' = (nodes s)(i \<mapsto> failPrereq n) \<Longrightarrow>
    visited i s Propagated s'"
| startedNode: "nodes s i = Some n \<Longrightarrow> nstate n = Pending \<Longrightarrow> \<not> now s < nextAttemptAt n \<Longrightarrow>
    (\<forall>x\<in>set (prerequisites n). \<exists>q. nodes s x = Some q \<and> nstate q = Done) \<Longrightarrow>
    tidy s s' \<Longrightarrow> dispatched s s' \<Longrightarrow> nodes s' = (nodes s)(i \<mapsto> makeReady n) \<Longrightarrow>
    readings s < readings s' \<Longrightarrow> visited i s Started s'"
| returned: "nodes s i = Some n \<Longrightarrow> tidy s s' \<Longrightarrow> dispatched s s' \<Longrightarrow> err s' \<noteq> None \<Longrightarrow>
    (\<forall>j. j \<noteq> i \<longrightarrow> nodes s' j = nodes s j) \<Longrightarrow>
    nodes s' i \<noteq> Some (makeReady n) \<Longrightarrow> visited i s Returned s'"

lemma visited_tidy: "visited i s r s' \<Longrightarrow> tidy s s' \<and> dispatched s s'"
  by (induction rule: visited.induct) auto

text \<open>The code's round is a sequence of such visits.\<close>

fun after :: "visitOutcome \<Rightarrow> bool \<Rightarrow> bool" where
  "after Propagated p = True"
| "after _ p = p"

fun spawn :: "visitOutcome \<Rightarrow> uuid \<Rightarrow> uuid list \<Rightarrow> uuid list" where
  "spawn Started i sp = sp @ [i]"
| "spawn _ i sp = sp"

lemma prereqLoop_propagates:
  assumes "prereqLoop cur ps True False s = (False, False, True, s')"
    and "nodes s (nodeID cur) = Some cur" and "nstate cur = Pending" and "keyed (nodes s)"
  shows "nodes s' = (nodes s)(nodeID cur \<mapsto> failPrereq cur)"
proof -
  have f: "(\<forall>i. i \<noteq> nodeID cur \<longrightarrow> nodes s' i = nodes s i) \<and>
      (nodes s' (nodeID cur) = nodes s (nodeID cur) \<or> nodes s' (nodeID cur) = Some (failPrereq cur))"
    using prereqLoop_facts [OF assms(1) _ assms(3,4)] assms(2) by blast
  have "prereqLoop cur ps r False s = (False, r', True, s') \<Longrightarrow> nodes s (nodeID cur) = Some cur \<Longrightarrow>
      keyed (nodes s) \<Longrightarrow> nodes s' (nodeID cur) = Some (failPrereq cur)" for r r'
  proof (induction ps arbitrary: r r')
    case (Cons x ps)
    show ?case
    proof (cases "nodes s x = None \<or> (\<exists>q. nodes s x = Some q \<and> Terminal (nstate q) \<and> nstate q \<noteq> Done)")
      case True
      with Cons.prems(1) obtain t where
        t: "commitLocked (cancelled s) (failPrereq cur) s = (None, t)"
        and rest: "prereqLoop cur ps False True t = (False, r', True, s')"
        by (auto split: option.splits prod.splits if_splits)
      have nt: "nodes t (nodeID cur) = Some (failPrereq cur)" using commit_ok(1) [OF t] by simp
      have "keyed (nodes t)" using keyed_commit [OF Cons.prems(3) t] .
      from prereqLoop_facts [OF rest _ assms(3) this] nt show ?thesis by auto
    next
      case False
      with Cons show ?thesis by (auto split: if_splits)
    qed
  qed simp
  from this [OF assms(1,2,4)] f show ?thesis by (auto simp: fun_eq_iff)
qed

lemma prereqLoop_flag:
  "prereqLoop cur ps r p s = (ret, r', p', s') \<Longrightarrow>
   \<exists>p0. prereqLoop cur ps r False s = (ret, r', p0, s') \<and> p' = (p \<or> p0)"
proof (induction ps arbitrary: r p s)
  case (Cons x ps)
  show ?case
  proof (cases "nodes s x = None \<or> (\<exists>q. nodes s x = Some q \<and> Terminal (nstate q) \<and> nstate q \<noteq> Done)")
    case True
    obtain q t where q: "commitLocked (cancelled s) (failPrereq cur) s = (q, t)"
      by (metis surj_pair)
    show ?thesis
    proof (cases q)
      case None
      with Cons.prems True q have rest: "prereqLoop cur ps False True t = (ret, r', p', s')"
        by (auto split: if_splits)
      with True None q show ?thesis
        using prereqLoop_propagated [OF rest] by auto
    next
      case (Some e)
      with Cons.prems True q show ?thesis by (auto split: if_splits)
    qed
  next
    case False
    with Cons show ?thesis by (auto split: if_splits)
  qed
qed auto

lemma neq_makeReady [simp]:
  "nstate n = Pending \<Longrightarrow> n \<noteq> makeReady m" "nstate n = Pending \<Longrightarrow> makeReady m \<noteq> n"
  by (auto dest: arg_cong [where f = nstate])

lemma fail_neq_ready [simp]: "failPrereq n \<noteq> makeReady m" "makeReady m \<noteq> failPrereq n"
  by (auto dest: arg_cong [where f = nstate])

text \<open>The state after the prerequisite loop of a due node.\<close>

lemma due_facts:
  assumes n: "nodes s i = Some n" "nstate n = Pending" and k: "keyed (nodes s)"
    and l: "prereqLoop n (prerequisites n) True False (tick s) = (ab, ready, q, t)"
  shows "tidy s t" "dispatched s t" "\<forall>j. j \<noteq> i \<longrightarrow> nodes t j = nodes s j"
    "nodes t i \<noteq> Some (makeReady n)" "ab \<Longrightarrow> err t \<noteq> None"
proof -
  have id: "nodeID n = i" using n k by (simp add: keyed_def)
  have nt: "nodes (tick s) (nodeID n) = Some n" using n id by simp
  have f: "tidy (tick s) t \<and> readings (tick s) \<le> readings t \<and>
      (\<forall>j. j \<noteq> i \<longrightarrow> nodes t j = nodes s j) \<and>
      (nodes t i = nodes s i \<or> nodes t i = Some (failPrereq n))"
    using prereqLoop_facts [OF l _ n(2)] nt k id by auto
  show "tidy s t" using f tidy_trans [OF tick_tidy] by blast
  show "\<forall>j. j \<noteq> i \<longrightarrow> nodes t j = nodes s j" using f by blast
  have "nodes t j = nodes s j \<or> j = i \<and> nodes t j = Some (failPrereq n)" for j
    using f by (cases "j = i") auto
  moreover have "readings s \<le> readings t" using f by simp
  ultimately show "dispatched s t"
    using n unfolding dispatched_def by blast
  show "nodes t i \<noteq> Some (makeReady n)"
    using f n by auto
  show "ab \<Longrightarrow> err t \<noteq> None"
    using prereqLoop_returned [of n "prerequisites n" True False "tick s"] l nt by auto
qed

lemma start_step:
  assumes n: "nodes s i = Some n" "nstate n = Pending" and k: "keyed (nodes s)"
    and due: "\<not> now s < nextAttemptAt n"
    and pre: "\<forall>x\<in>set (prerequisites n). \<exists>q. nodes s x = Some q \<and> nstate q = Done"
    and c: "commitLocked (cancelled s) (makeReady n) (tick s) = (c, u)"
  shows "visited i s (if c = None then Started else Returned) u"
proof -
  have id: "nodeID n = i" using n k by (simp add: keyed_def)
  have nit: "nodes (tick s) i = Some n" using n by simp
  have "updates (tick s) (makeReady n)"
    using n id by (auto simp: updates_def node_le_def)
  then have tu: "tidy s u" using commit_tidy [OF c] tidy_trans [OF tick_tidy] by blast
  have du: "dispatched s u"
    by (rule dispatched_trans [OF tick_dispatched commit_dispatched [OF c nit n(2) id]]) simp
  show ?thesis
  proof (cases c)
    case None
    then have "nodes u = (nodes s)(i \<mapsto> makeReady n)"
      using commit_ok(1) [of _ _ "tick s" u] c id by simp
    moreover have "readings s < readings u" using commit_readings [OF c] by simp
    ultimately show ?thesis using n due pre tu du None by (auto intro: visited.startedNode)
  next
    case (Some e)
    have nu: "nodes u = nodes s" using commit_failed(1) [of _ _ "tick s" e u] c Some by simp
    have "err u \<noteq> None"
      using commit_err [of "cancelled s" "makeReady n" "tick s" e u] c Some nit id by auto
    moreover have "nodes u i \<noteq> Some (makeReady n)"
      using nu n by auto
    ultimately show ?thesis
      using visited.returned [OF n(1) tu du] nu Some by simp
  qed
qed

lemma visit_step:
  assumes d: "dispatchRound (i # is) p sp s = (ret, p', sp', s')" and k: "keyed (nodes s)"
  obtains r t where "visited i s r t"
    and "r \<noteq> Returned \<Longrightarrow> dispatchRound is (after r p) (spawn r i sp) t = (ret, p', sp', s')"
    and "r = Returned \<Longrightarrow> ret \<and> sp' = sp \<and> s' = t"
proof (cases "\<exists>n. nodes s i = Some n \<and> nstate n = Pending")
  case False
  then have "visited i s Skipped s" by (auto intro: visited.skipped)
  moreover have "dispatchRound is p sp s = (ret, p', sp', s')"
    using d False by (auto split: option.splits)
  ultimately show thesis using that by force
next
  case True
  then obtain n where n: "nodes s i = Some n" "nstate n = Pending" by blast
  have id: "nodeID n = i" using n k by (simp add: keyed_def)
  show thesis
  proof (cases "now s < nextAttemptAt n")
    case True
    with n have "visited i s NotDue (tick s)" by (rule visited.notDue)
    moreover have "dispatchRound is p sp (tick s) = (ret, p', sp', s')"
      using d n True by simp
    ultimately show thesis using that by force
  next
    case due: False
    obtain ab ready q t where
      l: "prereqLoop n (prerequisites n) True p (tick s) = (ab, ready, q, t)" by (metis prod_cases4)
    from prereqLoop_flag [OF l] obtain q0 where
      l0: "prereqLoop n (prerequisites n) True False (tick s) = (ab, ready, q0, t)"
      and q: "q = (p \<or> q0)" by blast
    note f = due_facts [OF n k l0]
    consider (left) "ab" | (failing) "\<not> ab" "\<not> ready" "q0"
      | (waits) "\<not> ab" "\<not> ready" "\<not> q0" | (go) "\<not> ab" "ready" by blast
    then show thesis
    proof cases
      case left
      then have "visited i s Returned t" using visited.returned [OF n(1) f(1,2) f(5)] f by blast
      moreover have "ret \<and> sp' = sp \<and> s' = t" using d n due l left by auto
      ultimately show thesis using that by force
    next
      case failing
      have "nodes t = (nodes s)(i \<mapsto> failPrereq n)"
        using prereqLoop_propagates [of n "prerequisites n" "tick s" t] l0 failing n k id by simp
      with n due f have "visited i s Propagated t" by (intro visited.propagated)
      moreover have "dispatchRound is True sp t = (ret, p', sp', s')"
        using d n due l failing q by simp
      ultimately show thesis using that by force
    next
      case waits
      from prereqLoop_blocked [of n "prerequisites n" True "tick s" t] l0 waits
      have "t = tick s" "\<forall>x\<in>set (prerequisites n). openOrDone s x"
        "\<exists>x\<in>set (prerequisites n). isOpen s x"
        by (auto simp: openOrDone_def isOpen_def)
      with n due have "visited i s Blocked t" by (auto intro: visited.blocked)
      moreover have "dispatchRound is p sp t = (ret, p', sp', s')"
        using d n due l waits q by simp
      ultimately show thesis using that by force
    next
      case go
      from prereqLoop_ready [of n "prerequisites n" False "tick s" q0 t] l0 go
      have r: "t = tick s" "\<not> q0"
        "\<forall>x\<in>set (prerequisites n). \<exists>q. nodes s x = Some q \<and> nstate q = Done" by auto
      obtain c u where c: "commitLocked (cancelled s) (makeReady n) (tick s) = (c, u)"
        by (metis surj_pair)
      note st = start_step [OF n k due r(3) c]
      show thesis
      proof (cases c)
        case None
        with st have "visited i s Started u" by simp
        moreover have "dispatchRound is p (sp @ [i]) u = (ret, p', sp', s')"
          using d n due l go c None q r by simp
        ultimately show thesis using that by force
      next
        case (Some e)
        with st have "visited i s Returned u" by simp
        moreover have "ret \<and> sp' = sp \<and> s' = u" using d n due l go c Some r by auto
        ultimately show thesis using that by force
      qed
    qed
  qed
qed

subsection \<open>A whole round\<close>

lemma tidy_keyed: "tidy s s' \<Longrightarrow> keyed (nodes s) \<Longrightarrow> keyed (nodes s')"
  by (simp add: tidy_def)

lemma visit_cases:
  assumes "dispatchRound (i # is) p sp s = (ret, p', sp', s')" and "keyed (nodes s)"
  shows "\<exists>r t. visited i s r t \<and>
    (r \<noteq> Returned \<longrightarrow> dispatchRound is (after r p) (spawn r i sp) t = (ret, p', sp', s')) \<and>
    (r = Returned \<longrightarrow> ret \<and> sp' = sp \<and> s' = t)"
  by (rule visit_step [OF assms]) blast

lemma round_facts:
  assumes "dispatchRound is p sp s = (ret, p', sp', s')" and "keyed (nodes s)"
  shows "tidy s s' \<and> dispatched s s' \<and> (ret \<longrightarrow> err s' \<noteq> None)"
  using assms
proof (induction "is" arbitrary: p sp s)
  case Nil
  then show ?case by auto
next
  case (Cons i "is")
  obtain r t where v: "visited i s r t"
    and go: "r \<noteq> Returned \<Longrightarrow> dispatchRound is (after r p) (spawn r i sp) t = (ret, p', sp', s')"
    and stop: "r = Returned \<Longrightarrow> ret \<and> sp' = sp \<and> s' = t"
    using visit_cases [OF Cons.prems] by blast
  note vt = visited_tidy [OF v]
  show ?case
  proof (cases "r = Returned")
    case True
    with stop v show ?thesis using vt by (auto elim: visited.cases)
  next
    case False
    from Cons.IH [OF go [OF False] tidy_keyed [OF _ Cons.prems(2)]] vt
    show ?thesis using tidy_trans dispatched_trans by blast
  qed
qed

text \<open>
  What is known of the ids spawned between two states: each was pending and due at some
  reading of the clock, all its prerequisites are done, it is ready now, and no other
  pending node was made ready.
\<close>

definition startedWell :: "'db exec \<Rightarrow> uuid list \<Rightarrow> 'db exec \<Rightarrow> bool" where
  "startedWell s new s' \<longleftrightarrow>
     distinct new \<and>
     (\<forall>i\<in>set new. \<exists>n. nodes s i = Some n \<and> nstate n = Pending \<and> nodes s' i = Some (makeReady n) \<and>
        (\<forall>x\<in>set (prerequisites n). \<exists>q. nodes s' x = Some q \<and> nstate q = Done) \<and>
        (\<exists>k. readings s \<le> k \<and> k < readings s' \<and> nextAttemptAt n \<le> o_clock (opts s) k)) \<and>
     (\<forall>i n. nodes s i = Some n \<longrightarrow> nstate n = Pending \<longrightarrow> nodes s' i = Some (makeReady n) \<longrightarrow>
        i \<in> set new)"

lemma dispatched_pending:
  "dispatched s t \<Longrightarrow> nodes t i = Some n \<Longrightarrow> nstate n = Pending \<Longrightarrow> nodes s i = Some n"
  unfolding dispatched_def
  by (metis failPrereq_simps(2) makeReady_simps(2) option.inject state.distinct(15) state.distinct(23))

lemma dispatched_settled:
  "dispatched s t \<Longrightarrow> nodes s i = Some n \<Longrightarrow> nstate n \<noteq> Pending \<Longrightarrow> nodes t i = Some n"
  unfolding dispatched_def by (metis option.inject)

lemma tidy_done:
  "tidy s t \<Longrightarrow> nodes s i = Some n \<Longrightarrow> nstate n = Done \<Longrightarrow> nodes t i = Some n"
  unfolding tidy_def using evolves_terminal by fastforce

lemma tidy_opts: "tidy s t \<Longrightarrow> opts t = opts s"
  by (simp add: tidy_def evolves_def)

lemma startedWell_trans:
  assumes a: "startedWell s xs t" and b: "startedWell t ys u"
    and st: "tidy s t" "dispatched s t" and tu: "tidy t u" "dispatched t u"
  shows "startedWell s (xs @ ys) u"
  unfolding startedWell_def
proof (intro conjI ballI allI impI)
  have "i \<notin> set ys" if i: "i \<in> set xs" for i
  proof
    assume "i \<in> set ys"
    then obtain n where "nodes t i = Some n" "nstate n = Pending"
      using b by (auto simp: startedWell_def)
    moreover obtain m where "nodes t i = Some (makeReady m)"
      using a i by (auto simp: startedWell_def)
    ultimately show False by simp
  qed
  then show "distinct (xs @ ys)" using a b by (auto simp: startedWell_def)
next
  fix i assume "i \<in> set (xs @ ys)"
  then consider "i \<in> set xs" | "i \<in> set ys" by auto
  then show "\<exists>n. nodes s i = Some n \<and> nstate n = Pending \<and> nodes u i = Some (makeReady n) \<and>
      (\<forall>x\<in>set (prerequisites n). \<exists>q. nodes u x = Some q \<and> nstate q = Done) \<and>
      (\<exists>k. readings s \<le> k \<and> k < readings u \<and> nextAttemptAt n \<le> o_clock (opts s) k)"
  proof cases
    case 1
    then obtain n k where n: "nodes s i = Some n" "nstate n = Pending"
      "nodes t i = Some (makeReady n)"
      and d: "\<forall>x\<in>set (prerequisites n). \<exists>q. nodes t x = Some q \<and> nstate q = Done"
      and k: "readings s \<le> k" "k < readings t" "nextAttemptAt n \<le> o_clock (opts s) k"
      using a unfolding startedWell_def by blast
    have "nodes u i = Some (makeReady n)" by (rule dispatched_settled [OF tu(2) n(3)]) simp
    moreover have "\<forall>x\<in>set (prerequisites n). \<exists>q. nodes u x = Some q \<and> nstate q = Done"
      using d tidy_done [OF tu(1)] by blast
    moreover have "k < readings u" using k(2) tu(2) by (auto simp: dispatched_def)
    ultimately show ?thesis using n k by blast
  next
    case 2
    then obtain n k where n: "nodes t i = Some n" "nstate n = Pending"
      "nodes u i = Some (makeReady n)"
      and d: "\<forall>x\<in>set (prerequisites n). \<exists>q. nodes u x = Some q \<and> nstate q = Done"
      and k: "readings t \<le> k" "k < readings u" "nextAttemptAt n \<le> o_clock (opts t) k"
      using b unfolding startedWell_def by blast
    have "nodes s i = Some n" by (rule dispatched_pending [OF st(2) n(1,2)])
    moreover have "readings s \<le> k" using k(1) st(2) by (auto simp: dispatched_def)
    ultimately show ?thesis using n d k tidy_opts [OF st(1)] by auto
  qed
next
  fix i n assume n: "nodes s i = Some n" "nstate n = Pending" "nodes u i = Some (makeReady n)"
  show "i \<in> set (xs @ ys)"
  proof (cases "nodes t i = Some n")
    case True
    then show ?thesis using n b by (auto simp: startedWell_def)
  next
    case False
    then have "nodes t i = Some (makeReady n) \<or> nodes t i = Some (failPrereq n)"
      using st(2) n(1) by (auto simp: dispatched_def dest: spec [of _ i])
    moreover have "nodes t i \<noteq> Some (failPrereq n)"
      using dispatched_settled [OF tu(2), of i "failPrereq n"] n(3) by auto
    ultimately show ?thesis using n a by (auto simp: startedWell_def)
  qed
qed

lemma startedWell_Nil:
  assumes "nodes t = nodes s"
  shows "startedWell s [] t"
proof -
  have False if "nodes s i = Some n" "nstate n = Pending" "nodes s i = Some (makeReady n)" for i n
    using that by simp
  then show ?thesis using assms by (auto simp: startedWell_def)
qed

lemma visited_startedWell:
  assumes "visited i s r t"
  shows "startedWell s (spawn r i []) t"
  using assms
proof cases
  case (startedNode n)
  have d: "\<exists>q. nodes t x = Some q \<and> nstate q = Done" if "x \<in> set (prerequisites n)" for x
  proof -
    from that startedNode obtain q where q: "nodes s x = Some q" "nstate q = Done" by blast
    from tidy_done [OF \<open>tidy s t\<close> q] q show ?thesis by blast
  qed
  have k: "\<exists>k. readings s \<le> k \<and> k < readings t \<and> nextAttemptAt n \<le> o_clock (opts s) k"
    using startedNode by (intro exI [of _ "readings s"]) (auto simp: now_def)
  have u: "i' = i" if "nodes s i' = Some m" "nstate m = Pending" "nodes t i' = Some (makeReady m)"
    for i' m
    using that startedNode by (auto split: if_splits)
  have new: "nodes t i = Some (makeReady n)" using startedNode by simp
  have [simp]: "spawn r i [] = [i]" using startedNode by simp
  show ?thesis
    unfolding startedWell_def
  proof (intro conjI ballI allI impI)
    show "distinct (spawn r i [])" by simp
  next
    fix j assume "j \<in> set (spawn r i [])"
    then have "j = i" by simp
    with startedNode(2,3) new d k
    show "\<exists>n. nodes s j = Some n \<and> nstate n = Pending \<and> nodes t j = Some (makeReady n) \<and>
        (\<forall>x\<in>set (prerequisites n). \<exists>q. nodes t x = Some q \<and> nstate q = Done) \<and>
        (\<exists>k. readings s \<le> k \<and> k < readings t \<and> nextAttemptAt n \<le> o_clock (opts s) k)"
      by blast
  next
    fix j m assume "nodes s j = Some m" "nstate m = Pending" "nodes t j = Some (makeReady m)"
    then have "j = i" by (rule u)
    then show "j \<in> set (spawn r i [])" by simp
  qed
next
  case (propagated n)
  have False if "nodes s i' = Some m" "nstate m = Pending" "nodes t i' = Some (makeReady m)" for i' m
    using that propagated by (auto split: if_splits)
  with propagated show ?thesis by (auto simp: startedWell_def)
next
  case (returned n)
  have False if "nodes s i' = Some m" "nstate m = Pending" "nodes t i' = Some (makeReady m)" for i' m
    using that returned by (cases "i' = i") auto
  with returned show ?thesis by (auto simp: startedWell_def)
qed (simp_all add: startedWell_Nil)

lemma spawn_append: "spawn r i sp = sp @ spawn r i []"
  by (cases r) auto

lemma round_startedWell:
  assumes "dispatchRound is p sp s = (ret, p', sp', s')" and "keyed (nodes s)"
  shows "\<exists>new. sp' = sp @ new \<and> startedWell s new s'"
  using assms
proof (induction "is" arbitrary: p sp s)
  case Nil
  then show ?case by (auto intro: startedWell_Nil)
next
  case (Cons i "is")
  obtain r t where v: "visited i s r t"
    and go: "r \<noteq> Returned \<Longrightarrow> dispatchRound is (after r p) (spawn r i sp) t = (ret, p', sp', s')"
    and stop: "r = Returned \<Longrightarrow> ret \<and> sp' = sp \<and> s' = t"
    using visit_cases [OF Cons.prems] by blast
  note vt = visited_tidy [OF v]
  show ?case
  proof (cases "r = Returned")
    case True
    with stop visited_startedWell [OF v] show ?thesis by auto
  next
    case False
    have k: "keyed (nodes t)" using tidy_keyed vt Cons.prems(2) by blast
    from Cons.IH [OF go [OF False] k] obtain new where
      new: "sp' = spawn r i sp @ new" "startedWell t new s'" by blast
    have "startedWell s (spawn r i [] @ new) s'"
      using startedWell_trans [OF visited_startedWell [OF v] new(2)] vt
        round_facts [OF go [OF False] k] by blast
    then show ?thesis using new(1) spawn_append [of r i sp] by auto
  qed
qed

subsection \<open>The rounds end, and where they end nothing is left to start\<close>

definition pendingSet :: "'db exec \<Rightarrow> uuid set" where
  "pendingSet s = {i. \<exists>n. nodes s i = Some n \<and> nstate n = Pending}"

lemma finite_pendingSet: "finite (dom (nodes s)) \<Longrightarrow> finite (pendingSet s)"
  by (rule finite_subset [of _ "dom (nodes s)"]) (auto simp: pendingSet_def)

lemma dispatched_pendingSet: "dispatched s t \<Longrightarrow> pendingSet t \<subseteq> pendingSet s"
  by (auto simp: pendingSet_def dest: dispatched_pending)

text \<open>A round that propagates a failure leaves fewer pending nodes.\<close>

lemma round_propagates:
  assumes "dispatchRound is p sp s = (False, True, sp', s')" and "keyed (nodes s)" and "\<not> p"
  shows "\<exists>i n. nodes s i = Some n \<and> nstate n = Pending \<and> nodes s' i = Some (failPrereq n)"
  using assms
proof (induction "is" arbitrary: p sp s)
  case Nil
  then show ?case by simp
next
  case (Cons i "is")
  obtain r t where v: "visited i s r t"
    and go: "r \<noteq> Returned \<Longrightarrow> dispatchRound is (after r p) (spawn r i sp) t = (False, True, sp', s')"
    and stop: "r \<noteq> Returned"
    using visit_cases [OF Cons.prems(1,2)] by blast
  have vt: "tidy s t" "dispatched s t" using visited_tidy [OF v] by blast+
  have k: "keyed (nodes t)" using tidy_keyed [OF vt(1) Cons.prems(2)] .
  have ts: "dispatched t s'" using round_facts [OF go [OF stop] k] by blast
  show ?case
  proof (cases "r = Propagated")
    case True
    with v obtain n where n: "nodes s i = Some n" "nstate n = Pending" "nodes t i = Some (failPrereq n)"
      by (auto elim: visited.cases)
    moreover have "nodes s' i = Some (failPrereq n)" by (rule dispatched_settled [OF ts n(3)]) simp
    ultimately show ?thesis by blast
  next
    case False
    then have "\<not> after r p" using Cons.prems(3) by (cases r) auto
    from Cons.IH [OF go [OF stop] k this] obtain j n where
      j: "nodes t j = Some n" "nstate n = Pending" "nodes s' j = Some (failPrereq n)" by blast
    with dispatched_pending [OF vt(2) j(1,2)] show ?thesis by blast
  qed
qed

lemma round_fewer:
  assumes "dispatchRound is False sp s = (False, True, sp', s')" and "keyed (nodes s)"
    and "finite (dom (nodes s))"
  shows "card (pendingSet s') < card (pendingSet s)"
proof -
  obtain i n where i: "nodes s i = Some n" "nstate n = Pending" "nodes s' i = Some (failPrereq n)"
    using round_propagates [OF assms(1,2)] by blast
  then have "i \<in> pendingSet s" "i \<notin> pendingSet s'" by (auto simp: pendingSet_def)
  moreover have "pendingSet s' \<subseteq> pendingSet s"
    using round_facts [OF assms(1,2)] dispatched_pendingSet by blast
  ultimately show ?thesis
    using finite_pendingSet [OF assms(3)] by (intro psubset_card_mono) auto
qed

lemma tidy_dom: "tidy s t \<Longrightarrow> dom (nodes t) = dom (nodes s)"
  by (simp add: tidy_def calm_def)

lemma dispatchLoop_enough:
  assumes "card (pendingSet s) < length orders" and "keyed (nodes s)" and "finite (dom (nodes s))"
  shows "\<exists>sp' s'. dispatchLoop orders sp s = Some (sp', s')"
  using assms
proof (induction orders arbitrary: sp s)
  case Nil
  then show ?case by simp
next
  case (Cons order orders)
  obtain ret p sp1 s1 where r: "dispatchRound order False sp s = (ret, p, sp1, s1)"
    by (metis prod_cases4)
  show ?case
  proof (cases "\<not> ret \<and> p")
    case True
    with r have r': "dispatchRound order False sp s = (False, True, sp1, s1)" by simp
    have t: "tidy s s1" using round_facts [OF r' Cons.prems(2)] by blast
    have "card (pendingSet s1) < length orders"
      using round_fewer [OF r' Cons.prems(2,3)] Cons.prems(1) by simp
    from Cons.IH [OF this tidy_keyed [OF t Cons.prems(2)]] tidy_dom [OF t] Cons.prems(3) r'
    show ?thesis by auto
  next
    case False
    with r show ?thesis by (cases ret; cases p) auto
  qed
qed

text \<open>
  Why a node is still pending after a quiet round: it was not due at some reading of the
  clock, or all its prerequisites are done or open, and one is open.
\<close>

definition restsWell :: "'db exec \<Rightarrow> uuid \<Rightarrow> 'db exec \<Rightarrow> bool" where
  "restsWell s i s' \<longleftrightarrow>
     (\<forall>n. nodes s' i = Some n \<longrightarrow> nstate n = Pending \<longrightarrow>
        (\<exists>k. readings s \<le> k \<and> k < readings s' \<and> o_clock (opts s) k < nextAttemptAt n) \<or>
        ((\<forall>x\<in>set (prerequisites n). openOrDone s' x) \<and> (\<exists>x\<in>set (prerequisites n). isOpen s' x)))"

definition onlyStarts :: "'db exec \<Rightarrow> 'db exec \<Rightarrow> bool" where
  "onlyStarts s s' \<longleftrightarrow>
     (\<forall>i. nodes s' i = nodes s i \<or>
          (\<exists>n. nodes s i = Some n \<and> nstate n = Pending \<and> nodes s' i = Some (makeReady n)))"

lemma onlyStarts_open:
  assumes "onlyStarts s t"
  shows "openOrDone s x \<Longrightarrow> openOrDone t x" "isOpen s x \<Longrightarrow> isOpen t x"
  using assms unfolding onlyStarts_def openOrDone_def isOpen_def
  by (metis Terminal_simps(6) makeReady_simps(2))+

lemma onlyStarts_trans: "onlyStarts s t \<Longrightarrow> onlyStarts t u \<Longrightarrow> onlyStarts s u"
  unfolding onlyStarts_def
  by (metis makeReady_simps(2) option.inject state.distinct(15))

lemma quiet_visit:
  assumes "visited i s r t" and "r \<noteq> Returned" and "r \<noteq> Propagated"
  shows "onlyStarts s t" "restsWell s i t"
  using assms
  by (cases; auto simp: onlyStarts_def restsWell_def now_def openOrDone_def isOpen_def
      intro: exI [of _ "readings s"])+

lemma flag_kept:
  "dispatchRound is True sp s = (ret, p', sp', s') \<Longrightarrow> p'"
proof (induction "is" arbitrary: sp s)
  case (Cons i "is")
  then show ?case
    by (fastforce split: option.splits prod.splits if_splits bool.splits
        dest: prereqLoop_propagated)
qed simp

lemma restsWell_later:
  assumes r: "restsWell s i t" and t: "onlyStarts t u" "dispatched t u"
  shows "restsWell s i u"
  unfolding restsWell_def
proof (intro allI impI)
  fix n assume n: "nodes u i = Some n" "nstate n = Pending"
  then have "nodes t i = Some n" by (rule dispatched_pending [OF t(2)])
  with r n(2) consider k where "readings s \<le> k" "k < readings t" "o_clock (opts s) k < nextAttemptAt n"
    | "\<forall>x\<in>set (prerequisites n). openOrDone t x" "\<exists>x\<in>set (prerequisites n). isOpen t x"
    unfolding restsWell_def by blast
  then show "(\<exists>k. readings s \<le> k \<and> k < readings u \<and> o_clock (opts s) k < nextAttemptAt n) \<or>
      ((\<forall>x\<in>set (prerequisites n). openOrDone u x) \<and> (\<exists>x\<in>set (prerequisites n). isOpen u x))"
  proof cases
    case 1
    moreover have "readings t \<le> readings u" using t(2) by (simp add: dispatched_def)
    ultimately show ?thesis by (metis less_le_trans)
  next
    case 2
    then show ?thesis using onlyStarts_open [OF t(1)] by blast
  qed
qed

lemma restsWell_earlier:
  assumes "restsWell t i u" and "dispatched s t" and "opts t = opts s"
  shows "restsWell s i u"
  using assms unfolding restsWell_def dispatched_def by (metis le_trans)

lemma quiet_round:
  assumes "dispatchRound is p sp s = (False, False, sp', s')" and "keyed (nodes s)"
  shows "onlyStarts s s' \<and> (\<forall>i\<in>set is. restsWell s i s')"
  using assms
proof (induction "is" arbitrary: p sp s)
  case Nil
  then show ?case by (simp add: onlyStarts_def)
next
  case (Cons i "is")
  obtain r t where v: "visited i s r t"
    and go: "r \<noteq> Returned \<Longrightarrow> dispatchRound is (after r p) (spawn r i sp) t = (False, False, sp', s')"
    and stop: "r \<noteq> Returned"
    using visit_cases [OF Cons.prems] by blast
  have vt: "tidy s t" "dispatched s t" using visited_tidy [OF v] by blast+
  have k: "keyed (nodes t)" using tidy_keyed [OF vt(1) Cons.prems(2)] .
  have IH: "onlyStarts t s'" "\<forall>j\<in>set is. restsWell t j s'"
    using Cons.IH [OF go [OF stop] k] by blast+
  have "r \<noteq> Propagated"
  proof
    assume "r = Propagated"
    with go [OF stop] have "dispatchRound is True (spawn r i sp) t = (False, False, sp', s')" by simp
    from flag_kept [OF this] show False .
  qed
  note q = quiet_visit [OF v stop this]
  have "dispatched t s'" using round_facts [OF go [OF stop] k] by blast
  from restsWell_later [OF q(2) IH(1) this] have "restsWell s i s'" .
  moreover have "\<forall>j\<in>set is. restsWell s j s'"
    using IH(2) restsWell_earlier [OF _ vt(2) tidy_opts [OF vt(1)]] by blast
  ultimately show ?case using onlyStarts_trans [OF q(1) IH(1)] by simp
qed

subsection \<open>The whole dispatch\<close>

lemma dispatchLoop_facts:
  assumes "dispatchLoop orders sp s = Some (sp', s')" and "keyed (nodes s)"
    and "\<forall>order\<in>set orders. dom (nodes s) \<subseteq> set order"
  shows "tidy s s' \<and> dispatched s s' \<and> (\<exists>new. sp' = sp @ new \<and> startedWell s new s') \<and>
    (err s' = None \<longrightarrow> (\<forall>i\<in>dom (nodes s). restsWell s i s'))"
  using assms
proof (induction orders arbitrary: sp s)
  case Nil
  then show ?case by simp
next
  case (Cons order orders)
  obtain ret p sp1 s1 where r: "dispatchRound order False sp s = (ret, p, sp1, s1)"
    by (metis prod_cases4)
  note f = round_facts [OF r Cons.prems(2)]
  from round_startedWell [OF r Cons.prems(2)] obtain new where
    new: "sp1 = sp @ new" "startedWell s new s1" by blast
  consider (ret) ret | (quiet) "\<not> ret" "\<not> p" | (again) "\<not> ret" p by blast
  then show ?case
  proof cases
    case ret
    with r Cons.prems(1) have "sp' = sp1" "s' = s1" by auto
    with f new ret show ?thesis by auto
  next
    case quiet
    with r Cons.prems(1) have e: "sp' = sp1" "s' = s1" by auto
    have "\<forall>i\<in>dom (nodes s). restsWell s i s1"
      using quiet_round [of order False sp s sp1 s1] r quiet Cons.prems(2,3) by auto
    with f new e show ?thesis by blast
  next
    case again
    have rest: "dispatchLoop orders sp1 s1 = Some (sp', s')" using r again Cons.prems(1) by simp
    have k: "keyed (nodes s1)" using tidy_keyed f Cons.prems(2) by blast
    have d: "dom (nodes s1) = dom (nodes s)" using tidy_dom f by blast
    have IH: "tidy s1 s'" "dispatched s1 s'" "\<exists>new. sp' = sp1 @ new \<and> startedWell s1 new s'"
      "err s' = None \<longrightarrow> (\<forall>i\<in>dom (nodes s1). restsWell s1 i s')"
      using Cons.IH [OF rest k] Cons.prems(3) d by auto
    from IH(3) obtain new' where new': "sp' = sp1 @ new'" "startedWell s1 new' s'" by blast
    have "startedWell s (new @ new') s'"
      using startedWell_trans [OF new(2) new'(2)] f IH(1,2) by blast
    moreover have "err s' = None \<longrightarrow> (\<forall>i\<in>dom (nodes s). restsWell s i s')"
      using IH(4) d f restsWell_earlier tidy_opts by metis
    moreover have "tidy s s'" "dispatched s s'"
      using f IH(1,2) tidy_trans dispatched_trans by blast+
    ultimately show ?thesis using new(1) new'(1) by auto
  qed
qed

end
