(* ===== verification/Graph_Execute.thy ===== *)
theory Graph_Execute
  imports Graph_Dispatch
begin

section \<open>Executing a node, adding and waiting for children, the run loop\<close>

text \<open>
  The remaining operations of \<open>internal/graphexec/executor.go\<close>. A goroutine of the code
  alternates between critical sections under \<open>e.mu\<close> and calls made without it. A value
  of type \<open>pc\<close> is the point where a goroutine stands between two critical sections, and
  each critical section is one function that returns the next point and the next state.
  The results of the calls made without the lock are arguments of the section that
  follows them. \<^const>\<open>None\<close> as the result of a section means that
  \<open>SlotPool.Release\<close> blocks for ever; \<open>Graph_Invariants\<close> shows that this never happens.
\<close>

text \<open>The deferred \<open>Cache.Store(owner, key, nil, context.Canceled)\<close> of a cache miss.\<close>

type_synonym cleanup = "(uuid \<times> bytes) option"

text \<open>
  What \<open>Wait\<close> does after \<open>resume\<close>: whether it looks at \<open>waitCtx.Err()\<close>, and its copy of
  the child.
\<close>

type_synonym cont = "bool \<times> node"

datatype pc =
    XStart uuid \<comment> \<open>spawned: about to run \<open>execute(id)\<close>\<close>
  | XLookup uuid uuid bytes \<comment> \<open>in \<open>Cache.Lookup\<close>, with the fresh owner\<close>
  | XEnsure uuid cleanup bytes \<comment> \<open>in \<open>Images.Ensure\<close>\<close>
  | XAcquire uuid cleanup \<comment> \<open>in \<open>SlotPool.Acquire\<close>\<close>
  | XAcquired uuid cleanup \<comment> \<open>has a slot, about to commit \<open>Running\<close>\<close>
  | XRun uuid cleanup nat int bytes \<comment> \<open>in \<open>Runner.Run\<close>: attempt object, number, cache key\<close>
  | XFinish uuid cleanup nat int bytes "goerr option" \<comment> \<open>about to take \<open>resumeMu\<close>\<close>
  | XReturn cleanup \<comment> \<open>\<open>execute\<close> returns\<close>
  | XDone
  | XPanic
  | WEnter uuid int uuid \<comment> \<open>\<open>Wait\<close>: parent, attempt, child\<close>
  | WTest uuid int uuid nat \<comment> \<open>top of the loop of \<open>Wait\<close>\<close>
  | WSleep uuid int uuid nat nat \<comment> \<open>in its \<open>select\<close>, with the epoch of \<open>changed\<close>\<close>
  | WLeave uuid int nat node \<comment> \<open>about to leave the loop, with its copy of the child\<close>
  | RLock uuid int nat cont \<comment> \<open>\<open>resume\<close>: about to take \<open>resumeMu\<close>\<close>
  | RTest uuid int nat cont
  | RSleep uuid int nat cont nat
  | RCheck uuid int nat cont
  | RAcquire uuid int nat cont \<comment> \<open>in \<open>SlotPool.Acquire\<close>\<close>
  | RAcquired uuid int nat cont
  | RReturn nat cont "goerr option" \<comment> \<open>about to release \<open>resumeMu\<close> and return\<close>
  | WDone "node option" "goerr option"

definition isCacheable :: "goerr \<Rightarrow> bool" where
  "isCacheable e = (case e of CacheErr _ _ \<Rightarrow> True | _ \<Rightarrow> False)"

definition ctxDone :: "'db exec \<Rightarrow> nat \<Rightarrow> bool" where
  "ctxDone s a \<longleftrightarrow> own_cancel (acts s ! a) \<or> cancelled s"

definition updAct :: "nat \<Rightarrow> (active \<Rightarrow> active) \<Rightarrow> 'db exec \<Rightarrow> 'db exec" where
  "updAct a f s = s\<lparr>acts := (acts s)[a := f (acts s ! a)]\<rparr>"

definition releaseSlot :: "'db exec \<Rightarrow> 'db exec option" where
  "releaseSlot s = map_option (\<lambda>p. s\<lparr>pool := p\<rparr>) (slotRelease (pool s))"

definition acquireSlot :: "'db exec \<Rightarrow> 'db exec option" where
  "acquireSlot s = map_option (\<lambda>p. s\<lparr>pool := p\<rparr>) (slotAcquire (pool s))"

definition notActive :: goerr where "notActive = Plain ''parent attempt is not active''"

subsection \<open>\<open>execute\<close>\<close>

text \<open>Lines 403 to 410: wait for the image, or go on to take a slot.\<close>

definition execImage :: "cleanup \<Rightarrow> uuid \<Rightarrow> node \<Rightarrow> 'db exec \<Rightarrow> pc \<times> 'db exec" where
  "execImage cl i n s =
     (if imageKey n \<noteq> [] \<and> o_hasImages (opts s) then
        (case commitLocked (cancelled s)
                (n\<lparr>nstate := Waiting, waitingOn := WaitingForImage\<rparr>) s of
           (Some e, s') \<Rightarrow> (XReturn cl, s')
         | (None, s') \<Rightarrow> (XEnsure i cl (imageKey n), s'))
      else (XAcquire i cl, s))"

text \<open>Lines 363 to 373; \<open>owner\<close> is the fresh \<open>uuid.New()\<close>.\<close>

definition execStart :: "uuid \<Rightarrow> uuid \<Rightarrow> 'db exec \<Rightarrow> pc \<times> 'db exec" where
  "execStart i owner s =
     (case nodes s i of
        None \<Rightarrow> (XPanic, s)
      | Some n \<Rightarrow>
          if nstate n \<noteq> Ready \<or> cancelled s then (XReturn None, s)
          else if cacheKey n \<noteq> [] \<and> o_hasCache (opts s) then (XLookup i owner (cacheKey n), s)
          else execImage None i n s)"

definition cacheHitNode :: "node \<Rightarrow> bytes \<Rightarrow> goerr option \<Rightarrow> node" where
  "cacheHitNode n out e =
     (case e of
        None \<Rightarrow> n\<lparr>cacheHit := True, noutput := out, nstate := Done, nerror := []\<rparr>
      | Some e' \<Rightarrow> n\<lparr>cacheHit := isCacheable e', noutput := out, nstate := Failed,
                     nerror := errText e'\<rparr>)"

text \<open>Lines 374 to 402, with the result of the lookup.\<close>

definition execLookedUp :: "uuid list \<Rightarrow> uuid \<Rightarrow> uuid \<Rightarrow> bytes \<Rightarrow> bytes \<Rightarrow> goerr option \<Rightarrow> bool \<Rightarrow>
    'db exec \<Rightarrow> pc \<times> 'db exec" where
  "execLookedUp order i owner key out e hit s =
     (let cl = (if hit then None else Some (owner, key)) in
      case nodes s i of
        None \<Rightarrow> (XPanic, s)
      | Some n \<Rightarrow>
          if Terminal (nstate n) \<or> cancelled s then (XReturn cl, s)
          else if hit then
            (case commitLocked (cancelled s) (cacheHitNode n out e) s of
               (Some _, s') \<Rightarrow> (XReturn cl, s')
             | (None, s') \<Rightarrow>
                 (XReturn cl,
                  snd (closeLocked order (cancelled s') i ''parent action completed'' s')))
          else execImage cl i n s)"

text \<open>Lines 412 to 434, with the result of \<open>Images.Ensure\<close>.\<close>

definition execEnsured :: "uuid list \<Rightarrow> uuid \<Rightarrow> cleanup \<Rightarrow> goerr option \<Rightarrow> 'db exec \<Rightarrow> pc \<times> 'db exec" where
  "execEnsured order i cl e s =
     (case nodes s i of
        None \<Rightarrow> (XPanic, s)
      | Some n \<Rightarrow>
          if Terminal (nstate n) \<or> cancelled s then (XReturn cl, s)
          else
            (case e of
               Some e' \<Rightarrow>
                 (case commitLocked (cancelled s)
                         (n\<lparr>waitingOn := NoWait, nstate := Failed, nerror := errText e'\<rparr>) s of
                    (Some _, s') \<Rightarrow> (XReturn cl, s')
                  | (None, s') \<Rightarrow>
                      (XReturn cl,
                       snd (closeLocked order (cancelled s') i ''parent action failed'' s')))
             | None \<Rightarrow>
                 (case commitLocked (cancelled s) (n\<lparr>waitingOn := NoWait, nstate := Ready\<rparr>) s of
                    (Some _, s') \<Rightarrow> (XReturn cl, s')
                  | (None, s') \<Rightarrow> (XAcquire i cl, s'))))"

text \<open>Lines 438 to 459, holding a slot.\<close>

definition startAttempt :: "node \<Rightarrow> node" where
  "startAttempt n =
     n\<lparr>nstate := Running, attempt := wrap32 (attempt n + 1), nextAttemptAt := zeroTime\<rparr>"

definition newActive :: active where
  "newActive = \<lparr>own_cancel = False, held = True, waiters = 0, resumeMu = False\<rparr>"

definition execAcquired :: "uuid \<Rightarrow> cleanup \<Rightarrow> 'db exec \<Rightarrow> (pc \<times> 'db exec) option" where
  "execAcquired i cl s =
     (case nodes s i of
        None \<Rightarrow> Some (XPanic, s)
      | Some n \<Rightarrow>
          if nstate n \<noteq> Ready \<or> cancelled s then
            map_option (\<lambda>s'. (XReturn cl, s')) (releaseSlot s)
          else
            (case commitLocked (cancelled s) (startAttempt n) s of
               (Some _, s') \<Rightarrow> map_option (\<lambda>s''. (XReturn cl, s'')) (releaseSlot s')
             | (None, s') \<Rightarrow>
                 Some (XRun i cl (length (acts s')) (attempt (startAttempt n)) (cacheKey n),
                       s'\<lparr>actives := (actives s')(i \<mapsto> length (acts s')),
                          acts := acts s' @ [newActive]\<rparr>)))"

text \<open>
  Lines 460 to 471: the outcome of the attempt, given what the runner and \<open>Cache.Store\<close>
  returned. The store is called only while the attempt's context lives.
\<close>

definition runOutcome :: "'db exec \<Rightarrow> nat \<Rightarrow> bytes \<Rightarrow> bytes \<times> goerr option \<Rightarrow> goerr option \<Rightarrow>
    bytes \<times> goerr option" where
  "runOutcome s a key res cacheErr =
     (let (out, e) = (if o_hasRunner (opts s) then res else ([], Some (Plain ''runner unavailable'')))
      in if key \<noteq> [] \<and> o_hasCache (opts s) \<and> \<not> ctxDone s a
         then (out, (case cacheErr of None \<Rightarrow> e | Some e' \<Rightarrow> Some e')) else (out, e))"

definition timerLocked :: "uuid \<Rightarrow> int \<Rightarrow> time \<Rightarrow> 'db exec \<Rightarrow> 'db exec" where
  "timerLocked i att at s = (tick s)\<lparr>timers := timers s @ [(i, att, at)]\<rparr>"

text \<open>Lines 486 to 507: the node after an attempt, and the state with the clock read.\<close>

definition attemptResult :: "node \<Rightarrow> bytes \<Rightarrow> goerr option \<Rightarrow> 'db exec \<Rightarrow> node \<times> 'db exec" where
  "attemptResult n out e s =
     (let n1 = n\<lparr>noutput := out, waitingOn := NoWait\<rparr> in
      case e of
        None \<Rightarrow> (n1\<lparr>nstate := Done, nerror := []\<rparr>, s)
      | Some e' \<Rightarrow>
          (let f = wrap32 (failures n + 1);
               n2 = n1\<lparr>failures := f, nerror := errText e'\<rparr>
           in if \<not> isCacheable e' \<and> f < max (maxAttempts n) 1
              then (n2\<lparr>nstate := Pending, waitingOn := WaitingForRetry,
                       nextAttemptAt := now s + backoff (opts s) f\<rparr>, tick s)
              else (n2\<lparr>nstate := Failed\<rparr>, s)))"

text \<open>Lines 473 to 516; \<open>a\<close> is the attempt's object and \<open>num\<close> its number.\<close>

definition endAttempt :: "uuid \<Rightarrow> nat \<Rightarrow> 'db exec \<Rightarrow> 'db exec option" where
  "endAttempt i a s =
     map_option (\<lambda>s'. updAct a (\<lambda>x. x\<lparr>own_cancel := True, held := False\<rparr>)
                        (s'\<lparr>actives := (actives s')(i := None)\<rparr>))
       (if held (acts s ! a) then releaseSlot s else Some s)"

definition finishNode :: "uuid list \<Rightarrow> uuid \<Rightarrow> node \<Rightarrow> bytes \<Rightarrow> goerr option \<Rightarrow> 'db exec \<Rightarrow> 'db exec" where
  "finishNode order i n out e s =
     (let (n', s1) = attemptResult n out e s in
      case commitLocked (cancelled s1) n' s1 of
        (Some _, s2) \<Rightarrow> s2
      | (None, s2) \<Rightarrow>
          if nstate n' = Pending then timerLocked i (attempt n') (nextAttemptAt n') s2
          else snd (closeLocked order (cancelled s2) i ''parent action completed'' s2))"

definition execFinish :: "uuid list \<Rightarrow> uuid \<Rightarrow> cleanup \<Rightarrow> nat \<Rightarrow> int \<Rightarrow> bytes \<Rightarrow> goerr option \<Rightarrow>
    'db exec \<Rightarrow> (pc \<times> 'db exec) option" where
  "execFinish order i cl a num out e s =
     (case endAttempt i a s of
        None \<Rightarrow> None
      | Some s1 \<Rightarrow>
          if cancelled s1 then Some (XReturn cl, s1)
          else
            (case nodes s1 i of
               None \<Rightarrow> Some (XPanic, s1)
             | Some n \<Rightarrow>
                 if Terminal (nstate n) \<or> attempt n \<noteq> num then Some (XReturn cl, s1)
                 else Some (XReturn cl, finishNode order i n out e s1)))"

text \<open>Lines 531 to 537: a timer fires; it notifies only while its attempt is still the current one.\<close>

definition timerFire :: "uuid \<times> int \<times> time \<Rightarrow> 'db exec \<Rightarrow> 'db exec" where
  "timerFire t s =
     (case t of (i, att, at) \<Rightarrow>
        (case nodes s i of
           None \<Rightarrow> s
         | Some n \<Rightarrow> if attempt n = att \<and> nstate n = Pending then notifyLocked s else s))"

subsection \<open>\<open>Add\<close> and \<open>Get\<close>\<close>

text \<open>
  Lines 543 to 586. \<open>c\<close> is \<open>ctx.Err()\<close> of the caller's context. The check of line 571
  reads the clock once, and \<open>timerLocked\<close> reads it again.
\<close>

definition addNode :: "node \<Rightarrow> 'db exec \<Rightarrow> 'db exec" where
  "addNode n s =
     (let s1 = putNode n s
      in if nstate n = Pending
         then (if now s1 < nextAttemptAt n
               then timerLocked (nodeID n) (attempt n) (nextAttemptAt n) (tick s1) else tick s1)
         else s1)"

definition Add :: "goerr option \<Rightarrow> uuid \<Rightarrow> int \<Rightarrow> node \<Rightarrow> 'db exec \<Rightarrow> goerr option \<times> 'db exec" where
  "Add c parent att n s =
     (case c of
        Some e \<Rightarrow> (Some e, s)
      | None \<Rightarrow>
     (case err s of
        Some e \<Rightarrow> (Some e, s)
      | None \<Rightarrow>
     (case nodes s parent of
        None \<Rightarrow> (Some notActive, s)
      | Some p \<Rightarrow>
          if attempt p \<noteq> att \<or> actives s parent = None \<or> Terminal (nstate p)
          then (Some notActive, s)
          else
            (case nodes s (nodeID n) of
               Some old \<Rightarrow>
                 if parentID old \<noteq> Some parent
                 then (Some (Plain ''node belongs to another parent''), s) else (None, s)
             | None \<Rightarrow>
                 if nodeID n = parent then (Some (Plain ''node cannot parent itself''), s)
                 else (None, notifyLocked
                               (addNode (orPending (n\<lparr>parentID := Some parent\<rparr>)) s))))))"

definition Get :: "goerr option \<Rightarrow> uuid \<Rightarrow> 'db exec \<Rightarrow> node option \<times> goerr option" where
  "Get c i s =
     (case nodes s i of
        None \<Rightarrow> (None, Some (Plain ''node not found''))
      | Some n \<Rightarrow> (Some n, c))"

subsection \<open>\<open>Wait\<close> and \<open>resume\<close>\<close>

text \<open>Lines 589 to 619; \<open>c\<close> says whether the caller's context has ended.\<close>

definition notChild :: goerr where "notChild = Plain ''node is not a child of this parent''"

definition incWaiters :: "nat \<Rightarrow> 'db exec \<Rightarrow> 'db exec" where
  "incWaiters a = updAct a (\<lambda>x. x\<lparr>waiters := waiters x + 1\<rparr>)"

definition suspend :: "bool \<Rightarrow> node \<Rightarrow> nat \<Rightarrow> 'db exec \<Rightarrow> (goerr option \<times> 'db exec) option" where
  "suspend c p a s =
     (case commitLocked c (p\<lparr>nstate := Waiting, waitingOn := WaitingForChildren\<rparr>) s of
        (Some e, s') \<Rightarrow> Some (Some e, s')
      | (None, s') \<Rightarrow>
          map_option (\<lambda>s''. (None, s'')) (releaseSlot (updAct a (\<lambda>x. x\<lparr>held := False\<rparr>) s')))"

definition waitEnter :: "bool \<Rightarrow> uuid \<Rightarrow> int \<Rightarrow> uuid \<Rightarrow> 'db exec \<Rightarrow> (pc \<times> 'db exec) option" where
  "waitEnter c parent att child s =
     (case (nodes s parent, actives s parent) of
        (Some p, Some a) \<Rightarrow>
          if attempt p \<noteq> att \<or> Terminal (nstate p) then Some (WDone None (Some notActive), s)
          else
            (case nodes s child of
               None \<Rightarrow> Some (WDone None (Some notChild), s)
             | Some n \<Rightarrow>
                 if parentID n \<noteq> Some parent then Some (WDone None (Some notChild), s)
                 else if Terminal (nstate n) then Some (RLock parent att a (False, n), s)
                 else if held (acts s ! a) then
                   (case suspend c p a s of
                      None \<Rightarrow> None
                    | Some (Some e, s') \<Rightarrow> Some (WDone None (Some e), s')
                    | Some (None, s') \<Rightarrow> Some (WTest parent att child a, incWaiters a s'))
                 else Some (WTest parent att child a, incWaiters a s))
      | _ \<Rightarrow> Some (WDone None (Some notActive), s))"

text \<open>
  Lines 625 to 630 and 643 to 646; \<open>w\<close> is whether \<open>waitCtx\<close> has ended. The code looks at
  \<open>waitCtx\<close> just after the section rather than in it; if it ends in between, the copy is
  dropped either way, since line 638 then returns the error.
\<close>

definition waitTest :: "bool \<Rightarrow> uuid \<Rightarrow> int \<Rightarrow> uuid \<Rightarrow> nat \<Rightarrow> 'db exec \<Rightarrow> pc" where
  "waitTest w parent att child a s =
     (case nodes s child of
        None \<Rightarrow> XPanic
      | Some n \<Rightarrow>
          if Terminal (nstate n) \<or> w then WLeave parent att a n
          else WSleep parent att child a (epoch s))"

text \<open>Lines 631 to 634.\<close>

definition waitLeave :: "nat \<Rightarrow> 'db exec \<Rightarrow> 'db exec" where
  "waitLeave a s = notifyLocked (updAct a (\<lambda>x. x\<lparr>waiters := waiters x - 1\<rparr>) s)"

text \<open>Lines 651, 654 to 659, 666 to 681, and 685 to 696.\<close>

definition setResume :: "bool \<Rightarrow> nat \<Rightarrow> 'db exec \<Rightarrow> 'db exec" where
  "setResume b a = updAct a (\<lambda>x. x\<lparr>resumeMu := b\<rparr>)"

definition resumeTest :: "uuid \<Rightarrow> int \<Rightarrow> nat \<Rightarrow> cont \<Rightarrow> 'db exec \<Rightarrow> pc" where
  "resumeTest parent att a k s =
     (if waiters (acts s ! a) = 0 \<or> ctxDone s a then RCheck parent att a k
      else RSleep parent att a k (epoch s))"

definition resumeCheck :: "uuid \<Rightarrow> int \<Rightarrow> nat \<Rightarrow> cont \<Rightarrow> 'db exec \<Rightarrow> pc" where
  "resumeCheck parent att a k s =
     (case err s of
        Some e \<Rightarrow> RReturn a k (Some e)
      | None \<Rightarrow>
          if actives s parent \<noteq> Some a then RReturn a k (Some notActive)
          else
            (case nodes s parent of
               None \<Rightarrow> XPanic
             | Some p \<Rightarrow>
                 if attempt p \<noteq> att \<or> Terminal (nstate p) \<or> ctxDone s a
                 then RReturn a k (Some notActive)
                 else if held (acts s ! a) then RReturn a k None
                 else RAcquire parent att a k))"

definition resumeAcquired :: "uuid \<Rightarrow> nat \<Rightarrow> cont \<Rightarrow> 'db exec \<Rightarrow> (pc \<times> 'db exec) option" where
  "resumeAcquired parent a k s =
     (if actives s parent \<noteq> Some a
      then map_option (\<lambda>s'. (RReturn a k (Some notActive), s')) (releaseSlot s)
      else
        (case nodes s parent of
           None \<Rightarrow> Some (XPanic, s)
         | Some p \<Rightarrow>
             if Terminal (nstate p) \<or> ctxDone s a
             then map_option (\<lambda>s'. (RReturn a k (Some notActive), s')) (releaseSlot s)
             else
               (let (r, s') = commitLocked (ctxDone s a)
                                (p\<lparr>nstate := Running, waitingOn := NoWait\<rparr>)
                                (updAct a (\<lambda>x. x\<lparr>held := True\<rparr>) s)
                in Some (RReturn a k r, s'))))"

text \<open>Lines 699 to 704, and 602 to 605 and 635 to 641 after \<open>resume\<close> has returned \<open>r\<close>.\<close>

definition nodeResult :: "node \<Rightarrow> node option \<times> goerr option" where
  "nodeResult n = (Some n, if nstate n = Done then None else Some (Plain (nerror n)))"

definition waitReturn :: "goerr option \<Rightarrow> goerr option \<Rightarrow> cont \<Rightarrow> pc" where
  "waitReturn w r k =
     (case r of
        Some e \<Rightarrow> WDone None (Some e)
      | None \<Rightarrow>
          (case (fst k, w) of
             (True, Some e) \<Rightarrow> WDone None (Some e)
           | _ \<Rightarrow> (case nodeResult (snd k) of (n, e) \<Rightarrow> WDone n e)))"

subsection \<open>\<open>Run\<close>\<close>

text \<open>
  Lines 253 to 319. The driver is the goroutine that called \<open>Run\<close>; \<open>DSleep\<close> is its
  \<open>select\<close> at the end of the loop. The deferred \<open>e.cancel()\<close> is part of the section that
  returns; \<open>DDone\<close> is then the wait for the goroutines.
\<close>

datatype driver = DIdle | DLoop uuid | DSleep uuid | DDone "goerr option"

fun findRoot :: "(uuid \<rightharpoonup> node) \<Rightarrow> uuid list \<Rightarrow> uuid \<Rightarrow> goerr + uuid" where
  "findRoot ns [] root = Inr root"
| "findRoot ns (i # is) root =
     (case ns i of
        None \<Rightarrow> Inl nilDeref
      | Some n \<Rightarrow>
          if parentID n = None then
            (if root \<noteq> nilUUID then Inl (Plain ''graph has multiple roots'')
             else findRoot ns is i)
          else findRoot ns is root)"

fun startTimers :: "uuid list \<Rightarrow> 'db exec \<Rightarrow> 'db exec" where
  "startTimers [] s = s"
| "startTimers (i # is) s =
     (case nodes s i of
        None \<Rightarrow> startTimers is s
      | Some n \<Rightarrow>
          if nstate n \<noteq> Pending then startTimers is s
          else if now s < nextAttemptAt n
          then startTimers is (timerLocked i (attempt n) (nextAttemptAt n) (tick s))
          else startTimers is (tick s))"

definition runRoot :: "uuid list \<Rightarrow> 'db exec \<Rightarrow> goerr + uuid" where
  "runRoot order s =
     (case findRoot (nodes s) order nilUUID of
        Inl e \<Rightarrow> Inl e
      | Inr root \<Rightarrow>
          if order \<noteq> [] \<and> root = nilUUID then Inl (Plain ''graph has no root'')
          else Inr root)"

definition runStart :: "bool \<Rightarrow> uuid list \<Rightarrow> 'db exec \<Rightarrow> driver \<times> 'db exec" where
  "runStart parentEnded order s =
     (if started s then (DDone (Some (Plain ''executor already started'')), s)
      else
        (let s1 = s\<lparr>started := True, cancelled := parentEnded\<rparr> in
         case validateLocked order s1 of
           Some e \<Rightarrow> (DDone (Some e), cancelExec s1)
         | None \<Rightarrow>
             (case runRoot order s1 of
                Inl e \<Rightarrow> (DDone (Some e), cancelExec s1)
              | Inr root \<Rightarrow> (DLoop root, startTimers order s1))))"

text \<open>Lines 301 to 310.\<close>

definition runReturn :: "uuid list \<Rightarrow> uuid \<Rightarrow> 'db exec \<Rightarrow> goerr option \<times> 'db exec" where
  "runReturn order root s =
     (let r = (if root = nilUUID then None
               else (case nodes s root of
                       None \<Rightarrow> Some nilDeref
                     | Some n \<Rightarrow> if nstate n \<noteq> Done then Some (Plain (nerror n)) else None))
      in case closeLocked order False nilUUID ''root action completed'' s of
           (Some e, s') \<Rightarrow> (Some e, s')
         | (None, s') \<Rightarrow> (r, s'))"

definition rootEnded :: "uuid \<Rightarrow> 'db exec \<Rightarrow> bool" where
  "rootEnded root s \<longleftrightarrow>
     root = nilUUID \<or> (case nodes s root of None \<Rightarrow> True | Some n \<Rightarrow> Terminal (nstate n))"

text \<open>
  One pass of the loop: the driver's next point, the nodes to spawn, and the state; and
  \<^const>\<open>None\<close> when \<open>orders\<close> is too short for the rounds of \<open>dispatchLocked\<close>. \<open>ctxErr\<close> is
  \<open>e.ctx.Err()\<close> should the context have ended.
\<close>

definition runIter :: "goerr \<Rightarrow> uuid list \<Rightarrow> uuid list list \<Rightarrow> uuid \<Rightarrow> 'db exec \<Rightarrow>
    (driver \<times> uuid list \<times> 'db exec) option" where
  "runIter ctxErr order orders root s =
     (case err s of
        Some e \<Rightarrow> Some (DDone (Some e), [], cancelExec s)
      | None \<Rightarrow>
          if cancelled s then Some (DDone (Some ctxErr), [], cancelExec s)
          else if rootEnded root s then
            (case runReturn order root s of (r, s') \<Rightarrow> Some (DDone r, [], cancelExec s'))
          else
            (case dispatchLocked orders s of
               None \<Rightarrow> None
             | Some (spawned, s') \<Rightarrow> Some (DSleep root, spawned, s')))"

end
