(* ===== verification/Graph_Step.thy ===== *)
theory Graph_Step
  imports Graph_Execute
begin

section \<open>The concurrent system\<close>

text \<open>
  The executor with its goroutines: those that run \<open>execute\<close> or \<open>Wait\<close>, the driver that
  called \<open>Run\<close>, and the environment, which cancels contexts, calls \<open>Add\<close>, \<open>Wait\<close>,
  \<open>Cancel\<close> and \<open>CancelSubtree\<close> with any arguments at any time, lets timers fire and uses
  slots of a shared pool for other runs. A step is one critical section of one of them.
  Locking \<open>resumeMu\<close> at line 473 is part of the section that follows it; a slot given back
  right after a section (lines 445 and 455) is given back in it.
\<close>

record 'db config =
  ex :: "'db exec"
  ths :: "pc list"
  drv :: driver
  others :: nat \<comment> \<open>slots of the pool that other runs hold\<close>

subsection \<open>Steps of a goroutine\<close>

inductive tstep :: "pc \<Rightarrow> 'db exec \<Rightarrow> pc \<Rightarrow> 'db exec \<Rightarrow> bool" where
  start: "execStart i owner s = (p, s') \<Longrightarrow> tstep (XStart i) s p s'"
| lookup: "set order = dom (nodes s) \<Longrightarrow> execLookedUp order i owner key out e hit s = (p, s') \<Longrightarrow>
    tstep (XLookup i owner key) s p s'"
| ensured: "set order = dom (nodes s) \<Longrightarrow> execEnsured order i cl e s = (p, s') \<Longrightarrow>
    tstep (XEnsure i cl key) s p s'"
| acquire: "acquireSlot s = Some s' \<Longrightarrow> tstep (XAcquire i cl) s (XAcquired i cl) s'"
| acquireCtx: "cancelled s \<Longrightarrow> tstep (XAcquire i cl) s (XReturn cl) s"
| acquired: "execAcquired i cl s = Some (p, s') \<Longrightarrow> tstep (XAcquired i cl) s p s'"
| ran: "runOutcome s a key res ce = (out, e) \<Longrightarrow>
    tstep (XRun i cl a num key) s (XFinish i cl a num out e) s"
| finish: "\<not> resumeMu (acts s ! a) \<Longrightarrow> set order = dom (nodes s) \<Longrightarrow>
    execFinish order i cl a num out e s = Some (p, s') \<Longrightarrow>
    tstep (XFinish i cl a num out e) s p s'"
| return: "tstep (XReturn cl) s XDone s"
| wenter: "waitEnter c parent att child s = Some (p, s') \<Longrightarrow> tstep (WEnter parent att child) s p s'"
| wtest: "tstep (WTest parent att child a) s (waitTest w parent att child a s) s"
| wchanged: "epoch s \<noteq> k \<Longrightarrow> tstep (WSleep parent att child a k) s (WTest parent att child a) s"
| wended: "tstep (WSleep parent att child a k) s (WTest parent att child a) s"
| wleave: "tstep (WLeave parent att a n) s (RLock parent att a (True, n)) (waitLeave a s)"
| rlock: "\<not> resumeMu (acts s ! a) \<Longrightarrow>
    tstep (RLock parent att a k) s (RTest parent att a k) (setResume True a s)"
| rtest: "tstep (RTest parent att a k) s (resumeTest parent att a k s) s"
| rwake: "epoch s \<noteq> m \<or> ctxDone s a \<Longrightarrow>
    tstep (RSleep parent att a k m) s (RTest parent att a k) s"
| rcheck: "tstep (RCheck parent att a k) s (resumeCheck parent att a k s) s"
| racquire: "acquireSlot s = Some s' \<Longrightarrow>
    tstep (RAcquire parent att a k) s (RAcquired parent att a k) s'"
| racquireCtx: "ctxDone s a \<Longrightarrow>
    tstep (RAcquire parent att a k) s (RReturn a k (Some CtxCanceled)) s"
| racquired: "resumeAcquired parent a k s = Some (p, s') \<Longrightarrow>
    tstep (RAcquired parent att a k) s p s'"
| rreturn: "tstep (RReturn a k r) s (waitReturn w r k) (setResume False a s)"

subsection \<open>Steps of the system\<close>

inductive step :: "'db config \<Rightarrow> 'db config \<Rightarrow> bool" where
  thread: "t < length (ths c) \<Longrightarrow> tstep (ths c ! t) (ex c) p s' \<Longrightarrow>
    step c (c\<lparr>ex := s', ths := (ths c)[t := p]\<rparr>)"
| run: "drv c = DIdle \<Longrightarrow> \<not> started (ex c) \<Longrightarrow> set order = dom (nodes (ex c)) \<Longrightarrow>
    runStart parentEnded order (ex c) = (d, s') \<Longrightarrow> step c (c\<lparr>ex := s', drv := d\<rparr>)"
| iter: "drv c = DLoop root \<Longrightarrow> set order = dom (nodes (ex c)) \<Longrightarrow>
    \<forall>o'\<in>set orders. set o' = dom (nodes (ex c)) \<Longrightarrow>
    runIter ctxErr order orders root (ex c) = Some (d, spawned, s') \<Longrightarrow>
    step c (c\<lparr>ex := s', drv := d, ths := ths c @ map XStart spawned\<rparr>)"
| woken: "drv c = DSleep root \<Longrightarrow> wake (ex c) \<Longrightarrow>
    step c (c\<lparr>drv := DLoop root, ex := (ex c)\<lparr>wake := False\<rparr>\<rparr>)"
| ended: "drv c = DSleep root \<Longrightarrow> cancelled (ex c) \<Longrightarrow> step c (c\<lparr>drv := DLoop root\<rparr>)"
| parent: "started (ex c) \<Longrightarrow> step c (c\<lparr>ex := (ex c)\<lparr>cancelled := True\<rparr>\<rparr>)"
| othersTake: "slotAcquire (pool (ex c)) = Some q \<Longrightarrow>
    step c (c\<lparr>ex := (ex c)\<lparr>pool := q\<rparr>, others := Suc (others c)\<rparr>)"
| othersGive: "others c = Suc m \<Longrightarrow> slotRelease (pool (ex c)) = Some q \<Longrightarrow>
    step c (c\<lparr>ex := (ex c)\<lparr>pool := q\<rparr>, others := m\<rparr>)"
| callWait: "step c (c\<lparr>ths := ths c @ [WEnter parent att child]\<rparr>)"
| add: "Add ce parent att n (ex c) = (r, s') \<Longrightarrow> step c (c\<lparr>ex := s'\<rparr>)"
| cancel: "set order = dom (nodes (ex c)) \<Longrightarrow> step c (c\<lparr>ex := Cancel order (ex c)\<rparr>)"
| cancelSub: "set order = dom (nodes (ex c)) \<Longrightarrow> CancelSubtree order ce i (ex c) = (r, s') \<Longrightarrow>
    step c (c\<lparr>ex := s'\<rparr>)"
| fire: "t \<in> set (timers (ex c)) \<Longrightarrow>
    step c (c\<lparr>ex := timerFire t ((ex c)\<lparr>timers := remove1 t (timers (ex c))\<rparr>)\<rparr>)"

text \<open>A fresh executor, with a pool of which other runs hold \<open>used\<close> slots.\<close>

definition initial :: "'db config \<Rightarrow> bool" where
  "initial c \<longleftrightarrow>
     (\<exists>snapshot o' d. ex c = New snapshot o' d \<and> ths c = [] \<and> drv c = DIdle \<and>
        others c = used (pool (ex c)) \<and> used (pool (ex c)) \<le> capacity (pool (ex c)))"

definition reachable :: "'db config \<Rightarrow> bool" where
  "reachable c \<longleftrightarrow> (\<exists>c0. initial c0 \<and> step\<^sup>*\<^sup>* c0 c)"

lemma reachable_induct [consumes 1, case_names initial step]:
  assumes "reachable c" and "\<And>c. initial c \<Longrightarrow> P c"
    and "\<And>c c'. reachable c \<Longrightarrow> P c \<Longrightarrow> step c c' \<Longrightarrow> P c'"
  shows "P c"
proof -
  from assms(1) obtain c0 where c0: "initial c0" and r: "step\<^sup>*\<^sup>* c0 c"
    by (auto simp: reachable_def)
  from r have "reachable c \<and> P c"
  proof (induction rule: rtranclp_induct)
    case base
    show ?case using c0 assms(2) by (auto simp: reachable_def)
  next
    case (step y z)
    moreover from this have "reachable z"
      using c0 unfolding reachable_def by (metis rtranclp.rtrancl_into_rtrancl)
    ultimately show ?case using assms(3) by blast
  qed
  then show ?thesis ..
qed

subsection \<open>What a goroutine owns\<close>

text \<open>The node it executes, its attempt, and whether it holds a slot of its own.\<close>

fun owner :: "pc \<Rightarrow> uuid option" where
  "owner (XStart i) = Some i"
| "owner (XLookup i _ _) = Some i"
| "owner (XEnsure i _ _) = Some i"
| "owner (XAcquire i _) = Some i"
| "owner (XAcquired i _) = Some i"
| "owner (XRun i _ _ _ _) = Some i"
| "owner (XFinish i _ _ _ _ _) = Some i"
| "owner _ = None"

fun attemptOf :: "pc \<Rightarrow> (uuid \<times> nat) option" where
  "attemptOf (XRun i _ a _ _) = Some (i, a)"
| "attemptOf (XFinish i _ a _ _ _) = Some (i, a)"
| "attemptOf _ = None"

fun hasSlot :: "pc \<Rightarrow> bool" where
  "hasSlot (XAcquired _ _) = True"
| "hasSlot (RAcquired _ _ _ _) = True"
| "hasSlot _ = False"

text \<open>Whose \<open>resumeMu\<close> it holds, and the attempt it has found without a slot since.\<close>

fun resumes :: "pc \<Rightarrow> nat option" where
  "resumes (RTest _ _ a _) = Some a"
| "resumes (RSleep _ _ a _ _) = Some a"
| "resumes (RCheck _ _ a _) = Some a"
| "resumes (RAcquire _ _ a _) = Some a"
| "resumes (RAcquired _ _ a _) = Some a"
| "resumes (RReturn a _ _) = Some a"
| "resumes _ = None"

fun refills :: "pc \<Rightarrow> nat option" where
  "refills (RAcquire _ _ a _) = Some a"
| "refills (RAcquired _ _ a _) = Some a"
| "refills _ = None"

text \<open>The attempt whose \<open>waiters\<close> counts it, and what it refers to.\<close>

fun waitsOn :: "pc \<Rightarrow> nat option" where
  "waitsOn (WTest _ _ _ a) = Some a"
| "waitsOn (WSleep _ _ _ a _) = Some a"
| "waitsOn (WLeave _ _ a _) = Some a"
| "waitsOn _ = None"

fun actOf :: "pc \<Rightarrow> nat option" where
  "actOf (RLock _ _ a _) = Some a"
| "actOf (XRun _ _ a _ _) = Some a"
| "actOf (XFinish _ _ a _ _ _) = Some a"
| "actOf p = (case resumes p of Some a \<Rightarrow> Some a | None \<Rightarrow> waitsOn p)"

fun idsOf :: "pc \<Rightarrow> uuid set" where
  "idsOf (WTest p _ c _) = {p, c}"
| "idsOf (WSleep p _ c _ _) = {p, c}"
| "idsOf (WLeave p _ _ _) = {p}"
| "idsOf (RLock p _ _ _) = {p}"
| "idsOf (RTest p _ _ _) = {p}"
| "idsOf (RSleep p _ _ _ _) = {p}"
| "idsOf (RCheck p _ _ _) = {p}"
| "idsOf (RAcquire p _ _ _) = {p}"
| "idsOf (RAcquired p _ _ _) = {p}"
| "idsOf p = (case owner p of Some i \<Rightarrow> {i} | None \<Rightarrow> {})"

subsection \<open>Sections that only commit\<close>

text \<open>
  The clock moves on; every change of a node or of the error wakes the driver and starts
  a new epoch; nothing else than the end of an attempt and \<open>Add\<close> makes a node pending.
\<close>

definition signals :: "'db exec \<Rightarrow> 'db exec \<Rightarrow> bool" where
  "signals s s' \<longleftrightarrow>
     epoch s \<le> epoch s' \<and> readings s \<le> readings s' \<and> (wake s \<longrightarrow> wake s') \<and>
     (nodes s' = nodes s \<and> err s' = err s \<or> epoch s < epoch s' \<and> wake s')"

definition noPend :: "'db exec \<Rightarrow> 'db exec \<Rightarrow> bool" where
  "noPend s s' \<longleftrightarrow>
     (\<forall>i n. nodes s' i = Some n \<longrightarrow> nstate n = Pending \<longrightarrow>
        (\<exists>m. nodes s i = Some m \<and> nstate m = Pending))"

definition section_ok :: "'db exec \<Rightarrow> 'db exec \<Rightarrow> bool" where
  "section_ok s s' \<longleftrightarrow> tidy s s' \<and> signals s s' \<and> noPend s s'"

lemma signals_refl [simp, intro]: "signals s s"
  by (simp add: signals_def)

lemma signals_trans: "signals a b \<Longrightarrow> signals b c \<Longrightarrow> signals a c"
  unfolding signals_def by auto

lemma noPend_same: "nodes s' = nodes s \<Longrightarrow> noPend s s'"
  by (simp add: noPend_def)

lemma noPend_trans: "noPend a b \<Longrightarrow> noPend b c \<Longrightarrow> noPend a c"
  unfolding noPend_def by blast

lemma section_ok_refl [simp, intro]: "section_ok s s"
  by (simp add: section_ok_def noPend_def)

lemma section_ok_trans [trans]: "section_ok a b \<Longrightarrow> section_ok b c \<Longrightarrow> section_ok a c"
  unfolding section_ok_def using tidy_trans signals_trans noPend_trans by blast

lemma commit_signals: "commitLocked c n s = (r, s') \<Longrightarrow> signals s s'"
  by (auto simp: commitLocked_def signals_def notifyLocked_def putNode_def failStore_def
      split: option.splits prod.splits)

lemma commit_nodes: "commitLocked c n s = (r, s') \<Longrightarrow>
    nodes s' = nodes s \<or> nodes s' = (nodes s)(nodeID n \<mapsto> n)"
  using commit_ok(1) commit_failed(1) by (cases r) auto

lemma commit_noPend: "commitLocked c n s = (r, s') \<Longrightarrow> nstate n \<noteq> Pending \<Longrightarrow> noPend s s'"
  using commit_nodes [of c n s r s'] by (auto simp: noPend_def split: if_splits)

lemma commit_section:
  "commitLocked c n s = (r, s') \<Longrightarrow> updates s n \<Longrightarrow> nstate n \<noteq> Pending \<Longrightarrow> section_ok s s'"
  unfolding section_ok_def
  by (intro conjI, erule (1) commit_tidy, erule commit_signals,
      erule (1) commit_noPend)

lemma section_keyed: "section_ok s s' \<Longrightarrow> keyed (nodes s) \<Longrightarrow> keyed (nodes s')"
  by (simp add: section_ok_def tidy_def)

lemma section_dom: "section_ok s s' \<Longrightarrow> dom (nodes s') = dom (nodes s)"
  by (simp add: section_ok_def tidy_def calm_def)

lemma cancelActive_section [simp]: "section_ok s (cancelActive i s)"
proof -
  have "signals s (cancelActive i s)"
    by (simp add: signals_def cancelActive_def split: option.splits)
  then show ?thesis by (simp add: section_ok_def noPend_same)
qed

lemma closeEach_section:
  assumes "closeEach c reason is s = (r, s')" and "keyed (nodes s)"
  shows "section_ok s s'"
  using assms
proof (induction c reason "is" s arbitrary: r s' rule: closeEach.induct)
  case (1 c reason s)
  then show ?case by simp
next
  case (2 c reason i "is" s)
  show ?case
  proof (cases "\<exists>n. nodes s i = Some n \<and> \<not> Terminal (nstate n)")
    case False
    with 2 show ?thesis by (auto split: option.splits)
  next
    case True
    then obtain n where n: "nodes s i = Some n" "\<not> Terminal (nstate n)" by blast
    let ?next = "n\<lparr>nstate := Canceled, waitingOn := NoWait, nerror := reason\<rparr>"
    obtain q t where q: "commitLocked c ?next (cancelActive i s) = (q, t)"
      by (metis surj_pair)
    have "updates (cancelActive i s) ?next"
      using n "2.prems"(2) by (intro closed_updates) auto
    from commit_section [OF q this] have t: "section_ok s t"
      using section_ok_trans [OF cancelActive_section] by simp
    show ?thesis
    proof (cases q)
      case (Some e)
      with "2.prems"(1) n q t show ?thesis by simp
    next
      case None
      with "2.prems"(1) n q have rest: "closeEach c reason is t = (r, s')" by simp
      from "2.IH"(2) [OF n q [symmetric] None rest section_keyed [OF t "2.prems"(2)]] t
      show ?thesis using section_ok_trans by blast
    qed
  qed
qed

lemma closeLocked_section:
  "closeLocked order c parent reason s = (r, s') \<Longrightarrow> keyed (nodes s) \<Longrightarrow> section_ok s s'"
  unfolding closeLocked_def by (rule closeEach_section)

lemma commit_close_section:
  assumes "commitLocked c n s = (None, t)" and "updates s n" and "nstate n \<noteq> Pending"
    and "keyed (nodes s)"
  shows "section_ok s (snd (closeLocked order d parent reason t))"
proof -
  have t: "section_ok s t" by (rule commit_section [OF assms(1,2,3)])
  obtain r u where "closeLocked order d parent reason t = (r, u)" by fastforce
  with closeLocked_section [OF this section_keyed [OF t assms(4)]] section_ok_trans [OF t]
  show ?thesis by simp
qed

lemma cancelExec_section [simp]: "section_ok s (cancelExec s)"
proof -
  have "signals s (cancelExec s)" by (simp add: signals_def cancelExec_def)
  moreover have "nodes (cancelExec s) = nodes s" by (simp add: cancelExec_def)
  ultimately show ?thesis by (simp add: section_ok_def noPend_same)
qed

lemma Cancel_section: "keyed (nodes s) \<Longrightarrow> section_ok s (Cancel order s)"
  unfolding Cancel_def
  by (rule section_ok_trans [OF closeLocked_section cancelExec_section]) (auto simp: prod_eq_iff)

lemma CancelSubtree_section:
  assumes "CancelSubtree order c i s = (r, s')" and "keyed (nodes s)"
  shows "section_ok s s'"
proof (cases "\<exists>n. nodes s i = Some n \<and> \<not> Terminal (nstate n)")
  case False
  with assms show ?thesis
    by (auto simp: CancelSubtree_def split: option.splits dest: closeLocked_section)
next
  case True
  then obtain n where n: "nodes s i = Some n" "\<not> Terminal (nstate n)" by blast
  let ?next = "n\<lparr>nstate := Canceled, nerror := ''action canceled''\<rparr>"
  obtain q t where q: "commitLocked c ?next (cancelActive i s) = (q, t)"
    by (metis surj_pair)
  have "updates (cancelActive i s) ?next"
    using n assms(2) by (intro updates_node [where n = n]) (auto simp: sameStatic_def)
  from commit_section [OF q this] have t: "section_ok s t"
    using section_ok_trans [OF cancelActive_section] by simp
  with assms(1) n q section_keyed [OF t assms(2)] show ?thesis
    by (cases q) (auto simp: CancelSubtree_def dest: closeLocked_section intro: section_ok_trans)
qed

subsection \<open>The sections of \<open>execute\<close> that only commit\<close>

lemma execImage_section:
  assumes "execImage cl i n s = (p, s')" and "nodes s i = Some n" and "keyed (nodes s)"
    and "\<not> Terminal (nstate n)"
  shows "section_ok s s'" "p \<in> {XReturn cl, XEnsure i cl (imageKey n), XAcquire i cl}"
proof -
  have u: "updates s (n\<lparr>nstate := Waiting, waitingOn := WaitingForImage\<rparr>)"
    using assms(2-4) by (intro updates_node [where n = n]) (auto simp: sameStatic_def)
  from assms(1) show "section_ok s s'"
    by (auto simp: execImage_def split: if_splits prod.splits option.splits
        dest!: commit_section [OF _ u])
  from assms(1) show "p \<in> {XReturn cl, XEnsure i cl (imageKey n), XAcquire i cl}"
    by (auto simp: execImage_def split: if_splits prod.splits option.splits)
qed

lemma execStart_section:
  assumes "execStart i ow s = (p, s')" and "i \<in> dom (nodes s)" and "keyed (nodes s)"
  shows "section_ok s s'"
    "p = XReturn None \<or> (\<exists>key. p = XLookup i ow key \<or> p = XEnsure i None key) \<or> p = XAcquire i None"
proof -
  from assms(2) obtain n where n: "nodes s i = Some n" by auto
  show "section_ok s s'"
    using assms n by (auto simp: execStart_def split: if_splits dest!: execImage_section(1))
  show "p = XReturn None \<or> (\<exists>key. p = XLookup i ow key \<or> p = XEnsure i None key) \<or> p = XAcquire i None"
    using assms n by (auto simp: execStart_def split: if_splits dest!: execImage_section(2))
qed

lemma cacheHitNode_simps [simp]:
  "sameStatic n (cacheHitNode n out e)" "nstate (cacheHitNode n out e) \<noteq> Pending"
  "Terminal (nstate (cacheHitNode n out e))"
  by (auto simp: cacheHitNode_def sameStatic_def split: option.splits)

lemma execLookedUp_section:
  assumes "execLookedUp order i ow key out e hit s = (p, s')" and "i \<in> dom (nodes s)"
    and "keyed (nodes s)"
  shows "section_ok s s'"
    "(\<exists>cl. p = XReturn cl) \<or> (\<exists>cl k. p = XEnsure i cl k) \<or> (\<exists>cl. p = XAcquire i cl)"
proof -
  from assms(2) obtain n where n: "nodes s i = Some n" by auto
  have u: "\<not> Terminal (nstate n) \<Longrightarrow> updates s (cacheHitNode n out e)"
    using n assms(3) by (intro updates_node [where n = n]) auto
  show "section_ok s s'"
    using assms(1,3) n u
    by (auto simp: execLookedUp_def Let_def split: if_splits prod.splits option.splits
        dest: execImage_section(1) commit_section intro: commit_close_section)
  show "(\<exists>cl. p = XReturn cl) \<or> (\<exists>cl k. p = XEnsure i cl k) \<or> (\<exists>cl. p = XAcquire i cl)"
    using assms(1,3) n
    by (auto simp: execLookedUp_def Let_def split: if_splits prod.splits option.splits
        dest: execImage_section(2))
qed

lemma execEnsured_section:
  assumes "execEnsured order i cl e s = (p, s')" and "i \<in> dom (nodes s)" and "keyed (nodes s)"
  shows "section_ok s s'" "p = XReturn cl \<or> p = XAcquire i cl"
proof -
  from assms(2) obtain n where n: "nodes s i = Some n" by auto
  have u: "updates s (n\<lparr>waitingOn := NoWait, nstate := st, nerror := x\<rparr>)"
    "updates s (n\<lparr>waitingOn := NoWait, nstate := st\<rparr>)" if "\<not> Terminal (nstate n)" for st x
    using n assms(3) that by (auto intro!: updates_node [where n = n] simp: sameStatic_def)
  show "section_ok s s'"
    using assms(1,3) n u
    by (auto simp: execEnsured_def split: if_splits prod.splits option.splits
        dest: commit_section intro: commit_close_section)
  show "p = XReturn cl \<or> p = XAcquire i cl"
    using assms(1) n by (auto simp: execEnsured_def split: if_splits prod.splits option.splits)
qed

subsection \<open>Dispatching\<close>

lemma tick_signals [simp]: "signals s (tick s)"
  by (simp add: signals_def)

lemma prereqLoop_signals: "prereqLoop cur ps r p s = (x, y, z, s') \<Longrightarrow> signals s s'"
proof (induction cur ps r p s rule: prereqLoop.induct)
  case (2 cur q ps r p s)
  show ?case
  proof (cases "\<exists>m. nodes s q = Some m \<and> nstate m = Done")
    case True
    with 2 show ?thesis by auto
  next
    case False
    note d = this
    show ?thesis
    proof (cases "nodes s q = None \<or> (\<exists>m. nodes s q = Some m \<and> Terminal (nstate m))")
      case True
      obtain e t where t: "commitLocked (cancelled s) (failPrereq cur) s = (e, t)" by fastforce
      show ?thesis
      proof (cases e)
        case None
        from t None "2.prems" d True have "prereqLoop cur ps False True t = (x, y, z, s')"
          by (auto split: if_splits)
        with "2.IH"(2) [OF d True t [symmetric] None] commit_signals [OF t] signals_trans
        show ?thesis by blast
      next
        case (Some a)
        with t "2.prems" d True commit_signals [OF t] show ?thesis by (auto split: if_splits)
      qed
    next
      case f: False
      with "2.IH"(3) [OF d f] "2.prems" d show ?thesis by auto
    qed
  qed
qed simp

lemma dispatchRound_signals: "dispatchRound is p sp s = (x, y, z, s') \<Longrightarrow> signals s s'"
proof (induction "is" arbitrary: p sp s)
  case (Cons i "is")
  show ?case
  proof (cases "\<exists>n. nodes s i = Some n \<and> nstate n = Pending \<and> \<not> now s < nextAttemptAt n")
    case False
    have "signals (tick s) s' \<Longrightarrow> signals s s'" using signals_trans tick_signals by blast
    with False Cons show ?thesis by (auto split: option.splits if_splits)
  next
    case True
    then obtain n where n: "nodes s i = Some n" "nstate n = Pending" "\<not> now s < nextAttemptAt n"
      by blast
    obtain ret rd q t where t: "prereqLoop n (prerequisites n) True p (tick s) = (ret, rd, q, t)"
      by (metis prod_cases4)
    have st: "signals s t" using prereqLoop_signals [OF t] signals_trans tick_signals by blast
    obtain e u where u: "commitLocked (cancelled t) (makeReady n) t = (e, u)" by fastforce
    have su: "signals s u" using st commit_signals [OF u] signals_trans by blast
    show ?thesis
    proof (cases ret)
      case True
      with Cons.prems n t st show ?thesis by simp
    next
      case nr: False
      show ?thesis
      proof (cases rd)
        case False
        with Cons.prems n t nr have "dispatchRound is q sp t = (x, y, z, s')" by simp
        with Cons.IH st signals_trans show ?thesis by blast
      next
        case True
        with Cons.prems n t nr u su show ?thesis
          by (cases e) (auto dest!: Cons.IH intro: signals_trans)
      qed
    qed
  qed
qed simp

lemma dispatchLoop_signals: "dispatchLoop orders sp s = Some (sp', s') \<Longrightarrow> signals s s'"
proof (induction orders arbitrary: sp s)
  case (Cons order orders)
  obtain r p sp1 t where t: "dispatchRound order False sp s = (r, p, sp1, t)"
    by (metis prod_cases4)
  have "signals s t" by (rule dispatchRound_signals [OF t])
  with t Cons show ?case by (cases r; cases p) (auto intro: signals_trans)
qed simp

lemma dispatched_noPend: "dispatched s t \<Longrightarrow> noPend s t"
  unfolding noPend_def using dispatched_pending by blast

lemma dispatchLocked_section:
  assumes "dispatchLocked orders s = Some (sp, s')" and "keyed (nodes s)"
    and "\<forall>o'\<in>set orders. set o' = dom (nodes s)"
  shows "section_ok s s'" "startedWell s sp s'"
    "err s' = None \<Longrightarrow> \<forall>i\<in>dom (nodes s). restsWell s i s'"
proof -
  from assms(1) have d: "dispatchLoop orders [] s = Some (sp, s')" by (simp add: dispatchLocked_def)
  have o: "\<forall>o'\<in>set orders. dom (nodes s) \<subseteq> set o'" using assms(3) by blast
  from dispatchLoop_facts [OF d assms(2) o] dispatchLoop_signals [OF d] dispatched_noPend
  show "section_ok s s'" "startedWell s sp s'"
    "err s' = None \<Longrightarrow> \<forall>i\<in>dom (nodes s). restsWell s i s'"
    by (auto simp: section_ok_def)
qed

subsection \<open>Slots and attempt objects\<close>

lemma updAct_frame [simp]:
  "nodes (updAct a f s) = nodes s" "actives (updAct a f s) = actives s"
  "opts (updAct a f s) = opts s" "cancelled (updAct a f s) = cancelled s"
  "started (updAct a f s) = started s" "err (updAct a f s) = err s" "db (updAct a f s) = db s"
  "pool (updAct a f s) = pool s" "epoch (updAct a f s) = epoch s" "wake (updAct a f s) = wake s"
  "timers (updAct a f s) = timers s" "readings (updAct a f s) = readings s"
  "length (acts (updAct a f s)) = length (acts s)"
  by (simp_all add: updAct_def)

lemma updAct_nth:
  "b < length (acts s) \<Longrightarrow> acts (updAct a f s) ! b = (if b = a then f (acts s ! b) else acts s ! b)"
  by (auto simp: updAct_def nth_upd)

lemma releaseSlot_Some:
  "releaseSlot s = Some s' \<longleftrightarrow>
   (\<exists>n. used (pool s) = Suc n \<and> s' = s\<lparr>pool := (pool s)\<lparr>used := n\<rparr>\<rparr>)"
  by (auto simp: releaseSlot_def slotRelease_def split: nat.splits)

lemma releaseSlot_None: "releaseSlot s = None \<longleftrightarrow> used (pool s) = 0"
  by (auto simp: releaseSlot_def slotRelease_def split: nat.splits)

lemma acquireSlot_Some:
  "acquireSlot s = Some s' \<longleftrightarrow> used (pool s) < capacity (pool s) \<and>
     s' = s\<lparr>pool := (pool s)\<lparr>used := Suc (used (pool s))\<rparr>\<rparr>"
  by (auto simp: acquireSlot_def slotAcquire_def)

end
