(* ===== verification/Graph_Invariant.thy ===== *)
theory Graph_Invariant
  imports Graph_Step
begin

section \<open>The invariant of the concurrent system\<close>

text \<open>
  For every section that does more than commit, what it does in terms of the section that
  commits, of \<open>releaseSlot\<close> and of \<open>updAct\<close>; then the effect of a goroutine's step on
  each part of the state; then the invariant, kept by every step of the system.
\<close>

subsection \<open>The sections taken apart\<close>

lemma startAttempt_simps [simp]:
  "sameStatic n (startAttempt n)" "nstate (startAttempt n) = Running"
  "attempt (startAttempt n) = wrap32 (attempt n + 1)" "nodeID (startAttempt n) = nodeID n"
  by (simp_all add: startAttempt_def sameStatic_def)

lemma execAcquired_cases:
  assumes "execAcquired i cl s = res" and "i \<in> dom (nodes s)" and "keyed (nodes s)"
  obtains (released) t where "section_ok s t"
      "res = map_option (\<lambda>s'. (XReturn cl, s')) (releaseSlot t)"
  | (started) n t p where "section_ok s t" "nodes s i = Some n" "nstate n = Ready"
      "nodes t i = Some (startAttempt n)"
      "p = XRun i cl (length (acts t)) (attempt (startAttempt n)) (cacheKey n)"
      "res = Some (p, t\<lparr>actives := (actives t)(i \<mapsto> length (acts t)), acts := acts t @ [newActive]\<rparr>)"
proof -
  from assms(2) obtain n where n: "nodes s i = Some n" by auto
  have id: "nodeID n = i" using n assms(3) by (simp add: keyed_def)
  show ?thesis
  proof (cases "nstate n \<noteq> Ready \<or> cancelled s")
    case True
    with n assms(1) have "res = map_option (\<lambda>s'. (XReturn cl, s')) (releaseSlot s)"
      by (simp add: execAcquired_def)
    then show ?thesis using released section_ok_refl by blast
  next
    case False
    then have u: "updates s (startAttempt n)"
      using n assms(3) by (intro updates_node [where n = n]) auto
    obtain e t where t: "commitLocked (cancelled s) (startAttempt n) s = (e, t)" by fastforce
    have st: "section_ok s t" by (rule commit_section [OF t u]) simp
    show ?thesis
    proof (cases e)
      case (Some x)
      with n False t assms(1) have "res = map_option (\<lambda>s'. (XReturn cl, s')) (releaseSlot t)"
        by (simp add: execAcquired_def)
      then show ?thesis using released st by blast
    next
      case None
      with n False t assms(1) commit_ok(1) [of _ "startAttempt n" s t] id
      show ?thesis by (intro started [OF st n]) (auto simp: execAcquired_def)
    qed
  qed
qed

lemma attemptResult_facts:
  assumes "attemptResult n out e s = (n', s')"
  shows "s' = s \<or> s' = tick s" "sameStatic n n'" "attempt n' = attempt n"
    "nstate n' = Pending \<or> Terminal (nstate n')"
  using assms by (auto simp: attemptResult_def Let_def sameStatic_def split: option.splits if_splits)

lemma section_tick [simp]: "section_ok s (tick s)"
  by (simp add: section_ok_def noPend_same)

text \<open>The end of an attempt may make its own node pending, and no other.\<close>

definition almost_section :: "uuid \<Rightarrow> 'db exec \<Rightarrow> 'db exec \<Rightarrow> bool" where
  "almost_section i s s' \<longleftrightarrow> tidy s s' \<and> signals s s' \<and>
     (\<forall>j n. nodes s' j = Some n \<longrightarrow> nstate n = Pending \<longrightarrow>
        j = i \<or> (\<exists>m. nodes s j = Some m \<and> nstate m = Pending))"

lemma section_almost: "section_ok s s' \<Longrightarrow> almost_section i s s'"
  unfolding section_ok_def almost_section_def noPend_def by blast

lemma almost_trans: "almost_section i s t \<Longrightarrow> almost_section i t u \<Longrightarrow> almost_section i s u"
  unfolding almost_section_def using tidy_trans signals_trans by blast

lemma timerLocked_section: "section_ok s (timerLocked i att at s)"
proof -
  have "signals s (timerLocked i att at s)" by (simp add: signals_def timerLocked_def)
  moreover have "tidy s (timerLocked i att at s)"
    by (auto simp: timerLocked_def tidy_def calm_def evolves_def)
  ultimately show ?thesis
    by (simp add: section_ok_def noPend_same timerLocked_def)
qed

lemma finishNode_section:
  assumes "nodes s i = Some n" and "keyed (nodes s)" and "\<not> Terminal (nstate n)"
  shows "almost_section i s (finishNode order i n out e s)"
proof -
  obtain n' s1 where r: "attemptResult n out e s = (n', s1)" by fastforce
  note f = attemptResult_facts [OF r]
  have s1: "section_ok s s1" and nodes1: "nodes s1 = nodes s" using f(1) by auto
  have id: "nodeID n' = i" using f(2) assms by (auto simp: sameStatic_def keyed_def)
  have u: "updates s1 n'" using assms f(2) nodes1 by (intro updates_node [where n = n]) auto
  obtain q t where t: "commitLocked (cancelled s1) n' s1 = (q, t)" by fastforce
  have st: "almost_section i s1 t"
    unfolding almost_section_def
    using commit_tidy [OF t u] commit_signals [OF t] commit_nodes [OF t] id
    by (auto split: if_splits)
  have rest: "almost_section i t (finishNode order i n out e s)"
    if "q = None"
  proof (cases "nstate n' = Pending")
    case True
    with r t that show ?thesis
      by (simp add: finishNode_def section_almost [OF timerLocked_section])
  next
    case False
    have "keyed (nodes t)" using keyed_commit [OF _ t] assms(2) nodes1 by simp
    moreover obtain x v where
      "closeLocked order (cancelled t) i ''parent action completed'' t = (x, v)" by fastforce
    ultimately show ?thesis
      using r t that False by (auto simp: finishNode_def intro: section_almost closeLocked_section)
  qed
  show ?thesis
  proof (cases q)
    case None
    from almost_trans [OF section_almost [OF s1] almost_trans [OF st rest [OF None]]]
    show ?thesis .
  next
    case (Some x)
    with r t almost_trans [OF section_almost [OF s1] st] show ?thesis
      by (simp add: finishNode_def)
  qed
qed

lemma endAttempt_Some:
  assumes "endAttempt i a s = Some s1"
  obtains s0 where "s1 = updAct a (\<lambda>x. x\<lparr>own_cancel := True, held := False\<rparr>)
      (s0\<lparr>actives := (actives s0)(i := None)\<rparr>)"
    "held (acts s ! a) \<and> releaseSlot s = Some s0 \<or> \<not> held (acts s ! a) \<and> s0 = s"
  using assms by (auto simp: endAttempt_def split: if_splits)

lemma execFinish_cases:
  assumes "execFinish order i cl a num out e s = Some (p, s')" and "i \<in> dom (nodes s)"
    and "keyed (nodes s)"
  obtains s1 where "endAttempt i a s = Some s1" "almost_section i s1 s'" "p = XReturn cl"
proof -
  from assms(1) obtain s1 where s1: "endAttempt i a s = Some s1"
    by (auto simp: execFinish_def split: option.splits)
  have "nodes s1 = nodes s"
    using s1 by (rule endAttempt_Some) (auto simp: releaseSlot_Some)
  moreover from assms(2) obtain n where n: "nodes s i = Some n" by auto
  ultimately have "almost_section i s1 s' \<and> p = XReturn cl"
    using assms(1,3) s1 finishNode_section [of s1 i n order out e]
    by (auto simp: execFinish_def split: if_splits intro: section_almost)
  then show ?thesis using that s1 by blast
qed

lemma suspend_cases:
  assumes "suspend c p a s = res" and "updates s p" and "\<not> Terminal (nstate p)"
  obtains (failed) e s' where "section_ok s s'" "res = Some (Some e, s')"
  | (released) t where "section_ok s t"
      "res = map_option (\<lambda>s'. (None, s')) (releaseSlot (updAct a (\<lambda>x. x\<lparr>held := False\<rparr>) t))"
proof -
  have u: "updates s (p\<lparr>nstate := Waiting, waitingOn := WaitingForChildren\<rparr>)"
    using assms(2,3) by (auto simp: updates_def node_le_def sameStatic_def)
  obtain e t where t: "commitLocked c (p\<lparr>nstate := Waiting, waitingOn := WaitingForChildren\<rparr>) s
      = (e, t)" by fastforce
  have st: "section_ok s t" by (rule commit_section [OF t u]) simp
  show ?thesis
    using assms(1) t st failed released by (cases e) (auto simp: suspend_def)
qed

lemma updates_refl: "nodes s i = Some n \<Longrightarrow> keyed (nodes s) \<Longrightarrow> updates s n"
  by (auto simp: updates_def keyed_def)

lemma waitEnter_cases:
  assumes "waitEnter c parent att child s = res" and "keyed (nodes s)"
  obtains (failed) e s' where "res = Some (WDone None (Some e), s')" "section_ok s s'"
  | (resume) a n where "res = Some (RLock parent att a (False, n), s)" "actives s parent = Some a"
      "parent \<in> dom (nodes s)"
  | (waits) a n where "res = Some (WTest parent att child a, incWaiters a s)"
      "actives s parent = Some a" "\<not> held (acts s ! a)" "{parent, child} \<subseteq> dom (nodes s)"
      "nodes s child = Some n" "\<not> Terminal (nstate n)"
  | (gives) a t where "actives s parent = Some a" "held (acts s ! a)"
      "{parent, child} \<subseteq> dom (nodes s)" "section_ok s t"
      "res = map_option (\<lambda>s'. (WTest parent att child a, incWaiters a s'))
               (releaseSlot (updAct a (\<lambda>x. x\<lparr>held := False\<rparr>) t))"
proof -
  consider (no) e where "res = Some (WDone None (Some e), s)"
    | (ok) p a where "nodes s parent = Some p" "actives s parent = Some a" "\<not> Terminal (nstate p)"
        "attempt p = att"
    using assms(1) by (auto simp: waitEnter_def split: option.splits if_splits)
  then show ?thesis
  proof cases
    case no
    then show ?thesis using failed section_ok_refl by blast
  next
    case ok
    have u: "updates s p" by (rule updates_refl [OF ok(1) assms(2)])
    consider (no) e where "res = Some (WDone None (Some e), s)"
      | (ends) n where "res = Some (RLock parent att a (False, n), s)"
      | (holds) n where "nodes s child = Some n" "\<not> Terminal (nstate n)" "held (acts s ! a)"
          "res = (case suspend c p a s of
                    None \<Rightarrow> None
                  | Some (Some e, s') \<Rightarrow> Some (WDone None (Some e), s')
                  | Some (None, s') \<Rightarrow> Some (WTest parent att child a, incWaiters a s'))"
      | (free) n where "nodes s child = Some n" "\<not> Terminal (nstate n)" "\<not> held (acts s ! a)"
          "res = Some (WTest parent att child a, incWaiters a s)"
      using assms(1) ok by (auto simp: waitEnter_def split: option.splits if_splits)
    then show ?thesis
    proof cases
      case no
      then show ?thesis using failed section_ok_refl by blast
    next
      case ends
      then show ?thesis using resume ok by blast
    next
      case free
      then show ?thesis using waits ok by auto
    next
      case holds
      show ?thesis
      proof (cases rule: suspend_cases [where c = c and a = a, OF refl u ok(3)])
        case (1 e s')
        with holds that(1) show ?thesis by auto
      next
        case (2 t)
        have "res = map_option (\<lambda>s'. (WTest parent att child a, incWaiters a s'))
               (releaseSlot (updAct a (\<lambda>x. x\<lparr>held := False\<rparr>) t))"
          using holds(4) 2(2)
          by (cases "releaseSlot (updAct a (\<lambda>x. x\<lparr>held := False\<rparr>) t)") auto
        with gives [OF ok(2) holds(3) _ 2(1)] ok holds show ?thesis by blast
      qed
    qed
  qed
qed

lemma resumeAcquired_cases:
  assumes "resumeAcquired parent a k s = res" and "parent \<in> dom (nodes s)" and "keyed (nodes s)"
  obtains (released) e where "res = map_option (\<lambda>s'. (RReturn a k (Some e), s')) (releaseSlot s)"
  | (holds) r s' where "res = Some (RReturn a k r, s')"
      "section_ok (updAct a (\<lambda>x. x\<lparr>held := True\<rparr>) s) s'"
proof -
  from assms(2) obtain p where p: "nodes s parent = Some p" by auto
  let ?s = "updAct a (\<lambda>x. x\<lparr>held := True\<rparr>) s"
  have u: "\<not> Terminal (nstate p) \<Longrightarrow> updates ?s (p\<lparr>nstate := Running, waitingOn := NoWait\<rparr>)"
    using p assms(3) by (intro updates_node [where n = p]) (auto simp: sameStatic_def)
  show ?thesis
  proof (cases "actives s parent \<noteq> Some a \<or> Terminal (nstate p) \<or> ctxDone s a")
    case True
    with assms(1) p have "res = map_option (\<lambda>s'. (RReturn a k (Some notActive), s')) (releaseSlot s)"
      by (auto simp: resumeAcquired_def)
    then show ?thesis by (rule released)
  next
    case False
    obtain r t where t: "commitLocked (ctxDone s a) (p\<lparr>nstate := Running, waitingOn := NoWait\<rparr>) ?s
        = (r, t)" by fastforce
    have "section_ok ?s t" using False by (intro commit_section [OF t u]) auto
    with assms(1) p False t holds show ?thesis by (auto simp: resumeAcquired_def)
  qed
qed

subsection \<open>A goroutine's step: nodes and signals\<close>

definition fits :: "pc \<Rightarrow> 'db exec \<Rightarrow> bool" where
  "fits p s \<longleftrightarrow>
     keyed (nodes s) \<and> idsOf p \<subseteq> dom (nodes s) \<and> (\<forall>a. actOf p = Some a \<longrightarrow> a < length (acts s)) \<and>
     (\<forall>i a. actives s i = Some a \<longrightarrow> a < length (acts s))"

text \<open>
  What every step keeps of the nodes; \<open>who\<close> is the node whose attempt may end in it, the
  only one of the graph that can become pending.
\<close>

definition node_step :: "uuid option \<Rightarrow> 'db exec \<Rightarrow> 'db exec \<Rightarrow> bool" where
  "node_step who s s' \<longleftrightarrow>
     evolves s s' \<and> signals s s' \<and> (keyed (nodes s) \<longrightarrow> keyed (nodes s')) \<and>
     dom (nodes s) \<subseteq> dom (nodes s') \<and>
     (\<forall>j n. nodes s' j = Some n \<longrightarrow> nstate n = Pending \<longrightarrow>
        who = Some j \<or> j \<notin> dom (nodes s) \<or> (\<exists>m. nodes s j = Some m \<and> nstate m = Pending))"

lemma node_step_trans: "node_step w a b \<Longrightarrow> node_step w b c \<Longrightarrow> node_step w a c"
  unfolding node_step_def
proof (elim conjE, intro conjI)
  assume d: "dom (nodes a) \<subseteq> dom (nodes b)"
    and a: "\<forall>j n. nodes b j = Some n \<longrightarrow> nstate n = Pending \<longrightarrow>
      w = Some j \<or> j \<notin> dom (nodes a) \<or> (\<exists>m. nodes a j = Some m \<and> nstate m = Pending)"
    and b: "\<forall>j n. nodes c j = Some n \<longrightarrow> nstate n = Pending \<longrightarrow>
      w = Some j \<or> j \<notin> dom (nodes b) \<or> (\<exists>m. nodes b j = Some m \<and> nstate m = Pending)"
  show "\<forall>j n. nodes c j = Some n \<longrightarrow> nstate n = Pending \<longrightarrow>
      w = Some j \<or> j \<notin> dom (nodes a) \<or> (\<exists>m. nodes a j = Some m \<and> nstate m = Pending)"
    using a b d by blast
qed (auto intro: evolves_trans signals_trans)

lemma section_node_step: "section_ok s s' \<Longrightarrow> node_step w s s'"
  by (auto simp: section_ok_def node_step_def tidy_def calm_def noPend_def)

lemma almost_node_step: "almost_section i s s' \<Longrightarrow> node_step (Some i) s s'"
  by (auto simp: almost_section_def node_step_def tidy_def calm_def)

lemma quiet_node_step:
  assumes "nodes s' = nodes s" "err s' = err s" "epoch s' = epoch s" "wake s' = wake s"
    "cancelled s' = cancelled s" "started s' = started s" "opts s' = opts s"
    "readings s' = readings s" "length (acts s) \<le> length (acts s')"
    "\<And>b. b < length (acts s) \<Longrightarrow> own_cancel (acts s ! b) \<Longrightarrow> own_cancel (acts s' ! b)"
  shows "node_step w s s'"
  using assms by (auto simp: node_step_def evolves_def signals_def)

lemma updAct_node_step:
  assumes "\<And>x. own_cancel x \<Longrightarrow> own_cancel (f x)"
  shows "node_step w s (updAct a f s)"
  using assms by (intro quiet_node_step) (auto simp: updAct_nth)

lemma Some_map: "Some x = map_option f m \<longleftrightarrow> (\<exists>y. m = Some y \<and> x = f y)"
  by (cases m) auto

lemma releaseSlot_node_step: "releaseSlot s = Some s' \<Longrightarrow> node_step w s s'"
  by (auto simp: releaseSlot_Some intro: quiet_node_step)

lemma acquireSlot_node_step: "acquireSlot s = Some s' \<Longrightarrow> node_step w s s'"
  by (auto simp: acquireSlot_Some intro: quiet_node_step)

lemma node_step_refl [simp, intro]: "node_step w s s"
  by (rule section_node_step) simp

lemma endAttempt_node_step:
  assumes "endAttempt i a s = Some s1"
  shows "node_step w s s1"
  using assms
proof (rule endAttempt_Some)
  fix s0
  assume e: "s1 = updAct a (\<lambda>x. x\<lparr>own_cancel := True, held := False\<rparr>)
      (s0\<lparr>actives := (actives s0)(i := None)\<rparr>)"
    and "held (acts s ! a) \<and> releaseSlot s = Some s0 \<or> \<not> held (acts s ! a) \<and> s0 = s"
  then have 0: "node_step w s s0" using releaseSlot_node_step by blast
  have "node_step w s0 (s0\<lparr>actives := (actives s0)(i := None)\<rparr>)"
    by (rule quiet_node_step) auto
  then have "node_step w s0 s1"
    unfolding e by (rule node_step_trans) (simp add: updAct_node_step)
  with 0 show ?thesis by (rule node_step_trans)
qed

lemma acquired_node_step:
  assumes "execAcquired i cl s = Some (p, s')" and "i \<in> dom (nodes s)" and "keyed (nodes s)"
  shows "node_step w s s'"
proof (cases rule: execAcquired_cases [OF assms])
  case (1 t)
  then show ?thesis
    using node_step_trans [OF section_node_step releaseSlot_node_step] by (auto simp: Some_map)
next
  case (2 n t q)
  have "node_step w t (t\<lparr>actives := (actives t)(i \<mapsto> length (acts t)), acts := acts t @ [newActive]\<rparr>)"
    by (rule quiet_node_step) (auto simp: nth_append)
  with 2 section_node_step node_step_trans show ?thesis by blast
qed

lemma incWaiters_node_step: "node_step w s (incWaiters a s)"
  unfolding incWaiters_def by (rule updAct_node_step) simp

lemma wenter_node_step:
  assumes "waitEnter c parent att child s = Some (p, s')" and "keyed (nodes s)"
  shows "node_step w s s'"
proof (cases rule: waitEnter_cases [OF assms])
  case (4 a t)
  then obtain u where u: "releaseSlot (updAct a (\<lambda>x. x\<lparr>held := False\<rparr>) t) = Some u"
    "s' = incWaiters a u" by (auto simp: Some_map)
  have "node_step w t (updAct a (\<lambda>x. x\<lparr>held := False\<rparr>) t)"
    by (rule updAct_node_step) simp
  then have "node_step w s u"
    by (rule node_step_trans [OF node_step_trans [OF section_node_step [OF 4(4)]]
          releaseSlot_node_step [OF u(1)]])
  then show ?thesis
    unfolding u(2) using node_step_trans incWaiters_node_step by blast
qed (auto intro: section_node_step incWaiters_node_step)

lemma racquired_node_step:
  assumes "resumeAcquired parent a k s = Some (p, s')" and "parent \<in> dom (nodes s)"
    and "keyed (nodes s)"
  shows "node_step w s s'"
proof (cases rule: resumeAcquired_cases [OF assms])
  case (1 e)
  then show ?thesis using releaseSlot_node_step by (auto simp: Some_map)
next
  case (2 r t)
  have "node_step w s (updAct a (\<lambda>x. x\<lparr>held := True\<rparr>) s)"
    by (rule updAct_node_step) simp
  with 2 section_node_step node_step_trans show ?thesis by blast
qed

lemma waitLeave_node_step: "node_step w s (waitLeave a s)"
proof -
  have "node_step w s (updAct a (\<lambda>x. x\<lparr>waiters := waiters x - 1\<rparr>) s)"
    by (rule updAct_node_step) simp
  moreover have "node_step w t (notifyLocked t)" for t :: "'a exec"
    by (auto simp: node_step_def signals_def notifyLocked_def evolves_def)
  ultimately show ?thesis unfolding waitLeave_def using node_step_trans by blast
qed

lemma tstep_nodes:
  assumes "tstep p s q s'" and "fits p s"
  shows "node_step (owner p) s s'"
  using assms
proof (cases rule: tstep.cases)
  case (finish a order i cl num out e)
  then have "i \<in> dom (nodes s)" "keyed (nodes s)" using assms(2) by (auto simp: fits_def)
  from execFinish_cases [OF finish(4) this] obtain s1 where
    s1: "endAttempt i a s = Some s1" "almost_section i s1 s'" by blast
  have "node_step (Some i) s s'"
    by (rule node_step_trans [OF endAttempt_node_step [OF s1(1)] almost_node_step [OF s1(2)]])
  with finish show ?thesis by simp
qed (use assms(2) in \<open>auto simp: fits_def setResume_def
    intro: section_node_step [OF execStart_section(1)] section_node_step [OF execLookedUp_section(1)]
      section_node_step [OF execEnsured_section(1)] acquireSlot_node_step acquired_node_step
      wenter_node_step waitLeave_node_step racquired_node_step updAct_node_step\<close>)

lemma waitEnter_pc:
  assumes "waitEnter c parent att child s = Some (p, s')"
  shows "(\<exists>e. p = WDone None e) \<or> (\<exists>a n. p = RLock parent att a (False, n)) \<or>
    (\<exists>a. p = WTest parent att child a)"
  using assms by (auto simp: waitEnter_def split: option.splits if_splits)

lemma resumeAcquired_pc:
  assumes "resumeAcquired parent a k s = Some (p, s')"
  shows "p = XPanic \<or> (\<exists>r. p = RReturn a k r)"
  using assms by (auto simp: resumeAcquired_def split: option.splits if_splits prod.splits)

lemma tstep_owner:
  assumes "tstep p s q s'" and "fits p s"
  shows "(owner q = owner p \<or> owner q = None) \<and> (node_step None s s' \<or> owner q = None)"
  using assms
proof (cases rule: tstep.cases)
  case (finish a order i cl num out e)
  then have "i \<in> dom (nodes s)" "keyed (nodes s)" using assms(2) by (auto simp: fits_def)
  then have "owner q = None" by (rule execFinish_cases [OF finish(4)]) simp
  then show ?thesis by auto
next
  case (start i ow)
  with assms(2) execStart_section [of i ow s q s']
  show ?thesis
    by (auto simp: fits_def intro: section_node_step)
next
  case (lookup order i ow key out e hit)
  with assms(2) execLookedUp_section [of order i ow key out e hit s q s']
  show ?thesis
    by (auto simp: fits_def intro: section_node_step)
next
  case (ensured order i cl e key)
  with assms(2) execEnsured_section [of order i cl e s q s']
  show ?thesis
    by (auto simp: fits_def intro: section_node_step)
next
  case (acquired i cl)
  then have d: "i \<in> dom (nodes s)" "keyed (nodes s)" using assms(2) by (auto simp: fits_def)
  have "owner q = owner p \<or> owner q = None"
    by (cases rule: execAcquired_cases [OF acquired(2) d]) (use acquired in \<open>auto simp: Some_map\<close>)
  then show ?thesis using acquired_node_step [OF acquired(2) d] by blast
qed (use tstep_nodes [OF assms] in
    \<open>auto simp: waitTest_def resumeTest_def resumeCheck_def waitReturn_def nodeResult_def
      split: option.splits bool.splits dest: waitEnter_pc resumeAcquired_pc
      intro: acquireSlot_node_step\<close>)

subsection \<open>A goroutine's step: slots\<close>

abbreviation heldN :: "'db exec \<Rightarrow> nat" where
  "heldN s \<equiv> countP held (acts s)"

definition slotN :: "pc \<Rightarrow> nat" where
  "slotN p = (if hasSlot p then 1 else 0)"

lemma slotN_simps [simp]: "hasSlot p \<Longrightarrow> slotN p = 1" "\<not> hasSlot p \<Longrightarrow> slotN p = 0"
  by (simp_all add: slotN_def)

text \<open>\<open>k\<close> slots more, of which the goroutine and the attempts hold their part.\<close>

definition balance :: "nat \<Rightarrow> 'db exec \<Rightarrow> nat \<Rightarrow> 'db exec \<Rightarrow> bool" where
  "balance m s m' s' \<longleftrightarrow>
     used (pool s') + m + heldN s = used (pool s) + m' + heldN s' \<and>
     capacity (pool s') = capacity (pool s) \<and>
     (used (pool s) \<le> capacity (pool s) \<longrightarrow> used (pool s') \<le> capacity (pool s'))"

lemma balance_refl [simp, intro]: "balance m s m s"
  by (simp add: balance_def)

lemma balance_trans: "balance k s l t \<Longrightarrow> balance l t m u \<Longrightarrow> balance k s m u"
  by (auto simp: balance_def)

lemma balance_same: "pool s' = pool s \<Longrightarrow> heldN s' = heldN s \<Longrightarrow> balance m s m s'"
  by (simp add: balance_def)

lemma calm_pool: "calm s s' \<Longrightarrow> pool s' = pool s"
  by (simp add: calm_def)

lemma section_balance: "section_ok s s' \<Longrightarrow> balance m s m s'"
  by (rule balance_same) (auto simp: section_ok_def tidy_def calm_held calm_pool)

lemma almost_balance: "almost_section i s s' \<Longrightarrow> balance m s m s'"
  by (rule balance_same) (auto simp: almost_section_def tidy_def calm_held calm_pool)

lemma release_balance: "releaseSlot s = Some s' \<Longrightarrow> balance (Suc m) s m s'"
  by (auto simp: releaseSlot_Some balance_def)

lemma acquire_balance: "acquireSlot s = Some s' \<Longrightarrow> balance m s (Suc m) s'"
  by (auto simp: acquireSlot_Some balance_def)

lemma updAct_heldN:
  assumes "a < length (acts s)" and "\<And>x. held (f x) = h"
  shows "heldN (updAct a f s) + (if held (acts s ! a) then 1 else 0) = heldN s + (if h then 1 else 0)"
  using countP_update [OF assms(1), of held "f (acts s ! a)"] assms(2) by (simp add: updAct_def)

lemma updAct_heldN_same:
  assumes "\<And>x. held (f x) = held x"
  shows "heldN (updAct a f s) = heldN s"
proof (cases "a < length (acts s)")
  case True
  then show ?thesis using assms by (simp add: updAct_def countP_update_same)
qed (simp add: updAct_def list_update_beyond)

lemma drop_balance:
  assumes "a < length (acts s)" and "held (acts s ! a)" and "\<And>x. \<not> held (f x)"
  shows "balance m s (Suc m) (updAct a f s)"
  using updAct_heldN [OF assms(1), of f False] assms(2,3) by (simp add: balance_def)

lemma keep_balance:
  assumes "a < length (acts s)" and "\<not> held (acts s ! a)" and "\<And>x. \<not> held (f x)"
  shows "balance m s m (updAct a f s)"
  using updAct_heldN [OF assms(1), of f False] assms(2,3) by (simp add: balance_def)

lemma fill_balance:
  assumes "a < length (acts s)" and "\<not> held (acts s ! a)" and "\<And>x. held (f x)"
  shows "balance (Suc m) s m (updAct a f s)"
  using updAct_heldN [OF assms(1), of f True] assms(2,3) by (simp add: balance_def)

lemma same_balance: "(\<And>x. held (f x) = held x) \<Longrightarrow> balance m s m (updAct a f s)"
  using updAct_heldN_same [of f a s] by (intro balance_same) auto

lemma endAttempt_balance:
  assumes "endAttempt i a s = Some s1" and "a < length (acts s)"
  shows "balance m s m s1"
  using assms(1)
proof (rule endAttempt_Some)
  fix s0
  let ?f = "\<lambda>x. x\<lparr>own_cancel := True, held := False\<rparr>"
  assume e: "s1 = updAct a ?f (s0\<lparr>actives := (actives s0)(i := None)\<rparr>)"
    and h: "held (acts s ! a) \<and> releaseSlot s = Some s0 \<or> \<not> held (acts s ! a) \<and> s0 = s"
  let ?t = "s0\<lparr>actives := (actives s0)(i := None)\<rparr>"
  have a: "acts ?t = acts s" using h by (auto simp: releaseSlot_Some)
  show "balance m s m s1"
  proof (cases "held (acts s ! a)")
    case True
    have "balance m s (Suc m) (updAct a ?f s)" by (rule drop_balance [OF assms(2) True]) simp
    moreover have "heldN (updAct a ?f s) = heldN s1" using a by (simp add: e updAct_def)
    ultimately show ?thesis
      using h True release_balance [of s s0 m] by (auto simp: balance_def e releaseSlot_Some)
  next
    case False
    then have "balance m ?t m s1"
      unfolding e using assms(2) a by (intro keep_balance) auto
    then show ?thesis using h False by (auto simp: balance_def)
  qed
qed

lemma acquired_balance:
  assumes "execAcquired i cl s = Some (p, s')" and "i \<in> dom (nodes s)" and "keyed (nodes s)"
  shows "balance 1 s (slotN p) s'"
proof (cases rule: execAcquired_cases [OF assms])
  case (1 t)
  then have "p = XReturn cl" "releaseSlot t = Some s'" by (auto simp: Some_map)
  then show ?thesis
    using balance_trans [OF section_balance [OF 1(1)] release_balance [of t s' 0]] by simp
next
  case (2 n t q)
  have "balance 1 t 0 (t\<lparr>actives := (actives t)(i \<mapsto> length (acts t)), acts := acts t @ [newActive]\<rparr>)"
    by (simp add: balance_def newActive_def)
  from balance_trans [OF section_balance [OF 2(1)] this] 2 show ?thesis by simp
qed

lemma incWaiters_balance: "balance m s m (incWaiters a s)"
  unfolding incWaiters_def by (rule same_balance) simp

lemma wenter_balance:
  assumes "waitEnter c parent att child s = Some (p, s')" and "keyed (nodes s)"
    and "\<And>a. actives s parent = Some a \<Longrightarrow> a < length (acts s)"
  shows "balance 0 s (slotN p) s'"
proof (cases rule: waitEnter_cases [OF assms(1,2)])
  case (4 a t)
  then obtain u where u: "releaseSlot (updAct a (\<lambda>x. x\<lparr>held := False\<rparr>) t) = Some u"
    "s' = incWaiters a u" "p = WTest parent att child a" by (auto simp: Some_map)
  have c: "calm s t" using 4(4) by (simp add: section_ok_def tidy_def)
  then have m: "map held (acts t) = map held (acts s)" by (simp add: calm_def)
  have l: "length (acts t) = length (acts s)" using calm_length [OF c] .
  have "held (acts t ! a)" using assms(3) [OF 4(1)] 4(2) m l by (metis nth_map)
  then have "balance 0 t (Suc 0) (updAct a (\<lambda>x. x\<lparr>held := False\<rparr>) t)"
    using assms(3) [OF 4(1)] l by (intro drop_balance) auto
  then have "balance 0 s 0 u"
    by (rule balance_trans [OF balance_trans [OF section_balance [OF 4(4)]]
          release_balance [OF u(1)]])
  then show ?thesis
    unfolding u(2,3) using balance_trans incWaiters_balance by (simp, blast)
qed (auto intro: section_balance incWaiters_balance)

lemma racquired_balance:
  assumes "resumeAcquired parent a k s = Some (p, s')" and "parent \<in> dom (nodes s)"
    and "keyed (nodes s)" and "a < length (acts s)" and "\<not> held (acts s ! a)"
  shows "balance 1 s (slotN p) s'"
proof (cases rule: resumeAcquired_cases [OF assms(1,2,3)])
  case (1 e)
  then have "p = RReturn a k (Some e)" "releaseSlot s = Some s'" by (auto simp: Some_map)
  then show ?thesis using release_balance [of s s' 0] by simp
next
  case (2 r t)
  have "balance 1 s 0 (updAct a (\<lambda>x. x\<lparr>held := True\<rparr>) s)"
    using fill_balance [OF assms(4,5), of "\<lambda>x. x\<lparr>held := True\<rparr>" 0] by simp
  from balance_trans [OF this section_balance [OF 2(2)]] 2(1) show ?thesis by simp
qed

lemma waitLeave_balance: "balance m s m (waitLeave a s)"
proof -
  have "balance m s m (updAct a (\<lambda>x. x\<lparr>waiters := waiters x - 1\<rparr>) s)"
    by (rule same_balance) simp
  then show ?thesis by (simp add: waitLeave_def balance_def)
qed

lemma tstep_slots:
  assumes "tstep p s q s'" and "fits p s"
    and "\<And>a. refills p = Some a \<Longrightarrow> \<not> held (acts s ! a)"
  shows "balance (slotN p) s (slotN q) s'"
  using assms(1)
proof (cases rule: tstep.cases)
  case (start i ow)
  with assms(2) execStart_section [of i ow s q s'] show ?thesis
    by (auto simp: fits_def intro: section_balance)
next
  case (lookup order i ow key out e hit)
  with assms(2) execLookedUp_section [of order i ow key out e hit s q s'] show ?thesis
    by (auto simp: fits_def intro: section_balance)
next
  case (ensured order i cl e key)
  with assms(2) execEnsured_section [of order i cl e s q s'] show ?thesis
    by (auto simp: fits_def intro: section_balance)
next
  case (finish a order i cl num out e)
  then have d: "i \<in> dom (nodes s)" "keyed (nodes s)" "a < length (acts s)"
    using assms(2) by (auto simp: fits_def)
  from finish(4) d(1,2) obtain s1 where s1: "endAttempt i a s = Some s1" "almost_section i s1 s'"
    "q = XReturn cl"
    by (rule execFinish_cases)
  have "balance 0 s 0 s'"
    by (rule balance_trans [OF endAttempt_balance [OF s1(1) d(3)] almost_balance [OF s1(2)]])
  then show ?thesis using s1(3) finish(1) by simp
next
  case (acquired i cl)
  then show ?thesis using assms(2) acquired_balance [of i cl s q s'] by (simp add: fits_def)
next
  case (wenter c parent att child)
  then show ?thesis using assms(2) wenter_balance [of c parent att child s q s']
    by (simp add: fits_def)
next
  case (racquired parent a k att)
  then show ?thesis using assms(2,3) racquired_balance [of parent a k s q s']
    by (simp add: fits_def)
qed (auto simp: waitTest_def resumeTest_def resumeCheck_def waitReturn_def nodeResult_def
      setResume_def split: option.splits bool.splits
      intro: waitLeave_balance same_balance acquire_balance [where m = 0, simplified])

end
