(* ===== verification/Graph_Safety.thy ===== *)
theory Graph_Safety
  imports Graph_Invariant
begin

section \<open>Attempts, waiters and sleepers; the invariant and its consequences\<close>

text \<open>
  The effect of a goroutine's step on the attempt objects, the invariant of the whole
  system, and what follows for every reachable state.
\<close>

subsection \<open>The attempt objects\<close>

definition view :: "active \<Rightarrow> bool \<times> int \<times> bool" where
  "view x = (held x, waiters x, resumeMu x)"

definition views :: "'db exec \<Rightarrow> (bool \<times> int \<times> bool) list" where
  "views s = map view (acts s)"

lemma length_views [simp]: "length (views s) = length (acts s)"
  by (simp add: views_def)

lemma views_nth:
  "b < length (acts s) \<Longrightarrow> views s ! b = (held (acts s ! b), waiters (acts s ! b), resumeMu (acts s ! b))"
  by (simp add: views_def view_def)

lemma map_nth_eq:
  assumes "map f xs = map f ys" and "i < length xs"
  shows "f (xs ! i) = f (ys ! i)"
  using assms by (metis length_map nth_map)

lemma map_triple:
  assumes "map f xs = map f ys" and "map g xs = map g ys" and "map h xs = map h ys"
  shows "map (\<lambda>x. (f x, g x, h x)) xs = map (\<lambda>x. (f x, g x, h x)) ys"
proof (rule nth_equalityI)
  show l: "length (map (\<lambda>x. (f x, g x, h x)) xs) = length (map (\<lambda>x. (f x, g x, h x)) ys)"
    using map_eq_imp_length_eq [OF assms(1)] by simp
  fix i assume "i < length (map (\<lambda>x. (f x, g x, h x)) xs)"
  then have "i < length xs" by simp
  with l map_nth_eq [OF assms(1)] map_nth_eq [OF assms(2)] map_nth_eq [OF assms(3)]
  show "map (\<lambda>x. (f x, g x, h x)) xs ! i = map (\<lambda>x. (f x, g x, h x)) ys ! i" by simp
qed

lemma calm_views: "calm s s' \<Longrightarrow> views s' = views s"
  unfolding calm_def views_def view_def by (intro map_triple) auto

lemma section_views: "section_ok s s' \<Longrightarrow> views s' = views s"
  by (simp add: section_ok_def tidy_def calm_views)

lemma section_length: "section_ok s s' \<Longrightarrow> length (acts s') = length (acts s)"
  by (simp add: section_ok_def tidy_def calm_length)

lemma section_actives: "section_ok s s' \<Longrightarrow> actives s' = actives s"
  by (simp add: section_ok_def tidy_def calm_def)

lemma updAct_views: "views (updAct a f s) = (views s)[a := view (f (acts s ! a))]"
  by (simp add: views_def updAct_def map_update)

lemma pool_views [simp]: "releaseSlot s = Some s' \<Longrightarrow> views s' = views s"
  "acquireSlot s = Some s' \<Longrightarrow> views s' = views s"
  by (auto simp: releaseSlot_Some acquireSlot_Some views_def)

lemma pool_actives: "releaseSlot s = Some s' \<Longrightarrow> actives s' = actives s"
  "acquireSlot s = Some s' \<Longrightarrow> actives s' = actives s"
  by (auto simp: releaseSlot_Some acquireSlot_Some)

text \<open>The four sections that change them, each with the goroutine's next point.\<close>

lemma acquired_acts:
  assumes "execAcquired i cl s = Some (q, s')" and "i \<in> dom (nodes s)" and "keyed (nodes s)"
  obtains (no) "q = XReturn cl" "views s' = views s" "actives s' = actives s"
  | (yes) num key where "q = XRun i cl (length (acts s)) num key"
      "views s' = views s @ [(True, 0, False)]" "actives s' = (actives s)(i \<mapsto> length (acts s))"
proof (cases rule: execAcquired_cases [OF assms])
  case (1 t)
  then have "q = XReturn cl" "releaseSlot t = Some s'" by (auto simp: Some_map)
  with no section_views [OF 1(1)] section_actives [OF 1(1)] pool_actives(1) [of t s']
  show ?thesis by simp
next
  case (2 n t p)
  from 2(5,6) yes section_views [OF 2(1)] section_actives [OF 2(1)] section_length [OF 2(1)]
  show ?thesis by (simp add: views_def view_def newActive_def)
qed

lemma finish_acts:
  assumes "execFinish order i cl a num out e s = Some (q, s')" and "i \<in> dom (nodes s)"
    and "keyed (nodes s)"
  shows "q = XReturn cl"
    "views s' = (views s)[a := (False, waiters (acts s ! a), resumeMu (acts s ! a))]"
    "actives s' = (actives s)(i := None)"
proof -
  from execFinish_cases [OF assms] obtain s1 where
    s1: "endAttempt i a s = Some s1" "almost_section i s1 s'" "q = XReturn cl" by blast
  from s1(1) obtain s0 where
    e: "s1 = updAct a (\<lambda>x. x\<lparr>own_cancel := True, held := False\<rparr>)
      (s0\<lparr>actives := (actives s0)(i := None)\<rparr>)"
    and h: "held (acts s ! a) \<and> releaseSlot s = Some s0 \<or> \<not> held (acts s ! a) \<and> s0 = s"
    by (rule endAttempt_Some)
  have c: "calm s1 s'" using s1(2) by (simp add: almost_section_def tidy_def)
  have 0: "acts s0 = acts s" "actives s0 = actives s" using h by (auto simp: releaseSlot_Some)
  show "views s' = (views s)[a := (False, waiters (acts s ! a), resumeMu (acts s ! a))]"
    unfolding calm_views [OF c] e updAct_views using 0 by (simp add: views_def view_def)
  show "actives s' = (actives s)(i := None)"
    using c 0 by (simp add: calm_def e)
  show "q = XReturn cl" by (rule s1(3))
qed

lemma wenter_acts:
  assumes "waitEnter c parent att child s = Some (q, s')" and "keyed (nodes s)"
    and "\<And>a. actives s parent = Some a \<Longrightarrow> a < length (acts s)"
  obtains (failed) e where "q = WDone None (Some e)" "views s' = views s" "actives s' = actives s"
  | (resume) a n where "q = RLock parent att a (False, n)" "s' = s" "a < length (acts s)"
      "parent \<in> dom (nodes s)"
  | (waits) a where "q = WTest parent att child a" "a < length (acts s)"
      "{parent, child} \<subseteq> dom (nodes s)" "actives s' = actives s"
      "views s' = (views s)[a := (False, waiters (acts s ! a) + 1, resumeMu (acts s ! a))]"
proof (cases rule: waitEnter_cases [OF assms(1,2)])
  case (1 e t)
  with section_views section_actives failed show ?thesis by auto
next
  case (2 a n)
  with resume assms(3) show ?thesis by auto
next
  case (3 a n)
  with waits [of a] assms(3) show ?thesis by (auto simp: incWaiters_def updAct_views view_def)
next
  case (4 a t)
  then obtain u where u: "releaseSlot (updAct a (\<lambda>x. x\<lparr>held := False\<rparr>) t) = Some u"
    "s' = incWaiters a u" "q = WTest parent att child a" by (auto simp: Some_map)
  have a: "a < length (acts s)" "a < length (acts t)"
    using assms(3) [OF 4(1)] section_length [OF 4(4)] by auto
  have t: "view (acts t ! a) = view (acts s ! a)"
    using section_views [OF 4(4)] a by (metis length_map nth_map views_def)
  have "acts u = acts (updAct a (\<lambda>x. x\<lparr>held := False\<rparr>) t)"
    using u(1) by (auto simp: releaseSlot_Some)
  then have "views s' = (views s)[a := (False, waiters (acts s ! a) + 1, resumeMu (acts s ! a))]"
    using t a section_views [OF 4(4)]
    unfolding u(2) incWaiters_def updAct_views by (simp add: views_def view_def updAct_def map_update)
  moreover have "actives s' = actives s"
    using section_actives [OF 4(4)] pool_actives(1) [OF u(1)] by (simp add: u(2) incWaiters_def)
  ultimately show ?thesis using waits [of a] u(3) a 4(3) by simp
qed

lemma racquired_acts:
  assumes "resumeAcquired parent a k s = Some (q, s')" and "parent \<in> dom (nodes s)"
    and "keyed (nodes s)"
  obtains (no) r where "q = RReturn a k r" "views s' = views s" "actives s' = actives s"
  | (yes) r where "q = RReturn a k r" "actives s' = actives s"
      "views s' = (views s)[a := (True, waiters (acts s ! a), resumeMu (acts s ! a))]"
proof (cases rule: resumeAcquired_cases [OF assms])
  case (1 e)
  then have "q = RReturn a k (Some e)" "releaseSlot s = Some s'" by (auto simp: Some_map)
  with no pool_actives(1) [of s s'] show ?thesis by simp
next
  case (2 r t)
  with yes [of r] section_views [OF 2(2)] section_actives [OF 2(2)] show ?thesis
    by (simp add: updAct_views view_def)
qed

subsection \<open>A goroutine's step on the attempts\<close>

lemma execStart_frame:
  assumes "execStart i ow s = (q, s')" and "fits (XStart i) s"
  shows "views s' = views s \<and> actives s' = actives s \<and> attemptOf q = None \<and> resumes q = None \<and>
    waitsOn q = None \<and> refills q = None \<and> actOf q = None \<and> idsOf q \<subseteq> {i} \<and> q \<noteq> XPanic"
  using execStart_section [OF assms(1)] assms(2)
  by (auto simp: fits_def section_views section_actives)

lemma execLookedUp_frame:
  assumes "execLookedUp order i ow key out e hit s = (q, s')" and "fits (XLookup i ow key) s"
  shows "views s' = views s \<and> actives s' = actives s \<and> attemptOf q = None \<and> resumes q = None \<and>
    waitsOn q = None \<and> refills q = None \<and> actOf q = None \<and> idsOf q \<subseteq> {i} \<and> q \<noteq> XPanic"
  using execLookedUp_section [OF assms(1)] assms(2)
  by (auto simp: fits_def section_views section_actives)

lemma execEnsured_frame:
  assumes "execEnsured order i cl e s = (q, s')" and "fits (XEnsure i cl key) s"
  shows "views s' = views s \<and> actives s' = actives s \<and> attemptOf q = None \<and> resumes q = None \<and>
    waitsOn q = None \<and> refills q = None \<and> actOf q = None \<and> idsOf q \<subseteq> {i} \<and> q \<noteq> XPanic"
  using execEnsured_section [OF assms(1)] assms(2)
  by (auto simp: fits_def section_views section_actives)

lemma waitTest_pc:
  assumes "fits (WTest parent att child a) s"
  shows "(\<exists>n. waitTest w parent att child a s = WSleep parent att child a (epoch s) \<and>
      nodes s child = Some n \<and> \<not> Terminal (nstate n)) \<or>
    (\<exists>n. waitTest w parent att child a s = WLeave parent att a n)"
  using assms by (auto simp: waitTest_def fits_def)

lemma resumeTest_pc:
  "resumeTest parent att a k s = RCheck parent att a k \<or>
   resumeTest parent att a k s = RSleep parent att a k (epoch s) \<and> waiters (acts s ! a) \<noteq> 0"
  by (auto simp: resumeTest_def)

lemma resumeCheck_pc:
  assumes "fits (RCheck parent att a k) s"
  shows "resumeCheck parent att a k s = RAcquire parent att a k \<and> \<not> held (acts s ! a) \<or>
   (\<exists>r. resumeCheck parent att a k s = RReturn a k r)"
  using assms by (auto simp: resumeCheck_def fits_def split: option.splits)

lemma waitReturn_pc: "\<exists>n e. waitReturn w r k = WDone n e"
  by (auto simp: waitReturn_def nodeResult_def split: option.splits bool.splits)

lemma tstep_active:
  assumes "tstep p s q s'" and "fits p s"
  shows "(actives s' = actives s \<and> attemptOf q = attemptOf p) \<or>
    (\<exists>i. owner p = Some i \<and> attemptOf p = None \<and> attemptOf q = Some (i, length (acts s)) \<and>
       actives s' = (actives s)(i \<mapsto> length (acts s)) \<and> length (acts s') = Suc (length (acts s))) \<or>
    (\<exists>i a. attemptOf p = Some (i, a) \<and> attemptOf q = None \<and> actives s' = (actives s)(i := None))"
  using assms(1)
proof (cases rule: tstep.cases)
  case (start i ow)
  with execStart_frame assms(2) show ?thesis by fastforce
next
  case (lookup order i ow key out e hit)
  with execLookedUp_frame assms(2) show ?thesis by fastforce
next
  case (ensured order i cl e key)
  with execEnsured_frame assms(2) show ?thesis by fastforce
next
  case (acquired i cl)
  then have d: "i \<in> dom (nodes s)" "keyed (nodes s)" using assms(2) by (auto simp: fits_def)
  show ?thesis
  proof (cases rule: acquired_acts [OF acquired(2) d])
    case 1
    with acquired show ?thesis by simp
  next
    case (2 num key)
    then have "length (acts s') = Suc (length (acts s))"
      by (metis length_append_singleton length_views)
    with 2 acquired show ?thesis by simp
  qed
next
  case (finish a order i cl num out e)
  then have "i \<in> dom (nodes s)" "keyed (nodes s)" using assms(2) by (auto simp: fits_def)
  from finish_acts [OF finish(4) this] finish(1) show ?thesis by simp
next
  case (wenter c parent att child)
  then have "keyed (nodes s)" "\<And>a. actives s parent = Some a \<Longrightarrow> a < length (acts s)"
    using assms(2) by (auto simp: fits_def)
  then show ?thesis
    by (cases rule: wenter_acts [OF wenter(2)]) (use wenter in auto)
next
  case (racquired parent a k att)
  then have "parent \<in> dom (nodes s)" "keyed (nodes s)" using assms(2) by (auto simp: fits_def)
  then show ?thesis
    by (cases rule: racquired_acts [OF racquired(2)]) (use racquired in auto)
next
  case (wtest parent att child a w)
  with assms(2) waitTest_pc [of parent att child a s w] show ?thesis by auto
next
  case (rtest parent att a k)
  with resumeTest_pc [of parent att a k s] show ?thesis by auto
next
  case (rcheck parent att a k)
  with assms(2) resumeCheck_pc [of parent att a k s] show ?thesis by auto
next
  case (rreturn a k r w)
  with waitReturn_pc [of w r k] show ?thesis by (auto simp: setResume_def)
qed (auto simp: acquireSlot_Some waitLeave_def setResume_def)

lemma views_upd:
  assumes "views s' = (views s)[a := (h, w, m)]" and "b < length (acts s)"
  shows "b < length (acts s')" "held (acts s' ! b) = (if b = a then h else held (acts s ! b))"
    "waiters (acts s' ! b) = (if b = a then w else waiters (acts s ! b))"
    "resumeMu (acts s' ! b) = (if b = a then m else resumeMu (acts s ! b))"
proof -
  have l: "length (acts s') = length (acts s)"
    using arg_cong [OF assms(1), of length] by simp
  then show b: "b < length (acts s')" using assms(2) by simp
  have "views s' ! b = (if b = a then (h, w, m) else views s ! b)"
    using assms by (simp add: nth_upd)
  then show "held (acts s' ! b) = (if b = a then h else held (acts s ! b))"
    "waiters (acts s' ! b) = (if b = a then w else waiters (acts s ! b))"
    "resumeMu (acts s' ! b) = (if b = a then m else resumeMu (acts s ! b))"
    using views_nth [OF b] views_nth [OF assms(2)] by (auto split: if_splits)
qed

lemma views_same:
  assumes "views s' = views s @ xs" and "b < length (acts s)"
  shows "b < length (acts s')" "held (acts s' ! b) = held (acts s ! b)"
    "waiters (acts s' ! b) = waiters (acts s ! b)" "resumeMu (acts s' ! b) = resumeMu (acts s ! b)"
proof -
  have l: "length (acts s') = length (acts s) + length xs"
    using arg_cong [OF assms(1), of length] by simp
  then show b: "b < length (acts s')" using assms(2) by simp
  have "views s' ! b = views s ! b" using assms by (simp add: nth_append)
  then show "held (acts s' ! b) = held (acts s ! b)"
    "waiters (acts s' ! b) = waiters (acts s ! b)" "resumeMu (acts s' ! b) = resumeMu (acts s ! b)"
    using views_nth [OF b] views_nth [OF assms(2)] by auto
qed

text \<open>
  Only \<open>resume\<close> takes and gives back \<open>resumeMu\<close>, and takes it only when it is free; the
  counter of waiters counts them; only \<open>resume\<close> gives an attempt its slot back, and it
  does so only when it has none; and a waiter that leaves starts a new epoch.
\<close>

definition attempt_step :: "pc \<Rightarrow> 'db exec \<Rightarrow> pc \<Rightarrow> 'db exec \<Rightarrow> nat \<Rightarrow> bool" where
  "attempt_step p s q s' b \<longleftrightarrow>
     (resumes q = Some b \<and> resumes p \<noteq> Some b \<longrightarrow> \<not> resumeMu (acts s ! b)) \<and>
     resumeMu (acts s' ! b) = (if resumes q = resumes p then resumeMu (acts s ! b)
       else if resumes q = Some b then True else if resumes p = Some b then False
       else resumeMu (acts s ! b)) \<and>
     waiters (acts s' ! b) = waiters (acts s ! b) + (if waitsOn q = Some b then 1 else 0)
       - (if waitsOn p = Some b then 1 else 0) \<and>
     (held (acts s' ! b) \<longrightarrow> held (acts s ! b) \<or> refills p = Some b) \<and>
     (refills q = Some b \<and> refills p \<noteq> Some b \<longrightarrow> \<not> held (acts s ! b)) \<and>
     (refills p = Some b \<and> refills q = Some b \<longrightarrow> held (acts s' ! b) = held (acts s ! b)) \<and>
     (waiters (acts s' ! b) < waiters (acts s ! b) \<longrightarrow> epoch s < epoch s')"

lemma same_attempt_step:
  assumes "views s' = views s @ xs" and "b < length (acts s)"
    and "resumes q = resumes p" and "waitsOn q = waitsOn p" and "refills q = refills p \<or> refills q = None"
  shows "attempt_step p s q s' b"
  using views_same [OF assms(1,2)] assms(3,4,5) by (auto simp: attempt_step_def)

lemma tstep_attempts:
  assumes "tstep p s q s'" and "fits p s" and b: "b < length (acts s)"
  shows "attempt_step p s q s' b"
  using assms(1)
proof (cases rule: tstep.cases)
  case (start i ow)
  with execStart_frame [of i ow s q s'] assms(2) b same_attempt_step [of s' s "[]" b q p]
  show ?thesis by simp
next
  case (lookup order i ow key out e hit)
  with execLookedUp_frame assms(2) b same_attempt_step [of s' s "[]"] show ?thesis by fastforce
next
  case (ensured order i cl e key)
  with execEnsured_frame assms(2) b same_attempt_step [of s' s "[]"] show ?thesis by fastforce
next
  case (acquired i cl)
  then have d: "i \<in> dom (nodes s)" "keyed (nodes s)" using assms(2) by (auto simp: fits_def)
  show ?thesis
  proof (cases rule: acquired_acts [OF acquired(2) d])
    case 1
    with acquired b show ?thesis by (intro same_attempt_step [where xs = "[]"]) auto
  next
    case (2 num key)
    with acquired b show ?thesis by (intro same_attempt_step [OF 2(2)]) auto
  qed
next
  case (finish a order i cl num out e)
  then have "i \<in> dom (nodes s)" "keyed (nodes s)" using assms(2) by (auto simp: fits_def)
  note f = finish_acts [OF finish(4) this]
  show ?thesis
    using views_upd [OF f(2) b] f(1) finish(1) by (auto simp: attempt_step_def)
next
  case (wenter c parent att child)
  then have d: "keyed (nodes s)" "\<And>a. actives s parent = Some a \<Longrightarrow> a < length (acts s)"
    using assms(2) by (auto simp: fits_def)
  show ?thesis
  proof (cases rule: wenter_acts [OF wenter(2) d])
    case (2 e)
    with wenter b show ?thesis by (intro same_attempt_step [where xs = "[]"]) auto
  next
    case (3 a n)
    with wenter b show ?thesis by (intro same_attempt_step [where xs = "[]"]) auto
  next
    case (4 a)
    show ?thesis using views_upd [OF 4(5) b] 4(1) wenter by (auto simp: attempt_step_def)
  qed (use d in blast)
next
  case (racquired parent a k att)
  then have d: "parent \<in> dom (nodes s)" "keyed (nodes s)" using assms(2) by (auto simp: fits_def)
  show ?thesis
  proof (cases rule: racquired_acts [OF racquired(2) d])
    case (1 r)
    with racquired b views_same [of s' s "[]" b] show ?thesis by (auto simp: attempt_step_def)
  next
    case (2 r)
    show ?thesis using views_upd [OF 2(3) b] 2(1) racquired by (auto simp: attempt_step_def)
  qed
next
  case (wtest parent att child a w)
  with assms(2) b waitTest_pc [of parent att child a s w] show ?thesis
    by (auto simp: attempt_step_def)
next
  case (rtest parent att a k)
  with resumeTest_pc [of parent att a k s] show ?thesis by (auto simp: attempt_step_def)
next
  case (rcheck parent att a k)
  with assms(2) resumeCheck_pc [of parent att a k s] show ?thesis
    by (auto simp: attempt_step_def)
next
  case (wleave parent att a n)
  have "views (waitLeave a s) = (views s)[a := (held (acts s ! a), waiters (acts s ! a) - 1, resumeMu (acts s ! a))]"
    by (simp add: waitLeave_def views_def updAct_def view_def map_update)
  from views_upd [OF this b] wleave show ?thesis
    by (auto simp: attempt_step_def waitLeave_def notifyLocked_def)
next
  case (rlock a parent att k)
  have "views (setResume True a s) = (views s)[a := (held (acts s ! a), waiters (acts s ! a), True)]"
    by (simp add: setResume_def views_def updAct_def view_def map_update)
  from views_upd [OF this b] rlock show ?thesis by (auto simp: attempt_step_def)
next
  case (rreturn a k r w)
  have "views (setResume False a s) = (views s)[a := (held (acts s ! a), waiters (acts s ! a), False)]"
    by (simp add: setResume_def views_def updAct_def view_def map_update)
  from views_upd [OF this b] waitReturn_pc [of w r k] rreturn show ?thesis
    by (auto simp: attempt_step_def)
qed (auto simp: attempt_step_def acquireSlot_Some)

subsection \<open>A goroutine's step: what it refers to\<close>

lemma fits_other:
  assumes "fits r s" and "node_step w s s'" and "length (acts s) \<le> length (acts s')"
    and "\<forall>i a. actives s' i = Some a \<longrightarrow> a < length (acts s')"
  shows "fits r s'"
proof -
  have d: "dom (nodes s) \<subseteq> dom (nodes s')" "keyed (nodes s) \<longrightarrow> keyed (nodes s')"
    using assms(2) by (simp_all add: node_step_def)
  have "idsOf r \<subseteq> dom (nodes s')" using assms(1) d(1) unfolding fits_def by blast
  with assms d(2) show ?thesis by (auto simp del: domIff simp: fits_def dest: spec)
qed

lemma node_step_length: "node_step w s s' \<Longrightarrow> length (acts s) \<le> length (acts s')"
  by (simp add: node_step_def evolves_def)

lemma tstep_active_bound:
  assumes "tstep p s q s'" and "fits p s"
  shows "\<forall>i a. actives s' i = Some a \<longrightarrow> a < length (acts s')"
  using tstep_active [OF assms] assms(2) node_step_length [OF tstep_nodes [OF assms]]
  by (fastforce simp: fits_def split: if_splits)

lemma tstep_points:
  assumes "tstep p s q s'" and "fits p s"
  shows "q \<noteq> XPanic \<and> idsOf q \<subseteq> dom (nodes s) \<and> (\<forall>a. actOf q = Some a \<longrightarrow> a < length (acts s'))"
  using assms(1)
proof (cases rule: tstep.cases)
  case (start i ow)
  with execStart_frame [of i ow s q s'] assms(2) show ?thesis by (auto simp: fits_def)
next
  case (lookup order i ow key out e hit)
  with execLookedUp_frame [of order i ow key out e hit s q s'] assms(2) show ?thesis
    by (auto simp: fits_def)
next
  case (ensured order i cl e key)
  with execEnsured_frame [of order i cl e s q s' key] assms(2) show ?thesis by (auto simp: fits_def)
next
  case (acquired i cl)
  then have d: "i \<in> dom (nodes s)" "keyed (nodes s)" using assms(2) by (auto simp: fits_def)
  show ?thesis
  proof (cases rule: acquired_acts [OF acquired(2) d])
    case 1
    then show ?thesis by simp
  next
    case (2 num key)
    then have "length (acts s') = Suc (length (acts s))"
      by (metis length_append_singleton length_views)
    with 2 d show ?thesis by simp
  qed
next
  case (finish a order i cl num out e)
  then have "i \<in> dom (nodes s)" "keyed (nodes s)" using assms(2) by (auto simp: fits_def)
  from finish_acts(1) [OF finish(4) this] show ?thesis by simp
next
  case (wenter c parent att child)
  then have d: "keyed (nodes s)" "\<And>a. actives s parent = Some a \<Longrightarrow> a < length (acts s)"
    using assms(2) by (auto simp: fits_def)
  have "length (acts s) \<le> length (acts s')"
    by (rule node_step_length [OF tstep_nodes [OF assms]])
  then show ?thesis
    by (cases rule: wenter_acts [OF wenter(2) d]) (use d in auto)
next
  case (racquired parent a k att)
  then have d: "parent \<in> dom (nodes s)" "keyed (nodes s)" "a < length (acts s)"
    using assms(2) by (auto simp: fits_def)
  have "length (acts s) \<le> length (acts s')"
    by (rule node_step_length [OF tstep_nodes [OF assms]])
  then show ?thesis
    by (cases rule: racquired_acts [OF racquired(2) d(1,2)]) (use d in auto)
next
  case (wtest parent att child a w)
  with assms(2) waitTest_pc [of parent att child a s w] show ?thesis by (auto simp: fits_def)
next
  case (rtest parent att a k)
  with assms(2) resumeTest_pc [of parent att a k s] show ?thesis by (auto simp: fits_def)
next
  case (rcheck parent att a k)
  with assms(2) resumeCheck_pc [of parent att a k s] show ?thesis by (auto simp: fits_def)
next
  case (rreturn a k r w)
  with waitReturn_pc [of w r k] show ?thesis by auto
qed (use assms(2) in \<open>auto simp: fits_def acquireSlot_Some waitLeave_def notifyLocked_def setResume_def\<close>)

lemma tstep_fits:
  assumes "tstep p s q s'" and "fits p s"
  shows "fits q s'"
proof -
  note n = tstep_nodes [OF assms]
  from n have "dom (nodes s) \<subseteq> dom (nodes s')" "keyed (nodes s) \<longrightarrow> keyed (nodes s')"
    by (auto simp: node_step_def)
  moreover from this(1) have "idsOf q \<subseteq> dom (nodes s')"
    using tstep_points [OF assms] by blast
  ultimately show ?thesis
    using tstep_points [OF assms] tstep_active_bound [OF assms] assms(2) by (simp add: fits_def)
qed

subsection \<open>The invariant\<close>

text \<open>
  A goroutine that sleeps in the current epoch of \<open>changed\<close> still has its reason to
  sleep.
\<close>

fun sleepsWell :: "'db exec \<Rightarrow> pc \<Rightarrow> bool" where
  "sleepsWell s (WSleep parent att child a k) \<longleftrightarrow>
     k \<le> epoch s \<and> (k = epoch s \<longrightarrow> (\<exists>n. nodes s child = Some n \<and> \<not> Terminal (nstate n)))"
| "sleepsWell s (RSleep parent att a k m) \<longleftrightarrow>
     m \<le> epoch s \<and> (m = epoch s \<longrightarrow> 0 < waiters (acts s ! a))"
| "sleepsWell s _ \<longleftrightarrow> True"

definition oneOwner :: "'db config \<Rightarrow> bool" where
  "oneOwner c \<longleftrightarrow>
     (\<forall>i. countP (\<lambda>p. owner p = Some i) (ths c) \<le> 1 \<and>
          (node_state (ex c) i = Some Pending \<longrightarrow> countP (\<lambda>p. owner p = Some i) (ths c) = 0))"

definition attemptsKnown :: "'db config \<Rightarrow> bool" where
  "attemptsKnown c \<longleftrightarrow>
     (\<forall>i a. actives (ex c) i = Some a \<longleftrightarrow> (\<exists>p\<in>set (ths c). attemptOf p = Some (i, a)))"

definition slotsCounted :: "'db config \<Rightarrow> bool" where
  "slotsCounted c \<longleftrightarrow>
     used (pool (ex c)) = others c + countP hasSlot (ths c) + heldN (ex c) \<and>
     used (pool (ex c)) \<le> capacity (pool (ex c))"

definition mutexCounted :: "'db config \<Rightarrow> bool" where
  "mutexCounted c \<longleftrightarrow>
     (\<forall>a < length (acts (ex c)).
        countP (\<lambda>p. resumes p = Some a) (ths c) = (if resumeMu (acts (ex c) ! a) then 1 else 0) \<and>
        waiters (acts (ex c) ! a) = int (countP (\<lambda>p. waitsOn p = Some a) (ths c)) \<and>
        ((\<exists>p\<in>set (ths c). refills p = Some a) \<longrightarrow> \<not> held (acts (ex c) ! a)))"

definition INV :: "'db config \<Rightarrow> bool" where
  "INV c \<longleftrightarrow>
     keyed (nodes (ex c)) \<and> (\<forall>i a. actives (ex c) i = Some a \<longrightarrow> a < length (acts (ex c))) \<and>
     (\<forall>p\<in>set (ths c). fits p (ex c) \<and> p \<noteq> XPanic \<and> sleepsWell (ex c) p) \<and>
     oneOwner c \<and> attemptsKnown c \<and> slotsCounted c \<and> mutexCounted c"

lemma INV_thread: "INV c \<Longrightarrow> t < length (ths c) \<Longrightarrow> fits (ths c ! t) (ex c)"
  by (simp add: INV_def)

lemma refills_resumes: "refills p = Some a \<Longrightarrow> resumes p = Some a"
  by (cases p) auto

lemma attempt_owner: "attemptOf p = Some (i, a) \<Longrightarrow> owner p = Some i"
  by (cases p) auto

end
