(* ===== verification/Graph_System.thy ===== *)
theory Graph_System
  imports Graph_Reach
begin

section \<open>The steps of the environment and of the driver\<close>

text \<open>
  The other steps of the system keep the invariant too, so it holds in every reachable
  state; beside it stands an invariant of the sleeping driver.
\<close>

subsection \<open>Steps that leave the attempts alone\<close>

lemma env_INV:
  assumes "INV c" and n: "node_step None (ex c) s'" and v: "views s' = views (ex c)"
    and a: "actives s' = actives (ex c)"
    and u: "used (pool s') + others c = used (pool (ex c)) + o'"
      "used (pool s') \<le> capacity (pool s')"
  shows "INV (c\<lparr>ex := s', others := o'\<rparr>)"
proof -
  have l: "length (acts s') = length (acts (ex c))" using arg_cong [OF v, of length] by simp
  have same: "held (acts s' ! b) = held (acts (ex c) ! b)"
    "waiters (acts s' ! b) = waiters (acts (ex c) ! b)"
    "resumeMu (acts s' ! b) = resumeMu (acts (ex c) ! b)" if "b < length (acts (ex c))" for b
    using views_same [of s' "ex c" "[]" b] v that by auto
  have "map held (acts s') = map held (acts (ex c))"
    using same l by (intro nth_equalityI) auto
  then have h: "heldN s' = heldN (ex c)"
    using countP_map [of id held "acts s'"] countP_map [of id held "acts (ex c)"] by simp
  have bound: "\<forall>i a. actives s' i = Some a \<longrightarrow> a < length (acts s')"
    using INV_parts(2) [OF assms(1)] a l by auto
  have "fits p s' \<and> p \<noteq> XPanic \<and> sleepsWell s' p" if p: "p \<in> set (ths c)" for p
  proof (intro conjI)
    show "fits p s'"
      using l by (intro fits_other [OF INV_parts(3) [OF assms(1) p] n _ bound]) simp
    show "p \<noteq> XPanic" by (rule INV_parts(4) [OF assms(1) p])
    show "sleepsWell s' p"
      using n same(2)
      by (intro sleepsWell_other [OF INV_parts(5) [OF assms(1) p] INV_parts(3) [OF assms(1) p]])
        (auto simp: node_step_def)
  qed
  moreover have "oneOwner (c\<lparr>ex := s', others := o'\<rparr>)"
  proof -
    have "countP (\<lambda>p. owner p = Some i) (ths c) = 0" if "node_state s' i = Some Pending" for i
    proof -
      from that n have "i \<notin> dom (nodes (ex c)) \<or> node_state (ex c) i = Some Pending"
        unfolding node_step_def by force
      then show ?thesis
        using unowned [OF assms(1)] INV_parts(6) [OF assms(1)] unfolding oneOwner_def by blast
    qed
    then show ?thesis using INV_parts(6) [OF assms(1)] by (simp add: oneOwner_def)
  qed
  moreover have "attemptsKnown (c\<lparr>ex := s', others := o'\<rparr>)"
    using INV_parts(7) [OF assms(1)] a by (simp add: attemptsKnown_def)
  moreover have "slotsCounted (c\<lparr>ex := s', others := o'\<rparr>)"
    using INV_parts(8) [OF assms(1)] u h by (simp add: slotsCounted_def)
  moreover have "mutexCounted (c\<lparr>ex := s', others := o'\<rparr>)"
    using INV_parts(9) [OF assms(1)] same l by (simp add: mutexCounted_def)
  moreover have "keyed (nodes s')"
    using n INV_parts(1) [OF assms(1)] by (simp add: node_step_def)
  ultimately show ?thesis using bound by (simp add: INV_def)
qed

lemma calm_env_INV:
  assumes "INV c" and "node_step None (ex c) s'" and "views s' = views (ex c)"
    and "actives s' = actives (ex c)" and "pool s' = pool (ex c)"
  shows "INV (c\<lparr>ex := s'\<rparr>)"
proof -
  have "INV (c\<lparr>ex := s', others := others c\<rparr>)"
    using assms INV_parts(8) [OF assms(1)] by (intro env_INV) (auto simp: slotsCounted_def)
  then show ?thesis by simp
qed

lemma section_INV: "INV c \<Longrightarrow> section_ok (ex c) s' \<Longrightarrow> INV (c\<lparr>ex := s'\<rparr>)"
  by (rule calm_env_INV)
     (auto intro: section_node_step section_views section_actives
       simp: section_ok_def tidy_def calm_pool)

lemma drv_INV [simp]: "INV (c\<lparr>drv := d\<rparr>) = INV c"
  by (simp add: INV_def oneOwner_def attemptsKnown_def slotsCounted_def mutexCounted_def)

lemma spawn_INV:
  assumes "INV c" and "fits p (ex c)" and "p \<noteq> XPanic" and "sleepsWell (ex c) p"
    and "attemptOf p = None" "\<not> hasSlot p" "resumes p = None" "waitsOn p = None" "refills p = None"
    and "\<And>i. owner p = Some i \<Longrightarrow> node_state (ex c) i \<noteq> Some Pending \<and>
           countP (\<lambda>p. owner p = Some i) (ths c) = 0"
  shows "INV (c\<lparr>ths := ths c @ [p]\<rparr>)"
proof -
  have "oneOwner (c\<lparr>ths := ths c @ [p]\<rparr>)"
    using INV_parts(6) [OF assms(1)] assms(10) by (auto simp: oneOwner_def)
  moreover have "attemptsKnown (c\<lparr>ths := ths c @ [p]\<rparr>)"
    using INV_parts(7) [OF assms(1)] assms(5) by (auto simp: attemptsKnown_def)
  moreover have "slotsCounted (c\<lparr>ths := ths c @ [p]\<rparr>)"
    using INV_parts(8) [OF assms(1)] assms(6) by (simp add: slotsCounted_def)
  moreover have "mutexCounted (c\<lparr>ths := ths c @ [p]\<rparr>)"
    using INV_parts(9) [OF assms(1)] assms(7-9) by (simp add: mutexCounted_def)
  ultimately show ?thesis using assms(1-4) by (simp add: INV_def ball_Un)
qed

lemma spawned_INV:
  assumes "INV c" and "distinct new"
    and "\<forall>i\<in>set new. i \<in> dom (nodes (ex c)) \<and> node_state (ex c) i \<noteq> Some Pending \<and>
           countP (\<lambda>p. owner p = Some i) (ths c) = 0"
  shows "INV (c\<lparr>ths := ths c @ map XStart new\<rparr>)"
  using assms
proof (induction new rule: rev_induct)
  case (snoc i new)
  let ?c = "c\<lparr>ths := ths c @ map XStart new\<rparr>"
  have IH: "INV ?c" using snoc by auto
  have i: "i \<in> dom (nodes (ex c))" "node_state (ex c) i \<noteq> Some Pending"
    "countP (\<lambda>p. owner p = Some i) (ths c) = 0" "i \<notin> set new"
    using snoc.prems by auto
  then have "countP (\<lambda>p. owner p = Some i) (map XStart new) = 0"
    by (auto simp: countP_zero)
  with i have "countP (\<lambda>p. owner p = Some i) (ths ?c) = 0" by simp
  moreover have "fits (XStart i) (ex c)"
    using i INV_parts(1,2) [OF snoc.prems(1)] by (auto simp: fits_def)
  ultimately have "INV (?c\<lparr>ths := ths ?c @ [XStart i]\<rparr>)"
    using i by (intro spawn_INV [OF IH]) auto
  then show ?case by simp
qed simp

subsection \<open>\<open>Run\<close>, \<open>Add\<close> and the timers\<close>

lemma timerLocked_frame [simp]:
  "nodes (timerLocked i att at s) = nodes s" "err (timerLocked i att at s) = err s"
  "epoch (timerLocked i att at s) = epoch s" "wake (timerLocked i att at s) = wake s"
  "cancelled (timerLocked i att at s) = cancelled s" "started (timerLocked i att at s) = started s"
  "opts (timerLocked i att at s) = opts s" "acts (timerLocked i att at s) = acts s"
  "actives (timerLocked i att at s) = actives s" "pool (timerLocked i att at s) = pool s"
  "readings (timerLocked i att at s) = Suc (readings s)" "db (timerLocked i att at s) = db s"
  by (simp_all add: timerLocked_def)

lemma startTimers_frame:
  "nodes (startTimers is s) = nodes s \<and> err (startTimers is s) = err s \<and>
   epoch (startTimers is s) = epoch s \<and> wake (startTimers is s) = wake s \<and>
   cancelled (startTimers is s) = cancelled s \<and> started (startTimers is s) = started s \<and>
   opts (startTimers is s) = opts s \<and> acts (startTimers is s) = acts s \<and>
   actives (startTimers is s) = actives s \<and> pool (startTimers is s) = pool s \<and>
   readings s \<le> readings (startTimers is s)"
proof (induction "is" arbitrary: s)
  case (Cons i "is")
  have "readings s \<le> readings (startTimers is (tick s))"
    "readings s \<le> readings (startTimers is (timerLocked i att at (tick s)))" for att at
    using Cons.IH [of "tick s"] Cons.IH [of "timerLocked i att at (tick s)"] by auto
  with Cons.IH show ?case by (auto split: option.splits)
qed simp

lemma runStart_facts:
  assumes "runStart parentEnded order s = (d, s')" and "\<not> started s"
  shows "node_step w s s' \<and> views s' = views s \<and> actives s' = actives s \<and> pool s' = pool s \<and>
    (\<forall>root. d \<noteq> DSleep root)"
  using assms startTimers_frame [of order "s\<lparr>started := True, cancelled := parentEnded\<rparr>"]
  by (auto simp: runStart_def Let_def cancelExec_def node_step_def evolves_def signals_def views_def
      split: option.splits sum.splits)

lemma orPending_simps [simp]: "nodeID (orPending n) = nodeID n" "parentID (orPending n) = parentID n"
  "attempt (orPending n) = attempt n" "nextAttemptAt (orPending n) = nextAttemptAt n"
  by (simp_all add: orPending_def)

lemma addNode_facts:
  assumes "nodes s (nodeID n) = None"
  shows "nodes (addNode n s) = (nodes s)(nodeID n \<mapsto> n) \<and> actives (addNode n s) = actives s \<and>
    acts (addNode n s) = acts s \<and> pool (addNode n s) = pool s \<and> err (addNode n s) = err s \<and>
    opts (addNode n s) = opts s \<and> started (addNode n s) = started s \<and>
    cancelled (addNode n s) = cancelled s \<and> epoch (addNode n s) = epoch s \<and>
    wake (addNode n s) = wake s \<and> readings s \<le> readings (addNode n s)"
  by (auto simp: addNode_def Let_def putNode_def)

lemma Add_facts:
  assumes "Add ce parent att n s = (r, s')"
  shows "node_step w s s' \<and> views s' = views s \<and> actives s' = actives s \<and> pool s' = pool s"
proof (cases "s' = s")
  case False
  let ?n = "orPending (n\<lparr>parentID := Some parent\<rparr>)"
  from assms False have new: "nodes s (nodeID n) = None" "err s = None" and s': "s' = notifyLocked (addNode ?n s)"
    by (auto simp: Add_def split: option.splits if_splits)
  from addNode_facts [of s ?n] new have f:
    "nodes s' = (nodes s)(nodeID n \<mapsto> ?n)" "actives s' = actives s" "acts s' = acts s"
    "pool s' = pool s" "err s' = err s" "opts s' = opts s" "started s' = started s"
    "cancelled s' = cancelled s" "epoch s' = Suc (epoch s)" "wake s'" "readings s \<le> readings s'"
    by (auto simp: s' notifyLocked_def)
  have "evolves s s'" using f new by (auto simp: evolves_def Add_def)
  moreover have "signals s s'" using f by (simp add: signals_def)
  moreover have "keyed (nodes s) \<longrightarrow> keyed (nodes s')" using f by (simp add: keyed_def)
  ultimately have "node_step w s s'" using f new by (auto simp: node_step_def split: if_splits)
  with f show ?thesis by (simp add: views_def)
qed simp

lemma timerFire_facts:
  "node_step w s (timerFire t (s\<lparr>timers := ts\<rparr>)) \<and> views (timerFire t (s\<lparr>timers := ts\<rparr>)) = views s \<and>
   actives (timerFire t (s\<lparr>timers := ts\<rparr>)) = actives s \<and> pool (timerFire t (s\<lparr>timers := ts\<rparr>)) = pool s"
  by (auto simp: timerFire_def notifyLocked_def node_step_def evolves_def signals_def views_def
      split: prod.splits option.splits)

subsection \<open>Every step keeps the invariant\<close>

lemma runIter_facts:
  assumes "runIter ce order orders root s = Some (d, sp, s')" and "keyed (nodes s)"
    and "\<forall>o'\<in>set orders. set o' = dom (nodes s)"
  shows "section_ok s s' \<and>
    (sp = [] \<and> (\<exists>r. d = DDone r) \<or>
     startedWell s sp s' \<and> d = DSleep root \<and> err s = None \<and> \<not> cancelled s \<and>
       \<not> rootEnded root s \<and> (err s' = None \<longrightarrow> (\<forall>i\<in>dom (nodes s). restsWell s i s')))"
proof (cases "err s = None \<and> \<not> cancelled s \<and> \<not> rootEnded root s")
  case True
  with assms(1) obtain sp' where d: "dispatchLocked orders s = Some (sp, s')" "d = DSleep root"
    by (auto simp: runIter_def split: option.splits)
  with dispatchLocked_section [OF d(1) assms(2,3)] True show ?thesis by simp
next
  case False
  obtain r t where t: "runReturn order root s = (r, t)" by fastforce
  have "section_ok s t"
  proof -
    obtain r' u where u: "closeLocked order False nilUUID ''root action completed'' s = (r', u)"
      by fastforce
    with t have "t = u" by (auto simp: runReturn_def Let_def split: option.splits)
    with closeLocked_section [OF u assms(2)] show ?thesis by simp
  qed
  with section_ok_trans [OF this cancelExec_section] False t assms(1) show ?thesis
    by (auto simp: runIter_def split: option.splits if_splits)
qed

lemma iter_INV:
  assumes "INV c" and "runIter ce order orders root (ex c) = Some (d, sp, s')"
    and "\<forall>o'\<in>set orders. set o' = dom (nodes (ex c))"
  shows "INV (c\<lparr>ex := s', drv := d, ths := ths c @ map XStart sp\<rparr>)"
proof -
  note f = runIter_facts [OF assms(2) INV_parts(1) [OF assms(1)] assms(3)]
  have i: "INV (c\<lparr>ex := s'\<rparr>)" using section_INV [OF assms(1)] f by blast
  have "distinct sp \<and> (\<forall>i\<in>set sp. i \<in> dom (nodes s') \<and> node_state s' i \<noteq> Some Pending \<and>
      countP (\<lambda>p. owner p = Some i) (ths c) = 0)"
  proof (cases "sp = []")
    case False
    with f have w: "startedWell (ex c) sp s'" by blast
    have "node_state (ex c) i = Some Pending" if "i \<in> set sp" for i
      using w that by (auto simp: startedWell_def)
    then have "countP (\<lambda>p. owner p = Some i) (ths c) = 0" if "i \<in> set sp" for i
      using INV_parts(6) [OF assms(1)] that unfolding oneOwner_def by blast
    moreover have "i \<in> dom (nodes s') \<and> node_state s' i \<noteq> Some Pending" if "i \<in> set sp" for i
      using w that by (auto simp: startedWell_def)
    ultimately show ?thesis using w by (simp add: startedWell_def)
  qed simp
  with spawned_INV [OF i, of sp] have "INV (c\<lparr>ex := s', ths := ths c @ map XStart sp\<rparr>)" by simp
  moreover have "c\<lparr>ex := s', drv := d, ths := ths c @ map XStart sp\<rparr> =
      c\<lparr>ex := s', ths := ths c @ map XStart sp\<rparr>\<lparr>drv := d\<rparr>" by simp
  ultimately show ?thesis by (simp only: drv_INV)
qed

lemma wake_INV:
  assumes "INV c"
  shows "INV (c\<lparr>drv := d, ex := (ex c)\<lparr>wake := w\<rparr>\<rparr>)"
proof -
  have "fits p (s\<lparr>wake := w\<rparr>) = fits p s" for p and s :: "'a exec" by (simp add: fits_def)
  moreover have "sleepsWell (s\<lparr>wake := w\<rparr>) p = sleepsWell s p" for p and s :: "'a exec"
    by (cases p) auto
  ultimately show ?thesis
    using assms by (simp add: INV_def oneOwner_def attemptsKnown_def slotsCounted_def mutexCounted_def)
qed

lemma parent_INV:
  assumes "INV c"
  shows "INV (c\<lparr>ex := (ex c)\<lparr>cancelled := True\<rparr>\<rparr>)"
  by (rule calm_env_INV [OF assms])
     (auto simp: node_step_def evolves_def signals_def views_def)

lemma addSnapshot_facts:
  assumes "keyed (nodes s)"
  shows "keyed (nodes (addSnapshot ns s)) \<and> actives (addSnapshot ns s) = actives s \<and>
    acts (addSnapshot ns s) = acts s"
  using assms
proof (induction ns arbitrary: s)
  case (Cons n ns)
  have k: "keyed ((nodes s)(nodeID n \<mapsto> orPending n))" using Cons.prems by (simp add: keyed_def)
  define s1 where "s1 = (if nodes s (nodeID n) \<noteq> None
    then s\<lparr>err := Some (Plain ''graph has duplicate node IDs'')\<rparr> else s)"
  have "keyed (nodes (s1\<lparr>nodes := (nodes s1)(nodeID n \<mapsto> orPending n)\<rparr>))"
    using k by (simp add: s1_def)
  from Cons.IH [OF this] show ?case by (simp add: s1_def Let_def)
qed simp

lemma New_facts:
  "keyed (nodes (New snapshot o' d)) \<and> actives (New snapshot o' d) = Map.empty \<and>
   acts (New snapshot o' d) = []"
proof -
  have k: "keyed Map.empty" by (simp add: keyed_def)
  show ?thesis unfolding New_def using addSnapshot_facts k by (metis exec.select_convs(1,2,3))
qed

lemma initial_INV:
  assumes "initial c"
  shows "INV c"
proof -
  obtain snapshot o' d where c: "ex c = New snapshot o' d" "ths c = []"
    "others c = used (pool (ex c))" "used (pool (ex c)) \<le> capacity (pool (ex c))"
    using assms by (auto simp: initial_def)
  from New_facts [of snapshot o' d] c(1)
  have "keyed (nodes (ex c))" "actives (ex c) = Map.empty" "acts (ex c) = []" by simp_all
  with c(2-4) show ?thesis
    by (simp add: INV_def oneOwner_def attemptsKnown_def slotsCounted_def mutexCounted_def)
qed

lemma callWait_INV:
  assumes "INV c"
  shows "INV (c\<lparr>ths := ths c @ [WEnter parent att child]\<rparr>)"
  using INV_parts(1,2) [OF assms] by (intro spawn_INV [OF assms]) (auto simp: fits_def)

lemma step_INV:
  assumes "step c c'" and "INV c"
  shows "INV c'"
  using assms(1)
proof (cases rule: step.cases)
  case (thread t q s')
  with assms(2) thread_INV [of c t q s'] show ?thesis by (simp add: moves_def)
next
  case (run order pe d s')
  have "INV (c\<lparr>ex := s'\<rparr>)"
    using runStart_facts [OF run(5) run(3)] by (intro calm_env_INV [OF assms(2)]) auto
  then have "INV (c\<lparr>ex := s'\<rparr>\<lparr>drv := d\<rparr>)" by simp
  with run show ?thesis by simp
next
  case (iter root order orders ce d sp s')
  with iter_INV [OF assms(2)] show ?thesis by blast
next
  case (othersTake q)
  then show ?thesis
    using INV_parts(8) [OF assms(2)]
    by (auto simp: slotAcquire_def slotsCounted_def views_def split: if_splits
        intro!: env_INV [OF assms(2)] quiet_node_step)
next
  case (othersGive m q)
  then show ?thesis
    using INV_parts(8) [OF assms(2)]
    by (auto simp: slotRelease_def slotsCounted_def views_def split: nat.splits
        intro!: env_INV [OF assms(2)] quiet_node_step)
next
  case (add ce parent att n r s')
  then show ?thesis using Add_facts [OF add(2)] by (auto intro: calm_env_INV [OF assms(2)])
next
  case (cancel order)
  then show ?thesis
    using section_INV [OF assms(2) Cancel_section [OF INV_parts(1) [OF assms(2)]]] by simp
next
  case (cancelSub order ce i r s')
  then show ?thesis
    using section_INV [OF assms(2) CancelSubtree_section [OF cancelSub(3) INV_parts(1) [OF assms(2)]]]
    by simp
next
  case (fire t)
  show ?thesis
    unfolding fire(1) by (rule calm_env_INV [OF assms(2)]) (simp_all add: timerFire_facts)
qed (use assms(2) wake_INV parent_INV callWait_INV in auto)

lemma reachable_INV: "reachable c \<Longrightarrow> INV c"
  by (induction rule: reachable_induct) (auto intro: initial_INV step_INV)

subsection \<open>The graph along the steps\<close>

text \<open>
  \<open>advances\<close> is what every step but the driver's taking of \<open>wake\<close> does: the graph
  evolves and changes are signalled.
\<close>

definition advances :: "'db exec \<Rightarrow> 'db exec \<Rightarrow> bool" where
  "advances s s' \<longleftrightarrow> evolves s s' \<and> signals s s'"

lemma node_step_advances: "node_step w s s' \<Longrightarrow> advances s s'"
  by (simp add: node_step_def advances_def)

lemma section_advances: "section_ok s s' \<Longrightarrow> advances s s'"
  by (simp add: section_ok_def tidy_def advances_def)

lemma step_advances:
  assumes "step c c'" and "INV c"
  shows "advances (ex c) (ex c') \<or> (\<exists>root. drv c' = DLoop root \<and> ex c' = (ex c)\<lparr>wake := False\<rparr>)"
  using assms(1)
proof (cases rule: step.cases)
  case (thread t q s')
  with tstep_nodes [OF thread(3) INV_thread [OF assms(2) thread(2)]] show ?thesis
    by (auto intro: node_step_advances)
next
  case (run order pe d s')
  then show ?thesis using runStart_facts [OF run(5) run(3)] by (auto intro: node_step_advances)
next
  case (iter root order orders ce d sp s')
  with runIter_facts [OF iter(5) INV_parts(1) [OF assms(2)] iter(4)] show ?thesis
    by (auto intro: section_advances)
next
  case (add ce parent att n r s')
  then show ?thesis using Add_facts [OF add(2)] by (auto intro: node_step_advances)
next
  case (cancel order)
  then show ?thesis
    using section_advances [OF Cancel_section [OF INV_parts(1) [OF assms(2)]]] by simp
next
  case (cancelSub order ce i r s')
  then show ?thesis
    using section_advances [OF CancelSubtree_section [OF cancelSub(3) INV_parts(1) [OF assms(2)]]]
    by simp
next
  case (fire t)
  have "advances (ex c) (timerFire t ((ex c)\<lparr>timers := remove1 t (timers (ex c))\<rparr>))"
    using timerFire_facts node_step_advances by blast
  then show ?thesis by (simp add: fire(1))
qed (auto simp: advances_def evolves_def signals_def)

lemma step_evolves:
  assumes "step c c'" and "INV c"
  shows "evolves (ex c) (ex c')"
  using step_advances [OF assms] by (auto simp: advances_def evolves_def)

lemma steps_evolve:
  assumes "step\<^sup>*\<^sup>* c c'" and "reachable c"
  shows "evolves (ex c) (ex c') \<and> reachable c'"
  using assms
proof (induction rule: rtranclp_induct)
  case (step y z)
  then have "evolves (ex c) (ex y)" "reachable y" by auto
  moreover have "evolves (ex y) (ex z)"
    using step_evolves [OF step(2) reachable_INV] \<open>reachable y\<close> .
  moreover have "reachable z"
    using \<open>reachable y\<close> step(2) unfolding reachable_def by (metis rtranclp.rtrancl_into_rtrancl)
  ultimately show ?case using evolves_trans by blast
qed simp

subsection \<open>The sleeping driver\<close>

text \<open>
  Nothing is left for the driver to do: the root has not ended, and every pending node was
  not due at a reading of the clock, or waits for a prerequisite that is still open, all
  others being done or open too.
\<close>

definition rests :: "'db exec \<Rightarrow> node \<Rightarrow> bool" where
  "rests s n \<longleftrightarrow>
     (\<exists>k<readings s. o_clock (opts s) k < nextAttemptAt n) \<or>
     ((\<forall>x\<in>set (prerequisites n). openOrDone s x) \<and> (\<exists>x\<in>set (prerequisites n). isOpen s x))"

definition settled :: "uuid \<Rightarrow> 'db exec \<Rightarrow> bool" where
  "settled root s \<longleftrightarrow>
     err s = None \<and> \<not> rootEnded root s \<and>
     (\<forall>i n. nodes s i = Some n \<longrightarrow> nstate n = Pending \<longrightarrow> rests s n)"

lemma settled_stable:
  assumes "settled root s" and "signals s s'" and "\<not> wake s'" and "opts s' = opts s"
  shows "settled root s'"
proof -
  have e: "nodes s' = nodes s" "err s' = err s" "readings s \<le> readings s'"
    using assms(2,3) by (auto simp: signals_def)
  have o: "openOrDone s' x = openOrDone s x" "isOpen s' x = isOpen s x" for x
    using e by (simp_all add: openOrDone_def isOpen_def)
  have r: "rests s' n" if "rests s n" for n
    using that e(3) unfolding rests_def o assms(4) by (meson order_less_le_trans)
  show ?thesis
    using assms(1) e(1,2) r by (auto simp: settled_def rootEnded_def)
qed

definition drvOK :: "'db config \<Rightarrow> bool" where
  "drvOK c \<longleftrightarrow> (\<forall>root. drv c = DSleep root \<longrightarrow> wake (ex c) \<or> settled root (ex c))"

lemma drvOK_stable:
  assumes "drvOK c" and "advances (ex c) s'" and "\<And>root. d = DSleep root \<Longrightarrow> drv c = DSleep root"
    and "drv c' = d" "ex c' = s'"
  shows "drvOK c'"
  unfolding drvOK_def
proof (intro allI impI)
  fix root assume "drv c' = DSleep root"
  then have "drv c = DSleep root" using assms(3,4) by blast
  with assms(1) have "wake (ex c) \<or> settled root (ex c)" by (simp add: drvOK_def)
  then show "wake (ex c') \<or> settled root (ex c')"
    using settled_stable [of root "ex c" s'] assms(2,5)
    by (auto simp: advances_def signals_def evolves_def)
qed

lemma iter_settled:
  assumes "runIter ce order orders root s = Some (DSleep r, sp, s')" and "keyed (nodes s)"
    and "\<forall>o'\<in>set orders. set o' = dom (nodes s)" and "\<not> wake s'"
  shows "settled r s'"
proof -
  from runIter_facts [OF assms(1-3)] have f: "section_ok s s'" "r = root" "err s = None"
    "\<not> rootEnded root s" "err s' = None \<longrightarrow> (\<forall>i\<in>dom (nodes s). restsWell s i s')" by auto
  then have e: "nodes s' = nodes s" "err s' = None" "opts s' = opts s"
    using assms(4) by (auto simp: section_ok_def signals_def tidy_def evolves_def)
  have "rests s' n" if n: "nodes s' i = Some n" "nstate n = Pending" for i n
  proof -
    have "restsWell s i s'" using f(5) n e by auto
    with n e(3) show ?thesis unfolding restsWell_def rests_def by metis
  qed
  then show ?thesis using f e by (simp add: settled_def rootEnded_def)
qed

lemma step_drvOK:
  assumes "step c c'" and "INV c" and "drvOK c"
  shows "drvOK c'"
proof -
  have "(\<exists>root. drv c' = DSleep root \<and> drv c \<noteq> DSleep root) \<longrightarrow>
    (\<exists>root order orders ce sp. runIter ce order orders root (ex c) = Some (drv c', sp, ex c') \<and>
      (\<forall>o'\<in>set orders. set o' = dom (nodes (ex c))))"
    using assms(1)
  proof (cases rule: step.cases)
    case (run order pe d s')
    then show ?thesis using runStart_facts [OF run(5) run(3)] by auto
  next
    case (iter root order orders ce d sp s')
    then have "drv c' = d" "ex c' = s'" by simp_all
    with iter(4,5) show ?thesis by blast
  qed auto
  then consider (old) "\<forall>root. drv c' = DSleep root \<longrightarrow> drv c = DSleep root"
    | (new) root order orders ce sp where
        "runIter ce order orders root (ex c) = Some (drv c', sp, ex c')"
        "\<forall>o'\<in>set orders. set o' = dom (nodes (ex c))"
    by blast
  then show ?thesis
  proof cases
    case old
    show ?thesis
      using step_advances [OF assms(1,2)]
    proof
      assume "advances (ex c) (ex c')"
      with old drvOK_stable [OF assms(3)] show ?thesis by blast
    next
      assume "\<exists>root. drv c' = DLoop root \<and> ex c' = (ex c)\<lparr>wake := False\<rparr>"
      then show ?thesis by (auto simp: drvOK_def)
    qed
  next
    case new
    have "settled r (ex c')" if "drv c' = DSleep r" "\<not> wake (ex c')" for r
      using iter_settled [OF new(1)[unfolded that(1)] INV_parts(1) [OF assms(2)] new(2) that(2)] .
    then show ?thesis by (auto simp: drvOK_def)
  qed
qed

lemma reachable_drvOK: "reachable c \<Longrightarrow> drvOK c"
proof (induction rule: reachable_induct)
  case (initial c)
  then show ?case by (auto simp: initial_def drvOK_def)
next
  case (step c c')
  then show ?case using step_drvOK reachable_INV by blast
qed

subsection \<open>Giving a slot back\<close>

text \<open>Whoever gives a slot back finds one in the pool.\<close>

lemma holder_used:
  assumes "INV c" and "0 < countP hasSlot (ths c) + heldN (ex c)"
  shows "0 < used (pool (ex c))"
  using INV_parts(8) [OF assms(1)] assms(2) by (auto simp: slotsCounted_def)

lemma section_pool: "section_ok s t \<Longrightarrow> pool t = pool s"
  by (auto simp: section_ok_def tidy_def dest: calm_pool)

lemma hasSlot_counted: "p \<in> set ps \<Longrightarrow> hasSlot p \<Longrightarrow> 0 < countP hasSlot ps"
  by (auto simp: countP_def filter_empty_conv)

lemma held_counted: "a < length (acts s) \<Longrightarrow> held (acts s ! a) \<Longrightarrow> 0 < heldN s"
  by (rule countP_pos)

lemma acquired_releases:
  assumes "INV c" and "XAcquired i cl \<in> set (ths c)"
  shows "execAcquired i cl (ex c) \<noteq> None"
proof -
  have d: "i \<in> dom (nodes (ex c))" using INV_parts(3) [OF assms] by (simp add: fits_def)
  have u: "0 < used (pool (ex c))"
    using holder_used [OF assms(1)] hasSlot_counted [OF assms(2)] by simp
  show ?thesis
  proof (cases rule: execAcquired_cases [OF refl d INV_parts(1) [OF assms(1)], where cl = cl])
    case (1 t)
    have "used (pool t) = used (pool (ex c))"
      using section_pool [OF 1(1)] by simp
    with 1(2) u show ?thesis by (auto simp: releaseSlot_None)
  qed simp_all
qed

lemma finish_releases:
  assumes "INV c" and "a < length (acts (ex c))"
  shows "execFinish order i cl a num out e (ex c) \<noteq> None"
proof -
  have "held (acts (ex c) ! a) \<Longrightarrow> releaseSlot (ex c) \<noteq> None"
    using holder_used [OF assms(1)] held_counted [OF assms(2)] by (simp add: releaseSlot_None)
  then have "endAttempt i a (ex c) \<noteq> None" by (simp add: endAttempt_def)
  then show ?thesis by (auto simp: execFinish_def split: option.splits)
qed

lemma wait_releases:
  assumes "INV c"
  shows "waitEnter d parent att child (ex c) \<noteq> None"
proof (cases rule: waitEnter_cases [OF refl INV_parts(1) [OF assms], of d parent att child])
  case (4 a t)
  have "0 < used (pool (ex c))"
    using holder_used [OF assms] held_counted [OF INV_parts(2) [OF assms 4(1)] 4(2)] by simp
  moreover have "pool t = pool (ex c)" by (rule section_pool [OF 4(4)])
  ultimately have "releaseSlot (updAct a (\<lambda>x. x\<lparr>held := False\<rparr>) t) \<noteq> None"
    by (simp add: releaseSlot_None)
  with 4(5) show ?thesis by auto
qed simp_all

lemma racquired_releases:
  assumes "INV c" and "RAcquired parent att a k \<in> set (ths c)"
  shows "resumeAcquired parent a k (ex c) \<noteq> None"
proof -
  have "0 < used (pool (ex c))"
    using holder_used [OF assms(1)] hasSlot_counted [OF assms(2)] by simp
  then have "releaseSlot (ex c) \<noteq> None" by (simp add: releaseSlot_None)
  then show ?thesis by (auto simp: resumeAcquired_def split: option.splits prod.splits)
qed

end
