(* ===== verification/Graph_Example.thy ===== *)
theory Graph_Example
  imports Graph_System
begin

section \<open>A run of one node\<close>

text \<open>
  A concrete run: one root node, one slot, no store. It is started, the node is
  dispatched, takes the slot and runs; its attempt then waits for a child it has added.
  The states are used as witnesses that the hypotheses of the properties can hold.
\<close>

definition demoNode :: "uuid \<Rightarrow> node" where
  "demoNode i = \<lparr>nodeID = i, parentID = None, attempt = 0, failures = 0, maxAttempts = 2,
     nstate = Pending, waitingOn = NoWait, imageKey = [], noutput = [], cacheKey = [],
     cacheHit = False, nerror = [], nextAttemptAt = zeroTime, prerequisites = []\<rparr>"

definition demoOpts :: "unit opts" where
  "demoOpts = \<lparr>o_run = 7, o_token = 8, o_slots = 1, o_pool = None, o_clock = int, o_store = None,
     o_hasRunner = True, o_hasImages = False, o_hasCache = False, o_backoff = None\<rparr>"

definition demoExec :: "(uuid \<rightharpoonup> node) \<Rightarrow> (uuid \<rightharpoonup> nat) \<Rightarrow> active list \<Rightarrow> nat \<Rightarrow> bool \<Rightarrow> bool \<Rightarrow> nat \<Rightarrow>
    nat \<Rightarrow> unit exec" where
  "demoExec ns av as e w st r u = \<lparr>nodes = ns, actives = av, acts = as, epoch = e, wake = w,
     opts = demoOpts, cancelled = False, started = st, err = None, db = (), readings = r,
     pool = \<lparr>capacity = 1, used = u\<rparr>, timers = []\<rparr>"

abbreviation demoReady :: node where
  "demoReady \<equiv> makeReady (demoNode 1)"

abbreviation demoRunning :: node where
  "demoRunning \<equiv> startAttempt demoReady"

definition demo0 :: "unit config" where
  "demo0 = \<lparr>ex = demoExec [1 \<mapsto> demoNode 1] Map.empty [] 0 False False 0 0, ths = [], drv = DIdle,
     others = 0\<rparr>"

definition demo1 :: "unit config" where
  "demo1 = \<lparr>ex = demoExec [1 \<mapsto> demoNode 1] Map.empty [] 0 False True 1 0, ths = [], drv = DLoop 1,
     others = 0\<rparr>"

definition demo2 :: "unit config" where
  "demo2 = \<lparr>ex = demoExec [1 \<mapsto> demoReady] Map.empty [] 1 True True 2 0, ths = [XStart 1],
     drv = DSleep 1, others = 0\<rparr>"

definition demo3 :: "unit config" where
  "demo3 = \<lparr>ex = demoExec [1 \<mapsto> demoReady] Map.empty [] 1 True True 2 0, ths = [XAcquire 1 None],
     drv = DSleep 1, others = 0\<rparr>"

definition demo4 :: "unit config" where
  "demo4 = \<lparr>ex = demoExec [1 \<mapsto> demoReady] Map.empty [] 1 True True 2 1, ths = [XAcquired 1 None],
     drv = DSleep 1, others = 0\<rparr>"

definition demo5 :: "unit config" where
  "demo5 = \<lparr>ex = demoExec [1 \<mapsto> demoRunning] [1 \<mapsto> 0] [newActive] 2 True True 2 1,
     ths = [XRun 1 None 0 1 []], drv = DSleep 1, others = 0\<rparr>"

lemma demo0_initial: "initial demo0"
  unfolding initial_def
  by (rule exI [of _ "[demoNode 1]"], rule exI [of _ demoOpts], rule exI [of _ "()"])
     (simp add: demo0_def demoExec_def New_def orPending_def demoNode_def demoOpts_def NewSlots_def)

lemma demo_step1: "step demo0 demo1"
proof -
  have "runStart False [1] (ex demo0) = (DLoop 1, ex demo1)"
    by (simp add: runStart_def runRoot_def demo0_def demo1_def demoExec_def validateLocked_def
        demoNode_def demoOpts_def nilUUID_def now_def zeroTime_def)
  from step.run [OF _ _ _ this] show ?thesis
    by (simp add: demo0_def demo1_def demoExec_def)
qed

lemma demo_step2: "step demo1 demo2"
proof -
  have "runIter CtxCanceled [1] [[1], [1]] 1 (ex demo1) = Some (DSleep 1, [1], ex demo2)"
    by (simp add: runIter_def rootEnded_def dispatchLocked_def demo1_def demo2_def demoExec_def
        demoNode_def demoOpts_def nilUUID_def now_def zeroTime_def commitLocked_def
        makeReady_def putNode_def notifyLocked_def)
  from step.iter [OF _ _ _ this] show ?thesis
    by (simp add: demo1_def demo2_def demoExec_def)
qed

lemma only_thread:
  assumes "tstep p (ex c) q s'" and "ths c = [p]"
  shows "step c (c\<lparr>ex := s', ths := [q]\<rparr>)"
  using step.thread [of 0 c q s'] assms by simp

lemma second_thread:
  assumes "tstep p (ex c) q s'" and "ths c = [r, p]"
  shows "step c (c\<lparr>ex := s', ths := [r, q]\<rparr>)"
  using step.thread [of 1 c q s'] assms by simp

lemma demo_step3: "step demo2 demo3"
proof -
  have "execStart 1 9 (ex demo2) = (XAcquire 1 None, ex demo3)"
    by (simp add: execStart_def execImage_def demo2_def demo3_def demoExec_def demoNode_def
        demoOpts_def makeReady_def)
  from only_thread [OF tstep.start [OF this]] show ?thesis
    by (simp add: demo2_def demo3_def)
qed

lemma demo_step4: "step demo3 demo4"
proof -
  have "acquireSlot (ex demo3) = Some (ex demo4)"
    by (simp add: acquireSlot_Some demo3_def demo4_def demoExec_def)
  from only_thread [OF tstep.acquire [OF this]] show ?thesis
    by (simp add: demo3_def demo4_def)
qed

lemma demo_step5: "step demo4 demo5"
proof -
  have "execAcquired 1 None (ex demo4) = Some (XRun 1 None 0 1 [], ex demo5)"
    by (simp add: execAcquired_def demo4_def demo5_def demoExec_def demoNode_def demoOpts_def
        makeReady_def commitLocked_def startAttempt_def notifyLocked_def putNode_def wrap32_def)
  from only_thread [OF tstep.acquired [OF this]] show ?thesis
    by (simp add: demo4_def demo5_def)
qed

text \<open>The attempt adds a child and waits for it, giving its slot back.\<close>

abbreviation demoChild :: node where
  "demoChild \<equiv> (demoNode 2)\<lparr>parentID := Some 1\<rparr>"

abbreviation demoWaiting :: node where
  "demoWaiting \<equiv> demoRunning\<lparr>nstate := Waiting, waitingOn := WaitingForChildren\<rparr>"

definition demo6 :: "unit config" where
  "demo6 = \<lparr>ex = demoExec [1 \<mapsto> demoRunning, 2 \<mapsto> demoChild] [1 \<mapsto> 0] [newActive] 3 True True 3 1,
     ths = [XRun 1 None 0 1 []], drv = DSleep 1, others = 0\<rparr>"

definition demo7 :: "unit config" where
  "demo7 = demo6\<lparr>ths := [XRun 1 None 0 1 [], WEnter 1 1 2]\<rparr>"

definition demo8 :: "unit config" where
  "demo8 = \<lparr>ex = demoExec [1 \<mapsto> demoWaiting, 2 \<mapsto> demoChild] [1 \<mapsto> 0]
       [newActive\<lparr>held := False, waiters := 1\<rparr>] 4 True True 3 0,
     ths = [XRun 1 None 0 1 [], WTest 1 1 2 0], drv = DSleep 1, others = 0\<rparr>"

definition demo9 :: "unit config" where
  "demo9 = demo8\<lparr>ths := [XRun 1 None 0 1 [], WSleep 1 1 2 0 4]\<rparr>"

lemma demo_step6: "step demo5 demo6"
proof -
  have "Add None 1 1 (demoNode 2) (ex demo5) = (None, ex demo6)"
    by (simp add: Add_def addNode_def demo5_def demo6_def demoExec_def demoNode_def demoOpts_def
        makeReady_def startAttempt_def notifyLocked_def putNode_def wrap32_def orPending_def
        now_def zeroTime_def fun_upd_twist)
  from step.add [OF this] show ?thesis by (simp add: demo5_def demo6_def)
qed

lemma demo_step7: "step demo6 demo7"
  using step.callWait [of demo6 1 1 2] by (simp add: demo6_def demo7_def)

lemma demo_step8: "step demo7 demo8"
proof -
  have "waitEnter False 1 1 2 (ex demo7) = Some (WTest 1 1 2 0, ex demo8)"
    by (simp add: waitEnter_def suspend_def demo6_def demo7_def demo8_def demoExec_def demoNode_def
        demoOpts_def makeReady_def commitLocked_def startAttempt_def notifyLocked_def putNode_def
        wrap32_def releaseSlot_def slotRelease_def updAct_def incWaiters_def newActive_def
        fun_upd_twist)
  from second_thread [OF tstep.wenter [OF this]] show ?thesis
    by (simp add: demo6_def demo7_def demo8_def)
qed

lemma demo_step9: "step demo8 demo9"
proof -
  have "waitTest False 1 1 2 0 (ex demo8) = WSleep 1 1 2 0 4"
    by (simp add: waitTest_def demo8_def demoExec_def demoNode_def)
  with tstep.wtest [of 1 1 2 0 "ex demo8" False]
  have "tstep (WTest 1 1 2 0) (ex demo8) (WSleep 1 1 2 0 4) (ex demo8)" by simp
  from second_thread [OF this] show ?thesis by (simp add: demo8_def demo9_def)
qed

lemma demo_reachable:
  "reachable demo1" "reachable demo2" "reachable demo4" "reachable demo5" "reachable demo6"
  "reachable demo7" "reachable demo8" "reachable demo9"
proof -
  have next_reachable: "reachable c \<Longrightarrow> step c c' \<Longrightarrow> reachable c'" for c c' :: "unit config"
    unfolding reachable_def by (metis rtranclp.rtrancl_into_rtrancl)
  have 0: "reachable demo0"
    unfolding reachable_def using demo0_initial by blast
  note 1 = next_reachable [OF 0 demo_step1]
  note 2 = next_reachable [OF 1 demo_step2]
  note 3 = next_reachable [OF 2 demo_step3]
  note 4 = next_reachable [OF 3 demo_step4]
  note 5 = next_reachable [OF 4 demo_step5]
  note 6 = next_reachable [OF 5 demo_step6]
  note 7 = next_reachable [OF 6 demo_step7]
  note 8 = next_reachable [OF 7 demo_step8]
  note 9 = next_reachable [OF 8 demo_step9]
  show "reachable demo1" "reachable demo2" "reachable demo4" "reachable demo5" "reachable demo6"
    "reachable demo7" "reachable demo8" "reachable demo9"
    by (rule 1 2 4 5 6 7 8 9)+
qed

end
