(* ===== verification/Graph_Properties.thy ===== *)
theory Graph_Properties
  imports Graph_Example
begin

section \<open>Properties of the graph executor\<close>

text \<open>
  The claims about \<open>internal/graphexec\<close>. Those with a reachable configuration range over
  every interleaving of goroutines, driver and environment of \<open>Graph_Step\<close>, with any
  store, clock, retry policy, and any results of the runner, the image cache and the task
  cache. Each witness applies its claim to the run of \<open>Graph_Example\<close>.
\<close>

lemma countP_some: "0 < countP P xs \<longleftrightarrow> (\<exists>x\<in>set xs. P x)"
  by (auto simp: countP_def filter_empty_conv)

text \<open>
  C1: Slots are conserved. In every reachable state the pool's count is exactly the slots
  other runs hold, plus the goroutines between \<open>Acquire\<close> and their next section, plus the
  attempts marked \<open>held\<close>; so never more attempts hold a slot than the pool has.
\<close>

theorem slots_conserved:
  assumes "reachable c"
  shows "used (pool (ex c)) = others c + countP hasSlot (ths c) + countP held (acts (ex c)) \<and>
    countP held (acts (ex c)) \<le> capacity (pool (ex c))"
  using INV_parts(8) [OF reachable_INV [OF assms]] by (auto simp: slotsCounted_def)

theorem slots_conserved_witness:
  "used (pool (ex demo5)) = 1 \<and> countP held (acts (ex demo5)) = 1 \<and> capacity (pool (ex demo5)) = 1"
  using slots_conserved [OF demo_reachable(4)]
  by (simp add: demo5_def demoExec_def newActive_def)

text \<open>
  No goroutine ever blocks in \<open>SlotPool.Release\<close>, which most callers enter with the
  executor's lock held: each of the four sections that may give a slot back returns.
\<close>

theorem release_never_blocks:
  assumes "reachable c"
  shows "(\<forall>i cl. XAcquired i cl \<in> set (ths c) \<longrightarrow> execAcquired i cl (ex c) \<noteq> None) \<and>
    (\<forall>i cl a num out e order. XFinish i cl a num out e \<in> set (ths c) \<longrightarrow>
       execFinish order i cl a num out e (ex c) \<noteq> None) \<and>
    (\<forall>parent att child d. waitEnter d parent att child (ex c) \<noteq> None) \<and>
    (\<forall>parent att a k. RAcquired parent att a k \<in> set (ths c) \<longrightarrow>
       resumeAcquired parent a k (ex c) \<noteq> None)"
proof (intro conjI allI impI)
  note INV = reachable_INV [OF assms]
  fix i cl assume "XAcquired i cl \<in> set (ths c)"
  then show "execAcquired i cl (ex c) \<noteq> None" by (rule acquired_releases [OF INV])
next
  note INV = reachable_INV [OF assms]
  fix i cl a num out e order assume "XFinish i cl a num out e \<in> set (ths c)"
  from INV_parts(3) [OF INV this] have "a < length (acts (ex c))" by (simp add: fits_def)
  then show "execFinish order i cl a num out e (ex c) \<noteq> None" by (rule finish_releases [OF INV])
next
  note INV = reachable_INV [OF assms]
  fix parent att child d
  show "waitEnter d parent att child (ex c) \<noteq> None" by (rule wait_releases [OF INV])
next
  note INV = reachable_INV [OF assms]
  fix parent att a k assume "RAcquired parent att a k \<in> set (ths c)"
  then show "resumeAcquired parent a k (ex c) \<noteq> None" by (rule racquired_releases [OF INV])
qed

theorem release_never_blocks_witness:
  "execAcquired 1 None (ex demo4) \<noteq> None \<and> waitEnter False 1 1 2 (ex demo7) \<noteq> None"
proof
  have "XAcquired 1 None \<in> set (ths demo4)" by (simp add: demo4_def)
  with release_never_blocks [OF demo_reachable(3)] show "execAcquired 1 None (ex demo4) \<noteq> None"
    by (elim conjE) simp
  from release_never_blocks [OF demo_reachable(6)] show "waitEnter False 1 1 2 (ex demo7) \<noteq> None"
    by (elim conjE) simp
qed

text \<open>
  C2: A node is executed by at most one goroutine at a time, and \<open>e.active\<close> holds exactly
  the attempts that are running: the attempt of a node is active if and only if its
  goroutine stands between the commit of \<open>Running\<close> and the end of \<open>execute\<close>.
\<close>

theorem one_attempt_per_node:
  assumes "reachable c"
  shows "countP (\<lambda>p. owner p = Some i) (ths c) \<le> 1 \<and>
    (actives (ex c) i = Some a \<longleftrightarrow> (\<exists>p\<in>set (ths c). attemptOf p = Some (i, a)))"
  using INV_parts(6,7) [OF reachable_INV [OF assms]]
  by (simp add: oneOwner_def attemptsKnown_def)

theorem one_attempt_per_node_witness:
  "countP (\<lambda>p. owner p = Some 1) (ths demo5) \<le> 1 \<and>
   (actives (ex demo5) 1 = Some 0 \<longleftrightarrow> (\<exists>p\<in>set (ths demo5). attemptOf p = Some (1, 0)))"
  by (rule one_attempt_per_node [OF demo_reachable(4)])

text \<open>
  C3: Terminal states are final. Once a node is done, failed or canceled, no later step of
  any goroutine changes any field of it.
\<close>

theorem terminal_is_final:
  assumes "reachable c" and "step\<^sup>*\<^sup>* c c'"
    and "nodes (ex c) i = Some n" and "Terminal (nstate n)"
  shows "nodes (ex c') i = Some n"
  using steps_evolve [OF assms(2,1)] assms(3,4) by (auto intro: evolves_terminal)


text \<open>
  No goroutine ever dereferences a missing node: the panics of the model are
  unreachable.
\<close>

theorem no_panic:
  assumes "reachable c"
  shows "XPanic \<notin> set (ths c)"
  using INV_parts(4) [OF reachable_INV [OF assms]] by blast

theorem no_panic_witness: "XPanic \<notin> set (ths demo9)"
  by (rule no_panic [OF demo_reachable(8)])

text \<open>
  C5: No wakeup of a waiting goroutine is lost. A \<open>Wait\<close> that sleeps on the current
  \<open>changed\<close> channel waits for a child that is not terminal, and a \<open>resume\<close> that sleeps on
  it has another goroutine of the same attempt still waiting.
\<close>

theorem waiters_wake:
  assumes "reachable c"
  shows "(\<forall>parent att child a. WSleep parent att child a (epoch (ex c)) \<in> set (ths c) \<longrightarrow>
       (\<exists>n. nodes (ex c) child = Some n \<and> \<not> Terminal (nstate n))) \<and>
    (\<forall>parent att a k. RSleep parent att a k (epoch (ex c)) \<in> set (ths c) \<longrightarrow>
       (\<exists>r\<in>set (ths c). waitsOn r = Some a))"
proof (intro conjI allI impI)
  note INV = reachable_INV [OF assms]
  fix parent att child a assume "WSleep parent att child a (epoch (ex c)) \<in> set (ths c)"
  from INV_parts(5) [OF INV this]
  show "\<exists>n. nodes (ex c) child = Some n \<and> \<not> Terminal (nstate n)" by simp
next
  note INV = reachable_INV [OF assms]
  fix parent att a k assume p: "RSleep parent att a k (epoch (ex c)) \<in> set (ths c)"
  have "a < length (acts (ex c))" using INV_parts(3) [OF INV p] by (simp add: fits_def)
  from mutexCountedD(2) [OF INV this] INV_parts(5) [OF INV p]
  have "0 < countP (\<lambda>p. waitsOn p = Some a) (ths c)" by simp
  then show "\<exists>r\<in>set (ths c). waitsOn r = Some a" by (simp only: countP_some)
qed

theorem waiters_wake_witness: "\<exists>n. nodes (ex demo9) 2 = Some n \<and> \<not> Terminal (nstate n)"
proof -
  have "WSleep 1 1 2 0 (epoch (ex demo9)) \<in> set (ths demo9)"
    by (simp add: demo9_def demo8_def demoExec_def)
  with waiters_wake [OF demo_reachable(8), THEN conjunct1, rule_format]
  show ?thesis .
qed


text \<open>
  \<open>resume\<close> gives a slot back only to an attempt that has none, and two goroutines are
  never inside \<open>resume\<close> for the same attempt, so an attempt never holds two slots.
\<close>

theorem resume_is_exclusive:
  assumes "reachable c"
  shows "(\<forall>p\<in>set (ths c). \<forall>a. refills p = Some a \<longrightarrow> \<not> held (acts (ex c) ! a)) \<and>
    (\<forall>a. countP (\<lambda>p. resumes p = Some a) (ths c) \<le> 1)"
proof (intro conjI ballI allI impI)
  note INV = reachable_INV [OF assms]
  fix p a assume "p \<in> set (ths c)" "refills p = Some a"
  then show "\<not> held (acts (ex c) ! a)" by (rule refills_not_held [OF INV])
next
  note INV = reachable_INV [OF assms]
  fix a
  show "countP (\<lambda>p. resumes p = Some a) (ths c) \<le> 1"
  proof (cases "a < length (acts (ex c))")
    case True
    with mutexCountedD(1) [OF INV] show ?thesis by simp
  next
    case False
    then have "resumes p \<noteq> Some a" if "p \<in> set (ths c)" for p
      using resumes_bound [OF INV_parts(3) [OF INV that]] by blast
    then show ?thesis by (simp add: countP_none)
  qed
qed

theorem resume_is_exclusive_witness:
  "\<forall>a. countP (\<lambda>p. resumes p = Some a) (ths demo9) \<le> 1"
  using resume_is_exclusive [OF demo_reachable(8)] by (elim conjE)

subsection \<open>Witnesses of finality, fail-stop and the sleeping driver\<close>

definition demoFailed :: node where
  "demoFailed = failPrereq (demoNode 1)"

definition demoEnd :: "unit config" where
  "demoEnd = \<lparr>ex = New [demoFailed] demoOpts (), ths = [], drv = DIdle, others = 0\<rparr>"

lemma demoEnd_reachable: "reachable demoEnd"
proof -
  have "initial demoEnd"
    unfolding initial_def
    by (rule exI [of _ "[demoFailed]"], rule exI [of _ demoOpts], rule exI [of _ "()"])
       (simp add: demoEnd_def New_def demoFailed_def failPrereq_def orPending_def demoNode_def
          demoOpts_def NewSlots_def)
  then show ?thesis unfolding reachable_def by blast
qed

lemma demoEnd_nodes: "nodes (ex demoEnd) 1 = Some demoFailed" "nstate demoFailed = Failed"
  by (simp_all add: demoEnd_def New_def demoFailed_def failPrereq_def orPending_def demoNode_def)

lemma demoEnd_step: "step demoEnd (demoEnd\<lparr>ths := [WEnter 1 1 2]\<rparr>)"
  using step.callWait [of demoEnd 1 1 2] by (simp add: demoEnd_def)

theorem terminal_is_final_witness:
  "nodes (ex (demoEnd\<lparr>ths := [WEnter 1 1 2]\<rparr>)) 1 = Some demoFailed"
  using terminal_is_final [OF demoEnd_reachable r_into_rtranclp [of step, OF demoEnd_step]
      demoEnd_nodes(1)] demoEnd_nodes(2) by simp

text \<open>A snapshot with the same id twice is refused from the start.\<close>

definition demoDup :: "unit config" where
  "demoDup = \<lparr>ex = New [demoNode 1, demoNode 1] demoOpts (), ths = [], drv = DIdle, others = 0\<rparr>"

lemma demoDup_reachable: "reachable demoDup"
proof -
  have "initial demoDup"
    unfolding initial_def
    by (rule exI [of _ "[demoNode 1, demoNode 1]"], rule exI [of _ demoOpts], rule exI [of _ "()"])
       (simp add: demoDup_def New_def orPending_def demoNode_def demoOpts_def NewSlots_def)
  then show ?thesis unfolding reachable_def by blast
qed

lemma demoDup_err: "err (ex demoDup) = Some (Plain ''graph has duplicate node IDs'')"
  by (simp add: demoDup_def New_def demoNode_def)


definition demoQuiet :: "unit config" where
  "demoQuiet = \<lparr>ex = demoExec [1 \<mapsto> demoRunning] [1 \<mapsto> 0] [newActive] 2 False True 2 1,
     ths = [XRun 1 None 0 1 []], drv = DSleep 1, others = 0\<rparr>"

lemma demoQuiet_reachable: "reachable demoQuiet"
proof -
  let ?c = "demoQuiet\<lparr>drv := DLoop 1\<rparr>"
  have "step demo5 ?c"
    using step.woken [of demo5 1] by (simp add: demo5_def demoQuiet_def demoExec_def)
  moreover have "runIter CtxCanceled [1] [[1]] 1 (ex ?c) = Some (DSleep 1, [], ex demoQuiet)"
    by (simp add: runIter_def rootEnded_def dispatchLocked_def demoQuiet_def demoExec_def
        demoNode_def demoOpts_def nilUUID_def makeReady_def startAttempt_def)
  from step.iter [OF _ _ _ this] have "step ?c demoQuiet"
    by (simp add: demoQuiet_def demoExec_def)
  ultimately show ?thesis
    using demo_reachable(4) unfolding reachable_def
    by (meson rtranclp.rtrancl_into_rtrancl)
qed


subsection \<open>The critical sections\<close>



text \<open>
  C8: \<open>dispatchLocked\<close> always returns: a round in which a failure propagates leaves fewer
  pending nodes, so one more round than there are pending nodes is enough.
\<close>

theorem dispatchLocked_returns:
  assumes "card (pendingSet s) < length orders" and "keyed (nodes s)" and "finite (dom (nodes s))"
  shows "\<exists>spawned s'. dispatchLocked orders s = Some (spawned, s')"
  using dispatchLoop_enough [OF assms] by (simp add: dispatchLocked_def)

theorem dispatchLocked_returns_witness:
  "\<exists>spawned s'. dispatchLocked [[1], [1]] (ex demo1) = Some (spawned, s')"
  by (rule dispatchLocked_returns)
     (simp_all add: demo1_def demoExec_def pendingSet_def keyed_def demoNode_def)

text \<open>
  C9: \<open>validateLocked\<close> accepts exactly the well-formed graphs: those in which every
  prerequisite and every parent is a node of the graph and both relations are acyclic. The
  search never runs out of fuel.
\<close>

theorem validateLocked_iff:
  assumes "err s = None" and "keyed (nodes s)" and "set order = dom (nodes s)"
  shows "(validateLocked order s = None \<longleftrightarrow> validGraph (nodes s)) \<and>
    validateLocked order s \<noteq> Some outOfFuel"
  using validateLocked_correct [OF assms] validateLocked_enough_fuel [OF assms] by blast

theorem validateLocked_iff_witness:
  "validGraph (nodes (ex demo1)) \<and>
   \<not> validGraph [1 \<mapsto> (demoNode 1)\<lparr>prerequisites := [1]\<rparr>]"
proof
  have "err (ex demo1) = None" "keyed (nodes (ex demo1))" "set [1] = dom (nodes (ex demo1))"
    by (simp_all add: demo1_def demoExec_def keyed_def demoNode_def)
  from validateLocked_iff [OF this] show "validGraph (nodes (ex demo1))"
    by (simp add: validateLocked_def demo1_def demoExec_def demoNode_def)
next
  let ?s = "demoExec [1 \<mapsto> (demoNode 1)\<lparr>prerequisites := [1]\<rparr>] Map.empty [] 0 False True 1 0"
  have "err ?s = None" "keyed (nodes ?s)" "set [1] = dom (nodes ?s)"
    by (simp_all add: demoExec_def keyed_def demoNode_def)
  from validateLocked_iff [OF this] show "\<not> validGraph [1 \<mapsto> (demoNode 1)\<lparr>prerequisites := [1]\<rparr>]"
    by (simp add: validateLocked_def demoExec_def demoNode_def)
qed

text \<open>
  C10: \<open>closeLocked\<close> closes exactly what it should: on success every descendant of
  \<open>parent\<close> (every node at all, for the nil id) that was not terminal is canceled with the
  given reason, and no other node changes.
\<close>

theorem closeLocked_descendants:
  assumes "closeLocked order c parent reason s = (None, s')" and "keyed (nodes s)"
    and "set order = dom (nodes s)"
  shows "nodes s' = (\<lambda>i. if parent = nilUUID \<or> (parent, i) \<in> (childRel (nodes s))\<^sup>+
                         then map_option (closedNode reason) (nodes s i) else nodes s i)"
  by (rule closeLocked_ok [OF assms])

theorem closeLocked_descendants_witness:
  "nodes (snd (closeLocked [1, 2] False 1 ''x'' (ex demo6))) 2 = Some (closedNode ''x'' demoChild)"
proof -
  have o: "set [1, 2] = dom (nodes (ex demo6))" "keyed (nodes (ex demo6))"
    by (auto simp: demo6_def demoExec_def keyed_def demoNode_def makeReady_def startAttempt_def)
  have "fst (closeLocked [1, 2] False 1 ''x'' (ex demo6)) = None"
    by (simp add: closeLocked_def closeTargets_def closeIDs.simps isChild_def demo6_def demoExec_def
        demoNode_def nilUUID_def demoOpts_def commitLocked_def cancelActive_def
        makeReady_def startAttempt_def)
  then have "closeLocked [1, 2] False 1 ''x'' (ex demo6) =
      (None, snd (closeLocked [1, 2] False 1 ''x'' (ex demo6)))" by (simp add: prod_eq_iff)
  from closeLocked_descendants [OF this o(2,1)]
  have "nodes (snd (closeLocked [1, 2] False 1 ''x'' (ex demo6))) 2 =
      (if (1, 2) \<in> (childRel (nodes (ex demo6)))\<^sup>+ then map_option (closedNode ''x'') (nodes (ex demo6) 2)
       else nodes (ex demo6) 2)" by (simp add: nilUUID_def)
  moreover have "(1, 2) \<in> childRel (nodes (ex demo6))"
    by (simp add: childRel_def isChild_def demo6_def demoExec_def)
  ultimately show ?thesis by (auto simp: demo6_def demoExec_def)
qed



subsection \<open>Attempts and retries\<close>

text \<open>A node after a series of attempts that fail with these errors, each retried at once.\<close>

fun failAttempts :: "bytes \<Rightarrow> goerr list \<Rightarrow> node \<Rightarrow> 'db exec \<Rightarrow> node" where
  "failAttempts out [] n s = n"
| "failAttempts out (e # es) n s =
     (case attemptResult n out (Some e) s of (n', s') \<Rightarrow> failAttempts out es n' s')"

lemma failAttempts_pending:
  assumes "\<forall>e\<in>set es. \<not> isCacheable e" and "int32 (maxAttempts n)" and "0 \<le> failures n"
    and "failures n + int (length es) < max (maxAttempts n) 1" and "nstate n = Pending"
  shows "nstate (failAttempts out es n s) = Pending \<and>
    failures (failAttempts out es n s) = failures n + int (length es) \<and>
    maxAttempts (failAttempts out es n s) = maxAttempts n"
  using assms
proof (induction es arbitrary: n s)
  case (Cons e es)
  obtain n' s' where r: "attemptResult n out (Some e) s = (n', s')" by fastforce
  have w: "wrap32 (failures n + 1) = failures n + 1"
    using Cons.prems(2,3,4) by (intro wrap32_id) (auto simp: int32_def max_def split: if_splits)
  have "failures n + 1 < max (maxAttempts n) 1" using Cons.prems(4) by simp
  then have n': "nstate n' = Pending" "failures n' = failures n + 1" "maxAttempts n' = maxAttempts n"
    using r Cons.prems(1) w by (auto simp: attemptResult_def Let_def)
  with Cons.IH [of n' s'] Cons.prems r show ?case by simp
qed simp

text \<open>
  Retries are bounded exactly. A pending node that has not failed yet, whose attempts
  all fail with errors that are not cacheable, is pending again after each of the first
  \<open>max(MaxAttempts, 1) - 1\<close> failures and failed for good after the next one.
\<close>

theorem retries_are_bounded:
  assumes "\<forall>e\<in>set es. \<not> isCacheable e" and "int32 (maxAttempts n)" and "failures n = 0"
    and "nstate n = Pending" and "int (length es) = max (maxAttempts n) 1"
  shows "nstate (failAttempts out es n s) = Failed \<and>
    (\<forall>k<length es. nstate (failAttempts out (take k es) n s) = Pending)"
proof
  show "\<forall>k<length es. nstate (failAttempts out (take k es) n s) = Pending"
  proof (intro allI impI)
    fix k assume "k < length es"
    then have "\<forall>e\<in>set (take k es). \<not> isCacheable e" "length (take k es) = k"
      using assms(1) by (auto dest: in_set_takeD)
    with failAttempts_pending [of "take k es" n out s] assms \<open>k < length es\<close>
    show "nstate (failAttempts out (take k es) n s) = Pending" by auto
  qed
next
  obtain fs e where es: "es = fs @ [e]" using assms(5) by (cases es rule: rev_exhaust) auto
  have app: "\<exists>t::'a exec. failAttempts out (xs @ [e]) m u =
      fst (attemptResult (failAttempts out xs m u) out (Some e) t)" for xs m and u :: "'a exec"
  proof (induction xs arbitrary: m u)
    case Nil
    show ?case by (intro exI [of _ u]) (simp add: case_prod_beta)
  next
    case (Cons x xs)
    then show ?case by (auto split: prod.splits)
  qed
  from app obtain t :: "'a exec" where
    last: "failAttempts out es n s = fst (attemptResult (failAttempts out fs n s) out (Some e) t)"
    unfolding es by blast
  let ?m = "failAttempts out fs n s"
  have m: "failures ?m = int (length fs)" "maxAttempts ?m = maxAttempts n"
    using failAttempts_pending [of fs n out s] assms es by auto
  have "wrap32 (failures ?m + 1) = failures ?m + 1"
    using assms(2,5) es m by (intro wrap32_id) (auto simp: int32_def max_def split: if_splits)
  with last m assms(1,5) es show "nstate (failAttempts out es n s) = Failed"
    by (auto simp: attemptResult_def Let_def)
qed

theorem retries_are_bounded_witness:
  "nstate (failAttempts [] [Plain ''a'', Plain ''b''] (demoNode 1) (ex demo1)) = Failed \<and>
   nstate (failAttempts [] [Plain ''a''] (demoNode 1) (ex demo1)) = Pending"
  using retries_are_bounded [of "[Plain ''a'', Plain ''b'']" "demoNode 1" "[]" "ex demo1"]
  by (auto simp: isCacheable_def demoNode_def int32_def All_less_Suc2)

text \<open>
  The default backoff doubles from one second to sixty-four: it is within these bounds
  for every \<open>int32\<close> argument, the wrap-around of \<open>n-1\<close> included, and for the failure
  counts the scheduler passes (from 1) it is the exact power of two.
\<close>

theorem defaultBackoff_bounds:
  assumes "int32 n"
  shows "1000000000 \<le> defaultBackoff n \<and> defaultBackoff n \<le> 64000000000 \<and>
    (1 \<le> n \<longrightarrow> defaultBackoff n = 1000000000 * 2 ^ nat (min (n - 1) 6))"
proof -
  have e: "nat (min (max x 0) 6) \<le> 6" for x :: int by simp
  then have "(2::int) ^ nat (min (max x 0) 6) \<le> 2 ^ 6" for x :: int
    by (rule power_increasing) simp
  moreover have "(1::int) \<le> 2 ^ nat (min (max x 0) 6)" for x :: int by simp
  moreover have "wrap32 (n - 1) = n - 1" if "1 \<le> n"
    using that assms by (intro wrap32_id) (auto simp: int32_def)
  ultimately show ?thesis by (auto simp: defaultBackoff_def)
qed

theorem defaultBackoff_bounds_witness: "defaultBackoff 4 = 8000000000"
proof -
  have "int32 4" by (simp add: int32_def)
  from defaultBackoff_bounds [OF this] show ?thesis by simp
qed

text \<open>
  \<open>Add\<close> is idempotent and rejects cleanly. When it returns nil the graph holds the
  node as a child of the parent, all other nodes are untouched, and a second call with the
  same arguments changes nothing; when it returns an error nothing has changed.
\<close>

theorem Add_idempotent:
  assumes "Add c parent att n s = (r, s')"
  shows "(r \<noteq> None \<longrightarrow> s' = s) \<and>
    (r = None \<longrightarrow>
       (\<exists>m. nodes s' (nodeID n) = Some m \<and> parentID m = Some parent) \<and>
       (\<forall>j. j \<noteq> nodeID n \<longrightarrow> nodes s' j = nodes s j) \<and>
       (nodes s (nodeID n) \<noteq> None \<longrightarrow> s' = s) \<and>
       Add c parent att n s' = (None, s'))"
proof (cases "r = None \<and> nodes s (nodeID n) = None")
  case False
  then consider (failed) e where "r = Some e" | (old) m where "r = None" "nodes s (nodeID n) = Some m"
    by auto
  then show ?thesis
  proof cases
    case failed
    with assms show ?thesis by (auto simp: Add_def split: option.splits if_splits)
  next
    case old
    with assms have "s' = s" "parentID m = Some parent"
      by (auto simp: Add_def split: option.splits if_splits)
    with assms old show ?thesis by auto
  qed
next
  case True
  let ?n = "orPending (n\<lparr>parentID := Some parent\<rparr>)"
  from assms True obtain p where p: "c = None" "err s = None" "nodes s parent = Some p" "attempt p = att"
    "actives s parent \<noteq> None" "\<not> Terminal (nstate p)" "nodeID n \<noteq> parent"
    and s': "s' = notifyLocked (addNode ?n s)"
    by (auto simp: Add_def split: option.splits if_splits)
  have new: "nodes s (nodeID ?n) = None" using True by simp
  from addNode_facts [OF new] have f: "nodes s' = (nodes s)(nodeID n \<mapsto> ?n)" "actives s' = actives s"
    "err s' = None"
    using p(2) by (auto simp: s')
  have "Add c parent att n s' = (None, s')"
    using p f by (simp add: Add_def)
  with True f show ?thesis by simp
qed

theorem Add_idempotent_witness: "Add None 1 1 (demoNode 2) (ex demo6) = (None, ex demo6)"
proof -
  have "Add None 1 1 (demoNode 2) (ex demo5) = (None, ex demo6)"
    by (simp add: Add_def addNode_def demo5_def demo6_def demoExec_def demoNode_def demoOpts_def
        makeReady_def startAttempt_def notifyLocked_def putNode_def wrap32_def orPending_def
        now_def zeroTime_def fun_upd_twist)
  from Add_idempotent [OF this] show ?thesis by simp
qed

end
