(* ===== verification/World.thy ===== *)
theory World
  imports Prelude
begin

section \<open>The database, the object store and calls that may fail\<close>

text \<open>
  The services of lutra talk to PostgreSQL and to an S3 object store. \<open>tables\<close> is the
  part of the schema of \<open>db/migrations/0001_init.sql\<close> that the modelled services use;
  the queries on it are in the theories of the services that own them, after the SQL text
  under \<open>db/queries\<close>. \<open>world\<close> adds what a transaction does not roll back: the object
  store, the clock, the supply of fresh ids, and the oracle \<open>faults\<close>, which decides for
  the \<open>n\<close>-th call whether it fails, and with which error. Every theorem holds for every
  oracle, so each call may fail at any time.

  A transaction is one step: row locks and \<open>FOR UPDATE\<close> serialise the transactions of
  the code that touch the same rows. A commit that reports an error may have taken effect
  or not (\<open>landed\<close>).
\<close>

datatype status = Queued | SRunning | SWaiting | Succeeded | SFailed | SCanceled

definition ended :: "status \<Rightarrow> bool" where
  "ended s \<longleftrightarrow> s = Succeeded \<or> s = SFailed \<or> s = SCanceled"

record run_row =
  r_token :: "uuid option"
  r_lease :: time
  r_root :: "uuid option"
  r_ns :: uuid
  r_attempts :: int
  r_created :: time

record action_row =
  a_run :: uuid
  a_caller :: "uuid option"
  a_entry :: int
  a_spec :: bytes
  a_output :: bytes
  a_status :: status
  a_error :: string
  a_attempts :: int
  a_failures :: int
  a_next :: "time option"
  a_updated :: time
  a_env :: uuid
  a_created :: time

record log_row =
  l_run :: uuid
  l_stream :: string
  l_seq :: int
  l_key :: bytes
  l_cbor :: bytes
  l_uri :: "string option"
  l_size :: int
  l_created :: time

record append_row =
  p_digest :: bytes
  p_first :: int
  p_last :: int

record upload_row =
  u_sha256 :: bytes
  u_object :: uuid
  u_size :: int
  u_mime :: string
  u_meta :: "(string \<times> string) list"
  u_multipart :: "string option"
  u_expires :: time

record env_row =
  e_ns :: uuid
  e_name :: string
  e_version :: string
  e_provider :: string
  e_spec :: bytes
  e_image :: bytes

datatype buildStatus = Building | BuildReady | BuildFailed

record namespace_row =
  n_id :: uuid
  n_slug :: string
  n_name :: string
  n_created :: time

record setting_row =
  g_ns :: uuid
  g_path :: string
  g_value :: bytes
  g_updated :: time

record build_row =
  d_id :: uuid
  d_image :: bytes
  d_status :: buildStatus
  d_token :: uuid
  d_lease :: time
  d_uri :: string
  d_error :: string
  d_created :: time

record cache_row =
  c_ready :: bool
  c_token :: uuid
  c_lease :: time
  c_output :: "bytes option"
  c_code :: string
  c_details :: "bytes option"

record tables =
  t_runs :: "uuid \<rightharpoonup> run_row"
  t_actions :: "uuid \<rightharpoonup> action_row"
  t_streams :: "(uuid \<times> string) \<rightharpoonup> int" \<comment> \<open>\<open>next_seq\<close>\<close>
  t_appends :: "(uuid \<times> string \<times> string) \<rightharpoonup> append_row"
  t_records :: "log_row list" \<comment> \<open>in the order of insertion\<close>
  t_blobs :: "bytes \<rightharpoonup> uuid"
  t_uploads :: "uuid \<rightharpoonup> upload_row"
  t_namespaces :: "namespace_row list"
  t_settings :: "setting_row list"
  t_envs :: "uuid \<rightharpoonup> env_row"
  t_envKeys :: "(uuid \<times> string \<times> string) \<rightharpoonup> uuid" \<comment> \<open>namespace, name, version\<close>
  t_runKeys :: "(uuid \<times> string) \<rightharpoonup> uuid" \<comment> \<open>\<open>runs_idempotency_idx\<close>\<close>
  t_actionKeys :: "(uuid \<times> string) \<rightharpoonup> uuid" \<comment> \<open>\<open>task_actions_idempotency_idx\<close>\<close>
  t_edges :: "(uuid \<times> uuid \<times> uuid) set" \<comment> \<open>run, source, dependent\<close>
  t_builds :: "build_row list"
  t_cache :: "bytes \<rightharpoonup> cache_row"
  t_runIds :: "uuid list" \<comment> \<open>the keys of the runs, as they were inserted\<close>
  t_actionIds :: "uuid list" \<comment> \<open>the keys of the actions, as they were inserted\<close>

definition emptyTables :: tables where
  "emptyTables = \<lparr>t_runs = Map.empty, t_actions = Map.empty, t_streams = Map.empty, t_appends = Map.empty,
     t_records = [], t_blobs = Map.empty, t_uploads = Map.empty, t_namespaces = [], t_settings = [], t_envs = Map.empty,
     t_envKeys = Map.empty, t_runKeys = Map.empty, t_actionKeys = Map.empty,
     t_edges = {}, t_builds = [], t_cache = Map.empty,
     t_runIds = [], t_actionIds = []\<rparr>"

definition hasNamespace :: "uuid \<Rightarrow> tables \<Rightarrow> bool" where
  "hasNamespace ns t \<longleftrightarrow> (\<exists>n\<in>set (t_namespaces t). n_id n = ns)"

definition newRun :: "uuid \<Rightarrow> time \<Rightarrow> run_row" where
  "newRun ns stamp = \<lparr>r_token = None, r_lease = 0, r_root = None, r_ns = ns,
     r_attempts = 0, r_created = stamp\<rparr>"

record object =
  ob_data :: bytes
  ob_checksum :: string

record world =
  tabs :: tables
  objects :: "string \<rightharpoonup> object"
  clock :: time
  ids :: "nat \<Rightarrow> uuid"
  drawn :: nat
  faults :: "nat \<Rightarrow> goerr option"
  landed :: "nat \<Rightarrow> bool"
  calls :: nat

subsection \<open>Actions\<close>

type_synonym 'a act = "world \<Rightarrow> (goerr + 'a) \<times> world"

definition ret :: "'a \<Rightarrow> 'a act" where
  "ret x w = (Inr x, w)"

definition fail :: "goerr \<Rightarrow> 'a act" where
  "fail e w = (Inl e, w)"

definition andThen :: "'a act \<Rightarrow> ('a \<Rightarrow> 'b act) \<Rightarrow> 'b act" where
  "andThen m f w = (case m w of (Inl e, w') \<Rightarrow> (Inl e, w') | (Inr x, w') \<Rightarrow> f x w')"

text \<open>\<open>if err != nil { return h(err) }\<close>\<close>

definition mapErr :: "(goerr \<Rightarrow> goerr) \<Rightarrow> 'a act \<Rightarrow> 'a act" where
  "mapErr h m w = (case m w of (Inl e, w') \<Rightarrow> (Inl (h e), w') | (Inr x, w') \<Rightarrow> (Inr x, w'))"

definition guard :: "bool \<Rightarrow> goerr \<Rightarrow> unit act" where
  "guard b e = (if b then ret () else fail e)"

text \<open>One call of the outside world.\<close>

definition call :: "unit act" where
  "call w = (case faults w (calls w) of
      Some e \<Rightarrow> (Inl e, w\<lparr>calls := Suc (calls w)\<rparr>)
    | None \<Rightarrow> (Inr (), w\<lparr>calls := Suc (calls w)\<rparr>))"

text \<open>
  A query that reads, and a statement that writes or fails on a constraint. A statement
  whose answer is lost may have taken effect.
\<close>

definition query :: "(tables \<Rightarrow> 'a) \<Rightarrow> 'a act" where
  "query f = andThen call (\<lambda>_ w. (Inr (f (tabs w)), w))"

definition stmt :: "(tables \<Rightarrow> (goerr + 'a \<times> tables)) \<Rightarrow> 'a act" where
  "stmt f w = (case call w of
      (Inr _, v) \<Rightarrow>
        (case f (tabs w) of
           Inl e \<Rightarrow> (Inl e, v)
         | Inr (x, t) \<Rightarrow> (Inr x, v\<lparr>tabs := t\<rparr>))
    | (Inl e, v) \<Rightarrow>
        (case f (tabs w) of
           Inl _ \<Rightarrow> (Inl e, v)
         | Inr (x, t) \<Rightarrow> (Inl e, if landed w (calls w) then v\<lparr>tabs := t\<rparr> else v)))"

definition newID :: "uuid act" where
  "newID w = (Inr (ids w (drawn w)), w\<lparr>drawn := Suc (drawn w)\<rparr>)"

text \<open>\<open>Begin\<close>, the body, and \<open>Commit\<close>, or the deferred \<open>Rollback\<close> on an error.\<close>

definition transaction :: "(goerr \<Rightarrow> goerr) \<Rightarrow> (goerr \<Rightarrow> goerr) \<Rightarrow> 'a act \<Rightarrow> 'a act" where
  "transaction beginErr commitErr body w =
     (case call w of
        (Inl e, w1) \<Rightarrow> (Inl (beginErr e), w1)
      | (Inr _, w1) \<Rightarrow>
          (case body w1 of
             (Inl e, w2) \<Rightarrow> (Inl e, w2\<lparr>tabs := tabs w1\<rparr>)
           | (Inr x, w2) \<Rightarrow>
               (case call w2 of
                  (Inr _, w3) \<Rightarrow> (Inr x, w3)
                | (Inl e, w3) \<Rightarrow>
                    (Inl (commitErr e),
                     if landed w2 (calls w2) then w3 else w3\<lparr>tabs := tabs w1\<rparr>))))"

lemma ret_simps [simp]: "ret x w = (Inr x, w)" "fail e w = (Inl e, w)"
  by (simp_all add: ret_def fail_def)

lemma call_tabs [simp]: "tabs (snd (call w)) = tabs w" "objects (snd (call w)) = objects w"
  "ids (snd (call w)) = ids w" "drawn (snd (call w)) = drawn w" "clock (snd (call w)) = clock w"
  by (simp_all add: call_def split: option.splits)

lemma call_result:
  "call w = (r, w') \<Longrightarrow> tabs w' = tabs w \<and> objects w' = objects w \<and> ids w' = ids w \<and>
     drawn w' = drawn w \<and> clock w' = clock w \<and> faults w' = faults w \<and> landed w' = landed w"
  by (auto simp: call_def split: option.splits)

lemma andThen_Inr:
  "andThen m f w = (Inr y, w') \<longleftrightarrow> (\<exists>x v. m w = (Inr x, v) \<and> f x v = (Inr y, w'))"
  by (auto simp: andThen_def split: prod.splits sum.splits)

lemma andThen_Inl:
  "andThen m f w = (Inl e, w') \<longleftrightarrow>
     m w = (Inl e, w') \<or> (\<exists>x v. m w = (Inr x, v) \<and> f x v = (Inl e, w'))"
  by (auto simp: andThen_def split: prod.splits sum.splits)

lemma mapErr_Inr: "mapErr h m w = (Inr x, w') \<longleftrightarrow> m w = (Inr x, w')"
  by (auto simp: mapErr_def split: prod.splits sum.splits)

lemma mapErr_Inl: "mapErr h m w = (Inl e, w') \<longleftrightarrow> (\<exists>e'. m w = (Inl e', w') \<and> e = h e')"
  by (auto simp: mapErr_def split: prod.splits sum.splits)

lemma guard_Inr: "guard b e w = (Inr x, w') \<longleftrightarrow> b \<and> w' = w"
  by (auto simp: guard_def)

lemma guard_Inl: "guard b e w = (Inl e', w') \<longleftrightarrow> \<not> b \<and> e' = e \<and> w' = w"
  by (auto simp: guard_def)

lemma query_Inr:
  "query f w = (Inr x, w') \<longleftrightarrow> call w = (Inr (), w') \<and> x = f (tabs w)"
  by (auto simp: query_def andThen_Inr dest: call_result)

lemma stmt_Inr:
  "stmt f w = (Inr x, w') \<longleftrightarrow>
     (\<exists>v t. call w = (Inr (), v) \<and> f (tabs w) = Inr (x, t) \<and> w' = v\<lparr>tabs := t\<rparr>)"
  by (cases "call w") (auto simp: stmt_def split: sum.splits prod.splits dest: call_result)

lemma stmt_Inl:
  assumes "stmt f w = (Inl e, w')"
  shows "tabs w' = tabs w \<or> (\<exists>x t. f (tabs w) = Inr (x, t) \<and> tabs w' = t)"
  using assms by (auto simp: stmt_def split: sum.splits prod.splits if_splits dest: call_result)

lemma query_Inl: "query f w = (Inl e, w') \<longleftrightarrow> call w = (Inl e, w')"
  by (auto simp: query_def andThen_Inl)

lemmas act_Inr = andThen_Inr mapErr_Inr guard_Inr query_Inr stmt_Inr
lemmas act_Inl = andThen_Inl mapErr_Inl guard_Inl query_Inl

text \<open>A transaction that fails leaves the tables alone, unless only its commit's answer was lost.\<close>

lemma transaction_Inr:
  assumes "transaction b c body w = (Inr x, w')"
  obtains w1 w2 where "call w = (Inr (), w1)" "body w1 = (Inr x, w2)" "call w2 = (Inr (), w')"
    "tabs w' = tabs w2" "tabs w1 = tabs w"
  using assms call_result
  by (fastforce simp: transaction_def split: prod.splits sum.splits)

lemma transaction_Inl:
  assumes "transaction b c body w = (Inl e, w')"
  shows "tabs w' = tabs w \<or> (\<exists>w1 w2 x. call w = (Inr (), w1) \<and> body w1 = (Inr x, w2) \<and> tabs w' = tabs w2)"
  using assms
  by (auto simp: transaction_def split: prod.splits sum.splits if_splits dest!: call_result)

subsection \<open>Third-party functions and the object store\<close>

text \<open>
  Functions of packages that are not part of the repository: \<open>google/uuid\<close> and
  \<open>fxamacker/cbor\<close>. What a theorem needs of them is one of its hypotheses.
\<close>

record lib =
  uuidString :: "uuid \<Rightarrow> string"
  uuidParse :: "string \<Rightarrow> uuid option"
  cborWellformed :: "bytes \<Rightarrow> bool"

definition putObject :: "string \<Rightarrow> object \<Rightarrow> unit act" where
  "putObject k ob w = (case call w of
      (Inl e, v) \<Rightarrow> (Inl e, if landed w (calls w) then v\<lparr>objects := (objects v)(k \<mapsto> ob)\<rparr> else v)
    | (Inr _, v) \<Rightarrow> (Inr (), v\<lparr>objects := (objects v)(k \<mapsto> ob)\<rparr>))"

definition removeObject :: "string \<Rightarrow> unit act" where
  "removeObject k w = (case call w of
      (Inl e, v) \<Rightarrow> (Inl e, if landed w (calls w) then v\<lparr>objects := (objects v)(k := None)\<rparr> else v)
    | (Inr _, v) \<Rightarrow> (Inr (), v\<lparr>objects := (objects v)(k := None)\<rparr>))"

definition getObject :: "string \<Rightarrow> object option act" where
  "getObject k = andThen call (\<lambda>_ w. (Inr (objects w k), w))"

lemma putObject_Inr:
  "putObject k ob w = (Inr u, w') \<longleftrightarrow>
     (\<exists>v. call w = (Inr (), v) \<and> w' = v\<lparr>objects := (objects w)(k \<mapsto> ob)\<rparr>)"
  by (auto simp: putObject_def split: prod.splits sum.splits dest: call_result)

lemma putObject_tabs: "putObject k ob w = (r, w') \<Longrightarrow> tabs w' = tabs w"
  by (auto simp: putObject_def split: prod.splits sum.splits if_splits dest: call_result)

lemma removeObject_tabs: "removeObject k w = (r, w') \<Longrightarrow> tabs w' = tabs w"
  by (auto simp: removeObject_def split: prod.splits sum.splits if_splits dest: call_result)

lemma newID_tabs: "newID w = (r, w') \<Longrightarrow> tabs w' = tabs w"
  by (auto simp: newID_def)

subsection \<open>Runs in which no call fails\<close>

definition quiet :: "world \<Rightarrow> bool" where
  "quiet w \<longleftrightarrow> (\<forall>n\<ge>calls w. faults w n = None)"

text \<open>\<open>runsTo m w x\<close>: \<open>m\<close> returns \<open>x\<close> having only made calls.\<close>

definition runsTo :: "'a act \<Rightarrow> world \<Rightarrow> 'a \<Rightarrow> bool" where
  "runsTo m w x \<longleftrightarrow> (\<exists>n\<ge>calls w. m w = (Inr x, w\<lparr>calls := n\<rparr>))"

lemma quiet_calls: "quiet w \<Longrightarrow> calls w \<le> n \<Longrightarrow> quiet (w\<lparr>calls := n\<rparr>)"
  by (simp add: quiet_def)

lemma runsTo_ret [simp]: "runsTo (ret x) w x"
  unfolding runsTo_def by (rule exI [of _ "calls w"]) simp

lemma runsTo_call: "quiet w \<Longrightarrow> runsTo call w ()"
  unfolding runsTo_def by (rule exI [of _ "Suc (calls w)"]) (simp add: call_def quiet_def)

lemma runsTo_seq:
  assumes "runsTo m w x" and "\<And>n. calls w \<le> n \<Longrightarrow> runsTo (f x) (w\<lparr>calls := n\<rparr>) y"
  shows "runsTo (andThen m f) w y"
proof -
  from assms(1) obtain n where n: "calls w \<le> n" "m w = (Inr x, w\<lparr>calls := n\<rparr>)"
    by (auto simp: runsTo_def)
  from assms(2) [OF n(1)] obtain k where "n \<le> k" "f x (w\<lparr>calls := n\<rparr>) = (Inr y, w\<lparr>calls := k\<rparr>)"
    by (auto simp: runsTo_def)
  with n show ?thesis unfolding runsTo_def by (intro exI [of _ k]) (simp add: andThen_def)
qed

lemma runsTo_maps: "runsTo m w x \<Longrightarrow> runsTo (mapErr h m) w x"
  by (auto simp: runsTo_def mapErr_def)

lemma runsTo_query: "quiet w \<Longrightarrow> runsTo (query f) w (f (tabs w))"
  unfolding query_def by (rule runsTo_seq [OF runsTo_call]) (auto simp: runsTo_def)

lemma runsTo_get: "quiet w \<Longrightarrow> runsTo (getObject k) w (objects w k)"
  unfolding getObject_def by (rule runsTo_seq [OF runsTo_call]) (auto simp: runsTo_def)

subsection \<open>Frames\<close>

text \<open>
  \<open>within W m\<close>: whatever fails, the world after \<open>m\<close> is related by \<open>W\<close> to the one before;
  \<open>keeps R m\<close> says the same of the tables alone. For a reflexive and transitive relation
  both follow from the statements \<open>m\<close> runs; the rules of the locales follow the structure
  of the code.
\<close>

definition within :: "(world \<Rightarrow> world \<Rightarrow> bool) \<Rightarrow> 'a act \<Rightarrow> bool" where
  "within W m \<longleftrightarrow> (\<forall>w. W w (snd (m w)))"

abbreviation (input) onTabs :: "(tables \<Rightarrow> tables \<Rightarrow> bool) \<Rightarrow> world \<Rightarrow> world \<Rightarrow> bool" where
  "onTabs R \<equiv> \<lambda>w w'. R (tabs w) (tabs w')"

abbreviation (input) keeps :: "(tables \<Rightarrow> tables \<Rightarrow> bool) \<Rightarrow> 'a act \<Rightarrow> bool" where
  "keeps R m \<equiv> within (onTabs R) m"

lemma withinI: "(\<And>w r w'. m w = (r, w') \<Longrightarrow> W w w') \<Longrightarrow> within W m"
  unfolding within_def by (metis prod.collapse)

lemma withinD: "within W m \<Longrightarrow> m w = (r, w') \<Longrightarrow> W w w'"
  unfolding within_def by (metis snd_conv)

lemma keepsD: "keeps R m \<Longrightarrow> m w = (r, w') \<Longrightarrow> R (tabs w) (tabs w')"
  by (rule withinD)

locale world_frame =
  fixes W :: "world \<Rightarrow> world \<Rightarrow> bool"
  assumes refl: "W w w"
    and trans: "W u v \<Longrightarrow> W v w \<Longrightarrow> W u w"
    and tick: "W w (w\<lparr>calls := n\<rparr>)"
begin

lemma ret: "within W (ret x)" and fail: "within W (fail e)"
  by (simp_all add: within_def refl)

lemma seq: "within W m \<Longrightarrow> (\<And>x. within W (f x)) \<Longrightarrow> within W (andThen m f)"
  unfolding within_def andThen_def
  by (auto split: prod.splits sum.splits) (metis snd_conv trans)+

lemma maps: "within W m \<Longrightarrow> within W (mapErr h m)"
  unfolding within_def mapErr_def by (auto split: prod.splits sum.splits) (metis snd_conv)+

lemma grd: "within W (guard b e)"
  by (simp add: guard_def ret fail)

lemma calls: "within W call"
  by (simp add: within_def call_def tick split: option.splits)

lemma qry: "within W (query f)" and get: "within W (getObject k)"
  unfolding query_def getObject_def by (rule seq [OF calls], simp add: within_def refl)+

lemma cond: "within W m \<Longrightarrow> within W n \<Longrightarrow> within W (if b then m else n)"
  by simp

lemma opt: "within W m \<Longrightarrow> (\<And>x. within W (f x)) \<Longrightarrow> within W (case p of None \<Rightarrow> m | Some x \<Rightarrow> f x)"
  by (cases p) simp_all

lemma pair: "(\<And>x y. within W (f x y)) \<Longrightarrow> within W (case p of (x, y) \<Rightarrow> f x y)"
  by (cases p) simp

lemma alt: "(\<And>x. within W (f x)) \<Longrightarrow> (\<And>x. within W (g x)) \<Longrightarrow>
    within W (case p of Inl x \<Rightarrow> f x | Inr x \<Rightarrow> g x)"
  by (cases p) simp_all

lemmas rules = ret fail seq maps grd calls qry get cond opt pair alt

end

locale frame =
  fixes R :: "tables \<Rightarrow> tables \<Rightarrow> bool"
  assumes refl: "R t t"
    and trans: "R t u \<Longrightarrow> R u v \<Longrightarrow> R t v"

sublocale frame \<subseteq> w: world_frame "onTabs R"
  by unfold_locales (auto intro: refl trans)

context frame
begin

lemma pure: "(\<And>w. tabs (snd (m w)) = tabs w) \<Longrightarrow> keeps R m"
  by (simp add: within_def refl)

lemma new: "keeps R newID"
  by (rule pure) (simp add: newID_def)

lemma put: "keeps R (putObject k ob)" and remove: "keeps R (removeObject k)"
  using putObject_tabs removeObject_tabs by (metis pure prod.collapse)+

lemma statement: "(\<And>t x t'. f t = Inr (x, t') \<Longrightarrow> R t t') \<Longrightarrow> keeps R (stmt f)"
  unfolding within_def stmt_def
  by (auto simp: refl split: prod.splits sum.splits dest: call_result)

lemma body: "keeps R m \<Longrightarrow> keeps R (transaction b c m)"
  unfolding within_def transaction_def
  by (auto simp: refl split: prod.splits sum.splits dest: call_result) (metis call_result snd_conv)+

lemmas rules = w.rules new put remove

end

text \<open>Elimination rules for a sequence, one per outcome.\<close>

lemma andThen_InrE:
  assumes "andThen m f w = (Inr y, w')"
  obtains x v where "m w = (Inr x, v)" "f x v = (Inr y, w')"
  using assms by (auto simp: andThen_Inr)

lemma andThen_InlE:
  assumes "andThen m f w = (Inl e, w')"
  obtains "m w = (Inl e, w')" | x v where "m w = (Inr x, v)" "f x v = (Inl e, w')"
  using assms by (auto simp: andThen_Inl)

lemma andThen_run: "m w = (Inr x, v) \<Longrightarrow> andThen m f w = f x v"
  by (simp add: andThen_def)

text \<open>What a query and a statement leave, when they succeed.\<close>

lemma query_tabs: "mapErr h (query f) w = (Inr x, v) \<Longrightarrow> x = f (tabs w) \<and> tabs v = tabs w"
  by (auto simp: act_Inr dest: call_result)

lemma stmt_tabs:
  "mapErr h (stmt f) w = (Inr x, v) \<Longrightarrow> f (tabs w) = Inr (x, tabs v)"
  by (auto simp: act_Inr)

lemma newID_run: "andThen newID f w = f (ids w (drawn w)) (w\<lparr>drawn := Suc (drawn w)\<rparr>)"
  by (simp add: andThen_def newID_def)

lemma stmt_cases:
  assumes "stmt f w = (r, v)"
  shows "objects v = objects w \<and> ids v = ids w \<and> drawn v = drawn w \<and> clock v = clock w \<and>
    (tabs v = tabs w \<or> (\<exists>x t. f (tabs w) = Inr (x, t) \<and> tabs v = t))"
  using assms by (auto simp: stmt_def split: prod.splits sum.splits if_splits dest: call_result)

lemma putObject_cases:
  assumes "putObject k ob w = (r, v)"
  shows "tabs v = tabs w \<and> ids v = ids w \<and> drawn v = drawn w \<and> clock v = clock w \<and>
    (objects v = (objects w)(k \<mapsto> ob) \<or> objects v = objects w \<and> r \<noteq> Inr ())"
  using assms by (auto simp: putObject_def split: prod.splits sum.splits if_splits dest: call_result)

text \<open>However a transaction ends, either the tables are back or its body succeeded and stays.\<close>

definition sameStore :: "world \<Rightarrow> world \<Rightarrow> bool" where
  "sameStore w w' \<longleftrightarrow> objects w' = objects w \<and> ids w' = ids w \<and> drawn w' = drawn w"

lemma transaction_cases:
  assumes "transaction b c m w = (r, w')"
  obtains (begin_failed) e where "r = Inl e" "tabs w' = tabs w" "sameStore w w'"
  | (undone) e r2 and w1 w2 :: world where "r = Inl e" "tabs w1 = tabs w" "sameStore w w1"
      "m w1 = (r2, w2)" "tabs w' = tabs w" "sameStore w2 w'"
  | (stays) x and w1 w2 :: world where "tabs w1 = tabs w" "sameStore w w1" "m w1 = (Inr x, w2)"
      "tabs w' = tabs w2" "sameStore w2 w'" "r = Inr x \<or> (\<exists>e. r = Inl e)"
proof -
  obtain r1 w1 r2 w2 r3 w3 where c: "call w = (r1, w1)" "m w1 = (r2, w2)" "call w2 = (r3, w3)"
    by (meson prod.exhaust)
  have k: "tabs w1 = tabs w" "sameStore w w1" "tabs w3 = tabs w2" "sameStore w2 w3"
    using call_result [OF c(1)] call_result [OF c(3)] by (simp_all add: sameStore_def)
  have u: "sameStore w2 (w2\<lparr>tabs := t\<rparr>)" "sameStore w2 (w3\<lparr>tabs := t\<rparr>)" for t
    using k(4) by (simp_all add: sameStore_def)
  show thesis
  proof (cases r1)
    case (Inl e)
    with assms c have "r = Inl (b e)" "w' = w1" by (simp_all add: transaction_def)
    with k begin_failed show thesis by simp
  next
    case r1: (Inr y)
    show thesis
    proof (cases r2)
      case (Inl e)
      with assms c r1 have "r = Inl e" "w' = w2\<lparr>tabs := tabs w1\<rparr>" by (simp_all add: transaction_def)
      with k u undone [OF _ k(1,2) c(2)] show thesis by simp
    next
      case r2: (Inr x)
      show thesis
      proof (cases r3)
        case (Inr z)
        with assms c r1 r2 have "r = Inr x" "w' = w3" by (simp_all add: transaction_def)
        with k c r2 stays [of w1 x w2] show thesis by simp
      next
        case (Inl e)
        with assms c r1 r2 have r: "r = Inl (c e)"
          and w': "w' = (if landed w2 (calls w2) then w3 else w3\<lparr>tabs := tabs w1\<rparr>)"
          by (simp_all add: transaction_def)
        show thesis
        proof (cases "landed w2 (calls w2)")
          case True
          with w' k c r r2 stays [of w1 x w2] show thesis by simp
        next
          case False
          with w' k u undone [OF r k(1,2) c(2)] show thesis by simp
        qed
      qed
    qed
  qed
qed

lemma mapErr_run: "mapErr h m w = (r, v) \<Longrightarrow> \<exists>r'. m w = (r', v) \<and> (\<forall>x. r = Inr x \<longleftrightarrow> r' = Inr x)"
  by (auto simp: mapErr_def split: prod.splits sum.splits)

lemma call_tabs': "mapErr h call w = (Inr x, v) \<Longrightarrow> tabs v = tabs w"
  by (auto simp: act_Inr dest: call_result)

end
