(* ===== verification/Codec.thy ===== *)
theory Codec
  imports Prelude "HOL-Library.Char_ord"
begin

unbundle bit_operations_syntax

section \<open>What the services use of Go's standard library\<close>

text \<open>
  \<open>crypto/sha256\<close>, \<open>encoding/base64\<close>, \<open>encoding/binary\<close> and the functions of \<open>strings\<close>
  the code calls. A Go string is a string of bytes, which is what \<^typ>\<open>string\<close> is.
\<close>

definition byteChar :: "byte \<Rightarrow> char" where
  "byteChar b = char_of (unat b)"

definition charByte :: "char \<Rightarrow> byte" where
  "charByte c = of_nat (of_char c)"

lemma charByte_byteChar [simp]: "charByte (byteChar b) = b"
proof -
  have "unat b < 2 ^ LENGTH(8)" by (rule unsigned_less)
  then have "unat b < 256" by simp
  then show ?thesis by (simp add: charByte_def byteChar_def)
qed

lemma byteChar_charByte [simp]: "byteChar (charByte c) = c"
proof -
  have c: "(of_char c :: nat) < 256" by simp
  have "unat (of_nat (of_char c) :: byte) = of_char c"
    using c by (simp add: unat_of_nat)
  then show ?thesis by (simp add: charByte_def byteChar_def)
qed

text \<open>\<open>[]byte(s)\<close> and \<open>string(b)\<close>\<close>

definition bytesOf :: "string \<Rightarrow> bytes" where
  "bytesOf = map charByte"

definition stringOf :: "bytes \<Rightarrow> string" where
  "stringOf = map byteChar"

lemma bytesOf_stringOf [simp]: "bytesOf (stringOf b) = b"
  by (induction b) (simp_all add: bytesOf_def stringOf_def)

lemma stringOf_bytesOf [simp]: "stringOf (bytesOf s) = s"
  by (induction s) (simp_all add: bytesOf_def stringOf_def)

lemma bytesOf_inj: "bytesOf s = bytesOf t \<longleftrightarrow> s = t"
  by (metis stringOf_bytesOf)

subsection \<open>\<open>strings\<close>\<close>

fun hasPrefix :: "'a list \<Rightarrow> 'a list \<Rightarrow> bool" where
  "hasPrefix xs [] = True"
| "hasPrefix [] (y # ys) = False"
| "hasPrefix (x # xs) (y # ys) = (x = y \<and> hasPrefix xs ys)"

lemma hasPrefix_iff: "hasPrefix xs ys \<longleftrightarrow> (\<exists>zs. xs = ys @ zs)"
  by (induction xs ys rule: hasPrefix.induct) auto

definition trimSuffix :: "string \<Rightarrow> string \<Rightarrow> string" where
  "trimSuffix s suf =
     (if length suf \<le> length s \<and> drop (length s - length suf) s = suf
      then take (length s - length suf) s else s)"

text \<open>\<open>strings.Cut(s, sep)\<close> for a separator of one byte.\<close>

fun cut :: "char \<Rightarrow> string \<Rightarrow> (string \<times> string) option" where
  "cut c [] = None"
| "cut c (x # xs) = (if x = c then Some ([], xs) else map_option (\<lambda>(a, b). (x # a, b)) (cut c xs))"

lemma cut_append: "c \<notin> set a \<Longrightarrow> cut c (a @ c # b) = Some (a, b)"
  by (induction a) auto

lemma cut_Some: "cut c s = Some (a, b) \<Longrightarrow> s = a @ c # b \<and> c \<notin> set a"
  by (induction s arbitrary: a) (auto split: if_splits)

lemma cut_None: "cut c s = None \<longleftrightarrow> c \<notin> set s"
  by (induction s) auto

subsection \<open>\<open>strconv\<close>\<close>

fun decimalText :: "nat \<Rightarrow> string" where
  "decimalText n = (if n < 10 then [char_of (48 + n)] else decimalText (n div 10) @ [char_of (48 + n mod 10)])"

declare decimalText.simps [simp del]

definition readDecimal :: "string \<Rightarrow> nat" where
  "readDecimal s = foldl (\<lambda>a c. 10 * a + (of_char c - 48)) 0 s"

lemma readDecimal_text [simp]: "readDecimal (decimalText n) = n"
proof (induction n rule: decimalText.induct)
  case (1 n)
  show ?case
  proof (cases "n < 10")
    case True
    then show ?thesis by (simp add: decimalText.simps [of n] readDecimal_def)
  next
    case False
    then have "readDecimal (decimalText n) = 10 * readDecimal (decimalText (n div 10)) + n mod 10"
      by (simp add: decimalText.simps [of n] readDecimal_def)
    with 1 False show ?thesis by simp
  qed
qed

lemma decimalText_inj: "decimalText m = decimalText n \<longleftrightarrow> m = n"
  by (metis readDecimal_text)

subsection \<open>\<open>encoding/binary\<close>\<close>

text \<open>\<open>BigEndian.PutUint64\<close> of a length, and of a 32-bit word.\<close>

definition be64 :: "nat \<Rightarrow> bytes" where
  "be64 n = map (\<lambda>k. of_nat (n div 256 ^ k)) [7, 6, 5, 4, 3, 2, 1, 0]"

definition be32 :: "32 word \<Rightarrow> bytes" where
  "be32 w = [ucast (drop_bit 24 w), ucast (drop_bit 16 w), ucast (drop_bit 8 w), ucast w]"

lemma length_be [simp]: "length (be64 n) = 8" "length (be32 w) = 4"
  by (simp_all add: be64_def be32_def)

fun nat_of_bytes :: "bytes \<Rightarrow> nat" where
  "nat_of_bytes [] = 0"
| "nat_of_bytes (b # bs) = unat b * 256 ^ length bs + nat_of_bytes bs"

lemma unat_byte: "unat (of_nat n :: byte) = n mod 256"
  by (simp add: unat_of_nat)

lemma nat_of_be64:
  assumes "n < 2 ^ 64"
  shows "nat_of_bytes (be64 n) = n"
proof -
  have step: "(n div 256 ^ Suc k) * 256 ^ Suc k + (n div 256 ^ k mod 256) * 256 ^ k =
      (n div 256 ^ k) * 256 ^ k" for k
  proof -
    have "n div 256 ^ Suc k = n div 256 ^ k div 256"
      by (simp only: power_Suc2 div_mult2_eq)
    then have "(n div 256 ^ Suc k) * 256 + n div 256 ^ k mod 256 = n div 256 ^ k" by simp
    then have "((n div 256 ^ Suc k) * 256 + n div 256 ^ k mod 256) * 256 ^ k = n div 256 ^ k * 256 ^ k"
      by simp
    then show ?thesis by (simp add: algebra_simps)
  qed
  have z: "n div 256 ^ 8 = 0" using assms by simp
  have sum: "nat_of_bytes (map (\<lambda>k. of_nat (n div 256 ^ k)) (rev [0..<m])) =
      (\<Sum>k<m. (n div 256 ^ k mod 256) * 256 ^ k)" for m
    by (induction m) (simp_all add: unat_byte)
  have "[7, 6, 5, 4, 3, 2, 1, 0] = rev [0..<8::nat]" by (simp add: upt_rec)
  then have eq: "nat_of_bytes (be64 n) = (\<Sum>k<8. (n div 256 ^ k mod 256) * 256 ^ k)"
    unfolding be64_def using sum [of 8] by simp
  have "(\<Sum>k<m. (n div 256 ^ k mod 256) * 256 ^ k) + (n div 256 ^ m) * 256 ^ m = n" for m
  proof (induction m)
    case (Suc m)
    then show ?case using step [of m] by simp
  qed simp
  from this [of 8] show ?thesis unfolding eq z by simp
qed

lemma be64_inj: "m < 2 ^ 64 \<Longrightarrow> n < 2 ^ 64 \<Longrightarrow> be64 m = be64 n \<Longrightarrow> m = n"
  by (metis nat_of_be64)

subsection \<open>\<open>encoding/base64\<close>, the standard encoding\<close>

definition alphabet :: string where
  "alphabet = ''ABCDEFGHIJKLMNOPQRSTUVWXYZabcdefghijklmnopqrstuvwxyz0123456789+/''"

definition b64char :: "nat \<Rightarrow> char" where
  "b64char n = alphabet ! n"

definition b64val :: "char \<Rightarrow> nat option" where
  "b64val c =
     (let n = length (takeWhile (\<lambda>x. x \<noteq> c) alphabet) in if n < 64 then Some n else None)"

definition sextets3 :: "byte \<Rightarrow> byte \<Rightarrow> byte \<Rightarrow> nat list" where
  "sextets3 a b c =
     [unat a div 4, (unat a mod 4) * 16 + unat b div 16, (unat b mod 16) * 4 + unat c div 64,
      unat c mod 64]"

fun b64encode :: "bytes \<Rightarrow> string" where
  "b64encode [] = []"
| "b64encode [a] = map b64char (take 2 (sextets3 a 0 0)) @ ''==''"
| "b64encode [a, b] = map b64char (take 3 (sextets3 a b 0)) @ ''=''"
| "b64encode (a # b # c # rest) = map b64char (sextets3 a b c) @ b64encode rest"

text \<open>
  The decoder skips carriage returns and newlines, accepts padding only at the end, and
  does not look at the unused bits of the last character.
\<close>

definition quantum :: "nat \<Rightarrow> nat \<Rightarrow> nat \<Rightarrow> nat \<Rightarrow> bytes" where
  "quantum p q r s = [of_nat (p * 4 + q div 16), of_nat (q mod 16 * 16 + r div 4), of_nat (r mod 4 * 64 + s)]"

fun b64quanta :: "string \<Rightarrow> bytes option" where
  "b64quanta [] = Some []"
| "b64quanta (a # b # c # d # rest) =
     (case (b64val a, b64val b) of
        (Some p, Some q) \<Rightarrow>
          if c = CHR ''='' then
            (if d = CHR ''='' \<and> rest = [] then Some (take 1 (quantum p q 0 0)) else None)
          else
            (case b64val c of
               None \<Rightarrow> None
             | Some r \<Rightarrow>
                 if d = CHR ''='' then
                   (if rest = [] then Some (take 2 (quantum p q r 0)) else None)
                 else
                   (case b64val d of
                      None \<Rightarrow> None
                    | Some s \<Rightarrow> map_option (\<lambda>bs. quantum p q r s @ bs) (b64quanta rest)))
      | _ \<Rightarrow> None)"
| "b64quanta _ = None"

definition b64decode :: "string \<Rightarrow> bytes option" where
  "b64decode s = b64quanta (filter (\<lambda>c. c \<noteq> CHR 0x0A \<and> c \<noteq> CHR 0x0D) s)"

lemma takeWhile_nth:
  assumes "distinct xs" and "n < length xs"
  shows "length (takeWhile (\<lambda>x. x \<noteq> xs ! n) xs) = n"
  using assms
proof (induction xs arbitrary: n)
  case (Cons x xs)
  show ?case
  proof (cases n)
    case (Suc m)
    with Cons.prems have "xs ! m \<in> set xs" by simp
    with Cons.prems have "x \<noteq> xs ! m" by auto
    with Suc Cons show ?thesis by simp
  qed simp
qed simp

lemma alphabet_facts: "distinct alphabet" "length alphabet = 64" "CHR ''='' \<notin> set alphabet"
  "CHR 0x0A \<notin> set alphabet" "CHR 0x0D \<notin> set alphabet" "CHR '','' \<notin> set alphabet"
  by (simp_all add: alphabet_def)

lemma b64val_char: "n < 64 \<Longrightarrow> b64val (b64char n) = Some n"
  using takeWhile_nth [OF alphabet_facts(1)] alphabet_facts(2) by (simp add: b64val_def b64char_def)

lemma b64char_plain:
  assumes "n < 64"
  shows "b64char n \<noteq> CHR ''=''" "b64char n \<noteq> CHR 0x0A" "b64char n \<noteq> CHR 0x0D" "b64char n \<noteq> CHR '',''"
  using assms alphabet_facts nth_mem [of n alphabet] unfolding b64char_def by metis+

lemma byte_less: "unat (b :: byte) < 256"
proof -
  have "unat b < 2 ^ LENGTH(8)" by (rule unsigned_less)
  then show ?thesis by simp
qed

lemma sextets_less: "n \<in> set (sextets3 a b c) \<Longrightarrow> n < 64"
  using byte_less [of a] byte_less [of b] byte_less [of c] by (auto simp: sextets3_def)

lemma quantum_sextets:
  "quantum (unat a div 4) ((unat a mod 4) * 16 + unat b div 16) ((unat b mod 16) * 4 + unat c div 64)
     (unat c mod 64) = [a, b, c]"
proof -
  have carry: "(x * k + r) mod k = r" "(x * k + r) div k = x" if "r < k" for x k r :: nat
    using that by simp_all
  have b16: "unat b div 16 < 16" and c64: "unat c div 64 < 4"
    using byte_less [of b] byte_less [of c] by simp_all
  have a: "unat a div 4 * 4 + ((unat a mod 4) * 16 + unat b div 16) div 16 = unat a"
    unfolding carry(2) [OF b16] by simp
  have b: "((unat a mod 4) * 16 + unat b div 16) mod 16 * 16 +
      ((unat b mod 16) * 4 + unat c div 64) div 4 = unat b"
    unfolding carry(1) [OF b16] carry(2) [OF c64] by simp
  have c: "((unat b mod 16) * 4 + unat c div 64) mod 4 * 64 + unat c mod 64 = unat c"
    unfolding carry(1) [OF c64] by simp
  show ?thesis unfolding quantum_def a b c by simp
qed

lemma b64quanta_encode: "b64quanta (b64encode bs) = Some bs"
proof (induction bs rule: b64encode.induct)
  case (2 a)
  have l: "n < 64" if "n \<in> set (sextets3 a 0 0)" for n using that sextets_less by blast
  have "take 1 (quantum (unat a div 4) (unat a mod 4 * 16) 0 0) = [a]"
    using quantum_sextets [of a 0 0] by (simp add: quantum_def)
  with l show ?case by (simp add: sextets3_def b64val_char)
next
  case (3 a b)
  have l: "n < 64" if "n \<in> set (sextets3 a b 0)" for n using that sextets_less by blast
  have "take 2 (quantum (unat a div 4) (unat a mod 4 * 16 + unat b div 16) (unat b mod 16 * 4) 0) = [a, b]"
    using quantum_sextets [of a b 0] by (simp add: quantum_def)
  with l show ?case by (simp add: sextets3_def b64val_char b64char_plain(1))
next
  case (4 a b c rest)
  let ?p = "unat a div 4" and ?q = "unat a mod 4 * 16 + unat b div 16"
    and ?r = "unat b mod 16 * 4 + unat c div 64" and ?s = "unat c mod 64"
  have l: "?p < 64" "?q < 64" "?r < 64" "?s < 64"
    by (rule sextets_less [of _ a b c], simp add: sextets3_def)+
  have "b64encode (a # b # c # rest) = b64char ?p # b64char ?q # b64char ?r # b64char ?s # b64encode rest"
    by (simp add: sextets3_def)
  then have "b64quanta (b64encode (a # b # c # rest)) = Some (quantum ?p ?q ?r ?s @ rest)"
    using 4 l by (simp del: b64encode.simps add: b64val_char b64char_plain(1))
  then show ?case unfolding quantum_sextets by simp
qed simp

lemma b64encode_chars:
  assumes "x \<in> set (b64encode bs)"
  shows "x = CHR ''='' \<or> (\<exists>n<64. x = b64char n)"
  using assms
proof (induction bs rule: b64encode.induct)
  case (4 a b c rest)
  have "\<exists>n<64. x = b64char n" if "x \<in> b64char ` set (sextets3 a b c)"
    using that sextets_less [of _ a b c] by blast
  with 4 show ?case by auto
qed (auto dest!: in_set_takeD sextets_less)

lemma b64decode_encode: "b64decode (b64encode bs) = Some bs"
proof -
  have "x \<noteq> CHR 0x0A \<and> x \<noteq> CHR 0x0D" if x: "x \<in> set (b64encode bs)" for x
    using b64encode_chars [OF x] b64char_plain(2,3) by (elim disjE) auto
  then have "filter (\<lambda>c. c \<noteq> CHR 0x0A \<and> c \<noteq> CHR 0x0D) (b64encode bs) = b64encode bs"
    by (simp add: filter_id_conv)
  then show ?thesis by (simp add: b64decode_def b64quanta_encode)
qed

lemma b64encode_comma: "CHR '','' \<notin> set (b64encode bs)"
proof
  assume "CHR '','' \<in> set (b64encode bs)"
  then show False using b64encode_chars b64char_plain(4) by fastforce
qed

subsection \<open>\<open>crypto/sha256\<close>\<close>

definition roundConstants :: "32 word list" where
  "roundConstants =
    [1116352408, 1899447441, 3049323471, 3921009573,
     961987163, 1508970993, 2453635748, 2870763221,
     3624381080, 310598401, 607225278, 1426881987,
     1925078388, 2162078206, 2614888103, 3248222580,
     3835390401, 4022224774, 264347078, 604807628,
     770255983, 1249150122, 1555081692, 1996064986,
     2554220882, 2821834349, 2952996808, 3210313671,
     3336571891, 3584528711, 113926993, 338241895,
     666307205, 773529912, 1294757372, 1396182291,
     1695183700, 1986661051, 2177026350, 2456956037,
     2730485921, 2820302411, 3259730800, 3345764771,
     3516065817, 3600352804, 4094571909, 275423344,
     430227734, 506948616, 659060556, 883997877,
     958139571, 1322822218, 1537002063, 1747873779,
     1955562222, 2024104815, 2227730452, 2361852424,
     2428436474, 2756734187, 3204031479, 3329325298]"

type_synonym digestState =
  "32 word \<times> 32 word \<times> 32 word \<times> 32 word \<times> 32 word \<times> 32 word \<times> 32 word \<times> 32 word"

definition initialState :: digestState where
  "initialState = (1779033703, 3144134277, 1013904242, 2773480762,
                   1359893119, 2600822924, 528734635, 1541459225)"

definition rotr :: "nat \<Rightarrow> 32 word \<Rightarrow> 32 word" where
  "rotr n w = (drop_bit n w) OR (push_bit (32 - n) w)"

definition schedule1 :: "32 word list \<Rightarrow> 32 word" where
  "schedule1 w =
     (let a = w ! (length w - 15); b = w ! (length w - 2);
          s0 = (rotr 7 a) XOR (rotr 18 a) XOR (drop_bit 3 a);
          s1 = (rotr 17 b) XOR (rotr 19 b) XOR (drop_bit 10 b)
      in w ! (length w - 16) + s0 + w ! (length w - 7) + s1)"

definition schedule :: "32 word list \<Rightarrow> 32 word list" where
  "schedule block = ((\<lambda>w. w @ [schedule1 w]) ^^ 48) block"

definition shaRound :: "32 word \<times> 32 word \<Rightarrow> digestState \<Rightarrow> digestState" where
  "shaRound kw s = (case kw of (k, w) \<Rightarrow> case s of (a, b, c, d, e, f, g, h) \<Rightarrow>
     let S1 = (rotr 6 e) XOR (rotr 11 e) XOR (rotr 25 e);
         ch = (e AND f) XOR ((NOT e) AND g);
         t1 = h + S1 + ch + k + w;
         S0 = (rotr 2 a) XOR (rotr 13 a) XOR (rotr 22 a);
         maj = (a AND b) XOR (a AND c) XOR (b AND c)
     in (t1 + S0 + maj, a, b, c, d + t1, e, f, g))"

definition addState :: "digestState \<Rightarrow> digestState \<Rightarrow> digestState" where
  "addState s t = (case s of (a, b, c, d, e, f, g, h) \<Rightarrow> case t of (a', b', c', d', e', f', g', h') \<Rightarrow>
     (a + a', b + b', c + c', d + d', e + e', f + f', g + g', h + h'))"

definition compress :: "digestState \<Rightarrow> 32 word list \<Rightarrow> digestState" where
  "compress s block = addState s (fold shaRound (zip roundConstants (schedule block)) s)"

definition word32 :: "bytes \<Rightarrow> 32 word" where
  "word32 bs = foldl (\<lambda>w b. push_bit 8 w OR ucast b) 0 bs"

fun chunks :: "nat \<Rightarrow> nat \<Rightarrow> 'a list \<Rightarrow> 'a list list" where
  "chunks 0 k xs = []"
| "chunks (Suc n) k xs = take k xs # chunks n k (drop k xs)"

definition shaPad :: "bytes \<Rightarrow> bytes" where
  "shaPad m = m @ [0x80] @ replicate ((119 - length m mod 64) mod 64) 0 @ be64 (8 * length m)"

definition stateBytes :: "digestState \<Rightarrow> bytes" where
  "stateBytes s = (case s of (a, b, c, d, e, f, g, h) \<Rightarrow> concat (map be32 [a, b, c, d, e, f, g, h]))"

definition sha256 :: "bytes \<Rightarrow> bytes" where
  "sha256 m =
     (let p = shaPad m; blocks = chunks (length p div 64) 64 p
      in stateBytes (foldl (\<lambda>s b. compress s (map word32 (chunks 16 4 b))) initialState blocks))"

lemma length_sha256 [simp]: "length (sha256 m) = 32"
  by (simp add: sha256_def stateBytes_def Let_def split: prod.splits)

end
