(* ===== verification/Blob_Uri.thy ===== *)
theory Blob_Uri
  imports Codec
begin

section \<open>Blob URIs\<close>

text \<open>
  \<open>URI\<close> and \<open>ParseURI\<close> of \<open>internal/blob/service.go\<close>, with what \<open>ParseURI\<close> uses of
  \<open>mime.ParseMediaType\<close>: whether it returns an error. White space is Unicode white space
  in UTF-8. Lower-casing matters only for the letters it maps to ASCII, the Kelvin sign and
  the dotted capital I among the non-ASCII ones; no other rune becomes or stops being a
  token character or white space.
\<close>

subsection \<open>White space and tokens\<close>

definition spaceRunes :: "string list" where
  "spaceRunes =
     [[CHR 0x09], [CHR 0x0A], [CHR 0x0B], [CHR 0x0C], [CHR 0x0D], [CHR 0x20],
      [CHR 0xC2, CHR 0x85], [CHR 0xC2, CHR 0xA0], [CHR 0xE1, CHR 0x9A, CHR 0x80],
      [CHR 0xE2, CHR 0x80, CHR 0x80], [CHR 0xE2, CHR 0x80, CHR 0x81], [CHR 0xE2, CHR 0x80, CHR 0x82],
      [CHR 0xE2, CHR 0x80, CHR 0x83], [CHR 0xE2, CHR 0x80, CHR 0x84], [CHR 0xE2, CHR 0x80, CHR 0x85],
      [CHR 0xE2, CHR 0x80, CHR 0x86], [CHR 0xE2, CHR 0x80, CHR 0x87], [CHR 0xE2, CHR 0x80, CHR 0x88],
      [CHR 0xE2, CHR 0x80, CHR 0x89], [CHR 0xE2, CHR 0x80, CHR 0x8A], [CHR 0xE2, CHR 0x80, CHR 0xA8],
      [CHR 0xE2, CHR 0x80, CHR 0xA9], [CHR 0xE2, CHR 0x80, CHR 0xAF], [CHR 0xE2, CHR 0x81, CHR 0x9F],
      [CHR 0xE3, CHR 0x80, CHR 0x80]]"

fun trimWith :: "nat \<Rightarrow> string list \<Rightarrow> string \<Rightarrow> string" where
  "trimWith 0 rs s = s"
| "trimWith (Suc k) rs s =
     (case find (hasPrefix s) rs of
        None \<Rightarrow> s
      | Some r \<Rightarrow> trimWith k rs (drop (length r) s))"

definition trimLeft :: "string \<Rightarrow> string" where
  "trimLeft s = trimWith (length s) spaceRunes s"

definition trimRight :: "string \<Rightarrow> string" where
  "trimRight s = rev (trimWith (length s) (map rev spaceRunes) (rev s))"

definition trimSpace :: "string \<Rightarrow> string" where
  "trimSpace s = trimRight (trimLeft s)"

fun toLower :: "string \<Rightarrow> string" where
  "toLower [] = []"
| "toLower (c # s) =
     (if c = CHR 0xE2 \<and> take 2 s = [CHR 0x84, CHR 0xAA] then CHR ''k'' # toLower (drop 2 s)
      else if c = CHR 0xC4 \<and> take 1 s = [CHR 0xB0] then CHR ''i'' # toLower (drop 1 s)
      else (if c \<in> set ''ABCDEFGHIJKLMNOPQRSTUVWXYZ''
            then char_of ((of_char c :: nat) + 32) else c) # toLower s)"

definition isTSpecial :: "char \<Rightarrow> bool" where
  "isTSpecial c \<longleftrightarrow> c \<in> set ''()<>@,;:/[]?='' \<or> c = CHR 0x22 \<or> c = CHR 0x5C"

definition isTokenChar :: "char \<Rightarrow> bool" where
  "isTokenChar c \<longleftrightarrow> 32 < (of_char c :: nat) \<and> (of_char c :: nat) < 127 \<and> \<not> isTSpecial c"

definition consumeToken :: "string \<Rightarrow> string \<times> string" where
  "consumeToken v = (takeWhile isTokenChar v, dropWhile isTokenChar v)"

text \<open>A quoted string after its opening quote, and \<^const>\<open>None\<close> when it is malformed.\<close>

fun quoted :: "string \<Rightarrow> (string \<times> string) option" where
  "quoted [] = None"
| "quoted (c # s) =
     (if c = CHR 0x22 then Some ([], s)
      else if c = CHR 0x5C then
        (case s of
           [] \<Rightarrow> None
         | d # s' \<Rightarrow>
             if isTSpecial d then map_option (\<lambda>(v, r). (d # v, r)) (quoted s')
             else map_option (\<lambda>(v, r). (c # v, r)) (quoted s))
      else if c = CHR 0x0D \<or> c = CHR 0x0A then None
      else map_option (\<lambda>(v, r). (c # v, r)) (quoted s))"

definition consumeValue :: "string \<Rightarrow> string \<times> string" where
  "consumeValue v =
     (if v = [] then ([], v)
      else if hd v \<noteq> CHR 0x22 then consumeToken v
      else (case quoted (tl v) of None \<Rightarrow> ([], v) | Some r \<Rightarrow> r))"

text \<open>A parameter and the rest, or \<^const>\<open>None\<close> for an empty key.\<close>

definition consumeMediaParam :: "string \<Rightarrow> (string \<times> string \<times> string) option" where
  "consumeMediaParam v =
     (case trimLeft v of
        [] \<Rightarrow> None
      | c # rest \<Rightarrow>
          if c \<noteq> CHR '';'' then None
          else
            (let (param, rest1) = consumeToken (trimLeft rest) in
             if param = [] then None
             else (case trimLeft rest1 of
                     [] \<Rightarrow> None
                   | d # rest2 \<Rightarrow>
                       if d \<noteq> CHR ''='' then None
                       else
                         (let rest3 = trimLeft rest2; (value, rest4) = consumeValue rest3
                          in if value = [] \<and> rest4 = rest3 then None
                             else Some (toLower param, value, rest4)))))"

definition mediaTypeName :: "string \<Rightarrow> bool" where
  "mediaTypeName s =
     (case consumeToken s of (typ, rest) \<Rightarrow>
        typ \<noteq> [] \<and>
        (rest = [] \<or>
         hd rest = CHR ''/'' \<and>
         (case consumeToken (tl rest) of (sub, rest') \<Rightarrow> sub \<noteq> [] \<and> rest' = [])))"

text \<open>
  The loop over the parameters; every pass consumes at least the semicolon, so the length
  of the string is enough fuel.
\<close>

fun mediaParams :: "nat \<Rightarrow> (string \<rightharpoonup> string) \<Rightarrow> string \<Rightarrow> bool" where
  "mediaParams 0 seen v = False"
| "mediaParams (Suc k) seen v =
     (let v' = trimLeft v in
      if v' = [] then True
      else (case consumeMediaParam v' of
              None \<Rightarrow> trimSpace v' = '';''
            | Some (key, value, rest) \<Rightarrow>
                (case seen key of
                   Some old \<Rightarrow> if old \<noteq> value then False else mediaParams k (seen(key \<mapsto> value)) rest
                 | None \<Rightarrow> mediaParams k (seen(key \<mapsto> value)) rest)))"

definition parseMediaTypeOK :: "string \<Rightarrow> bool" where
  "parseMediaTypeOK v =
     (let base = takeWhile (\<lambda>c. c \<noteq> CHR '';'') v in
      mediaTypeName (trimSpace (toLower base)) \<and>
      mediaParams (Suc (length v)) Map.empty (drop (length base) v))"

subsection \<open>The fuel is enough\<close>

lemma trimWith_length: "length (trimWith k rs s) \<le> length s"
proof (induction k arbitrary: s)
  case (Suc k)
  show ?case
  proof (cases "find (hasPrefix s) rs")
    case (Some r)
    with Suc [of "drop (length r) s"] show ?thesis by simp
  qed simp
qed simp

lemma trimLeft_length: "length (trimLeft s) \<le> length s"
  by (simp add: trimLeft_def trimWith_length)

lemma map_pair_Some:
  "map_option (\<lambda>(v, r). (c # v, r)) q = Some (v', r') \<longleftrightarrow> (\<exists>v. q = Some (v, r') \<and> v' = c # v)"
  by (cases q) auto

lemma quoted_length: "quoted s = Some (v, r) \<Longrightarrow> length r < length s"
proof (induction s arbitrary: v r rule: length_induct)
  case (1 s)
  then obtain c s' where s: "s = c # s'" by (cases s) auto
  have IH: "quoted t = Some (v', r) \<Longrightarrow> length t < length s \<Longrightarrow> length r < length s" for t v'
    using 1(1) by (meson less_trans)
  have "r = s' \<or> (\<exists>v'. quoted s' = Some (v', r)) \<or> (\<exists>d t v'. s' = d # t \<and> quoted t = Some (v', r))"
    using 1(2) unfolding s quoted.simps(2)
    by (auto simp del: quoted.simps simp: map_pair_Some split: if_splits list.splits)
  then show ?case using IH s by auto
qed

lemma consumeValue_length: "length (snd (consumeValue v)) \<le> length v"
proof (cases "v = [] \<or> hd v \<noteq> CHR 0x22")
  case True
  then show ?thesis by (auto simp: consumeValue_def consumeToken_def length_dropWhile_le)
next
  case False
  then show ?thesis
    using quoted_length [of "tl v"]
    by (cases v) (fastforce simp: consumeValue_def split: option.splits)+
qed

lemma consumeMediaParam_length:
  assumes "consumeMediaParam v = Some (key, value, rest)"
  shows "length rest < length v"
proof -
  from assms obtain c r where r: "trimLeft v = c # r"
    by (auto simp: consumeMediaParam_def split: list.splits)
  define rest1 where "rest1 = snd (consumeToken (trimLeft r))"
  from assms r obtain d rest2 where r2: "trimLeft rest1 = d # rest2"
    and rest: "rest = snd (consumeValue (trimLeft rest2))"
    by (auto simp: consumeMediaParam_def rest1_def Let_def split: list.splits if_splits prod.splits)
  have "length rest \<le> length rest2"
    unfolding rest using consumeValue_length trimLeft_length le_trans by blast
  also have "\<dots> < length (trimLeft rest1)" using r2 by simp
  also have "\<dots> \<le> length rest1" by (rule trimLeft_length)
  also have "\<dots> \<le> length (trimLeft r)"
    by (simp add: rest1_def consumeToken_def length_dropWhile_le)
  also have "\<dots> \<le> length r" by (rule trimLeft_length)
  also have "\<dots> < length v" using r trimLeft_length [of v] by simp
  finally show ?thesis by simp
qed

lemma mediaParams_enough:
  assumes "length v < k" and "k \<le> l"
  shows "mediaParams l seen v = mediaParams k seen v"
  using assms
proof (induction k arbitrary: l seen v)
  case (Suc k)
  then obtain m where l: "l = Suc m" by (cases l) auto
  have "mediaParams m s rest = mediaParams k s rest"
    if "consumeMediaParam (trimLeft v) = Some (key, value, rest)" for key "value" rest s
  proof -
    have "length rest < length v"
      using consumeMediaParam_length [OF that] trimLeft_length [of v] by simp
    then show ?thesis using Suc l by (intro Suc.IH) auto
  qed
  then show ?case by (auto simp: l Let_def split: option.splits)
qed simp

subsection \<open>URIs\<close>

definition URI :: "string \<Rightarrow> bytes \<Rightarrow> string" where
  "URI mimeType digest = ''blob:'' @ mimeType @ '','' @ b64encode digest"

definition ParseURI :: "string \<Rightarrow> goerr + bytes \<times> string" where
  "ParseURI uri =
     (if \<not> hasPrefix uri ''blob:'' then Inl (Plain ''blob URI must start with blob'')
      else
        (case cut CHR '','' (drop 5 uri) of
           None \<Rightarrow> Inl (Plain ''invalid blob URI'')
         | Some (head, name) \<Rightarrow>
             if trimSpace head = [] then Inl (Plain ''invalid blob URI'')
             else
               (let head' = trimSuffix (trimSuffix head '';resolve'') '';resolve=true'' in
                case b64decode name of
                  None \<Rightarrow> Inl (Plain ''invalid blob URI digest'')
                | Some digest \<Rightarrow>
                    if length digest \<noteq> 32 \<or> b64encode digest \<noteq> name
                    then Inl (Plain ''invalid blob URI digest'')
                    else if \<not> parseMediaTypeOK head'
                    then Inl (Plain ''invalid blob URI MIME type'')
                    else Inr (digest, head'))))"

lemma ParseURI_URI:
  assumes "length digest = 32" and "CHR '','' \<notin> set m" and "trimSpace m \<noteq> []"
    and "parseMediaTypeOK (trimSuffix (trimSuffix m '';resolve'') '';resolve=true'')"
  shows "ParseURI (URI m digest) = Inr (digest, trimSuffix (trimSuffix m '';resolve'') '';resolve=true'')"
proof -
  have "cut CHR '','' (drop 5 (URI m digest)) = Some (m, b64encode digest)"
    using cut_append [OF assms(2)] by (simp add: URI_def)
  moreover have "hasPrefix (URI m digest) ''blob:''" by (auto simp: hasPrefix_iff URI_def)
  ultimately show ?thesis
    using assms by (simp add: ParseURI_def b64decode_encode Let_def)
qed

lemma ParseURI_Inr:
  assumes "ParseURI uri = Inr (digest, m)"
  shows "length digest = 32" "parseMediaTypeOK m"
    "\<exists>h. uri = URI h digest \<and> CHR '','' \<notin> set h \<and>
       m = trimSuffix (trimSuffix h '';resolve'') '';resolve=true''"
proof -
  from assms obtain h name where p: "hasPrefix uri ''blob:''" "cut CHR '','' (drop 5 uri) = Some (h, name)"
    and m: "m = trimSuffix (trimSuffix h '';resolve'') '';resolve=true''"
    and d: "length digest = 32" "b64encode digest = name" "parseMediaTypeOK m"
    by (auto simp: ParseURI_def Let_def split: if_splits option.splits)
  show "length digest = 32" "parseMediaTypeOK m" using d by simp_all
  from p(1) obtain z where "uri = ''blob:'' @ z" by (auto simp: hasPrefix_iff)
  with cut_Some [OF p(2)] d(2) m show "\<exists>h. uri = URI h digest \<and> CHR '','' \<notin> set h \<and>
       m = trimSuffix (trimSuffix h '';resolve'') '';resolve=true''"
    by (auto simp: URI_def)
qed

lemma trimSuffix_cases: "s = trimSuffix s suf \<or> s = trimSuffix s suf @ suf"
  unfolding trimSuffix_def by (metis append_take_drop_id)

subsection \<open>Properties\<close>

text \<open>
  Blob URIs round-trip. For a digest of 32 bytes and a MIME type without a comma that
  is valid and is not a \<open>resolve\<close> form, \<open>ParseURI\<close> reads back exactly what \<open>URI\<close> wrote.
\<close>

theorem ParseURI_roundtrip:
  assumes "length digest = 32" and "CHR '','' \<notin> set m" and "trimSpace m \<noteq> []"
    and "parseMediaTypeOK m" and "trimSuffix m '';resolve'' = m" and "trimSuffix m '';resolve=true'' = m"
  shows "ParseURI (URI m digest) = Inr (digest, m)"
  using ParseURI_URI [OF assms(1-3)] assms(4-6) by simp

theorem ParseURI_roundtrip_witness:
  "ParseURI (URI ''application/cbor'' (replicate 32 7)) = Inr (replicate 32 7, ''application/cbor'')"
proof (rule ParseURI_roundtrip)
  show "parseMediaTypeOK ''application/cbor''" by code_simp
  show "trimSpace ''application/cbor'' \<noteq> []" by code_simp
qed (simp_all add: trimSuffix_def)

text \<open>
  \<open>ParseURI\<close> accepts only canonical URIs: the digest has 32 bytes and is written in
  its one base64 form, the MIME type is valid, and the URI is \<open>URI\<close> of that MIME type,
  possibly with a \<open>resolve\<close> suffix.
\<close>

theorem ParseURI_canonical:
  assumes "ParseURI uri = Inr (digest, m)"
  shows "length digest = 32 \<and> parseMediaTypeOK m \<and>
    (uri = URI m digest \<or> uri = URI (m @ '';resolve'') digest \<or>
     uri = URI (m @ '';resolve=true'') digest \<or> uri = URI (m @ '';resolve=true;resolve'') digest)"
proof -
  note p = ParseURI_Inr [OF assms]
  from p(3) obtain h where h: "uri = URI h digest"
    "m = trimSuffix (trimSuffix h '';resolve'') '';resolve=true''" by blast
  have "h = trimSuffix h '';resolve'' \<or> h = trimSuffix h '';resolve'' @ '';resolve''"
    by (rule trimSuffix_cases)
  moreover have "trimSuffix h '';resolve'' = m \<or> trimSuffix h '';resolve'' = m @ '';resolve=true''"
    using trimSuffix_cases [of "trimSuffix h '';resolve''" "'';resolve=true''"] h(2) by simp
  ultimately have "h = m \<or> h = m @ '';resolve'' \<or> h = m @ '';resolve=true'' \<or>
      h = m @ '';resolve=true;resolve''"
    by (elim disjE) simp_all
  with p(1,2) h(1) show ?thesis by auto
qed

theorem ParseURI_canonical_witness:
  "length (replicate 32 (7 :: byte)) = 32 \<and> parseMediaTypeOK ''text/plain''"
proof -
  have "trimSuffix (trimSuffix ''text/plain;resolve'' '';resolve'') '';resolve=true'' = ''text/plain''"
    by (simp add: trimSuffix_def)
  moreover have "parseMediaTypeOK ''text/plain''" "trimSpace ''text/plain;resolve'' \<noteq> []" by code_simp+
  ultimately have "ParseURI (URI ''text/plain;resolve'' (replicate 32 7)) = Inr (replicate 32 7, ''text/plain'')"
    using ParseURI_URI [of "replicate 32 7" "''text/plain;resolve''"] by simp
  from ParseURI_canonical [OF this] show ?thesis by blast
qed

text \<open>
  A valid MIME type may hold a comma, in a quoted parameter, and then the URI made of
  it cannot be read back, whatever the digest: the comma ends the MIME type early.
\<close>

theorem ParseURI_rejects_comma:
  "parseMediaTypeOK ''text/plain;a=\"x,y\"'' \<and>
   ParseURI (URI ''text/plain;a=\"x,y\"'' digest) = Inl (Plain ''invalid blob URI digest'')"
proof
  show "parseMediaTypeOK ''text/plain;a=\"x,y\"''" by code_simp
  have "trimSpace ''text/plain;a=\"x'' \<noteq> []" by code_simp
  moreover have "b64decode (''y\",'' @ b64encode digest) = None"
  proof -
    have v: "b64val CHR 0x22 = None" by code_simp
    let ?r = "filter (\<lambda>c. c \<noteq> CHR 0x0A \<and> c \<noteq> CHR 0x0D) (b64encode digest)"
    have "b64quanta (CHR ''y'' # CHR 0x22 # CHR '','' # ?r) = None"
      by (cases ?r) (auto simp: v split: option.splits)
    then show ?thesis by (simp add: b64decode_def)
  qed
  moreover have "cut CHR '','' (drop 5 (URI ''text/plain;a=\"x,y\"'' digest)) =
      Some (''text/plain;a=\"x'', ''y\",'' @ b64encode digest)"
    by (simp add: URI_def)
  moreover have "hasPrefix (URI ''text/plain;a=\"x,y\"'' digest) ''blob:''"
    by (auto simp: hasPrefix_iff URI_def)
  ultimately show "ParseURI (URI ''text/plain;a=\"x,y\"'' digest) = Inl (Plain ''invalid blob URI digest'')"
    by (simp add: ParseURI_def Let_def)
qed

end
