(* ===== verification/Runlog_Append.thy ===== *)
theory Runlog_Append
  imports World Blob_Uri
begin

section \<open>Appending to a run's log\<close>

text \<open>
  \<open>internal/runlog/service.go\<close>: the limits, the validation, \<open>AppendTx\<close> with its
  idempotency by append id and its spill of large values to the blob store, \<open>AppendEntries\<close>
  and \<open>Append\<close>, over the tables \<open>run_log_streams\<close>, \<open>run_log_appends\<close>,
  \<open>run_log_records\<close> and \<open>blobs\<close> and the queries of \<open>db/queries/log.sql\<close> and
  \<open>blobs.sql\<close>. An entry is a pair of a key and a CBOR value.
\<close>

type_synonym entry = "bytes \<times> bytes"

record logService =
  hasDB :: bool
  hasStore :: bool
  bucket :: string
  inlineLimit :: int
  maxRecord :: int
  maxBatch :: int
  tailBatchSize :: int
  maxResponseBuffer :: int

definition limits :: "logService \<Rightarrow> int \<times> int \<times> int" where
  "limits s =
     (if inlineLimit s \<le> 0 then 65536 else inlineLimit s,
      if maxRecord s \<le> 0 then 67108864 else maxRecord s,
      if maxBatch s \<le> 0 then 134217728 else maxBatch s)"

definition invalid :: "string \<Rightarrow> goerr" where "invalid m = Rpc InvalidArgument m"
definition internal :: "goerr \<Rightarrow> goerr" where "internal e = Rpc Internal (errText e)"
definition unavailable :: "goerr \<Rightarrow> goerr" where "unavailable e = Rpc Unavailable (errText e)"

subsection \<open>Validation\<close>

text \<open>\<open>^[a-zA-Z_][a-zA-Z0-9_.-]{0,127}$\<close>\<close>

definition letters :: string where
  "letters = ''abcdefghijklmnopqrstuvwxyzABCDEFGHIJKLMNOPQRSTUVWXYZ''"

definition streamOK :: "string \<Rightarrow> bool" where
  "streamOK s \<longleftrightarrow>
     (case s of
        [] \<Rightarrow> False
      | c # r \<Rightarrow> (c \<in> set letters \<or> c = CHR ''_'') \<and> length r \<le> 127 \<and>
                 (\<forall>x\<in>set r. x \<in> set letters \<or> x \<in> set ''0123456789_.-''))"

text \<open>The checkpoint scope of the request's context: its run and its key prefix.\<close>

type_synonym scope = "(uuid \<times> bytes) option"

definition withCheckpointScope :: "lib \<Rightarrow> uuid \<Rightarrow> uuid \<Rightarrow> scope" where
  "withCheckpointScope L run action = Some (run, bytesOf (uuidString L action @ ''/''))"

fun checkKeys :: "bytes \<Rightarrow> bytes list \<Rightarrow> goerr option" where
  "checkKeys prefix [] = None"
| "checkKeys prefix (k # ks) =
     (if \<not> hasPrefix k prefix
      then Some (Rpc PermissionDenied ''checkpoint belongs to a different action'')
      else checkKeys prefix ks)"

definition checkCheckpointScope :: "scope \<Rightarrow> uuid \<Rightarrow> string \<Rightarrow> bytes list \<Rightarrow> goerr option" where
  "checkCheckpointScope sc run stream ks =
     (case sc of
        None \<Rightarrow> None
      | Some (r, prefix) \<Rightarrow>
          if run \<noteq> r \<or> stream \<noteq> ''checkpoint''
          then Some (Rpc PermissionDenied ''log is unavailable to task'')
          else checkKeys prefix ks)"

definition orFail :: "goerr option \<Rightarrow> unit act" where
  "orFail e = (case e of None \<Rightarrow> ret () | Some x \<Rightarrow> fail x)"

definition validateRun :: "lib \<Rightarrow> logService \<Rightarrow> scope \<Rightarrow> string \<Rightarrow> uuid act" where
  "validateRun L s sc name =
     (case uuidParse L name of
        None \<Rightarrow> fail (invalid ''invalid run id'')
      | Some run \<Rightarrow>
          if (case sc of None \<Rightarrow> False | Some (r, _) \<Rightarrow> run \<noteq> r)
          then fail (Rpc PermissionDenied ''log is unavailable to task'')
          else if \<not> hasDB s then fail (Rpc Unavailable ''log database unavailable'')
          else andThen (mapErr internal (query (\<lambda>t. t_runs t run \<noteq> None)))
                 (\<lambda>ok. if ok then ret run else fail (Rpc NotFound ''run not found'')))"

text \<open>The checks on the entries, in order; \<open>acc\<close> is the size of the batch so far.\<close>

fun checkEntries :: "lib \<Rightarrow> int \<Rightarrow> int \<Rightarrow> int \<Rightarrow> entry list \<Rightarrow> goerr option" where
  "checkEntries L maxRec maxBat acc [] = None"
| "checkEntries L maxRec maxBat acc ((key, value) # es) =
     (if length key > 1024 then Some (Rpc ResourceExhausted ''key exceeds 1024 bytes'')
      else if value = [] \<or> int (length value) + int (length key) > maxRec
      then Some (Rpc ResourceExhausted ''record size exceeded'')
      else if \<not> cborWellformed L value then Some (invalid ''value is not valid CBOR'')
      else
        (let acc' = acc + (int (length value) + int (length key)) in
         if acc' > maxBat then Some (Rpc ResourceExhausted ''batch size exceeded'')
         else checkEntries L maxRec maxBat acc' es))"

text \<open>What \<open>batchDigest\<close> writes into the hash, and the digest.\<close>

definition digestInput :: "entry list \<Rightarrow> bytes" where
  "digestInput es =
     concat (map (\<lambda>(key, value). be64 (length key) @ key @ be64 (length value) @ value) es)"

definition batchDigest :: "entry list \<Rightarrow> bytes" where
  "batchDigest es = sha256 (digestInput es)"

subsection \<open>The queries\<close>

definition constraint :: goerr where "constraint = Plain ''constraint violation''"

definition createLogStream :: "uuid \<Rightarrow> string \<Rightarrow> int \<Rightarrow> tables \<Rightarrow> goerr + unit \<times> tables" where
  "createLogStream run stream n t =
     (if t_runs t run = None then Inl constraint
      else if t_streams t (run, stream) \<noteq> None then Inr ((), t)
      else Inr ((), t\<lparr>t_streams := (t_streams t)((run, stream) \<mapsto> n)\<rparr>))"

definition updateNextSeq :: "uuid \<Rightarrow> string \<Rightarrow> int \<Rightarrow> tables \<Rightarrow> goerr + unit \<times> tables" where
  "updateNextSeq run stream n t =
     Inr ((), if t_streams t (run, stream) = None then t
              else t\<lparr>t_streams := (t_streams t)((run, stream) \<mapsto> n)\<rparr>)"

definition insertLogAppend :: "uuid \<Rightarrow> string \<Rightarrow> string \<Rightarrow> append_row \<Rightarrow> tables \<Rightarrow> goerr + unit \<times> tables" where
  "insertLogAppend run stream aid row t =
     (if t_appends t (run, stream, aid) \<noteq> None then Inl constraint
      else Inr ((), t\<lparr>t_appends := (t_appends t)((run, stream, aid) \<mapsto> row)\<rparr>))"

definition insertLogRecord :: "log_row \<Rightarrow> tables \<Rightarrow> goerr + unit \<times> tables" where
  "insertLogRecord row t =
     (if \<exists>r\<in>set (t_records t). l_run r = l_run row \<and> l_stream r = l_stream row \<and> l_seq r = l_seq row
      then Inl constraint
      else Inr ((), t\<lparr>t_records := t_records t @ [row]\<rparr>))"

definition insertBlobIfAbsent :: "bytes \<Rightarrow> uuid \<Rightarrow> tables \<Rightarrow> goerr + nat \<times> tables" where
  "insertBlobIfAbsent digest i t =
     (if t_blobs t digest \<noteq> None then Inr (0, t)
      else Inr (1, t\<lparr>t_blobs := (t_blobs t)(digest \<mapsto> i)\<rparr>))"

subsection \<open>\<open>AppendTx\<close>\<close>

definition ObjectKey :: "lib \<Rightarrow> uuid \<Rightarrow> string" where
  "ObjectKey L i = ''blobs/'' @ uuidString L i"

definition blobURI :: "bytes \<Rightarrow> string" where
  "blobURI digest = ''blob:'' @ ''application/cbor'' @ '','' @ b64encode digest"

definition storeValue :: "lib \<Rightarrow> bytes \<Rightarrow> string act" where
  "storeValue L value =
     (let digest = sha256 value in
      andThen (mapErr internal (query (\<lambda>t. t_blobs t digest))) (\<lambda>found.
      if found \<noteq> None then ret (blobURI digest)
      else
        andThen newID (\<lambda>i.
        andThen (mapErr unavailable (putObject (ObjectKey L i) \<lparr>ob_data = value, ob_checksum = []\<rparr>)) (\<lambda>_.
        andThen (mapErr internal (stmt (insertBlobIfAbsent digest i))) (\<lambda>_.
        ret (blobURI digest))))))"

text \<open>Lines 249 to 268: one record per entry.\<close>

fun insertEntries :: "lib \<Rightarrow> logService \<Rightarrow> uuid \<Rightarrow> string \<Rightarrow> int \<Rightarrow> entry list \<Rightarrow> unit act" where
  "insertEntries L s run stream seq [] = ret ()"
| "insertEntries L s run stream seq ((key, value) # es) =
     andThen
       (if int (length value) > fst (limits s) \<and> hasStore s \<and> bucket s \<noteq> []
        then andThen (storeValue L value) (\<lambda>uri. ret ([], Some uri))
        else ret (value, None))
       (\<lambda>(cbor, uri) w.
          andThen
            (mapErr internal (stmt (insertLogRecord
               \<lparr>l_run = run, l_stream = stream, l_seq = seq, l_key = key, l_cbor = cbor,
                l_uri = uri, l_size = int (length value), l_created = clock w\<rparr>)))
            (\<lambda>_. insertEntries L s run stream (seq + 1) es) w)"

definition wrap64 :: "int \<Rightarrow> int" where
  "wrap64 x = ((x + 2 ^ 63) mod 2 ^ 64) - 2 ^ 63"

text \<open>Lines 218 to 228: lock the stream's row, creating it first if there is none.\<close>

definition lockStream :: "uuid \<Rightarrow> string \<Rightarrow> int act" where
  "lockStream run stream =
     andThen (mapErr internal (query (\<lambda>t. t_streams t (run, stream)))) (\<lambda>row.
     case row of
       Some n \<Rightarrow> ret n
     | None \<Rightarrow>
         andThen (mapErr internal (stmt (createLogStream run stream 1))) (\<lambda>_.
         andThen (mapErr internal (query (\<lambda>t. t_streams t (run, stream)))) (\<lambda>row'.
         case row' of Some n \<Rightarrow> ret n | None \<Rightarrow> fail (internal (Plain ''no rows in result set'')))))"

text \<open>Lines 243 to 280, once the append is known to be new.\<close>

definition appendNew :: "lib \<Rightarrow> logService \<Rightarrow> uuid \<Rightarrow> string \<Rightarrow> string \<Rightarrow> entry list \<Rightarrow> int \<Rightarrow>
    (int \<times> int) act" where
  "appendNew L s run stream aid es first =
     (let last = wrap64 (wrap64 (first + int (length es)) - 1) in
      if last < first \<or> last = 2 ^ 63 - 1 then fail (invalid ''sequence exhausted'')
      else
        andThen (insertEntries L s run stream first es) (\<lambda>_.
        andThen (mapErr internal (stmt (updateNextSeq run stream (last + 1)))) (\<lambda>_.
        andThen (if aid \<noteq> []
                 then mapErr internal (stmt (insertLogAppend run stream aid
                        \<lparr>p_digest = batchDigest es, p_first = first, p_last = last\<rparr>))
                 else ret ()) (\<lambda>_.
        andThen (mapErr internal call) (\<lambda>_.
        ret (first, last))))))"

definition AppendTx :: "lib \<Rightarrow> logService \<Rightarrow> uuid \<Rightarrow> string \<Rightarrow> string \<Rightarrow> entry list \<Rightarrow> (int \<times> int) act" where
  "AppendTx L s run stream aid es =
     (if \<not> streamOK stream then fail (invalid ''invalid stream'')
      else if es = [] then fail (invalid ''append batch is empty'')
      else
        (case checkEntries L (fst (snd (limits s))) (snd (snd (limits s))) 0 es of
           Some e \<Rightarrow> fail e
         | None \<Rightarrow>
             if length aid > 200 then fail (invalid ''append id is too long'')
             else
               andThen (lockStream run stream) (\<lambda>first.
               if aid = [] then appendNew L s run stream aid es first
               else
                 andThen (mapErr internal (query (\<lambda>t. t_appends t (run, stream, aid)))) (\<lambda>previous.
                 case previous of
                   Some row \<Rightarrow>
                     if p_digest row \<noteq> batchDigest es
                     then fail (Rpc AlreadyExists ''append id already belongs to different values'')
                     else ret (p_first row, p_last row)
                 | None \<Rightarrow> appendNew L s run stream aid es first))))"

definition AppendEntries :: "lib \<Rightarrow> logService \<Rightarrow> uuid \<Rightarrow> string \<Rightarrow> string \<Rightarrow> entry list \<Rightarrow> (int \<times> int) act" where
  "AppendEntries L s run stream aid es =
     transaction unavailable unavailable (AppendTx L s run stream aid es)"

definition Append :: "lib \<Rightarrow> logService \<Rightarrow> scope \<Rightarrow> string \<Rightarrow> string \<Rightarrow> string \<Rightarrow> entry list \<Rightarrow>
    (int \<times> int) act" where
  "Append L s sc name stream aid es =
     andThen (validateRun L s sc name) (\<lambda>run.
     andThen (orFail (checkCheckpointScope sc run stream (map fst es))) (\<lambda>_.
     AppendEntries L s run stream aid es))"

subsection \<open>What a successful append has written\<close>

definition sameButLog :: "tables \<Rightarrow> tables \<Rightarrow> bool" where
  "sameButLog t t' \<longleftrightarrow>
     t_runs t' = t_runs t \<and> t_actions t' = t_actions t \<and> t_uploads t' = t_uploads t \<and>
     (\<forall>d i. t_blobs t d = Some i \<longrightarrow> t_blobs t' d = Some i)"

lemma sameButLog_refl [simp]: "sameButLog t t"
  by (simp add: sameButLog_def)

lemma sameButLog_trans: "sameButLog t u \<Longrightarrow> sameButLog u v \<Longrightarrow> sameButLog t v"
  by (auto simp: sameButLog_def)

text \<open>The row of an entry: inline, or a reference to the blob with the digest of the value.\<close>

definition rowOf :: "uuid \<Rightarrow> string \<Rightarrow> entry \<Rightarrow> log_row \<Rightarrow> bool" where
  "rowOf run stream e r \<longleftrightarrow>
     l_run r = run \<and> l_stream r = stream \<and> l_key r = fst e \<and> l_size r = int (length (snd e)) \<and>
     (l_cbor r = snd e \<and> l_uri r = None \<or>
      l_cbor r = [] \<and> l_uri r = Some (blobURI (sha256 (snd e))))"

definition rowsOf :: "uuid \<Rightarrow> string \<Rightarrow> int \<Rightarrow> entry list \<Rightarrow> log_row list \<Rightarrow> bool" where
  "rowsOf run stream seq es rows \<longleftrightarrow>
     list_all2 (rowOf run stream) es rows \<and> map l_seq rows = [seq..seq + int (length es) - 1]"

text \<open>A row that refers to a blob finds it.\<close>

definition spilledOK :: "logService \<Rightarrow> tables \<Rightarrow> bytes \<Rightarrow> log_row \<Rightarrow> bool" where
  "spilledOK s t value r \<longleftrightarrow>
     (l_uri r \<noteq> None \<longrightarrow>
        fst (limits s) < int (length value) \<and> hasStore s \<and> bucket s \<noteq> [] \<and> t_blobs t (sha256 value) \<noteq> None)"

lemma spilledOK_mono: "spilledOK s t value r \<Longrightarrow> sameButLog t t' \<Longrightarrow> spilledOK s t' value r"
  by (auto simp: spilledOK_def sameButLog_def)

text \<open>What spilling a value to the blob store touches: the blobs table, which only grows.\<close>

definition blobFrame :: "tables \<Rightarrow> tables \<Rightarrow> bool" where
  "blobFrame t t' \<longleftrightarrow>
     sameButLog t t' \<and> t_streams t' = t_streams t \<and> t_appends t' = t_appends t \<and>
     t_records t' = t_records t"

interpretation bf: frame blobFrame
  by unfold_locales (auto simp: blobFrame_def sameButLog_def)

lemma insertBlobIfAbsent_frame: "insertBlobIfAbsent d i t = Inr (n, t') \<Longrightarrow> blobFrame t t'"
  by (auto simp: insertBlobIfAbsent_def blobFrame_def sameButLog_def split: if_splits)

lemma insertBlobIfAbsent_known: "insertBlobIfAbsent d i t = Inr (n, t') \<Longrightarrow> t_blobs t' d \<noteq> None"
  by (auto simp: insertBlobIfAbsent_def split: if_splits)

lemma storeValue_frame: "keeps blobFrame (storeValue L value)"
  unfolding storeValue_def Let_def
  by (intro bf.rules bf.statement) (erule insertBlobIfAbsent_frame)

lemma storeValue_uri: "storeValue L value w = (Inr uri, w') \<Longrightarrow> uri = blobURI (sha256 value)"
  unfolding storeValue_def Let_def by (elim andThen_InrE) (auto split: if_splits elim!: andThen_InrE)

lemma storeValue_known:
  assumes "storeValue L value w = (Inr uri, w')"
  shows "t_blobs (tabs w') (sha256 value) \<noteq> None"
proof -
  from assms [unfolded storeValue_def Let_def] obtain found v where
    q: "mapErr internal (query (\<lambda>t. t_blobs t (sha256 value))) w = (Inr found, v)"
    and k: "(if found \<noteq> None then ret (blobURI (sha256 value)) else
      andThen newID (\<lambda>i.
        andThen (mapErr unavailable (putObject (ObjectKey L i) \<lparr>ob_data = value, ob_checksum = []\<rparr>)) (\<lambda>_.
        andThen (mapErr internal (stmt (insertBlobIfAbsent (sha256 value) i))) (\<lambda>_.
        ret (blobURI (sha256 value)))))) v = (Inr uri, w')"
    by (rule andThen_InrE)
  show ?thesis
  proof (cases found)
    case (Some i)
    with query_tabs [OF q] have "t_blobs (tabs w) (sha256 value) = Some i" "tabs v = tabs w" by simp_all
    with k Some show ?thesis by simp
  next
    case None
    with k obtain x i y and z :: world where "mapErr internal (stmt (insertBlobIfAbsent (sha256 value) i)) x = (Inr y, z)"
      and w': "w' = z"
      by (auto elim!: andThen_InrE)
    from insertBlobIfAbsent_known [OF stmt_tabs [OF this(1)]] w' show ?thesis by simp
  qed
qed

lemma upto_Cons:
  "seq + int (Suc n) - 1 = (seq + 1) + int n - 1 \<and>
   [seq..seq + int (Suc n) - 1] = seq # [seq + 1..seq + int (Suc n) - 1]"
  by (simp add: upto_rec1)

text \<open>One entry: the value is spilled or not, then its row is inserted.\<close>

lemma insertEntries_Cons:
  assumes "insertEntries L s run stream seq ((key, value) # es) w = (Inr u, w')"
  obtains row and v x :: world where "rowOf run stream (key, value) row" "l_seq row = seq"
    "blobFrame (tabs w) (tabs v)" "spilledOK s (tabs v) value row" "insertLogRecord row (tabs v) = Inr ((), tabs x)"
    "insertEntries L s run stream (seq + 1) es x = (Inr u, w')"
proof -
  from assms [unfolded insertEntries.simps] obtain p v where
    sp: "(if int (length value) > fst (limits s) \<and> hasStore s \<and> bucket s \<noteq> []
        then andThen (storeValue L value) (\<lambda>uri. ret ([], Some uri)) else ret (value, None)) w
        = (Inr p, v)"
    and rest: "(case p of (cbor, uri) \<Rightarrow> \<lambda>w. andThen (mapErr internal (stmt (insertLogRecord
               \<lparr>l_run = run, l_stream = stream, l_seq = seq, l_key = key, l_cbor = cbor,
                l_uri = uri, l_size = int (length value), l_created = clock w\<rparr>)))
            (\<lambda>_. insertEntries L s run stream (seq + 1) es) w) v = (Inr u, w')"
    by (rule andThen_InrE)
  obtain cbor uri where p: "p = (cbor, uri)" by fastforce
  let ?row = "\<lparr>l_run = run, l_stream = stream, l_seq = seq, l_key = key, l_cbor = cbor,
                l_uri = uri, l_size = int (length value), l_created = clock v\<rparr>"
  have spill: "cbor = value \<and> uri = None \<and> v = w \<or>
      cbor = [] \<and> fst (limits s) < int (length value) \<and> hasStore s \<and> bucket s \<noteq> [] \<and> (\<exists>y. storeValue L value w = (Inr y, v) \<and> uri = Some y)"
    using sp by (auto simp: p andThen_Inr split: if_splits)
  then have "blobFrame (tabs w) (tabs v)"
    using keepsD [OF storeValue_frame] bf.refl by blast
  moreover have "rowOf run stream (key, value) ?row"
    using spill by (auto simp: rowOf_def dest: storeValue_uri)
  moreover have "spilledOK s (tabs v) value ?row"
    using spill by (auto simp: spilledOK_def dest: storeValue_known)
  moreover obtain y x where "mapErr internal (stmt (insertLogRecord ?row)) v = (Inr y, x)"
    and "insertEntries L s run stream (seq + 1) es x = (Inr u, w')"
    using rest [unfolded p prod.case] by (rule andThen_InrE)
  ultimately show thesis using that [of ?row v x] stmt_tabs by fastforce
qed

lemma insertEntries_Inr:
  assumes "insertEntries L s run stream seq es w = (Inr u, w')"
  shows "\<exists>rows. t_records (tabs w') = t_records (tabs w) @ rows \<and> rowsOf run stream seq es rows \<and>
    list_all2 (\<lambda>e. spilledOK s (tabs w') (snd e)) es rows \<and>
    sameButLog (tabs w) (tabs w') \<and> t_streams (tabs w') = t_streams (tabs w) \<and>
    t_appends (tabs w') = t_appends (tabs w)"
  using assms
proof (induction es arbitrary: seq w)
  case Nil
  then show ?case by (simp add: rowsOf_def)
next
  case (Cons e es)
  obtain key "value" where e: "e = (key, value)" by fastforce
  from Cons.prems [unfolded e] obtain row and v x :: world where
    row: "rowOf run stream (key, value) row" "l_seq row = seq" and f: "blobFrame (tabs w) (tabs v)"
    and sp: "spilledOK s (tabs v) value row"
    and ins: "insertLogRecord row (tabs v) = Inr ((), tabs x)"
    and go: "insertEntries L s run stream (seq + 1) es x = (Inr u, w')"
    by (rule insertEntries_Cons)
  have x: "tabs x = (tabs v)\<lparr>t_records := t_records (tabs v) @ [row]\<rparr>"
    using ins by (auto simp: insertLogRecord_def split: if_splits)
  from Cons.IH [OF go] obtain rows where
    r: "t_records (tabs w') = t_records (tabs x) @ rows" "rowsOf run stream (seq + 1) es rows"
      "list_all2 (\<lambda>e. spilledOK s (tabs w') (snd e)) es rows"
      "sameButLog (tabs x) (tabs w')" "t_streams (tabs w') = t_streams (tabs x)"
      "t_appends (tabs w') = t_appends (tabs x)" by blast
  have "rowsOf run stream seq (e # es) (row # rows)"
    using r(2) row upto_Cons [of seq "length es"] by (simp add: rowsOf_def e)
  moreover have "sameButLog (tabs w) (tabs w')"
    using f r(4) by (auto simp: x blobFrame_def sameButLog_def)
  moreover have "sameButLog (tabs v) (tabs x)" by (simp add: x sameButLog_def)
  then have "spilledOK s (tabs w') value row"
    using spilledOK_mono [OF sp] r(4) spilledOK_mono by blast
  ultimately show ?case using f r by (auto simp: x e blobFrame_def)
qed

subsection \<open>The log's invariant\<close>

definition nextSeq :: "tables \<Rightarrow> uuid \<Rightarrow> string \<Rightarrow> int" where
  "nextSeq t run stream = (case t_streams t (run, stream) of None \<Rightarrow> 1 | Some n \<Rightarrow> n)"

definition streamRows :: "tables \<Rightarrow> uuid \<Rightarrow> string \<Rightarrow> log_row list" where
  "streamRows t run stream = filter (\<lambda>r. l_run r = run \<and> l_stream r = stream) (t_records t)"

text \<open>
  Every stream's records are numbered 1, 2, and so on without a gap up to \<open>next_seq\<close>, in
  the order in which they were written, and every recorded append lies in that range.
\<close>

definition logOK :: "tables \<Rightarrow> bool" where
  "logOK t \<longleftrightarrow>
     (\<forall>run stream. 1 \<le> nextSeq t run stream \<and> nextSeq t run stream < 2 ^ 63 \<and>
        map l_seq (streamRows t run stream) = [1..nextSeq t run stream - 1]) \<and>
     (\<forall>run stream aid row. t_appends t (run, stream, aid) = Some row \<longrightarrow>
        t_streams t (run, stream) \<noteq> None \<and> 1 \<le> p_first row \<and> p_first row \<le> p_last row \<and>
        p_last row < nextSeq t run stream)"

lemma last_exact:
  fixes first n :: int
  assumes "1 \<le> first" "first < 2 ^ 63" "1 \<le> n" "n < 2 ^ 63"
    and "fin = wrap64 (wrap64 (first + n) - 1)" and "\<not> fin < first" "fin \<noteq> 2 ^ 63 - 1"
  shows "fin = first + n - 1" "fin < 2 ^ 63 - 1"
proof -
  show l: "fin = first + n - 1"
  proof (cases "first + n < 2 ^ 63")
    case True
    then have "wrap64 (first + n) = first + n" using assms by (simp add: wrap64_def)
    with True assms show ?thesis by (simp add: wrap64_def)
  next
    case False
    have "wrap64 (first + n) = first + n - 2 ^ 64"
    proof -
      have "(first + n + 2 ^ 63) mod 2 ^ 64 = first + n + 2 ^ 63 - 2 ^ 64"
        using assms(2,4) False
        by (subst mod_pos_geq) (auto intro!: mod_pos_pos_trivial)
      then show ?thesis by (simp add: wrap64_def)
    qed
    then have e: "fin = wrap64 (first + n - 2 ^ 64 - 1)" using assms(5) by simp
    show ?thesis
    proof (cases "first + n = 2 ^ 63")
      case True
      with e assms(7) show ?thesis by (simp add: wrap64_def)
    next
      case f: False
      with False have "2 ^ 63 < first + n" by simp
      then have "wrap64 (first + n - 2 ^ 64 - 1) = first + n - 2 ^ 64 - 1"
        using assms(2,4) by (simp add: wrap64_def)
      with e assms(1,2,4,6) show ?thesis by simp
    qed
  qed
  have "fin < 2 ^ 63"
    using assms(5) pos_mod_bound [of "2 ^ 64" "wrap64 (first + n) - 1 + 2 ^ 63"]
    by (simp add: wrap64_def)
  with assms(7) show "fin < 2 ^ 63 - 1" by simp
qed

subsection \<open>What \<open>AppendTx\<close> does when it succeeds\<close>

abbreviation locked :: "uuid \<Rightarrow> string \<Rightarrow> tables \<Rightarrow> tables" where
  "locked run stream t \<equiv> t\<lparr>t_streams := (t_streams t)((run, stream) \<mapsto> nextSeq t run stream)\<rparr>"

lemma lockStream_Inr:
  assumes "lockStream run stream w = (Inr n, v)"
  shows "n = nextSeq (tabs w) run stream \<and> tabs v = locked run stream (tabs w)"
  using assms unfolding lockStream_def
proof (rule andThen_InrE)
  fix row u
  assume q: "mapErr internal (query (\<lambda>t. t_streams t (run, stream))) w = (Inr row, u)"
    and r: "(case row of Some n \<Rightarrow> ret n | None \<Rightarrow>
         andThen (mapErr internal (stmt (createLogStream run stream 1))) (\<lambda>_.
         andThen (mapErr internal (query (\<lambda>t. t_streams t (run, stream)))) (\<lambda>row'.
         case row' of Some n \<Rightarrow> ret n | None \<Rightarrow> fail (internal (Plain ''no rows in result set''))))) u
       = (Inr n, v)"
  from query_tabs [OF q] have row: "row = t_streams (tabs w) (run, stream)" and u: "tabs u = tabs w"
    by simp_all
  show ?thesis
  proof (cases row)
    case (Some m)
    with row have "(t_streams (tabs w))((run, stream) \<mapsto> m) = t_streams (tabs w)"
      by (simp add: map_upd_triv)
    with Some r row u show ?thesis by (simp add: nextSeq_def)
  next
    case None
    with r obtain y x row' z where
      c: "mapErr internal (stmt (createLogStream run stream 1)) u = (Inr y, x)"
      and q': "mapErr internal (query (\<lambda>t. t_streams t (run, stream))) x = (Inr row', z)"
      and f: "(case row' of Some n \<Rightarrow> ret n | None \<Rightarrow> fail (internal (Plain ''no rows in result set''))) z
        = (Inr n, v)"
      by (auto elim!: andThen_InrE)
    have "tabs x = (tabs w)\<lparr>t_streams := (t_streams (tabs w))((run, stream) \<mapsto> 1)\<rparr>"
      using stmt_tabs [OF c] None row u by (auto simp: createLogStream_def split: if_splits)
    then show ?thesis
      using query_tabs [OF q'] f None row by (simp add: nextSeq_def)
  qed
qed

definition appended :: "logService \<Rightarrow> uuid \<Rightarrow> string \<Rightarrow> string \<Rightarrow> entry list \<Rightarrow> int \<Rightarrow> int \<Rightarrow> tables \<Rightarrow> tables \<Rightarrow> bool" where
  "appended s run stream aid es first fin t t' \<longleftrightarrow>
     (\<exists>rows. t_records t' = t_records t @ rows \<and> rowsOf run stream first es rows \<and>
        list_all2 (\<lambda>e. spilledOK s t' (snd e)) es rows) \<and>
     t_streams t' = (t_streams t)((run, stream) \<mapsto> fin + 1) \<and>
     t_appends t' = (if aid = [] then t_appends t else (t_appends t)((run, stream, aid) \<mapsto>
        \<lparr>p_digest = batchDigest es, p_first = first, p_last = fin\<rparr>)) \<and>
     sameButLog t t'"

lemma appendNew_Inr:
  assumes "appendNew L s run stream aid es first w = (Inr r, w')"
    and "t_streams (tabs w) (run, stream) \<noteq> None"
  obtains fin where "r = (first, fin)" "fin = wrap64 (wrap64 (first + int (length es)) - 1)"
    "\<not> fin < first" "fin \<noteq> 2 ^ 63 - 1" "appended s run stream aid es first fin (tabs w) (tabs w')"
proof -
  let ?fin = "wrap64 (wrap64 (first + int (length es)) - 1)"
  let ?row = "\<lparr>p_digest = batchDigest es, p_first = first, p_last = ?fin\<rparr>"
  from assms(1) have ok: "\<not> ?fin < first" "?fin \<noteq> 2 ^ 63 - 1"
    by (auto simp: appendNew_def Let_def split: if_splits)
  from assms(1) ok obtain u1 u2 u3 u4 and x1 x2 x3 x4 :: world where
    i: "insertEntries L s run stream first es w = (Inr u1, x1)"
    and n: "mapErr internal (stmt (updateNextSeq run stream (?fin + 1))) x1 = (Inr u2, x2)"
    and a: "(if aid \<noteq> [] then mapErr internal (stmt (insertLogAppend run stream aid ?row))
             else ret ()) x2 = (Inr u3, x3)"
    and c: "mapErr internal call x3 = (Inr u4, x4)" and r: "r = (first, ?fin)" "w' = x4"
    unfolding appendNew_def Let_def by (auto elim!: andThen_InrE split del: if_split)
  obtain rows where rows: "t_records (tabs x1) = t_records (tabs w) @ rows"
    "rowsOf run stream first es rows" "list_all2 (\<lambda>e. spilledOK s (tabs x1) (snd e)) es rows" and s1: "sameButLog (tabs w) (tabs x1)"
    and t1: "t_streams (tabs x1) = t_streams (tabs w)" "t_appends (tabs x1) = t_appends (tabs w)"
    using insertEntries_Inr [OF i] by blast
  have t2: "tabs x2 = (tabs x1)\<lparr>t_streams := (t_streams (tabs x1))((run, stream) \<mapsto> ?fin + 1)\<rparr>"
    using stmt_tabs [OF n] assms(2) t1 by (auto simp: updateNextSeq_def split: if_splits)
  have t3: "tabs x3 = (if aid = [] then tabs x2
      else (tabs x2)\<lparr>t_appends := (t_appends (tabs x2))((run, stream, aid) \<mapsto> ?row)\<rparr>)"
    using a by (auto simp: insertLogAppend_def split: if_splits dest!: stmt_tabs)
  have "appended s run stream aid es first ?fin (tabs w) (tabs w')"
    unfolding appended_def
  proof (intro conjI exI)
    have same: "sameButLog (tabs x1) (tabs w')"
      using t2 t3 call_tabs' [OF c] r(2) by (simp add: sameButLog_def)
    show "list_all2 (\<lambda>e. spilledOK s (tabs w') (snd e)) es rows"
      using rows(3) by (rule list_all2_mono) (rule spilledOK_mono [OF _ same])
    show "sameButLog (tabs w) (tabs w')" by (rule sameButLog_trans [OF s1 same])
  qed (use rows t1 t2 t3 call_tabs' [OF c] r(2) in simp_all)
  with that ok r show thesis by blast
qed

lemma appended_locked:
  "appended s run stream aid es first fin (locked run stream t) t' \<longleftrightarrow>
   appended s run stream aid es first fin t t'"
  by (simp add: appended_def sameButLog_def)

text \<open>An append either finds its id, with its own digest, or writes the batch.\<close>

lemma AppendTx_Inr:
  assumes "AppendTx L s run stream aid es w = (Inr r, w')"
  obtains (old) row where "aid \<noteq> []" "t_appends (tabs w) (run, stream, aid) = Some row"
      "p_digest row = batchDigest es" "r = (p_first row, p_last row)"
      "tabs w' = locked run stream (tabs w)"
  | (new) first fin where "aid = [] \<or> t_appends (tabs w) (run, stream, aid) = None"
      "first = nextSeq (tabs w) run stream" "r = (first, fin)"
      "fin = wrap64 (wrap64 (first + int (length es)) - 1)" "\<not> fin < first" "fin \<noteq> 2 ^ 63 - 1"
      "appended s run stream aid es first fin (tabs w) (tabs w')"
proof -
  let ?go = "\<lambda>first. if aid = [] then appendNew L s run stream aid es first
     else andThen (mapErr internal (query (\<lambda>t. t_appends t (run, stream, aid)))) (\<lambda>previous.
       case previous of
         Some row \<Rightarrow>
           if p_digest row \<noteq> batchDigest es
           then fail (Rpc AlreadyExists ''append id already belongs to different values'')
           else ret (p_first row, p_last row)
       | None \<Rightarrow> appendNew L s run stream aid es first)"
  from assms have "andThen (lockStream run stream) ?go w = (Inr r, w')"
    unfolding AppendTx_def by (auto split: if_splits option.splits)
  then obtain first v where l: "lockStream run stream w = (Inr first, v)" and g: "?go first v = (Inr r, w')"
    by (rule andThen_InrE)
  have first: "first = nextSeq (tabs w) run stream" and v: "tabs v = locked run stream (tabs w)"
    using lockStream_Inr [OF l] by simp_all
  have app: thesis if "appendNew L s run stream aid es first x = (Inr r, w')" and "tabs x = tabs v"
    and "aid = [] \<or> t_appends (tabs w) (run, stream, aid) = None" for x :: world
    using that(1)
  proof (rule appendNew_Inr)
    show "t_streams (tabs x) (run, stream) \<noteq> None" by (simp add: that v)
    fix fin
    assume "r = (first, fin)" "fin = wrap64 (wrap64 (first + int (length es)) - 1)"
      "\<not> fin < first" "fin \<noteq> 2 ^ 63 - 1" "appended s run stream aid es first fin (tabs x) (tabs w')"
    then show thesis using new [of first fin] that first v by (simp add: appended_locked)
  qed
  show thesis
  proof (cases "aid = []")
    case True
    with g app [of v] show thesis by simp
  next
    case False
    with g obtain previous x where
      q: "mapErr internal (query (\<lambda>t. t_appends t (run, stream, aid))) v = (Inr previous, x)"
      and k: "(case previous of
         Some row \<Rightarrow>
           if p_digest row \<noteq> batchDigest es
           then fail (Rpc AlreadyExists ''append id already belongs to different values'')
           else ret (p_first row, p_last row)
       | None \<Rightarrow> appendNew L s run stream aid es first) x = (Inr r, w')"
      by (auto elim!: andThen_InrE)
    have p: "previous = t_appends (tabs w) (run, stream, aid)" "tabs x = tabs v"
      using query_tabs [OF q] v by simp_all
    show thesis
    proof (cases previous)
      case None
      with k p app show thesis by simp
    next
      case (Some row)
      with p(1) have "t_appends (tabs w) (run, stream, aid) = Some row" by simp
      with k p(2) v old False Some show thesis by (auto split: if_splits)
    qed
  qed
qed

lemma AppendTx_nonempty: "AppendTx L s run stream aid es w = (Inr r, w') \<Longrightarrow> es \<noteq> []"
  by (auto simp: AppendTx_def split: if_splits)

lemma rowsOf_streamRows:
  assumes "rowsOf run stream first es rows"
  shows "filter (\<lambda>r. l_run r = run' \<and> l_stream r = stream') rows =
    (if run' = run \<and> stream' = stream then rows else [])"
proof -
  have "l_run r = run \<and> l_stream r = stream" if "r \<in> set rows" for r
  proof -
    from that obtain i where i: "i < length rows" "r = rows ! i" by (auto simp: in_set_conv_nth)
    with assms have "rowOf run stream (es ! i) r" by (auto simp: rowsOf_def list_all2_conv_all_nth)
    then show ?thesis by (simp add: rowOf_def)
  qed
  then show ?thesis by (auto intro: filter_True filter_False)
qed

lemma rows_key:
  assumes "rowsOf run stream first es rows" and "\<And>e. e \<in> set es \<Longrightarrow> P (fst e)"
  shows "\<forall>r\<in>set rows. P (l_key r)"
proof
  fix r assume "r \<in> set rows"
  then obtain i where i: "i < length rows" "r = rows ! i" by (auto simp: in_set_conv_nth)
  with assms(1) have "rowOf run stream (es ! i) r" "i < length es" by (auto simp: rowsOf_def list_all2_conv_all_nth)
  with assms(2) [of "es ! i"] show "P (l_key r)" by (simp add: rowOf_def)
qed

lemma streamRows_appended:
  assumes "appended s run stream aid es first fin t t'"
  obtains rows where "rowsOf run stream first es rows"
    "\<And>run' stream'. streamRows t' run' stream' =
       streamRows t run' stream' @ (if run' = run \<and> stream' = stream then rows else [])"
proof -
  from assms obtain rows where r: "t_records t' = t_records t @ rows" "rowsOf run stream first es rows"
    by (auto simp: appended_def)
  show thesis
    by (rule that [OF r(2)]) (simp add: streamRows_def r(1) rowsOf_streamRows [OF r(2)])
qed

lemma nextSeq_appended:
  "appended s run stream aid es first fin t t' \<Longrightarrow>
   nextSeq t' run' stream' = (if run' = run \<and> stream' = stream then fin + 1 else nextSeq t run' stream')"
  by (auto simp: appended_def nextSeq_def)

lemma logOK_appended:
  assumes ok: "logOK t" and a: "appended s run stream aid es first fin t t'"
    and first: "first = nextSeq t run stream" and fin: "fin = first + int (length es) - 1"
    and es: "es \<noteq> []" and less: "fin < 2 ^ 63 - 1"
  shows "logOK t'"
proof -
  obtain rows where rows: "rowsOf run stream first es rows"
    and sr: "\<And>run' stream'. streamRows t' run' stream' =
       streamRows t run' stream' @ (if run' = run \<and> stream' = stream then rows else [])"
    using streamRows_appended [OF a] by blast
  have ns: "nextSeq t' run' stream' = (if run' = run \<and> stream' = stream then fin + 1
      else nextSeq t run' stream')" for run' stream'
    using nextSeq_appended [OF a] .
  have one: "1 \<le> first" using ok first by (simp add: logOK_def)
  have len: "1 \<le> length es" using es by (cases es) auto
  have num: "1 \<le> nextSeq t' run' stream' \<and> nextSeq t' run' stream' < 2 ^ 63 \<and>
      map l_seq (streamRows t' run' stream') = [1..nextSeq t' run' stream' - 1]" for run' stream'
  proof (cases "run' = run \<and> stream' = stream")
    case True
    have "map l_seq (streamRows t run stream) = [1..first - 1]"
      using ok first by (simp add: logOK_def)
    moreover have "map l_seq rows = [first..fin]" using rows fin by (simp add: rowsOf_def)
    moreover have "[1..first - 1] @ [first..fin] = [1..fin]"
      using upto_split1 [of 1 first fin] one fin len es by simp
    ultimately show ?thesis using True one fin less by (simp add: sr ns)
  next
    case False
    then show ?thesis using ok by (simp add: sr ns logOK_def del: de_Morgan_conj)
  qed
  have app: "t_streams t' (run', stream') \<noteq> None \<and> 1 \<le> p_first row \<and> p_first row \<le> p_last row \<and>
      p_last row < nextSeq t' run' stream'"
    if row: "t_appends t' (run', stream', aid') = Some row" for run' stream' aid' row
  proof (cases "t_appends t (run', stream', aid') = Some row")
    case True
    with ok have "t_streams t (run', stream') \<noteq> None \<and> 1 \<le> p_first row \<and> p_first row \<le> p_last row \<and>
      p_last row < nextSeq t run' stream'" by (simp add: logOK_def)
    with first fin len a show ?thesis by (auto simp: ns appended_def)
  next
    case False
    with row a have "run' = run" "stream' = stream" "p_first row = first" "p_last row = fin"
      by (auto simp: appended_def split: if_splits)
    with one fin len a show ?thesis by (auto simp: ns appended_def)
  qed
  from num app show ?thesis unfolding logOK_def by blast
qed

lemma logOK_locked: "logOK t \<Longrightarrow> logOK (locked run stream t)"
  by (auto simp: logOK_def nextSeq_def streamRows_def split: option.splits if_splits)

text \<open>The range of a successful append to a well-formed log.\<close>

lemma AppendTx_logOK:
  assumes "AppendTx L s run stream aid es w = (Inr r, w')"
    and "logOK (tabs w)" and "int (length es) < 2 ^ 63"
  shows "logOK (tabs w')"
  using assms(1)
proof (cases rule: AppendTx_Inr)
  case old
  then show ?thesis using logOK_locked [OF assms(2)] by simp
next
  case (new first fin)
  have es: "es \<noteq> []" using AppendTx_nonempty [OF assms(1)] .
  then have "1 \<le> int (length es)" by (cases es) auto
  with new assms(2,3) have "fin = first + int (length es) - 1" "fin < 2 ^ 63 - 1"
    using last_exact [of first "int (length es)" fin] by (auto simp: logOK_def)
  then show ?thesis using logOK_appended [OF assms(2) new(7) new(2)] es by blast
qed

lemma AppendEntries_tabs:
  assumes "AppendEntries L s run stream aid es w = (res, w')"
  shows "tabs w' = tabs w \<or> (\<exists>w1 w2 r. tabs w1 = tabs w \<and>
    AppendTx L s run stream aid es w1 = (Inr r, w2) \<and> tabs w' = tabs w2)"
proof (cases res)
  case (Inl e)
  with assms have "transaction unavailable unavailable (AppendTx L s run stream aid es) w = (Inl e, w')"
    by (simp add: AppendEntries_def)
  from transaction_Inl [OF this] show ?thesis by (auto dest: call_result)
next
  case (Inr r)
  with assms have "transaction unavailable unavailable (AppendTx L s run stream aid es) w = (Inr r, w')"
    by (simp add: AppendEntries_def)
  then show ?thesis by (rule transaction_Inr) auto
qed

subsection \<open>What an append keeps\<close>

text \<open>Whatever storing a value and the statements on the log keep, an append keeps.\<close>

text \<open>The tables that no append writes.\<close>

definition otherTables :: "tables \<Rightarrow> tables" where
  "otherTables t = t\<lparr>t_streams := Map.empty, t_appends := Map.empty, t_records := [], t_blobs := Map.empty\<rparr>"

lemma otherTables_iff:
  "otherTables t' = otherTables t \<longleftrightarrow>
     t_runs t' = t_runs t \<and> t_actions t' = t_actions t \<and> t_uploads t' = t_uploads t \<and>
     t_namespaces t' = t_namespaces t \<and> t_settings t' = t_settings t \<and> t_envs t' = t_envs t \<and>
     t_envKeys t' = t_envKeys t \<and> t_runKeys t' = t_runKeys t \<and> t_actionKeys t' = t_actionKeys t \<and>
     t_edges t' = t_edges t \<and> t_builds t' = t_builds t \<and> t_cache t' = t_cache t \<and>
     t_runIds t' = t_runIds t \<and> t_actionIds t' = t_actionIds t"
  by (cases t; cases t') (simp add: otherTables_def; blast)

locale append_frame = world_frame W for W +
  fixes L :: lib
  assumes stores: "within W (storeValue L v)"
    and writes: "(\<And>t x t'. f t = Inr (x :: unit, t') \<Longrightarrow>
      otherTables t' = otherTables t \<and> t_blobs t' = t_blobs t) \<Longrightarrow> within W (stmt f)"
begin

lemma insertEntries: "within W (insertEntries L s run stream seq es)"
proof (induction es arbitrary: seq)
  case Nil
  then show ?case unfolding insertEntries.simps by (rule ret)
next
  case (Cons e es)
  obtain key "value" where e: "e = (key, value)" by fastforce
  have row: "within W (stmt (insertLogRecord row))" for row
    by (rule writes) (auto simp: insertLogRecord_def otherTables_iff split: if_splits)
  have step: "within W (andThen (mapErr internal (stmt (insertLogRecord row)))
      (\<lambda>_. insertEntries L s run stream (seq + 1) es))" for row
    by (rule seq [OF maps [OF row] Cons.IH])
  have "within W (\<lambda>w. andThen (mapErr internal (stmt (insertLogRecord (row w))))
      (\<lambda>_. insertEntries L s run stream (seq + 1) es) w)" for row
    using step by (simp add: within_def)
  then show ?case
    unfolding e insertEntries.simps by (intro seq cond pair stores ret)
qed

lemma AppendTx: "within W (AppendTx L s run stream aid es)"
  unfolding AppendTx_def lockStream_def appendNew_def Let_def
  by (intro rules insertEntries writes)
    (auto simp: createLogStream_def updateNextSeq_def insertLogAppend_def otherTables_iff split: if_splits)

end

end
