(* ===== verification/Runlog_Read.thy ===== *)
theory Runlog_Read
  imports Runlog_Append
begin

section \<open>Reading a run's log\<close>

text \<open>
  \<open>Read\<close> and \<open>rowValue\<close> of \<open>internal/runlog/service.go\<close> with the queries
  \<open>ReadLogRecords\<close> and \<open>GetBlobBySHA256\<close>, and the round trip of a value through
  \<open>AppendTx\<close> and \<open>rowValue\<close>, inline or spilled to the object store.
\<close>

record log_record =
  rec_stream :: string
  rec_seq :: int
  rec_key :: bytes
  rec_value :: bytes
  rec_created :: time

definition rowValue :: "lib \<Rightarrow> logService \<Rightarrow> bytes \<Rightarrow> string option \<Rightarrow> bytes act" where
  "rowValue L s cbor uri =
     (if cbor \<noteq> [] then ret cbor
      else if uri = None \<or> \<not> hasStore s \<or> bucket s = []
      then fail (unavailable (Plain ''log blob store unavailable''))
      else
        (case ParseURI (the uri) of
           Inl e \<Rightarrow> fail (internal (Plain ''invalid log blob URI''))
         | Inr (digest, mime) \<Rightarrow>
             if mime \<noteq> ''application/cbor'' then fail (internal (Plain ''invalid log blob URI''))
             else
               andThen (mapErr unavailable (query (\<lambda>t. t_blobs t digest))) (\<lambda>found.
               case found of
                 None \<Rightarrow> fail (unavailable (Plain ''no rows in result set''))
               | Some i \<Rightarrow>
                   andThen (mapErr unavailable (getObject (ObjectKey L i))) (\<lambda>ob.
                   case ob of
                     None \<Rightarrow> fail (unavailable (Plain ''The specified key does not exist.''))
                   | Some ob \<Rightarrow>
                       andThen (mapErr unavailable call) (\<lambda>_.
                       let maxRec = fst (snd (limits s));
                           value = take (nat (wrap64 (maxRec + 1))) (ob_data ob) in
                       if int (length value) > maxRec
                       then fail (Rpc ResourceExhausted ''log blob exceeds record limit'')
                       else ret value)))))"

text \<open>The query \<open>ReadLogRecords\<close>; \<open>None\<close> for the key is SQL's \<open>NULL\<close>.\<close>

definition readLogRecords :: "uuid \<Rightarrow> string \<Rightarrow> int \<Rightarrow> bytes option \<Rightarrow> int \<Rightarrow> tables \<Rightarrow> log_row list" where
  "readLogRecords run stream after key n t =
     take (nat n) (sort_key l_seq (filter (\<lambda>r. l_run r = run \<and> l_stream r = stream \<and> l_seq r > after \<and>
        (case key of None \<Rightarrow> True | Some k \<Rightarrow> l_key r = k)) (t_records t)))"

fun readRows :: "lib \<Rightarrow> logService \<Rightarrow> log_row list \<Rightarrow> log_record list act" where
  "readRows L s [] = ret []"
| "readRows L s (r # rs) =
     andThen (rowValue L s (l_cbor r) (l_uri r)) (\<lambda>value.
     andThen (readRows L s rs) (\<lambda>records.
     ret (\<lparr>rec_stream = l_stream r, rec_seq = l_seq r, rec_key = l_key r, rec_value = value,
           rec_created = l_created r\<rparr> # records)))"

definition Read :: "lib \<Rightarrow> logService \<Rightarrow> scope \<Rightarrow> string \<Rightarrow> string \<Rightarrow> int \<Rightarrow> int \<Rightarrow> bytes option \<Rightarrow>
    (log_record list \<times> bool) act" where
  "Read L s sc name stream after lim key =
     andThen (validateRun L s sc name) (\<lambda>run.
     andThen (orFail (checkCheckpointScope sc run stream [case key of None \<Rightarrow> [] | Some k \<Rightarrow> k])) (\<lambda>_.
     if \<not> streamOK stream then fail (invalid ''invalid stream'')
     else if after < 0 then fail (invalid ''after_seq must be nonnegative'')
     else
       (let limit = (if lim = 0 then 100 else lim) in
        if limit < 1 \<or> limit > 1000 then fail (invalid ''limit is out of range'')
        else
          andThen (mapErr internal (query (readLogRecords run stream after key (limit + 1)))) (\<lambda>rows.
          let truncated = int (length rows) > limit in
          andThen (readRows L s (if truncated then take (nat limit) rows else rows)) (\<lambda>records.
          ret (records, truncated))))))"

subsection \<open>The blobs behind the log\<close>

text \<open>
  Every row of \<open>blobs\<close> names an object whose content has the row's digest, and none of
  the first \<open>K\<close> ids that is still to be drawn is one of them. \<open>K\<close> is a bound on the ids
  drawn: those below it are assumed distinct (\<open>idsOK\<close>), as \<open>uuid.New\<close> promises.
\<close>

definition blobOK :: "lib \<Rightarrow> nat \<Rightarrow> tables \<Rightarrow> world \<Rightarrow> bool" where
  "blobOK L K t w \<longleftrightarrow>
     (\<forall>d i. t_blobs t d = Some i \<longrightarrow>
        (\<exists>ob. objects w (ObjectKey L i) = Some ob \<and> sha256 (ob_data ob) = d) \<and>
        (\<forall>n. drawn w \<le> n \<and> n < K \<longrightarrow> ids w n \<noteq> i))"

lemma blobOK_update [simp]:
  "blobOK L K t (w\<lparr>tabs := x\<rparr>) = blobOK L K t w" "blobOK L K t (w\<lparr>calls := n\<rparr>) = blobOK L K t w"
  "blobOK L K t (w\<lparr>clock := c\<rparr>) = blobOK L K t w"
  by (simp_all add: blobOK_def)

definition idsOK :: "lib \<Rightarrow> nat \<Rightarrow> world \<Rightarrow> bool" where
  "idsOK L K w \<longleftrightarrow> inj (uuidString L) \<and> inj_on (ids w) {..<K}"

text \<open>
  What spilling values keeps: the blobs known before, at every version \<open>t\<close> of the tables
  whose blobs were in order, and the invariant for the current tables.
\<close>

definition spillRel :: "lib \<Rightarrow> nat \<Rightarrow> world \<Rightarrow> world \<Rightarrow> bool" where
  "spillRel L K w w' \<longleftrightarrow> drawn w \<le> drawn w' \<and> ids w' = ids w \<and> (idsOK L K w \<and> drawn w' \<le> K \<longrightarrow>
     (\<forall>t. blobOK L K t w \<longrightarrow> blobOK L K t w') \<and>
     (blobOK L K (tabs w) w \<longrightarrow> blobOK L K (tabs w') w'))"

lemma spillRel_same:
  "objects w' = objects w \<Longrightarrow> ids w' = ids w \<Longrightarrow> drawn w \<le> drawn w' \<Longrightarrow>
   t_blobs (tabs w') = t_blobs (tabs w) \<Longrightarrow> spillRel L K w w'"
  by (simp add: spillRel_def blobOK_def)

interpretation spill: world_frame "spillRel L K" for L K
proof unfold_locales
  show "spillRel L K w w" for w by (simp add: spillRel_def)
  show "spillRel L K u w" if "spillRel L K u v" "spillRel L K v w" for u v w
    using that by (simp add: spillRel_def idsOK_def)
  show "spillRel L K w (w\<lparr>calls := n\<rparr>)" for w n by (rule spillRel_same) simp_all
qed

text \<open>Storing a value under a fresh id, then recording it: every way it can end.\<close>

lemma freshPut_cases:
  assumes "andThen newID (\<lambda>i.
        andThen (mapErr h (putObject (ObjectKey L i) ob)) (\<lambda>_.
        andThen (mapErr g (stmt (insertBlobIfAbsent d i))) (\<lambda>_. ret u))) w = (r, w')"
  shows "ids w' = ids w \<and> drawn w' = Suc (drawn w) \<and>
     ((objects w' = objects w \<or> objects w' = (objects w)(ObjectKey L (ids w (drawn w)) \<mapsto> ob)) \<and>
        tabs w' = tabs w \<or>
      objects w' = (objects w)(ObjectKey L (ids w (drawn w)) \<mapsto> ob) \<and>
        (tabs w' = tabs w \<or> tabs w' = (tabs w)\<lparr>t_blobs := (t_blobs (tabs w))(d \<mapsto> ids w (drawn w))\<rparr>))"
proof -
  let ?i = "ids w (drawn w)" and ?v = "w\<lparr>drawn := Suc (drawn w)\<rparr>"
  let ?k = "ObjectKey L ?i"
  obtain p v where p: "mapErr h (putObject ?k ob) ?v = (p, v)" by fastforce
  from mapErr_run [OF p] obtain p' where p': "putObject ?k ob ?v = (p', v)"
    "\<And>x. p = Inr x \<longleftrightarrow> p' = Inr x" by blast
  note put = putObject_cases [OF p'(1)]
  show ?thesis
  proof (cases p)
    case (Inl e)
    with assms [unfolded newID_run] p have "w' = v" by (simp add: andThen_def)
    with put show ?thesis by auto
  next
    case (Inr x)
    obtain q z where q: "mapErr g (stmt (insertBlobIfAbsent d ?i)) v = (q, z)" by fastforce
    with assms [unfolded newID_run] p Inr have "w' = z" by (auto simp: andThen_def split: sum.splits)
    moreover from mapErr_run [OF q] obtain q' where "stmt (insertBlobIfAbsent d ?i) v = (q', z)" by blast
    note stmt_cases [OF this]
    moreover have "objects v = (objects w)(?k \<mapsto> ob)" using put Inr p'(2) [of x] by auto
    ultimately show ?thesis using put by (auto simp: insertBlobIfAbsent_def split: if_splits)
  qed
qed

lemma ObjectKey_inj: "inj (uuidString L) \<Longrightarrow> ObjectKey L i = ObjectKey L j \<longleftrightarrow> i = j"
  by (auto simp: ObjectKey_def dest: injD)

lemma blobOK_fresh:
  assumes "idsOK L K w" and "blobOK L K t w" and "ids w' = ids w" and "drawn w' = Suc (drawn w)"
    and "objects w' = objects w \<or> objects w' = (objects w)(ObjectKey L (ids w (drawn w)) \<mapsto> ob)"
    and "drawn w < K"
  shows "blobOK L K t w'"
  unfolding blobOK_def
proof (intro allI impI)
  fix d i
  assume "t_blobs t d = Some i"
  with assms(2) obtain ob' where ob: "objects w (ObjectKey L i) = Some ob'" "sha256 (ob_data ob') = d"
    and n: "\<forall>n. drawn w \<le> n \<and> n < K \<longrightarrow> ids w n \<noteq> i" by (auto simp: blobOK_def)
  from n assms(6) have "i \<noteq> ids w (drawn w)" by auto
  with assms(1) have "ObjectKey L i \<noteq> ObjectKey L (ids w (drawn w))"
    by (simp add: ObjectKey_inj idsOK_def)
  then have "objects w' (ObjectKey L i) = Some ob'" using assms(5) ob by auto
  with ob n assms(3,4) show "(\<exists>ob. objects w' (ObjectKey L i) = Some ob \<and> sha256 (ob_data ob) = d) \<and>
      (\<forall>n. drawn w' \<le> n \<and> n < K \<longrightarrow> ids w' n \<noteq> i)" by simp
qed

lemma freshPut_spill:
  "within (spillRel L K) (andThen newID (\<lambda>i.
     andThen (mapErr h (putObject (ObjectKey L i) \<lparr>ob_data = value, ob_checksum = c\<rparr>)) (\<lambda>_.
     andThen (mapErr g (stmt (insertBlobIfAbsent (sha256 value) i))) (\<lambda>_. ret u))))"
proof (rule withinI)
  fix w r w'
  let ?ob = "\<lparr>ob_data = value, ob_checksum = c\<rparr>"
  assume "andThen newID (\<lambda>i.
     andThen (mapErr h (putObject (ObjectKey L i) ?ob)) (\<lambda>_.
     andThen (mapErr g (stmt (insertBlobIfAbsent (sha256 value) i))) (\<lambda>_. ret u))) w = (r, w')"
  note c = freshPut_cases [OF this]
  let ?i = "ids w (drawn w)"
  show "spillRel L K w w'"
    unfolding spillRel_def
  proof (intro impI conjI allI)
    show "ids w' = ids w" and "drawn w \<le> drawn w'" using c by simp_all
    assume "idsOK L K w \<and> drawn w' \<le> K"
    with c have ok: "idsOK L K w" and k: "drawn w < K" by simp_all
    show old: "blobOK L K t w'" if "blobOK L K t w" for t
      by (rule blobOK_fresh [OF ok that]) (use c k in auto)
    assume b: "blobOK L K (tabs w) w"
    have new: "ids w n \<noteq> ?i" if "drawn w < n" "n < K" for n
      using ok that by (auto simp: idsOK_def dest: inj_onD)
    consider "tabs w' = tabs w"
      | "tabs w' = (tabs w)\<lparr>t_blobs := (t_blobs (tabs w))(sha256 value \<mapsto> ?i)\<rparr>"
        "objects w' = (objects w)(ObjectKey L ?i \<mapsto> ?ob)"
      using c by blast
    then show "blobOK L K (tabs w') w'"
    proof cases
      case 1
      with old [OF b] show ?thesis by simp
    next
      case 2
      with old [OF b] c new show ?thesis by (auto simp: blobOK_def Suc_le_eq)
    qed
  qed
qed

lemma storeValue_spill: "within (spillRel L K) (storeValue L value)"
  unfolding storeValue_def Let_def by (intro spill.rules freshPut_spill)

subsection \<open>The round trip of a value\<close>

lemma spill_stmt:
  "(\<And>t x t'. f t = Inr (x, t') \<Longrightarrow> t_blobs t' = t_blobs t) \<Longrightarrow> within (spillRel L K) (stmt f)"
  by (rule withinI, drule stmt_cases, rule spillRel_same) auto

interpretation spill: append_frame "spillRel L K" L for L K
  by unfold_locales (rule storeValue_spill, rule spill_stmt, simp add: otherTables_iff)

lemma transaction_spill: "within (spillRel L K) m \<Longrightarrow> within (spillRel L K) (transaction b c m)"
proof (rule withinI)
  fix w r w'
  assume m: "within (spillRel L K) m" and t: "transaction b c m w = (r, w')"
  obtain r1 w1 r2 w2 r3 w3 where c: "call w = (r1, w1)" "m w1 = (r2, w2)" "call w2 = (r3, w3)"
    by (meson prod.exhaust)
  note k1 = call_result [OF c(1)] and k3 = call_result [OF c(3)]
  have s1: "spillRel L K w w1" and s3: "spillRel L K w2 w3"
    using withinD [OF spill.calls] c by blast+
  have s2: "spillRel L K w1 w2" using withinD [OF m] c by blast
  have s12: "spillRel L K w w2" and s123: "spillRel L K w w3"
    using spill.trans s1 s2 s3 by blast+
  have rolled: "spillRel L K w (v\<lparr>tabs := tabs w1\<rparr>)" if "spillRel L K w v" for v
    using that k1 by (simp add: spillRel_def)
  show "spillRel L K w w'"
    using t c s1 s12 s123 rolled [OF s12] rolled [OF s123]
    by (auto simp: transaction_def split: sum.splits if_splits)
qed

lemma parse_blobURI: "length d = 32 \<Longrightarrow> ParseURI (blobURI d) = Inr (d, ''application/cbor'')"
proof -
  assume d: "length d = 32"
  have "trimSpace ''application/cbor'' \<noteq> []" by code_simp
  moreover have "trimSuffix (trimSuffix ''application/cbor'' '';resolve'') '';resolve=true'' =
      ''application/cbor''" by (simp add: trimSuffix_def)
  moreover have "parseMediaTypeOK ''application/cbor''" by code_simp
  ultimately show ?thesis
    using ParseURI_URI [OF d, of "''application/cbor''"] by (simp add: blobURI_def URI_def)
qed

text \<open>No object of the store has the SHA-256 of the value without being the value.\<close>

definition noCollision :: "bytes \<Rightarrow> world \<Rightarrow> bool" where
  "noCollision value w \<longleftrightarrow>
     (\<forall>k ob. objects w k = Some ob \<longrightarrow> sha256 (ob_data ob) = sha256 value \<longrightarrow> ob_data ob = value)"

lemma rowValue_stored:
  assumes row: "rowOf run stream (key, value) r" "spilledOK s (tabs w) value r" and ne: "value \<noteq> []"
    and lim: "int (length value) \<le> fst (snd (limits s))" "fst (snd (limits s)) < 2 ^ 63 - 1"
    and w: "quiet w" "blobOK L K (tabs w) w"
    and nc: "fst (limits s) < int (length value) \<Longrightarrow> noCollision value w"
  shows "runsTo (rowValue L s (l_cbor r) (l_uri r)) w value"
proof (cases "l_uri r")
  case None
  with row(1) ne show ?thesis by (auto simp: rowOf_def rowValue_def)
next
  case (Some u)
  with row(1) have u: "u = blobURI (sha256 value)" "l_cbor r = []" by (auto simp: rowOf_def)
  from row(2) Some obtain i where big: "fst (limits s) < int (length value)" and st: "hasStore s" "bucket s \<noteq> []" and i: "t_blobs (tabs w) (sha256 value) = Some i"
    by (auto simp: spilledOK_def)
  with w(2) [unfolded blobOK_def, rule_format, OF i] obtain ob where ob: "objects w (ObjectKey L i) = Some ob" "sha256 (ob_data ob) = sha256 value"
    by blast
  with nc [OF big] have data: "ob_data ob = value" by (auto simp: noCollision_def)
  have wrap: "wrap64 (fst (snd (limits s)) + 1) = fst (snd (limits s)) + 1"
    using lim by (simp add: wrap64_def)
  have p: "ParseURI u = Inr (sha256 value, ''application/cbor'')"
    by (simp add: u parse_blobURI length_sha256)
  show ?thesis
    unfolding rowValue_def
    using Some u st p i ob data lim wrap w(1)
    apply simp
    apply (rule runsTo_seq, rule runsTo_maps, rule runsTo_query, assumption, simp)
    apply (rule runsTo_seq, rule runsTo_maps, rule runsTo_get, simp add: quiet_calls, simp)
    apply (rule runsTo_seq, rule runsTo_maps, rule runsTo_call, simp add: quiet_calls, simp)
    done
qed

lemma checkEntries_None:
  assumes "checkEntries L maxRec maxBat acc es = None" and "(key, value) \<in> set es"
  shows "value \<noteq> []" "int (length value) + int (length key) \<le> maxRec" "length key \<le> 1024"
    "cborWellformed L value"
  using assms by (induction L maxRec maxBat acc es rule: checkEntries.induct)
    (auto simp: Let_def split: if_splits)

lemma AppendTx_checked:
  "AppendTx L s run stream aid es w = (Inr r, w') \<Longrightarrow>
   streamOK stream \<and> length aid \<le> 200 \<and> es \<noteq> [] \<and>
   checkEntries L (fst (snd (limits s))) (snd (snd (limits s))) 0 es = None"
  by (auto simp: AppendTx_def split: if_splits option.splits)

definition recordOf :: "entry \<Rightarrow> log_row \<Rightarrow> log_record" where
  "recordOf e r = \<lparr>rec_stream = l_stream r, rec_seq = l_seq r, rec_key = l_key r,
    rec_value = snd e, rec_created = l_created r\<rparr>"

lemma readRows_stored:
  assumes "list_all2 (rowOf run stream) es rows" "list_all2 (\<lambda>e. spilledOK s (tabs w) (snd e)) es rows"
    and "\<And>key value. (key, value) \<in> set es \<Longrightarrow>
      value \<noteq> [] \<and> int (length value) \<le> fst (snd (limits s)) \<and>
      (fst (limits s) < int (length value) \<longrightarrow> noCollision value w)"
    and "fst (snd (limits s)) < 2 ^ 63 - 1" and "quiet w" and "blobOK L K (tabs w) w"
  shows "runsTo (readRows L s rows) w (map2 recordOf es rows)"
  using assms
proof (induction es rows arbitrary: w rule: list_all2_induct)
  case Nil
  show ?case unfolding readRows.simps list.map zip.simps by (rule runsTo_ret)
next
  case (Cons e es r rows)
  obtain key "value" where e: "e = (key, value)" by fastforce
  have one: "runsTo (rowValue L s (l_cbor r) (l_uri r)) w value"
    using Cons.prems Cons.hyps e by (intro rowValue_stored [of run stream key]) auto
  have rest: "runsTo (readRows L s rows) (w\<lparr>calls := n\<rparr>) (map2 recordOf es rows)"
    if "calls w \<le> n" for n
    using Cons.prems that by (intro Cons.IH) (auto simp: quiet_calls noCollision_def)
  show ?case
    unfolding readRows.simps
    by (rule runsTo_seq [OF one], rule runsTo_seq, erule rest)
      (simp add: recordOf_def e)
qed

lemma map2_recordOf:
  assumes "rowsOf run stream first es rows"
  shows "map (\<lambda>r. (rec_key r, rec_value r)) (map2 recordOf es rows) = es"
    "map rec_seq (map2 recordOf es rows) = [first..first + int (length es) - 1]"
proof -
  have len: "length es = length rows" and all: "\<And>i. i < length es \<Longrightarrow> rowOf run stream (es ! i) (rows ! i)"
    and seqs: "map l_seq rows = [first..first + int (length es) - 1]"
    using assms by (auto simp: rowsOf_def list_all2_conv_all_nth)
  show "map (\<lambda>r. (rec_key r, rec_value r)) (map2 recordOf es rows) = es"
    using len all by (intro nth_equalityI) (auto simp: recordOf_def rowOf_def)
  have "map rec_seq (map2 recordOf es rows) = map l_seq rows"
    using len by (intro nth_equalityI) (auto simp: recordOf_def)
  with seqs show "map rec_seq (map2 recordOf es rows) = [first..first + int (length es) - 1]" by simp
qed

text \<open>In a well-formed log the rows of a stream are already in the order of their numbers.\<close>

lemma readLogRecords_logOK:
  assumes "logOK t"
  shows "readLogRecords run stream after None n t =
    take (nat n) (filter (\<lambda>r. after < l_seq r) (streamRows t run stream))"
proof -
  let ?rows = "filter (\<lambda>r. after < l_seq r) (streamRows t run stream)"
  have "map l_seq (streamRows t run stream) = [1..nextSeq t run stream - 1]"
    using assms by (simp add: logOK_def)
  then have "sorted (map l_seq (streamRows t run stream))" by simp
  then have "sorted (map l_seq ?rows)" by (rule sorted_filter)
  then have "sort_key l_seq ?rows = ?rows" by (rule sort_key_id_if_sorted)
  moreover have "filter (\<lambda>r. l_run r = run \<and> l_stream r = stream \<and> l_seq r > after \<and>
      (case None of None \<Rightarrow> True | Some k \<Rightarrow> l_key r = k)) (t_records t) = ?rows"
    by (simp add: streamRows_def filter_filter conj_ac)
  ultimately show ?thesis by (simp add: readLogRecords_def)
qed

end
