(* ===== verification/Runlog_Tail.thy ===== *)
theory Runlog_Tail
  imports Runlog_Read
begin

section \<open>Following a run's log\<close>

text \<open>
  \<open>internal/runlog/tail.go\<close> and the request validation of \<open>Tail\<close> in \<open>service.go\<close>: the
  key range of a prefix, the query \<open>ReadFilteredLogRecords\<close>, one cursor's turn of
  \<open>Subscription.Run\<close>, the end of a round, and the handling of a notification. What \<open>send\<close>
  answers may depend on everything sent before; a cancelled context is an argument.
\<close>

subsection \<open>The range of a prefix\<close>

fun prefixLoop :: "bytes \<Rightarrow> nat \<Rightarrow> bytes option" where
  "prefixLoop result 0 = None"
| "prefixLoop result (Suc i) =
     (if result ! i \<noteq> 255 then Some (take (Suc i) (result[i := result ! i + 1]))
      else prefixLoop result i)"

definition PrefixSuccessor :: "bytes \<Rightarrow> bytes option" where
  "PrefixSuccessor prefix = prefixLoop prefix (length prefix)"

lemma prefixLoop_Cons:
  "i \<le> length p \<Longrightarrow> prefixLoop (b # p) (Suc i) =
     (case prefixLoop p i of
        Some u \<Rightarrow> Some (b # u)
      | None \<Rightarrow> if b \<noteq> 255 then Some [b + 1] else None)"
  by (induction i) auto

lemma PrefixSuccessor_Cons:
  "PrefixSuccessor (b # p) =
     (case PrefixSuccessor p of
        Some u \<Rightarrow> Some (b # u)
      | None \<Rightarrow> if b \<noteq> 255 then Some [b + 1] else None)"
  using prefixLoop_Cons [of "length p" p b] by (simp add: PrefixSuccessor_def del: prefixLoop.simps)

lemma byte_bound: "unat (b::byte) < 256"
  using unsigned_less [of b, where ?'a = nat] by simp

lemma byte_succ:
  fixes b c :: byte
  assumes "b \<noteq> 255"
  shows "c < b + 1 \<longleftrightarrow> c \<le> b"
proof -
  have "unat b \<noteq> 255" using assms unsigned_word_eqI [of b 255] by auto
  then have "unat (b + 1) = unat b + 1" using byte_bound [of b] by (simp add: unat_word_ariths)
  then show ?thesis by (simp add: word_less_nat_alt word_le_nat_alt less_Suc_eq_le)
qed

definition keyIn :: "bytes option \<Rightarrow> bytes option \<Rightarrow> bytes \<Rightarrow> bool" where
  "keyIn lower upper k \<longleftrightarrow>
     (case lower of
        None \<Rightarrow> True
      | Some l \<Rightarrow> l \<le> k \<and> (case upper of None \<Rightarrow> True | Some u \<Rightarrow> k < u))"

lemma prefix_range: "(p \<le> k \<and> (case PrefixSuccessor p of None \<Rightarrow> True | Some u \<Rightarrow> k < u)) \<longleftrightarrow> hasPrefix k p"
proof (induction p arbitrary: k)
  case Nil
  then show ?case by (simp add: PrefixSuccessor_def)
next
  case (Cons b p)
  show ?case
  proof (cases k)
    case Nil
    then show ?thesis by simp
  next
    case k: (Cons c k')
    have top: "\<not> (255::byte) < c"
      using byte_bound [of c] by (simp add: word_less_nat_alt)
    show ?thesis
    proof (cases "PrefixSuccessor p")
      case (Some u)
      with Cons.IH [of k'] show ?thesis
        by (auto simp: k PrefixSuccessor_Cons)
    next
      case None
      with Cons.IH [of k'] top show ?thesis
        by (auto simp: k PrefixSuccessor_Cons byte_succ)
    qed
  qed
qed

subsection \<open>Cursors and responses\<close>

record cursor =
  c_stream :: string
  c_prefix :: bytes
  c_inspect :: int
  c_until :: "int option"

record tail_response =
  m_stream :: string
  m_seq :: int
  m_key :: bytes
  m_value :: bytes
  m_created :: time

text \<open>What \<open>send\<close> returns: nil, \<open>ErrStop\<close> or another error.\<close>

datatype sent = SentOK | SentStop | SentErr goerr

type_synonym send = "tail_response list \<Rightarrow> tail_response \<Rightarrow> sent"

text \<open>The rest of a turn: go on with the round, with \<open>progress\<close>, or return from \<open>Run\<close>.\<close>

datatype turn = Go bool | Returned "goerr option"

definition batchSize :: "logService \<Rightarrow> int" where
  "batchSize s =
     (let size = (if tailBatchSize s \<le> 0 then 256 else tailBatchSize s);
          buffer = (if maxResponseBuffer s \<le> 0 then 256 else maxResponseBuffer s);
          size = (if size > buffer then buffer else size);
          size = (if size > 10000 then 10000 else size)
      in wrap32 size)"

text \<open>
  The query \<open>ReadFilteredLogRecords\<close>: the matching rows up to the stream's end, each with
  \<open>inspect_seq\<close>, or one row of \<open>NULL\<close>s with it when there are none.
\<close>

definition streamEnd :: "uuid \<Rightarrow> string \<Rightarrow> tables \<Rightarrow> int" where
  "streamEnd run stream t = (case t_streams t (run, stream) of None \<Rightarrow> 0 | Some n \<Rightarrow> n - 1)"

definition matchedRows :: "uuid \<Rightarrow> string \<Rightarrow> int \<Rightarrow> bytes option \<Rightarrow> bytes option \<Rightarrow> int \<Rightarrow> tables \<Rightarrow> log_row list" where
  "matchedRows run stream after lower upper n t =
     take (nat n) (sort_key l_seq (filter (\<lambda>r. l_run r = run \<and> l_stream r = stream \<and>
        after < l_seq r \<and> l_seq r \<le> streamEnd run stream t \<and> keyIn lower upper (l_key r)) (t_records t)))"

definition readFiltered :: "uuid \<Rightarrow> string \<Rightarrow> int \<Rightarrow> bytes option \<Rightarrow> bytes option \<Rightarrow> int \<Rightarrow> tables \<Rightarrow>
    (log_row option \<times> int) list" where
  "readFiltered run stream after lower upper n t =
     (let rows = matchedRows run stream after lower upper n t;
          inspect = (if int (length rows) = n then fold max (map l_seq rows) 0
                     else streamEnd run stream t)
      in if rows = [] then [(None, inspect)] else map (\<lambda>r. (Some r, inspect)) rows)"

subsection \<open>One turn of \<open>Run\<close>\<close>

text \<open>Lines 139 to 161: deliver the rows; \<open>ms\<close> are the responses accepted so far.\<close>

fun deliver :: "lib \<Rightarrow> logService \<Rightarrow> send \<Rightarrow> (log_row option \<times> int) list \<Rightarrow> int \<Rightarrow> bool \<Rightarrow> cursor \<Rightarrow>
    tail_response list \<Rightarrow> world \<Rightarrow> turn \<times> cursor \<times> tail_response list \<times> world" where
  "deliver L s send [] inspect progress c ms w = (Go progress, c\<lparr>c_inspect := inspect\<rparr>, ms, w)"
| "deliver L s send ((row, rowInspect) # rows) inspect progress c ms w =
     (let rest = (\<lambda>c ms w.
            if rowInspect > inspect then deliver L s send rows rowInspect True c ms w
            else deliver L s send rows inspect progress c ms w)
      in case row of
           None \<Rightarrow> rest c ms w
         | Some r \<Rightarrow>
             if (case c_until c of None \<Rightarrow> False | Some u \<Rightarrow> l_seq r > u)
             then (Go progress, c\<lparr>c_inspect := the (c_until c)\<rparr>, ms, w)
             else
               (case rowValue L s (l_cbor r) (l_uri r) w of
                  (Inl e, w') \<Rightarrow> (Returned (Some e), c, ms, w')
                | (Inr value, w') \<Rightarrow>
                    let m = \<lparr>m_stream = c_stream c, m_seq = l_seq r, m_key = l_key r,
                             m_value = value, m_created = l_created r\<rparr>
                    in case send ms m of
                         SentErr e \<Rightarrow> (Returned (Some e), c, ms, w')
                       | SentStop \<Rightarrow> (Returned None, c\<lparr>c_inspect := l_seq r\<rparr>, ms @ [m], w')
                       | SentOK \<Rightarrow> rest (c\<lparr>c_inspect := l_seq r\<rparr>) (ms @ [m]) w'))"

definition readCursor :: "lib \<Rightarrow> logService \<Rightarrow> uuid \<Rightarrow> send \<Rightarrow> goerr option \<Rightarrow> bool \<Rightarrow> cursor \<Rightarrow>
    tail_response list \<Rightarrow> world \<Rightarrow> turn \<times> cursor \<times> tail_response list \<times> world" where
  "readCursor L s run send ctxErr progress c ms w =
     (if ctxErr \<noteq> None then (Returned ctxErr, c, ms, w)
      else if (case c_until c of None \<Rightarrow> False | Some u \<Rightarrow> c_inspect c \<ge> u) then (Go progress, c, ms, w)
      else
        (case query (readFiltered run (c_stream c) (c_inspect c)
                       (if c_prefix c = [] then None else Some (c_prefix c))
                       (PrefixSuccessor (c_prefix c)) (batchSize s)) w of
           (Inl e, w') \<Rightarrow> (Returned (Some e), c, ms, w')
         | (Inr rows, w') \<Rightarrow> deliver L s send rows (c_inspect c) progress c ms w'))"

definition complete :: "cursor list \<Rightarrow> bool" where
  "complete cs \<longleftrightarrow> (\<forall>c\<in>set cs. case c_until c of None \<Rightarrow> False | Some u \<Rightarrow> \<not> c_inspect c < u)"

fun matchingNotification :: "lib \<Rightarrow> string \<Rightarrow> uuid \<Rightarrow> cursor list \<Rightarrow> bool" where
  "matchingNotification L payload run [] = False"
| "matchingNotification L payload run (c # cs) =
     (payload = uuidString L run @ '':'' @ c_stream c \<or> matchingNotification L payload run cs)"

subsection \<open>The request\<close>

text \<open>The checks of \<open>Tail\<close> on its stream cursors, in order, with the cursors they give.\<close>

record stream_item =
  i_stream :: string
  i_after :: int
  i_prefix :: bytes

fun tailCursors :: "string list \<Rightarrow> stream_item list \<Rightarrow> goerr + cursor list" where
  "tailCursors seen [] = Inr []"
| "tailCursors seen (item # items) =
     (if \<not> streamOK (i_stream item) then Inl (invalid ''invalid stream'')
      else if i_after item < 0 then Inl (invalid ''after_seq must be nonnegative'')
      else if i_stream item \<in> set seen then Inl (invalid ''duplicate stream cursor'')
      else
        (case tailCursors (i_stream item # seen) items of
           Inl e \<Rightarrow> Inl e
         | Inr cs \<Rightarrow> Inr (\<lparr>c_stream = i_stream item, c_prefix = i_prefix item,
             c_inspect = i_after item, c_until = None\<rparr> # cs)))"

text \<open>\<open>Tail\<close> up to the subscription: the run and its cursors.\<close>

definition tailStart :: "lib \<Rightarrow> logService \<Rightarrow> scope \<Rightarrow> string \<Rightarrow> stream_item list \<Rightarrow> (uuid \<times> cursor list) act" where
  "tailStart L s sc name items =
     andThen (validateRun L s sc name) (\<lambda>run.
     if items = [] then fail (invalid ''at least one stream cursor is required'')
     else (case tailCursors [] items of Inl e \<Rightarrow> fail e | Inr cs \<Rightarrow> ret (run, cs)))"

subsection \<open>The subscription as a system\<close>

text \<open>
  The subscription runs beside appends to the log. It is reading the cursor at \<open>s_idx\<close> of
  a round, waiting for a notification, without a listener while it reconnects, or has
  returned. The queue holds the notifications its listener has not consumed: every append
  that commits sends one while there is a listener.
\<close>

datatype phase = Reading | Waiting | Dropped | Finished "goerr option"

record sub_state =
  s_world :: world
  s_cursors :: "cursor list"
  s_idx :: nat
  s_progress :: bool
  s_sent :: "tail_response list"
  s_queue :: "string list"
  s_phase :: phase

definition readStep :: "lib \<Rightarrow> logService \<Rightarrow> uuid \<Rightarrow> send \<Rightarrow> goerr option \<Rightarrow> sub_state \<Rightarrow> sub_state" where
  "readStep L s run send ctxErr st =
     (case readCursor L s run send ctxErr (s_progress st) (s_cursors st ! s_idx st) (s_sent st) (s_world st) of
        (r, c, ms, w) \<Rightarrow>
          (let st' = st\<lparr>s_cursors := (s_cursors st)[s_idx st := c], s_sent := ms, s_world := w\<rparr> in
           case r of
             Go p \<Rightarrow> st'\<lparr>s_progress := p, s_idx := Suc (s_idx st)\<rparr>
           | Returned e \<Rightarrow> st'\<lparr>s_phase := Finished e\<rparr>))"

text \<open>Lines 164 to 175: the end of a round.\<close>

definition newRound :: "sub_state \<Rightarrow> sub_state" where
  "newRound st = st\<lparr>s_idx := 0, s_progress := False, s_phase := Reading\<rparr>"

definition roundEnd :: "sub_state \<Rightarrow> sub_state" where
  "roundEnd st =
     (if complete (s_cursors st) then st\<lparr>s_phase := Finished None\<rparr>
      else if s_progress st then newRound st
      else st\<lparr>s_phase := Waiting\<rparr>)"

text \<open>Lines 186 to 199: a notification; a matching one drains \<open>k\<close> more from the queue.\<close>

definition wake :: "lib \<Rightarrow> uuid \<Rightarrow> nat \<Rightarrow> sub_state \<Rightarrow> sub_state" where
  "wake L run k st =
     (let st' = st\<lparr>s_queue := tl (s_queue st)\<rparr> in
      if matchingNotification L (hd (s_queue st)) run (s_cursors st)
      then newRound (st'\<lparr>s_queue := drop k (s_queue st')\<rparr>)
      else st')"

inductive sub_step :: "lib \<Rightarrow> logService \<Rightarrow> uuid \<Rightarrow> send \<Rightarrow> sub_state \<Rightarrow> sub_state \<Rightarrow> bool"
  for L s run send where
  append: "AppendEntries L s' run' stream aid es (s_world st) = (res, w) \<Longrightarrow> int (length es) < 2 ^ 63 \<Longrightarrow>
     q = (if tabs w \<noteq> tabs (s_world st) \<and> (s_phase st = Reading \<or> s_phase st = Waiting)
          then s_queue st @ [uuidString L run' @ '':'' @ stream] else s_queue st) \<Longrightarrow>
     sub_step L s run send st (st\<lparr>s_world := w, s_queue := q\<rparr>)"
| read: "s_phase st = Reading \<Longrightarrow> s_idx st < length (s_cursors st) \<Longrightarrow>
     sub_step L s run send st (readStep L s run send ctxErr st)"
| end_of_round: "s_phase st = Reading \<Longrightarrow> s_idx st = length (s_cursors st) \<Longrightarrow>
     sub_step L s run send st (roundEnd st)"
| notified: "s_phase st = Waiting \<Longrightarrow> s_queue st \<noteq> [] \<Longrightarrow> sub_step L s run send st (wake L run k st)"
| lost: "s_phase st = Waiting \<Longrightarrow>
     sub_step L s run send st (st\<lparr>s_phase := Dropped, s_queue := []\<rparr>)"
| reconnected: "s_phase st = Dropped \<Longrightarrow> sub_step L s run send st (newRound st)"
| canceled: "s_phase st = Waiting \<or> s_phase st = Dropped \<Longrightarrow>
     sub_step L s run send st (st\<lparr>s_phase := Finished (Some e)\<rparr>)"

text \<open>A subscription starts with its listener registered and nothing sent.\<close>

definition sub_start :: "world \<Rightarrow> cursor list \<Rightarrow> sub_state" where
  "sub_start w cs = \<lparr>s_world = w, s_cursors = cs, s_idx = 0, s_progress = False, s_sent = [],
     s_queue = [], s_phase = Reading\<rparr>"

inductive sub_reachable :: "lib \<Rightarrow> logService \<Rightarrow> uuid \<Rightarrow> send \<Rightarrow> sub_state \<Rightarrow> sub_state \<Rightarrow> bool"
  for L s run send st0 where
  start: "sub_reachable L s run send st0 st0"
| step: "sub_reachable L s run send st0 st \<Longrightarrow> sub_step L s run send st st' \<Longrightarrow>
    sub_reachable L s run send st0 st'"

end
