(* ===== verification/Runlog_Deliver.thy ===== *)
theory Runlog_Deliver
  imports Runlog_Tail
begin

section \<open>What one turn of a subscription delivers\<close>

text \<open>
  The rows that are due to a cursor, and the proof that a turn of \<open>Run\<close> delivers exactly
  those between the cursor's old and new position.
\<close>

lemma batchSize_range: "1 \<le> batchSize s \<and> batchSize s \<le> 10000"
  by (auto simp: batchSize_def Let_def intro!: wrap32_id [THEN ssubst] simp: int32_def)

subsection \<open>Rows in order\<close>

lemma filter_interval:
  fixes f :: "'a \<Rightarrow> int"
  assumes "sorted (map f xs)" and "a \<le> y" and "y \<le> z"
  shows "filter (\<lambda>r. a < f r \<and> f r \<le> z \<and> P r) xs =
    filter (\<lambda>r. a < f r \<and> f r \<le> y \<and> P r) xs @ filter (\<lambda>r. y < f r \<and> f r \<le> z \<and> P r) xs"
  using assms
proof (induction xs)
  case Nil
  then show ?case by simp
next
  case (Cons x xs)
  show ?case
  proof (cases "f x \<le> y")
    case True
    with Cons show ?thesis by auto
  next
    case False
    with Cons.prems have "filter (\<lambda>r. a < f r \<and> f r \<le> y \<and> P r) (x # xs) = []"
      by (fastforce simp: filter_empty_conv)
    moreover from False Cons.prems have "filter (\<lambda>r. a < f r \<and> f r \<le> z \<and> P r) (x # xs) =
        filter (\<lambda>r. y < f r \<and> f r \<le> z \<and> P r) (x # xs)"
      by (intro filter_cong) auto
    ultimately show ?thesis by simp
  qed
qed

lemma take_upto:
  fixes f :: "'a \<Rightarrow> int"
  assumes "sorted (map f xs)" "distinct (map f xs)" "0 < n" "n \<le> length xs"
  shows "filter (\<lambda>r. f r \<le> f (last (take n xs))) xs = take n xs"
  using assms
proof (induction n arbitrary: xs)
  case (Suc n)
  then obtain x ys where xs: "xs = x # ys" by (cases xs) auto
  show ?case
  proof (cases n)
    case 0
    with Suc.prems show ?thesis
      by (auto simp: xs filter_empty_conv) (metis imageI order_antisym)
  next
    case (Suc m)
    with Suc.IH [of ys] Suc.prems have "filter (\<lambda>r. f r \<le> f (last (take n ys))) ys = take n ys"
      by (simp add: xs)
    moreover have "take n ys \<noteq> []" using Suc Suc.prems xs by auto
    then have "last (take n ys) \<in> set ys" using in_set_takeD last_in_set by fast
    then have "f x \<le> f (last (take n ys))" using Suc.prems(1) by (simp add: xs)
    ultimately show ?thesis using \<open>take n ys \<noteq> []\<close> by (simp add: xs)
  qed
qed simp

lemma fold_max_sorted:
  fixes m :: int
  shows "sorted xs \<Longrightarrow> xs \<noteq> [] \<Longrightarrow> m \<le> last xs \<Longrightarrow> fold max xs m = last xs"
proof (induction xs arbitrary: m)
  case (Cons x xs)
  show ?case
  proof (cases xs)
    case Nil
    with Cons.prems show ?thesis by simp
  next
    case (Cons y ys)
    with Cons.prems Cons.IH [of "max x m"] show ?thesis by (auto simp: max_def)
  qed
qed simp

subsection \<open>The rows that are due\<close>

definition dueRows :: "tables \<Rightarrow> uuid \<Rightarrow> string \<Rightarrow> bytes \<Rightarrow> int \<Rightarrow> int \<Rightarrow> log_row list" where
  "dueRows t run stream prefix lo hi =
     filter (\<lambda>r. lo < l_seq r \<and> l_seq r \<le> hi \<and> hasPrefix (l_key r) prefix) (streamRows t run stream)"

text \<open>The response for a row; an inline value is the row's own.\<close>

definition carries :: "log_row \<Rightarrow> tail_response \<Rightarrow> bool" where
  "carries r m \<longleftrightarrow> m_stream m = l_stream r \<and> m_seq m = l_seq r \<and> m_key m = l_key r \<and>
     m_created m = l_created r \<and> (l_cbor r \<noteq> [] \<longrightarrow> m_value m = l_cbor r)"

lemma streamEnd_next: "streamEnd run stream t = nextSeq t run stream - 1"
  by (simp add: streamEnd_def nextSeq_def split: option.splits)

lemma logOK_seqs:
  "logOK t \<Longrightarrow> map l_seq (streamRows t run stream) = [1..streamEnd run stream t]"
  by (simp add: logOK_def streamEnd_next)

lemma streamRows_sorted:
  assumes "logOK t"
  shows "sorted (map l_seq (streamRows t run stream))" "distinct (map l_seq (streamRows t run stream))"
  by (simp_all add: logOK_seqs [OF assms])

lemma dueRows_split:
  "logOK t \<Longrightarrow> lo \<le> mid \<Longrightarrow> mid \<le> hi \<Longrightarrow>
   dueRows t run stream p lo hi = dueRows t run stream p lo mid @ dueRows t run stream p mid hi"
  unfolding dueRows_def by (rule filter_interval [OF streamRows_sorted(1)])

lemma dueRows_empty: "hi \<le> lo \<Longrightarrow> dueRows t run stream p lo hi = []"
  by (auto simp: dueRows_def filter_empty_conv)

lemma dueRows_sorted:
  "logOK t \<Longrightarrow> sorted (map l_seq (dueRows t run stream p lo hi)) \<and>
   distinct (map l_seq (dueRows t run stream p lo hi))"
  unfolding dueRows_def using streamRows_sorted [of t run stream]
  by (auto intro: sorted_filter simp: distinct_map_filter)

lemma dueRows_in:
  "r \<in> set (dueRows t run stream p lo hi) \<Longrightarrow>
   lo < l_seq r \<and> l_seq r \<le> hi \<and> hasPrefix (l_key r) p \<and> l_run r = run \<and> l_stream r = stream"
  by (auto simp: dueRows_def streamRows_def)

text \<open>The query finds the first rows that are due, and says how far it has looked.\<close>

lemma keyIn_prefix:
  "keyIn (if p = [] then None else Some p) (PrefixSuccessor p) k \<longleftrightarrow> hasPrefix k p"
  using prefix_range [of p k] by (auto simp: keyIn_def)

lemma matchedRows_due:
  assumes "logOK t"
  shows "matchedRows run stream after (if p = [] then None else Some p) (PrefixSuccessor p) n t =
    take (nat n) (dueRows t run stream p after (streamEnd run stream t))"
proof -
  have "filter (\<lambda>r. l_run r = run \<and> l_stream r = stream \<and> after < l_seq r \<and>
      l_seq r \<le> streamEnd run stream t \<and> keyIn (if p = [] then None else Some p) (PrefixSuccessor p) (l_key r))
      (t_records t) = dueRows t run stream p after (streamEnd run stream t)"
    unfolding dueRows_def streamRows_def filter_filter keyIn_prefix
    by (rule filter_cong) auto
  then show ?thesis
    using dueRows_sorted [OF assms] by (simp add: matchedRows_def sort_key_id_if_sorted)
qed

lemma readFiltered_due:
  assumes ok: "logOK t" and n: "1 \<le> n" and after: "0 \<le> after"
    and rows: "readFiltered run stream after (if p = [] then None else Some p) (PrefixSuccessor p) n t = rows"
  obtains (none) "rows = [(None, streamEnd run stream t)]"
      "dueRows t run stream p after (streamEnd run stream t) = []"
  | (some) hi where "after < hi" "hi \<le> streamEnd run stream t"
      "rows = map (\<lambda>r. (Some r, hi)) (dueRows t run stream p after hi)"
      "dueRows t run stream p after hi \<noteq> []"
proof -
  let ?stop = "streamEnd run stream t" and ?due = "dueRows t run stream p after"
  define rs where "rs = take (nat n) (?due ?stop)"
  have r: "rows = (let inspect = (if int (length rs) = n then fold max (map l_seq rs) 0 else ?stop)
      in if rs = [] then [(None, inspect)] else map (\<lambda>r. (Some r, inspect)) rs)"
    unfolding rows [symmetric] readFiltered_def
    by (simp only: matchedRows_due [OF ok] rs_def [symmetric] Let_def)
  show thesis
  proof (cases "rs = []")
    case True
    then have "?due ?stop = []" using n by (auto simp: rs_def)
    with True r n none show thesis by simp
  next
    case False
    then have ne: "?due ?stop \<noteq> []" by (auto simp: rs_def)
    show thesis
    proof (cases "int (length rs) = n")
      case full: True
      let ?hi = "l_seq (last rs)"
      have sorted: "sorted (map l_seq rs)"
        using dueRows_sorted [OF ok] by (simp add: rs_def sorted_wrt_take take_map [symmetric])
      have lst: "last rs \<in> set (?due ?stop)"
        using last_in_set [OF False] by (auto simp: rs_def dest: in_set_takeD)
      then have hi: "after < ?hi" "?hi \<le> ?stop" using dueRows_in by blast+
      have "fold max (map l_seq rs) 0 = ?hi"
        using fold_max_sorted [OF sorted, of 0] False hi after by (simp add: last_map)
      moreover have "?due ?hi = rs"
      proof -
        have "filter (\<lambda>r. l_seq r \<le> ?hi) (?due ?stop) = rs"
          using take_upto [of l_seq "?due ?stop" "nat n"] dueRows_sorted [OF ok] n full
          by (simp add: rs_def)
        moreover have "filter (\<lambda>r. l_seq r \<le> ?hi) (?due ?stop) = ?due ?hi"
          unfolding dueRows_def filter_filter using hi(2) by (intro filter_cong) auto
        ultimately show ?thesis by simp
      qed
      ultimately show thesis using some [OF hi] r full False by simp
    next
      case False': False
      then have rs: "rs = ?due ?stop" using n by (auto simp: rs_def min_def split: if_splits)
      with ne obtain x where "x \<in> set (?due ?stop)" by (cases "?due ?stop") auto
      then have "after < ?stop" using dueRows_in [of x] by fastforce
      then show thesis using some [of ?stop] r rs False' False by simp
    qed
  qed
qed

subsection \<open>A turn\<close>

interpretation ro: frame "(=)"
  by unfold_locales auto

lemma rowValue_tabs: "rowValue L s cbor uri w = (r, w') \<Longrightarrow> tabs w' = tabs w"
proof -
  have "keeps (=) (rowValue L s cbor uri)"
    unfolding rowValue_def Let_def by (intro ro.rules)
  then show "rowValue L s cbor uri w = (r, w') \<Longrightarrow> tabs w' = tabs w"
    using keepsD by fastforce
qed

lemma rowValue_inline: "rowValue L s cbor uri w = (Inr v, w') \<Longrightarrow> cbor \<noteq> [] \<Longrightarrow> v = cbor"
  by (simp add: rowValue_def)

definition reached :: "cursor \<Rightarrow> bool" where
  "reached c \<longleftrightarrow> (case c_until c of None \<Rightarrow> False | Some u \<Rightarrow> u \<le> c_inspect c)"

text \<open>Between the two positions of the cursor exactly the due rows were sent.\<close>

definition advanced :: "tables \<Rightarrow> uuid \<Rightarrow> cursor \<Rightarrow> tail_response list \<Rightarrow> cursor \<Rightarrow> tail_response list \<Rightarrow> bool" where
  "advanced t run c ms c' ms' \<longleftrightarrow>
     c_stream c' = c_stream c \<and> c_prefix c' = c_prefix c \<and> c_until c' = c_until c \<and>
     c_inspect c \<le> c_inspect c' \<and>
     (c_inspect c' = c_inspect c \<or> c_inspect c' \<le> streamEnd run (c_stream c) t) \<and>
     (\<exists>new. ms' = ms @ new \<and> (\<forall>m\<in>set new. m_stream m = c_stream c) \<and>
        list_all2 carries (dueRows t run (c_stream c) (c_prefix c) (c_inspect c) (c_inspect c')) new)"

lemma advanced_refl: "advanced t run c ms c ms"
  by (simp add: advanced_def dueRows_empty)

lemma advanced_trans:
  assumes ok: "logOK t" and a: "advanced t run c ms c1 ms1" and b: "advanced t run c1 ms1 c2 ms2"
  shows "advanced t run c ms c2 ms2"
proof -
  from a obtain new where new: "ms1 = ms @ new" "\<forall>m\<in>set new. m_stream m = c_stream c"
    "list_all2 carries (dueRows t run (c_stream c) (c_prefix c) (c_inspect c) (c_inspect c1)) new"
    by (auto simp: advanced_def)
  from a b obtain new' where new': "ms2 = ms1 @ new'" "\<forall>m\<in>set new'. m_stream m = c_stream c"
    "list_all2 carries (dueRows t run (c_stream c) (c_prefix c) (c_inspect c1) (c_inspect c2)) new'"
    by (auto simp: advanced_def)
  have le: "c_inspect c \<le> c_inspect c1" "c_inspect c1 \<le> c_inspect c2"
    using a b by (simp_all add: advanced_def)
  have "list_all2 carries (dueRows t run (c_stream c) (c_prefix c) (c_inspect c) (c_inspect c2)) (new @ new')"
    unfolding dueRows_split [OF ok le] using new(3) new'(3) by (rule list_all2_appendI)
  with a b new new' le show ?thesis unfolding advanced_def by (auto intro!: exI [of _ "new @ new'"])
qed

lemma advanced_move:
  assumes "c_inspect c \<le> y" and "y \<le> streamEnd run (c_stream c) t \<or> y = c_inspect c"
    and "dueRows t run (c_stream c) (c_prefix c) (c_inspect c) y = []"
  shows "advanced t run c ms (c\<lparr>c_inspect := y\<rparr>) ms"
  using assms by (auto simp: advanced_def)

lemma dueRows_Cons:
  assumes ok: "logOK t" and d: "dueRows t run stream p lo hi = r # rs"
  shows "dueRows t run stream p lo (l_seq r) = [r]" "dueRows t run stream p (l_seq r) hi = rs"
    "lo < l_seq r" "l_seq r \<le> hi" "l_stream r = stream"
proof -
  have r: "lo < l_seq r" "l_seq r \<le> hi" "l_stream r = stream"
    using dueRows_in [of r] d by (metis list.set_intros(1))+
  then show "lo < l_seq r" "l_seq r \<le> hi" "l_stream r = stream" .
  let ?A = "dueRows t run stream p lo (l_seq r)" and ?B = "dueRows t run stream p (l_seq r) hi"
  have split: "?A @ ?B = r # rs"
    using dueRows_split [OF ok, of lo "l_seq r" hi run stream p] r d by simp
  have "r \<notin> set ?B" using dueRows_in [of r] by fastforce
  with split obtain A where A: "?A = r # A" by (cases ?A) auto
  have "A = []"
  proof (rule ccontr)
    assume "A \<noteq> []"
    then obtain x where x: "x \<in> set A" by (cases A) auto
    have "sorted (map l_seq ?A) \<and> distinct (map l_seq ?A)" by (rule dueRows_sorted [OF ok])
    with A x have "l_seq r \<le> l_seq x" "l_seq r \<noteq> l_seq x" by auto
    moreover have "l_seq x \<le> l_seq r" using dueRows_in [of x] A x by (metis list.set_intros(2))
    ultimately show False by simp
  qed
  with A split show "?A = [r]" "?B = rs" by simp_all
qed

lemma deliver_some:
  assumes "deliver L s send (map (\<lambda>r. (Some r, hi)) rs) inspect progress c ms w = (turn, c', ms', w')"
    and "rs = dueRows t run (c_stream c) (c_prefix c) (c_inspect c) hi" and "c_inspect c \<le> hi"
    and "hi \<le> streamEnd run (c_stream c) t" and "inspect \<le> hi" and "rs = [] \<Longrightarrow> inspect = hi"
    and "inspect < hi \<or> progress \<or> rs = []" and "\<And>u. c_until c = Some u \<Longrightarrow> c_inspect c \<le> u" and ok: "logOK t"
  shows "advanced t run c ms c' ms' \<and> tabs w' = tabs w \<and>
    (\<forall>p. turn = Go p \<longrightarrow> (progress \<longrightarrow> p) \<and> (p \<or> rs = [] \<or> reached c'))"
  using assms(1-8)
proof (induction rs arbitrary: inspect progress c ms w)
  case Nil
  then show ?case by (auto intro: advanced_move)
next
  case (Cons r rs)
  note d = dueRows_Cons [OF ok Cons.prems(2) [symmetric]]
  show ?case
  proof (cases "case c_until c of None \<Rightarrow> False | Some u \<Rightarrow> l_seq r > u")
    case True
    then obtain u where u: "c_until c = Some u" "u < l_seq r" by (auto split: option.splits)
    with Cons.prems(1) have res: "turn = Go progress" "c' = c\<lparr>c_inspect := u\<rparr>" "ms' = ms" "w' = w"
      by auto
    have x: "c_inspect c \<le> u" using Cons.prems(8) [OF u(1)] .
    have "dueRows t run (c_stream c) (c_prefix c) (c_inspect c) u @
        dueRows t run (c_stream c) (c_prefix c) u (l_seq r) = [r]"
      using dueRows_split [OF ok x, of "l_seq r"] u(2) d(1) by simp
    moreover have "r \<notin> set (dueRows t run (c_stream c) (c_prefix c) (c_inspect c) u)"
      using dueRows_in [of r] u(2) by fastforce
    ultimately have "dueRows t run (c_stream c) (c_prefix c) (c_inspect c) u = []"
      by (cases "dueRows t run (c_stream c) (c_prefix c) (c_inspect c) u") auto
    with x u d Cons.prems(4) res show ?thesis by (auto intro: advanced_move simp: reached_def)
  next
    case False
    obtain v x where v: "rowValue L s (l_cbor r) (l_uri r) w = (v, x)" by fastforce
    note tx = rowValue_tabs [OF v]
    show ?thesis
    proof (cases v)
      case (Inl e)
      with Cons.prems(1) False v tx show ?thesis by (auto simp: advanced_refl)
    next
      case (Inr val)
      let ?m = "\<lparr>m_stream = c_stream c, m_seq = l_seq r, m_key = l_key r, m_value = val, m_created = l_created r\<rparr>"
      let ?c = "c\<lparr>c_inspect := l_seq r\<rparr>"
      have car: "carries r ?m" using rowValue_inline v Inr d(5) by (auto simp: carries_def)
      have one: "advanced t run c ms ?c (ms @ [?m])"
        using d(1,3,4) Cons.prems(4) car by (auto simp: advanced_def)
      show ?thesis
      proof (cases "send ms ?m")
        case (SentErr e)
        with Cons.prems(1) False v Inr tx show ?thesis by (auto simp: advanced_refl)
      next
        case SentStop
        with Cons.prems(1) False v Inr tx one show ?thesis by auto
      next
        case SentOK
        have go: "deliver L s send (map (\<lambda>r. (Some r, hi)) rs) hi True ?c (ms @ [?m]) x = (turn, c', ms', w')"
          using Cons.prems(1,5,7) False v Inr SentOK by (auto simp: Let_def split: if_splits)
        have "advanced t run ?c (ms @ [?m]) c' ms' \<and> tabs w' = tabs x \<and>
            (\<forall>p. turn = Go p \<longrightarrow> (True \<longrightarrow> p) \<and> (p \<or> rs = [] \<or> reached c'))"
          by (rule Cons.IH [OF go]) (use d Cons.prems(4) False in \<open>auto split: option.splits\<close>)
        then show ?thesis using advanced_trans [OF ok one] tx by auto
      qed
    qed
  qed
qed

subsection \<open>The whole turn\<close>

definition behind :: "tables \<Rightarrow> uuid \<Rightarrow> cursor \<Rightarrow> bool" where
  "behind t run c \<longleftrightarrow> \<not> reached c \<and> c_inspect c < streamEnd run (c_stream c) t"

lemma readCursor_turn:
  assumes "readCursor L s run send ctxErr progress c ms w = (turn, c', ms', w')"
    and ok: "logOK (tabs w)" and "0 \<le> c_inspect c"
  shows "advanced (tabs w) run c ms c' ms' \<and> tabs w' = tabs w \<and>
    (\<forall>p. turn = Go p \<longrightarrow> (progress \<longrightarrow> p) \<and> (p \<or> \<not> behind (tabs w) run c'))"
proof (cases "ctxErr \<noteq> None \<or> reached c")
  case True
  then show ?thesis
    using assms(1) by (auto simp: readCursor_def advanced_refl reached_def behind_def split: if_splits option.splits)
next
  case False
  let ?q = "readFiltered run (c_stream c) (c_inspect c) (if c_prefix c = [] then None else Some (c_prefix c))
      (PrefixSuccessor (c_prefix c)) (batchSize s)"
  obtain res v where q: "query ?q w = (res, v)" by fastforce
  have v: "tabs v = tabs w" using withinD [OF ro.w.qry q] by simp
  have run: "(case res of Inl e \<Rightarrow> (Returned (Some e), c, ms, v)
      | Inr rows \<Rightarrow> deliver L s send rows (c_inspect c) progress c ms v) = (turn, c', ms', w')"
    using assms(1) False q by (auto simp: readCursor_def reached_def split: option.splits sum.splits)
  show ?thesis
  proof (cases res)
    case (Inl e)
    with run v show ?thesis by (auto simp: advanced_refl)
  next
    case (Inr rows)
    with q have rows: "?q (tabs w) = rows" by (simp add: query_Inr)
    have n: "1 \<le> batchSize s" using batchSize_range by simp
    let ?stop = "streamEnd run (c_stream c) (tabs w)"
    let ?due = "dueRows (tabs w) run (c_stream c) (c_prefix c) (c_inspect c)"
    show ?thesis
    proof (rule readFiltered_due [OF ok n assms(3) rows])
      assume none: "rows = [(None, ?stop)]" "?due ?stop = []"
      have "turn = Go (progress \<or> ?stop > c_inspect c)" "ms' = ms" "w' = v"
        "c' = c\<lparr>c_inspect := max (c_inspect c) ?stop\<rparr>"
        using run Inr none(1) by (auto simp: Let_def max_def split: if_splits)
      moreover have "advanced (tabs w) run c ms (c\<lparr>c_inspect := max (c_inspect c) ?stop\<rparr>) ms"
        using none(2) by (intro advanced_move) (auto simp: max_def dueRows_empty)
      ultimately show ?thesis using v by (auto simp: behind_def)
    next
      fix hi
      assume some: "c_inspect c < hi" "hi \<le> ?stop" "rows = map (\<lambda>r. (Some r, hi)) (?due hi)" "?due hi \<noteq> []"
      from run Inr some(3) have "deliver L s send (map (\<lambda>r. (Some r, hi)) (?due hi))
          (c_inspect c) progress c ms v = (turn, c', ms', w')" by simp
      from deliver_some [OF this refl _ some(2) _ _ _ _ ok] some False v show ?thesis
        by (auto simp: reached_def behind_def split: option.splits)
    qed
  qed
qed

end
