(* ===== verification/Runlog_Properties.thy ===== *)
theory Runlog_Properties
  imports Runlog_Read
begin

section \<open>Properties of the log\<close>

text \<open>
  Appending: what a successful append writes, retries by append id, the invariant of the
  log's tables, the batch digest; and reading back what was appended.
\<close>

lemma locked_id: "t_streams t (run, stream) \<noteq> None \<Longrightarrow> locked run stream t = t"
  by (auto simp: nextSeq_def map_upd_triv)

lemma AppendTx_new:
  assumes "AppendTx L s run stream aid es w = (Inr r, w')"
    and "logOK (tabs w)" and "int (length es) < 2 ^ 63"
    and "aid = [] \<or> t_appends (tabs w) (run, stream, aid) = None"
  shows "r = (nextSeq (tabs w) run stream, nextSeq (tabs w) run stream + int (length es) - 1) \<and>
    appended s run stream aid es (nextSeq (tabs w) run stream)
      (nextSeq (tabs w) run stream + int (length es) - 1) (tabs w) (tabs w')"
  using assms(1)
proof (cases rule: AppendTx_Inr)
  case (old row)
  with assms(4) show ?thesis by simp
next
  case (new first fin)
  have "es \<noteq> []" using AppendTx_nonempty [OF assms(1)] .
  then have "1 \<le> int (length es)" by (cases es) auto
  with new assms(2,3) have "fin = first + int (length es) - 1"
    using last_exact [of first "int (length es)" fin] by (auto simp: logOK_def)
  with new show ?thesis by simp
qed

text \<open>One more attempt of an append, whatever the attempts before it did.\<close>

lemma append_again:
  assumes "logOK (tabs w)" "aid \<noteq> []" "t_appends (tabs w) (run, stream, aid) = None"
    and "int (length es) < 2 ^ 63" and "first = nextSeq (tabs w) run stream"
    and "fin = first + int (length es) - 1"
    and was: "tabs v = tabs w \<or> appended s run stream aid es first fin (tabs w) (tabs v)"
    and run: "AppendEntries L s run stream aid es v = (res, v')"
  shows "tabs v' = tabs w \<or> appended s run stream aid es first fin (tabs w) (tabs v')"
proof (cases "tabs v' = tabs v")
  case True
  with was show ?thesis by simp
next
  case False
  with AppendEntries_tabs [OF run] obtain w1 w2 r where w1: "tabs w1 = tabs v"
    and tx: "AppendTx L s run stream aid es w1 = (Inr r, w2)" and w2: "tabs v' = tabs w2" by blast
  from was show ?thesis
  proof
    assume "tabs v = tabs w"
    then show ?thesis using AppendTx_new [OF tx] assms w1 w2 by simp
  next
    assume a: "appended s run stream aid es first fin (tabs w) (tabs v)"
    then have there: "t_appends (tabs w1) (run, stream, aid) \<noteq> None"
      "t_streams (tabs v) (run, stream) \<noteq> None" using w1 assms(2) by (auto simp: appended_def)
    from tx show ?thesis
    proof (cases rule: AppendTx_Inr)
      case (old row)
      with w1 w2 there(2) False show ?thesis by (simp add: locked_id)
    next
      case (new first' fin')
      with there(1) assms(2) show ?thesis by simp
    qed
  qed
qed

lemma be64_prefix:
  assumes "be64 n @ xs = be64 m @ ys" "n < 2 ^ 64" "m < 2 ^ 64"
  shows "n = m \<and> xs = ys"
proof -
  from assms(1) have "be64 n = be64 m \<and> xs = ys"
    by (simp add: append_eq_append_conv)
  with be64_inj assms(2,3) show ?thesis by blast
qed

lemma field_prefix:
  assumes "be64 (length k) @ k @ xs = be64 (length k') @ k' @ ys"
    and "length k < 2 ^ 64" "length k' < 2 ^ 64"
  shows "k = k' \<and> xs = ys"
proof -
  from be64_prefix [OF assms] have "length k = length k'" "k @ xs = k' @ ys" by simp_all
  then show ?thesis by (simp add: append_eq_append_conv)
qed

lemma be64_nonempty [simp]: "be64 n \<noteq> []"
  using length_be(1) [of n] by (metis list.size(3) zero_neq_numeral)

definition fits :: "entry list \<Rightarrow> bool" where
  "fits es \<longleftrightarrow> list_all (\<lambda>(k, v). length k < 2 ^ 64 \<and> length v < 2 ^ 64) es"

lemma digestInput_inj:
  assumes "digestInput es = digestInput es'" and "fits es" and "fits es'"
  shows "es = es'"
  using assms
proof (induction es arbitrary: es')
  case Nil
  show ?case
  proof (cases es')
    case (Cons e r)
    obtain k v where "e = (k, v)" by fastforce
    with Nil Cons show ?thesis by (simp add: digestInput_def)
  qed simp
next
  case (Cons e es)
  obtain k v where e: "e = (k, v)" by fastforce
  have d: "digestInput ((k, v) # r) = be64 (length k) @ k @ be64 (length v) @ v @ digestInput r" for k v r
    by (simp add: digestInput_def)
  show ?case
  proof (cases es')
    case Nil
    with Cons.prems(1) show ?thesis by (simp add: e digestInput_def)
  next
    case c: (Cons e' r)
    obtain k' v' where e': "e' = (k', v')" by fastforce
    from Cons.prems c e e' have
      eq: "be64 (length k) @ k @ be64 (length v) @ v @ digestInput es =
        be64 (length k') @ k' @ be64 (length v') @ v' @ digestInput r"
      and len: "length k < 2 ^ 64" "length v < 2 ^ 64" "length k' < 2 ^ 64" "length v' < 2 ^ 64"
      and f: "fits es" "fits r"
      by (simp_all add: d fits_def)
    from field_prefix [OF eq len(1,3)] have k: "k = k'"
      and eq': "be64 (length v) @ v @ digestInput es = be64 (length v') @ v' @ digestInput r"
      by simp_all
    from field_prefix [OF eq' len(2,4)] Cons.IH f have "v = v'" "es = r" by blast+
    with k c e e' show ?thesis by simp
  qed
qed

subsection \<open>A service to try them on\<close>

definition demoLib :: lib where
  "demoLib = \<lparr>uuidString = (\<lambda>i. replicate (unat i) CHR ''a''),
     uuidParse = (\<lambda>s. if s = ''run'' then Some 7 else None), cborWellformed = (\<lambda>_. True)\<rparr>"

definition demoTables :: tables where
  "demoTables = emptyTables\<lparr>t_runs := [7 \<mapsto> newRun 5 0]\<rparr>"

definition demoWorld :: world where
  "demoWorld = \<lparr>tabs = demoTables, objects = Map.empty, clock = 1, ids = of_nat, drawn = 0,
     faults = (\<lambda>_. None), landed = (\<lambda>_. False), calls = 0\<rparr>"

text \<open>Values of more than two bytes go to the object store.\<close>

definition demoLog :: logService where
  "demoLog = \<lparr>hasDB = True, hasStore = True, bucket = ''b'', inlineLimit = 2, maxRecord = 100,
     maxBatch = 1000, tailBatchSize = 0, maxResponseBuffer = 0\<rparr>"

definition demoEntries :: "entry list" where
  "demoEntries = [([1], [2]), ([3], [4, 5, 6])]"

lemmas act_defs = andThen_def mapErr_def call_def query_def stmt_def newID_def putObject_def
  transaction_def

lemmas demo_defs = emptyTables_def newRun_def demoLib_def demoTables_def demoWorld_def demoLog_def demoEntries_def

definition demoAfter :: world where
  "demoAfter = snd (AppendEntries demoLib demoLog 7 ''log'' ''id'' demoEntries demoWorld)"

lemma streamOK_log: "streamOK ''log''"
  by (simp add: streamOK_def letters_def)

lemma demo_append:
  "AppendEntries demoLib demoLog 7 ''log'' ''id'' demoEntries demoWorld = (Inr (1, 2), demoAfter)"
  "calls demoAfter = 14" "faults demoAfter = (\<lambda>_. None)"
  by (simp_all add: demoAfter_def AppendEntries_def AppendTx_def lockStream_def appendNew_def
      storeValue_def Let_def act_defs demo_defs streamOK_log limits_def wrap64_def
      createLogStream_def insertLogRecord_def insertLogAppend_def updateNextSeq_def
      insertBlobIfAbsent_def)

text \<open>The rows just appended are what a query from their first number finds.\<close>

lemma readLogRecords_appended:
  assumes "logOK t" and "logOK t'" and "first = nextSeq t run stream"
    and "rowsOf run stream first es rows" and "streamRows t' run stream = streamRows t run stream @ rows"
    and "length rows \<le> n"
  shows "readLogRecords run stream (first - 1) None (int n) t' = rows"
proof -
  have "map l_seq (streamRows t run stream) = [1..first - 1]"
    using assms(1,3) by (simp add: logOK_def)
  then have "set (map l_seq (streamRows t run stream)) = {1..first - 1}" by simp
  then have "l_seq r \<le> first - 1" if "r \<in> set (streamRows t run stream)" for r
    using that by fastforce
  then have old: "filter (\<lambda>r. first - 1 < l_seq r) (streamRows t run stream) = []"
    by (fastforce simp: filter_empty_conv)
  have "set (map l_seq rows) = {first..first + int (length es) - 1}"
    using assms(4) by (simp add: rowsOf_def del: set_map)
  then have new: "filter (\<lambda>r. first - 1 < l_seq r) rows = rows"
  proof (intro filter_True ballI)
    fix r assume "r \<in> set rows"
    then have "l_seq r \<in> set (map l_seq rows)" by simp
    then show "first - 1 < l_seq r" unfolding \<open>set (map l_seq rows) = _\<close> by simp
  qed
  show ?thesis
    using readLogRecords_logOK [OF assms(2)] assms(5,6) old new by simp
qed

text \<open>The checks that \<open>Read\<close> shares with the other calls pass for a run that exists.\<close>

lemma validateRun_ok:
  assumes "uuidParse L name = Some run" and "hasDB s" and "quiet w" and "t_runs (tabs w) run \<noteq> None"
  shows "runsTo (validateRun L s None name) w run"
  unfolding validateRun_def using assms
  by (auto intro!: runsTo_seq runsTo_maps runsTo_query)

lemma andThen_ret: "andThen (ret x) f = f x"
  by (rule ext) (simp add: andThen_def)

lemma Read_runs:
  assumes "runsTo (validateRun L s None name) w run" and "streamOK stream" and "0 \<le> after"
    and "1 \<le> lim" "lim \<le> 1000" and "quiet w"
    and "readLogRecords run stream after None (lim + 1) (tabs w) = rows" and "int (length rows) \<le> lim"
    and "\<And>n. calls w \<le> n \<Longrightarrow> runsTo (readRows L s rows) (w\<lparr>calls := n\<rparr>) records"
  shows "runsTo (Read L s None name stream after lim None) w (records, False)"
  unfolding Read_def
proof (rule runsTo_seq [OF assms(1)])
  fix n
  assume n: "calls w \<le> n"
  let ?v = "w\<lparr>calls := n\<rparr>"
  have q: "runsTo (mapErr internal (query (readLogRecords run stream after None (lim + 1)))) ?v rows"
    using runsTo_maps [OF runsTo_query [of ?v]] quiet_calls [OF assms(6) n] assms(7) by fastforce
  have "runsTo (andThen (mapErr internal (query (readLogRecords run stream after None (lim + 1))))
      (\<lambda>rows. let truncated = int (length rows) > lim in
         andThen (readRows L s (if truncated then take (nat lim) rows else rows)) (\<lambda>records.
         ret (records, truncated)))) ?v (records, False)"
  proof (rule runsTo_seq [OF q])
    fix m
    assume m: "calls ?v \<le> m"
    show "runsTo (let truncated = int (length rows) > lim in
         andThen (readRows L s (if truncated then take (nat lim) rows else rows)) (\<lambda>records.
         ret (records, truncated))) (?v\<lparr>calls := m\<rparr>) (records, False)"
      using runsTo_seq [OF assms(9), of m "\<lambda>r. ret (r, False)"] n m assms(8) by (simp add: Let_def)
  qed
  then show "runsTo (andThen (orFail (checkCheckpointScope None run stream
        [case None of None \<Rightarrow> [] | Some k \<Rightarrow> k])) (\<lambda>_.
     if \<not> streamOK stream then fail (invalid ''invalid stream'')
     else if after < 0 then fail (invalid ''after_seq must be nonnegative'')
     else
       (let limit = (if lim = 0 then 100 else lim) in
        if limit < 1 \<or> limit > 1000 then fail (invalid ''limit is out of range'')
        else
          andThen (mapErr internal (query (readLogRecords run stream after None (limit + 1)))) (\<lambda>rows.
          let truncated = int (length rows) > limit in
          andThen (readRows L s (if truncated then take (nat limit) rows else rows)) (\<lambda>records.
          ret (records, truncated)))))) ?v (records, False)"
    using assms(2-5) by (simp add: checkCheckpointScope_def orFail_def andThen_ret)
qed

subsection \<open>Properties\<close>

text \<open>
  A successful append that is not a retry writes its batch and nothing else: the range
  it returns continues the stream without a gap, one row per entry is added, in the order of
  the entries and numbered by that range, inline or as a reference to the blob with the
  value's digest, and \<open>next_seq\<close> follows the range.
\<close>

theorem append_writes:
  assumes "AppendEntries L s run stream aid es w = (Inr (first, fin), w')"
    and "logOK (tabs w)" and "int (length es) < 2 ^ 63"
    and "aid = [] \<or> t_appends (tabs w) (run, stream, aid) = None"
  shows "first = nextSeq (tabs w) run stream \<and> fin = first + int (length es) - 1 \<and>
    nextSeq (tabs w') run stream = fin + 1 \<and> sameButLog (tabs w) (tabs w') \<and>
    (\<exists>rows. t_records (tabs w') = t_records (tabs w) @ rows \<and> rowsOf run stream first es rows)"
proof -
  from assms(1) obtain w1 w2 where "AppendTx L s run stream aid es w1 = (Inr (first, fin), w2)"
    "tabs w' = tabs w2" "tabs w1 = tabs w"
    unfolding AppendEntries_def by (rule transaction_Inr)
  then have "(first, fin) = (nextSeq (tabs w) run stream, nextSeq (tabs w) run stream + int (length es) - 1)"
    "appended s run stream aid es first fin (tabs w) (tabs w')"
    using AppendTx_new [of L s run stream aid es w1 "(first, fin)" w2] assms by auto
  then show ?thesis using nextSeq_appended [of s run stream aid es first fin "tabs w" "tabs w'"]
    by (auto simp: appended_def)
qed

lemma demo_logOK: "logOK (tabs demoWorld)"
  by (simp add: logOK_def nextSeq_def streamRows_def demo_defs)

theorem append_writes_witness:
  "nextSeq (tabs demoAfter) 7 ''log'' = 3 \<and>
   (\<exists>rows. t_records (tabs demoAfter) = t_records (tabs demoWorld) @ rows \<and>
      rowsOf 7 ''log'' 1 demoEntries rows)"
  using append_writes [OF demo_append(1) demo_logOK] by (simp add: demo_defs)



text \<open>
  Every append, successful or not, keeps the log well-formed: the records of each
  stream are numbered from 1 without gaps, \<open>next_seq\<close> is one past the last and stays below
  \<open>2 ^ 63\<close>, and every recorded append id has a range below it.
\<close>

theorem append_keeps_log:
  assumes "AppendEntries L s run stream aid es w = (res, w')"
    and "logOK (tabs w)" and "int (length es) < 2 ^ 63"
  shows "logOK (tabs w')"
  using AppendEntries_tabs [OF assms(1)] AppendTx_logOK assms(2,3) by metis

theorem append_keeps_log_witness: "logOK (tabs demoAfter)"
  by (rule append_keeps_log [OF demo_append(1) demo_logOK]) (simp add: demo_defs)

text \<open>
  An append whose id is taken by a batch with another digest fails and changes no
  table, whatever else fails.
\<close>

theorem append_conflict:
  assumes "aid \<noteq> []" and "t_appends (tabs w) (run, stream, aid) = Some row"
    and "p_digest row \<noteq> batchDigest es" and "AppendEntries L s run stream aid es w = (res, w')"
  shows "(\<exists>e. res = Inl e) \<and> tabs w' = tabs w"
proof -
  have no: "AppendTx L s run stream aid es w1 \<noteq> (Inr r, w2)" if "tabs w1 = tabs w" for w1 w2 r
  proof
    assume "AppendTx L s run stream aid es w1 = (Inr r, w2)"
    then show False by (cases rule: AppendTx_Inr) (use assms that in auto)
  qed
  have "res \<noteq> Inr r" for r
  proof
    assume "res = Inr r"
    with assms(4) have "transaction unavailable unavailable (AppendTx L s run stream aid es) w = (Inr r, w')"
      by (simp add: AppendEntries_def)
    then show False by (rule transaction_Inr) (use no in blast)
  qed
  then have "\<exists>e. res = Inl e" by (cases res) auto
  moreover have "tabs w' = tabs w" using AppendEntries_tabs [OF assms(4)] no by blast
  ultimately show ?thesis by blast
qed

theorem append_conflict_witness:
  "\<exists>e. fst (AppendEntries demoLib demoLog 7 ''log'' ''id'' demoEntries
     (demoWorld\<lparr>tabs := demoTables\<lparr>t_appends :=
        [(7, ''log'', ''id'') \<mapsto> \<lparr>p_digest = [], p_first = 1, p_last = 1\<rparr>]\<rparr>\<rparr>)) = Inl e"
proof -
  let ?row = "\<lparr>p_digest = [], p_first = 1, p_last = 1\<rparr>"
  let ?w = "demoWorld\<lparr>tabs := demoTables\<lparr>t_appends := [(7, ''log'', ''id'') \<mapsto> ?row]\<rparr>\<rparr>"
  have "p_digest ?row \<noteq> batchDigest demoEntries"
    using length_sha256 [of "digestInput demoEntries"] by (auto simp: batchDigest_def simp del: length_sha256)
  then show ?thesis
    using append_conflict [of "''id''" ?w 7 "''log''" ?row demoEntries demoLib demoLog, OF _ _ _ surjective_pairing]
    by simp
qed

text \<open>
  The digest that tells a retry from a conflict separates batches: two batches with
  the same digest are equal or are a collision of SHA-256, since the input of the hash
  determines the keys and the values (each shorter than \<open>2 ^ 64\<close> bytes).
\<close>

theorem batchDigest_separates:
  assumes "batchDigest es = batchDigest es'" and "fits es" and "fits es'"
  shows "es = es' \<or> digestInput es \<noteq> digestInput es' \<and>
    sha256 (digestInput es) = sha256 (digestInput es')"
  using assms digestInput_inj by (auto simp: batchDigest_def)

theorem batchDigest_separates_witness:
  "[([1::byte], [2::byte])] = [([1], [2])]"
proof -
  have "[([1::byte], [2::byte])] = [([1], [2])] \<or> digestInput [([1], [2])] \<noteq> digestInput [([1], [2])] \<and>
    sha256 (digestInput [([1], [2])]) = sha256 (digestInput [([1], [2])])"
    by (rule batchDigest_separates) (simp_all add: fits_def)
  then show ?thesis by simp
qed

text \<open>
  C13: What was appended is read back. Right after an append of at most 1000 entries to a
  well-formed log, while no call fails, \<open>Read\<close> of the range it returned gives exactly its
  keys and values, in order, those spilled to the object store included, provided no object
  there has the SHA-256 of one of the large values without being that value.
\<close>

theorem read_returns_appended:
  assumes "AppendEntries L s run stream aid es w = (Inr (first, fin), w')"
    and "logOK (tabs w)" and "length es \<le> 1000"
    and "aid = [] \<or> t_appends (tabs w) (run, stream, aid) = None"
    and "hasDB s" and "fst (snd (limits s)) < 2 ^ 63 - 1"
    and "uuidParse L name = Some run" and "t_runs (tabs w) run \<noteq> None"
    and "idsOK L K w" and "blobOK L K (tabs w) w" and "drawn w' \<le> K"
    and "quiet w'" and "\<And>key value. (key, value) \<in> set es \<Longrightarrow> fst (limits s) < int (length value) \<Longrightarrow>
      noCollision value w'"
  shows "\<exists>records. runsTo (Read L s None name stream (first - 1) (int (length es)) None) w' (records, False) \<and>
    map (\<lambda>r. (rec_key r, rec_value r)) records = es \<and> map rec_seq records = [first..fin]"
proof -
  from assms(1) obtain w1 w2 where tx: "AppendTx L s run stream aid es w1 = (Inr (first, fin), w2)"
    and w: "tabs w' = tabs w2" "tabs w1 = tabs w"
    unfolding AppendEntries_def by (rule transaction_Inr)
  have a: "appended s run stream aid es first fin (tabs w) (tabs w')"
    and first: "first = nextSeq (tabs w) run stream" and fin: "fin = first + int (length es) - 1"
    using AppendTx_new [OF tx] assms(2-4) w by auto
  have ck: "streamOK stream" "es \<noteq> []"
      "checkEntries L (fst (snd (limits s))) (snd (snd (limits s))) 0 es = None"
    using AppendTx_checked [OF tx] by simp_all
  have b: "blobOK L K (tabs w') w'"
    using withinD [OF transaction_spill [OF spill.AppendTx] assms(1) [unfolded AppendEntries_def]]
      assms(9-11) by (auto simp: spillRel_def)
  have ok': "logOK (tabs w')"
    using AppendTx_logOK [OF tx] assms(2,3) w by simp
  obtain rows where rows: "rowsOf run stream first es rows"
    "list_all2 (\<lambda>e. spilledOK s (tabs w') (snd e)) es rows"
    and rec: "t_records (tabs w') = t_records (tabs w) @ rows"
    using a by (auto simp: appended_def)
  have sr: "streamRows (tabs w') run stream = streamRows (tabs w) run stream @ rows"
    using rowsOf_streamRows [OF rows(1), of run stream] by (simp add: streamRows_def rec)
  have len: "length rows = length es" using rows(2) by (simp add: list_all2_lengthD)
  have got: "readLogRecords run stream (first - 1) None (int (length es) + 1) (tabs w') = rows"
    using readLogRecords_appended [OF assms(2) ok' first rows(1) sr, of "Suc (length es)"] len
    by (simp add: add.commute)
  have run: "runsTo (validateRun L s None name) w' run"
    using assms(5,7,8,12) a by (intro validateRun_ok) (auto simp: appended_def sameButLog_def)
  have read: "runsTo (readRows L s rows) (w'\<lparr>calls := n\<rparr>) (map2 recordOf es rows)"
    if "calls w' \<le> n" for n
  proof (rule readRows_stored [where K = K])
    show "list_all2 (rowOf run stream) es rows" using rows(1) by (simp add: rowsOf_def)
    show "v \<noteq> [] \<and> int (length v) \<le> fst (snd (limits s)) \<and>
        (fst (limits s) < int (length v) \<longrightarrow> noCollision v (w'\<lparr>calls := n\<rparr>))"
      if "(k, v) \<in> set es" for k v
      using checkEntries_None [OF ck(3) that] assms(13) [OF that] by (simp add: noCollision_def)
  qed (use rows(2) assms(6,12) b that in \<open>simp_all add: quiet_calls\<close>)
  have "1 \<le> first" using assms(2) first by (simp add: logOK_def)
  moreover have "0 < length es" using ck(2) by simp
  ultimately have "runsTo (Read L s None name stream (first - 1) (int (length es)) None) w'
      (map2 recordOf es rows, False)"
    using assms(3,12) got len
    by (intro Read_runs [OF run ck(1) _ _ _ _ _ _ read]) (simp_all add: Suc_le_eq)
  with map2_recordOf [OF rows(1)] fin show ?thesis by auto
qed

lemma demo_ids: "idsOK demoLib 14 demoWorld"
proof -
  have "inj (uuidString demoLib)"
    by (rule injI) (simp add: demoLib_def replicate_eq_replicate unsigned_word_eqI)
  moreover have "inj_on (ids demoWorld) {..<14}"
    by (rule inj_onI) (simp add: demo_defs word_of_nat_eq_iff take_bit_eq_mod)
  ultimately show ?thesis by (simp add: idsOK_def)
qed

theorem read_returns_appended_witness:
  "\<exists>records. runsTo (Read demoLib demoLog None ''run'' ''log'' 0 2 None) demoAfter (records, False) \<and>
    map (\<lambda>r. (rec_key r, rec_value r)) records = [([1], [2]), ([3], [4, 5, 6])] \<and>
    map rec_seq records = [1, 2]"
proof -
  have obj: "objects demoAfter = [ObjectKey demoLib 0 \<mapsto> \<lparr>ob_data = [4, 5, 6], ob_checksum = []\<rparr>]"
    "drawn demoAfter = 1"
    by (simp_all add: demoAfter_def AppendEntries_def AppendTx_def lockStream_def appendNew_def
      storeValue_def Let_def act_defs demo_defs streamOK_log limits_def wrap64_def
      createLogStream_def insertLogRecord_def insertLogAppend_def updateNextSeq_def
      insertBlobIfAbsent_def)
  have "noCollision value demoAfter"
    if "(key, value) \<in> set demoEntries" "fst (limits demoLog) < int (length value)" for key "value"
    using that by (auto simp: noCollision_def obj(1) demoEntries_def demoLog_def limits_def)
  then show ?thesis
    using read_returns_appended [OF demo_append(1) demo_logOK, of "''run''" 14] demo_ids demo_append(2,3) obj(2)
    by (simp add: demoEntries_def demoLog_def demoLib_def demoTables_def emptyTables_def newRun_def demoWorld_def limits_def blobOK_def quiet_def upto_rec1)
qed

end
