(* ===== verification/Runlog_Follow.thy ===== *)
theory Runlog_Follow
  imports Runlog_Deliver Runlog_Properties
begin

section \<open>A subscription beside appends\<close>

text \<open>
  The invariant of a subscription's reachable states: what was sent of each stream is what
  was due between the cursor's start and its position, and a subscription that waits has
  nothing unread without a notification for it in its queue.
\<close>

inductive_cases sub_stepE: "sub_step L s run send st st'"

lemma AppendEntries_cases:
  assumes "AppendEntries L s run stream aid es w = (res, w')"
    and "logOK (tabs w)" and "int (length es) < 2 ^ 63"
  obtains "tabs w' = tabs w"
  | "appended s run stream aid es (nextSeq (tabs w) run stream)
       (nextSeq (tabs w) run stream + int (length es) - 1) (tabs w) (tabs w')"
  using AppendEntries_tabs [OF assms(1)]
proof (elim disjE exE conjE)
  fix w1 w2 r
  assume w1: "tabs w1 = tabs w" and tx: "AppendTx L s run stream aid es w1 = (Inr r, w2)"
    and w2: "tabs w' = tabs w2"
  show thesis
  proof (cases "aid = [] \<or> t_appends (tabs w) (run, stream, aid) = None")
    case True
    with AppendTx_new [OF tx] w1 w2 assms(2,3) that(2) show thesis by simp
  next
    case False
    then obtain row where row: "t_appends (tabs w) (run, stream, aid) = Some row" by auto
    with assms(2) have "locked run stream (tabs w) = tabs w"
      by (intro locked_id) (simp add: logOK_def)
    with False w1 w2 show thesis
      by (cases rule: AppendTx_Inr [OF tx]) (simp_all add: that(1))
  qed
qed (rule that(1))

text \<open>Appending leaves the rows up to a known position alone.\<close>

lemma dueRows_appended:
  assumes "logOK t" and a: "appended s run' stream' aid es (nextSeq t run' stream') fin t t'"
    and "hi \<le> lo \<or> hi \<le> streamEnd run stream t"
  shows "dueRows t' run stream p lo hi = dueRows t run stream p lo hi"
proof -
  obtain rows where rows: "rowsOf run' stream' (nextSeq t run' stream') es rows"
    and sr: "\<And>run stream. streamRows t' run stream = streamRows t run stream @
      (if run = run' \<and> stream = stream' then rows else [])"
    using streamRows_appended [OF a] by blast
  have "\<not> (lo < l_seq r \<and> l_seq r \<le> hi)"
    if r: "r \<in> set rows" and s: "run = run'" "stream = stream'" for r
  proof -
    from r have "l_seq r \<in> set (map l_seq rows)" by simp
    with rows have "nextSeq t run' stream' \<le> l_seq r" by (simp add: rowsOf_def del: set_map)
    with s assms(3) show ?thesis by (auto simp: streamEnd_next)
  qed
  then have "filter (\<lambda>r. lo < l_seq r \<and> l_seq r \<le> hi \<and> hasPrefix (l_key r) p)
      (if run = run' \<and> stream = stream' then rows else []) = []"
    by (auto simp: filter_empty_conv)
  then show ?thesis by (simp add: dueRows_def sr)
qed

lemma streamEnd_appended:
  assumes "appended s run' stream' aid es (nextSeq t run' stream') fin t t'"
    and "fin = nextSeq t run' stream' + int (length es) - 1"
  shows "streamEnd run stream t \<le> streamEnd run stream t'"
    "(run, stream) \<noteq> (run', stream') \<Longrightarrow> streamEnd run stream t' = streamEnd run stream t"
  using nextSeq_appended [OF assms(1)] assms(2) by (auto simp: streamEnd_next)

subsection \<open>The invariant\<close>

definition follows :: "tables \<Rightarrow> uuid \<Rightarrow> cursor \<Rightarrow> cursor \<Rightarrow> tail_response list \<Rightarrow> bool" where
  "follows t run c0 c ms \<longleftrightarrow>
     c_stream c = c_stream c0 \<and> c_prefix c = c_prefix c0 \<and> c_until c = c_until c0 \<and>
     c_inspect c0 \<le> c_inspect c \<and>
     (c_inspect c = c_inspect c0 \<or> c_inspect c \<le> streamEnd run (c_stream c0) t) \<and>
     list_all2 carries (dueRows t run (c_stream c0) (c_prefix c0) (c_inspect c0) (c_inspect c))
       (filter (\<lambda>m. m_stream m = c_stream c0) ms)"

definition notice :: "lib \<Rightarrow> uuid \<Rightarrow> cursor \<Rightarrow> string" where
  "notice L run c = uuidString L run @ '':'' @ c_stream c"

definition noticed :: "lib \<Rightarrow> uuid \<Rightarrow> sub_state \<Rightarrow> cursor \<Rightarrow> bool" where
  "noticed L run st c \<longleftrightarrow>
     behind (tabs (s_world st)) run c \<longrightarrow> notice L run c \<in> set (s_queue st)"

definition subInv :: "lib \<Rightarrow> uuid \<Rightarrow> cursor list \<Rightarrow> sub_state \<Rightarrow> bool" where
  "subInv L run cs st \<longleftrightarrow>
     logOK (tabs (s_world st)) \<and> length (s_cursors st) = length cs \<and> s_idx st \<le> length cs \<and>
     (\<forall>j<length cs. follows (tabs (s_world st)) run (cs ! j) (s_cursors st ! j) (s_sent st)) \<and>
     (s_phase st = Waiting \<longrightarrow> (\<forall>j<length cs. noticed L run st (s_cursors st ! j))) \<and>
     (s_phase st = Reading \<and> \<not> s_progress st \<longrightarrow>
        (\<forall>j < s_idx st. noticed L run st (s_cursors st ! j)))"

definition cursorsOK :: "cursor list \<Rightarrow> bool" where
  "cursorsOK cs \<longleftrightarrow> distinct (map c_stream cs) \<and> list_all (\<lambda>c. 0 \<le> c_inspect c) cs"

lemma matchingNotification_iff:
  "matchingNotification L p run cs \<longleftrightarrow> (\<exists>c\<in>set cs. p = notice L run c)"
  by (induction L p run cs rule: matchingNotification.induct) (auto simp: notice_def)

lemma subInv_start: "logOK (tabs w) \<Longrightarrow> subInv L run cs (sub_start w cs)"
  by (simp add: subInv_def sub_start_def follows_def dueRows_empty)

lemma follows_appended:
  assumes "logOK t" and "appended s run' stream' aid es (nextSeq t run' stream') fin t t'"
    and "fin = nextSeq t run' stream' + int (length es) - 1" and "follows t run c0 c ms"
  shows "follows t' run c0 c ms"
proof -
  have "c_inspect c \<le> c_inspect c0 \<or> c_inspect c \<le> streamEnd run (c_stream c0) t"
    using assms(4) by (auto simp: follows_def)
  from dueRows_appended [OF assms(1,2) this] assms(4) streamEnd_appended(1) [OF assms(2,3), of run "c_stream c0"]
  show ?thesis by (auto simp: follows_def)
qed

lemma follows_advanced:
  assumes ok: "logOK t" and f: "follows t run c0 c ms" and a: "advanced t run c ms c' ms'"
  shows "follows t run c0 c' ms'"
proof -
  from f have le: "c_inspect c0 \<le> c_inspect c" by (simp add: follows_def)
  from a have le': "c_inspect c \<le> c_inspect c'" by (simp add: advanced_def)
  from a obtain new where new: "ms' = ms @ new" "\<forall>m\<in>set new. m_stream m = c_stream c"
    "list_all2 carries (dueRows t run (c_stream c) (c_prefix c) (c_inspect c) (c_inspect c')) new"
    by (auto simp: advanced_def)
  from f have s: "c_stream c = c_stream c0" "c_prefix c = c_prefix c0"
    and l: "list_all2 carries (dueRows t run (c_stream c0) (c_prefix c0) (c_inspect c0) (c_inspect c))
       (filter (\<lambda>m. m_stream m = c_stream c0) ms)" by (simp_all add: follows_def)
  have "filter (\<lambda>m. m_stream m = c_stream c0) new = new"
    using new(2) s by (simp add: filter_id_conv)
  then have "list_all2 carries (dueRows t run (c_stream c0) (c_prefix c0) (c_inspect c0) (c_inspect c'))
      (filter (\<lambda>m. m_stream m = c_stream c0) ms')"
    unfolding new(1) filter_append dueRows_split [OF ok le le']
    using l new(3) s by (simp add: list_all2_appendI)
  then show ?thesis using f a by (auto simp: follows_def advanced_def)
qed

lemma follows_other:
  assumes "follows t run c0 c ms" and "advanced t run d ms d' ms'" and "c_stream c0 \<noteq> c_stream d"
  shows "follows t run c0 c ms'"
proof -
  from assms(2) obtain new where "ms' = ms @ new" "\<forall>m\<in>set new. m_stream m = c_stream d"
    by (auto simp: advanced_def)
  with assms(1,3) show ?thesis by (auto simp: follows_def filter_empty_conv)
qed

lemma subInv_read:
  assumes inv: "subInv L run cs st" and cs: "cursorsOK cs"
    and "s_phase st = Reading" and idx: "s_idx st < length (s_cursors st)"
  shows "subInv L run cs (readStep L s run send ctxErr st)"
proof -
  let ?i = "s_idx st" and ?t = "tabs (s_world st)"
  let ?c = "s_cursors st ! ?i"
  obtain turn c ms w where r: "readCursor L s run send ctxErr (s_progress st) ?c (s_sent st) (s_world st)
      = (turn, c, ms, w)" by (metis prod_cases4)
  have ok: "logOK ?t" and len: "length (s_cursors st) = length cs" using inv by (simp_all add: subInv_def)
  have f: "follows ?t run (cs ! j) (s_cursors st ! j) (s_sent st)" if "j < length cs" for j
    using inv that by (simp add: subInv_def)
  have "0 \<le> c_inspect (cs ! ?i)" using cs idx len by (simp add: cursorsOK_def list_all_length)
  then have "0 \<le> c_inspect ?c" using f [of ?i] idx len by (simp add: follows_def)
  from readCursor_turn [OF r ok this] have adv: "advanced ?t run ?c (s_sent st) c ms"
    and w: "tabs w = ?t" and go: "\<And>p. turn = Go p \<Longrightarrow> (s_progress st \<longrightarrow> p) \<and> (p \<or> \<not> behind ?t run c)"
    by blast+
  have str: "c_stream ?c = c_stream (cs ! ?i)" using f [of ?i] idx len by (simp add: follows_def)
  have f': "follows ?t run (cs ! j) ((s_cursors st)[?i := c] ! j) ms" if j: "j < length cs" for j
  proof (cases "j = ?i")
    case True
    with follows_advanced [OF ok f [OF j]] adv j len show ?thesis by simp
  next
    case False
    have "c_stream (cs ! j) \<noteq> c_stream (cs ! ?i)"
      using cs j idx len False by (auto simp: cursorsOK_def distinct_conv_nth)
    with follows_other [OF f [OF j] adv] str False show ?thesis by simp
  qed
  show ?thesis
  proof (cases turn)
    case (Returned e)
    with r f' ok w len idx inv show ?thesis by (simp add: readStep_def subInv_def Let_def)
  next
    case (Go p)
    have "noticed L run (readStep L s run send ctxErr st) ((s_cursors st)[?i := c] ! j)"
      if "\<not> p" "j < Suc ?i" for j
    proof (cases "j = ?i")
      case True
      with Go go that idx w r show ?thesis by (simp add: noticed_def readStep_def Let_def)
    next
      case False
      with that have "j < ?i" by simp
      moreover have "\<not> s_progress st" using Go go that by blast
      ultimately have "noticed L run st (s_cursors st ! j)" using inv assms(3) by (simp add: subInv_def)
      with False Go r w show ?thesis by (simp add: noticed_def readStep_def Let_def)
    qed
    with Go r f' ok w len idx assms(3) show ?thesis by (simp add: readStep_def subInv_def Let_def)
  qed
qed

lemma subInv_append:
  assumes inv: "subInv L run cs st"
    and a: "AppendEntries L s' run' stream' aid es (s_world st) = (res, w)" "int (length es) < 2 ^ 63"
    and q: "q = (if tabs w \<noteq> tabs (s_world st) \<and> (s_phase st = Reading \<or> s_phase st = Waiting)
          then s_queue st @ [uuidString L run' @ '':'' @ stream'] else s_queue st)"
  shows "subInv L run cs (st\<lparr>s_world := w, s_queue := q\<rparr>)"
proof -
  have ok: "logOK (tabs (s_world st))" using inv by (simp add: subInv_def)
  from AppendEntries_cases [OF a(1) ok a(2)] show ?thesis
  proof cases
    case 1
    with inv q show ?thesis by (simp add: subInv_def noticed_def)
  next
    case 2
    let ?fin = "nextSeq (tabs (s_world st)) run' stream' + int (length es) - 1"
    have ok': "logOK (tabs w)" by (rule append_keeps_log [OF a(1) ok a(2)])
    have kept: "noticed L run (st\<lparr>s_world := w, s_queue := q\<rparr>) c"
      if n: "noticed L run st c" and ph: "s_phase st = Reading \<or> s_phase st = Waiting" for c
    proof (cases "tabs w = tabs (s_world st)")
      case True
      with n q show ?thesis by (simp add: noticed_def)
    next
      case False
      with q ph have queue: "q = s_queue st @ [uuidString L run' @ '':'' @ stream']" by simp
      show ?thesis
      proof (cases "(run, c_stream c) = (run', stream')")
        case True
        with queue show ?thesis by (simp add: noticed_def notice_def)
      next
        case False
        from streamEnd_appended(2) [OF 2 refl False] n queue show ?thesis
          by (simp add: noticed_def behind_def)
      qed
    qed
    show ?thesis
      using inv ok' follows_appended [OF ok 2 refl] kept by (simp add: subInv_def)
  qed
qed

lemma subInv_roundEnd:
  assumes "subInv L run cs st" and "s_phase st = Reading" and "s_idx st = length (s_cursors st)"
  shows "subInv L run cs (roundEnd st)"
  using assms by (simp add: subInv_def roundEnd_def newRound_def noticed_def)

lemma subInv_newRound: "subInv L run cs st \<Longrightarrow> subInv L run cs (newRound st)"
  by (simp add: subInv_def newRound_def)

lemma subInv_queue:
  "subInv L run cs st \<Longrightarrow> subInv L run cs (newRound (st\<lparr>s_queue := q\<rparr>))"
  by (simp add: subInv_def newRound_def)

lemma subInv_wake:
  assumes inv: "subInv L run cs st" and ph: "s_phase st = Waiting" and q: "s_queue st \<noteq> []"
  shows "subInv L run cs (wake L run k st)"
proof (cases "matchingNotification L (hd (s_queue st)) run (s_cursors st)")
  case True
  then have "wake L run k st = newRound (st\<lparr>s_queue := drop k (tl (s_queue st))\<rparr>)"
    by (simp add: wake_def Let_def newRound_def)
  with subInv_queue [OF inv] show ?thesis by simp
next
  case False
  have "noticed L run (st\<lparr>s_queue := tl (s_queue st)\<rparr>) c"
    if "noticed L run st c" "c \<in> set (s_cursors st)" for c
  proof -
    have "notice L run c \<noteq> hd (s_queue st)" using False that(2) by (auto simp: matchingNotification_iff)
    with that(1) q show ?thesis by (cases "s_queue st") (auto simp: noticed_def)
  qed
  with False inv ph show ?thesis by (auto simp: wake_def Let_def subInv_def)
qed

lemma subInv_step:
  assumes "sub_step L s run send st st'" and inv: "subInv L run cs st" and "cursorsOK cs"
  shows "subInv L run cs st'"
  using assms(1)
proof cases
  case (append s' run' stream' aid es res w q)
  then show ?thesis using subInv_append [OF inv] by simp
next
  case (read ctxErr)
  then show ?thesis using subInv_read [OF inv assms(3)] by simp
next
  case end_of_round
  then show ?thesis using subInv_roundEnd [OF inv] by simp
next
  case (notified k)
  then show ?thesis using subInv_wake [OF inv] by simp
next
  case lost
  with inv show ?thesis by (simp add: subInv_def)
next
  case reconnected
  with inv show ?thesis by (simp add: subInv_newRound)
next
  case (canceled e)
  with inv show ?thesis by (simp add: subInv_def)
qed

lemma subInv_reachable:
  assumes "sub_reachable L s run send (sub_start w cs) st" and "logOK (tabs w)" and "cursorsOK cs"
  shows "subInv L run cs st"
  using assms(1)
proof induction
  case start
  show ?case by (rule subInv_start [OF assms(2)])
next
  case (step st st')
  then show ?case using subInv_step assms(3) by blast
qed

subsection \<open>Properties\<close>

text \<open>
  C14: A subscription delivers each due record exactly once and in order. Whatever appends
  run beside it, whichever calls fail and however often it loses its listener, what it has
  sent of a cursor's stream is exactly the stream's records with the cursor's prefix that
  are numbered after the cursor's start and up to its position, with their inline values.
\<close>

theorem follow_exact:
  assumes "sub_reachable L s run send (sub_start w cs) st" and "logOK (tabs w)" and "cursorsOK cs"
    and "j < length cs"
  shows "list_all2 carries
    (filter (\<lambda>r. c_inspect (cs ! j) < l_seq r \<and> l_seq r \<le> c_inspect (s_cursors st ! j) \<and>
        hasPrefix (l_key r) (c_prefix (cs ! j)))
      (streamRows (tabs (s_world st)) run (c_stream (cs ! j))))
    (filter (\<lambda>m. m_stream m = c_stream (cs ! j)) (s_sent st))"
  using subInv_reachable [OF assms(1-3)] assms(4) by (simp add: subInv_def follows_def dueRows_def)

text \<open>
  C15: No wakeup is lost. When a subscription waits and no notification is queued for it,
  every cursor without an upper bound has been sent all the records of its stream that have
  its prefix and are numbered after its start.
\<close>

theorem follow_caught_up:
  assumes "sub_reachable L s run send (sub_start w cs) st" and "logOK (tabs w)" and "cursorsOK cs"
    and "j < length cs" and "s_phase st = Waiting" and "s_queue st = []" and "c_until (cs ! j) = None"
  shows "list_all2 carries
    (filter (\<lambda>r. c_inspect (cs ! j) < l_seq r \<and> hasPrefix (l_key r) (c_prefix (cs ! j)))
      (streamRows (tabs (s_world st)) run (c_stream (cs ! j))))
    (filter (\<lambda>m. m_stream m = c_stream (cs ! j)) (s_sent st))"
proof -
  let ?t = "tabs (s_world st)" and ?c = "s_cursors st ! j"
  have inv: "subInv L run cs st" by (rule subInv_reachable [OF assms(1-3)])
  then have f: "follows ?t run (cs ! j) ?c (s_sent st)" and ok: "logOK ?t"
    and n: "noticed L run st ?c"
    using assms(4,5) by (simp_all add: subInv_def)
  from n assms(6,7) f have le: "streamEnd run (c_stream (cs ! j)) ?t \<le> c_inspect ?c"
    by (auto simp: noticed_def behind_def reached_def follows_def)
  have "l_seq r \<le> c_inspect ?c" if "r \<in> set (streamRows ?t run (c_stream (cs ! j)))" for r
  proof -
    from that have "l_seq r \<in> set (map l_seq (streamRows ?t run (c_stream (cs ! j))))" by simp
    with le show ?thesis by (simp add: logOK_seqs [OF ok] del: set_map)
  qed
  then have "dueRows ?t run (c_stream (cs ! j)) (c_prefix (cs ! j)) (c_inspect (cs ! j)) (c_inspect ?c) =
      filter (\<lambda>r. c_inspect (cs ! j) < l_seq r \<and> hasPrefix (l_key r) (c_prefix (cs ! j)))
        (streamRows ?t run (c_stream (cs ! j)))"
    unfolding dueRows_def by (intro filter_cong) auto
  with f show ?thesis by (simp add: follows_def)
qed

subsection \<open>A subscription to try them on\<close>

definition demoRow :: log_row where
  "demoRow = \<lparr>l_run = 7, l_stream = ''log'', l_seq = 1, l_key = [1], l_cbor = [2], l_uri = None,
     l_size = 1, l_created = 1\<rparr>"

definition demoLogged :: world where
  "demoLogged = demoWorld\<lparr>tabs := demoTables\<lparr>t_streams := [(7, ''log'') \<mapsto> 2], t_records := [demoRow]\<rparr>\<rparr>"

definition demoCursor :: cursor where
  "demoCursor = \<lparr>c_stream = ''log'', c_prefix = [], c_inspect = 0, c_until = None\<rparr>"

definition acceptAll :: send where "acceptAll ms m = SentOK"

definition sub1 :: sub_state where
  "sub1 = readStep demoLib demoLog 7 acceptAll None (sub_start demoLogged [demoCursor])"
definition sub2 :: sub_state where "sub2 = roundEnd sub1"
definition sub3 :: sub_state where "sub3 = readStep demoLib demoLog 7 acceptAll None sub2"
definition sub4 :: sub_state where "sub4 = roundEnd sub3"

lemma demoLogged_logOK: "logOK (tabs demoLogged)"
proof -
  have "[1..2 - 1] = [1::int]" by simp
  then show ?thesis
    by (auto simp: logOK_def nextSeq_def streamRows_def demoLogged_def demoRow_def demo_defs)
qed

lemma demoCursor_ok: "cursorsOK [demoCursor]"
  by (simp add: cursorsOK_def demoCursor_def)

lemma demo_batch: "batchSize demoLog = 256"
  by (simp add: batchSize_def demoLog_def wrap32_def)

lemma demo_due:
  "matchedRows 7 ''log'' 0 None upper 256 (tabs demoLogged) = [demoRow]"
  "matchedRows 7 ''log'' 1 None upper 256 (tabs demoLogged) = []"
  "streamEnd 7 ''log'' (tabs demoLogged) = 1"
  by (simp_all add: matchedRows_def streamEnd_def keyIn_def demoLogged_def demoRow_def demo_defs)

lemma demo_world: "faults demoLogged = (\<lambda>_. None)" "calls demoLogged = 0"
  by (simp_all add: demoLogged_def demoWorld_def)

lemma demoRow_fields: "l_seq demoRow = 1" "l_key demoRow = [1]" "l_cbor demoRow = [2]" "l_created demoRow = 1"
  by (simp_all add: demoRow_def)

lemmas demo_read = readStep_def readCursor_def query_def andThen_def call_def readFiltered_def
  Let_def demo_batch demoCursor_def acceptAll_def rowValue_def demoRow_fields demo_world
  PrefixSuccessor_def

lemma sub1: "sub1 = \<lparr>s_world = demoLogged\<lparr>calls := 1\<rparr>, s_cursors = [demoCursor\<lparr>c_inspect := 1\<rparr>],
    s_idx = 1, s_progress = True,
    s_sent = [\<lparr>m_stream = ''log'', m_seq = 1, m_key = [1], m_value = [2], m_created = 1\<rparr>],
    s_queue = [], s_phase = Reading\<rparr>"
  by (simp add: sub1_def sub_start_def demo_read demo_due)

lemma sub3: "sub3 = \<lparr>s_world = demoLogged\<lparr>calls := 2\<rparr>, s_cursors = [demoCursor\<lparr>c_inspect := 1\<rparr>],
    s_idx = 1, s_progress = False,
    s_sent = [\<lparr>m_stream = ''log'', m_seq = 1, m_key = [1], m_value = [2], m_created = 1\<rparr>],
    s_queue = [], s_phase = Reading\<rparr>"
  by (simp add: sub3_def sub2_def sub1 roundEnd_def newRound_def complete_def demo_read demo_due)

lemma sub4: "sub4 = sub3\<lparr>s_phase := Waiting\<rparr>"
  by (simp add: sub4_def sub3 roundEnd_def complete_def demoCursor_def)

lemma sub_reach:
  "sub_reachable demoLib demoLog 7 acceptAll (sub_start demoLogged [demoCursor]) sub1"
  "sub_reachable demoLib demoLog 7 acceptAll (sub_start demoLogged [demoCursor]) sub4"
proof -
  let ?R = "sub_reachable demoLib demoLog 7 acceptAll (sub_start demoLogged [demoCursor])"
  have "?R (sub_start demoLogged [demoCursor])" by (rule start)
  then show r1: "?R sub1"
    unfolding sub1_def by (rule step) (rule read, simp_all add: sub_start_def)
  then have "?R sub2"
    unfolding sub2_def by (rule step) (rule end_of_round, simp_all add: sub1)
  then have "?R sub3"
    unfolding sub3_def
    by (rule step) (rule read, simp_all add: sub2_def sub1 roundEnd_def newRound_def complete_def demoCursor_def)
  then show "?R sub4"
    unfolding sub4_def by (rule step) (rule end_of_round, simp_all add: sub3)
qed

lemma demo_rows: "streamRows (tabs demoLogged) 7 ''log'' = [demoRow]"
  by (simp add: streamRows_def demoLogged_def demoRow_def)

theorem follow_exact_witness: "list_all2 carries [demoRow] (s_sent sub1)"
  using follow_exact [OF sub_reach(1) demoLogged_logOK demoCursor_ok, of 0]
  by (simp add: sub1 demoCursor_def demo_rows demoRow_fields)

theorem follow_caught_up_witness: "list_all2 carries [demoRow] (s_sent sub4)"
  using follow_caught_up [OF sub_reach(2) demoLogged_logOK demoCursor_ok, of 0]
  by (simp add: sub4 sub3 demoCursor_def demo_rows demoRow_fields)


end
