(* ===== verification/Task_Logs.thy ===== *)
theory Task_Logs
  imports Runlog_Follow "HOL-Library.Sublist"
begin

section \<open>What a task writes to its log\<close>

text \<open>
  \<open>internal/runlog/tasklog.go\<close>, the events of the stream \<open>task_log\<close>, and \<open>collectTaskLogs\<close> of
  \<open>internal/lutra/worker.go\<close>, which turns the lines of a task's standard error into batches of
  events and appends them, beside everything else that appends to the database. The encoding of
  an event, its decoding and the parsing of times are parameters.
\<close>

subsection \<open>Events\<close>

definition TaskLogStream :: string where "TaskLogStream = ''task_log''"

record taskLogEvent =
  tl_type :: string
  tl_source :: string
  tl_message :: string
  tl_timestamp :: string
  tl_action :: string
  tl_attempt :: int

record logCodec =
  encodeLog :: "taskLogEvent \<Rightarrow> bytes"
  decodeLog :: "bytes \<Rightarrow> goerr + taskLogEvent"
  timeError :: "string \<Rightarrow> goerr option"

definition validateTaskLog :: "lib \<Rightarrow> logCodec \<Rightarrow> taskLogEvent \<Rightarrow> goerr option" where
  "validateTaskLog L C ev =
     (if tl_type ev \<noteq> ''task.log.v1'' \<or> tl_source ev \<noteq> ''stderr'' then Some (Plain ''invalid task log event'')
      else if uuidParse L (tl_action ev) = None then Some (Plain ''invalid task log action id'')
      else if tl_attempt ev \<le> 0 then Some (Plain ''invalid task log attempt'')
      else timeError C (tl_timestamp ev))"

definition EncodeTaskLog :: "lib \<Rightarrow> logCodec \<Rightarrow> taskLogEvent \<Rightarrow> goerr + bytes" where
  "EncodeTaskLog L C ev = (case validateTaskLog L C ev of Some e \<Rightarrow> Inl e | None \<Rightarrow> Inr (encodeLog C ev))"

definition DecodeTaskLog :: "lib \<Rightarrow> logCodec \<Rightarrow> bytes \<Rightarrow> goerr + taskLogEvent" where
  "DecodeTaskLog L C v =
     (case decodeLog C v of
        Inl e \<Rightarrow> Inl e
      | Inr ev \<Rightarrow>
          (case validateTaskLog L C ev of
             Some e \<Rightarrow> Inl e
           | None \<Rightarrow>
               (case EncodeTaskLog L C ev of
                  Inl e \<Rightarrow> Inl e
                | Inr canonical \<Rightarrow>
                    if canonical \<noteq> v then Inl (Plain ''task log event is not canonical CBOR'') else Inr ev)))"

lemma Decode_Encode:
  assumes "EncodeTaskLog L C ev = Inr v" and "decodeLog C v = Inr ev"
  shows "DecodeTaskLog L C v = Inr ev"
  using assms by (auto simp: DecodeTaskLog_def EncodeTaskLog_def split: option.splits)

subsection \<open>The lines of the pipe\<close>

text \<open>
  The inner goroutine: \<open>ReadString\<close> up to a newline, without the newline and a carriage return
  before it. What is left at the end without a newline is a line as it is.
\<close>

definition newline :: char where "newline = CHR 0x0A"

definition trimReturn :: "string \<Rightarrow> string" where
  "trimReturn s = (if s \<noteq> [] \<and> last s = CHR 0x0D then butlast s else s)"

function stderrLines :: "string \<Rightarrow> string list" where
  "stderrLines s =
     (case cut newline s of
        None \<Rightarrow> if s = [] then [] else [s]
      | Some (line, rest) \<Rightarrow> trimReturn line # stderrLines rest)"
  by pat_completeness auto

termination
  by (relation "measure length") (auto dest: cut_Some)

declare stderrLines.simps [simp del]

lemma stderrLines_unlines:
  "(\<And>l. l \<in> set ls \<Longrightarrow> newline \<notin> set l \<and> trimReturn l = l) \<Longrightarrow> stderrLines (concat (map (\<lambda>l. l @ [newline]) ls)) = ls"
  by (induction ls) (simp_all add: stderrLines.simps [of "[]"] stderrLines.simps [of "_ @ _ # _"] cut_append)

subsection \<open>The collector\<close>

text \<open>A batch as it was given to \<open>AppendEntries\<close>, and whether that answered without an error.\<close>

record post =
  po_id :: string
  po_entries :: "entry list"
  po_ok :: bool

record collector =
  co_lines :: "string list" \<comment> \<open>what the channel \<open>lines\<close> will deliver\<close>
  co_batch :: "entry list"
  co_number :: nat
  co_over :: bool
  co_world :: world
  co_posts :: "post list"

record logTask =
  lt_run :: uuid
  lt_action :: uuid
  lt_attempt :: int

definition logKey :: "lib \<Rightarrow> logTask \<Rightarrow> bytes" where
  "logKey L a = bytesOf (uuidString L (lt_action a))"

definition signedText :: "int \<Rightarrow> string" where
  "signedText i = (if i < 0 then CHR ''-'' # decimalText (nat (- i)) else decimalText (nat i))"

definition appendID :: "lib \<Rightarrow> logTask \<Rightarrow> nat \<Rightarrow> string" where
  "appendID L a n =
     ''task-log:'' @ uuidString L (lt_action a) @ '':'' @ signedText (lt_attempt a) @ '':'' @ decimalText n"

definition flushLogs :: "lib \<Rightarrow> logService \<Rightarrow> logTask \<Rightarrow> collector \<Rightarrow> collector" where
  "flushLogs L s a c =
     (if co_batch c = [] then c
      else
        (let n = Suc (co_number c);
             (r, w) = AppendEntries L s (lt_run a) TaskLogStream (appendID L a n) (co_batch c) (co_world c) in
         c\<lparr>co_number := n, co_batch := [], co_world := w,
           co_posts := co_posts c @ [\<lparr>po_id = appendID L a n, po_entries = co_batch c, po_ok = (case r of Inl _ \<Rightarrow> False | Inr _ \<Rightarrow> True)\<rparr>]\<rparr>))"

definition lineEvent :: "lib \<Rightarrow> logTask \<Rightarrow> string \<Rightarrow> string \<Rightarrow> taskLogEvent" where
  "lineEvent L a now line =
     \<lparr>tl_type = ''task.log.v1'', tl_source = ''stderr'', tl_message = line, tl_timestamp = now,
      tl_action = uuidString L (lt_action a), tl_attempt = lt_attempt a\<rparr>"

definition takeLine :: "lib \<Rightarrow> logCodec \<Rightarrow> logService \<Rightarrow> logTask \<Rightarrow> string \<Rightarrow> string \<Rightarrow> collector \<Rightarrow> collector" where
  "takeLine L C s a now line c =
     (case EncodeTaskLog L C (lineEvent L a now line) of
        Inl _ \<Rightarrow> c
      | Inr event \<Rightarrow>
          (let c' = c\<lparr>co_batch := co_batch c @ [(logKey L a, event)]\<rparr> in
           if 32 \<le> length (co_batch c') then flushLogs L s a c' else c'))"

definition startCollector :: "string \<Rightarrow> world \<Rightarrow> collector" where
  "startCollector stderr w =
     \<lparr>co_lines = stderrLines stderr, co_batch = [], co_number = 0, co_over = False, co_world = w, co_posts = []\<rparr>"

text \<open>
  The \<open>select\<close> of the collecting goroutine, and the rest of the world between: other appends,
  and changes of what is not the log.
\<close>

definition sameLog :: "tables \<Rightarrow> tables \<Rightarrow> bool" where
  "sameLog t t' \<longleftrightarrow> t_streams t' = t_streams t \<and> t_appends t' = t_appends t \<and> t_records t' = t_records t"

inductive collects :: "lib \<Rightarrow> logCodec \<Rightarrow> logService \<Rightarrow> logTask \<Rightarrow> collector \<Rightarrow> collector \<Rightarrow> bool" for L C s a where
  Line: "co_lines c = line # ls \<Longrightarrow> timeError C now = None \<Longrightarrow> collects L C s a c (takeLine L C s a now line (c\<lparr>co_lines := ls\<rparr>))"
| Tick: "\<not> co_over c \<Longrightarrow> collects L C s a c (flushLogs L s a c)"
| End: "co_lines c = [] \<Longrightarrow> \<not> co_over c \<Longrightarrow> collects L C s a c ((flushLogs L s a c)\<lparr>co_over := True\<rparr>)"
| Append: "AppendEntries L s' run stream aid es (co_world c) = (r, w) \<Longrightarrow> int (length es) < 2 ^ 63 \<Longrightarrow>
    \<forall>n. aid \<noteq> appendID L a n \<Longrightarrow> run = lt_run a \<and> stream = TaskLogStream \<longrightarrow> logKey L a \<notin> fst ` set es \<Longrightarrow>
    collects L C s a c (c\<lparr>co_world := w\<rparr>)"
| Other: "sameLog (tabs (co_world c)) (tabs w) \<Longrightarrow> collects L C s a c (c\<lparr>co_world := w\<rparr>)"

inductive_cases collectsE: "collects L C s a c c'"

end
