(* ===== verification/Environments.thy ===== *)
theory Environments
  imports Runlog_Append "HOL-Library.Char_ord" "HOL-Library.Multiset"
begin

section \<open>Environment declarations\<close>

text \<open>
  \<open>internal/lutra/environments.go\<close>, and the validators of \<open>runs.go\<close> and \<open>retry.go\<close> it
  shares: what an environment declaration must satisfy, its normal form, whose encoding is
  hashed into the version, and the lookup of an entrypoint. A nil message is \<^const>\<open>None\<close>;
  a map is a list of its entries. The deterministic protobuf and canonical CBOR encodings
  are parameters, the record \<open>encodings\<close>.
\<close>

record entrypoint =
  en_command :: "string list option"
  en_attempts :: int
  en_cache :: bool
  en_version :: string

record image =
  im_name :: string
  im_reference :: string
  im_cpu :: int
  im_memory :: int
  im_env :: "(string \<times> string) list"
  im_context :: string
  im_command :: "string list option"
  im_workdir :: string

record envID =
  id_ns :: string
  id_name :: string
  id_version :: string

record envSpec =
  es_ns :: string
  es_name :: string
  es_source :: string
  es_image :: "image option"
  es_deps :: "envID option list"
  es_entries :: "entrypoint option list"

record actionSpec =
  as_input :: bytes
  as_attempts :: int
  as_cache :: bool
  as_version :: string
  as_key :: bytes

record encodings =
  protoSpec :: "envSpec \<Rightarrow> goerr + bytes"
  unprotoSpec :: "bytes \<Rightarrow> goerr + envSpec"
  protoAction :: "actionSpec \<Rightarrow> goerr + bytes"
  unprotoAction :: "bytes \<Rightarrow> goerr + actionSpec"
  cborVersion :: "bytes \<Rightarrow> goerr + bytes"
  cborImage :: "string \<Rightarrow> string \<Rightarrow> string list \<Rightarrow> string \<Rightarrow> goerr + bytes"
  cborInput :: "bytes \<Rightarrow> (bytes list) option"
  cborList :: "bytes \<Rightarrow> bool"
  cborMap :: "bytes \<Rightarrow> bool"
  readTime :: "string \<Rightarrow> time option" \<comment> \<open>\<open>time.Parse(time.RFC3339Nano, _)\<close>\<close>

definition invalidTask :: "string \<Rightarrow> goerr" where
  "invalidTask m = Rpc InvalidArgument m"

subsection \<open>Patterns\<close>

definition lower :: string where "lower = ''abcdefghijklmnopqrstuvwxyz''"
definition digits :: string where "digits = ''0123456789''"

text \<open>\<open>^[a-z][a-z0-9-]{0,62}$\<close>, \<open>^[a-f0-9]{64}$\<close> and \<open>^[A-Za-z_][A-Za-z_0-9]*$\<close>.\<close>

definition namespaceOK :: "string \<Rightarrow> bool" where
  "namespaceOK s \<longleftrightarrow>
     (case s of [] \<Rightarrow> False
      | c # r \<Rightarrow> c \<in> set lower \<and> length r \<le> 62 \<and> (\<forall>x\<in>set r. x \<in> set (lower @ digits @ ''-'')))"

definition versionOK :: "string \<Rightarrow> bool" where
  "versionOK s \<longleftrightarrow> length s = 64 \<and> (\<forall>x\<in>set s. x \<in> set ''abcdef0123456789'')"

definition variableOK :: "string \<Rightarrow> bool" where
  "variableOK s \<longleftrightarrow>
     (case s of [] \<Rightarrow> False
      | c # r \<Rightarrow> c \<in> set (letters @ ''_'') \<and> (\<forall>x\<in>set r. x \<in> set (letters @ ''_'' @ digits)))"

text \<open>
  \<open>semanticVersionPattern\<close>: three numbers, then identifiers after \<open>-\<close>, then identifiers
  after \<open>+\<close>. Neither the numbers nor the first identifiers contain \<open>+\<close>, and the numbers
  contain no \<open>-\<close>, so the text is cut there.
\<close>

fun splitAt :: "char \<Rightarrow> string \<Rightarrow> string list" where
  "splitAt c [] = [[]]"
| "splitAt c (x # xs) =
     (if x = c then [] # splitAt c xs
      else (case splitAt c xs of [] \<Rightarrow> [[x]] | p # ps \<Rightarrow> (x # p) # ps))"

definition numberOK :: "string \<Rightarrow> bool" where
  "numberOK s \<longleftrightarrow> s = ''0'' \<or> s \<noteq> [] \<and> hd s \<noteq> CHR ''0'' \<and> (\<forall>x\<in>set s. x \<in> set digits)"

definition identOK :: "string \<Rightarrow> bool" where
  "identOK s \<longleftrightarrow> s \<noteq> [] \<and> (\<forall>x\<in>set s. x \<in> set (digits @ letters @ ''-''))"

definition prereleaseOK :: "string \<Rightarrow> bool" where
  "prereleaseOK s \<longleftrightarrow> numberOK s \<or> identOK s \<and> (\<exists>x\<in>set s. x \<notin> set digits)"

definition coreOK :: "string \<Rightarrow> bool" where
  "coreOK s \<longleftrightarrow> length (splitAt (CHR ''.'') s) = 3 \<and> (\<forall>p\<in>set (splitAt (CHR ''.'') s). numberOK p)"

definition taggedOK :: "string \<Rightarrow> bool" where
  "taggedOK s \<longleftrightarrow>
     (case cut (CHR ''-'') s of
        None \<Rightarrow> coreOK s
      | Some (core, pre) \<Rightarrow> coreOK core \<and> (\<forall>p\<in>set (splitAt (CHR ''.'') pre). prereleaseOK p))"

definition semanticVersionOK :: "string \<Rightarrow> bool" where
  "semanticVersionOK s \<longleftrightarrow>
     (case cut (CHR ''+'') s of
        None \<Rightarrow> taggedOK s
      | Some (v, build) \<Rightarrow> taggedOK v \<and> (\<forall>p\<in>set (splitAt (CHR ''.'') build). identOK p))"

definition validUUID :: "lib \<Rightarrow> string \<Rightarrow> bool" where
  "validUUID L s \<longleftrightarrow> (case uuidParse L s of None \<Rightarrow> False | Some i \<Rightarrow> i \<noteq> nilUUID)"

subsection \<open>\<open>path.Clean\<close>\<close>

text \<open>The components that are left, in reverse.\<close>

fun cleanParts :: "bool \<Rightarrow> string list \<Rightarrow> string list \<Rightarrow> string list" where
  "cleanParts rooted out [] = out"
| "cleanParts rooted out (p # ps) =
     (if p = [] \<or> p = ''.'' then cleanParts rooted out ps
      else if p = ''..'' then
        (case out of
           [] \<Rightarrow> cleanParts rooted (if rooted then [] else [''..'']) ps
         | q # qs \<Rightarrow> if q = ''..'' then cleanParts rooted (''..'' # out) ps else cleanParts rooted qs ps)
      else cleanParts rooted (p # out) ps)"

fun joinWith :: "char \<Rightarrow> string list \<Rightarrow> string" where
  "joinWith c [] = []"
| "joinWith c [p] = p"
| "joinWith c (p # ps) = p @ c # joinWith c ps"

definition isAbs :: "string \<Rightarrow> bool" where
  "isAbs s = hasPrefix s ''/''"

definition pathClean :: "string \<Rightarrow> string" where
  "pathClean s =
     (let out = joinWith (CHR ''/'') (rev (cleanParts (isAbs s) [] (splitAt (CHR ''/'') s)))
      in if isAbs s then CHR ''/'' # out else if out = [] then ''.'' else out)"

subsection \<open>Validation\<close>

definition archiveMIME :: string where "archiveMIME = ''application/x-tar+zstd''"

definition sourceURI :: "bytes \<Rightarrow> string" where
  "sourceURI digest = URI archiveMIME digest"

definition sumLength :: "string list \<Rightarrow> int" where
  "sumLength xs = sum_list (map (\<lambda>x. int (length x)) xs)"

definition validateCommand :: "string list option \<Rightarrow> goerr option" where
  "validateCommand command =
     (case command of
        None \<Rightarrow> Some (invalidTask ''invalid command'')
      | Some args \<Rightarrow>
          if args = [] \<or> length args > 128 \<or> hd args = [] then Some (invalidTask ''invalid command'')
          else if \<exists>a\<in>set args. CHR 0x00 \<in> set a then Some (invalidTask ''invalid command'')
          else if sumLength args > 65536 then Some (invalidTask ''command exceeds limits'')
          else None)"

definition resolveAttempts :: "entrypoint \<Rightarrow> int \<Rightarrow> goerr + int" where
  "resolveAttempts entry override =
     (let attempts = (if override \<noteq> 0 then override else en_attempts entry) in
      if attempts < 1 \<or> attempts > 100
      then Inl (invalidTask ''max_attempts must be between 1 and 100'') else Inr attempts)"

fun validateEntryList :: "entrypoint option list \<Rightarrow> goerr option" where
  "validateEntryList [] = None"
| "validateEntryList (None # es) = Some (invalidTask ''invalid entrypoint'')"
| "validateEntryList (Some e # es) =
     (if en_cache e \<and> (length (en_version e) > 200 \<or> \<not> semanticVersionOK (en_version e))
      then Some (invalidTask ''cached tasks require a semantic task version'')
      else if \<not> en_cache e \<and> en_version e \<noteq> []
      then Some (invalidTask ''uncached tasks cannot include a cache version'')
      else
        (case resolveAttempts e 0 of
           Inl x \<Rightarrow> Some x
         | Inr _ \<Rightarrow> (case validateCommand (en_command e) of Some x \<Rightarrow> Some x | None \<Rightarrow> validateEntryList es)))"

definition validateEntrypoints :: "entrypoint option list \<Rightarrow> goerr option" where
  "validateEntrypoints entries =
     (if entries = [] \<or> length entries > 1000
      then Some (invalidTask ''environment requires between 1 and 1000 entrypoints'')
      else validateEntryList entries)"

definition validateEnvironmentIdentifier :: "lib \<Rightarrow> envID option \<Rightarrow> goerr option" where
  "validateEnvironmentIdentifier L i =
     (case i of
        None \<Rightarrow> Some (invalidTask ''invalid environment identifier'')
      | Some d \<Rightarrow>
          if \<not> validUUID L (id_ns d) \<or> \<not> namespaceOK (id_name d) \<or> \<not> versionOK (id_version d)
          then Some (invalidTask ''invalid environment identifier'') else None)"

text \<open>Lines 71 to 94: the fields that go with the image's provider, and the digest of the build context.\<close>

definition localTaskImage :: string where "localTaskImage = ''local-python''"

definition noImage :: image where
  "noImage = \<lparr>im_name = [], im_reference = [], im_cpu = 0, im_memory = 0, im_env = [], im_context = [],
     im_command = None, im_workdir = []\<rparr>"

definition badWorkdir :: "string \<Rightarrow> bool" where
  "badWorkdir d \<longleftrightarrow> d = [] \<or> isAbs d \<or> pathClean d \<noteq> d \<or> d = ''..'' \<or> hasPrefix d ''../'' \<or> CHR 0x00 \<in> set d"

definition validateProvider :: "image \<Rightarrow> goerr + bytes" where
  "validateProvider im =
     (if im_name im = localTaskImage then
        if im_reference im \<noteq> [] then Inl (invalidTask ''local-python does not accept an image reference'')
        else
          (case ParseURI (im_context im) of
             Inl _ \<Rightarrow> Inl (invalidTask ''invalid image build context'')
           | Inr (digest, mime) \<Rightarrow>
               if mime \<noteq> archiveMIME \<or> im_context im \<noteq> sourceURI digest
               then Inl (invalidTask ''invalid image build context'')
               else
                 (case validateCommand (im_command im) of
                    Some e \<Rightarrow> Inl e
                  | None \<Rightarrow>
                      if badWorkdir (im_workdir im) then Inl (invalidTask ''invalid image workdir'')
                      else Inr digest))
      else if im_name im = ''docker'' \<or> im_name im = ''e2b'' then
        if im_reference im = [] then Inl (invalidTask ''image reference is required'') else Inr []
      else Inl (invalidTask ''invalid task image provider''))"

definition badVariable :: "string \<times> string \<Rightarrow> bool" where
  "badVariable kv \<longleftrightarrow>
     (case kv of (k, v) \<Rightarrow>
        \<not> variableOK k \<or> CHR 0x00 \<in> set v \<or> hasPrefix k ''LUTRA_'' \<or> hasPrefix k ''UV_'' \<or>
        k = ''PATH'' \<or> k = ''HOME'' \<or> k = ''PYTHONPATH'')"

fun validateDeps :: "lib \<Rightarrow> string \<Rightarrow> string set \<Rightarrow> envID option list \<Rightarrow> goerr option" where
  "validateDeps L ns names [] = None"
| "validateDeps L ns names (d # ds) =
     (case validateEnvironmentIdentifier L d of
        Some e \<Rightarrow> Some e
      | None \<Rightarrow>
          if id_ns (the d) \<noteq> ns \<or> id_name (the d) \<in> names
          then Some (invalidTask ''dependencies must have unique names in the same namespace'')
          else validateDeps L ns (insert (id_name (the d)) names) ds)"

definition depName :: "envID option \<Rightarrow> string" where
  "depName d = (case d of None \<Rightarrow> [] | Some i \<Rightarrow> id_name i)"

text \<open>Lines 98 to 107, the defaults.\<close>

definition cpuOf :: "image \<Rightarrow> int" where "cpuOf im = (if im_cpu im = 0 then 1000 else im_cpu im)"
definition memoryOf :: "image \<Rightarrow> int" where
  "memoryOf im = (if im_memory im = 0 then 1073741824 else im_memory im)"

definition normalSpec :: "envSpec \<Rightarrow> image \<Rightarrow> bytes \<Rightarrow> envSpec" where
  "normalSpec spec im digest =
     \<lparr>es_ns = es_ns spec, es_name = es_name spec, es_source = sourceURI digest,
      es_image = Some (im\<lparr>im_cpu := cpuOf im, im_memory := memoryOf im\<rparr>),
      es_deps = sort_key depName (es_deps spec), es_entries = es_entries spec\<rparr>"

record environmentSpec =
  ne_spec :: envSpec
  ne_bytes :: bytes
  ne_source :: bytes
  ne_context :: bytes

definition normalizeEnvironment :: "lib \<Rightarrow> encodings \<Rightarrow> envSpec option \<Rightarrow> goerr + environmentSpec" where
  "normalizeEnvironment L E request =
     (case request of
        None \<Rightarrow> Inl (invalidTask ''invalid environment spec'')
      | Some spec \<Rightarrow>
     if \<not> validUUID L (es_ns spec) \<or> \<not> namespaceOK (es_name spec)
     then Inl (invalidTask ''invalid environment spec'')
     else
       (case ParseURI (es_source spec) of
          Inl _ \<Rightarrow> Inl (invalidTask ''invalid environment source'')
        | Inr (digest, mime) \<Rightarrow>
            if mime \<noteq> archiveMIME \<or> es_source spec \<noteq> sourceURI digest
            then Inl (invalidTask ''invalid environment source'')
            else
              (let im = (case es_image spec of None \<Rightarrow> noImage | Some i \<Rightarrow> i) in
               case validateProvider im of
                 Inl e \<Rightarrow> Inl e
               | Inr ctx \<Rightarrow>
                   if length (im_reference im) > 2048 \<or> CHR 0x00 \<in> set (im_reference im)
                   then Inl (invalidTask ''invalid image reference'')
                   else if cpuOf im > 1000000 \<or> memoryOf im > 1125899906842624
                   then Inl (invalidTask ''resources exceed limits'')
                   else if \<exists>kv\<in>set (im_env im). badVariable kv
                   then Inl (invalidTask ''invalid or reserved environment variable'')
                   else if length (im_env im) > 128 \<or>
                     sumLength (map (\<lambda>(k, v). k @ v) (im_env im)) > 65536 \<or> length (es_deps spec) > 128
                   then Inl (invalidTask ''environment declaration exceeds limits'')
                   else
                     (case validateEntrypoints (es_entries spec) of
                        Some e \<Rightarrow> Inl e
                      | None \<Rightarrow>
                          (case validateDeps L (es_ns spec) {es_name spec} (es_deps spec) of
                             Some e \<Rightarrow> Inl e
                           | None \<Rightarrow>
                               (case protoSpec E (normalSpec spec im digest) of
                                  Inl e \<Rightarrow> Inl e
                                | Inr v \<Rightarrow>
                                    Inr \<lparr>ne_spec = normalSpec spec im digest, ne_bytes = v,
                                         ne_source = digest, ne_context = ctx\<rparr>))))))"

subsection \<open>The version\<close>

definition hexDigit :: "nat \<Rightarrow> char" where "hexDigit n = ''0123456789abcdef'' ! n"

definition hexEncode :: "bytes \<Rightarrow> string" where
  "hexEncode bs = concat (map (\<lambda>b. [hexDigit (unat b div 16), hexDigit (unat b mod 16)]) bs)"

definition specVersion :: "encodings \<Rightarrow> environmentSpec \<Rightarrow> goerr + string" where
  "specVersion E e =
     (case cborVersion E (ne_bytes e) of Inl x \<Rightarrow> Inl x | Inr v \<Rightarrow> Inr (hexEncode (sha256 v)))"

subsection \<open>The normal form\<close>

text \<open>When the dependencies are accepted, whatever their order.\<close>

lemma validateDeps_None:
  "validateDeps L ns names ds = None \<longleftrightarrow>
     (\<forall>d\<in>set ds. validateEnvironmentIdentifier L d = None \<and> id_ns (the d) = ns \<and> depName d \<notin> names) \<and>
     distinct (map depName ds)"
proof (induction ds arbitrary: names)
  case (Cons d ds)
  have "d \<noteq> None" if "validateEnvironmentIdentifier L d = None"
    using that by (cases d) (simp_all add: validateEnvironmentIdentifier_def)
  then have "depName d = id_name (the d)" if "validateEnvironmentIdentifier L d = None"
    using that by (auto simp: depName_def)
  with Cons show ?case by (auto split: option.splits intro: rev_image_eqI)
qed simp

lemma sort_deps:
  assumes "mset ds' = mset ds" and "distinct (map depName ds)"
  shows "sort_key depName ds' = sort_key depName ds"
proof -
  have "inj_on depName (set ds')" using assms by (metis distinct_map mset_eq_setD)
  with assms(1) show ?thesis by (intro sort_key_inj_key_eq) simp_all
qed

lemma image_defaults [simp]:
  "cpuOf (im\<lparr>im_cpu := cpuOf im, im_memory := memoryOf im\<rparr>) = cpuOf im"
  "memoryOf (im\<lparr>im_cpu := cpuOf im, im_memory := memoryOf im\<rparr>) = memoryOf im"
  by (simp_all add: cpuOf_def memoryOf_def)

lemma validateProvider_defaults [simp]:
  "validateProvider (im\<lparr>im_cpu := c, im_memory := m\<rparr>) = validateProvider im"
  by (cases im) (simp only: validateProvider_def image.simps)

text \<open>Everything a declaration that was accepted satisfies, and its normal form.\<close>

lemma normalize_Inr:
  assumes "normalizeEnvironment L E (Some spec) = Inr n"
  obtains im digest ctx v where "validUUID L (es_ns spec)" "namespaceOK (es_name spec)"
    "ParseURI (es_source spec) = Inr (digest, archiveMIME)" "es_source spec = sourceURI digest"
    "es_image spec = Some im" "validateProvider im = Inr ctx"
    "\<not> (length (im_reference im) > 2048 \<or> CHR 0x00 \<in> set (im_reference im))"
    "\<not> (cpuOf im > 1000000 \<or> memoryOf im > 1125899906842624)"
    "\<not> (\<exists>kv\<in>set (im_env im). badVariable kv)"
    "\<not> (length (im_env im) > 128 \<or> sumLength (map (\<lambda>(k, v). k @ v) (im_env im)) > 65536 \<or> length (es_deps spec) > 128)"
    "validateEntrypoints (es_entries spec) = None"
    "validateDeps L (es_ns spec) {es_name spec} (es_deps spec) = None"
    "protoSpec E (normalSpec spec im digest) = Inr v"
    "n = \<lparr>ne_spec = normalSpec spec im digest, ne_bytes = v, ne_source = digest, ne_context = ctx\<rparr>"
proof -
  have no: "validateProvider noImage = Inl (invalidTask ''invalid task image provider'')"
    by (simp add: validateProvider_def noImage_def localTaskImage_def)
  show thesis
    using assms no that
    by (cases "es_image spec")
      (auto simp: normalizeEnvironment_def Let_def split: if_splits sum.splits option.splits prod.splits)
qed

lemma normalizeI:
  assumes "validUUID L (es_ns spec)" "namespaceOK (es_name spec)"
    "ParseURI (es_source spec) = Inr (digest, archiveMIME)" "es_source spec = sourceURI digest"
    "es_image spec = Some im" "validateProvider im = Inr ctx"
    "\<not> (length (im_reference im) > 2048 \<or> CHR 0x00 \<in> set (im_reference im))"
    "\<not> (cpuOf im > 1000000 \<or> memoryOf im > 1125899906842624)"
    "\<not> (\<exists>kv\<in>set (im_env im). badVariable kv)"
    "\<not> (length (im_env im) > 128 \<or> sumLength (map (\<lambda>(k, v). k @ v) (im_env im)) > 65536 \<or> length (es_deps spec) > 128)"
    "validateEntrypoints (es_entries spec) = None"
    "validateDeps L (es_ns spec) {es_name spec} (es_deps spec) = None"
    "protoSpec E (normalSpec spec im digest) = Inr v"
  shows "normalizeEnvironment L E (Some spec) =
    Inr \<lparr>ne_spec = normalSpec spec im digest, ne_bytes = v, ne_source = digest, ne_context = ctx\<rparr>"
  using assms by (simp add: normalizeEnvironment_def Let_def)

subsection \<open>Looking an entrypoint up, and registering a declaration\<close>

definition getEnvironment :: "uuid \<Rightarrow> string \<Rightarrow> string \<Rightarrow> tables \<Rightarrow> (uuid \<times> env_row) option" where
  "getEnvironment ns name version t =
     (case t_envKeys t (ns, name, version) of
        None \<Rightarrow> None
      | Some i \<Rightarrow> map_option (Pair i) (t_envs t i))"

definition lookupEnvironment :: "lib \<Rightarrow> envID option \<Rightarrow> (uuid \<times> env_row) act" where
  "lookupEnvironment L i =
     andThen (orFail (validateEnvironmentIdentifier L i)) (\<lambda>_.
     case i of
       None \<Rightarrow> fail (invalidTask ''invalid environment identifier'')
     | Some d \<Rightarrow>
         (case uuidParse L (id_ns d) of
            None \<Rightarrow> fail (invalidTask ''invalid environment identifier'')
          | Some ns \<Rightarrow>
              andThen (query (getEnvironment ns (id_name d) (id_version d))) (\<lambda>row.
              case row of
                None \<Rightarrow> fail (Rpc NotFound ''environment is not registered'')
              | Some r \<Rightarrow> ret r)))"

text \<open>The test bounds the entrypoint by the number of entries as a \<open>uint32\<close>.\<close>

definition lookupTask :: "lib \<Rightarrow> encodings \<Rightarrow> envID option \<Rightarrow> nat \<Rightarrow> (uuid \<times> env_row \<times> entrypoint option) act" where
  "lookupTask L E i entry =
     andThen (lookupEnvironment L i) (\<lambda>(env, row).
     case unprotoSpec E (e_spec row) of
       Inl e \<Rightarrow> fail e
     | Inr spec \<Rightarrow>
         if entry = 0 \<or> entry > length (es_entries spec) mod 2 ^ 32
         then fail (Rpc NotFound ''entrypoint is not registered in this environment'')
         else ret (env, row, es_entries spec ! (entry - 1)))"

definition insertEnvironment :: "uuid \<Rightarrow> env_row \<Rightarrow> tables \<Rightarrow> goerr + bool \<times> tables" where
  "insertEnvironment i row t =
     (if t_envKeys t (e_ns row, e_name row, e_version row) \<noteq> None then Inr (False, t)
      else if t_envs t i \<noteq> None \<or> \<not> hasNamespace (e_ns row) t \<or> length (e_image row) \<noteq> 32 then Inl constraint
      else Inr (True, t\<lparr>t_envs := (t_envs t)(i \<mapsto> row),
                       t_envKeys := (t_envKeys t)((e_ns row, e_name row, e_version row) \<mapsto> i)\<rparr>))"

fun lookupAll :: "lib \<Rightarrow> envID option list \<Rightarrow> unit act" where
  "lookupAll L [] = ret ()"
| "lookupAll L (d # ds) = andThen (lookupEnvironment L d) (\<lambda>_. lookupAll L ds)"

text \<open>\<open>LocalExecutor.ImageKey\<close>, given the runtime version.\<close>

definition ImageKey :: "encodings \<Rightarrow> string \<Rightarrow> image \<Rightarrow> goerr + bytes" where
  "ImageKey E runtime im =
     (case cborImage E (if runtime = [] then ''python3-default'' else runtime) (im_context im)
             (case im_command im of None \<Rightarrow> [] | Some args \<Rightarrow> args) (im_workdir im) of
        Inl e \<Rightarrow> Inl e
      | Inr v \<Rightarrow> Inr (sha256 v))"

definition requireBlob :: "string \<Rightarrow> bytes \<Rightarrow> unit act" where
  "requireBlob msg digest =
     andThen (query (\<lambda>t. t_blobs t digest)) (\<lambda>found.
     if found = None then fail (invalidTask msg) else ret ())"

definition specImage :: "envSpec \<Rightarrow> image" where
  "specImage spec = (case es_image spec of None \<Rightarrow> noImage | Some im \<Rightarrow> im)"

definition registerTx :: "lib \<Rightarrow> uuid \<Rightarrow> env_row \<Rightarrow> envID option list \<Rightarrow> unit act" where
  "registerTx L i row deps =
     andThen (stmt (insertEnvironment i row)) (\<lambda>inserted.
     if inserted then lookupAll L deps else ret ())"

definition RegisterEnvironment :: "lib \<Rightarrow> encodings \<Rightarrow> bool \<Rightarrow> string \<Rightarrow> envSpec option \<Rightarrow> envID act" where
  "RegisterEnvironment L E dbOK runtime request =
     (if \<not> dbOK then fail (Rpc Unavailable ''worker unavailable'')
      else
        (case normalizeEnvironment L E request of
           Inl e \<Rightarrow> fail e
         | Inr n \<Rightarrow>
        (case specVersion E n of
           Inl e \<Rightarrow> fail e
         | Inr version \<Rightarrow>
        (case uuidParse L (es_ns (ne_spec n)) of
           None \<Rightarrow> fail (invalidTask ''invalid namespace ID'')
         | Some ns \<Rightarrow>
             if ns = nilUUID then fail (invalidTask ''invalid namespace ID'')
             else
               (let identifier = \<lparr>id_ns = es_ns (ne_spec n), id_name = es_name (ne_spec n), id_version = version\<rparr>
                in
                andThen (query (\<lambda>t. hasNamespace ns t)) (\<lambda>known.
                if \<not> known then fail (Rpc NotFound ''namespace not found'')
                else
                  andThen (query (getEnvironment ns (es_name (ne_spec n)) version)) (\<lambda>row.
                  if row \<noteq> None then ret identifier
                  else if im_name (specImage (ne_spec n)) \<noteq> localTaskImage
                  then fail (Rpc Unimplemented (im_name (specImage (ne_spec n)) @ '' executor is not configured''))
                  else
                    andThen (requireBlob ''environment source blob is not uploaded'' (ne_source n)) (\<lambda>_.
                    andThen (requireBlob ''image build context blob is not uploaded'' (ne_context n)) (\<lambda>_.
                    case ImageKey E runtime (specImage (ne_spec n)) of
                      Inl e \<Rightarrow> fail e
                    | Inr key \<Rightarrow>
                        andThen newID (\<lambda>i.
                        andThen (transaction (\<lambda>e. e) (\<lambda>e. e)
                          (registerTx L i
                             \<lparr>e_ns = ns, e_name = es_name (ne_spec n), e_version = version,
                              e_provider = im_name (specImage (ne_spec n)), e_spec = ne_bytes n,
                              e_image = key\<rparr> (es_deps (ne_spec n)))) (\<lambda>_.
                        ret identifier)))))))))))"

end
