(* ===== verification/Graph_Store.thy ===== *)
theory Graph_Store
  imports Graph_Model Runlog_Append
begin

section \<open>The store of the graph executor\<close>

text \<open>
  \<open>internal/lutra/graphexec_store.go\<close>: the SQL adapter behind the executor's \<open>Store\<close>
  interface, and the status events it appends in the same transaction
  (\<open>internal/runlog/status.go\<close> and \<open>actionstatus.go\<close>). The CBOR encoding of the two
  event types, the protobuf decoding of an action's spec and the time format are
  parameters, the record \<open>codecs\<close>.
\<close>

record runEvent =
  ev_type :: string
  ev_status :: string
  ev_output :: bytes
  ev_error :: string
  ev_updated :: string

record actionEvent =
  ae_type :: string
  ae_action :: string
  ae_caller :: string
  ae_entry :: int
  ae_status :: string
  ae_attempt :: int
  ae_error :: string
  ae_updated :: string
  ae_max :: int
  ae_hit :: bool

record codecs =
  marshalRun :: "runEvent \<Rightarrow> goerr + bytes"
  unmarshalRun :: "bytes \<Rightarrow> goerr + runEvent"
  marshalAction :: "actionEvent \<Rightarrow> goerr + bytes"
  unmarshalAction :: "bytes \<Rightarrow> goerr + actionEvent"
  specMaxAttempts :: "bytes \<Rightarrow> goerr + int"
  formatTime :: "time \<Rightarrow> string"
  parseTime :: "string \<Rightarrow> goerr option"

fun statusName :: "status \<Rightarrow> string" where
  "statusName Queued = ''queued''"
| "statusName SRunning = ''running''"
| "statusName SWaiting = ''waiting''"
| "statusName Succeeded = ''succeeded''"
| "statusName SFailed = ''failed''"
| "statusName SCanceled = ''canceled''"

fun graphStatus :: "state \<Rightarrow> status" where
  "graphStatus Running = SRunning"
| "graphStatus Waiting = SWaiting"
| "graphStatus Done = Succeeded"
| "graphStatus Failed = SFailed"
| "graphStatus Canceled = SCanceled"
| "graphStatus _ = Queued"

definition StatusStream :: string where "StatusStream = ''__run_status''"

definition ErrLeaseLost :: goerr where "ErrLeaseLost = Plain ''run lease lost''"
definition noRows :: goerr where "noRows = Plain ''no rows in result set''"

text \<open>A row that a query must find.\<close>

definition one :: "(tables \<Rightarrow> 'a option) \<Rightarrow> 'a act" where
  "one f = andThen (query f) (\<lambda>x. case x of None \<Rightarrow> fail noRows | Some y \<Rightarrow> ret y)"

definition orError :: "goerr + 'a \<Rightarrow> 'a act" where
  "orError r = (case r of Inl e \<Rightarrow> fail e | Inr x \<Rightarrow> ret x)"

subsection \<open>Status events\<close>

text \<open>\<open>ReadRun\<close> joins the run with its root action.\<close>

definition readRun :: "uuid \<Rightarrow> tables \<Rightarrow> action_row option" where
  "readRun run t =
     (case t_runs t run of
        None \<Rightarrow> None
      | Some r \<Rightarrow> (case r_root r of None \<Rightarrow> None | Some i \<Rightarrow> t_actions t i))"

definition runEventOf :: "codecs \<Rightarrow> action_row \<Rightarrow> runEvent" where
  "runEventOf C row =
     \<lparr>ev_type = ''run.status.v1'', ev_status = statusName (a_status row),
      ev_output = a_output row, ev_error = a_error row,
      ev_updated = formatTime C (a_updated row)\<rparr>"

definition AppendStatus :: "lib \<Rightarrow> codecs \<Rightarrow> logService \<Rightarrow> uuid \<Rightarrow> unit act" where
  "AppendStatus L C s run =
     andThen (one (readRun run)) (\<lambda>row.
     andThen (orError (marshalRun C (runEventOf C row))) (\<lambda>value.
     andThen (AppendTx L s run StatusStream [] [(bytesOf ''status'', value)]) (\<lambda>_.
     ret ())))"

definition actionEventOf :: "lib \<Rightarrow> codecs \<Rightarrow> uuid \<Rightarrow> action_row \<Rightarrow> bool \<Rightarrow> int \<Rightarrow> actionEvent" where
  "actionEventOf L C i row hit most =
     \<lparr>ae_type = ''task.status.v1'', ae_action = uuidString L i,
      ae_caller = (case a_caller row of None \<Rightarrow> [] | Some c \<Rightarrow> uuidString L c),
      ae_entry = a_entry row mod 2 ^ 32, ae_status = statusName (a_status row),
      ae_attempt = a_attempts row, ae_error = a_error row,
      ae_updated = formatTime C (a_updated row), ae_max = most, ae_hit = hit\<rparr>"

definition AppendActionStatus :: "lib \<Rightarrow> codecs \<Rightarrow> logService \<Rightarrow> uuid \<Rightarrow> bool \<Rightarrow> unit act" where
  "AppendActionStatus L C s i hit =
     andThen (one (\<lambda>t. t_actions t i)) (\<lambda>row.
     if a_caller row = None \<and> \<not> hit then ret ()
     else
       andThen (orError (specMaxAttempts C (a_spec row))) (\<lambda>most.
       andThen (orError (marshalAction C (actionEventOf L C i row hit most))) (\<lambda>value.
       andThen (AppendTx L s (a_run row) StatusStream [] [(bytesOf (uuidString L i), value)]) (\<lambda>_.
       ret ()))))"

definition statusNames :: "string list" where
  "statusNames = [''queued'', ''running'', ''waiting'', ''succeeded'', ''failed'', ''canceled'']"

definition DecodeStatus :: "codecs \<Rightarrow> bytes \<Rightarrow> goerr + runEvent" where
  "DecodeStatus C v =
     (case unmarshalRun C v of
        Inl e \<Rightarrow> Inl e
      | Inr ev \<Rightarrow>
          if ev_type ev \<noteq> ''run.status.v1''
          then Inl (Plain ''unknown run status event type or version'')
          else if ev_status ev \<notin> set statusNames then Inl (Plain ''invalid run status event'')
          else (case parseTime C (ev_updated ev) of Some e \<Rightarrow> Inl e | None \<Rightarrow> Inr ev))"

definition invalidUUID :: goerr where "invalidUUID = Plain ''invalid UUID''"

definition DecodeActionStatus :: "lib \<Rightarrow> codecs \<Rightarrow> bytes \<Rightarrow> goerr + actionEvent" where
  "DecodeActionStatus L C v =
     (case unmarshalAction C v of
        Inl e \<Rightarrow> Inl e
      | Inr ev \<Rightarrow>
          if ae_type ev \<noteq> ''task.status.v1''
          then Inl (Plain ''unknown task status event type or version'')
          else if uuidParse L (ae_action ev) = None then Inl invalidUUID
          else if ae_caller ev \<noteq> [] \<and> uuidParse L (ae_caller ev) = None then Inl invalidUUID
          else
            (case parseTime C (ae_updated ev) of
               Some e \<Rightarrow> Inl e
             | None \<Rightarrow>
                 if ae_status ev \<notin> set statusNames then Inl (Plain ''invalid task status event'')
                 else Inr ev))"

subsection \<open>\<open>Transition\<close>\<close>

text \<open>\<open>TransitionRunTaskAction\<close>: the row, and whether the update's conditions hold for it.\<close>

definition transitionFits :: "transition \<Rightarrow> time \<Rightarrow> tables \<Rightarrow> bool" where
  "transitionFits x stamp t \<longleftrightarrow>
     (case (t_actions t (t_node x), t_runs t (t_run x)) of
        (Some a, Some r) \<Rightarrow>
          a_run a = t_run x \<and> r_token r = Some (t_token x) \<and> r_lease r > stamp \<and>
          a_attempts a = t_expected x \<and> \<not> ended (a_status a)
      | _ \<Rightarrow> False)"

definition transitionRow :: "transition \<Rightarrow> time \<Rightarrow> action_row \<Rightarrow> action_row" where
  "transitionRow x stamp a =
     a\<lparr>a_status := graphStatus (t_state x), a_attempts := t_attempt x, a_failures := t_failures x,
       a_output := t_output x, a_error := t_error x,
       a_next := (if t_next x = zeroTime then None else Some (t_next x)), a_updated := stamp\<rparr>"

definition transitionRunTaskAction :: "transition \<Rightarrow> time \<Rightarrow> tables \<Rightarrow> goerr + nat \<times> tables" where
  "transitionRunTaskAction x stamp t =
     (if transitionFits x stamp t
      then Inr (1, t\<lparr>t_actions := (t_actions t)(t_node x := map_option (transitionRow x stamp) (t_actions t (t_node x)))\<rparr>)
      else Inr (0, t))"

definition transitionTx :: "lib \<Rightarrow> codecs \<Rightarrow> logService \<Rightarrow> transition \<Rightarrow> time \<Rightarrow> unit act" where
  "transitionTx L C s x stamp =
     andThen (one (\<lambda>t. t_runs t (t_run x))) (\<lambda>run.
     andThen (stmt (transitionRunTaskAction x stamp)) (\<lambda>rows.
     if rows \<noteq> 1 then fail ErrLeaseLost
     else
       andThen (AppendActionStatus L C s (t_node x) (t_cacheHit x)) (\<lambda>_.
       if r_root run = Some (t_node x) then AppendStatus L C s (t_run x) else ret ())))"

text \<open>\<open>now()\<close> of SQL is the time at which the transaction began.\<close>

definition Transition :: "lib \<Rightarrow> codecs \<Rightarrow> logService \<Rightarrow> transition \<Rightarrow> unit act" where
  "Transition L C s x w = transaction (\<lambda>e. e) (\<lambda>e. e) (transitionTx L C s x (clock w)) w"

text \<open>
  The adapter as the executor sees it: with an ended context the transaction does not
  begin; otherwise the error of \<open>Transition\<close>, or nil.
\<close>

definition graphStore :: "lib \<Rightarrow> codecs \<Rightarrow> logService \<Rightarrow> world store" where
  "graphStore L C s w ctxErr x =
     (if ctxErr then (Some CtxCanceled, w)
      else
        (case Transition L C s x w of
           (Inl e, w') \<Rightarrow> (Some e, w')
         | (Inr _, w') \<Rightarrow> (None, w')))"

subsection \<open>What a transition writes\<close>

text \<open>The run and action rows, which an append never touches.\<close>

definition sameActions :: "tables \<Rightarrow> tables \<Rightarrow> bool" where
  "sameActions t t' \<longleftrightarrow> t_runs t' = t_runs t \<and> t_actions t' = t_actions t"

interpretation sa: frame sameActions
  by unfold_locales (simp_all add: sameActions_def)

interpretation sa: append_frame "\<lambda>w w'. sameActions (tabs w) (tabs w')" L for L
proof unfold_locales
  show "keeps sameActions (storeValue L v)" for v
    using storeValue_frame unfolding within_def by (auto simp: blobFrame_def sameButLog_def sameActions_def)
  show "keeps sameActions (stmt f)" if "\<And>t x t'. f t = Inr (x :: unit, t') \<Longrightarrow>
      otherTables t' = otherTables t \<and> t_blobs t' = t_blobs t" for f
    by (rule sa.statement) (use that in \<open>simp add: sameActions_def otherTables_iff\<close>)
qed

lemma one_keeps: "keeps sameActions (one f)" and orError_keeps: "keeps sameActions (orError r)"
  unfolding one_def by (intro sa.rules) (cases r, simp_all add: orError_def sa.w.ret sa.w.fail)

lemma AppendStatus_keeps: "keeps sameActions (AppendStatus L C s run)"
  unfolding AppendStatus_def by (intro sa.w.seq one_keeps orError_keeps sa.AppendTx sa.w.ret)

lemma AppendActionStatus_keeps: "keeps sameActions (AppendActionStatus L C s i hit)"
  unfolding AppendActionStatus_def
  by (intro sa.w.seq sa.w.cond one_keeps orError_keeps sa.AppendTx sa.w.ret)

text \<open>The update of a transition: what it requires, and what it leaves.\<close>

definition transitioned :: "transition \<Rightarrow> time \<Rightarrow> tables \<Rightarrow> tables \<Rightarrow> bool" where
  "transitioned x stamp t t' \<longleftrightarrow>
     transitionFits x stamp t \<and> t_runs t' = t_runs t \<and>
     t_actions t' = (t_actions t)(t_node x := map_option (transitionRow x stamp) (t_actions t (t_node x)))"

lemma transitionRun_cases:
  "transitionRunTaskAction x stamp t = Inr (n, t') \<Longrightarrow>
     n = 0 \<and> t' = t \<or> n = 1 \<and> transitioned x stamp t t'"
  by (auto simp: transitionRunTaskAction_def transitioned_def split: if_splits)

lemma transitionRun_records:
  "transitionRunTaskAction x stamp t = Inr (n, t') \<Longrightarrow> t_records t' = t_records t"
  by (auto simp: transitionRunTaskAction_def split: if_splits)

lemma transitioned_same:
  "sameActions t u \<Longrightarrow> transitioned x stamp u v \<Longrightarrow> transitioned x stamp t v"
  "transitioned x stamp t u \<Longrightarrow> sameActions u v \<Longrightarrow> transitioned x stamp t v"
  by (simp_all add: transitioned_def transitionFits_def sameActions_def)

lemma transitionTx_cases:
  assumes "transitionTx L C s x stamp w = (r, w')"
  shows "sameActions (tabs w) (tabs w') \<and> (\<exists>e. r = Inl e) \<or> transitioned x stamp (tabs w) (tabs w')"
proof -
  obtain p v where q: "one (\<lambda>t. t_runs t (t_run x)) w = (p, v)" by fastforce
  have v: "sameActions (tabs w) (tabs v)" using withinD [OF one_keeps q] .
  show ?thesis
  proof (cases p)
    case (Inl e)
    with assms q v show ?thesis by (auto simp: transitionTx_def andThen_def)
  next
    case (Inr run)
    obtain n u where st: "stmt (transitionRunTaskAction x stamp) v = (n, u)" by fastforce
    note su = stmt_cases [OF st]
    show ?thesis
    proof (cases n)
      case (Inl e)
      with assms q Inr st have "r = Inl e" "w' = u" by (simp_all add: transitionTx_def andThen_def)
      from su have "tabs u = tabs v \<or> transitioned x stamp (tabs v) (tabs u)"
        by (auto dest: transitionRun_cases)
      with v transitioned_same(1) [OF v] have "sameActions (tabs w) (tabs u) \<or>
          transitioned x stamp (tabs w) (tabs u)" by metis
      with \<open>r = Inl e\<close> \<open>w' = u\<close> show ?thesis by simp
    next
      case n: (Inr rows)
      with st have up: "transitionRunTaskAction x stamp (tabs v) = Inr (rows, tabs u)"
        by (auto simp: stmt_Inr)
      show ?thesis
      proof (cases "rows = 1")
        case False
        with assms q Inr st n have "r = Inl ErrLeaseLost" "w' = u"
          by (simp_all add: transitionTx_def andThen_def)
        with transitionRun_cases [OF up] False v show ?thesis by auto
      next
        case True
        let ?m = "andThen (AppendActionStatus L C s (t_node x) (t_cacheHit x)) (\<lambda>_.
          if r_root run = Some (t_node x) then AppendStatus L C s (t_run x) else ret ())"
        have "keeps sameActions ?m"
          by (intro sa.w.seq sa.w.cond AppendActionStatus_keeps AppendStatus_keeps sa.w.ret)
        moreover from assms q Inr st n True have "?m u = (r, w')" by (simp add: transitionTx_def andThen_run)
        ultimately have "sameActions (tabs u) (tabs w')" by (rule withinD)
        with transitionRun_cases [OF up] True v transitioned_same show ?thesis by auto
      qed
    qed
  qed
qed

lemma Transition_cases:
  assumes "Transition L C s x w = (r, w')"
  shows "sameActions (tabs w) (tabs w') \<and> (\<exists>e. r = Inl e) \<or> transitioned x (clock w) (tabs w) (tabs w')"
  using assms [unfolded Transition_def]
proof (cases rule: transaction_cases)
  case (stays y w1 w2)
  from transitionTx_cases [OF stays(3)] stays(1,4) show ?thesis by auto
qed (simp_all add: sameActions_def)

lemma graphStore_cases:
  assumes "graphStore L C s w ce x = (r, w')"
  shows "sameActions (tabs w) (tabs w') \<and> r \<noteq> None \<or> transitioned x (clock w) (tabs w) (tabs w')"
  using assms Transition_cases
  by (fastforce simp: graphStore_def sameActions_def split: if_splits prod.splits sum.splits)

subsection \<open>What a transition publishes\<close>

text \<open>An event is one record at the end of the run's status stream.\<close>

definition published :: "uuid \<Rightarrow> bytes \<Rightarrow> bytes \<Rightarrow> tables \<Rightarrow> tables \<Rightarrow> bool" where
  "published run key v t t' \<longleftrightarrow>
     (\<exists>r. t_records t' = t_records t @ [r] \<and> rowOf run StatusStream (key, v) r \<and>
        l_seq r = nextSeq t run StatusStream)"

lemma AppendTx_published:
  assumes "AppendTx L s run StatusStream [] [(key, v)] w = (Inr r, w')"
  shows "published run key v (tabs w) (tabs w')"
  using assms
proof (cases rule: AppendTx_Inr)
  case (new first fin)
  then show ?thesis
    by (auto simp: appended_def published_def rowsOf_def list_all2_Cons1 upto_rec1 split: if_splits)
qed simp

lemma one_Inr: "one f w = (Inr x, v) \<Longrightarrow> f (tabs w) = Some x \<and> tabs v = tabs w"
  by (auto simp: one_def query_Inr andThen_Inr split: option.splits dest: call_result)

lemma orError_Inr: "orError r w = (Inr x, v) \<longleftrightarrow> r = Inr x \<and> v = w"
  by (auto simp: orError_def split: sum.splits)

lemma AppendActionStatus_Inr:
  assumes "AppendActionStatus L C s i hit w = (Inr u, w')"
    and "t_actions (tabs w) i = Some a" and "a_caller a \<noteq> None"
  obtains most v where "marshalAction C (actionEventOf L C i a hit most) = Inr v"
    "published (a_run a) (bytesOf (uuidString L i)) v (tabs w) (tabs w')"
proof -
  from assms(1) obtain row x where o: "one (\<lambda>t. t_actions t i) w = (Inr row, x)"
    and k: "(if a_caller row = None \<and> \<not> hit then ret () else
      andThen (orError (specMaxAttempts C (a_spec row))) (\<lambda>most.
       andThen (orError (marshalAction C (actionEventOf L C i row hit most))) (\<lambda>value.
       andThen (AppendTx L s (a_run row) StatusStream [] [(bytesOf (uuidString L i), value)]) (\<lambda>_.
       ret ())))) x = (Inr u, w')"
    unfolding AppendActionStatus_def by (rule andThen_InrE)
  from one_Inr [OF o] assms(2) have row: "row = a" "tabs x = tabs w" by simp_all
  from k assms(3) row(1) obtain most v p where "marshalAction C (actionEventOf L C i a hit most) = Inr v"
    "AppendTx L s (a_run a) StatusStream [] [(bytesOf (uuidString L i), v)] x = (Inr p, w')"
    by (auto simp: orError_Inr elim!: andThen_InrE)
  with AppendTx_published [OF this(2)] row(2) that show thesis by simp
qed

lemma AppendStatus_Inr:
  assumes "AppendStatus L C s run w = (Inr u, w')"
  obtains row v where "readRun run (tabs w) = Some row" "marshalRun C (runEventOf C row) = Inr v"
    "published run (bytesOf ''status'') v (tabs w) (tabs w')"
proof -
  from assms obtain row x v p where o: "one (readRun run) w = (Inr row, x)"
    and "marshalRun C (runEventOf C row) = Inr v"
    and a: "AppendTx L s run StatusStream [] [(bytesOf ''status'', v)] x = (Inr p, w')"
    by (auto simp: AppendStatus_def orError_Inr elim!: andThen_InrE)
  with AppendTx_published [OF a] one_Inr [OF o] that show thesis by simp
qed

text \<open>A transition that succeeds: the row, then the events.\<close>

lemma Transition_Inr:
  assumes "Transition L C s x w = (Inr (), w')"
  obtains run and v u z :: world where "t_runs (tabs w) (t_run x) = Some run"
    "transitioned x (clock w) (tabs w) (tabs v)" "t_records (tabs v) = t_records (tabs w)"
    "AppendActionStatus L C s (t_node x) (t_cacheHit x) v = (Inr (), u)"
    "(if r_root run = Some (t_node x) then AppendStatus L C s (t_run x) else ret ()) u = (Inr (), z)"
    "tabs w' = tabs z"
proof -
  from assms [unfolded Transition_def] obtain w1 w2 where b: "transitionTx L C s x (clock w) w1 = (Inr (), w2)"
    and t: "tabs w' = tabs w2" "tabs w1 = tabs w" by (rule transaction_Inr)
  from b obtain run y where o: "one (\<lambda>t. t_runs t (t_run x)) w1 = (Inr run, y)"
    and k: "andThen (stmt (transitionRunTaskAction x (clock w))) (\<lambda>rows.
     if rows \<noteq> 1 then fail ErrLeaseLost
     else
       andThen (AppendActionStatus L C s (t_node x) (t_cacheHit x)) (\<lambda>_.
       if r_root run = Some (t_node x) then AppendStatus L C s (t_run x) else ret ())) y = (Inr (), w2)"
    unfolding transitionTx_def by (rule andThen_InrE)
  from k obtain v u where st: "stmt (transitionRunTaskAction x (clock w)) y = (Inr 1, v)"
    and ap: "AppendActionStatus L C s (t_node x) (t_cacheHit x) v = (Inr (), u)"
    and fin: "(if r_root run = Some (t_node x) then AppendStatus L C s (t_run x) else ret ()) u = (Inr (), w2)"
    by (auto elim!: andThen_InrE split: if_splits)
  from st have "transitionRunTaskAction x (clock w) (tabs y) = Inr (1, tabs v)" by (auto simp: stmt_Inr)
  moreover from this have "t_records (tabs v) = t_records (tabs y)"
    by (rule transitionRun_records)
  ultimately have "transitioned x (clock w) (tabs w) (tabs v)" "t_runs (tabs w) (t_run x) = Some run"
    "t_records (tabs v) = t_records (tabs w)"
    using transitionRun_cases [of x "clock w" "tabs y" 1 "tabs v"] one_Inr [OF o] t(2) by auto
  with that ap fin t(1) show thesis by blast
qed

end
