(* ===== verification/Runs.thy ===== *)
theory Runs
  imports Environments Graph_Store "HOL-Library.Product_Lexorder"
begin

section \<open>Runs and their actions\<close>

text \<open>
  \<open>internal/lutra/runs.go\<close> and \<open>retry.go\<close>: creating a run, creating a child action from
  inside a task, reading, listing and cancelling, with the queries of \<open>db/queries/runs.sql\<close>.
  \<open>taskContext\<close> is what a task's requests carry; the functions it holds are those of the
  run's executor. \<open>now()\<close> is the time at which the transaction began.
\<close>

record taskContext =
  tc_run :: uuid
  tc_action :: uuid
  tc_token :: uuid
  tc_attempt :: int
  tc_wait :: "(uuid \<Rightarrow> int \<Rightarrow> uuid \<Rightarrow> unit act) option" \<comment> \<open>\<open>graph.Wait\<close>, when there is a graph\<close>
  tc_get :: "uuid \<Rightarrow> state act" \<comment> \<open>\<open>graph.Get\<close>\<close>
  tc_add :: "(uuid \<Rightarrow> unit act) option"

record runMessage =
  rm_id :: string
  rm_root :: string
  rm_env :: envID
  rm_entry :: int
  rm_status :: string
  rm_output :: bytes
  rm_error :: string
  rm_created :: string
  rm_updated :: string

record actionMessage =
  am_id :: string
  am_run :: string
  am_caller :: string
  am_env :: envID
  am_entry :: int
  am_spec :: actionSpec
  am_output :: bytes
  am_status :: string
  am_error :: string
  am_attempts :: int
  am_created :: string
  am_updated :: string
  am_upstream :: "string list"

definition terminal :: "string \<Rightarrow> bool" where
  "terminal s \<longleftrightarrow> s = ''succeeded'' \<or> s = ''failed'' \<or> s = ''canceled''"

subsection \<open>Validation\<close>

definition validateInput :: "encodings \<Rightarrow> bytes \<Rightarrow> goerr option" where
  "validateInput E input =
     (case cborInput E input of
        Some [positional, keyword] \<Rightarrow>
          if \<not> cborList E positional then Some (invalidTask ''invalid positional arguments'')
          else if \<not> cborMap E keyword then Some (invalidTask ''invalid keyword arguments'')
          else None
      | _ \<Rightarrow> Some (invalidTask ''input must contain positional and keyword arguments''))"

definition validateActionCache :: "actionSpec \<Rightarrow> goerr option" where
  "validateActionCache spec =
     (if \<not> as_cache spec then
        if as_version spec \<noteq> [] \<or> as_key spec \<noteq> []
        then Some (invalidTask ''uncached actions cannot include cache fields'') else None
      else if length (as_version spec) > 200 \<or> \<not> semanticVersionOK (as_version spec) \<or> length (as_key spec) \<noteq> 32
      then Some (invalidTask ''cached actions require a semantic task version and a 32-byte cache_key'')
      else None)"

definition validateIdempotency :: "string \<Rightarrow> bool \<Rightarrow> goerr option" where
  "validateIdempotency key required =
     (if required \<and> key = [] then Some (invalidTask ''idempotency key is required'')
      else if length key > 200 then Some (invalidTask ''idempotency key is too long'')
      else None)"

text \<open>A missing entrypoint has the zero values, and no \<open>MaxAttempts\<close> to read.\<close>

definition nilPanic :: goerr where
  "nilPanic = Plain ''invalid memory address or nil pointer dereference''"

definition resolvedActionSpec :: "encodings \<Rightarrow> entrypoint option \<Rightarrow> actionSpec \<Rightarrow> goerr + bytes" where
  "resolvedActionSpec E entry requested =
     (case validateActionCache requested of
        Some e \<Rightarrow> Inl e
      | None \<Rightarrow>
          if (case entry of None \<Rightarrow> False | Some e \<Rightarrow> en_cache e) \<noteq> as_cache requested \<or>
             (case entry of None \<Rightarrow> [] | Some e \<Rightarrow> en_version e) \<noteq> as_version requested
          then Inl (invalidTask ''action cache policy must match the registered task'')
          else
            (case entry of
               None \<Rightarrow> Inl nilPanic
             | Some e \<Rightarrow>
                 (case resolveAttempts e (as_attempts requested) of
                    Inl x \<Rightarrow> Inl x
                  | Inr n \<Rightarrow> protoAction E (requested\<lparr>as_attempts := n\<rparr>))))"

text \<open>The checks that \<open>CreateRun\<close> and \<open>CreateTaskAction\<close> make before their transaction.\<close>

definition validateRequest :: "encodings \<Rightarrow> actionSpec option \<Rightarrow> string \<Rightarrow> bool \<Rightarrow> actionSpec act" where
  "validateRequest E spec key required =
     (case spec of
        None \<Rightarrow> fail (invalidTask ''action spec is required'')
      | Some s \<Rightarrow>
          andThen (orFail (validateInput E (as_input s))) (\<lambda>_.
          andThen (orFail (validateActionCache s)) (\<lambda>_.
          andThen (orFail (validateIdempotency key required)) (\<lambda>_.
          ret s))))"

subsection \<open>The queries\<close>

text \<open>\<open>InsertRun\<close> answers without a row when the key is taken.\<close>

definition insertRun :: "uuid \<Rightarrow> uuid \<Rightarrow> string option \<Rightarrow> time \<Rightarrow> tables \<Rightarrow> goerr + uuid option \<times> tables" where
  "insertRun i ns key stamp t =
     (if (case key of None \<Rightarrow> False | Some k \<Rightarrow> t_runKeys t (ns, k) \<noteq> None) then Inr (None, t)
      else if t_runs t i \<noteq> None \<or> \<not> hasNamespace ns t then Inl constraint
      else Inr (Some i, t\<lparr>t_runs := (t_runs t)(i \<mapsto> newRun ns stamp), t_runIds := t_runIds t @ [i],
             t_runKeys := (case key of None \<Rightarrow> t_runKeys t | Some k \<Rightarrow> (t_runKeys t)((ns, k) \<mapsto> i))\<rparr>))"

definition newAction :: "uuid \<Rightarrow> uuid option \<Rightarrow> uuid \<Rightarrow> int \<Rightarrow> bytes \<Rightarrow> time \<Rightarrow> action_row" where
  "newAction run caller env entry spec stamp =
     \<lparr>a_run = run, a_caller = caller, a_entry = entry, a_spec = spec, a_output = [], a_status = Queued,
      a_error = [], a_attempts = 0, a_failures = 0, a_next = None, a_updated = stamp, a_env = env,
      a_created = stamp\<rparr>"

definition addAction :: "uuid \<Rightarrow> action_row \<Rightarrow> tables \<Rightarrow> tables" where
  "addAction i row t =
     t\<lparr>t_actions := (t_actions t)(i \<mapsto> row), t_actionIds := t_actionIds t @ [i]\<rparr>"

text \<open>The keys, the checks and \<open>task_actions_one_root_idx\<close>.\<close>

definition actionFits :: "uuid \<Rightarrow> action_row \<Rightarrow> tables \<Rightarrow> bool" where
  "actionFits i row t \<longleftrightarrow>
     t_actions t i = None \<and> t_runs t (a_run row) \<noteq> None \<and> t_envs t (a_env row) \<noteq> None \<and>
     1 \<le> a_entry row \<and> a_entry row \<le> 4294967295 \<and>
     (case a_caller row of
        None \<Rightarrow> \<not> (\<exists>j\<in>set (t_actionIds t).
                  case t_actions t j of None \<Rightarrow> False | Some a \<Rightarrow> a_run a = a_run row \<and> a_caller a = None)
      | Some c \<Rightarrow> (case t_actions t c of None \<Rightarrow> False | Some a \<Rightarrow> a_run a = a_run row))"

definition insertRootAction :: "uuid \<Rightarrow> action_row \<Rightarrow> tables \<Rightarrow> goerr + uuid \<times> tables" where
  "insertRootAction i row t = (if actionFits i row t then Inr (i, addAction i row t) else Inl constraint)"

definition updateRunRootAction :: "uuid \<Rightarrow> uuid \<Rightarrow> tables \<Rightarrow> goerr + unit \<times> tables" where
  "updateRunRootAction root run t =
     Inr ((), t\<lparr>t_runs := (t_runs t)(run := map_option (\<lambda>r. r\<lparr>r_root := Some root\<rparr>) (t_runs t run))\<rparr>)"

definition insertTaskAction :: "uuid \<Rightarrow> action_row \<Rightarrow> string \<Rightarrow> tables \<Rightarrow> goerr + uuid option \<times> tables" where
  "insertTaskAction i row key t =
     (if t_actionKeys t (a_run row, key) \<noteq> None then Inr (None, t)
      else if actionFits i row t
      then Inr (Some i, (addAction i row t)\<lparr>t_actionKeys := (t_actionKeys t)((a_run row, key) \<mapsto> i)\<rparr>)
      else Inl constraint)"

definition getRunByIdempotencyKey :: "uuid \<Rightarrow> string \<Rightarrow> tables \<Rightarrow> (uuid \<times> uuid option) option" where
  "getRunByIdempotencyKey ns key t =
     (case t_runKeys t (ns, key) of
        None \<Rightarrow> None
      | Some i \<Rightarrow> map_option (\<lambda>r. (i, r_root r)) (t_runs t i))"

definition getTaskActionByIdempotency :: "uuid \<Rightarrow> string \<Rightarrow> tables \<Rightarrow> (uuid \<times> action_row) option" where
  "getTaskActionByIdempotency run key t =
     (case t_actionKeys t (run, key) of
        None \<Rightarrow> None
      | Some i \<Rightarrow> map_option (Pair i) (t_actions t i))"

definition insertTaskActionEdge :: "uuid \<Rightarrow> uuid \<Rightarrow> uuid \<Rightarrow> tables \<Rightarrow> goerr + unit \<times> tables" where
  "insertTaskActionEdge run source dependent t =
     (let inRun = (\<lambda>i. case t_actions t i of None \<Rightarrow> False | Some a \<Rightarrow> a_run a = run) in
      if source = dependent \<or> \<not> inRun source \<or> \<not> inRun dependent then Inl constraint
      else Inr ((), t\<lparr>t_edges := insert (run, source, dependent) (t_edges t)\<rparr>))"

definition readTaskActionRow :: "uuid \<Rightarrow> tables \<Rightarrow> (action_row \<times> env_row) option" where
  "readTaskActionRow i t =
     (case t_actions t i of
        None \<Rightarrow> None
      | Some a \<Rightarrow> map_option (Pair a) (t_envs t (a_env a)))"

definition readRunRow :: "uuid \<Rightarrow> tables \<Rightarrow> (run_row \<times> action_row \<times> env_row) option" where
  "readRunRow run t =
     (case t_runs t run of
        None \<Rightarrow> None
      | Some r \<Rightarrow>
          (case r_root r of
             None \<Rightarrow> None
           | Some i \<Rightarrow>
               (case readTaskActionRow i t of
                  None \<Rightarrow> None
                | Some (a, e) \<Rightarrow> if a_run a = run then Some (r, a, e) else None)))"

definition getActiveCaller :: "uuid \<Rightarrow> time \<Rightarrow> tables \<Rightarrow> (action_row \<times> run_row \<times> env_row) option" where
  "getActiveCaller i stamp t =
     (case readTaskActionRow i t of
        None \<Rightarrow> None
      | Some (a, e) \<Rightarrow>
          (case t_runs t (a_run a) of
             None \<Rightarrow> None
           | Some r \<Rightarrow>
               if (a_status a = SRunning \<or> a_status a = SWaiting) \<and> r_token r \<noteq> None \<and> r_lease r > stamp
               then Some (a, r, e) else None))"

text \<open>\<open>ListTaskActions\<close> orders by \<open>(created_at, id)\<close>, after a cursor.\<close>

type_synonym listedRow = "uuid \<times> action_row \<times> env_row"

definition listKey :: "listedRow \<Rightarrow> time \<times> uuid" where
  "listKey row = (case row of (i, a, e) \<Rightarrow> (a_created a, i))"

definition runRows :: "uuid \<Rightarrow> tables \<Rightarrow> listedRow list" where
  "runRows run t =
     sort_key listKey
       (List.map_filter
          (\<lambda>i. case readTaskActionRow i t of
             None \<Rightarrow> None
           | Some (a, e) \<Rightarrow> if a_run a = run then Some (i, a, e) else None)
          (t_actionIds t))"

definition listTaskActions :: "uuid \<Rightarrow> time \<times> uuid \<Rightarrow> nat \<Rightarrow> tables \<Rightarrow> listedRow list" where
  "listTaskActions run cursor n t = take n (filter (\<lambda>row. cursor < listKey row) (runRows run t))"

text \<open>\<open>ListActionUpstreams\<close>: the edges into the given actions, in the order of their ends.\<close>

definition listActionUpstreams :: "uuid \<Rightarrow> uuid list \<Rightarrow> tables \<Rightarrow> (uuid \<times> uuid) list" where
  "listActionUpstreams run is t =
     sorted_list_of_set ((\<lambda>(r, s, d). (d, s)) ` Set.filter (\<lambda>(r, s, d). r = run \<and> d \<in> set is) (t_edges t))"

subsection \<open>Messages\<close>

definition environmentIdentifier :: "lib \<Rightarrow> env_row \<Rightarrow> envID" where
  "environmentIdentifier L e = \<lparr>id_ns = uuidString L (e_ns e), id_name = e_name e, id_version = e_version e\<rparr>"

definition runMessageOf :: "lib \<Rightarrow> codecs \<Rightarrow> uuid \<Rightarrow> run_row \<Rightarrow> action_row \<Rightarrow> env_row \<Rightarrow> runMessage" where
  "runMessageOf L C i r a e =
     \<lparr>rm_id = uuidString L i, rm_root = (case r_root r of None \<Rightarrow> [] | Some x \<Rightarrow> uuidString L x),
      rm_env = environmentIdentifier L e, rm_entry = a_entry a mod 2 ^ 32,
      rm_status = statusName (a_status a), rm_output = a_output a, rm_error = a_error a,
      rm_created = formatTime C (r_created r), rm_updated = formatTime C (a_updated a)\<rparr>"

definition readRunMessage :: "lib \<Rightarrow> codecs \<Rightarrow> uuid \<Rightarrow> runMessage act" where
  "readRunMessage L C i =
     andThen (mapErr internal (query (readRunRow i))) (\<lambda>row.
     case row of
       None \<Rightarrow> fail (Rpc NotFound ''run not found'')
     | Some (r, a, e) \<Rightarrow> ret (runMessageOf L C i r a e))"

definition actionFromRow :: "lib \<Rightarrow> encodings \<Rightarrow> codecs \<Rightarrow> listedRow \<Rightarrow> (uuid \<times> uuid) list \<Rightarrow>
    goerr + actionMessage" where
  "actionFromRow L E C row upstream =
     (case row of (i, a, e) \<Rightarrow>
      case unprotoAction E (a_spec a) of
        Inl x \<Rightarrow> Inl x
      | Inr spec \<Rightarrow> Inr
          \<lparr>am_id = uuidString L i, am_run = uuidString L (a_run a),
           am_caller = (case a_caller a of None \<Rightarrow> [] | Some c \<Rightarrow> uuidString L c),
           am_env = environmentIdentifier L e, am_entry = a_entry a mod 2 ^ 32, am_spec = spec,
           am_output = a_output a, am_status = statusName (a_status a), am_error = a_error a,
           am_attempts = a_attempts a, am_created = formatTime C (a_created a),
           am_updated = formatTime C (a_updated a),
           am_upstream = map (\<lambda>(d, s). uuidString L s) (filter (\<lambda>(d, s). d = i) upstream)\<rparr>)"

definition readTaskAction :: "lib \<Rightarrow> encodings \<Rightarrow> codecs \<Rightarrow> uuid \<Rightarrow> actionMessage act" where
  "readTaskAction L E C i =
     andThen (mapErr internal (query (readTaskActionRow i))) (\<lambda>row.
     case row of
       None \<Rightarrow> fail (Rpc NotFound ''task action not found'')
     | Some (a, e) \<Rightarrow>
         andThen (query (listActionUpstreams (a_run a) [i])) (\<lambda>upstream.
         orError (actionFromRow L E C (i, a, e) upstream)))"

subsection \<open>\<open>CreateRun\<close>\<close>

text \<open>Lines 133 to 148: the key is taken, by a run that must be the same invocation.\<close>

definition existingRun :: "uuid \<Rightarrow> string \<Rightarrow> uuid \<Rightarrow> int \<Rightarrow> bytes \<Rightarrow> uuid act" where
  "existingRun ns key env entry stored =
     andThen (one (getRunByIdempotencyKey ns key)) (\<lambda>(run, root).
     case root of
       None \<Rightarrow> fail (Rpc Internal ''idempotent run has no root action'')
     | Some i \<Rightarrow>
         andThen (one (readTaskActionRow i)) (\<lambda>(a, e).
         if a_env a \<noteq> env \<or> a_entry a \<noteq> entry \<or> a_spec a \<noteq> stored
         then fail (invalidTask ''idempotency key already belongs to a different invocation'')
         else ret run))"

definition createRunTx :: "lib \<Rightarrow> encodings \<Rightarrow> codecs \<Rightarrow> logService \<Rightarrow> envID option \<Rightarrow> nat \<Rightarrow>
    actionSpec \<Rightarrow> string \<Rightarrow> time \<Rightarrow> uuid act" where
  "createRunTx L E C s env entry spec key stamp =
     andThen (lookupTask L E env entry) (\<lambda>(envID, row, ep).
     andThen (orError (resolvedActionSpec E ep spec)) (\<lambda>stored.
     andThen newID (\<lambda>runID.
     andThen (stmt (insertRun runID (e_ns row) (if key = [] then None else Some key) stamp)) (\<lambda>inserted.
     case inserted of
       None \<Rightarrow> existingRun (e_ns row) key envID (int entry) stored
     | Some run \<Rightarrow>
         andThen newID (\<lambda>i.
         andThen (stmt (insertRootAction i (newAction run None envID (int entry) stored stamp))) (\<lambda>root.
         andThen (stmt (updateRunRootAction root run)) (\<lambda>_.
         andThen (AppendStatus L C s runID) (\<lambda>_.
         ret runID))))))))"

definition CreateRun :: "lib \<Rightarrow> encodings \<Rightarrow> codecs \<Rightarrow> logService \<Rightarrow> bool \<Rightarrow> envID option \<Rightarrow> nat \<Rightarrow>
    actionSpec option \<Rightarrow> string \<Rightarrow> runMessage act" where
  "CreateRun L E C s dbOK env entry spec key =
     (if \<not> dbOK then fail (Rpc Unavailable ''worker unavailable'')
      else
        andThen (validateRequest E spec key False) (\<lambda>as w.
        andThen (transaction (\<lambda>e. e) (\<lambda>e. e) (createRunTx L E C s env entry as key (clock w))) (\<lambda>run.
        readRunMessage L C run) w))"

subsection \<open>\<open>CreateTaskAction\<close>\<close>

text \<open>Lines 206 to 237: the run and the caller are active, and the caller may call the environment.\<close>

definition declared :: "envSpec \<Rightarrow> envID option \<Rightarrow> bool" where
  "declared spec child =
     list_ex (\<lambda>d. case (d, child) of
         (Some x, Some y) \<Rightarrow> id_ns x = id_ns y \<and> id_name x = id_name y \<and> id_version x = id_version y
       | _ \<Rightarrow> False) (es_deps spec)"

definition runNotActive :: goerr where "runNotActive = invalidTask ''run is not active''"
definition callerNotActive :: goerr where "callerNotActive = invalidTask ''caller action is not active''"
definition otherAction :: goerr where
  "otherAction = invalidTask ''idempotency key already belongs to a different action''"

definition authorizeCall :: "encodings \<Rightarrow> taskContext \<Rightarrow> envID option \<Rightarrow> uuid \<Rightarrow> env_row \<Rightarrow> time \<Rightarrow> unit act" where
  "authorizeCall E active child envID row stamp =
     andThen (mapErr (\<lambda>_. runNotActive) (one (\<lambda>t. t_runs t (tc_run active)))) (\<lambda>locked.
     case r_root locked of
       None \<Rightarrow> fail runNotActive
     | Some root \<Rightarrow>
         if e_ns row \<noteq> r_ns locked then fail (invalidTask ''child task belongs to a different namespace'')
         else
           andThen (mapErr (\<lambda>_. runNotActive) (one (\<lambda>t. t_actions t root))) (\<lambda>rootRow.
           if terminal (statusName (a_status rootRow)) then fail runNotActive
           else
             andThen (mapErr (\<lambda>_. callerNotActive) (one (getActiveCaller (tc_action active) stamp))) (\<lambda>(a, r, e).
             if a_run a \<noteq> tc_run active \<or> r_token r \<noteq> Some (tc_token active) \<or> a_attempts a \<noteq> tc_attempt active
             then fail callerNotActive
             else
               andThen (orError (unprotoSpec E (e_spec e))) (\<lambda>callerSpec.
               if a_env a = envID \<or> declared callerSpec child then ret ()
               else fail (Rpc PermissionDenied ''child environment is not a declared dependency'')))))"

definition sameCall :: "taskContext \<Rightarrow> uuid \<Rightarrow> int \<Rightarrow> bytes \<Rightarrow> action_row \<Rightarrow> bool" where
  "sameCall active env entry stored a \<longleftrightarrow>
     a_caller a = Some (tc_action active) \<and> a_env a = env \<and> a_entry a = entry \<and> a_spec a = stored"

text \<open>Lines 238 to 265: the action that has the key, or a new one.\<close>

definition childAction :: "lib \<Rightarrow> codecs \<Rightarrow> logService \<Rightarrow> taskContext \<Rightarrow> uuid \<Rightarrow> int \<Rightarrow> bytes \<Rightarrow> string \<Rightarrow>
    time \<Rightarrow> uuid act" where
  "childAction L C s active env entry stored key stamp =
     andThen (query (getTaskActionByIdempotency (tc_run active) key)) (\<lambda>existing.
     case existing of
       Some (i, a) \<Rightarrow> if sameCall active env entry stored a then ret i else fail otherAction
     | None \<Rightarrow>
         andThen newID (\<lambda>i.
         andThen (stmt (insertTaskAction i
             (newAction (tc_run active) (Some (tc_action active)) env entry stored stamp) key)) (\<lambda>inserted.
         case inserted of
           None \<Rightarrow>
             andThen (mapErr (\<lambda>_. otherAction) (one (getTaskActionByIdempotency (tc_run active) key))) (\<lambda>(j, a).
             if sameCall active env entry stored a then ret j else fail otherAction)
         | Some j \<Rightarrow> andThen (AppendActionStatus L C s j False) (\<lambda>_. ret j))))"

definition createActionTx :: "lib \<Rightarrow> encodings \<Rightarrow> codecs \<Rightarrow> logService \<Rightarrow> taskContext \<Rightarrow> envID option \<Rightarrow> nat \<Rightarrow>
    actionSpec \<Rightarrow> string \<Rightarrow> time \<Rightarrow> uuid act" where
  "createActionTx L E C s active env entry spec key stamp =
     andThen (lookupTask L E env entry) (\<lambda>(envID, row, ep).
     andThen (orError (resolvedActionSpec E ep spec)) (\<lambda>stored.
     andThen (authorizeCall E active env envID row stamp) (\<lambda>_.
     andThen (childAction L C s active envID (int entry) stored key stamp) (\<lambda>i.
     andThen (stmt (insertTaskActionEdge (tc_run active) i (tc_action active))) (\<lambda>_.
     ret i)))))"

definition CreateTaskAction :: "lib \<Rightarrow> encodings \<Rightarrow> codecs \<Rightarrow> logService \<Rightarrow> taskContext option \<Rightarrow> envID option \<Rightarrow>
    nat \<Rightarrow> actionSpec option \<Rightarrow> string \<Rightarrow> actionMessage act" where
  "CreateTaskAction L E C s ctx env entry spec key =
     (case ctx of
        None \<Rightarrow> fail (Rpc PermissionDenied ''task actions are only available inside a task'')
      | Some active \<Rightarrow>
          andThen (validateRequest E spec key True) (\<lambda>as w.
          andThen (transaction (\<lambda>e. e) (\<lambda>e. e) (createActionTx L E C s active env entry as key (clock w))) (\<lambda>i.
          case tc_add active of
            None \<Rightarrow> fail (invalidTask ''run graph is unavailable'')
          | Some add \<Rightarrow> andThen (add i) (\<lambda>_. readTaskAction L E C i)) w))"

subsection \<open>Reading\<close>

text \<open>
  \<open>GetRun\<close> polls until the run ends; \<open>fuel\<close> bounds the polls before the request's context
  ends, and \<open>pause n\<close> is what happens to the world during the sleep.
\<close>

fun pollRun :: "lib \<Rightarrow> codecs \<Rightarrow> (nat \<Rightarrow> unit act) \<Rightarrow> uuid \<Rightarrow> nat \<Rightarrow> runMessage \<Rightarrow> runMessage act" where
  "pollRun L C pause i fuel run =
     (if terminal (rm_status run) then ret run
      else
        (case fuel of
           0 \<Rightarrow> fail CtxCanceled
         | Suc n \<Rightarrow> andThen (pause n) (\<lambda>_. andThen (readRunMessage L C i) (pollRun L C pause i n))))"

definition GetRun :: "lib \<Rightarrow> codecs \<Rightarrow> (nat \<Rightarrow> unit act) \<Rightarrow> string \<Rightarrow> bool \<Rightarrow> nat \<Rightarrow> runMessage act" where
  "GetRun L C pause name wait polls =
     (case uuidParse L name of
        None \<Rightarrow> fail (invalidTask ''invalid run id'')
      | Some i \<Rightarrow>
          andThen (readRunMessage L C i) (\<lambda>run.
          if wait then pollRun L C pause i polls run else ret run))"

text \<open>Lines 404 to 409: an error of \<open>Wait\<close> is dropped when the action has ended.\<close>

definition waitFor :: "taskContext \<Rightarrow> uuid \<Rightarrow> unit act" where
  "waitFor active i =
     (case tc_wait active of
        None \<Rightarrow> fail (invalidTask ''run graph is unavailable'')
      | Some wait \<Rightarrow> (\<lambda>w.
          case wait (tc_action active) (tc_attempt active) i w of
            (Inr _, v) \<Rightarrow> (Inr (), v)
          | (Inl e, v) \<Rightarrow>
              (case tc_get active i v of
                 (Inr st, u) \<Rightarrow> if Terminal st then (Inr (), u) else (Inl e, u)
               | (Inl _, u) \<Rightarrow> (Inl e, u))))"

definition GetTaskAction :: "lib \<Rightarrow> encodings \<Rightarrow> codecs \<Rightarrow> taskContext option \<Rightarrow> string \<Rightarrow> bool \<Rightarrow>
    actionMessage act" where
  "GetTaskAction L E C ctx name wait =
     (case uuidParse L name of
        None \<Rightarrow> fail (invalidTask ''invalid task action id'')
      | Some i \<Rightarrow>
          andThen
            (case ctx of
               None \<Rightarrow> ret ()
             | Some active \<Rightarrow>
                 andThen (mapErr (\<lambda>_. invalidTask ''task action is not a child of this task'')
                            (one (\<lambda>t. t_actions t i))) (\<lambda>a.
                 if a_run a \<noteq> tc_run active \<or> a_caller a \<noteq> Some (tc_action active)
                 then fail (invalidTask ''task action is not a child of this task'') else ret ())) (\<lambda>_.
          andThen
            (if \<not> wait then ret ()
             else
               (case ctx of
                  None \<Rightarrow> fail (invalidTask ''waiting is only available inside a task'')
                | Some active \<Rightarrow> waitFor active i)) (\<lambda>_.
          readTaskAction L E C i)))"

subsection \<open>\<open>ListTaskActions\<close>\<close>

text \<open>\<open>base64.RawURLEncoding\<close>: two other characters, and no padding.\<close>

definition urlChar :: "char \<Rightarrow> char" where
  "urlChar c = (if c = CHR ''+'' then CHR ''-'' else if c = CHR ''/'' then CHR ''_'' else c)"

definition stdChar :: "char \<Rightarrow> char" where
  "stdChar c = (if c = CHR ''-'' then CHR ''+'' else if c = CHR ''_'' then CHR ''/'' else c)"

definition rawURLEncode :: "bytes \<Rightarrow> string" where
  "rawURLEncode bs = map urlChar (filter (\<lambda>c. c \<noteq> CHR ''='') (b64encode bs))"

definition rawURLDecode :: "string \<Rightarrow> bytes option" where
  "rawURLDecode s =
     (let body = filter (\<lambda>c. c \<noteq> CHR 0x0A \<and> c \<noteq> CHR 0x0D) s in
      if \<exists>c\<in>set body. c = CHR ''+'' \<or> c = CHR ''/'' \<or> c = CHR ''='' then None
      else b64quanta (map stdChar body @ replicate ((4 - length body mod 4) mod 4) (CHR ''='')))"

definition badToken :: goerr where "badToken = invalidTask ''invalid page token''"

text \<open>Lines 432 to 449: where a page begins.\<close>

definition parseToken :: "lib \<Rightarrow> encodings \<Rightarrow> string \<Rightarrow> goerr + time \<times> uuid" where
  "parseToken L E token =
     (if token = [] then Inr (0, nilUUID)
      else
        (case rawURLDecode token of
           None \<Rightarrow> Inl badToken
         | Some decoded \<Rightarrow>
             (case splitAt (CHR ''|'') (stringOf decoded) of
                [stamp, name] \<Rightarrow>
                  (case (readTime E stamp, uuidParse L name) of
                     (Some ct, Some i) \<Rightarrow> Inr (ct, i)
                   | _ \<Rightarrow> Inl badToken)
              | _ \<Rightarrow> Inl badToken)))"

definition pageToken :: "lib \<Rightarrow> codecs \<Rightarrow> listedRow \<Rightarrow> string" where
  "pageToken L C row =
     (case row of (i, a, e) \<Rightarrow>
        rawURLEncode (bytesOf (formatTime C (a_created a) @ ''|'' @ uuidString L i)))"

fun actionsFromRows :: "lib \<Rightarrow> encodings \<Rightarrow> codecs \<Rightarrow> (uuid \<times> uuid) list \<Rightarrow> listedRow list \<Rightarrow>
    goerr + actionMessage list" where
  "actionsFromRows L E C upstream [] = Inr []"
| "actionsFromRows L E C upstream (row # rows) =
     (case actionFromRow L E C row upstream of
        Inl e \<Rightarrow> Inl e
      | Inr a \<Rightarrow>
          (case actionsFromRows L E C upstream rows of
             Inl e \<Rightarrow> Inl e
           | Inr as \<Rightarrow> Inr (a # as)))"

definition pageSizeOf :: "int \<Rightarrow> nat" where
  "pageSizeOf n = (if n \<le> 0 \<or> n > 1000 then 100 else nat n)"

definition ListTaskActions :: "lib \<Rightarrow> encodings \<Rightarrow> codecs \<Rightarrow> string \<Rightarrow> int \<Rightarrow> string \<Rightarrow>
    (actionMessage list \<times> string) act" where
  "ListTaskActions L E C name limit token =
     (case uuidParse L name of
        None \<Rightarrow> fail (invalidTask ''invalid run id'')
      | Some run \<Rightarrow>
          andThen (orError (parseToken L E token)) (\<lambda>cursor.
          andThen (mapErr internal (query (listTaskActions run cursor (pageSizeOf limit + 1)))) (\<lambda>found.
          let more = length found > pageSizeOf limit;
              rows = (if more then take (pageSizeOf limit) found else found) in
          andThen (query (listActionUpstreams run (map fst rows))) (\<lambda>upstream.
          andThen (orError (actionsFromRows L E C upstream rows)) (\<lambda>actions.
          ret (actions, if more \<and> rows \<noteq> [] then pageToken L C (last rows) else []))))))"

subsection \<open>\<open>CancelRun\<close>\<close>

definition runActive :: "uuid \<Rightarrow> tables \<Rightarrow> bool" where
  "runActive run t \<longleftrightarrow>
     (case t_runs t run of
        None \<Rightarrow> False
      | Some r \<Rightarrow>
          (case r_root r of
             None \<Rightarrow> False
           | Some i \<Rightarrow> (case t_actions t i of None \<Rightarrow> False | Some a \<Rightarrow> \<not> ended (a_status a))))"

definition cancelRow :: "uuid \<Rightarrow> time \<Rightarrow> action_row \<Rightarrow> action_row" where
  "cancelRow run stamp a =
     (if a_run a = run \<and> \<not> ended (a_status a)
      then a\<lparr>a_status := SCanceled, a_error := ''run canceled'', a_updated := stamp\<rparr> else a)"

definition openActions :: "uuid \<Rightarrow> tables \<Rightarrow> nat" where
  "openActions run t =
     length (filter (\<lambda>i. case t_actions t i of None \<Rightarrow> False | Some a \<Rightarrow> a_run a = run \<and> \<not> ended (a_status a))
       (t_actionIds t))"

definition cancelRunIfActive :: "uuid \<Rightarrow> time \<Rightarrow> tables \<Rightarrow> goerr + nat \<times> tables" where
  "cancelRunIfActive run stamp t =
     (if runActive run t
      then Inr (openActions run t, t\<lparr>t_actions := (\<lambda>i. map_option (cancelRow run stamp) (t_actions t i))\<rparr>)
      else Inr (0, t))"

definition clearRunClaim :: "uuid \<Rightarrow> tables \<Rightarrow> goerr + nat \<times> tables" where
  "clearRunClaim run t =
     Inr (if t_runs t run = None then 0 else 1,
       t\<lparr>t_runs := (t_runs t)(run := map_option (\<lambda>r. r\<lparr>r_token := None, r_lease := 0\<rparr>) (t_runs t run))\<rparr>)"

definition cancelTx :: "lib \<Rightarrow> codecs \<Rightarrow> logService \<Rightarrow> uuid \<Rightarrow> time \<Rightarrow> unit act" where
  "cancelTx L C s i stamp =
     andThen (query (\<lambda>t. t_runs t i)) (\<lambda>locked.
     if locked = None then fail (Rpc NotFound ''run not found'')
     else
       andThen (mapErr internal (stmt (cancelRunIfActive i stamp))) (\<lambda>rows.
       andThen (if rows > 0 then AppendStatus L C s i else ret ()) (\<lambda>_.
       andThen (stmt (clearRunClaim i)) (\<lambda>_. ret ()))))"

definition CancelRun :: "lib \<Rightarrow> codecs \<Rightarrow> logService \<Rightarrow> string \<Rightarrow> runMessage act" where
  "CancelRun L C s name =
     (case uuidParse L name of
        None \<Rightarrow> fail (invalidTask ''invalid run id'')
      | Some i \<Rightarrow> (\<lambda>w.
          andThen (transaction (\<lambda>e. e) (\<lambda>e. e) (cancelTx L C s i (clock w))) (\<lambda>_.
          readRunMessage L C i) w))"

end
