(* ===== verification/Run_Watch.thy ===== *)
theory Run_Watch
  imports Runlog_Follow Task_Logs Runs
begin

section \<open>Watching a run\<close>

text \<open>
  \<open>WatchRun\<close> and \<open>watchRun\<close> of \<open>internal/lutra/runs.go\<close>: the subscription is opened, the run
  and the end of its status stream are read in one snapshot, and the subscription then follows
  the run's statuses, with its task logs when the request has a cursor for them, until the run
  has ended; with task logs a second pass reads both streams up to their ends. The responses
  sent are those of the records accepted, so the subscription of \<open>Runlog_Tail\<close> carries them.
\<close>

datatype watchResponse =
    RunUpdate runMessage
  | ActionUpdate actionEvent
  | LogLine tail_response

subsection \<open>The request and the snapshot\<close>

definition watchRequest :: "lib \<Rightarrow> string \<Rightarrow> stream_item option \<Rightarrow> goerr + uuid" where
  "watchRequest L name logs =
     (case uuidParse L name of
        None \<Rightarrow> Inl (invalidTask ''invalid run id'')
      | Some run \<Rightarrow>
          (case logs of
             None \<Rightarrow> Inr run
           | Some i \<Rightarrow>
               if i_stream i \<noteq> TaskLogStream \<or> i_after i < 0 \<or> length (i_prefix i) > 1024
               then Inl (invalidTask ''invalid task log cursor'') else Inr run))"

definition watchSnapshot :: "lib \<Rightarrow> codecs \<Rightarrow> uuid \<Rightarrow> (runMessage \<times> int) act" where
  "watchSnapshot L C run =
     transaction id id
       (andThen (readRunMessage L C run) (\<lambda>m.
        andThen (query (streamEnd run StatusStream)) (\<lambda>fin.
        ret (m, fin))))"

definition watchCursors :: "stream_item option \<Rightarrow> int \<Rightarrow> cursor list" where
  "watchCursors logs fin =
     (case logs of
        None \<Rightarrow> [\<lparr>c_stream = StatusStream, c_prefix = bytesOf ''status'', c_inspect = fin, c_until = None\<rparr>]
      | Some i \<Rightarrow>
          [\<lparr>c_stream = TaskLogStream, c_prefix = i_prefix i, c_inspect = i_after i, c_until = None\<rparr>,
           \<lparr>c_stream = StatusStream, c_prefix = [], c_inspect = 0, c_until = None\<rparr>])"

subsection \<open>What a record is answered with\<close>

definition dataLoss :: "goerr \<Rightarrow> goerr" where
  "dataLoss e = Rpc DataLoss (errText e)"

text \<open>\<open>sendLog\<close>\<close>

definition logResponse :: "lib \<Rightarrow> codecs \<Rightarrow> tail_response \<Rightarrow> goerr + watchResponse option" where
  "logResponse L C m =
     (if m_stream m = StatusStream then
        if m_key m = bytesOf ''status'' then Inr None
        else (case DecodeActionStatus L C (m_value m) of
                Inl e \<Rightarrow> Inl (dataLoss e)
              | Inr ev \<Rightarrow> Inr (Some (ActionUpdate ev)))
      else Inr (Some (LogLine m)))"

definition withEvent :: "runMessage \<Rightarrow> runEvent \<Rightarrow> runMessage" where
  "withEvent run ev = run\<lparr>rm_status := ev_status ev, rm_output := ev_output ev,
     rm_error := ev_error ev, rm_updated := ev_updated ev\<rparr>"

text \<open>The function given to the first \<open>Run\<close>; \<open>fin\<close> is the end of the statuses at the snapshot.\<close>

definition followResponse :: "lib \<Rightarrow> codecs \<Rightarrow> runMessage \<Rightarrow> int \<Rightarrow> tail_response \<Rightarrow> goerr + watchResponse option" where
  "followResponse L C run fin m =
     (if m_stream m = TaskLogStream \<or> m_key m \<noteq> bytesOf ''status'' then logResponse L C m
      else if m_seq m \<le> fin then Inr None
      else (case DecodeStatus C (m_value m) of
              Inl e \<Rightarrow> Inl (dataLoss e)
            | Inr ev \<Rightarrow> Inr (Some (RunUpdate (withEvent run ev)))))"

fun endsRun :: "watchResponse \<Rightarrow> bool" where
  "endsRun (RunUpdate m) = terminal (rm_status m)"
| "endsRun _ = False"

fun answer :: "goerr + watchResponse option \<Rightarrow> watchResponse list" where
  "answer (Inr (Some r)) = [r]"
| "answer _ = []"

text \<open>
  The callback of a pass: \<open>respond\<close> is what it makes of a record, \<open>sofar\<close> what was sent before
  the pass, and \<open>accepts\<close> the result of \<open>stream.Send\<close>, which may depend on all that was sent.
\<close>

definition watchSend :: "(watchResponse list \<Rightarrow> watchResponse \<Rightarrow> goerr option) \<Rightarrow> watchResponse list \<Rightarrow>
    (tail_response \<Rightarrow> goerr + watchResponse option) \<Rightarrow> send" where
  "watchSend accepts sofar respond ms m =
     (case respond m of
        Inl e \<Rightarrow> SentErr e
      | Inr None \<Rightarrow> SentOK
      | Inr (Some r) \<Rightarrow>
          (case accepts (sofar @ concat (map (answer \<circ> respond) ms)) r of
             Some e \<Rightarrow> SentErr e
           | None \<Rightarrow> if endsRun r then SentStop else SentOK))"

subsection \<open>The call as a system\<close>

text \<open>
  After the snapshot the call follows; with task logs it then reads the end of the task logs,
  the end of the statuses, and drains both streams up to these ends.
\<close>

datatype stage = Following | LogEnd int | Draining int | Broken goerr

record watching =
  k_run :: runMessage
  k_end :: int
  k_logs :: "stream_item option"
  k_stage :: stage
  k_past :: "tail_response list" \<comment> \<open>the records of the first pass, once it is over\<close>
  k_sub :: sub_state

definition firstSent :: "lib \<Rightarrow> codecs \<Rightarrow> watching \<Rightarrow> tail_response list \<Rightarrow> watchResponse list" where
  "firstSent L C k ms =
     RunUpdate (k_run k) # concat (map (answer \<circ> followResponse L C (k_run k) (k_end k)) ms)"

definition watchSent :: "lib \<Rightarrow> codecs \<Rightarrow> watching \<Rightarrow> watchResponse list" where
  "watchSent L C k =
     (case k_stage k of
        Draining n \<Rightarrow> firstSent L C k (k_past k) @ concat (map (answer \<circ> logResponse L C) (s_sent (k_sub k)))
      | _ \<Rightarrow> firstSent L C k (s_sent (k_sub k)))"

definition passSend :: "lib \<Rightarrow> codecs \<Rightarrow> (watchResponse list \<Rightarrow> watchResponse \<Rightarrow> goerr option) \<Rightarrow> watching \<Rightarrow> send" where
  "passSend L C accepts k =
     (case k_stage k of
        Draining n \<Rightarrow> watchSend accepts (firstSent L C k (k_past k)) (logResponse L C)
      | _ \<Rightarrow> watchSend accepts [RunUpdate (k_run k)] (followResponse L C (k_run k) (k_end k)))"

text \<open>
  The call up to its first pass: \<open>Subscribe\<close>, the snapshot, and the first response. \<open>q\<close> holds
  the notifications that arrived before the snapshot. A run that has ended is not followed.
\<close>

definition watchOpen :: "lib \<Rightarrow> codecs \<Rightarrow> (watchResponse list \<Rightarrow> watchResponse \<Rightarrow> goerr option) \<Rightarrow> uuid \<Rightarrow>
    stream_item option \<Rightarrow> string list \<Rightarrow> watching act" where
  "watchOpen L C accepts run logs q =
     andThen call (\<lambda>_.
     andThen (watchSnapshot L C run) (\<lambda>(m, fin) w.
     case accepts [] (RunUpdate m) of
       Some e \<Rightarrow> (Inl e, w)
     | None \<Rightarrow>
         (Inr \<lparr>k_run = m, k_end = fin, k_logs = logs, k_stage = Following, k_past = [],
            k_sub = (sub_start w (watchCursors logs fin))\<lparr>s_queue := q,
              s_phase := (if terminal (rm_status m) then Finished None else Reading)\<rparr>\<rparr>, w)))"

text \<open>The reading of the two ends; the second pass starts where the first one left its cursors.\<close>

definition readLogEnd :: "uuid \<Rightarrow> watching \<Rightarrow> watching" where
  "readLogEnd run k =
     (case query (streamEnd run TaskLogStream) (s_world (k_sub k)) of
        (Inl e, w) \<Rightarrow> k\<lparr>k_stage := Broken e, k_sub := (k_sub k)\<lparr>s_world := w\<rparr>\<rparr>
      | (Inr n, w) \<Rightarrow> k\<lparr>k_stage := LogEnd n, k_sub := (k_sub k)\<lparr>s_world := w\<rparr>\<rparr>)"

definition untilEnds :: "int \<Rightarrow> int \<Rightarrow> cursor list \<Rightarrow> cursor list" where
  "untilEnds n m cs = [(cs ! 0)\<lparr>c_until := Some n\<rparr>, (cs ! 1)\<lparr>c_until := Some m\<rparr>]"

definition startDrain :: "uuid \<Rightarrow> int \<Rightarrow> string list \<Rightarrow> watching \<Rightarrow> watching" where
  "startDrain run n q k =
     (case query (streamEnd run StatusStream) (s_world (k_sub k)) of
        (Inl e, w) \<Rightarrow> k\<lparr>k_stage := Broken e, k_sub := (k_sub k)\<lparr>s_world := w\<rparr>\<rparr>
      | (Inr m, w) \<Rightarrow> k\<lparr>k_stage := Draining n, k_past := s_sent (k_sub k),
            k_sub := (sub_start w (untilEnds n m (s_cursors (k_sub k))))\<lparr>s_queue := q\<rparr>\<rparr>)"

text \<open>
  The rest of the service appends to the log, which is a step of the subscription, or changes
  the other tables.
\<close>

inductive watch_step :: "lib \<Rightarrow> codecs \<Rightarrow> logService \<Rightarrow> uuid \<Rightarrow> (watchResponse list \<Rightarrow> watchResponse \<Rightarrow> goerr option) \<Rightarrow>
    watching \<Rightarrow> watching \<Rightarrow> bool"
  for L C s run accepts where
  pass: "sub_step L s run (passSend L C accepts k) (k_sub k) sub' \<Longrightarrow>
     watch_step L C s run accepts k (k\<lparr>k_sub := sub'\<rparr>)"
| elsewhere: "sameLog (tabs (s_world (k_sub k))) (tabs w) \<Longrightarrow>
     watch_step L C s run accepts k (k\<lparr>k_sub := (k_sub k)\<lparr>s_world := w\<rparr>\<rparr>)"
| log_end: "k_stage k = Following \<Longrightarrow> s_phase (k_sub k) = Finished None \<Longrightarrow> k_logs k \<noteq> None \<Longrightarrow>
     watch_step L C s run accepts k (readLogEnd run k)"
| drain: "k_stage k = LogEnd n \<Longrightarrow> watch_step L C s run accepts k (startDrain run n q k)"

inductive watch_reachable :: "lib \<Rightarrow> codecs \<Rightarrow> logService \<Rightarrow> uuid \<Rightarrow> (watchResponse list \<Rightarrow> watchResponse \<Rightarrow> goerr option) \<Rightarrow>
    watching \<Rightarrow> watching \<Rightarrow> bool"
  for L C s run accepts k0 where
  opened: "watch_reachable L C s run accepts k0 k0"
| next_step: "watch_reachable L C s run accepts k0 k \<Longrightarrow> watch_step L C s run accepts k k' \<Longrightarrow>
    watch_reachable L C s run accepts k0 k'"

text \<open>What the call returns, when it has.\<close>

definition watchReturned :: "watching \<Rightarrow> goerr option option" where
  "watchReturned k =
     (case k_stage k of
        Broken e \<Rightarrow> Some (Some e)
      | LogEnd n \<Rightarrow> None
      | Draining n \<Rightarrow> (case s_phase (k_sub k) of Finished e \<Rightarrow> Some e | _ \<Rightarrow> None)
      | Following \<Rightarrow>
          (case s_phase (k_sub k) of
             Finished (Some e) \<Rightarrow> Some (Some e)
           | Finished None \<Rightarrow> (if k_logs k = None then Some None else None)
           | _ \<Rightarrow> None))"

end
