(* ===== verification/Run_Watch_Properties.thy ===== *)
theory Run_Watch_Properties
  imports Run_Watch
begin

section \<open>What a watched run's client has seen\<close>

text \<open>
  The invariant of a watching call: each pass is a subscription, the first one ends only with a
  response that ends the run, and the second one only at the ends it was given.
\<close>

subsection \<open>How a pass ends\<close>

lemma deliver_stop:
  "deliver L s send rows inspect progress c ms w = (Returned None, c', ms', w') \<Longrightarrow>
   \<exists>ms0 m. ms' = ms0 @ [m] \<and> send ms0 m = SentStop"
proof (induction L s send rows inspect progress c ms w rule: deliver.induct)
  case (2 L s send row rowInspect rows inspect progress c ms w)
  then show ?case
    by (auto simp: Let_def split: option.splits if_splits prod.splits sum.splits sent.splits)
qed simp

lemma readCursor_stop:
  assumes "readCursor L s run send ctxErr progress c ms w = (Returned None, c', ms', w')"
  shows "\<exists>ms0 m. ms' = ms0 @ [m] \<and> send ms0 m = SentStop"
  using assms deliver_stop
  by (fastforce simp: readCursor_def split: if_splits option.splits prod.splits sum.splits)

lemma sub_step_ends:
  assumes "sub_step L s run send st st'" and "s_phase st' = Finished None" and "s_phase st \<noteq> Finished None"
  shows "complete (s_cursors st') \<or> (\<exists>ms0 m. s_sent st' = ms0 @ [m] \<and> send ms0 m = SentStop)"
  using assms(1)
proof cases
  case (read ctxErr)
  obtain turn c ms w where r: "readCursor L s run send ctxErr (s_progress st) (s_cursors st ! s_idx st) (s_sent st) (s_world st)
      = (turn, c, ms, w)" by (metis prod_cases4)
  with read assms(2) have "turn = Returned None" "s_sent st' = ms"
    by (auto simp: readStep_def Let_def split: turn.splits)
  with r show ?thesis using readCursor_stop by auto
qed (use assms(2,3) in \<open>auto simp: roundEnd_def newRound_def Runlog_Tail.wake_def Let_def split: if_splits\<close>)

lemma sub_step_ended:
  assumes "sub_step L s run send st st'" and "s_phase st = Finished e"
  shows "s_phase st' = Finished e \<and> s_sent st' = s_sent st \<and> s_cursors st' = s_cursors st"
  using assms(1) by cases (simp_all add: assms(2))

lemma sub_step_follows:
  assumes "sub_step L s run send st st'" and inv: "subInv L run cs st" and cs: "cursorsOK cs"
    and f: "follows (tabs (s_world st)) run' c0 c ms"
  shows "follows (tabs (s_world st')) run' c0 c ms"
  using assms(1)
proof cases
  case (append s' run'' stream' aid es res w q)
  have ok: "logOK (tabs (s_world st))" using inv by (simp add: subInv_def)
  from AppendEntries_cases [OF append(2) ok append(3)] show ?thesis
  proof cases
    case 1
    with f append show ?thesis by simp
  next
    case 2
    from follows_appended [OF ok 2 refl f] append show ?thesis by simp
  qed
next
  case (read ctxErr)
  obtain turn c' ms' w where r: "readCursor L s run send ctxErr (s_progress st) (s_cursors st ! s_idx st) (s_sent st) (s_world st)
      = (turn, c', ms', w)" by (metis prod_cases4)
  have len: "length (s_cursors st) = length cs" and ok: "logOK (tabs (s_world st))"
    using inv by (simp_all add: subInv_def)
  have "0 \<le> c_inspect (s_cursors st ! s_idx st)"
    using inv cs read(3) len by (force simp: subInv_def follows_def cursorsOK_def list_all_length)
  from readCursor_turn [OF r ok this] have "tabs w = tabs (s_world st)" by simp
  with r read f show ?thesis by (simp add: readStep_def Let_def split: turn.splits)
qed (use f in \<open>simp_all add: roundEnd_def newRound_def Runlog_Tail.wake_def Let_def\<close>)

text \<open>A pass sends records of its cursors' streams only.\<close>

definition passInv :: "lib \<Rightarrow> uuid \<Rightarrow> cursor list \<Rightarrow> sub_state \<Rightarrow> bool" where
  "passInv L run cs st \<longleftrightarrow> subInv L run cs st \<and> (\<forall>m\<in>set (s_sent st). m_stream m \<in> c_stream ` set cs)"

lemma passInv_step:
  assumes "sub_step L s run send st st'" and p: "passInv L run cs st" and cs: "cursorsOK cs"
  shows "passInv L run cs st'"
proof -
  have inv: "subInv L run cs st" and m: "\<forall>m\<in>set (s_sent st). m_stream m \<in> c_stream ` set cs"
    using p by (simp_all add: passInv_def)
  have "\<forall>m\<in>set (s_sent st'). m_stream m \<in> c_stream ` set cs"
    using assms(1)
  proof cases
    case (read ctxErr)
    obtain turn c' ms' w where r: "readCursor L s run send ctxErr (s_progress st) (s_cursors st ! s_idx st) (s_sent st) (s_world st)
        = (turn, c', ms', w)" by (metis prod_cases4)
    have len: "length (s_cursors st) = length cs" and ok: "logOK (tabs (s_world st))"
      using inv by (simp_all add: subInv_def)
    have f: "follows (tabs (s_world st)) run (cs ! s_idx st) (s_cursors st ! s_idx st) (s_sent st)"
      using inv read(3) len by (simp add: subInv_def)
    have "0 \<le> c_inspect (cs ! s_idx st)" using cs read(3) len by (simp add: cursorsOK_def list_all_length)
    with f have "0 \<le> c_inspect (s_cursors st ! s_idx st)" by (simp add: follows_def)
    from readCursor_turn [OF r ok this] obtain new where
      new: "ms' = s_sent st @ new" "\<forall>m\<in>set new. m_stream m = c_stream (s_cursors st ! s_idx st)"
      by (auto simp: advanced_def)
    have "c_stream (s_cursors st ! s_idx st) \<in> c_stream ` set cs"
      using f read(3) len by (simp add: follows_def)
    moreover have "s_sent st' = ms'" using r read by (simp add: readStep_def Let_def split: turn.splits)
    ultimately show ?thesis using new m by auto
  qed (use m in \<open>simp_all add: roundEnd_def newRound_def Runlog_Tail.wake_def Let_def\<close>)
  with subInv_step [OF assms(1) inv cs] show ?thesis by (simp add: passInv_def)
qed

subsection \<open>The rest of the service\<close>

lemma sameLog_eqs:
  assumes "sameLog t t'"
  shows "streamRows t' = streamRows t" "streamEnd run stream t' = streamEnd run stream t"
    "logOK t' = logOK t" "follows t' = follows t" "behind t' = behind t"
proof -
  show rows: "streamRows t' = streamRows t"
    using assms by (intro ext) (simp add: sameLog_def streamRows_def)
  have seq: "nextSeq t' = nextSeq t"
    using assms by (intro ext) (simp add: sameLog_def nextSeq_def)
  have fin: "streamEnd run stream t' = streamEnd run stream t" for run stream
    by (simp add: streamEnd_next seq)
  then show "streamEnd run stream t' = streamEnd run stream t" .
  show "logOK t' = logOK t" using assms by (simp add: logOK_def rows seq sameLog_def)
  show "follows t' = follows t" by (intro ext) (simp add: follows_def dueRows_def rows fin)
  show "behind t' = behind t" by (intro ext) (simp add: behind_def fin)
qed

lemma passInv_elsewhere:
  "sameLog (tabs (s_world st)) (tabs w) \<Longrightarrow> passInv L run cs (st\<lparr>s_world := w\<rparr>) = passInv L run cs st"
  by (simp add: passInv_def subInv_def noticed_def sameLog_eqs)

lemma passInv_start:
  assumes "logOK (tabs w)" and "ph = Reading \<or> ph = Finished None"
  shows "passInv L run cs ((sub_start w cs)\<lparr>s_queue := q, s_phase := ph\<rparr>)"
  using assms by (auto simp: passInv_def subInv_def sub_start_def follows_def dueRows_empty)

lemma query_reads: "query f w = (r, w') \<Longrightarrow> tabs w' = tabs w"
  using withinD [OF ro.w.qry] by fastforce

lemma sameLog_refl [simp]: "sameLog t t"
  by (simp add: sameLog_def)

subsection \<open>The responses\<close>

fun statusesOf :: "watchResponse list \<Rightarrow> runMessage list" where
  "statusesOf [] = []"
| "statusesOf (RunUpdate m # rs) = m # statusesOf rs"
| "statusesOf (ActionUpdate e # rs) = statusesOf rs"
| "statusesOf (LogLine m # rs) = statusesOf rs"

fun logsOf :: "watchResponse list \<Rightarrow> tail_response list" where
  "logsOf [] = []"
| "logsOf (RunUpdate m # rs) = logsOf rs"
| "logsOf (ActionUpdate e # rs) = logsOf rs"
| "logsOf (LogLine m # rs) = m # logsOf rs"

lemma responses_append [simp]:
  "statusesOf (rs @ rs') = statusesOf rs @ statusesOf rs'" "logsOf (rs @ rs') = logsOf rs @ logsOf rs'"
  by (induction rs rule: statusesOf.induct) simp_all

text \<open>The run as a record of its status stream describes it.\<close>

definition laterRun :: "codecs \<Rightarrow> runMessage \<Rightarrow> tail_response \<Rightarrow> runMessage list" where
  "laterRun C run m = (case DecodeStatus C (m_value m) of Inr ev \<Rightarrow> [withEvent run ev] | Inl _ \<Rightarrow> [])"

lemma streams_differ [simp]: "TaskLogStream \<noteq> StatusStream" "StatusStream \<noteq> TaskLogStream"
  by (simp_all add: TaskLogStream_def StatusStream_def)

lemma statusesOf_follow:
  assumes "m_stream m = TaskLogStream \<or> m_stream m = StatusStream"
  shows "statusesOf (answer (followResponse L C run fin m)) =
    (if m_stream m = StatusStream \<and> m_key m = bytesOf ''status'' \<and> fin < m_seq m then laterRun C run m else [])"
  using assms by (auto simp: followResponse_def logResponse_def laterRun_def split: sum.split)

lemma statusesOf_log: "statusesOf (answer (logResponse L C m)) = []"
  by (auto simp: logResponse_def split: sum.split)

lemma logsOf_answers:
  assumes "m_stream m = TaskLogStream \<or> m_stream m = StatusStream"
  shows "logsOf (answer (followResponse L C run fin m)) = (if m_stream m = TaskLogStream then [m] else [])"
    "logsOf (answer (logResponse L C m)) = (if m_stream m = TaskLogStream then [m] else [])"
  using assms by (auto simp: followResponse_def logResponse_def split: sum.split)

text \<open>Every record is of the task logs or of the statuses.\<close>

definition twoStreams :: "tail_response list \<Rightarrow> bool" where
  "twoStreams ms \<longleftrightarrow> (\<forall>m\<in>set ms. m_stream m = TaskLogStream \<or> m_stream m = StatusStream)"

lemma twoStreams_simps [simp]:
  "twoStreams []"
  "twoStreams (m # ms) \<longleftrightarrow> (m_stream m = TaskLogStream \<or> m_stream m = StatusStream) \<and> twoStreams ms"
  "twoStreams (ms @ ms') \<longleftrightarrow> twoStreams ms \<and> twoStreams ms'"
  by (auto simp: twoStreams_def)

lemma statuses_first:
  assumes "twoStreams ms"
  shows "statusesOf (firstSent L C k ms) = k_run k # concat (map (laterRun C (k_run k))
    (filter (\<lambda>m. m_stream m = StatusStream \<and> m_key m = bytesOf ''status'' \<and> k_end k < m_seq m) ms))"
  using assms by (induction ms) (simp_all add: firstSent_def statusesOf_follow)

lemma logs_first:
  "twoStreams ms \<Longrightarrow> logsOf (firstSent L C k ms) = filter (\<lambda>m. m_stream m = TaskLogStream) ms"
  by (induction ms) (simp_all add: firstSent_def logsOf_answers)

lemma logs_second:
  "twoStreams ms \<Longrightarrow>
   logsOf (concat (map (answer \<circ> logResponse L C) ms)) = filter (\<lambda>m. m_stream m = TaskLogStream) ms"
  by (induction ms) (simp_all add: logsOf_answers)

lemma statuses_second: "statusesOf (concat (map (answer \<circ> logResponse L C) ms)) = []"
  by (induction ms) (simp_all add: statusesOf_log)

lemma firstSent_parts [simp]:
  "firstSent L C (k\<lparr>k_stage := g\<rparr>) = firstSent L C k" "firstSent L C (k\<lparr>k_past := p\<rparr>) = firstSent L C k"
  "firstSent L C (k\<lparr>k_sub := u\<rparr>) = firstSent L C k"
  by (simp_all add: firstSent_def fun_eq_iff)

lemma watchSend_stop:
  assumes "watchSend accepts sofar respond ms m = SentStop"
  obtains r where "respond m = Inr (Some r)" "endsRun r"
  using assms by (auto simp: watchSend_def split: sum.splits option.splits if_splits)

lemma endsRun_update: "endsRun r \<Longrightarrow> \<exists>m. r = RunUpdate m \<and> terminal (rm_status m)"
  by (cases r) auto

lemma log_never_ends: "logResponse L C m = Inr (Some r) \<Longrightarrow> \<not> endsRun r"
  by (auto simp: logResponse_def split: if_splits sum.splits)

subsection \<open>The invariant\<close>

definition hasEnded :: "lib \<Rightarrow> codecs \<Rightarrow> watching \<Rightarrow> bool" where
  "hasEnded L C k \<longleftrightarrow> terminal (rm_status (last (statusesOf (watchSent L C k))))"

abbreviation watched :: "watching \<Rightarrow> cursor list" where
  "watched k \<equiv> watchCursors (k_logs k) (k_end k)"

definition drains :: "uuid \<Rightarrow> watching \<Rightarrow> cursor list \<Rightarrow> bool" where
  "drains run k mid \<longleftrightarrow>
     length mid = length (watched k) \<and> twoStreams (k_past k) \<and>
     (\<forall>j<length mid. follows (tabs (s_world (k_sub k))) run (watched k ! j) (mid ! j) (k_past k))"

definition watchInv :: "lib \<Rightarrow> codecs \<Rightarrow> uuid \<Rightarrow> watching \<Rightarrow> bool" where
  "watchInv L C run k \<longleftrightarrow>
     cursorsOK (watched k) \<and> 0 \<le> k_end k \<and>
     (case k_stage k of
        Following \<Rightarrow> passInv L run (watched k) (k_sub k) \<and>
          (s_phase (k_sub k) = Finished None \<longrightarrow> hasEnded L C k)
      | LogEnd n \<Rightarrow> passInv L run (watched k) (k_sub k) \<and> s_phase (k_sub k) = Finished None \<and>
          hasEnded L C k \<and> k_logs k \<noteq> None
      | Draining n \<Rightarrow> hasEnded L C k \<and> k_logs k \<noteq> None \<and>
          (\<exists>mid m. drains run k mid \<and> cursorsOK (untilEnds n m mid) \<and>
             passInv L run (untilEnds n m mid) (k_sub k) \<and>
             (s_phase (k_sub k) = Finished None \<longrightarrow> complete (s_cursors (k_sub k))))
      | Broken e \<Rightarrow> True)"

lemma watched_streams: "c_stream ` set (watched k) \<subseteq> {TaskLogStream, StatusStream}"
  by (auto simp: watchCursors_def split: option.splits)

lemma passInv_two:
  "passInv L run (watched k) st \<Longrightarrow> twoStreams (s_sent st)"
  using watched_streams [of k] by (fastforce simp: passInv_def twoStreams_def)

lemma watched_until: "j < length (watched k) \<Longrightarrow> c_until (watched k ! j) = None"
  by (auto simp: watchCursors_def less_Suc_eq split: option.splits)

lemma not_complete:
  assumes "passInv L run (watched k) st"
  shows "\<not> complete (s_cursors st)"
proof -
  have len: "length (s_cursors st) = length (watched k)" and f: "follows (tabs (s_world st)) run (watched k ! 0) (s_cursors st ! 0) (s_sent st)"
    using assms by (auto simp: passInv_def subInv_def watchCursors_def split: option.splits)
  have "0 < length (watched k)" by (simp add: watchCursors_def split: option.split)
  with f watched_until [of 0 k] len have "c_until (s_cursors st ! 0) = None" "s_cursors st ! 0 \<in> set (s_cursors st)"
    by (simp_all add: follows_def)
  then show ?thesis by (force simp: complete_def)
qed

text \<open>A record that stops the first pass is answered with the run's end.\<close>

lemma stopped_ended:
  assumes "\<forall>n. k_stage k \<noteq> Draining n" and "s_sent (k_sub k) = ms @ [m]"
    and "watchSend accepts sofar (followResponse L C (k_run k) (k_end k)) ms m = SentStop"
  shows "hasEnded L C k"
proof -
  from watchSend_stop [OF assms(3)] obtain r where r: "followResponse L C (k_run k) (k_end k) m = Inr (Some r)" "endsRun r" .
  with endsRun_update obtain x where x: "r = RunUpdate x" "terminal (rm_status x)" by blast
  have "watchSent L C k = firstSent L C k ms @ [RunUpdate x]"
    using assms(1,2) r x by (cases "k_stage k") (simp_all add: watchSent_def firstSent_def)
  with x show ?thesis by (simp add: hasEnded_def)
qed

lemma watchInv_elsewhere:
  assumes "sameLog (tabs (s_world (k_sub k))) (tabs w)"
  shows "watchInv L C run (k\<lparr>k_sub := (k_sub k)\<lparr>s_world := w\<rparr>\<rparr>) = watchInv L C run k"
proof -
  have "hasEnded L C (k\<lparr>k_sub := (k_sub k)\<lparr>s_world := w\<rparr>\<rparr>) = hasEnded L C k"
    by (simp add: hasEnded_def watchSent_def split: stage.split)
  then show ?thesis
    by (simp add: watchInv_def drains_def passInv_elsewhere assms sameLog_eqs [OF assms] split: stage.split)
qed

lemma watchInv_first:
  assumes inv: "watchInv L C run k" and st: "k_stage k = Following \<or> k_stage k = LogEnd n"
    and step: "sub_step L s run (passSend L C accepts k) (k_sub k) sub'"
  shows "watchInv L C run (k\<lparr>k_sub := sub'\<rparr>)"
proof -
  let ?k = "k\<lparr>k_sub := sub'\<rparr>"
  have cs: "cursorsOK (watched k)" and p: "passInv L run (watched k) (k_sub k)"
    using inv st by (auto simp: watchInv_def)
  have p': "passInv L run (watched k) sub'" by (rule passInv_step [OF step p cs])
  have nd: "\<forall>n. k_stage ?k \<noteq> Draining n" using st by auto
  have sent: "hasEnded L C ?k" if f: "s_phase sub' = Finished None"
  proof (cases "s_phase (k_sub k) = Finished None")
    case True
    then have "hasEnded L C k" using inv st by (auto simp: watchInv_def)
    moreover have "s_sent sub' = s_sent (k_sub k)" using sub_step_ended [OF step True] by simp
    ultimately show ?thesis using st by (auto simp: hasEnded_def watchSent_def)
  next
    case False
    from sub_step_ends [OF step f False] not_complete [OF p'] obtain ms m where
      "s_sent sub' = ms @ [m]" "passSend L C accepts k ms m = SentStop" by auto
    with st show ?thesis
      by (intro stopped_ended [OF nd, of ms m]) (auto simp: passSend_def)
  qed
  show ?thesis
    using st
  proof
    assume "k_stage k = Following"
    with inv p' sent show ?thesis by (simp add: watchInv_def)
  next
    assume l: "k_stage k = LogEnd n"
    then have f: "s_phase (k_sub k) = Finished None" using inv by (simp add: watchInv_def)
    from sub_step_ended [OF step f] l inv p' sent show ?thesis by (simp add: watchInv_def)
  qed
qed

lemma watchInv_second:
  assumes inv: "watchInv L C run k" and st: "k_stage k = Draining n"
    and step: "sub_step L s run (passSend L C accepts k) (k_sub k) sub'"
  shows "watchInv L C run (k\<lparr>k_sub := sub'\<rparr>)"
proof -
  obtain mid m where d: "drains run k mid" and cs: "cursorsOK (untilEnds n m mid)"
    and p: "passInv L run (untilEnds n m mid) (k_sub k)"
    and c: "s_phase (k_sub k) = Finished None \<Longrightarrow> complete (s_cursors (k_sub k))"
    using inv st by (auto simp: watchInv_def)
  have p': "passInv L run (untilEnds n m mid) sub'" by (rule passInv_step [OF step p cs])
  have s: "subInv L run (untilEnds n m mid) (k_sub k)" using p by (simp add: passInv_def)
  have d': "drains run (k\<lparr>k_sub := sub'\<rparr>) mid"
    using d sub_step_follows [OF step s cs] by (simp add: drains_def)
  have c': "complete (s_cursors sub')" if f: "s_phase sub' = Finished None"
  proof (cases "s_phase (k_sub k) = Finished None")
    case True
    with c sub_step_ended [OF step True] show ?thesis by simp
  next
    case False
    have "passSend L C accepts k ms m \<noteq> SentStop" for ms m
      using st log_never_ends by (auto simp: passSend_def elim: watchSend_stop)
    with sub_step_ends [OF step f False] show ?thesis by blast
  qed
  have "hasEnded L C (k\<lparr>k_sub := sub'\<rparr>)"
    using inv st by (simp add: watchInv_def hasEnded_def watchSent_def statuses_second)
  with inv st d' cs p' c' show ?thesis by (auto simp: watchInv_def)
qed

lemma watchInv_log_end:
  assumes inv: "watchInv L C run k" and st: "k_stage k = Following" "s_phase (k_sub k) = Finished None"
    and logs: "k_logs k \<noteq> None"
  shows "watchInv L C run (readLogEnd run k)"
proof -
  obtain r w where q: "query (streamEnd run TaskLogStream) (s_world (k_sub k)) = (r, w)" by fastforce
  have "sameLog (tabs (s_world (k_sub k))) (tabs w)" by (simp add: query_reads [OF q])
  then have p: "passInv L run (watched k) ((k_sub k)\<lparr>s_world := w\<rparr>)"
    using inv st by (simp add: passInv_elsewhere watchInv_def)
  have "hasEnded L C k" using inv st by (simp add: watchInv_def)
  then have "hasEnded L C (k\<lparr>k_stage := LogEnd n, k_sub := (k_sub k)\<lparr>s_world := w\<rparr>\<rparr>)" for n
    using st by (simp add: hasEnded_def watchSent_def)
  with inv st logs p q show ?thesis
    by (cases r) (simp_all add: watchInv_def readLogEnd_def)
qed

lemma watchInv_drain:
  assumes inv: "watchInv L C run k" and st: "k_stage k = LogEnd n"
  shows "watchInv L C run (startDrain run n q k)"
proof -
  let ?mid = "s_cursors (k_sub k)"
  obtain r w where rw: "query (streamEnd run StatusStream) (s_world (k_sub k)) = (r, w)" by fastforce
  have t: "tabs w = tabs (s_world (k_sub k))" by (rule query_reads [OF rw])
  obtain i where i: "k_logs k = Some i" using inv st by (auto simp: watchInv_def)
  have p: "passInv L run (watched k) (k_sub k)" and cs: "cursorsOK (watched k)"
    using inv st by (simp_all add: watchInv_def)
  have len: "length ?mid = length (watched k)" and ok: "logOK (tabs (s_world (k_sub k)))"
    and f: "\<forall>j<length (watched k). follows (tabs (s_world (k_sub k))) run (watched k ! j) (?mid ! j) (s_sent (k_sub k))"
    using p by (simp_all add: passInv_def subInv_def)
  have two: "length (watched k) = 2" using i by (simp add: watchCursors_def)
  show ?thesis
  proof (cases r)
    case (Inl e)
    with rw inv show ?thesis by (simp add: startDrain_def watchInv_def)
  next
    case (Inr m)
    let ?k = "startDrain run n q k"
    have k: "?k = k\<lparr>k_stage := Draining n, k_past := s_sent (k_sub k),
        k_sub := (sub_start w (untilEnds n m ?mid))\<lparr>s_queue := q, s_phase := Reading\<rparr>\<rparr>"
      using rw Inr by (simp add: startDrain_def sub_start_def)
    have f2: "follows (tabs (s_world (k_sub k))) run (watched k ! 0) (?mid ! 0) (s_sent (k_sub k))"
      "follows (tabs (s_world (k_sub k))) run (watched k ! 1) (?mid ! 1) (s_sent (k_sub k))"
      using f two by simp_all
    have "cursorsOK (untilEnds n m ?mid)"
      using f2 cs i by (simp add: cursorsOK_def untilEnds_def follows_def watchCursors_def)
    moreover have "drains run ?k ?mid"
      using len f t passInv_two [OF p] by (simp add: drains_def k sub_start_def)
    moreover have "passInv L run (untilEnds n m ?mid) (k_sub ?k)"
      unfolding k using passInv_start [of w Reading] ok t by simp
    moreover have "hasEnded L C ?k"
      using inv st by (simp add: watchInv_def hasEnded_def watchSent_def k sub_start_def)
    ultimately show ?thesis using inv i by (auto simp: watchInv_def k sub_start_def)
  qed
qed

lemma watchInv_step:
  assumes "watch_step L C s run accepts k k'" and inv: "watchInv L C run k"
  shows "watchInv L C run k'"
  using assms(1)
proof cases
  case (pass sub')
  show ?thesis
  proof (cases "k_stage k")
    case (Broken e)
    with pass inv show ?thesis by (simp add: watchInv_def)
  qed (use pass watchInv_first [OF inv] watchInv_second [OF inv] in blast)+
next
  case (elsewhere w)
  with inv show ?thesis by (simp add: watchInv_elsewhere)
next
  case log_end
  with watchInv_log_end [OF inv] show ?thesis by simp
next
  case (drain n q)
  with watchInv_drain [OF inv] show ?thesis by simp
qed

lemma watchSnapshot_reads:
  assumes "watchSnapshot L C run v = (Inr (m, fin), w)"
  shows "fin = streamEnd run StatusStream (tabs v) \<and> tabs w = tabs v"
  using assms unfolding watchSnapshot_def
proof (rule transaction_Inr)
  fix w1 w2
  assume "andThen (readRunMessage L C run) (\<lambda>m. andThen (query (streamEnd run StatusStream)) (\<lambda>fin. ret (m, fin))) w1 =
    (Inr (m, fin), w2)" and t: "tabs w = tabs w2" "tabs w1 = tabs v"
  then obtain row w3 w4 where r: "query (readRunRow run) w1 = (Inr row, w3)"
    and e: "query (streamEnd run StatusStream) w3 = (Inr fin, w4)" "w2 = w4"
    by (auto simp: readRunMessage_def andThen_Inr mapErr_Inr split: option.splits)
  have "tabs w3 = tabs w1" by (rule query_reads [OF r])
  with e t query_reads [OF e(1)] show ?thesis by (simp add: query_Inr)
qed

lemma watchOpen_inv:
  assumes "watchOpen L C accepts run logs q w0 = (Inr k, w)" and "logOK (tabs w0)"
    and "\<And>i. logs = Some i \<Longrightarrow> 0 \<le> i_after i"
  shows "watchInv L C run k" "k_logs k = logs"
proof -
  obtain v m fin w' where c: "call w0 = (Inr (), v)" and t: "watchSnapshot L C run v = (Inr (m, fin), w')"
    and k: "k = \<lparr>k_run = m, k_end = fin, k_logs = logs, k_stage = Following, k_past = [],
            k_sub = (sub_start w' (watchCursors logs fin))\<lparr>s_queue := q,
              s_phase := (if terminal (rm_status m) then Finished None else Reading)\<rparr>\<rparr>"
    using assms(1) by (auto simp: watchOpen_def andThen_Inr split: option.splits)
  from watchSnapshot_reads [OF t] call_result [OF c] have tabs: "tabs w' = tabs w0"
    and "fin = streamEnd run StatusStream (tabs w0)" by simp_all
  moreover have "1 \<le> nextSeq (tabs w0) run StatusStream" using assms(2) unfolding logOK_def by blast
  ultimately have "0 \<le> fin" by (simp add: streamEnd_next)
  then have "cursorsOK (watchCursors logs fin)"
    using assms(3) by (auto simp: cursorsOK_def watchCursors_def split: option.split)
  moreover have "passInv L run (watchCursors logs fin) (k_sub k)"
    unfolding k by (simp add: passInv_start tabs assms(2))
  ultimately show "watchInv L C run k" "k_logs k = logs"
    using \<open>0 \<le> fin\<close> by (auto simp: k watchInv_def hasEnded_def watchSent_def firstSent_def sub_start_def)
qed

lemma watch_reachable_inv:
  assumes "watch_reachable L C s run accepts k0 k" and "watchInv L C run k0"
  shows "watchInv L C run k \<and> k_run k = k_run k0 \<and> k_end k = k_end k0 \<and> k_logs k = k_logs k0"
  using assms(1)
proof induction
  case opened
  with assms(2) show ?case by simp
next
  case (next_step k k')
  from next_step.hyps(2) have "k_run k' = k_run k \<and> k_end k' = k_end k \<and> k_logs k' = k_logs k"
    by cases (auto simp: readLogEnd_def startDrain_def split: prod.split sum.split)
  with next_step watchInv_step show ?case by metis
qed

subsection \<open>What the rows say of the responses\<close>

lemma list_all2_filter:
  assumes "list_all2 R xs ys" and "\<And>x y. R x y \<Longrightarrow> P x = Q y"
  shows "list_all2 R (filter P xs) (filter Q ys)"
  using assms(1) by (induction rule: list_all2_induct) (simp_all add: assms(2))

lemma watched_statuses:
  assumes "follows t run (last (watched k)) c ms" and "twoStreams ms" and "0 \<le> k_end k"
  shows "\<exists>xs. list_all2 carries (filter (\<lambda>r. k_end k < l_seq r \<and> l_seq r \<le> c_inspect c \<and>
        l_key r = bytesOf ''status'') (streamRows t run StatusStream)) xs \<and>
     statusesOf (firstSent L C k ms) = k_run k # concat (map (laterRun C (k_run k)) xs)"
proof -
  let ?c0 = "last (watched k)"
  have c0: "c_stream ?c0 = StatusStream" "c_inspect ?c0 \<le> k_end k" "hasPrefix (bytesOf ''status'') (c_prefix ?c0)"
    using assms(3) by (auto simp: watchCursors_def bytesOf_def split: option.split)
  let ?P = "\<lambda>r. k_end k < l_seq r \<and> l_key r = bytesOf ''status''"
  let ?Q = "\<lambda>m. k_end k < m_seq m \<and> m_key m = bytesOf ''status''"
  have "list_all2 carries (filter ?P (dueRows t run StatusStream (c_prefix ?c0) (c_inspect ?c0) (c_inspect c)))
      (filter ?Q (filter (\<lambda>m. m_stream m = StatusStream) ms))"
    by (rule list_all2_filter) (use assms(1) c0 in \<open>auto simp: follows_def carries_def\<close>)
  moreover have "filter ?P (dueRows t run StatusStream (c_prefix ?c0) (c_inspect ?c0) (c_inspect c)) =
      filter (\<lambda>r. k_end k < l_seq r \<and> l_seq r \<le> c_inspect c \<and> l_key r = bytesOf ''status'')
        (streamRows t run StatusStream)"
    unfolding dueRows_def filter_filter using c0 by (intro filter_cong) auto
  moreover have "filter ?Q (filter (\<lambda>m. m_stream m = StatusStream) ms) =
      filter (\<lambda>m. m_stream m = StatusStream \<and> m_key m = bytesOf ''status'' \<and> k_end k < m_seq m) ms"
    unfolding filter_filter by (intro filter_cong) auto
  ultimately show ?thesis using statuses_first [OF assms(2)] by auto
qed

lemma watch_statuses:
  assumes inv: "watchInv L C run k" and ret: "watchReturned k = Some None"
  shows "(\<exists>hi xs. list_all2 carries (filter (\<lambda>r. k_end k < l_seq r \<and> l_seq r \<le> hi \<and>
        l_key r = bytesOf ''status'') (streamRows (tabs (s_world (k_sub k))) run StatusStream)) xs \<and>
      statusesOf (watchSent L C k) = k_run k # concat (map (laterRun C (k_run k)) xs)) \<and> hasEnded L C k"
proof -
  let ?t = "tabs (s_world (k_sub k))" and ?j = "length (watched k) - 1"
  have j: "?j < length (watched k)" "last (watched k) = watched k ! ?j"
    by (simp_all add: watchCursors_def split: option.split)
  consider "k_stage k = Following" "s_phase (k_sub k) = Finished None" | n where "k_stage k = Draining n"
    using ret by (auto simp: watchReturned_def split: stage.splits phase.splits option.splits if_splits)
  then show ?thesis
  proof cases
    case 1
    then have p: "passInv L run (watched k) (k_sub k)" and e: "hasEnded L C k"
      using inv by (simp_all add: watchInv_def)
    have f: "follows ?t run (last (watched k)) (s_cursors (k_sub k) ! ?j) (s_sent (k_sub k))"
      using p j by (simp add: passInv_def subInv_def)
    have "0 \<le> k_end k" using inv by (simp add: watchInv_def)
    moreover have "watchSent L C k = firstSent L C k (s_sent (k_sub k))" by (simp add: watchSent_def 1)
    ultimately obtain xs where "list_all2 carries (filter (\<lambda>r. k_end k < l_seq r \<and>
        l_seq r \<le> c_inspect (s_cursors (k_sub k) ! ?j) \<and> l_key r = bytesOf ''status'') (streamRows ?t run StatusStream)) xs"
      "statusesOf (watchSent L C k) = k_run k # concat (map (laterRun C (k_run k)) xs)"
      using watched_statuses [OF f passInv_two [OF p], where L = L and C = C] by auto
    with e show ?thesis by blast
  next
    case (2 n)
    then obtain mid where d: "drains run k mid" and e: "hasEnded L C k"
      using inv by (auto simp: watchInv_def)
    have f: "follows ?t run (last (watched k)) (mid ! ?j) (k_past k)"
      using d j by (simp add: drains_def)
    have "0 \<le> k_end k" "twoStreams (k_past k)" using inv d by (simp_all add: watchInv_def drains_def)
    moreover have "statusesOf (watchSent L C k) = statusesOf (firstSent L C k (k_past k))"
      by (simp add: watchSent_def 2 statuses_second)
    ultimately obtain xs where "list_all2 carries (filter (\<lambda>r. k_end k < l_seq r \<and>
        l_seq r \<le> c_inspect (mid ! ?j) \<and> l_key r = bytesOf ''status'') (streamRows ?t run StatusStream)) xs"
      "statusesOf (watchSent L C k) = k_run k # concat (map (laterRun C (k_run k)) xs)"
      using watched_statuses [OF f, where L = L and C = C] by auto
    with e show ?thesis by blast
  qed
qed

lemma watch_logs:
  assumes inv: "watchInv L C run k" and ret: "watchReturned k = Some None" and i: "k_logs k = Some i"
  shows "\<exists>n hi. k_stage k = Draining n \<and> n \<le> hi \<and>
     list_all2 carries (filter (\<lambda>r. i_after i < l_seq r \<and> l_seq r \<le> hi \<and> hasPrefix (l_key r) (i_prefix i))
        (streamRows (tabs (s_world (k_sub k))) run TaskLogStream)) (logsOf (watchSent L C k))"
proof -
  let ?t = "tabs (s_world (k_sub k))"
  have w: "watched k ! 0 = \<lparr>c_stream = TaskLogStream, c_prefix = i_prefix i, c_inspect = i_after i, c_until = None\<rparr>"
    "length (watched k) = 2" using i by (simp_all add: watchCursors_def)
  obtain n where n: "k_stage k = Draining n" and ph: "s_phase (k_sub k) = Finished None"
    using ret i by (auto simp: watchReturned_def split: stage.splits phase.splits option.splits if_splits)
  obtain mid m where d: "drains run k mid" and p: "passInv L run (untilEnds n m mid) (k_sub k)"
    and c: "complete (s_cursors (k_sub k))"
    using inv n ph by (auto simp: watchInv_def)
  let ?c = "s_cursors (k_sub k) ! 0" and ?c1 = "mid ! 0"
  have ok: "logOK ?t" and len: "length (s_cursors (k_sub k)) = 2"
    and f2: "follows ?t run (untilEnds n m mid ! 0) ?c (s_sent (k_sub k))"
    using p by (auto simp: passInv_def subInv_def untilEnds_def)
  have f1: "follows ?t run (watched k ! 0) ?c1 (k_past k)" using d w(2) by (auto simp: drains_def)
  have two: "twoStreams (k_past k)" using d by (simp add: drains_def)
  have two': "twoStreams (s_sent (k_sub k))"
  proof -
    have "c_stream (mid ! 1) = c_stream (watched k ! 1)" "c_stream (mid ! 0) = c_stream (watched k ! 0)"
      using d w by (simp_all add: drains_def follows_def)
    with p w i show ?thesis
      by (auto simp: passInv_def twoStreams_def untilEnds_def watchCursors_def)
  qed
  have "c_until ?c = Some n" using f2 by (simp add: follows_def untilEnds_def)
  then have n: "n \<le> c_inspect ?c" using c len by (force simp: complete_def in_set_conv_nth)
  have le: "i_after i \<le> c_inspect ?c1" "c_inspect ?c1 \<le> c_inspect ?c"
    using f1 f2 w by (simp_all add: follows_def untilEnds_def)
  have "list_all2 carries (dueRows ?t run TaskLogStream (i_prefix i) (i_after i) (c_inspect ?c))
      (filter (\<lambda>m. m_stream m = TaskLogStream) (k_past k @ s_sent (k_sub k)))"
    using f1 f2 w unfolding dueRows_split [OF ok le] filter_append
    by (intro list_all2_appendI) (simp_all add: follows_def untilEnds_def)
  moreover have "logsOf (watchSent L C k) = filter (\<lambda>m. m_stream m = TaskLogStream) (k_past k @ s_sent (k_sub k))"
    using \<open>k_stage k = Draining n\<close> two two' by (simp add: watchSent_def logs_first logs_second)
  ultimately show ?thesis using n \<open>k_stage k = Draining n\<close> by (auto simp: dueRows_def)
qed

subsection \<open>The property\<close>

text \<open>
  C29: A watched run is reported to its end and completely. When \<open>WatchRun\<close> returns without an
  error, the statuses its client received are the snapshot followed by exactly the status
  events written after it, each once and in order, and the last of them is a final status.
  If the request asked for task logs, the log lines received are exactly the records after the
  request's position with its prefix, each once and in order, up to a position at or past the
  end of the log that was read once the run had ended.
\<close>

theorem watch_complete:
  assumes "watchOpen L C accepts run logs q w0 = (Inr k0, w)" and "watchRequest L name logs = Inr run"
    and "logOK (tabs w0)" and "watch_reachable L C s run accepts k0 k" and "watchReturned k = Some None"
  shows "(\<exists>hi xs. list_all2 carries (filter (\<lambda>r. k_end k0 < l_seq r \<and> l_seq r \<le> hi \<and>
            l_key r = bytesOf ''status'') (streamRows (tabs (s_world (k_sub k))) run StatusStream)) xs \<and>
          statusesOf (watchSent L C k) = k_run k0 # concat (map (laterRun C (k_run k0)) xs)) \<and>
     terminal (rm_status (last (statusesOf (watchSent L C k)))) \<and>
     (case logs of
        None \<Rightarrow> True
      | Some i \<Rightarrow> \<exists>n hi. k_stage k = Draining n \<and> n \<le> hi \<and>
          list_all2 carries (filter (\<lambda>r. i_after i < l_seq r \<and> l_seq r \<le> hi \<and> hasPrefix (l_key r) (i_prefix i))
            (streamRows (tabs (s_world (k_sub k))) run TaskLogStream)) (logsOf (watchSent L C k)))"
proof -
  have "0 \<le> i_after i" if "logs = Some i" for i
    using assms(2) that by (auto simp: watchRequest_def split: option.splits if_splits)
  note k0 = watchOpen_inv [OF assms(1,3) this]
  from watch_reachable_inv [OF assms(4) k0(1)] k0(2)
  have inv: "watchInv L C run k" and k: "k_run k = k_run k0" "k_end k = k_end k0" "k_logs k = logs" by simp_all
  from watch_statuses [OF inv assms(5)] watch_logs [OF inv assms(5)] k show ?thesis
    by (simp add: hasEnded_def split: option.split)
qed

subsection \<open>A finished run with one line in its log\<close>

definition seenRow :: log_row where
  "seenRow = \<lparr>l_run = 7, l_stream = TaskLogStream, l_seq = 1, l_key = [1], l_cbor = [2], l_uri = None,
     l_size = 1, l_created = 1\<rparr>"

definition seenTables :: tables where
  "seenTables = emptyTables\<lparr>t_runs := [7 \<mapsto> (newRun 5 0)\<lparr>r_root := Some 8\<rparr>],
     t_actions := [8 \<mapsto> (newAction 7 None 2 1 [1] 1)\<lparr>a_status := Succeeded\<rparr>],
     t_envs := [2 \<mapsto> \<lparr>e_ns = 5, e_name = ''e'', e_version = [], e_provider = [], e_spec = [], e_image = []\<rparr>],
     t_streams := [(7, TaskLogStream) \<mapsto> 2], t_records := [seenRow]\<rparr>"

definition seenWorld :: world where
  "seenWorld = demoWorld\<lparr>tabs := seenTables\<rparr>"

definition seenItem :: stream_item where
  "seenItem = \<lparr>i_stream = TaskLogStream, i_after = 0, i_prefix = []\<rparr>"

definition watch0 :: "codecs \<Rightarrow> watching" where
  "watch0 C = (case fst (watchOpen demoLib C (\<lambda>_ _. None) 7 (Some seenItem) [] seenWorld) of Inr k \<Rightarrow> k)"
definition watch1 :: "codecs \<Rightarrow> watching" where "watch1 C = readLogEnd 7 (watch0 C)"
definition watch2 :: "codecs \<Rightarrow> watching" where "watch2 C = startDrain 7 1 [] (watch1 C)"
definition watchPass :: "codecs \<Rightarrow> watching \<Rightarrow> watching" where
  "watchPass C k = k\<lparr>k_sub := readStep demoLib demoLog 7 (passSend demoLib C (\<lambda>_ _. None) k) None (k_sub k)\<rparr>"
definition watch3 :: "codecs \<Rightarrow> watching" where "watch3 C = watchPass C (watch2 C)"
definition watch4 :: "codecs \<Rightarrow> watching" where "watch4 C = watchPass C (watch3 C)"
definition watch5 :: "codecs \<Rightarrow> watching" where "watch5 C = watch4 C\<lparr>k_sub := roundEnd (k_sub (watch4 C))\<rparr>"

lemma seen_logOK: "logOK (tabs seenWorld)"
proof -
  have "[1..2 - 1] = [1::int]" by simp
  then show ?thesis
    by (auto simp: logOK_def nextSeq_def streamRows_def seenWorld_def seenTables_def seenRow_def demo_defs)
qed

definition seenRun :: "codecs \<Rightarrow> runMessage" where
  "seenRun C = runMessageOf demoLib C 7 ((newRun 5 0)\<lparr>r_root := Some 8\<rparr>)
     ((newAction 7 None 2 1 [1] 1)\<lparr>a_status := Succeeded\<rparr>)
     \<lparr>e_ns = 5, e_name = ''e'', e_version = [], e_provider = [], e_spec = [], e_image = []\<rparr>"

lemma seenRun_terminal: "terminal (rm_status (seenRun C))"
  by (simp add: seenRun_def runMessageOf_def terminal_def)

lemma seen_ends: "streamEnd 7 StatusStream seenTables = 0" "streamEnd 7 TaskLogStream seenTables = 1"
  by (simp_all add: streamEnd_def seenTables_def demo_defs)

lemma seen_opened:
  "watchOpen demoLib C (\<lambda>_ _. None) 7 (Some seenItem) [] seenWorld = (Inr (watch0 C), seenWorld\<lparr>calls := 5\<rparr>)"
  "watch0 C = \<lparr>k_run = seenRun C, k_end = 0, k_logs = Some seenItem, k_stage = Following, k_past = [],
     k_sub = (sub_start (seenWorld\<lparr>calls := 5\<rparr>) (watchCursors (Some seenItem) 0))\<lparr>s_phase := Finished None\<rparr>\<rparr>"
proof -
  have r: "readRunRow 7 seenTables = Some ((newRun 5 0)\<lparr>r_root := Some 8\<rparr>,
     (newAction 7 None 2 1 [1] 1)\<lparr>a_status := Succeeded\<rparr>,
     \<lparr>e_ns = 5, e_name = ''e'', e_version = [], e_provider = [], e_spec = [], e_image = []\<rparr>)"
    by (simp add: readRunRow_def readTaskActionRow_def seenTables_def newAction_def)
  have f: "faults seenWorld = (\<lambda>_. None)" "calls seenWorld = 0" "tabs seenWorld = seenTables"
    by (simp_all add: seenWorld_def demoWorld_def)
  have o: "watchOpen demoLib C (\<lambda>_ _. None) 7 (Some seenItem) [] seenWorld =
     (Inr \<lparr>k_run = seenRun C, k_end = 0, k_logs = Some seenItem, k_stage = Following, k_past = [],
     k_sub = (sub_start (seenWorld\<lparr>calls := 5\<rparr>) (watchCursors (Some seenItem) 0))\<lparr>s_phase := Finished None\<rparr>\<rparr>,
      seenWorld\<lparr>calls := 5\<rparr>)"
    using seenRun_terminal [of C]
    by (simp add: watchOpen_def watchSnapshot_def transaction_def readRunMessage_def andThen_def call_def query_def
        mapErr_def f r seen_ends seenRun_def sub_start_def)
  then show "watch0 C = \<lparr>k_run = seenRun C, k_end = 0, k_logs = Some seenItem, k_stage = Following, k_past = [],
     k_sub = (sub_start (seenWorld\<lparr>calls := 5\<rparr>) (watchCursors (Some seenItem) 0))\<lparr>s_phase := Finished None\<rparr>\<rparr>"
    by (simp add: watch0_def)
  with o show "watchOpen demoLib C (\<lambda>_ _. None) 7 (Some seenItem) [] seenWorld = (Inr (watch0 C), seenWorld\<lparr>calls := 5\<rparr>)"
    by simp
qed

definition seenRecord :: tail_response where
  "seenRecord = \<lparr>m_stream = TaskLogStream, m_seq = 1, m_key = [1], m_value = [2], m_created = 1\<rparr>"

lemma seen_fields: "faults seenWorld = (\<lambda>_. None)" "tabs seenWorld = seenTables"
  by (simp_all add: seenWorld_def demoWorld_def)

lemma seen_matched:
  "matchedRows 7 TaskLogStream 0 None upper 256 seenTables = [seenRow]"
  by (simp add: matchedRows_def seen_ends keyIn_def) (simp add: seenTables_def seenRow_def demo_defs)

lemmas watch_defs = watch5_def watch4_def watch3_def watch2_def watch1_def seen_opened watchPass_def
  readLogEnd_def startDrain_def query_def andThen_def call_def seen_fields seen_ends sub_start_def
  watchCursors_def seenItem_def untilEnds_def readStep_def readCursor_def Let_def demo_batch

lemma watch3: "watch3 C = (watch2 C)\<lparr>k_sub := (k_sub (watch2 C))\<lparr>
    s_world := (s_world (k_sub (watch2 C)))\<lparr>calls := 8\<rparr>,
    s_cursors := [\<lparr>c_stream = TaskLogStream, c_prefix = [], c_inspect = 1, c_until = Some 1\<rparr>,
      \<lparr>c_stream = StatusStream, c_prefix = [], c_inspect = 0, c_until = Some 0\<rparr>],
    s_sent := [seenRecord], s_progress := True, s_idx := 1\<rparr>\<rparr>"
  by (simp add: watch_defs readFiltered_def seen_matched seenRow_def rowValue_def PrefixSuccessor_def
      passSend_def watchSend_def logResponse_def seenRecord_def)

lemma watch5: "k_stage (watch5 C) = Draining 1" "s_phase (k_sub (watch5 C)) = Finished None"
  "k_past (watch5 C) = []" "s_sent (k_sub (watch5 C)) = [seenRecord]" "k_run (watch5 C) = seenRun C"
  "k_end (watch5 C) = 0" "tabs (s_world (k_sub (watch5 C))) = seenTables"
  by (simp_all add: watch5_def watch4_def watchPass_def watch3 readStep_def readCursor_def roundEnd_def complete_def)
    (simp_all add: watch_defs)

lemma watch5_reached:
  "watch_reachable demoLib C demoLog 7 (\<lambda>_ _. None) (watch0 C) (watch5 C)"
proof -
  let ?R = "watch_reachable demoLib C demoLog 7 (\<lambda>_ _. None) (watch0 C)"
  have "?R (watch0 C)" by (rule opened)
  then have "?R (watch1 C)" unfolding watch1_def
    by (rule next_step) (rule log_end, simp_all add: seen_opened)
  then have "?R (watch2 C)" unfolding watch2_def
    by (rule next_step) (rule drain, simp add: watch_defs)
  then have "?R (watch3 C)" unfolding watch3_def watchPass_def
    by (rule next_step) (rule pass, rule read, simp_all add: watch_defs)
  then have "?R (watch4 C)" unfolding watch4_def watchPass_def
    by (rule next_step) (rule pass, rule read, simp_all add: watch3, simp_all add: watch_defs)
  then show ?thesis unfolding watch5_def
    by (rule next_step) (rule pass, rule end_of_round,
      simp_all add: watch4_def watchPass_def watch3 readStep_def readCursor_def, simp_all add: watch_defs)
qed

lemma seen_rows: "streamRows seenTables 7 TaskLogStream = [seenRow]"
  by (simp add: streamRows_def seenTables_def seenRow_def)

theorem watch_complete_witness:
  "\<forall>C. statusesOf (watchSent demoLib C (watch5 C)) = [seenRun C] \<and> terminal (rm_status (seenRun C)) \<and>
     (\<exists>hi\<ge>1. list_all2 carries (filter (\<lambda>r. l_seq r \<le> hi) [seenRow]) [seenRecord])"
proof
  fix C
  have r: "watchReturned (watch5 C) = Some None" by (simp add: watchReturned_def watch5)
  have q: "watchRequest demoLib ''run'' (Some seenItem) = Inr 7"
    by (simp add: watchRequest_def seenItem_def demoLib_def)
  have s: "watchSent demoLib C (watch5 C) = [RunUpdate (seenRun C), LogLine seenRecord]"
    by (simp add: watchSent_def watch5 firstSent_def logResponse_def seenRecord_def)
  show "statusesOf (watchSent demoLib C (watch5 C)) = [seenRun C] \<and> terminal (rm_status (seenRun C)) \<and>
     (\<exists>hi\<ge>1. list_all2 carries (filter (\<lambda>r. l_seq r \<le> hi) [seenRow]) [seenRecord])"
    using watch_complete [OF seen_opened(1) q seen_logOK watch5_reached r]
    by (simp add: s watch5 seen_rows seenItem_def) (auto simp: seenRow_def)
qed

end
