(* ===== verification/Blob_Service.thy ===== *)
theory Blob_Service
  imports Runlog_Read
begin

section \<open>The blob service\<close>

text \<open>
  \<open>internal/blob/service.go\<close> beside the URIs: \<open>Put\<close>, the upload sessions with their parts,
  and downloads, over the tables \<open>blobs\<close> and \<open>blob_uploads\<close> and the object store. What the
  code asks of S3 is the record \<open>s3\<close>: the object that the parts a client uploaded assemble
  to, the signed URLs, and \<open>strings.ToLower(key) == key\<close> for Unicode text, which the
  standard library decides by its case tables. \<open>uuid\<close> draws can fail like any other call.
\<close>

record s3 =
  assembled :: "string \<Rightarrow> (int \<times> string) list \<Rightarrow> object option"
  presignPart :: "string \<Rightarrow> int \<Rightarrow> string \<Rightarrow> string"
  presignPut :: "string \<Rightarrow> (string \<times> string) list \<Rightarrow> string"
  presignGet :: "string \<Rightarrow> string"
  isLower :: "string \<Rightarrow> bool"
  uploadOrder :: "(uuid \<rightharpoonup> upload_row) \<Rightarrow> uuid list"

record blobService =
  b_db :: bool
  b_store :: bool
  b_signer :: bool
  b_bucket :: string

definition partSize :: int where "partSize = 8388608"

definition ready :: "blobService \<Rightarrow> goerr option" where
  "ready s =
     (if \<not> b_db s \<or> \<not> b_store s \<or> \<not> b_signer s \<or> b_bucket s = []
      then Some (Rpc Unavailable ''blob store unavailable'') else None)"

subsection \<open>Metadata\<close>

text \<open>The length of \<open>json.Marshal\<close>'s output for valid UTF-8 text, and for a map of texts.\<close>

fun jsonTextLength :: "string \<Rightarrow> nat" where
  "jsonTextLength [] = 0"
| "jsonTextLength (c # cs) =
     (if c = CHR 0xE2 \<and> (take 2 cs = [CHR 0x80, CHR 0xA8] \<or> take 2 cs = [CHR 0x80, CHR 0xA9])
      then 4 + jsonTextLength cs
      else
        (if c = CHR 0x22 \<or> c = CHR 0x5C \<or> c = CHR 0x08 \<or> c = CHR 0x0C \<or> c = CHR 0x0A \<or>
            c = CHR 0x0D \<or> c = CHR 0x09 then 2
         else if (of_char c :: nat) < 32 \<or> c = CHR ''<'' \<or> c = CHR ''>'' \<or> c = CHR ''&'' then 6
         else 1) + jsonTextLength cs)"

definition jsonMapLength :: "(string \<times> string) list \<Rightarrow> nat" where
  "jsonMapLength m =
     2 + sum_list (map (\<lambda>(k, v). jsonTextLength k + jsonTextLength v + 5) m) + (length m - 1)"

fun checkMetadata :: "s3 \<Rightarrow> (string \<times> string) list \<Rightarrow> goerr option" where
  "checkMetadata S [] = None"
| "checkMetadata S ((key, value) # m) =
     (if length key = 0 \<or> length key > 64 \<or> length value > 1024 \<or> \<not> isLower S key
      then Some (Plain ''invalid blob metadata'') else checkMetadata S m)"

definition uploadMetadata :: "s3 \<Rightarrow> (string \<times> string) list \<Rightarrow> goerr + (string \<times> string) list" where
  "uploadMetadata S values =
     (if length values > 32 then Inl (Plain ''too many blob metadata entries'')
      else
        (case checkMetadata S values of
           Some e \<Rightarrow> Inl e
         | None \<Rightarrow>
             if jsonMapLength values > 16384 then Inl (Plain ''invalid blob metadata'')
             else Inr values))"

definition partCount :: "int \<Rightarrow> int" where
  "partCount n = wrap32 ((n + partSize - 1) div partSize)"

subsection \<open>Queries and calls\<close>

definition createBlobUpload :: "uuid \<Rightarrow> upload_row \<Rightarrow> tables \<Rightarrow> goerr + unit \<times> tables" where
  "createBlobUpload i row t =
     (if t_uploads t i \<noteq> None \<or> (\<exists>r\<in>ran (t_uploads t). u_object r = u_object row) \<or>
         length (u_sha256 row) \<noteq> 32 \<or> u_size row < 0
      then Inl constraint
      else Inr ((), t\<lparr>t_uploads := (t_uploads t)(i \<mapsto> row)\<rparr>))"

definition deleteBlobUpload :: "uuid \<Rightarrow> tables \<Rightarrow> goerr + unit \<times> tables" where
  "deleteBlobUpload i t = Inr ((), t\<lparr>t_uploads := (t_uploads t)(i := None)\<rparr>)"

definition getBlobUpload :: "uuid \<Rightarrow> time \<Rightarrow> tables \<Rightarrow> upload_row option" where
  "getBlobUpload i now t =
     (case t_uploads t i of
        None \<Rightarrow> None
      | Some r \<Rightarrow> if u_expires r > now then Some r else None)"

definition listExpired :: "s3 \<Rightarrow> time \<Rightarrow> tables \<Rightarrow> uuid list" where
  "listExpired S now t =
     take 100 (filter (\<lambda>i. case t_uploads t i of None \<Rightarrow> False | Some r \<Rightarrow> u_expires r \<le> now)
       (uploadOrder S (t_uploads t)))"

text \<open>Go's \<open>_ = f()\<close>.\<close>

definition ignore :: "unit act \<Rightarrow> unit act" where
  "ignore m w = (Inr (), snd (m w))"

text \<open>The result and the error of a call that is looked at later.\<close>

definition try_act :: "'a act \<Rightarrow> (goerr + 'a) act" where
  "try_act m w = (case m w of (r, w') \<Rightarrow> (Inr r, w'))"

definition randomID :: "uuid act" where
  "randomID = andThen (mapErr internal call) (\<lambda>_. newID)"

text \<open>
  \<open>CompleteMultipartUpload\<close> with \<open>If-None-Match: *\<close>: the object is created unless there
  is one already or the parts are not those of the upload.
\<close>

definition completeMultipart :: "s3 \<Rightarrow> string \<Rightarrow> string \<Rightarrow> (int \<times> string) list \<Rightarrow> unit act" where
  "completeMultipart S key upload parts w =
     (case (objects w key, assembled S upload parts) of
        (None, Some ob) \<Rightarrow> putObject key ob w
      | _ \<Rightarrow> andThen call (\<lambda>_. fail (Plain ''complete multipart upload'')) w)"

subsection \<open>\<open>Put\<close>\<close>

definition Put :: "lib \<Rightarrow> string \<Rightarrow> bytes \<Rightarrow> string act" where
  "Put L mime data =
     (let hash = sha256 data; uri = URI mime hash in
      andThen (query (\<lambda>t. t_blobs t hash)) (\<lambda>found.
      if found \<noteq> None then ret uri
      else
        andThen newID (\<lambda>i.
        andThen (putObject (ObjectKey L i) \<lparr>ob_data = data, ob_checksum = []\<rparr>) (\<lambda>_.
        andThen (stmt (insertBlobIfAbsent hash i)) (\<lambda>rows.
        andThen (if rows = 0 then ignore (removeObject (ObjectKey L i)) else ret ()) (\<lambda>_.
        ret uri))))))"

subsection \<open>Upload sessions\<close>

record created_upload =
  already_exists :: bool
  session_id :: string
  part_size :: int
  part_count :: int

text \<open>Lines 164 to 185: open a multipart upload for a large blob and record the session.\<close>

definition openUpload :: "lib \<Rightarrow> bytes \<Rightarrow> int \<Rightarrow> string \<Rightarrow> (string \<times> string) list \<Rightarrow> uuid \<Rightarrow> uuid \<Rightarrow>
    created_upload act" where
  "openUpload L digest len mime metadata i objectID =
     andThen
       (if len > partSize
        then andThen (mapErr unavailable call) (\<lambda>_.
             andThen newID (\<lambda>u. ret (partCount len, Some (uuidString L u))))
        else ret (1, None)) (\<lambda>(parts, multipart) w.
     (case stmt (createBlobUpload i
             \<lparr>u_sha256 = digest, u_object = objectID, u_size = len, u_mime = mime,
              u_meta = metadata, u_multipart = multipart,
              u_expires = clock w + 86400000000000\<rparr>) w of
        (Inl e, w') \<Rightarrow>
          andThen (if multipart \<noteq> None then ignore call else ret ())
            (\<lambda>_. fail (internal e)) w'
      | (Inr _, w') \<Rightarrow>
          ret \<lparr>already_exists = False, session_id = uuidString L i, part_size = partSize,
               part_count = parts\<rparr> w'))"

definition CreateUpload :: "lib \<Rightarrow> s3 \<Rightarrow> blobService \<Rightarrow> bytes \<Rightarrow> int \<Rightarrow> string \<Rightarrow> (string \<times> string) list \<Rightarrow>
    created_upload act" where
  "CreateUpload L S s digest len mime values =
     andThen (orFail (ready s)) (\<lambda>_.
     if length digest \<noteq> 32 \<or> len < 0 \<or> len > 83886080000 \<or> trimSpace mime = [] \<or> length mime > 255
     then fail (Rpc InvalidArgument ''invalid upload metadata'')
     else if \<not> parseMediaTypeOK mime then fail (Rpc InvalidArgument ''invalid MIME type'')
     else
       (case uploadMetadata S values of
          Inl e \<Rightarrow> fail (Rpc InvalidArgument (errText e))
        | Inr metadata \<Rightarrow>
            andThen (mapErr internal (query (\<lambda>t. t_blobs t digest))) (\<lambda>found.
            if found \<noteq> None
            then ret \<lparr>already_exists = True, session_id = [], part_size = 0, part_count = 0\<rparr>
            else
              andThen randomID (\<lambda>i.
              andThen randomID (\<lambda>objectID.
              openUpload L digest len mime metadata i objectID)))))"

definition session :: "lib \<Rightarrow> string \<Rightarrow> (uuid \<times> upload_row) act" where
  "session L name =
     (case uuidParse L name of
        None \<Rightarrow> fail (Rpc InvalidArgument ''invalid session ID'')
      | Some i \<Rightarrow> (\<lambda>w. andThen (mapErr internal (query (getBlobUpload i (clock w)))) (\<lambda>row.
          case row of
            None \<Rightarrow> fail (Rpc NotFound ''upload session not found'')
          | Some r \<Rightarrow> ret (i, r)) w))"

text \<open>\<open>http.Header.Set\<close> canonicalises a key of token characters.\<close>

fun canonical :: "bool \<Rightarrow> string \<Rightarrow> string" where
  "canonical up [] = []"
| "canonical up (c # cs) =
     (let c' = (if up \<and> c \<in> set ''abcdefghijklmnopqrstuvwxyz'' then char_of (of_char c - 32 :: nat)
                else if \<not> up \<and> c \<in> set ''ABCDEFGHIJKLMNOPQRSTUVWXYZ'' then char_of (of_char c + 32 :: nat)
                else c)
      in c' # canonical (c = CHR ''-'') cs)"

definition canonicalHeader :: "string \<Rightarrow> string" where
  "canonicalHeader k = (if (\<forall>c\<in>set k. isTokenChar c) then canonical True k else k)"

definition putHeaders :: "upload_row \<Rightarrow> (string \<times> string) list" where
  "putHeaders r =
     [(''If-None-Match'', ''*''), (''Content-Type'', u_mime r),
      (''x-amz-checksum-sha256'', b64encode (u_sha256 r))] @
     map (\<lambda>(k, v). (canonicalHeader (''X-Amz-Meta-'' @ k), v)) (u_meta r)"

definition PresignPart :: "lib \<Rightarrow> s3 \<Rightarrow> blobService \<Rightarrow> string \<Rightarrow> int \<Rightarrow> (string \<times> (string \<times> string) list) act" where
  "PresignPart L S s name number =
     andThen (orFail (ready s)) (\<lambda>_.
     andThen (session L name) (\<lambda>(i, r).
     let count = (if u_multipart r \<noteq> None then partCount (u_size r) else 1) in
     if number < 1 \<or> number > count then fail (Rpc InvalidArgument ''invalid part number'')
     else
       andThen (mapErr unavailable call) (\<lambda>_.
       case u_multipart r of
         Some u \<Rightarrow> ret (presignPart S (ObjectKey L (u_object r)) number u, [])
       | None \<Rightarrow> ret (presignPut S (ObjectKey L (u_object r)) (putHeaders r), putHeaders r))))"

fun checkParts :: "int \<Rightarrow> (int \<times> string) list \<Rightarrow> bool" where
  "checkParts index [] = True"
| "checkParts index ((number, etag) # parts) =
     (number = wrap32 (index + 1) \<and> trimSpace etag \<noteq> [] \<and> checkParts (index + 1) parts)"

text \<open>Lines 270 to 318: the object must be there, complete and as declared.\<close>

definition verifyUpload :: "lib \<Rightarrow> s3 \<Rightarrow> upload_row \<Rightarrow> (int \<times> string) list \<Rightarrow> unit act" where
  "verifyUpload L S r parts =
     (let key = ObjectKey L (u_object r) in
      case u_multipart r of
        None \<Rightarrow>
          if parts \<noteq> [] then fail (Rpc InvalidArgument ''single PUT requires no parts'')
          else
            andThen (mapErr unavailable (getObject key)) (\<lambda>found.
            case found of
              None \<Rightarrow> fail (Rpc FailedPrecondition ''blob was not uploaded'')
            | Some ob \<Rightarrow>
                if int (length (ob_data ob)) \<noteq> u_size r
                then fail (Rpc InvalidArgument ''blob size mismatch'')
                else if ob_checksum ob \<noteq> b64encode (u_sha256 r)
                then fail (Rpc FailedPrecondition ''blob checksum unavailable or mismatched'')
                else ret ())
      | Some u \<Rightarrow>
          if int (length parts) \<noteq> partCount (u_size r)
          then fail (Rpc InvalidArgument ''incorrect part count'')
          else if \<not> checkParts 0 parts then fail (Rpc InvalidArgument ''invalid part list'')
          else
            andThen (try_act (completeMultipart S key u parts)) (\<lambda>done.
            andThen (try_act (getObject key)) (\<lambda>stat.
            case stat of
              Inr (Some ob) \<Rightarrow>
                if int (length (ob_data ob)) \<noteq> u_size r
                then fail (Rpc InvalidArgument ''blob size mismatch'')
                else ret ()
            | Inr None \<Rightarrow>
                fail (case done of Inl e \<Rightarrow> unavailable e
                      | Inr _ \<Rightarrow> unavailable (Plain ''The specified key does not exist.''))
            | Inl e' \<Rightarrow> fail (case done of Inl e \<Rightarrow> unavailable e | Inr _ \<Rightarrow> unavailable e'))))"

definition completeTx :: "lib \<Rightarrow> s3 \<Rightarrow> uuid \<Rightarrow> (int \<times> string) list \<Rightarrow> (nat \<times> upload_row) act" where
  "completeTx L S i parts =
     andThen (mapErr internal (query (\<lambda>t. t_uploads t i))) (\<lambda>row.
     case row of
       None \<Rightarrow> fail (Rpc NotFound ''upload session not found'')
     | Some r \<Rightarrow>
         andThen (verifyUpload L S r parts) (\<lambda>_.
         andThen (mapErr internal (stmt (insertBlobIfAbsent (u_sha256 r) (u_object r)))) (\<lambda>rows.
         andThen (mapErr internal (stmt (deleteBlobUpload i))) (\<lambda>_.
         ret (rows, r)))))"

definition CompleteUpload :: "lib \<Rightarrow> s3 \<Rightarrow> blobService \<Rightarrow> string \<Rightarrow> (int \<times> string) list \<Rightarrow> string act" where
  "CompleteUpload L S s name parts =
     andThen (orFail (ready s)) (\<lambda>_.
     case uuidParse L name of
       None \<Rightarrow> fail (Rpc InvalidArgument ''invalid session ID'')
     | Some i \<Rightarrow>
         andThen (transaction internal internal (completeTx L S i parts)) (\<lambda>(rows, r).
         andThen (if rows = 0 then ignore (removeObject (ObjectKey L (u_object r))) else ret ()) (\<lambda>_.
         ret (URI (u_mime r) (u_sha256 r)))))"

text \<open>The body of the transaction; it says whether there was a session, so something to commit.\<close>

definition abortTx :: "lib \<Rightarrow> uuid \<Rightarrow> bool act" where
  "abortTx L i =
     andThen (query (\<lambda>t. t_uploads t i)) (\<lambda>row.
     case row of
       None \<Rightarrow> ret False
     | Some r \<Rightarrow>
         let key = ObjectKey L (u_object r) in
         andThen (if u_multipart r \<noteq> None then ignore call else ret ()) (\<lambda>_.
         andThen (removeObject key) (\<lambda>_.
         andThen (stmt (deleteBlobUpload i)) (\<lambda>_.
         ret True))))"

definition abortSession :: "lib \<Rightarrow> uuid \<Rightarrow> unit act" where
  "abortSession L i w =
     (case call w of
        (Inl e, w1) \<Rightarrow> (Inl e, w1)
      | (Inr _, w1) \<Rightarrow>
          (case abortTx L i w1 of
             (Inl e, w2) \<Rightarrow> (Inl e, w2\<lparr>tabs := tabs w1\<rparr>)
           | (Inr False, w2) \<Rightarrow> (Inr (), w2\<lparr>tabs := tabs w1\<rparr>)
           | (Inr True, w2) \<Rightarrow>
               (case call w2 of
                  (Inr _, w3) \<Rightarrow> (Inr (), w3)
                | (Inl e, w3) \<Rightarrow>
                    (Inl e, if landed w2 (calls w2) then w3 else w3\<lparr>tabs := tabs w1\<rparr>))))"

definition AbortUpload :: "lib \<Rightarrow> blobService \<Rightarrow> string \<Rightarrow> unit act" where
  "AbortUpload L s name =
     andThen (orFail (ready s)) (\<lambda>_.
     andThen (session L name) (\<lambda>(i, r).
     mapErr unavailable (abortSession L i)))"

fun abortAll :: "lib \<Rightarrow> uuid list \<Rightarrow> unit act" where
  "abortAll L [] = ret ()"
| "abortAll L (i # is) = andThen (ignore (abortSession L i)) (\<lambda>_. abortAll L is)"

definition CleanupExpiredUploads :: "lib \<Rightarrow> s3 \<Rightarrow> world \<Rightarrow> world" where
  "CleanupExpiredUploads L S w =
     (case query (listExpired S (clock w)) w of
        (Inl e, w') \<Rightarrow> w'
      | (Inr rows, w') \<Rightarrow> snd (abortAll L rows w'))"

subsection \<open>Downloads\<close>

definition GetDownload :: "lib \<Rightarrow> s3 \<Rightarrow> blobService \<Rightarrow> string \<Rightarrow> string act" where
  "GetDownload L S s uri =
     andThen (orFail (ready s)) (\<lambda>_.
     case ParseURI uri of
       Inl e \<Rightarrow> fail (Rpc InvalidArgument (errText e))
     | Inr (digest, mime) \<Rightarrow>
         andThen (mapErr internal (query (\<lambda>t. t_blobs t digest))) (\<lambda>found.
         case found of
           None \<Rightarrow> fail (Rpc NotFound ''blob not found'')
         | Some i \<Rightarrow>
             andThen (mapErr unavailable (getObject (ObjectKey L i))) (\<lambda>ob.
             if ob = None then fail (Rpc NotFound ''blob not found'')
             else andThen (mapErr unavailable call) (\<lambda>_. ret (presignGet S (ObjectKey L i))))))"

end
