(* ===== verification/Blob_Stored.thy ===== *)
theory Blob_Stored
  imports Blob_Service
begin

section \<open>Every blob has its object\<close>

text \<open>
  The invariant that ties the blob tables to the object store, and that every operation of
  the blob service keeps it, whatever fails: a row of \<open>blobs\<close> names an object that exists,
  and no upload session shares its object with a blob or with another session, so dropping
  a session's object never touches a blob.
\<close>

context world_frame
begin

lemma ign: "within W m \<Longrightarrow> within W (ignore m)"
  by (simp add: within_def ignore_def)

lemma tried: "within W m \<Longrightarrow> within W (try_act m)"
  unfolding within_def try_act_def by (auto split: prod.splits) (metis snd_conv)

lemma orf: "within W (orFail e)"
  by (cases e) (simp_all add: orFail_def ret fail)

end

definition drawnFree :: "nat \<Rightarrow> world \<Rightarrow> uuid \<Rightarrow> bool" where
  "drawnFree K w i \<longleftrightarrow> (\<forall>n. drawn w \<le> n \<and> n < K \<longrightarrow> ids w n \<noteq> i)"

definition stored :: "lib \<Rightarrow> nat \<Rightarrow> tables \<Rightarrow> world \<Rightarrow> bool" where
  "stored L K t w \<longleftrightarrow>
     (\<forall>d i. t_blobs t d = Some i \<longrightarrow> objects w (ObjectKey L i) \<noteq> None \<and> drawnFree K w i) \<and>
     (\<forall>s r. t_uploads t s = Some r \<longrightarrow> (\<forall>d. t_blobs t d \<noteq> Some (u_object r)) \<and> drawnFree K w (u_object r)) \<and>
     (\<forall>s s' r r'. t_uploads t s = Some r \<and> t_uploads t s' = Some r' \<and> u_object r = u_object r' \<longrightarrow> s = s')"

lemma stored_blob:
  "stored L K t w \<Longrightarrow> t_blobs t d = Some i \<Longrightarrow> objects w (ObjectKey L i) \<noteq> None \<and> drawnFree K w i"
  by (simp add: stored_def)

lemma stored_upload:
  "stored L K t w \<Longrightarrow> t_uploads t s = Some r \<Longrightarrow>
   (\<forall>d. t_blobs t d \<noteq> Some (u_object r)) \<and> drawnFree K w (u_object r)"
  by (simp add: stored_def)

lemma stored_inj:
  "stored L K t w \<Longrightarrow> t_uploads t s = Some r \<Longrightarrow> t_uploads t s' = Some r' \<Longrightarrow>
   u_object r = u_object r' \<Longrightarrow> s = s'"
  unfolding stored_def by blast

lemma storedI:
  assumes "\<And>d i. t_blobs t d = Some i \<Longrightarrow> objects w (ObjectKey L i) \<noteq> None \<and> drawnFree K w i"
    and "\<And>s r. t_uploads t s = Some r \<Longrightarrow>
      (\<forall>d. t_blobs t d \<noteq> Some (u_object r)) \<and> drawnFree K w (u_object r)"
    and "\<And>s s' r r'. t_uploads t s = Some r \<Longrightarrow> t_uploads t s' = Some r' \<Longrightarrow>
      u_object r = u_object r' \<Longrightarrow> s = s'"
  shows "stored L K t w"
  using assms unfolding stored_def by blast

text \<open>
  A step keeps the invariant, as long as it draws none but the first \<open>K\<close> ids. Steps that
  also keep every object (\<open>growStep\<close>) may be rolled back.
\<close>

definition storedStep :: "lib \<Rightarrow> nat \<Rightarrow> world \<Rightarrow> world \<Rightarrow> bool" where
  "storedStep L K w w' \<longleftrightarrow> ids w' = ids w \<and> drawn w \<le> drawn w' \<and>
     (idsOK L K w \<longrightarrow> drawn w' \<le> K \<longrightarrow> stored L K (tabs w) w \<longrightarrow> stored L K (tabs w') w')"

definition growing :: "world \<Rightarrow> world \<Rightarrow> bool" where
  "growing w w' \<longleftrightarrow> ids w' = ids w \<and> drawn w \<le> drawn w' \<and>
     (\<forall>k. objects w k \<noteq> None \<longrightarrow> objects w' k \<noteq> None)"

definition growStep :: "lib \<Rightarrow> nat \<Rightarrow> world \<Rightarrow> world \<Rightarrow> bool" where
  "growStep L K w w' \<longleftrightarrow> storedStep L K w w' \<and> growing w w'"

lemma drawnFree_later:
  "drawnFree K w i \<Longrightarrow> ids w' = ids w \<Longrightarrow> drawn w \<le> drawn w' \<Longrightarrow> drawnFree K w' i"
  by (simp add: drawnFree_def)

lemma stored_world:
  assumes "stored L K t w" and "ids w' = ids w" and "drawn w \<le> drawn w'"
    and "\<And>d i. t_blobs t d = Some i \<Longrightarrow> objects w' (ObjectKey L i) \<noteq> None"
  shows "stored L K t w'"
  using assms drawnFree_later unfolding stored_def by metis

text \<open>A fresh id is no blob's and no session's, and its key is no blob's key.\<close>

lemma fresh_id:
  assumes "idsOK L K w" and "drawn w < K"
  shows "\<not> drawnFree K w (ids w (drawn w))"
  using assms by (auto simp: drawnFree_def)

lemma drawn_free:
  assumes "idsOK L K w" and "m < drawn w" and "drawn w \<le> K"
  shows "drawnFree K w (ids w m)"
  using assms by (auto simp: drawnFree_def idsOK_def dest: inj_onD)

lemma blob_key:
  assumes "idsOK L K w" and "stored L K t w" and "t_blobs t d = Some i" and "\<not> drawnFree K w j"
  shows "ObjectKey L i \<noteq> ObjectKey L j"
proof -
  from assms(2,3) have "drawnFree K w i" by (auto simp: stored_def)
  with assms(4) have "i \<noteq> j" by auto
  with assms(1) show ?thesis by (simp add: ObjectKey_inj idsOK_def)
qed

text \<open>Adding a blob whose object is there, and adding and dropping a session.\<close>

lemma stored_addBlob:
  assumes "stored L K t w" and "objects w (ObjectKey L i) \<noteq> None"
    and "drawnFree K w i" and "\<And>s r. t_uploads t s = Some r \<Longrightarrow> u_object r \<noteq> i"
  shows "stored L K (t\<lparr>t_blobs := (t_blobs t)(d \<mapsto> i)\<rparr>) w"
  using assms unfolding stored_def by auto

lemma stored_dropUpload: "stored L K t w \<Longrightarrow> stored L K (t\<lparr>t_uploads := (t_uploads t)(s := None)\<rparr>) w"
  unfolding stored_def by (auto split: if_splits)

lemma stored_addUpload:
  assumes "stored L K t w" and "t_uploads t s = None" and "\<And>d. t_blobs t d \<noteq> Some (u_object r)"
    and "drawnFree K w (u_object r)" and fresh: "\<forall>r'\<in>ran (t_uploads t). u_object r' \<noteq> u_object r"
  shows "stored L K (t\<lparr>t_uploads := (t_uploads t)(s \<mapsto> r)\<rparr>) w"
proof (rule storedI)
  fix d i assume "t_blobs (t\<lparr>t_uploads := (t_uploads t)(s \<mapsto> r)\<rparr>) d = Some i"
  with stored_blob [OF assms(1)] show "objects w (ObjectKey L i) \<noteq> None \<and> drawnFree K w i" by simp
next
  fix s' r' assume u: "t_uploads (t\<lparr>t_uploads := (t_uploads t)(s \<mapsto> r)\<rparr>) s' = Some r'"
  show "(\<forall>d. t_blobs (t\<lparr>t_uploads := (t_uploads t)(s \<mapsto> r)\<rparr>) d \<noteq> Some (u_object r')) \<and>
      drawnFree K w (u_object r')"
  proof (cases "s' = s")
    case True
    with u assms(3,4) show ?thesis by simp
  next
    case False
    with u stored_upload [OF assms(1), of s' r'] show ?thesis by simp
  qed
next
  fix s1 s2 r1 r2
  assume u: "t_uploads (t\<lparr>t_uploads := (t_uploads t)(s \<mapsto> r)\<rparr>) s1 = Some r1"
    "t_uploads (t\<lparr>t_uploads := (t_uploads t)(s \<mapsto> r)\<rparr>) s2 = Some r2" "u_object r1 = u_object r2"
  show "s1 = s2"
  proof (cases "s1 = s \<or> s2 = s")
    case True
    with u fresh show ?thesis by (auto simp: ran_def split: if_splits)
  next
    case False
    with u stored_inj [OF assms(1), of s1 r1 s2 r2] show ?thesis by simp
  qed
qed

subsection \<open>\<open>Put\<close>\<close>

lemma removeObject_cases:
  "removeObject k w = (r, v) \<Longrightarrow> tabs v = tabs w \<and> ids v = ids w \<and> drawn v = drawn w \<and>
    (objects v = objects w \<or> objects v = (objects w)(k := None))"
  by (auto simp: removeObject_def split: prod.splits sum.splits if_splits dest: call_result)

lemma putFresh_cases:
  assumes "andThen newID (\<lambda>i.
        andThen (putObject (ObjectKey L i) ob) (\<lambda>_.
        andThen (stmt (insertBlobIfAbsent d i)) (\<lambda>rows.
        andThen (if rows = 0 then ignore (removeObject (ObjectKey L i)) else ret ()) (\<lambda>_.
        ret u)))) w = (r, w')"
  shows "ids w' = ids w \<and> drawn w' = Suc (drawn w) \<and>
     (\<forall>k. k \<noteq> ObjectKey L (ids w (drawn w)) \<longrightarrow> objects w' k = objects w k) \<and>
     (tabs w' = tabs w \<or>
      tabs w' = (tabs w)\<lparr>t_blobs := (t_blobs (tabs w))(d \<mapsto> ids w (drawn w))\<rparr> \<and> t_blobs (tabs w) d = None \<and>
      objects w' (ObjectKey L (ids w (drawn w))) \<noteq> None)"
proof -
  let ?i = "ids w (drawn w)" and ?v = "w\<lparr>drawn := Suc (drawn w)\<rparr>"
  let ?k = "ObjectKey L ?i"
  obtain p v where p: "putObject ?k ob ?v = (p, v)" by fastforce
  note put = putObject_cases [OF p]
  show ?thesis
  proof (cases p)
    case (Inl e)
    with assms [unfolded newID_run] p have "w' = v" by (simp add: andThen_def)
    with put show ?thesis by auto
  next
    case (Inr x)
    obtain q z where q: "stmt (insertBlobIfAbsent d ?i) v = (q, z)" by fastforce
    note st = stmt_cases [OF q]
    have ob: "objects v = (objects w)(?k \<mapsto> ob)" using put Inr by auto
    show ?thesis
    proof (cases q)
      case (Inl e)
      with assms [unfolded newID_run] p Inr q have "w' = z" by (simp add: andThen_def)
      with st put ob show ?thesis by (auto simp: insertBlobIfAbsent_def split: if_splits)
    next
      case rows: (Inr rows)
      have ins: "insertBlobIfAbsent d ?i (tabs v) = Inr (rows, tabs z)"
        using q rows by (auto simp: stmt_Inr)
      show ?thesis
      proof (cases "rows = 0")
        case True
        obtain r' y where rm: "removeObject ?k z = (r', y)" by fastforce
        with assms [unfolded newID_run] p Inr q rows True have "w' = y"
          by (simp add: andThen_def ignore_def)
        with removeObject_cases [OF rm] st put ob ins True show ?thesis
          by (auto simp: insertBlobIfAbsent_def split: if_splits)
      next
        case False
        with assms [unfolded newID_run] p Inr q rows have "w' = z" by (simp add: andThen_def)
        with st put ob ins False show ?thesis
          by (auto simp: insertBlobIfAbsent_def split: if_splits)
      qed
    qed
  qed
qed

lemma storedStepI:
  assumes "ids w' = ids w" and "drawn w \<le> drawn w'"
    and "idsOK L K w \<Longrightarrow> drawn w' \<le> K \<Longrightarrow> stored L K (tabs w) w \<Longrightarrow> stored L K (tabs w') w'"
  shows "storedStep L K w w'"
  using assms by (simp add: storedStep_def)

text \<open>An object stored under a fresh id, whose blob is recorded or not.\<close>

lemma fresh_step:
  assumes "ids w' = ids w" and "drawn w' = Suc (drawn w)"
    and o: "\<And>k. k \<noteq> ObjectKey L (ids w (drawn w)) \<Longrightarrow> objects w' k = objects w k"
    and t: "tabs w' = tabs w \<or>
      tabs w' = (tabs w)\<lparr>t_blobs := (t_blobs (tabs w))(d \<mapsto> ids w (drawn w))\<rparr> \<and>
      objects w' (ObjectKey L (ids w (drawn w))) \<noteq> None"
  shows "storedStep L K w w'"
proof (rule storedStepI)
  let ?i = "ids w (drawn w)"
  assume ids: "idsOK L K w" and k: "drawn w' \<le> K" and st: "stored L K (tabs w) w"
  have lt: "drawn w < K" using assms(2) k by simp
  have st': "stored L K (tabs w) w'"
  proof (rule stored_world [OF st])
    fix d i assume b: "t_blobs (tabs w) d = Some i"
    from blob_key [OF ids st b fresh_id [OF ids lt]] stored_blob [OF st b] o
    show "objects w' (ObjectKey L i) \<noteq> None" by auto
  qed (use assms(1,2) in auto)
  have free: "drawnFree K w' ?i"
    using drawn_free [of L K w' "drawn w"] ids assms(1,2) k by (simp add: idsOK_def)
  have "u_object r \<noteq> ?i" if "t_uploads (tabs w) s = Some r" for s r
    using stored_upload [OF st that] fresh_id [OF ids lt] by auto
  from stored_addBlob [OF st' _ free this] t st' show "stored L K (tabs w') w'" by auto
qed (use assms in simp_all)

lemma same_step:
  assumes "ids w' = ids w" and "drawn w \<le> drawn w'" and "objects w' = objects w"
    and "t_blobs (tabs w') = t_blobs (tabs w)" and "t_uploads (tabs w') = t_uploads (tabs w)"
  shows "storedStep L K w w'"
  using assms drawnFree_later [of K w _ w'] unfolding storedStep_def stored_def by simp

interpretation st: world_frame "storedStep L K" for L K
proof unfold_locales
  show "storedStep L K w w" for w by (simp add: storedStep_def)
  show "storedStep L K u w" if "storedStep L K u v" "storedStep L K v w" for u v w
    using that by (simp add: storedStep_def idsOK_def)
  show "storedStep L K w (w\<lparr>calls := n\<rparr>)" for w n by (rule same_step) simp_all
qed

lemma fresh_insert_step:
  "within (storedStep L K) (andThen newID (\<lambda>i.
        andThen (putObject (ObjectKey L i) ob) (\<lambda>_.
        andThen (stmt (insertBlobIfAbsent d i)) (\<lambda>rows.
        andThen (if rows = 0 then ignore (removeObject (ObjectKey L i)) else ret ()) (\<lambda>_.
        ret u)))))"
  by (rule withinI, drule putFresh_cases, rule fresh_step) auto

lemma Put_stored: "within (storedStep L K) (Put L mime data)"
  unfolding Put_def Let_def by (intro st.rules fresh_insert_step)

subsection \<open>The log service shares the blob tables\<close>

interpretation gs: world_frame "growStep L K" for L K
proof unfold_locales
  show "growStep L K w w" for w by (simp add: growStep_def growing_def st.refl)
  show "growStep L K u w" if "growStep L K u v" "growStep L K v w" for u v w
    using that st.trans [of L K u v w] by (auto simp: growStep_def growing_def)
  show "growStep L K w (w\<lparr>calls := n\<rparr>)" for w n by (simp add: growStep_def growing_def st.tick)
qed

lemma growStepI:
  "storedStep L K w w' \<Longrightarrow> (\<And>k. objects w k \<noteq> None \<Longrightarrow> objects w' k \<noteq> None) \<Longrightarrow> growStep L K w w'"
  by (simp add: growStep_def growing_def storedStep_def)

lemma stmt_grow:
  "(\<And>t x t'. f t = Inr (x, t') \<Longrightarrow> t_blobs t' = t_blobs t \<and> t_uploads t' = t_uploads t) \<Longrightarrow>
   within (growStep L K) (stmt f)"
  by (rule withinI, drule stmt_cases, rule growStepI, rule same_step) auto

lemma fresh_grow:
  "within (growStep L K) (andThen newID (\<lambda>i.
        andThen (mapErr h (putObject (ObjectKey L i) ob)) (\<lambda>_.
        andThen (mapErr g (stmt (insertBlobIfAbsent d i))) (\<lambda>_. ret u))))"
proof (rule withinI)
  fix w r w'
  assume "andThen newID (\<lambda>i.
        andThen (mapErr h (putObject (ObjectKey L i) ob)) (\<lambda>_.
        andThen (mapErr g (stmt (insertBlobIfAbsent d i))) (\<lambda>_. ret u))) w = (r, w')"
  note c = freshPut_cases [OF this]
  show "growStep L K w w'"
  proof (rule growStepI)
    show "storedStep L K w w'" by (rule fresh_step [of _ _ _ d]) (use c in auto)
    show "objects w' k \<noteq> None" if "objects w k \<noteq> None" for k using c that by auto
  qed
qed

lemma storeValue_grow: "within (growStep L K) (storeValue L value)"
  unfolding storeValue_def Let_def by (intro gs.rules fresh_grow)

interpretation gs: append_frame "growStep L K" L for L K
  by unfold_locales (rule storeValue_grow, rule stmt_grow, simp add: otherTables_iff)

text \<open>A transaction whose body keeps the invariant and every object keeps it, rolled back or not.\<close>

lemma transaction_stored:
  assumes "within (growStep L K) m"
  shows "within (storedStep L K) (transaction b c m)"
proof (rule withinI)
  fix w r w'
  assume "transaction b c m w = (r, w')"
  then show "storedStep L K w w'"
  proof (cases rule: transaction_cases)
    case (begin_failed e)
    then show ?thesis by (intro same_step) (simp_all add: sameStore_def)
  next
    case (undone e r2 w1 w2)
    from withinD [OF assms undone(4)] have g: "growing w1 w2" by (simp add: growStep_def)
    show ?thesis
    proof (rule storedStepI)
      assume "stored L K (tabs w) w"
      with undone g stored_blob [OF this] show "stored L K (tabs w') w'"
        by (auto simp: growing_def sameStore_def intro!: stored_world [of L K "tabs w" w w'])
    qed (use undone g in \<open>simp_all add: growing_def sameStore_def\<close>)
  next
    case (stays x w1 w2)
    from withinD [OF assms stays(3)] have "storedStep L K w1 w2" by (simp add: growStep_def)
    moreover have "storedStep L K w w1" "storedStep L K w2 w'"
      using stays by (auto simp: sameStore_def intro!: same_step)
    ultimately show ?thesis by (blast intro: st.trans)
  qed
qed

lemma Append_stored: "within (storedStep L K) (Append L s sc name stream aid es)"
  unfolding Append_def validateRun_def AppendEntries_def
  by (intro st.rules st.orf transaction_stored gs.AppendTx)

subsection \<open>\<open>CompleteUpload\<close>\<close>

text \<open>The tables are left alone and no object goes.\<close>

definition steady :: "world \<Rightarrow> world \<Rightarrow> bool" where
  "steady w w' \<longleftrightarrow> tabs w' = tabs w \<and> growing w w'"

interpretation sd: world_frame steady
  by unfold_locales (auto simp: steady_def growing_def)

lemma putObject_steady: "within steady (putObject k ob)"
  by (rule withinI, drule putObject_cases) (auto simp: steady_def growing_def)

lemma completeMultipart_steady: "within steady (completeMultipart S k u parts)"
proof -
  have "within steady (andThen call (\<lambda>_. fail e))" for e :: goerr
    by (intro sd.rules)
  then show ?thesis
    using putObject_steady unfolding within_def completeMultipart_def
    by (auto split: option.splits)
qed

lemma verifyUpload_steady: "within steady (verifyUpload L S r parts)"
  unfolding verifyUpload_def Let_def
  by (intro sd.rules sd.tried completeMultipart_steady)

text \<open>What has been checked when an upload is accepted.\<close>

definition uploaded :: "lib \<Rightarrow> upload_row \<Rightarrow> world \<Rightarrow> bool" where
  "uploaded L r w \<longleftrightarrow>
     (\<exists>ob. objects w (ObjectKey L (u_object r)) = Some ob \<and> int (length (ob_data ob)) = u_size r \<and>
        (u_multipart r = None \<longrightarrow> ob_checksum ob = b64encode (u_sha256 r)))"

lemma getObject_Inr: "getObject k w = (Inr x, v) \<longleftrightarrow> call w = (Inr (), v) \<and> objects w k = x"
  by (auto simp: getObject_def andThen_Inr dest: call_result)

lemma verifyUpload_Inr:
  assumes "verifyUpload L S r parts w = (Inr x, w')"
  shows "uploaded L r w'"
proof (cases "u_multipart r")
  case None
  with assms show ?thesis
    by (auto simp: verifyUpload_def Let_def uploaded_def getObject_Inr mapErr_Inr elim!: andThen_InrE
      split: if_splits option.splits dest!: call_result)
next
  case (Some u)
  with assms show ?thesis
    by (auto simp: verifyUpload_def Let_def try_act_def uploaded_def getObject_Inr elim!: andThen_InrE
      split: if_splits sum.splits option.splits prod.splits dest!: call_result)
qed

lemma stmt_store: "mapErr h (stmt f) w = (r, v) \<Longrightarrow> sameStore w v"
  by (drule mapErr_run) (auto simp: sameStore_def dest: stmt_cases)

text \<open>The statements at the end of a completed upload.\<close>

definition finishUpload :: "tables \<Rightarrow> uuid \<Rightarrow> upload_row \<Rightarrow> nat \<Rightarrow> tables \<Rightarrow> bool" where
  "finishUpload t i r rows t' \<longleftrightarrow>
     (if t_blobs t (u_sha256 r) = None
      then rows = 1 \<and> t' = t\<lparr>t_blobs := (t_blobs t)(u_sha256 r \<mapsto> u_object r), t_uploads := (t_uploads t)(i := None)\<rparr>
      else rows = 0 \<and> t' = t\<lparr>t_uploads := (t_uploads t)(i := None)\<rparr>)"

lemma completeTx_Inr:
  assumes "completeTx L S i parts w = (Inr (rows, r), w')"
  shows "t_uploads (tabs w) i = Some r \<and> uploaded L r w' \<and> growing w w' \<and>
    finishUpload (tabs w) i r rows (tabs w')"
proof -
  from assms obtain row v where q: "mapErr internal (query (\<lambda>t. t_uploads t i)) w = (Inr row, v)"
    and k: "(case row of None \<Rightarrow> fail (Rpc NotFound ''upload session not found'')
      | Some r \<Rightarrow> andThen (verifyUpload L S r parts) (\<lambda>_.
         andThen (mapErr internal (stmt (insertBlobIfAbsent (u_sha256 r) (u_object r)))) (\<lambda>rows.
         andThen (mapErr internal (stmt (deleteBlobUpload i))) (\<lambda>_.
         ret (rows, r))))) v = (Inr (rows, r), w')"
    unfolding completeTx_def by (rule andThen_InrE)
  from q have row: "row = t_uploads (tabs w) i" "tabs v = tabs w" "growing w v"
    by (auto simp: act_Inr growing_def dest: call_result)
  from k obtain x and a b c :: world where r: "row = Some r"
    and vf: "verifyUpload L S r parts v = (Inr x, a)"
    and ins: "mapErr internal (stmt (insertBlobIfAbsent (u_sha256 r) (u_object r))) a = (Inr rows, b)"
    and del: "mapErr internal (stmt (deleteBlobUpload i)) b = (Inr (), w')"
    by (cases row) (auto elim!: andThen_InrE)
  have sa: "steady v a" using withinD [OF verifyUpload_steady vf] .
  have sb: "sameStore a b" "sameStore b w'" using stmt_store ins del by blast+
  have t: "tabs a = tabs w" using sa row by (simp add: steady_def)
  have tb: "insertBlobIfAbsent (u_sha256 r) (u_object r) (tabs w) = Inr (rows, tabs b)"
    and tw: "tabs w' = tabs b\<lparr>t_uploads := (t_uploads (tabs b))(i := None)\<rparr>"
    using stmt_tabs [OF ins] stmt_tabs [OF del] t by (simp_all add: deleteBlobUpload_def)
  from tb have "rows = (if t_blobs (tabs w) (u_sha256 r) = None then 1 else 0)"
    and "tabs b = (if t_blobs (tabs w) (u_sha256 r) = None
      then (tabs w)\<lparr>t_blobs := (t_blobs (tabs w))(u_sha256 r \<mapsto> u_object r)\<rparr> else tabs w)"
    by (simp_all add: insertBlobIfAbsent_def split: if_splits)
  then have "finishUpload (tabs w) i r rows (tabs w')" by (simp add: finishUpload_def tw)
  moreover have "uploaded L r w'"
    using verifyUpload_Inr [OF vf] sb by (simp add: uploaded_def sameStore_def)
  ultimately show ?thesis using row r sa sb by (auto simp: steady_def growing_def sameStore_def)
qed

interpretation gw: world_frame growing
  by unfold_locales (auto simp: growing_def)

lemma stmt_growing: "within growing (stmt f)"
  by (rule withinI, drule stmt_cases) (auto simp: growing_def)

lemma steady_growing: "within steady m \<Longrightarrow> within growing m"
  by (auto simp: within_def steady_def)

lemma completeTx_growing: "within growing (completeTx L S i parts)"
  unfolding completeTx_def
  by (intro gw.rules stmt_growing steady_growing [OF verifyUpload_steady])

lemma finish_none: "finishUpload t i r 0 t' \<Longrightarrow> t_blobs t' = t_blobs t"
  by (simp add: finishUpload_def split: if_splits)

lemma finish_stored:
  assumes st: "stored L K t w" and up: "t_uploads t i = Some r" and ob: "uploaded L r w"
    and fin: "finishUpload t i r rows t'"
  shows "stored L K t' w"
proof -
  let ?t = "t\<lparr>t_uploads := (t_uploads t)(i := None)\<rparr>"
  have dropped: "stored L K ?t w" using stored_dropUpload [OF st] .
  have other: "u_object r' \<noteq> u_object r" if "t_uploads ?t s = Some r'" for s r'
    using that stored_inj [OF st up, of s r'] by (auto split: if_splits)
  have "?t\<lparr>t_blobs := (t_blobs ?t)(u_sha256 r \<mapsto> u_object r)\<rparr> =
      t\<lparr>t_blobs := (t_blobs t)(u_sha256 r \<mapsto> u_object r), t_uploads := (t_uploads t)(i := None)\<rparr>"
    by (cases t) simp
  moreover from stored_addBlob [OF dropped, of "u_object r" "u_sha256 r"] stored_upload [OF st up] ob other
  have "stored L K (?t\<lparr>t_blobs := (t_blobs ?t)(u_sha256 r \<mapsto> u_object r)\<rparr>) w"
    by (auto simp: uploaded_def)
  ultimately have "stored L K (t\<lparr>t_blobs := (t_blobs t)(u_sha256 r \<mapsto> u_object r),
      t_uploads := (t_uploads t)(i := None)\<rparr>) w" by (rule subst)
  with fin dropped show ?thesis by (auto simp: finishUpload_def split: if_splits)
qed

text \<open>Removing an object that no blob has.\<close>

lemma remove_stored:
  assumes "stored L K t w" and "idsOK L K w" and "\<And>d. t_blobs t d \<noteq> Some i"
    and "ids w' = ids w" and "drawn w' = drawn w"
    and "objects w' = objects w \<or> objects w' = (objects w)(ObjectKey L i := None)"
  shows "stored L K t w'"
proof (rule stored_world [OF assms(1)])
  fix d j assume b: "t_blobs t d = Some j"
  with assms(3) have "j \<noteq> i" by metis
  with assms(2) have "ObjectKey L j \<noteq> ObjectKey L i" by (simp add: ObjectKey_inj idsOK_def)
  with stored_blob [OF assms(1) b] assms(6) show "objects w' (ObjectKey L j) \<noteq> None" by auto
qed (use assms in simp_all)

text \<open>After the transaction, the object of a duplicate is dropped.\<close>

lemma after_complete:
  assumes "andThen m (\<lambda>(rows, r). andThen (if rows = (0::nat) then ignore (removeObject (ObjectKey L (u_object r)))
      else ret ()) (\<lambda>_. ret (f r))) w = (q, w')" and "m w = (p, v)"
  shows "tabs w' = tabs v \<and> ids w' = ids v \<and> drawn w' = drawn v \<and> (objects w' = objects v \<or>
     (\<exists>r. p = Inr (0, r) \<and> objects w' = (objects v)(ObjectKey L (u_object r) := None)))"
proof (cases "\<exists>r. p = Inr (0, r)")
  case True
  then obtain r where p: "p = Inr (0, r)" by blast
  obtain q' z where rm: "removeObject (ObjectKey L (u_object r)) v = (q', z)" by fastforce
  with assms p have "w' = z" by (simp add: andThen_def ignore_def)
  with removeObject_cases [OF rm] p show ?thesis by auto
next
  case False
  with assms have "w' = v" by (auto simp: andThen_def split: sum.splits if_splits)
  then show ?thesis by simp
qed

lemma CompleteUpload_stored: "within (storedStep L K) (CompleteUpload L S s name parts)"
proof -
  let ?k = "\<lambda>(rows, r). andThen (if rows = (0::nat) then ignore (removeObject (ObjectKey L (u_object r)))
      else ret ()) (\<lambda>_. ret (URI (u_mime r) (u_sha256 r)))"
  have "within (storedStep L K) (andThen (transaction internal internal (completeTx L S i parts)) ?k)" for i
  proof (rule withinI)
    fix w q w'
    assume run: "andThen (transaction internal internal (completeTx L S i parts)) ?k w = (q, w')"
    obtain p v where tx: "transaction internal internal (completeTx L S i parts) w = (p, v)" by fastforce
    have failed: "w' = v" if "p = Inl e" for e
      using run tx that by (simp add: andThen_def)
    show "storedStep L K w w'"
      using tx
    proof (cases rule: transaction_cases)
      case (begin_failed e)
      with failed show ?thesis by (intro same_step) (simp_all add: sameStore_def)
    next
      case (undone e r2 w1 w2)
      from withinD [OF completeTx_growing undone(4)] have g: "growing w1 w2" .
      show ?thesis
      proof (rule storedStepI)
        assume st: "stored L K (tabs w) w"
        have "stored L K (tabs w) v"
          by (rule stored_world [OF st])
            (use undone g stored_blob [OF st] in \<open>auto simp: growing_def sameStore_def\<close>)
        with undone failed show "stored L K (tabs w') w'" by simp
      qed (use undone g failed in \<open>simp_all add: growing_def sameStore_def\<close>)
    next
      case (stays x w1 w2)
      obtain rows r where x: "x = (rows, r)" by (cases x)
      note c = completeTx_Inr [OF stays(3) [unfolded x]]
      have eqs: "tabs v = tabs w2" "sameStore w2 v" by fact+
      have w': "tabs w' = tabs v \<and> ids w' = ids v \<and> drawn w' = drawn v \<and> (objects w' = objects v \<or>
          rows = 0 \<and> objects w' = (objects v)(ObjectKey L (u_object r) := None))"
        using after_complete [OF run tx] stays(6) x by auto
      show ?thesis
      proof (rule storedStepI)
        assume ids: "idsOK L K w" and st: "stored L K (tabs w) w"
        have up: "t_uploads (tabs w) i = Some r" using c stays(1) by simp
        have g: "growing w w2" using c stays(2) by (simp add: growing_def sameStore_def)
        have st2: "stored L K (tabs w) w2"
          by (rule stored_world [OF st]) (use g stored_blob [OF st] in \<open>auto simp: growing_def\<close>)
        from c stays(1) have "stored L K (tabs w2) w2"
          by (intro finish_stored [OF st2 up, of rows]) simp_all
        then have sv: "stored L K (tabs v) v" using eqs same_step [of v w2 L K]
          by (simp add: stored_def drawnFree_def sameStore_def)
        have idv: "idsOK L K v" using ids g eqs by (simp add: idsOK_def growing_def sameStore_def)
        have none: "t_blobs (tabs v) d \<noteq> Some (u_object r)" if "rows = 0" for d
        proof -
          have "t_blobs (tabs w2) = t_blobs (tabs w1)"
            using c that finish_none by blast
          with stored_upload [OF st up] stays(1) eqs(1) show ?thesis by simp
        qed
        show "stored L K (tabs w') w'"
        proof (cases "rows = 0")
          case True
          then show ?thesis using w' remove_stored [OF sv idv none, of w'] by auto
        next
          case False
          with w' sv show ?thesis by (simp add: stored_def drawnFree_def)
        qed
      qed (use w' c stays eqs in \<open>simp_all add: growing_def sameStore_def\<close>)
    qed
  qed
  then show ?thesis
    unfolding CompleteUpload_def
    by (rule st.seq [OF st.orf st.opt [OF st.fail]])
qed

subsection \<open>Aborting and expiring sessions\<close>

text \<open>What dropping session \<open>i\<close> may have done, wherever it stopped.\<close>

definition dropping :: "lib \<Rightarrow> uuid \<Rightarrow> world \<Rightarrow> world \<Rightarrow> bool" where
  "dropping L i w w' \<longleftrightarrow> ids w' = ids w \<and> drawn w' = drawn w \<and>
     (tabs w' = tabs w \<or> tabs w' = (tabs w)\<lparr>t_uploads := (t_uploads (tabs w))(i := None)\<rparr>) \<and>
     (objects w' = objects w \<or>
      (\<exists>r. t_uploads (tabs w) i = Some r \<and>
         objects w' = (objects w)(ObjectKey L (u_object r) := None)))"

lemma dropping_step:
  assumes "dropping L i w w'"
  shows "storedStep L K w w'"
proof (rule storedStepI)
  assume ids: "idsOK L K w" and st: "stored L K (tabs w) w"
  have d: "ids w' = ids w" "drawn w' = drawn w" using assms by (simp_all add: dropping_def)
  have "stored L K (tabs w) w'"
  proof (cases "objects w' = objects w")
    case True
    with st d show ?thesis by (simp add: stored_def drawnFree_def)
  next
    case False
    with assms obtain r where r: "t_uploads (tabs w) i = Some r"
      "objects w' = (objects w)(ObjectKey L (u_object r) := None)" by (auto simp: dropping_def)
    from stored_upload [OF st r(1)] have "t_blobs (tabs w) b \<noteq> Some (u_object r)" for b by simp
    from remove_stored [OF st ids this d] r(2) show ?thesis by simp
  qed
  with stored_dropUpload [OF this] assms show "stored L K (tabs w') w'" by (auto simp: dropping_def)
qed (use assms in \<open>simp_all add: dropping_def\<close>)

lemma ignored_call: "(if b then ignore call else ret ()) w = (p, v) \<Longrightarrow> sameStore w v \<and> tabs v = tabs w"
  by (auto simp: ignore_def sameStore_def split: if_splits)

lemma abortTx_dropping:
  assumes "abortTx L i w = (q, w')"
  shows "dropping L i w w'"
proof -
  obtain p v where q: "query (\<lambda>t. t_uploads t i) w = (p, v)" by fastforce
  then have v: "sameStore w v" "tabs v = tabs w" and p: "\<And>x. p = Inr x \<Longrightarrow> t_uploads (tabs w) i = x"
    by (auto simp: query_def andThen_def sameStore_def split: prod.splits sum.splits dest: call_result)
  show ?thesis
  proof (cases "\<exists>r. p = Inr (Some r)")
    case False
    with assms q have "w' = v" by (auto simp: abortTx_def andThen_def split: sum.splits option.splits)
    with v show ?thesis by (simp add: dropping_def sameStore_def)
  next
    case True
    then obtain r where r: "p = Inr (Some r)" by blast
    let ?key = "ObjectKey L (u_object r)"
    obtain p1 v1 where m: "(if u_multipart r \<noteq> None then ignore call else ret ()) v = (p1, v1)" by fastforce
    note m1 = ignored_call [OF m]
    have p1: "p1 = Inr ()" using m by (auto simp: ignore_def split: if_splits)
    obtain p2 v2 where rm: "removeObject ?key v1 = (p2, v2)" by fastforce
    note r2 = removeObject_cases [OF rm]
    obtain p3 v3 where dl: "stmt (deleteBlobUpload i) v2 = (p3, v3)" by fastforce
    note d3 = stmt_cases [OF dl]
    have "w' = v2 \<or> w' = v3"
      using assms q r m p1 rm dl
      by (auto simp: abortTx_def Let_def andThen_def split: sum.splits)
    with v m1 r2 d3 p [OF r] show ?thesis
      by (auto simp: dropping_def sameStore_def deleteBlobUpload_def)
  qed
qed

lemma abortSession_dropping:
  assumes "abortSession L i w = (q, w')"
  shows "dropping L i w w'"
proof -
  obtain r1 w1 r2 w2 r3 w3 where c: "call w = (r1, w1)" "abortTx L i w1 = (r2, w2)" "call w2 = (r3, w3)"
    by (meson prod.exhaust)
  have k: "tabs w1 = tabs w" "sameStore w w1" "tabs w3 = tabs w2" "sameStore w2 w3"
    using call_result [OF c(1)] call_result [OF c(3)] by (simp_all add: sameStore_def)
  have d: "dropping L i w w2"
    using abortTx_dropping [OF c(2)] k by (simp add: dropping_def sameStore_def)
  have "w' = w1 \<or> w' = w2\<lparr>tabs := tabs w1\<rparr> \<or> w' = w3 \<or> w' = w3\<lparr>tabs := tabs w1\<rparr>"
    using assms c by (auto simp: abortSession_def split: sum.splits bool.splits if_splits)
  with d k show ?thesis by (auto simp: dropping_def sameStore_def)
qed

lemma abortSession_stored: "within (storedStep L K) (abortSession L i)"
  by (rule withinI) (rule dropping_step [OF abortSession_dropping])

lemma session_stored: "within (storedStep L K) (session L name)"
proof -
  have "within (storedStep L K) (andThen (mapErr internal (query (getBlobUpload i c))) (\<lambda>row.
      case row of None \<Rightarrow> fail (Rpc NotFound ''upload session not found'') | Some r \<Rightarrow> ret (i, r)))"
    for c and i
    by (intro st.rules)
  then show ?thesis
    by (cases "uuidParse L name") (simp_all add: session_def within_def st.refl)
qed

lemma AbortUpload_stored: "within (storedStep L K) (AbortUpload L s name)"
  unfolding AbortUpload_def
  by (intro st.seq st.pair st.maps st.orf session_stored abortSession_stored)

lemma abortAll_stored: "within (storedStep L K) (abortAll L is)"
proof (induction "is")
  case Nil
  then show ?case unfolding abortAll.simps by (rule st.ret)
next
  case (Cons i "is")
  then show ?case unfolding abortAll.simps by (intro st.seq st.ign abortSession_stored)
qed

lemma Cleanup_stored: "storedStep L K w (CleanupExpiredUploads L S w)"
proof -
  obtain r w' where q: "query (listExpired S (clock w)) w = (r, w')" by fastforce
  note a = withinD [OF st.qry q, of L K]
  show ?thesis
  proof (cases r)
    case (Inl e)
    with q a show ?thesis by (simp add: CleanupExpiredUploads_def)
  next
    case (Inr rows)
    have "storedStep L K w' (snd (abortAll L rows w'))"
      using abortAll_stored by (simp add: within_def)
    with q a Inr st.trans show ?thesis by (auto simp: CleanupExpiredUploads_def)
  qed
qed

subsection \<open>Opening a session\<close>

text \<open>Calls and fresh ids only.\<close>

definition calling :: "world \<Rightarrow> world \<Rightarrow> bool" where
  "calling w w' \<longleftrightarrow> tabs w' = tabs w \<and> objects w' = objects w \<and> ids w' = ids w \<and> drawn w \<le> drawn w'"

interpretation cg: world_frame calling
  by unfold_locales (auto simp: calling_def)

lemma newID_calling: "within calling newID"
  by (simp add: within_def newID_def calling_def)

lemma ignore_call: "ignore call v = (p, x) \<Longrightarrow> p = Inr () \<and> calling v x"
  by (auto simp: ignore_def calling_def)

lemma openUpload_cases:
  assumes "openUpload L digest len mime metadata i objectID w = (q, w')"
  shows "ids w' = ids w \<and> drawn w \<le> drawn w' \<and> objects w' = objects w \<and>
    (tabs w' = tabs w \<or> (\<exists>row. u_object row = objectID \<and> createBlobUpload i row (tabs w) = Inr ((), tabs w')))"
proof -
  let ?m = "if len > partSize
        then andThen (mapErr unavailable call) (\<lambda>_.
             andThen newID (\<lambda>u. ret (partCount len, Some (uuidString L u))))
        else ret (1, None)"
  obtain p v where m: "?m w = (p, v)" by fastforce
  have "within calling ?m" by (intro cg.rules newID_calling)
  from withinD [OF this m] have v: "calling w v" .
  show ?thesis
  proof (cases p)
    case (Inl e)
    with assms m v show ?thesis by (simp add: openUpload_def andThen_def calling_def)
  next
    case (Inr x)
    obtain parts multipart where x: "x = (parts, multipart)" by (cases x)
    let ?row = "\<lparr>u_sha256 = digest, u_object = objectID, u_size = len, u_mime = mime,
              u_meta = metadata, u_multipart = multipart, u_expires = clock v + 86400000000000\<rparr>"
    obtain r z where st: "stmt (createBlobUpload i ?row) v = (r, z)" by fastforce
    note s = stmt_cases [OF st]
    have "calling z w'"
    proof (cases r)
      case (Inl e)
      have "within calling (andThen (if multipart \<noteq> None then ignore call else ret ()) (\<lambda>_. fail e'))"
        for e' :: goerr
        by (intro cg.rules cg.ign)
      from withinD [OF this] show ?thesis
        using assms m Inr x st Inl by (simp add: openUpload_def andThen_def)
    next
      case (Inr y)
      with assms m \<open>p = Inr x\<close> x st show ?thesis by (simp add: openUpload_def andThen_def cg.refl)
    qed
    with s v show ?thesis unfolding calling_def
      by (elim conjE disjE exE) (auto intro!: exI [of _ ?row])
  qed
qed

lemma createBlobUpload_Inr:
  "createBlobUpload i row t = Inr (u, t') \<Longrightarrow>
     t_uploads t i = None \<and> (\<forall>r\<in>ran (t_uploads t). u_object r \<noteq> u_object row) \<and>
     t' = t\<lparr>t_uploads := (t_uploads t)(i \<mapsto> row)\<rparr>"
  by (auto simp: createBlobUpload_def split: if_splits)

lemma randomID_cases:
  assumes "andThen randomID f w = (q, w')"
  obtains "calling w w'"
  | v where "calling w v" "drawn w < drawn v" "\<exists>n. drawn w \<le> n \<and> n < drawn v \<and> f (ids w n) v = (q, w')"
proof -
  obtain p v where c: "mapErr internal call w = (p, v)" by fastforce
  from withinD [OF cg.maps [OF cg.calls] c] have v: "calling w v" .
  show thesis
  proof (cases p)
    case (Inl e)
    with assms c v that(1) show thesis by (simp add: randomID_def andThen_def)
  next
    case (Inr x)
    from assms c Inr v have f: "f (ids w (drawn v)) (v\<lparr>drawn := Suc (drawn v)\<rparr>) = (q, w')"
      by (simp add: randomID_def andThen_def newID_def calling_def)
    show thesis
      by (rule that(2) [of "v\<lparr>drawn := Suc (drawn v)\<rparr>"]) (use v f in \<open>auto simp: calling_def\<close>)
  qed
qed

lemma createUpload_step:
  "within (storedStep L K) (andThen randomID (\<lambda>i. andThen randomID (\<lambda>objectID.
     openUpload L digest len mime metadata i objectID)))"
proof (rule withinI)
  fix w q w'
  assume "andThen randomID (\<lambda>i. andThen randomID (\<lambda>objectID.
     openUpload L digest len mime metadata i objectID)) w = (q, w')"
  then consider "calling w w'"
    | v i n row where "calling w v" "drawn w \<le> n" "n < drawn v"
      "ids w' = ids v" "drawn v \<le> drawn w'" "objects w' = objects v"
      "tabs w' = tabs v \<or> u_object row = ids w n \<and> createBlobUpload i row (tabs v) = Inr ((), tabs w')"
  proof (cases rule: randomID_cases)
    case (2 v)
    then obtain n0 where f: "andThen randomID (\<lambda>objectID.
      openUpload L digest len mime metadata (ids w n0) objectID) v = (q, w')" by blast
    from f show thesis
    proof (cases rule: randomID_cases)
      case 1
      with \<open>calling w v\<close> that(1) cg.trans show thesis by blast
    next
      case v2: (2 v2)
      then obtain n where n: "drawn v \<le> n" "n < drawn v2"
        "openUpload L digest len mime metadata (ids w n0) (ids v n) v2 = (q, w')" by blast
      from openUpload_cases [OF n(3)] obtain row where "ids w' = ids v2" "drawn v2 \<le> drawn w'"
        "objects w' = objects v2"
        "tabs w' = tabs v2 \<or> u_object row = ids v n \<and> createBlobUpload (ids w n0) row (tabs v2) = Inr ((), tabs w')"
        by blast
      moreover have "calling w v2" "ids v = ids w" "drawn w \<le> n"
        using \<open>calling w v\<close> v2(1) n(1) by (auto simp: calling_def)
      ultimately show thesis using n(2) that(2) [of v2 n row "ids w n0"] by simp
    qed
  qed (use that in blast)
  then show "storedStep L K w w'"
  proof cases
    case 1
    then show ?thesis by (intro same_step) (simp_all add: calling_def)
  next
    case (2 v i n row)
    show ?thesis
    proof (rule storedStepI)
      assume ids: "idsOK L K w" and k: "drawn w' \<le> K" and st: "stored L K (tabs w) w"
      have e: "tabs v = tabs w" "objects w' = objects w" "ids w' = ids w" "drawn w \<le> drawn w'"
        using 2 by (simp_all add: calling_def)
      have st': "stored L K (tabs w) w'"
        by (rule stored_world [OF st]) (use e stored_blob [OF st] in auto)
      have old: "\<not> drawnFree K w (ids w n)" using 2 k by (auto simp: drawnFree_def)
      have free: "drawnFree K w' (ids w n)"
        using drawn_free [of L K w' n] ids e k 2 by (simp add: idsOK_def)
      show "stored L K (tabs w') w'"
      proof (cases "tabs w' = tabs v")
        case True
        with st' e show ?thesis by simp
      next
        case False
        with 2 have row: "u_object row = ids w n" and c: "createBlobUpload i row (tabs w) = Inr ((), tabs w')"
          using e by auto
        note cr = createBlobUpload_Inr [OF c]
        have "t_blobs (tabs w) d \<noteq> Some (u_object row)" for d
          using stored_blob [OF st, of d "ids w n"] old row by auto
        from stored_addUpload [OF st' _ this] cr free row show ?thesis by simp
      qed
    qed (use 2 in \<open>simp_all add: calling_def\<close>)
  qed
qed

lemma CreateUpload_stored: "within (storedStep L K) (CreateUpload L S s digest len mime values)"
  unfolding CreateUpload_def
  by (intro st.seq st.orf st.cond st.fail st.alt st.maps st.qry st.ret createUpload_step)

end
