(* ===== verification/Blob_Properties.thy ===== *)
theory Blob_Properties
  imports Blob_Stored Runlog_Properties
begin

section \<open>Properties of the blob service\<close>

text \<open>
  The system of the blob service, the log service that shares its tables, and the clients
  that upload to signed URLs: \<open>blob_reachable\<close>. The signed headers of a single upload say
  \<open>If-None-Match: *\<close>, so a client creates objects and never replaces one.
\<close>

inductive blob_step :: "lib \<Rightarrow> s3 \<Rightarrow> world \<Rightarrow> world \<Rightarrow> bool" for L S where
  step_put: "Put L mime data w = (r, w') \<Longrightarrow> blob_step L S w w'"
| step_append: "Append L s sc name stream aid es w = (q, w') \<Longrightarrow> blob_step L S w w'"
| step_create: "CreateUpload L S b digest len mime values w = (c, w') \<Longrightarrow> blob_step L S w w'"
| step_presign: "PresignPart L S b name number w = (p, w') \<Longrightarrow> blob_step L S w w'"
| step_complete: "CompleteUpload L S b name parts w = (u, w') \<Longrightarrow> blob_step L S w w'"
| step_abort: "AbortUpload L b name w = (v, w') \<Longrightarrow> blob_step L S w w'"
| step_cleanup: "blob_step L S w (CleanupExpiredUploads L S w)"
| step_download: "GetDownload L S b uri w = (g, w') \<Longrightarrow> blob_step L S w w'"
| step_client: "objects w key = None \<Longrightarrow> blob_step L S w (w\<lparr>objects := (objects w)(key \<mapsto> ob)\<rparr>)"
| step_time: "blob_step L S w (w\<lparr>clock := now\<rparr>)"

inductive blob_reachable :: "lib \<Rightarrow> s3 \<Rightarrow> world \<Rightarrow> bool" for L S where
  reach_init: "t_blobs (tabs w) = Map.empty \<Longrightarrow> t_uploads (tabs w) = Map.empty \<Longrightarrow> blob_reachable L S w"
| reach_step: "blob_reachable L S w \<Longrightarrow> blob_step L S w w' \<Longrightarrow> blob_reachable L S w'"

lemma step_stored: "blob_step L S w w' \<Longrightarrow> storedStep L K w w'"
proof (induction rule: blob_step.induct)
  case (step_presign b name number w p w')
  have "within (storedStep L K) (PresignPart L S b name number)"
    unfolding PresignPart_def Let_def
    by (intro st.seq st.pair st.orf session_stored st.cond st.opt st.fail st.ret st.maps st.calls)
  from withinD [OF this step_presign] show ?case .
next
  case (step_download b uri w g w')
  have "within (storedStep L K) (GetDownload L S b uri)"
    unfolding GetDownload_def
    by (intro st.rules st.orf)
  from withinD [OF this step_download] show ?case .
next
  case (step_client w key ob)
  show ?case
  proof (rule storedStepI)
    assume "stored L K (tabs w) w"
    with stored_blob [OF this] show "stored L K (tabs (w\<lparr>objects := (objects w)(key \<mapsto> ob)\<rparr>))
        (w\<lparr>objects := (objects w)(key \<mapsto> ob)\<rparr>)"
      by (auto intro!: stored_world [of L K "tabs w" w])
  qed simp_all
next
  case (step_time w now)
  show ?case by (rule same_step) simp_all
qed (blast intro: withinD Put_stored Append_stored CreateUpload_stored CompleteUpload_stored
      AbortUpload_stored Cleanup_stored)+

lemma reachable_stored:
  assumes "blob_reachable L S w"
  shows "idsOK L K w \<Longrightarrow> drawn w \<le> K \<Longrightarrow> stored L K (tabs w) w"
  using assms
proof (induction rule: blob_reachable.induct)
  case (reach_init w)
  then show ?case by (simp add: stored_def)
next
  case (reach_step w w')
  from step_stored [OF reach_step(2), of K] have s: "storedStep L K w w'" .
  with reach_step show ?case by (auto simp: storedStep_def idsOK_def)
qed

text \<open>A known blob whose object is there can be downloaded.\<close>

lemma download_found:
  assumes "ParseURI uri = Inr (digest, mime)" and "t_blobs (tabs w) digest = Some i"
    and ob: "objects w (ObjectKey L i) \<noteq> None" and "ready b = None" and "quiet w"
  shows "runsTo (GetDownload L S b uri) w (presignGet S (ObjectKey L i))"
  unfolding GetDownload_def assms(1) sum.case prod.case
proof (rule runsTo_seq [where x = "()"])
  show "runsTo (orFail (ready b)) w ()" using assms(4) by (simp add: orFail_def)
  fix n assume n: "calls w \<le> n"
  have q: "runsTo (mapErr internal (query (\<lambda>t. t_blobs t digest))) (w\<lparr>calls := n\<rparr>) (Some i)"
    using runsTo_maps [OF runsTo_query [OF quiet_calls [OF assms(5) n]], of internal "\<lambda>t. t_blobs t digest"]
      assms(2) by simp
  have g: "runsTo (mapErr unavailable (getObject (ObjectKey L i))) (w\<lparr>calls := k\<rparr>) (objects w (ObjectKey L i))"
    if "n \<le> k" for k
    using runsTo_maps [OF runsTo_get [OF quiet_calls [OF assms(5), of k]], of unavailable "ObjectKey L i"] n that
    by simp
  show "runsTo (andThen (mapErr internal (query (\<lambda>t. t_blobs t digest))) (\<lambda>found.
       case found of None \<Rightarrow> fail (Rpc NotFound ''blob not found'')
       | Some i \<Rightarrow> andThen (mapErr unavailable (getObject (ObjectKey L i))) (\<lambda>ob.
           if ob = None then fail (Rpc NotFound ''blob not found'')
           else andThen (mapErr unavailable call) (\<lambda>_. ret (presignGet S (ObjectKey L i))))))
     (w\<lparr>calls := n\<rparr>) (presignGet S (ObjectKey L i))"
  proof (rule runsTo_seq [OF q])
    fix k assume "calls (w\<lparr>calls := n\<rparr>) \<le> k"
    then have k: "n \<le> k" by simp
    let ?f = "\<lambda>ob. if ob = None then fail (Rpc NotFound ''blob not found'')
        else andThen (mapErr unavailable call) (\<lambda>_. ret (presignGet S (ObjectKey L i)))"
    have "runsTo (andThen (mapErr unavailable (getObject (ObjectKey L i))) ?f)
        (w\<lparr>calls := k\<rparr>) (presignGet S (ObjectKey L i))"
    proof (rule runsTo_seq [OF g [OF k]])
      fix l assume "calls (w\<lparr>calls := k\<rparr>) \<le> l"
      then have "quiet (w\<lparr>calls := k, calls := l\<rparr>)" using n k quiet_calls [OF assms(5), of l] by simp
      from runsTo_maps [OF runsTo_call [OF this]] ob
      show "runsTo (?f (objects w (ObjectKey L i))) (w\<lparr>calls := k, calls := l\<rparr>) (presignGet S (ObjectKey L i))"
        by (auto intro: runsTo_seq)
    qed
    then show "runsTo (case Some i of None \<Rightarrow> fail (Rpc NotFound ''blob not found'')
       | Some i \<Rightarrow> andThen (mapErr unavailable (getObject (ObjectKey L i))) (\<lambda>ob.
           if ob = None then fail (Rpc NotFound ''blob not found'')
           else andThen (mapErr unavailable call) (\<lambda>_. ret (presignGet S (ObjectKey L i)))))
        (w\<lparr>calls := n, calls := k\<rparr>) (presignGet S (ObjectKey L i))" by simp
  qed
qed

text \<open>
  C16: Whatever the blob service, the log service and the uploading clients do in whichever
  order, and whichever of their calls fail, a blob of the table \<open>blobs\<close> has its object in
  the store: a download of it, when no call fails, is a signed URL for that object and never
  "not found". The ids drawn so far are assumed distinct.
\<close>

theorem blobs_backed:
  assumes "blob_reachable L S w" and "idsOK L K w" and "drawn w \<le> K"
    and "ParseURI uri = Inr (digest, mime)" and "t_blobs (tabs w) digest = Some i"
    and "ready b = None" and "quiet w"
  shows "objects w (ObjectKey L i) \<noteq> None \<and>
    runsTo (GetDownload L S b uri) w (presignGet S (ObjectKey L i))"
proof -
  have "objects w (ObjectKey L i) \<noteq> None"
    using stored_blob [OF reachable_stored [OF assms(1-3)] assms(5)] by simp
  with download_found [OF assms(4,5) _ assms(6,7)] show ?thesis by simp
qed

definition demoS3 :: s3 where
  "demoS3 = \<lparr>assembled = (\<lambda>_ _. None), presignPart = (\<lambda>k _ _. k), presignPut = (\<lambda>k _. k),
     presignGet = (\<lambda>k. k), isLower = (\<lambda>_. True), uploadOrder = (\<lambda>_. [])\<rparr>"

definition demoBlob :: blobService where
  "demoBlob = \<lparr>b_db = True, b_store = True, b_signer = True, b_bucket = ''b''\<rparr>"

definition demoStored :: world where
  "demoStored = snd (Append demoLib demoLog None ''run'' ''log'' ''id'' demoEntries demoWorld)"

lemma demo_stored:
  "t_blobs (tabs demoStored) = [sha256 [4, 5, 6] \<mapsto> 0]" "drawn demoStored = 1"
  "ids demoStored = of_nat" "faults demoStored = (\<lambda>_. None)"
  by (simp_all add: demoStored_def Append_def validateRun_def orFail_def checkCheckpointScope_def
      AppendEntries_def AppendTx_def lockStream_def appendNew_def
      storeValue_def Let_def act_defs demo_defs streamOK_log limits_def wrap64_def
      createLogStream_def insertLogRecord_def insertLogAppend_def updateNextSeq_def
      insertBlobIfAbsent_def)

lemma demo_reached: "blob_reachable demoLib demoS3 demoStored"
proof (rule reach_step)
  show "blob_reachable demoLib demoS3 demoWorld" by (rule reach_init) (simp_all add: demo_defs)
  show "blob_step demoLib demoS3 demoWorld demoStored"
    unfolding demoStored_def by (rule step_append) (rule surjective_pairing)
qed

theorem blobs_backed_witness:
  "objects demoStored (ObjectKey demoLib 0) \<noteq> None \<and>
   runsTo (GetDownload demoLib demoS3 demoBlob (blobURI (sha256 [4, 5, 6]))) demoStored
     (presignGet demoS3 (ObjectKey demoLib 0))"
proof (rule blobs_backed [where K = 14])
  show "idsOK demoLib 14 demoStored"
    using demo_ids by (simp add: idsOK_def demo_stored demoWorld_def)
qed (simp_all add: demo_reached demo_stored parse_blobURI ready_def demoBlob_def quiet_def)

subsection \<open>Completing an upload\<close>

lemma complete_runs:
  assumes "CompleteUpload L S b name parts w = (q, w')"
    and "t_blobs (tabs w) d = None" and "t_blobs (tabs w') d = Some i"
  obtains u where "uuidParse L name = Some u"
    "andThen (transaction internal internal (completeTx L S u parts)) (\<lambda>(rows, r).
      andThen (if rows = 0 then ignore (removeObject (ObjectKey L (u_object r))) else ret ()) (\<lambda>_.
      ret (URI (u_mime r) (u_sha256 r)))) w = (q, w')"
proof (cases "ready b")
  case None
  with assms that show thesis
    by (cases "uuidParse L name") (auto simp: CompleteUpload_def orFail_def andThen_run)
next
  case (Some e)
  with assms have "w' = w" by (simp add: CompleteUpload_def orFail_def andThen_def)
  with assms show thesis by simp
qed

text \<open>
  C17: An upload that is completed, or whose completion fails anywhere, adds at most the
  blob of its session: a digest that had no blob before has one afterwards only if the
  session declared that digest, and then the object the blob names is in the store with the
  declared size and, unless it was uploaded in parts, with the declared SHA-256 as the
  checksum the store computed.
\<close>

theorem complete_verifies:
  assumes "CompleteUpload L S b name parts w = (q, w')"
    and "t_blobs (tabs w) d = None" and "t_blobs (tabs w') d = Some i"
  shows "\<exists>u r. uuidParse L name = Some u \<and> t_uploads (tabs w) u = Some r \<and> u_sha256 r = d \<and>
    u_object r = i \<and> uploaded L r w'"
proof -
  obtain u where u: "uuidParse L name = Some u"
    and run: "andThen (transaction internal internal (completeTx L S u parts)) (\<lambda>(rows, r).
      andThen (if rows = 0 then ignore (removeObject (ObjectKey L (u_object r))) else ret ()) (\<lambda>_.
      ret (URI (u_mime r) (u_sha256 r)))) w = (q, w')"
    by (rule complete_runs [OF assms])
  obtain p v where tx: "transaction internal internal (completeTx L S u parts) w = (p, v)" by fastforce
  note after = after_complete [OF run tx]
  from tx show ?thesis
  proof (cases rule: transaction_cases)
    case (stays x w1 w2)
    obtain rows r where x: "x = (rows, r)" by (cases x)
    note c = completeTx_Inr [OF stays(3) [unfolded x]]
    have fin: "finishUpload (tabs w) u r rows (tabs w')" using c stays after by simp
    from assms(2,3) fin have new: "rows = 1" "u_sha256 r = d" "u_object r = i"
      by (auto simp: finishUpload_def split: if_splits)
    with after stays(5,6) x have "objects w' = objects w2" by (auto simp: sameStore_def)
    with c u stays(1) new show ?thesis by (auto simp: uploaded_def)
  qed (use assms(2,3) after in auto)
qed

definition demoUpload :: upload_row where
  "demoUpload = \<lparr>u_sha256 = replicate 32 0, u_object = 9, u_size = 2, u_mime = ''text/plain'', u_meta = [],
     u_multipart = None, u_expires = 100\<rparr>"

definition demoUploading :: world where
  "demoUploading = demoWorld\<lparr>tabs := demoTables\<lparr>t_uploads := [7 \<mapsto> demoUpload]\<rparr>,
     objects := [ObjectKey demoLib 9 \<mapsto>
       \<lparr>ob_data = [1, 2], ob_checksum = b64encode (replicate 32 0)\<rparr>]\<rparr>"

theorem complete_verifies_witness:
  "\<exists>u r. uuidParse demoLib ''run'' = Some u \<and> t_uploads (tabs demoUploading) u = Some r \<and>
     u_sha256 r = replicate 32 0 \<and> u_object r = 9 \<and>
     uploaded demoLib r (snd (CompleteUpload demoLib demoS3 demoBlob ''run'' [] demoUploading))"
  by (rule complete_verifies [OF surjective_pairing])
    (simp_all add: CompleteUpload_def completeTx_def verifyUpload_def getObject_def insertBlobIfAbsent_def
      deleteBlobUpload_def orFail_def ready_def Let_def act_defs demoBlob_def demo_defs demoUploading_def demoUpload_def)

text \<open>
  Within the size the service accepts, an upload has at most the 10000 parts that S3
  allows, and as many as are needed: all but the last are full.
\<close>

theorem partCount_bounds:
  assumes "0 \<le> n" and "n \<le> 83886080000"
  shows "0 \<le> partCount n \<and> partCount n \<le> 10000 \<and>
    (partCount n - 1) * partSize < n \<and> n \<le> partCount n * partSize"
proof -
  obtain q m where qm: "(n + partSize - 1) div partSize = q" "(n + partSize - 1) mod partSize = m" by blast
  with div_mult_mod_eq [of "n + partSize - 1" partSize]
  have d: "n + 8388607 = q * 8388608 + m" "0 \<le> m" "m < 8388608"
    by (auto simp: partSize_def)
  then have "0 \<le> q" "q \<le> 10000" using assms by linarith+
  moreover then have "partCount n = q" using qm(1) by (simp add: partCount_def wrap32_def)
  ultimately show ?thesis using d by (simp add: partSize_def)
qed

theorem partCount_bounds_witness:
  "partCount 83886080000 \<le> 10000 \<and> 83886080000 \<le> partCount 83886080000 * partSize"
  using partCount_bounds [of 83886080000] by simp

end
