(* ===== verification/Graph_Frame.thy ===== *)
theory Graph_Frame
  imports Graph_Step
begin

section \<open>What every step keeps because every commit keeps it\<close>

text \<open>
  The nodes of a run change in two ways only: \<open>commitLocked\<close> replaces a node, through the
  store, and \<open>Add\<close> adds one. A relation that both respect, and that looks at nothing but
  the nodes, the database, the error and the options, relates the executor before and after
  every step of the system.
\<close>

locale commit_frame =
  fixes Q :: "'db exec \<Rightarrow> 'db exec \<Rightarrow> bool"
  assumes local: "nodes s' = nodes s \<Longrightarrow> db s' = db s \<Longrightarrow> err s' = err s \<Longrightarrow> opts s' = opts s \<Longrightarrow> Q s s'"
    and trans: "Q s u \<Longrightarrow> Q u v \<Longrightarrow> Q s v"
    and commit: "commitLocked c n s = (r, s') \<Longrightarrow> Q s s'"
    and adds: "nodeID n \<notin> dom (nodes s) \<Longrightarrow> err s = None \<Longrightarrow> Q s (putNode n s)"
begin

lemma refl [simp, intro]: "Q s s"
  by (rule local) simp_all

lemma local_frames [intro]:
  "Q s (tick s)" "Q s (notifyLocked s)" "Q s (updAct a f s)" "Q s (timerLocked i att t s)"
  "Q s (cancelActive i s)" "Q s (cancelExec s)"
  by (auto intro!: local simp: updAct_def timerLocked_def cancelExec_def)

lemma slots: "releaseSlot s = Some s' \<Longrightarrow> Q s s'" "acquireSlot s = Some s' \<Longrightarrow> Q s s'"
  by (auto intro!: local simp: releaseSlot_def acquireSlot_def)

subsection \<open>The sections\<close>

lemma closeEach: "closeEach ce reason is s = (r, s') \<Longrightarrow> Q s s'"
proof (induction ce reason "is" s rule: closeEach.induct)
  case (2 ce reason i "is" s)
  show ?case
  proof (cases "nodes s i")
    case None
    with "2.prems" show ?thesis by simp
  next
    case (Some n)
    let ?n = "n\<lparr>nstate := Canceled, waitingOn := NoWait, nerror := reason\<rparr>"
    obtain q u where q: "commitLocked ce ?n (cancelActive i s) = (q, u)" by fastforce
    have u: "Q s u" using trans [OF local_frames(5) commit [OF q]] .
    show ?thesis
    proof (cases "Terminal (nstate n)")
      case True
      with 2 Some show ?thesis by simp
    next
      case False
      show ?thesis
      proof (cases q)
        case None
        with "2.IH"(2) [OF Some False q [symmetric]] "2.prems" Some False q have "Q u s'" by simp
        with u show ?thesis by (rule trans)
      next
        case e: (Some e)
        with "2.prems" Some False q u show ?thesis by simp
      qed
    qed
  qed
qed simp

lemma close: "closeLocked order ce parent reason s = (r, s') \<Longrightarrow> Q s s'"
  unfolding closeLocked_def by (rule closeEach)

lemma close_snd: "Q s (snd (closeLocked order ce parent reason s))"
  by (rule close [OF surjective_pairing])

lemma then_close: "commitLocked c n s = (r, s') \<Longrightarrow> Q s (snd (closeLocked order ce parent reason s'))"
  by (rule trans [OF commit close_snd])

lemma Cancel: "Q s (Cancel order s)"
  unfolding Cancel_def by (rule trans [OF close_snd local_frames(6)])

lemma CancelSubtree: "CancelSubtree order ce i s = (r, s') \<Longrightarrow> Q s s'"
  unfolding CancelSubtree_def
  by (auto split: option.splits if_splits prod.splits
      intro: close trans [OF local_frames(5) commit] trans [OF trans [OF local_frames(5) commit] close])

lemma prereqLoop: "prereqLoop cur ps ready p s = (b, r, p', s') \<Longrightarrow> Q s s'"
proof (induction cur ps ready p s rule: prereqLoop.induct)
  case (2 cur x ps ready p s)
  obtain q u where q: "commitLocked (cancelled s) (failPrereq cur) s = (q, u)" by fastforce
  note u = commit [OF q]
  show ?case
  proof (cases "\<exists>y. nodes s x = Some y \<and> nstate y = Done")
    case True
    with 2 show ?thesis by simp
  next
    case F1: False
    show ?thesis
    proof (cases "nodes s x = None \<or> (\<exists>y. nodes s x = Some y \<and> Terminal (nstate y))")
      case True
      show ?thesis
      proof (cases q)
        case None
        with "2.IH"(2) [OF F1 True q [symmetric]] "2.prems" F1 True q have "Q u s'" by simp
        with u show ?thesis by (rule trans)
      next
        case (Some e)
        with "2.prems" F1 True q u show ?thesis by simp
      qed
    next
      case False
      from "2.prems" have "prereqLoop cur ps False p s = (b, r, p', s')"
        by (simp only: prereqLoop.simps F1 False if_False)
      from "2.IH"(3) [OF F1 False this] show ?thesis .
    qed
  qed
qed simp

lemma dispatchRound: "dispatchRound is p sp s = (b, p', sp', s') \<Longrightarrow> Q s s'"
proof (induction "is" arbitrary: p sp s)
  case (Cons i "is")
  show ?case
  proof (cases "nodes s i")
    case None
    with Cons show ?thesis by simp
  next
    case (Some cur)
    obtain x1 x2 x3 s1 where l: "prereqLoop cur (prerequisites cur) True p (tick s) = (x1, x2, x3, s1)"
      by (metis prod_cases4)
    have s1: "Q s s1" using trans [OF local_frames(1) prereqLoop [OF l]] .
    obtain q u where q: "commitLocked (cancelled s1) (makeReady cur) s1 = (q, u)" by fastforce
    have u: "Q s u" using trans [OF s1 commit [OF q]] .
    have IH: "Q s s'" if "dispatchRound is y z v = (b, p', sp', s')" "Q s v" for y z v
      using trans [OF that(2) Cons.IH [OF that(1)]] .
    from Cons.prems Some l q s1 u IH local_frames(1) [of s] show ?thesis
      by (auto split: bool.splits option.splits if_splits)
  qed
qed simp

lemma dispatchLocked: "dispatchLocked orders s = Some (sp, s') \<Longrightarrow> Q s s'"
proof -
  have "dispatchLoop orders sp0 s = Some (sp, s') \<Longrightarrow> Q s s'" for sp0
  proof (induction orders arbitrary: sp0 s)
    case (Cons order orders)
    obtain b p sp1 s1 where r: "dispatchRound order False sp0 s = (b, p, sp1, s1)" by (metis prod_cases4)
    from Cons.prems r dispatchRound [OF r] Cons.IH [of sp1 s1] trans show ?case
      by (auto split: bool.splits)
  qed simp
  then show "dispatchLocked orders s = Some (sp, s') \<Longrightarrow> Q s s'" by (simp add: dispatchLocked_def)
qed

lemma execImage: "execImage cl i n s = (p, s') \<Longrightarrow> Q s s'"
  by (auto simp: execImage_def split: if_splits prod.splits option.splits intro: commit)

lemma execStart: "execStart i ow s = (p, s') \<Longrightarrow> Q s s'"
  by (auto simp: execStart_def split: if_splits option.splits intro: execImage)

lemma execLookedUp: "execLookedUp order i ow key out e hit s = (p, s') \<Longrightarrow> Q s s'"
  by (auto simp: execLookedUp_def Let_def split: if_splits prod.splits option.splits
      intro: execImage commit then_close)

lemma execEnsured: "execEnsured order i cl e s = (p, s') \<Longrightarrow> Q s s'"
  by (auto simp: execEnsured_def split: if_splits prod.splits option.splits intro: commit then_close)

lemma execAcquired: "execAcquired i cl s = Some (p, s') \<Longrightarrow> Q s s'"
  by (auto simp: execAcquired_def split: if_splits prod.splits option.splits
      intro: slots trans [OF commit slots(1)] trans [OF commit local])

lemma finishNode: "Q s (finishNode order i n out e s)"
proof -
  obtain n' s1 where r: "attemptResult n out e s = (n', s1)" by fastforce
  have s1: "Q s s1"
    using r by (auto simp: attemptResult_def Let_def split: option.splits if_splits)
  obtain q u where q: "commitLocked (cancelled s1) n' s1 = (q, u)" by fastforce
  have u: "Q s u" using trans [OF s1 commit [OF q]] .
  show ?thesis
    using u trans [OF u local_frames(4)] trans [OF u close_snd]
    by (auto simp: finishNode_def r q split: option.split)
qed

lemma endAttempt: "endAttempt i a s = Some s' \<Longrightarrow> Q s s'"
  by (auto simp: endAttempt_def updAct_def split: if_splits intro!: local simp: releaseSlot_def)

lemma execFinish: "execFinish order i cl a num out e s = Some (p, s') \<Longrightarrow> Q s s'"
  by (auto simp: execFinish_def split: if_splits option.splits
      intro: endAttempt trans [OF endAttempt finishNode])

lemma timerFire: "Q s (timerFire t s)"
  by (auto simp: timerFire_def split: prod.splits option.splits)

lemma Add: "Add ce parent att n s = (r, s') \<Longrightarrow> Q s s'"
proof -
  have o: "nodeID (orPending (n\<lparr>parentID := q\<rparr>)) = nodeID n" for q by (simp add: orPending_def)
  have "Q s (addNode m s)" if "nodeID m \<notin> dom (nodes s)" "err s = None" for m
    by (rule trans [OF adds [OF that] local]) (simp_all add: addNode_def Let_def timerLocked_def)
  then have "Q s (notifyLocked (addNode (orPending (n\<lparr>parentID := q\<rparr>)) s))"
    if "nodes s (nodeID n) = None" "err s = None" for q
    using that o trans [OF _ local_frames(2)] by (metis domIff)
  then show "Add ce parent att n s = (r, s') \<Longrightarrow> Q s s'"
    by (auto simp: Add_def split: option.splits if_splits)
qed

lemma suspend: "suspend c p a s = Some (r, s') \<Longrightarrow> Q s s'"
  by (auto simp: suspend_def split: prod.splits option.splits
      intro: commit trans [OF commit trans [OF local_frames(3) slots(1)]])

lemma waitEnter: "waitEnter c parent att child s = Some (p, s') \<Longrightarrow> Q s s'"
  by (auto simp: waitEnter_def incWaiters_def split: option.splits if_splits
      intro: suspend trans [OF suspend local_frames(3)])

lemma resumeAcquired: "resumeAcquired parent a k s = Some (p, s') \<Longrightarrow> Q s s'"
  by (auto simp: resumeAcquired_def split: option.splits if_splits prod.splits
      intro: slots trans [OF local_frames(3) commit])

lemma tstep: "tstep p s q s' \<Longrightarrow> Q s s'"
  by (induction rule: tstep.induct)
    (auto simp: setResume_def waitLeave_def intro: execStart execLookedUp execEnsured slots execAcquired
      execFinish waitEnter resumeAcquired trans [OF local_frames(3) local_frames(2)])

lemma runStart: "runStart pe order s = (d, s') \<Longrightarrow> Q s s'"
proof -
  let ?s = "s\<lparr>started := True, cancelled := pe\<rparr>"
  have s1: "Q s ?s" by (rule local) simp_all
  have "Q u (startTimers is u)" for "is" u
  proof (induction "is" arbitrary: u)
    case (Cons i "is")
    then show ?case
      by (auto split: option.split intro: trans [OF local_frames(1)]
          trans [OF trans [OF local_frames(1) local_frames(4)]])
  qed simp
  then show "runStart pe order s = (d, s') \<Longrightarrow> Q s s'"
    using s1 trans [OF s1] local_frames(6)
    by (auto simp: runStart_def Let_def split: if_splits option.splits sum.splits)
qed

lemma runIter: "runIter ce order orders root s = Some (d, sp, s') \<Longrightarrow> Q s s'"
proof -
  have "Q s u" if "runReturn order root s = (r, u)" for r u
    using that close by (auto simp: runReturn_def Let_def split: prod.splits option.splits)
  then show "runIter ce order orders root s = Some (d, sp, s') \<Longrightarrow> Q s s'"
    by (auto simp: runIter_def split: option.splits if_splits prod.splits
        intro: dispatchLocked trans [OF _ local_frames(6)])
qed

lemma step: "step c c' \<Longrightarrow> Q (ex c) (ex c')"
proof (induction rule: step.induct)
  case (fire t c)
  have "Q (ex c) ((ex c)\<lparr>timers := remove1 t (timers (ex c))\<rparr>)" by (rule local) simp_all
  from trans [OF this timerFire] show ?case by simp
qed (auto intro: tstep runStart runIter Add Cancel CancelSubtree local)

lemma steps: "step\<^sup>*\<^sup>* c c' \<Longrightarrow> Q (ex c) (ex c')"
  by (induction rule: rtranclp_induct) (auto intro: trans step)

end

end
