(* ===== verification/Graph_Persist.thy ===== *)
theory Graph_Persist
  imports Graph_Frame Graph_Store
begin

section \<open>The graph in memory and the rows of its actions\<close>

text \<open>
  The executor's contract with its store, as the locale \<open>persistent\<close>: a transition that is
  accepted has written the node's row, which was not terminal before; one that is rejected
  has written that row or nothing. From it follows that the rows of the actions are the
  nodes of the graph for as long as the run has no error, whatever steps are taken. The SQL
  adapter of \<open>Graph_Store\<close> satisfies the contract.
\<close>

type_synonym persisted = "status \<times> int \<times> int \<times> bytes \<times> string \<times> time option"

definition nextOf :: "time \<Rightarrow> time option" where
  "nextOf t = (if t = zeroTime then None else Some t)"

definition nodeRow :: "node \<Rightarrow> persisted" where
  "nodeRow n = (graphStatus (nstate n), attempt n, failures n, noutput n, nerror n, nextOf (nextAttemptAt n))"

definition storedRow :: "transition \<Rightarrow> persisted" where
  "storedRow x = (graphStatus (t_state x), t_attempt x, t_failures x, t_output x, t_error x, nextOf (t_next x))"

lemma storedRow_of [simp]: "storedRow (transitionOf s old n) = nodeRow n"
  by (simp add: storedRow_def transitionOf_def nodeRow_def)

lemma t_node_of [simp]: "t_node (transitionOf s old n) = nodeID n"
  by (simp add: transitionOf_def)

definition agrees :: "('db \<Rightarrow> uuid \<Rightarrow> persisted option) \<Rightarrow> 'db exec \<Rightarrow> uuid \<Rightarrow> bool" where
  "agrees row s i \<longleftrightarrow> (\<exists>n. nodes s i = Some n \<and> row (db s) i = Some (nodeRow n))"

text \<open>Every node that agreed with its row still does, unless the run has an error.\<close>

definition carried :: "'db store \<Rightarrow> ('db \<Rightarrow> uuid \<Rightarrow> persisted option) \<Rightarrow> 'db exec \<Rightarrow> 'db exec \<Rightarrow> bool" where
  "carried store row s s' \<longleftrightarrow> opts s' = opts s \<and>
     (o_store (opts s) = Some store \<longrightarrow> err s' = None \<longrightarrow>
        err s = None \<and> (\<forall>i. agrees row s i \<longrightarrow> agrees row s' i))"

locale persistent =
  fixes store :: "'db store"
    and row :: "'db \<Rightarrow> uuid \<Rightarrow> persisted option"
  assumes accepted: "store d ce x = (None, d') \<Longrightarrow>
      row d' = (row d)(t_node x \<mapsto> storedRow x) \<and>
      (\<exists>p. row d (t_node x) = Some p \<and> \<not> ended (fst p))"
    and rejected: "store d ce x = (Some e, d') \<Longrightarrow>
      row d' = row d \<or> row d' = (row d)(t_node x \<mapsto> storedRow x)"
begin

lemma commit_accepted:
  assumes "commitLocked c n s = (None, s')" and "o_store (opts s) = Some store"
  shows "row (db s') = (row (db s))(nodeID n \<mapsto> nodeRow n) \<and>
    nodes s' = (nodes s)(nodeID n \<mapsto> n) \<and> err s = None \<and>
    (\<exists>p. row (db s) (nodeID n) = Some p \<and> \<not> ended (fst p))"
  using assms accepted commit_ok(1,2) [OF assms(1)]
  by (fastforce simp: commitLocked_def split: option.splits prod.splits)

lemma commit_rejected:
  assumes "commitLocked c n s = (Some e, s')"
  shows "s' = s \<or> err s' \<noteq> None"
  using assms by (auto simp: commitLocked_def split: option.splits prod.splits)

lemma commit_carried: "commitLocked c n s = (r, s') \<Longrightarrow> carried store row s s'"
proof (cases r)
  case None
  assume c: "commitLocked c n s = (r, s')"
  show ?thesis
    using commit_accepted [of c n s s'] c None commit_frame(3) [OF c]
    by (auto simp: carried_def agrees_def)
next
  case (Some e)
  assume c: "commitLocked c n s = (r, s')"
  with Some commit_rejected [of c n s e s'] commit_frame(3) [OF c] show ?thesis
    by (auto simp: carried_def)
qed

text \<open>A node cannot be committed again once it has been committed in a terminal state.\<close>

lemma ended_graphStatus [simp]: "ended (graphStatus x) = Terminal x"
  by (cases x) (simp_all add: ended_def Terminal_def)

lemma commit_once:
  assumes "commitLocked c n s = (None, s1)" and "o_store (opts s) = Some store" and "Terminal (nstate n)"
    and "nodeID m = nodeID n" and "commitLocked c' m s1 = (r, s2)"
  shows "err s2 \<noteq> None"
proof -
  note a = commit_accepted [OF assms(1,2)]
  have o: "o_store (opts s1) = Some store" using commit_frame(3) [OF assms(1)] assms(2) by simp
  show ?thesis
  proof (cases r)
    case None
    from commit_accepted [OF assms(5) [unfolded None] o] a assms(3,4) show ?thesis
      by (simp add: nodeRow_def)
  next
    case (Some e)
    have "nodeID m \<in> dom (nodes s1)" using a assms(4) by simp
    from commit_err [OF assms(5) [unfolded Some] this] show ?thesis .
  qed
qed

end

sublocale persistent \<subseteq> cf: commit_frame "carried store row"
proof unfold_locales
  show "carried store row s s'"
    if "nodes s' = nodes s" "db s' = db s" "err s' = err s" "opts s' = opts s" for s s'
    using that by (simp add: carried_def agrees_def)
  show "carried store row s v" if "carried store row s u" "carried store row u v" for s u v
    using that by (simp add: carried_def)
  show "carried store row s s'" if "commitLocked c n s = (r, s')" for c n s r s'
    using that by (rule commit_carried)
  show "carried store row s (putNode n s)" if "nodeID n \<notin> dom (nodes s)" "err s = None" for n s
    using that by (auto simp: carried_def agrees_def)
qed

subsection \<open>The SQL adapter satisfies the contract\<close>

definition persistedOf :: "action_row \<Rightarrow> persisted" where
  "persistedOf a = (a_status a, a_attempts a, a_failures a, a_output a, a_error a, a_next a)"

definition actionRow :: "world \<Rightarrow> uuid \<Rightarrow> persisted option" where
  "actionRow w i = map_option persistedOf (t_actions (tabs w) i)"

lemma sameActions_row: "sameActions (tabs w) (tabs w') \<Longrightarrow> actionRow w' = actionRow w"
  by (rule ext) (simp add: actionRow_def sameActions_def)

lemma transitioned_row:
  assumes "transitioned x stamp (tabs w) (tabs w')"
  shows "actionRow w' = (actionRow w)(t_node x \<mapsto> storedRow x) \<and>
    (\<exists>p. actionRow w (t_node x) = Some p \<and> \<not> ended (fst p))"
proof -
  from assms obtain a where a: "t_actions (tabs w) (t_node x) = Some a" "\<not> ended (a_status a)"
    by (auto simp: transitioned_def transitionFits_def split: option.splits)
  moreover have "persistedOf (transitionRow x stamp a) = storedRow x"
    by (simp add: persistedOf_def transitionRow_def storedRow_def nextOf_def)
  ultimately show ?thesis
    using assms by (auto simp: actionRow_def transitioned_def fun_eq_iff persistedOf_def)
qed

interpretation gst: persistent "graphStore L C s" actionRow for L C s
proof unfold_locales
  show "actionRow d' = (actionRow d)(t_node x \<mapsto> storedRow x) \<and>
      (\<exists>p. actionRow d (t_node x) = Some p \<and> \<not> ended (fst p))"
    if "graphStore L C s d ce x = (None, d')" for d ce x d'
    using graphStore_cases [OF that] transitioned_row by auto
  show "actionRow d' = actionRow d \<or> actionRow d' = (actionRow d)(t_node x \<mapsto> storedRow x)"
    if "graphStore L C s d ce x = (Some e, d')" for d ce x e d'
    using graphStore_cases [OF that] transitioned_row sameActions_row by blast
qed

end
