(* ===== verification/Graph_Persist_Properties.thy ===== *)
theory Graph_Persist_Properties
  imports Graph_Persist
begin

section \<open>Properties of the store\<close>

text \<open>
  What the executor and its SQL adapter guarantee together about the rows of the actions:
  fencing by lease, attempt and terminal state; agreement of memory and rows; and how the
  executor fails when a node has two failed prerequisites.
\<close>

definition demoCodecs :: codecs where
  "demoCodecs = \<lparr>marshalRun = (\<lambda>_. Inr [1]), unmarshalRun = (\<lambda>_. Inl noRows), marshalAction = (\<lambda>_. Inr [1]),
     unmarshalAction = (\<lambda>_. Inl noRows), specMaxAttempts = (\<lambda>_. Inr 1), formatTime = (\<lambda>_. []),
     parseTime = (\<lambda>_. None)\<rparr>"

definition storeLib :: lib where
  "storeLib = \<lparr>uuidString = (\<lambda>i. []), uuidParse = (\<lambda>s. None), cborWellformed = (\<lambda>_. True)\<rparr>"

definition storeLog :: logService where
  "storeLog = \<lparr>hasDB = True, hasStore = False, bucket = [], inlineLimit = 0, maxRecord = 0,
     maxBatch = 0, tailBatchSize = 0, maxResponseBuffer = 0\<rparr>"

definition storeRow :: action_row where
  "storeRow = \<lparr>a_run = 7, a_caller = None, a_entry = 0, a_spec = [], a_output = [], a_status = Queued,
     a_error = [], a_attempts = 0, a_failures = 0, a_next = None, a_updated = 0,
     a_env = 4, a_created = 0\<rparr>"

text \<open>Run 7, claimed with token 8 until 100; its actions 1 to 3.\<close>

definition storeWorld :: world where
  "storeWorld = \<lparr>tabs = emptyTables\<lparr>t_runs := [7 \<mapsto> (newRun 5 0)\<lparr>r_token := Some 8, r_lease := 100\<rparr>],
       t_actions := [1 \<mapsto> storeRow, 2 \<mapsto> storeRow, 3 \<mapsto> storeRow]\<rparr>,
     objects = Map.empty, clock = 1, ids = of_nat, drawn = 0, faults = (\<lambda>_. None),
     landed = (\<lambda>_. False), calls = 0\<rparr>"

definition storeOpts :: "world opts" where
  "storeOpts = \<lparr>o_run = 7, o_token = 8, o_slots = 1, o_pool = None, o_clock = int,
     o_store = Some (graphStore storeLib demoCodecs storeLog),
     o_hasRunner = True, o_hasImages = False, o_hasCache = False, o_backoff = None\<rparr>"

definition storeNode :: "uuid \<Rightarrow> state \<Rightarrow> uuid list \<Rightarrow> node" where
  "storeNode i st ps = \<lparr>nodeID = i, parentID = None, attempt = 0, failures = 0, maxAttempts = 1,
     nstate = st, waitingOn = NoWait, imageKey = [], noutput = [], cacheKey = [], cacheHit = False,
     nerror = [], nextAttemptAt = zeroTime, prerequisites = ps\<rparr>"

lemmas store_defs = emptyTables_def newRun_def demoCodecs_def storeLib_def storeLog_def storeRow_def storeWorld_def storeOpts_def
  storeNode_def

subsection \<open>Fencing\<close>

text \<open>
  C18: Whatever fails while a transition is written, it changes the row of its own action
  only, and that row only if the executor still holds the run's lease under its own token,
  the row's attempt is the one the executor expects, and the row is not terminal: a worker
  that lost its lease, a stale attempt and a finished action can never be overwritten.
\<close>

theorem transition_fenced:
  assumes "Transition L C s x w = (r, w')"
    and "t_actions (tabs w') i \<noteq> t_actions (tabs w) i"
  shows "i = t_node x \<and>
    (\<exists>a run. t_actions (tabs w) i = Some a \<and> t_runs (tabs w) (t_run x) = Some run \<and>
       a_run a = t_run x \<and> r_token run = Some (t_token x) \<and> clock w < r_lease run \<and>
       a_attempts a = t_expected x \<and> \<not> ended (a_status a) \<and>
       t_actions (tabs w') i = Some (transitionRow x (clock w) a))"
  using Transition_cases [OF assms(1)] assms(2)
  by (auto simp: sameActions_def transitioned_def transitionFits_def split: option.splits if_splits)

definition storeTransition :: transition where
  "storeTransition = \<lparr>t_run = 7, t_token = 8, t_node = 1, t_from = Ready, t_state = Running, t_waitingOn = NoWait,
     t_attempt = 1, t_failures = 0, t_expected = 0, t_output = [], t_error = [], t_at = 1, t_next = 0,
     t_cacheHit = False\<rparr>"

lemmas store_run = Transition_def transitionTx_def transaction_def one_def query_def stmt_def andThen_def
  call_def AppendActionStatus_def transitionRunTaskAction_def transitionFits_def transitionRow_def ended_def

theorem transition_fenced_witness:
  "1 = t_node storeTransition \<and>
   (\<exists>a run. t_actions (tabs storeWorld) 1 = Some a \<and> t_runs (tabs storeWorld) (t_run storeTransition) = Some run \<and>
       a_run a = t_run storeTransition \<and> r_token run = Some (t_token storeTransition) \<and>
       clock storeWorld < r_lease run \<and>
       a_attempts a = t_expected storeTransition \<and> \<not> ended (a_status a) \<and>
       t_actions (tabs (snd (Transition storeLib demoCodecs storeLog storeTransition storeWorld))) 1 =
         Some (transitionRow storeTransition (clock storeWorld) a))"
  by (rule transition_fenced [OF surjective_pairing])
    (simp add: store_run store_defs storeTransition_def)

subsection \<open>Memory and rows agree\<close>


definition storeConfig :: "world config" where
  "storeConfig = \<lparr>ex = New [storeNode 1 Pending []] storeOpts storeWorld, ths = [], drv = DIdle, others = 0\<rparr>"

definition storeCancelled :: "world config" where
  "storeCancelled = storeConfig\<lparr>ex := Cancel [1] (ex storeConfig)\<rparr>"

lemma storeWorld_accepts:
  assumes "t_run x = 7" "t_token x = 8" "t_node x = 1" "t_expected x = 0" "\<not> t_cacheHit x"
  shows "graphStore storeLib demoCodecs storeLog storeWorld False x = (None, storeWorld\<lparr>calls := 5,
    tabs := (tabs storeWorld)\<lparr>t_actions := (t_actions (tabs storeWorld))(1 \<mapsto> transitionRow x 1 storeRow)\<rparr>\<rparr>)"
  using assms by (simp add: graphStore_def store_run store_defs)

lemma storeConfig_exec:
  "nodes (ex storeConfig) = [1 \<mapsto> storeNode 1 Pending []]" "opts (ex storeConfig) = storeOpts"
  "err (ex storeConfig) = None" "db (ex storeConfig) = storeWorld" "actives (ex storeConfig) = Map.empty"
  "started (ex storeConfig) = False"
  by (simp_all add: storeConfig_def New_def storeNode_def orPending_def)

lemma storeCancelled_exec:
  "nodes (ex storeCancelled) 1 = Some ((storeNode 1 Pending [])\<lparr>nstate := Canceled, nerror := ''run canceled''\<rparr>)"
  "err (ex storeCancelled) = None"
proof -
  have n: "nodes (ex storeConfig) 1 = Some (storeNode 1 Pending [])" by (simp add: storeConfig_exec)
  have st: "o_store storeOpts = Some (graphStore storeLib demoCodecs storeLog)" by (simp add: storeOpts_def)
  obtain w' where "graphStore storeLib demoCodecs storeLog storeWorld False
      (transitionOf (ex storeConfig) (storeNode 1 Pending [])
         ((storeNode 1 Pending [])\<lparr>nstate := Canceled, waitingOn := NoWait, nerror := ''run canceled''\<rparr>)) =
    (None, w')"
    using storeWorld_accepts [of "transitionOf (ex storeConfig) (storeNode 1 Pending [])
         ((storeNode 1 Pending [])\<lparr>nstate := Canceled, waitingOn := NoWait, nerror := ''run canceled''\<rparr>)"]
    by (simp add: transitionOf_def storeConfig_exec storeOpts_def storeNode_def)
  then show "nodes (ex storeCancelled) 1 = Some ((storeNode 1 Pending [])\<lparr>nstate := Canceled, nerror := ''run canceled''\<rparr>)"
    "err (ex storeCancelled) = None"
    using n by (simp_all add: storeCancelled_def Cancel_def closeLocked_def closeTargets_def cancelExec_def
        commitLocked_def storeConfig_exec st cancelActive_def storeNode_def)
qed


subsection \<open>What is published\<close>

text \<open>
  C20: A transition of an action that another action called, once it has succeeded, is on
  the run's status stream: the next record of the log is keyed by the action, and what the
  API decodes from it (\<open>DecodeActionStatus\<close>) is the status, attempt, error and cache flag
  that the transition wrote. CBOR is assumed to read back what it wrote when the error text
  is valid, the time format to parse, and uuids to parse back.
\<close>

theorem status_published:
  assumes "Transition L C s x w = (Inr (), w')"
    and "t_actions (tabs w) (t_node x) = Some a" and "a_caller a = Some c"
    and cbor: "\<And>ev v. valid (ae_error ev) \<Longrightarrow> marshalAction C ev = Inr v \<Longrightarrow> unmarshalAction C v = Inr ev"
    and rfc: "\<And>t. parseTime C (formatTime C t) = None"
    and uuids: "\<And>i. uuidParse L (uuidString L i) = Some i"
    and "valid (t_error x)"
  shows "\<exists>r rest v ev. t_records (tabs w') = t_records (tabs w) @ r # rest \<and>
    rowOf (t_run x) StatusStream (bytesOf (uuidString L (t_node x)), v) r \<and>
    DecodeActionStatus L C v = Inr ev \<and> ae_action ev = uuidString L (t_node x) \<and>
    ae_status ev = statusName (graphStatus (t_state x)) \<and> ae_attempt ev = t_attempt x \<and>
    ae_error ev = t_error x \<and> ae_hit ev = t_cacheHit x"
proof -
  obtain run and v u z :: world where "t_runs (tabs w) (t_run x) = Some run"
    and up: "transitioned x (clock w) (tabs w) (tabs v)" and vr: "t_records (tabs v) = t_records (tabs w)"
    and ap: "AppendActionStatus L C s (t_node x) (t_cacheHit x) v = (Inr (), u)"
    and fin: "(if r_root run = Some (t_node x) then AppendStatus L C s (t_run x) else ret ()) u = (Inr (), z)"
    and w': "tabs w' = tabs z" by (rule Transition_Inr [OF assms(1)])
  let ?a = "transitionRow x (clock w) a"
  have row: "t_actions (tabs v) (t_node x) = Some ?a" and run: "a_run ?a = t_run x"
    and rec: "a_caller ?a \<noteq> None"
    using up assms(2,3) by (auto simp: transitioned_def transitionFits_def transitionRow_def split: option.splits)
  obtain most e where e: "marshalAction C (actionEventOf L C (t_node x) ?a (t_cacheHit x) most) = Inr e"
    and "published (a_run ?a) (bytesOf (uuidString L (t_node x))) e (tabs v) (tabs u)"
    by (rule AppendActionStatus_Inr [OF ap row rec])
  with run have p: "published (t_run x) (bytesOf (uuidString L (t_node x))) e (tabs v) (tabs u)" by simp
  let ?ev = "actionEventOf L C (t_node x) ?a (t_cacheHit x) most"
  obtain rest where rest: "t_records (tabs z) = t_records (tabs u) @ rest"
  proof (cases "r_root run = Some (t_node x)")
    case True
    with fin AppendStatus_Inr [of L C s "t_run x" u "()" z] that show thesis by (auto simp: published_def)
  qed (use fin that in simp)
  have f: "ae_error ?ev = t_error x" "ae_status ?ev = statusName (graphStatus (t_state x))"
    "ae_attempt ?ev = t_attempt x" "ae_action ?ev = uuidString L (t_node x)" "ae_hit ?ev = t_cacheHit x"
    by (simp_all add: actionEventOf_def transitionRow_def)
  have "statusName (graphStatus (t_state x)) \<in> set statusNames"
    by (cases "graphStatus (t_state x)") (simp_all add: statusNames_def)
  moreover have "unmarshalAction C e = Inr ?ev" using cbor [OF _ e] assms(7) f(1) by simp
  ultimately have d: "DecodeActionStatus L C e = Inr ?ev"
    using f(2) by (simp add: DecodeActionStatus_def) (simp add: actionEventOf_def rfc uuids split: option.split)
  from p obtain r where "t_records (tabs u) = t_records (tabs v) @ [r]"
    "rowOf (t_run x) StatusStream (bytesOf (uuidString L (t_node x)), e) r" by (auto simp: published_def)
  with rest w' vr d f show ?thesis
    by (intro exI [of _ r] exI [of _ rest] exI [of _ e] exI [of _ ?ev]) simp
qed

text \<open>A codec that knows one event, and a run whose action 1 was called by action 2.\<close>

definition pubEvent :: actionEvent where
  "pubEvent = \<lparr>ae_type = ''task.status.v1'', ae_action = ''a'', ae_caller = replicate 2 CHR ''a'', ae_entry = 0,
     ae_status = ''running'', ae_attempt = 1, ae_error = [], ae_updated = [], ae_max = 1, ae_hit = False\<rparr>"

definition pubCodecs :: codecs where
  "pubCodecs = demoCodecs\<lparr>marshalAction := (\<lambda>ev. if ev = pubEvent then Inr [1] else Inl noRows),
     unmarshalAction := (\<lambda>_. Inr pubEvent)\<rparr>"

definition pubLib :: lib where
  "pubLib = \<lparr>uuidString = (\<lambda>i. replicate (unat i) CHR ''a''), uuidParse = (\<lambda>s. Some (of_nat (length s))),
     cborWellformed = (\<lambda>_. True)\<rparr>"

definition pubWorld :: world where
  "pubWorld = storeWorld\<lparr>tabs := (tabs storeWorld)\<lparr>t_actions := [1 \<mapsto> storeRow\<lparr>a_caller := Some 2\<rparr>]\<rparr>\<rparr>"

definition pubAfter :: world where
  "pubAfter = snd (Transition pubLib pubCodecs storeLog storeTransition pubWorld)"

lemma pub_transition: "Transition pubLib pubCodecs storeLog storeTransition pubWorld = (Inr (), pubAfter)"
proof -
  have "streamOK StatusStream" by (simp add: streamOK_def StatusStream_def letters_def)
  moreover have "marshalAction pubCodecs pubEvent = Inr [1]" "specMaxAttempts pubCodecs [] = Inr 1"
    by (simp_all add: pubCodecs_def demoCodecs_def)
  moreover have "actionEventOf pubLib pubCodecs 1 (transitionRow storeTransition 1 (storeRow\<lparr>a_caller := Some 2\<rparr>)) False 1 = pubEvent"
    by (simp add: actionEventOf_def pubLib_def pubCodecs_def store_defs storeTransition_def transitionRow_def
        zeroTime_def pubEvent_def)
  ultimately show ?thesis
    by (simp add: pubAfter_def store_run storeTransition_def pubWorld_def storeLog_def storeRow_def
        storeWorld_def emptyTables_def newRun_def zeroTime_def orError_def AppendTx_def lockStream_def appendNew_def Let_def mapErr_def
        limits_def wrap64_def createLogStream_def insertLogRecord_def updateNextSeq_def pubLib_def bytesOf_def)
qed

theorem status_published_witness:
  "\<exists>r rest v ev. t_records (tabs pubAfter) = t_records (tabs pubWorld) @ r # rest \<and>
    rowOf 7 StatusStream (bytesOf ''a'', v) r \<and>
    DecodeActionStatus pubLib pubCodecs v = Inr ev \<and> ae_action ev = ''a'' \<and>
    ae_status ev = ''running'' \<and> ae_attempt ev = 1 \<and> ae_error ev = [] \<and> ae_hit ev = False"
proof -
  have "marshalAction pubCodecs ev = Inr v \<Longrightarrow> unmarshalAction pubCodecs v = Inr ev" for ev v
    by (auto simp: pubCodecs_def split: if_splits)
  from status_published [OF pub_transition, of "storeRow\<lparr>a_caller := Some 2\<rparr>" 2 "\<lambda>_. True", OF _ _ this]
  show ?thesis
    by (simp add: storeTransition_def pubWorld_def pubCodecs_def demoCodecs_def pubLib_def)
qed

subsection \<open>Two failed prerequisites\<close>

text \<open>
  A pending node with two failed prerequisites breaks the run: \<open>dispatchLocked\<close> fails
  the node once per prerequisite, the store rejects the second transition because the row
  is terminal by then, and the run stops with an error (\<open>ErrLeaseLost\<close>) although nothing
  went wrong, instead of going on with the node failed.
\<close>

theorem two_failed_prerequisites:
  assumes "o_store (opts s) = Some (graphStore L C sv)" and "err s = None"
    and "nodes s i = Some n" and "nodeID n = i" and "nstate n = Pending" and "\<not> now s < nextAttemptAt n"
    and "prerequisites n = [p, q]"
    and "nodes s p = Some a" and "nstate a = Failed" and "nodes s q = Some b" and "nstate b = Failed"
  shows "\<exists>pr' s'. dispatchRound (i # is) pr sp s = (True, pr', sp, s') \<and> err s' \<noteq> None"
proof -
  obtain r1 s1 where c1: "commitLocked (cancelled s) (failPrereq n) (tick s) = (r1, s1)" by fastforce
  have d: "nodeID (failPrereq n) \<in> dom (nodes (tick s))" using assms(3,4) by auto
  show ?thesis
  proof (cases r1)
    case (Some e)
    from commit_err [OF c1 [unfolded Some] d] assms c1 Some show ?thesis by simp
  next
    case None
    obtain r2 s2 where c2: "commitLocked (cancelled s1) (failPrereq n) s1 = (r2, s2)" by fastforce
    have e2: "err s2 \<noteq> None"
      by (rule gst.commit_once [OF c1 [unfolded None] _ _ refl c2]) (use assms(1) in simp_all)
    with commit_ok(3) [of "cancelled s1" "failPrereq n" s1 s2] c2 obtain e where r2: "r2 = Some e"
      by (cases r2) auto
    have "nodes s1 q = Some b"
      using commit_ok(1) [OF c1 [unfolded None]] assms by auto
    with assms c1 None c2 r2 e2 show ?thesis by (simp add: exI [of "\<lambda>x. x" True])
  qed
qed

definition failedConfig :: "world exec" where
  "failedConfig = New [storeNode 1 Failed [], storeNode 2 Failed [], storeNode 3 Pending [1, 2]] storeOpts storeWorld"

theorem two_failed_prerequisites_witness:
  "\<exists>pr' s'. dispatchRound [3, 1, 2] False [] failedConfig = (True, pr', [], s') \<and> err s' \<noteq> None"
  by (rule two_failed_prerequisites [where n = "storeNode 3 Pending [1, 2]" and p = 1 and q = 2
        and a = "storeNode 1 Failed []" and b = "storeNode 2 Failed []"])
    (simp_all add: failedConfig_def New_def store_defs orPending_def now_def zeroTime_def)

end
