(* ===== verification/Environment_Properties.thy ===== *)
theory Environment_Properties
  imports Environments
begin

section \<open>Properties of environment declarations\<close>

text \<open>
  The normal form of a declaration is canonical: it does not depend on the order in which
  the dependencies are listed, and normalizing it again changes nothing. The version, a
  hash of its encoding, therefore identifies the declaration.
\<close>

lemma normal_order:
  assumes "normalizeEnvironment L E (Some spec) = Inr n" and "mset deps = mset (es_deps spec)"
  shows "normalizeEnvironment L E (Some (spec\<lparr>es_deps := deps\<rparr>)) = Inr n"
proof -
  from assms(1) show ?thesis
  proof (rule normalize_Inr)
    fix im digest ctx v
    assume a: "validUUID L (es_ns spec)" "namespaceOK (es_name spec)"
      "ParseURI (es_source spec) = Inr (digest, archiveMIME)" "es_source spec = sourceURI digest"
      "es_image spec = Some im" "validateProvider im = Inr ctx"
      "\<not> (length (im_reference im) > 2048 \<or> CHR 0x00 \<in> set (im_reference im))"
      "\<not> (cpuOf im > 1000000 \<or> memoryOf im > 1125899906842624)"
      "\<not> (\<exists>kv\<in>set (im_env im). badVariable kv)"
      "\<not> (length (im_env im) > 128 \<or> sumLength (map (\<lambda>(k, v). k @ v) (im_env im)) > 65536 \<or>
         length (es_deps spec) > 128)"
      "validateEntrypoints (es_entries spec) = None"
      and d: "validateDeps L (es_ns spec) {es_name spec} (es_deps spec) = None"
      and p: "protoSpec E (normalSpec spec im digest) = Inr v"
      and n: "n = \<lparr>ne_spec = normalSpec spec im digest, ne_bytes = v, ne_source = digest, ne_context = ctx\<rparr>"
    have len: "length deps = length (es_deps spec)" and set: "set deps = set (es_deps spec)"
      using assms(2) by (metis size_mset, metis set_mset_mset)
    have dist: "distinct (map depName (es_deps spec))" using d by (simp add: validateDeps_None)
    moreover have "mset (map depName deps) = mset (map depName (es_deps spec))" using assms(2) by simp
    ultimately have "distinct (map depName deps)" by (metis mset_eq_imp_distinct_iff)
    with d set have "validateDeps L (es_ns spec) {es_name spec} deps = None" by (simp add: validateDeps_None)
    moreover have same: "normalSpec (spec\<lparr>es_deps := deps\<rparr>) im digest = normalSpec spec im digest"
      using sort_deps [OF assms(2) dist] by (simp add: normalSpec_def)
    ultimately show ?thesis
      using normalizeI [of L "spec\<lparr>es_deps := deps\<rparr>" digest im ctx E v] a p n len by simp
  qed
qed

lemma normal_fixpoint:
  assumes "normalizeEnvironment L E (Some spec) = Inr n"
  shows "normalizeEnvironment L E (Some (ne_spec n)) = Inr n"
  using assms
proof (rule normalize_Inr)
  fix im digest ctx v
  let ?s = "spec\<lparr>es_deps := sort_key depName (es_deps spec)\<rparr>"
  let ?im = "im\<lparr>im_cpu := cpuOf im, im_memory := memoryOf im\<rparr>"
  have o: "normalizeEnvironment L E (Some ?s) = Inr n" by (rule normal_order [OF assms]) simp
  assume src: "es_source spec = sourceURI digest" and im: "es_image spec = Some im"
    and n: "n = \<lparr>ne_spec = normalSpec spec im digest, ne_bytes = v, ne_source = digest, ne_context = ctx\<rparr>"
  have ne: "ne_spec n = ?s\<lparr>es_image := Some ?im\<rparr>"
    using n src by (simp add: normalSpec_def)
  have again: "normalSpec (?s\<lparr>es_image := Some ?im\<rparr>) ?im d = normalSpec ?s im d" for d
    by (simp add: normalSpec_def)
  from o show ?thesis
  proof (rule normalize_Inr)
    fix im' digest' ctx' v'
    assume b: "validUUID L (es_ns ?s)" "namespaceOK (es_name ?s)"
      "ParseURI (es_source ?s) = Inr (digest', archiveMIME)" "es_source ?s = sourceURI digest'"
      "es_image ?s = Some im'" "validateProvider im' = Inr ctx'"
      "\<not> (length (im_reference im') > 2048 \<or> CHR 0x00 \<in> set (im_reference im'))"
      "\<not> (cpuOf im' > 1000000 \<or> memoryOf im' > 1125899906842624)"
      "\<not> (\<exists>kv\<in>set (im_env im'). badVariable kv)"
      "\<not> (length (im_env im') > 128 \<or> sumLength (map (\<lambda>(k, v). k @ v) (im_env im')) > 65536 \<or>
         length (es_deps ?s) > 128)"
      "validateEntrypoints (es_entries ?s) = None"
      "validateDeps L (es_ns ?s) {es_name ?s} (es_deps ?s) = None"
      "protoSpec E (normalSpec ?s im' digest') = Inr v'"
      "n = \<lparr>ne_spec = normalSpec ?s im' digest', ne_bytes = v', ne_source = digest', ne_context = ctx'\<rparr>"
    have "im' = im" using b(5) im by simp
    with b again [of digest'] show ?thesis
      unfolding ne using normalizeI [of L "?s\<lparr>es_image := Some ?im\<rparr>" digest' ?im ctx' E v'] by simp
  qed
qed

text \<open>
  C21: Declarations that list the same dependencies in different orders have the same
  normal form, and normalizing a normal form gives it back, with the same encoding: a
  declaration registered twice, in whatever order, or as the service returned it, has one
  version.
\<close>

theorem normalize_canonical:
  assumes "normalizeEnvironment L E (Some spec) = Inr n" and "mset deps = mset (es_deps spec)"
  shows "normalizeEnvironment L E (Some (spec\<lparr>es_deps := deps\<rparr>)) = Inr n \<and>
    normalizeEnvironment L E (Some (ne_spec n)) = Inr n"
  using normal_order [OF assms] normal_fixpoint [OF assms(1)] by simp

definition envLib :: lib where
  "envLib = \<lparr>uuidString = (\<lambda>_. []), uuidParse = (\<lambda>_. Some 5), cborWellformed = (\<lambda>_. True)\<rparr>"

definition envCodec :: encodings where
  "envCodec = \<lparr>protoSpec = (\<lambda>s. Inr [of_nat (length (es_deps s))]), unprotoSpec = (\<lambda>_. Inl constraint),
     protoAction = (\<lambda>_. Inr []), unprotoAction = (\<lambda>_. Inl constraint), cborVersion = Inr,
     cborImage = (\<lambda>_ _ _ _. Inr []), cborInput = (\<lambda>_. None), cborList = (\<lambda>_. False), cborMap = (\<lambda>_. False),
     readTime = (\<lambda>_. None)\<rparr>"

definition envDep :: "string \<Rightarrow> envID option" where
  "envDep name = Some \<lparr>id_ns = ''n'', id_name = name, id_version = replicate 64 CHR ''a''\<rparr>"

definition envDemo :: "envID option list \<Rightarrow> envSpec" where
  "envDemo deps = \<lparr>es_ns = ''n'', es_name = ''app'', es_source = sourceURI (replicate 32 0),
     es_image = Some (noImage\<lparr>im_name := ''docker'', im_reference := ''img''\<rparr>), es_deps = deps,
     es_entries = [Some \<lparr>en_command = Some [''run''], en_attempts = 3, en_cache = True, en_version = ''1.0.0-rc.1+b''\<rparr>]\<rparr>"

lemma parse_source: "length d = 32 \<Longrightarrow> ParseURI (sourceURI d) = Inr (d, archiveMIME)"
proof -
  assume d: "length d = 32"
  have "trimSpace archiveMIME \<noteq> []" by code_simp
  moreover have "trimSuffix (trimSuffix archiveMIME '';resolve'') '';resolve=true'' = archiveMIME"
    by (simp add: trimSuffix_def archiveMIME_def)
  moreover have "parseMediaTypeOK archiveMIME" by code_simp
  moreover have "CHR '','' \<notin> set archiveMIME" by code_simp
  ultimately show ?thesis
    using ParseURI_URI [OF d, of archiveMIME] by (simp add: sourceURI_def)
qed

theorem normalize_canonical_witness:
  "\<exists>n. normalizeEnvironment envLib envCodec (Some (envDemo [envDep ''b'', envDep ''a''])) = Inr n \<and>
     normalizeEnvironment envLib envCodec (Some (envDemo [envDep ''a'', envDep ''b''])) = Inr n \<and>
     normalizeEnvironment envLib envCodec (Some (ne_spec n)) = Inr n"
proof -
  have source: "ParseURI (sourceURI (replicate 32 0)) = Inr (replicate 32 0, archiveMIME)"
    by (rule parse_source) simp
  have ids: "validUUID envLib s" for s by (simp add: validUUID_def envLib_def nilUUID_def)
  have dep: "validateEnvironmentIdentifier envLib (envDep ''a'') = None"
    "validateEnvironmentIdentifier envLib (envDep ''b'') = None"
    by (simp_all add: validateEnvironmentIdentifier_def envDep_def ids, code_simp+)
  let ?im = "noImage\<lparr>im_name := ''docker'', im_reference := ''img''\<rparr>"
  let ?ba = "envDemo [envDep ''b'', envDep ''a'']"
  have a: "validUUID envLib (es_ns ?ba)" by (rule ids)
  have b: "namespaceOK (es_name ?ba)" by code_simp
  have c: "ParseURI (es_source ?ba) = Inr (replicate 32 0, archiveMIME)" "es_source ?ba = sourceURI (replicate 32 0)"
    "es_image ?ba = Some ?im" using source by (simp_all add: envDemo_def)
  have d: "validateProvider ?im = Inr []" by code_simp
  have e: "\<not> (length (im_reference ?im) > 2048 \<or> CHR 0x00 \<in> set (im_reference ?im))"
    "\<not> (cpuOf ?im > 1000000 \<or> memoryOf ?im > 1125899906842624)"
    "\<not> (\<exists>kv\<in>set (im_env ?im). badVariable kv)"
    "\<not> (length (im_env ?im) > 128 \<or> sumLength (map (\<lambda>(k, v). k @ v) (im_env ?im)) > 65536 \<or> length (es_deps ?ba) > 128)"
    by (simp_all add: noImage_def cpuOf_def memoryOf_def sumLength_def envDemo_def)
  have f: "validateEntrypoints (es_entries ?ba) = None" by code_simp
  have g: "validateDeps envLib (es_ns ?ba) {es_name ?ba} (es_deps ?ba) = None"
    using dep by (simp add: envDemo_def) (simp add: envDep_def)
  have h: "protoSpec envCodec (normalSpec ?ba ?im (replicate 32 0)) = Inr [of_nat (length (es_deps (normalSpec ?ba ?im (replicate 32 0))))]"
    by (simp add: envCodec_def)
  have n: "\<exists>n. normalizeEnvironment envLib envCodec (Some ?ba) = Inr n"
    using normalizeI [OF a b c d e f g h] by blast
  then obtain n where n: "normalizeEnvironment envLib envCodec (Some ?ba) = Inr n" ..
  have "?ba\<lparr>es_deps := [envDep ''a'', envDep ''b'']\<rparr> = envDemo [envDep ''a'', envDep ''b'']"
    by (simp add: envDemo_def)
  moreover have "mset [envDep ''a'', envDep ''b''] = mset (es_deps ?ba)" by (simp add: envDemo_def)
  ultimately show ?thesis using n normalize_canonical [OF n] by metis
qed

end
