(* ===== verification/Service_Frame.thy ===== *)
theory Service_Frame
  imports Runs
begin

section \<open>What the services keep of the database\<close>

text \<open>
  \<open>kept\<close>: rows are only added, what identifies a run, an action or an environment never
  changes, a run's root is set once, a terminal action is never written again, and a run whose
  root is over gets no new actions. \<open>dbOK\<close>:
  every run has one root action, every other action was called by an action of the same run
  that was there before it, the environments are those of the run's namespace, the keys lead
  to rows that match them, and the edges are the calls. The operations of \<open>Runs\<close> keep both.
\<close>

subsection \<open>Appends\<close>

definition sameOther :: "tables \<Rightarrow> tables \<Rightarrow> bool" where
  "sameOther t t' \<longleftrightarrow> otherTables t' = otherTables t"

lemma sameOther_fields:
  assumes "sameOther t t'"
  shows "t_runs t' = t_runs t" "t_actions t' = t_actions t" "t_envs t' = t_envs t" "t_envKeys t' = t_envKeys t"
    "t_runKeys t' = t_runKeys t" "t_actionKeys t' = t_actionKeys t" "t_edges t' = t_edges t"
    "t_runIds t' = t_runIds t" "t_actionIds t' = t_actionIds t" "t_namespaces t' = t_namespaces t"
    "t_builds t' = t_builds t" "t_cache t' = t_cache t"
  using assms by (simp_all add: sameOther_def otherTables_iff)

interpretation so: frame sameOther
  by unfold_locales (simp_all add: sameOther_def)

interpretation so: append_frame "onTabs sameOther" L for L
proof unfold_locales
  have "keeps sameOther (stmt (insertBlobIfAbsent d i))" for d i
    by (rule so.statement) (auto simp: sameOther_def otherTables_iff insertBlobIfAbsent_def split: if_splits)
  then show "keeps sameOther (storeValue L v)" for v
    unfolding storeValue_def Let_def by (intro so.rules)
  show "keeps sameOther (stmt f)" if "\<And>t x t'. f t = Inr (x :: unit, t') \<Longrightarrow>
      otherTables t' = otherTables t \<and> t_blobs t' = t_blobs t" for f
    by (rule so.statement) (use that in \<open>simp add: sameOther_def\<close>)
qed

lemma one_other: "keeps sameOther (one f)" and orError_other: "keeps sameOther (orError r)"
  and orFail_other: "keeps sameOther (orFail e)"
  unfolding one_def orError_def orFail_def by (intro so.rules)+

lemma AppendStatus_other: "keeps sameOther (AppendStatus L C s run)"
  unfolding AppendStatus_def by (intro so.w.seq one_other orError_other so.AppendTx so.w.ret)

lemma AppendActionStatus_other: "keeps sameOther (AppendActionStatus L C s i hit)"
  unfolding AppendActionStatus_def
  by (intro so.w.seq so.w.cond one_other orError_other so.AppendTx so.w.ret)

lemma AppendEntries_other: "keeps sameOther (AppendEntries L s run stream aid es)"
  unfolding AppendEntries_def by (intro so.body so.AppendTx)

text \<open>Reads leave the tables as they are.\<close>

definition same :: "tables \<Rightarrow> tables \<Rightarrow> bool" where
  "same t t' \<longleftrightarrow> t' = t"

interpretation sm: frame same
  by unfold_locales (simp_all add: same_def)

lemma one_same: "keeps same (one f)" and orError_same: "keeps same (orError r)"
  and orFail_same: "keeps same (orFail e)"
  unfolding one_def orError_def orFail_def by (intro sm.rules)+

lemmas sm_rules = sm.rules one_same orError_same orFail_same

lemma lookupEnvironment_same: "keeps same (lookupEnvironment L i)"
  unfolding lookupEnvironment_def by (intro sm_rules)

lemma lookupTask_same: "keeps same (lookupTask L E i entry)"
  unfolding lookupTask_def by (intro sm_rules lookupEnvironment_same)

lemma readRunMessage_same: "keeps same (readRunMessage L C i)"
  unfolding readRunMessage_def by (intro sm_rules)

lemma readTaskAction_same: "keeps same (readTaskAction L E C i)"
  unfolding readTaskAction_def by (intro sm_rules)

lemma validateRequest_same: "keeps same (validateRequest E spec key required)"
  unfolding validateRequest_def by (intro sm_rules)

lemma authorizeCall_same: "keeps same (authorizeCall E active child envID row stamp)"
  unfolding authorizeCall_def by (intro sm_rules)

lemma existingRun_same: "keeps same (existingRun ns key env entry stored)"
  unfolding existingRun_def by (intro sm_rules)

lemma sameD: "keeps same m \<Longrightarrow> m w = (r, w') \<Longrightarrow> tabs w' = tabs w"
  by (drule (1) keepsD) (simp add: same_def)

text \<open>A test of the request whose transaction begins after it.\<close>

lemma within_clock: "(\<And>c. within W (m c)) \<Longrightarrow> within W (\<lambda>w. m (clock w) w)"
  by (simp add: within_def)

subsection \<open>What a lookup found\<close>

lemma lookupTask_Inr:
  assumes "lookupTask L E i entry w = (Inr (env, row, ep), v)"
  obtains d ns spec where "i = Some d" "uuidParse L (id_ns d) = Some ns"
    "t_envKeys (tabs w) (ns, id_name d, id_version d) = Some env" "t_envs (tabs w) env = Some row"
    "unprotoSpec E (e_spec row) = Inr spec" "1 \<le> entry" "entry < 2 ^ 32"
    "ep = es_entries spec ! (entry - 1)" "tabs v = tabs w"
proof -
  from assms [unfolded lookupTask_def] obtain p u where l: "lookupEnvironment L i w = (Inr p, u)"
    and k: "(case p of (env, row) \<Rightarrow> case unprotoSpec E (e_spec row) of Inl e \<Rightarrow> fail e
      | Inr spec \<Rightarrow> if entry = 0 \<or> entry > length (es_entries spec) mod 2 ^ 32
         then fail (Rpc NotFound ''entrypoint is not registered in this environment'')
         else ret (env, row, es_entries spec ! (entry - 1))) u = (Inr (env, row, ep), v)"
    by (rule andThen_InrE)
  have small: "n \<le> k mod 2 ^ 32 \<Longrightarrow> n < 2 ^ 32" for n k :: nat
    by (erule le_less_trans) (rule mod_less_divisor, simp)
  from k obtain spec where p: "p = (env, row)" "unprotoSpec E (e_spec row) = Inr spec" "1 \<le> entry"
    "entry < 2 ^ 32" "ep = es_entries spec ! (entry - 1)" "v = u"
    by (cases p) (auto split: sum.splits if_splits intro: small)
  have tabs: "tabs u = tabs w" using sameD [OF lookupEnvironment_same l] .
  from l [unfolded lookupEnvironment_def p(1)] obtain d ns where "i = Some d" "uuidParse L (id_ns d) = Some ns"
    "getEnvironment ns (id_name d) (id_version d) (tabs w) = Some (env, row)"
    by (auto elim!: andThen_InrE simp: orFail_def query_Inr split: option.splits dest!: call_result)
  then show thesis using that p tabs by (auto simp: getEnvironment_def split: option.splits)
qed

subsection \<open>Rows are kept\<close>

definition runKept :: "run_row \<Rightarrow> run_row \<Rightarrow> bool" where
  "runKept r r' \<longleftrightarrow> r_ns r' = r_ns r \<and> r_created r' = r_created r \<and> (r_root r \<noteq> None \<longrightarrow> r_root r' = r_root r)"

definition actionKept :: "action_row \<Rightarrow> action_row \<Rightarrow> bool" where
  "actionKept a a' \<longleftrightarrow>
     a_run a' = a_run a \<and> a_caller a' = a_caller a \<and> a_env a' = a_env a \<and> a_entry a' = a_entry a \<and>
     a_spec a' = a_spec a \<and> a_created a' = a_created a \<and> (ended (a_status a) \<longrightarrow> a' = a) \<and>
     (a_next a \<noteq> Some zeroTime \<longrightarrow> a_next a' \<noteq> Some zeroTime)"

text \<open>A new action belongs to a run that is new too, or whose root is not over.\<close>

definition grows :: "tables \<Rightarrow> tables \<Rightarrow> bool" where
  "grows t t' \<longleftrightarrow>
     (\<forall>i a r x b. t_actions t i = None \<longrightarrow> t_actions t' i = Some a \<longrightarrow> t_runs t (a_run a) = Some r \<longrightarrow>
        r_root r = Some x \<longrightarrow> t_actions t x = Some b \<longrightarrow> \<not> ended (a_status b))"

definition kept :: "tables \<Rightarrow> tables \<Rightarrow> bool" where
  "kept t t' \<longleftrightarrow>
     (\<forall>i r. t_runs t i = Some r \<longrightarrow> (\<exists>r'. t_runs t' i = Some r' \<and> runKept r r')) \<and>
     (\<forall>i a. t_actions t i = Some a \<longrightarrow> (\<exists>a'. t_actions t' i = Some a' \<and> actionKept a a')) \<and>
     t_runKeys t \<subseteq>\<^sub>m t_runKeys t' \<and> t_actionKeys t \<subseteq>\<^sub>m t_actionKeys t' \<and>
     t_envs t \<subseteq>\<^sub>m t_envs t' \<and> t_envKeys t \<subseteq>\<^sub>m t_envKeys t' \<and> t_edges t \<subseteq> t_edges t' \<and> grows t t'"

lemma runKept_refl [simp]: "runKept r r" and actionKept_refl [simp]: "actionKept a a"
  by (simp_all add: runKept_def actionKept_def)

lemma runKept_trans: "runKept r s \<Longrightarrow> runKept s u \<Longrightarrow> runKept r u"
  by (simp add: runKept_def)

lemma actionKept_trans: "actionKept a b \<Longrightarrow> actionKept b c \<Longrightarrow> actionKept a c"
  by (simp add: actionKept_def)

lemma kept_action:
  "kept t t' \<Longrightarrow> t_actions t i = Some a \<Longrightarrow> \<exists>a'. t_actions t' i = Some a' \<and> actionKept a a'"
  by (simp add: kept_def)

lemma kept_run: "kept t t' \<Longrightarrow> t_runs t i = Some r \<Longrightarrow> \<exists>r'. t_runs t' i = Some r' \<and> runKept r r'"
  by (simp add: kept_def)

lemma grows_trans:
  assumes "kept t u" "kept u v"
  shows "grows t v"
  unfolding grows_def
proof (intro allI impI)
  fix i a r x b
  assume a: "t_actions t i = None" "t_actions v i = Some a" and r: "t_runs t (a_run a) = Some r" "r_root r = Some x"
    and b: "t_actions t x = Some b"
  have g: "grows t u" "grows u v" using assms by (simp_all add: kept_def)
  show "\<not> ended (a_status b)"
  proof (cases "t_actions u i")
    case (Some a')
    with kept_action [OF assms(2)] a(2) have "a_run a = a_run a'" by (fastforce simp: actionKept_def)
    with Some a(1) r b g(1) show ?thesis unfolding grows_def by metis
  next
    case None
    from kept_run [OF assms(1) r(1)] r(2) obtain r' where r': "t_runs u (a_run a) = Some r'" "r_root r' = Some x"
      by (auto simp: runKept_def)
    from kept_action [OF assms(1) b] obtain b' where b': "t_actions u x = Some b'" "actionKept b b'" by blast
    from g(2) None a(2) r' b'(1) have "\<not> ended (a_status b')" unfolding grows_def by metis
    with b'(2) show ?thesis by (auto simp: actionKept_def)
  qed
qed

lemma kept_trans: "kept t u \<Longrightarrow> kept u v \<Longrightarrow> kept t v"
  using grows_trans [of t u v] unfolding kept_def
  by (elim conjE, intro conjI) (meson runKept_trans, meson actionKept_trans, (erule (1) map_le_trans)+, blast, simp)

interpretation kp: frame kept
  by unfold_locales (simp add: kept_def grows_def, rule kept_trans)

lemma map_le_Some: "m \<subseteq>\<^sub>m m' \<Longrightarrow> m k = Some i \<Longrightarrow> m' k = Some i"
  unfolding map_le_def by (metis domI)

lemma kept_maps:
  assumes "kept t t'"
  shows "t_runKeys t k = Some i \<Longrightarrow> t_runKeys t' k = Some i" "t_actionKeys t k' = Some i \<Longrightarrow> t_actionKeys t' k' = Some i"
    "t_envs t j = Some e \<Longrightarrow> t_envs t' j = Some e" "t_envKeys t k'' = Some i \<Longrightarrow> t_envKeys t' k'' = Some i"
  using assms by (auto simp: kept_def intro: map_le_Some [of "t_runKeys t" "t_runKeys t'"]
      map_le_Some [of "t_actionKeys t" "t_actionKeys t'"] map_le_Some [of "t_envs t" "t_envs t'"]
      map_le_Some [of "t_envKeys t" "t_envKeys t'"])

text \<open>A statement that only rewritten rows.\<close>

definition rewritten :: "tables \<Rightarrow> tables \<Rightarrow> bool" where
  "rewritten t t' \<longleftrightarrow>
     (\<exists>fr fa. t_runs t' = (\<lambda>i. map_option (fr i) (t_runs t i)) \<and> t_actions t' = (\<lambda>i. map_option (fa i) (t_actions t i)) \<and>
        (\<forall>i r. t_runs t i = Some r \<longrightarrow> r_ns (fr i r) = r_ns r \<and> r_created (fr i r) = r_created r \<and> r_root (fr i r) = r_root r) \<and>
        (\<forall>i a. t_actions t i = Some a \<longrightarrow> actionKept a (fa i a))) \<and>
     t_runKeys t' = t_runKeys t \<and> t_actionKeys t' = t_actionKeys t \<and> t_envs t' = t_envs t \<and>
     t_envKeys t' = t_envKeys t \<and> t_edges t' = t_edges t \<and> t_runIds t' = t_runIds t \<and>
     t_actionIds t' = t_actionIds t \<and> t_namespaces t' = t_namespaces t"

lemma rewrittenI:
  assumes "\<And>i. t_runs t' i = map_option (fr i) (t_runs t i)" "\<And>i. t_actions t' i = map_option (fa i) (t_actions t i)"
    and "\<And>i r. t_runs t i = Some r \<Longrightarrow> r_ns (fr i r) = r_ns r \<and> r_created (fr i r) = r_created r \<and> r_root (fr i r) = r_root r"
    and "\<And>i a. t_actions t i = Some a \<Longrightarrow> actionKept a (fa i a)"
    and "t_runKeys t' = t_runKeys t \<and> t_actionKeys t' = t_actionKeys t \<and> t_envs t' = t_envs t \<and>
     t_envKeys t' = t_envKeys t \<and> t_edges t' = t_edges t \<and> t_runIds t' = t_runIds t \<and>
     t_actionIds t' = t_actionIds t \<and> t_namespaces t' = t_namespaces t"
  shows "rewritten t t'"
  unfolding rewritten_def using assms by blast

lemma rewritten_kept: "rewritten t t' \<Longrightarrow> kept t t'"
  by (auto simp: rewritten_def kept_def runKept_def grows_def)

lemma sameOther_rewritten: "sameOther t t' \<Longrightarrow> rewritten t t'"
  by (rule rewrittenI [where fr = "\<lambda>_ r. r" and fa = "\<lambda>_ a. a"])
    (simp_all add: sameOther_fields option.map_ident)

subsection \<open>The invariant\<close>

definition callerBefore :: "uuid list \<Rightarrow> (uuid \<rightharpoonup> action_row) \<Rightarrow> bool" where
  "callerBefore is m \<longleftrightarrow>
     (\<forall>xs i ys a c. is = xs @ i # ys \<longrightarrow> m i = Some a \<longrightarrow> a_caller a = Some c \<longrightarrow> c \<in> set xs)"

definition actionOK :: "tables \<Rightarrow> uuid \<Rightarrow> action_row \<Rightarrow> bool" where
  "actionOK t i a \<longleftrightarrow>
     (\<exists>r e. t_runs t (a_run a) = Some r \<and> t_envs t (a_env a) = Some e \<and> e_ns e = r_ns r \<and>
        (a_caller a = None \<longrightarrow> r_root r = Some i)) \<and>
     1 \<le> a_entry a \<and> a_entry a < 2 ^ 32 \<and> a_next a \<noteq> Some zeroTime \<and>
     (\<forall>c. a_caller a = Some c \<longrightarrow> (\<exists>b. t_actions t c = Some b \<and> a_run b = a_run a))"

definition runOK :: "tables \<Rightarrow> uuid \<Rightarrow> run_row \<Rightarrow> bool" where
  "runOK t i r \<longleftrightarrow> (\<exists>x a. r_root r = Some x \<and> t_actions t x = Some a \<and> a_run a = i \<and> a_caller a = None)"

definition dbOK :: "tables \<Rightarrow> bool" where
  "dbOK t \<longleftrightarrow>
     distinct (t_actionIds t) \<and> set (t_actionIds t) = dom (t_actions t) \<and>
     callerBefore (t_actionIds t) (t_actions t) \<and>
     distinct (t_runIds t) \<and> set (t_runIds t) = dom (t_runs t) \<and>
     (\<forall>i a. t_actions t i = Some a \<longrightarrow> actionOK t i a) \<and>
     (\<forall>i r. t_runs t i = Some r \<longrightarrow> runOK t i r) \<and>
     (\<forall>ns k i. t_runKeys t (ns, k) = Some i \<longrightarrow> (\<exists>r. t_runs t i = Some r \<and> r_ns r = ns)) \<and>
     (\<forall>run k i. t_actionKeys t (run, k) = Some i \<longrightarrow>
        (\<exists>a. t_actions t i = Some a \<and> a_run a = run \<and> a_caller a \<noteq> None)) \<and>
     (\<forall>ns n v i. t_envKeys t (ns, n, v) = Some i \<longrightarrow>
        (\<exists>e. t_envs t i = Some e \<and> e_ns e = ns \<and> e_name e = n \<and> e_version e = v)) \<and>
     (\<forall>run s d. (run, s, d) \<in> t_edges t \<longrightarrow>
        (\<exists>a. t_actions t s = Some a \<and> a_run a = run \<and> a_caller a = Some d))"

lemma dbOKI:
  assumes "distinct (t_actionIds t)" "set (t_actionIds t) = dom (t_actions t)"
    "callerBefore (t_actionIds t) (t_actions t)" "distinct (t_runIds t)" "set (t_runIds t) = dom (t_runs t)"
    "\<And>i a. t_actions t i = Some a \<Longrightarrow> actionOK t i a" "\<And>i r. t_runs t i = Some r \<Longrightarrow> runOK t i r"
    "\<And>ns k i. t_runKeys t (ns, k) = Some i \<Longrightarrow> \<exists>r. t_runs t i = Some r \<and> r_ns r = ns"
    "\<And>run k i. t_actionKeys t (run, k) = Some i \<Longrightarrow>
       \<exists>a. t_actions t i = Some a \<and> a_run a = run \<and> a_caller a \<noteq> None"
    "\<And>ns n v i. t_envKeys t (ns, n, v) = Some i \<Longrightarrow>
       \<exists>e. t_envs t i = Some e \<and> e_ns e = ns \<and> e_name e = n \<and> e_version e = v"
    "\<And>run s d. (run, s, d) \<in> t_edges t \<Longrightarrow> \<exists>a. t_actions t s = Some a \<and> a_run a = run \<and> a_caller a = Some d"
  shows "dbOK t"
  unfolding dbOK_def using assms by blast

lemma dbOK_ids:
  assumes "dbOK t"
  shows "distinct (t_actionIds t)" "set (t_actionIds t) = dom (t_actions t)"
    "distinct (t_runIds t)" "set (t_runIds t) = dom (t_runs t)" "callerBefore (t_actionIds t) (t_actions t)"
  using assms by (simp_all only: dbOK_def)

lemma dbOK_rows:
  assumes "dbOK t"
  shows "t_actions t i = Some a \<Longrightarrow> actionOK t i a" "t_runs t j = Some r \<Longrightarrow> runOK t j r"
  using assms by (simp_all add: dbOK_def)

lemma dbOK_keys:
  assumes "dbOK t"
  shows "t_runKeys t (ns, k) = Some i \<Longrightarrow> \<exists>r. t_runs t i = Some r \<and> r_ns r = ns"
    "t_actionKeys t (run, k) = Some i \<Longrightarrow> \<exists>a. t_actions t i = Some a \<and> a_run a = run \<and> a_caller a \<noteq> None"
    "t_envKeys t (ns, n, v) = Some i \<Longrightarrow>
       \<exists>e. t_envs t i = Some e \<and> e_ns e = ns \<and> e_name e = n \<and> e_version e = v"
    "(run, s, d) \<in> t_edges t \<Longrightarrow> \<exists>a. t_actions t s = Some a \<and> a_run a = run \<and> a_caller a = Some d"
  using assms unfolding dbOK_def by (elim conjE; blast)+

definition dbStep :: "tables \<Rightarrow> tables \<Rightarrow> bool" where
  "dbStep t t' \<longleftrightarrow> (dbOK t \<longrightarrow> kept t t' \<and> dbOK t')"

interpretation db: frame dbStep
  by unfold_locales (auto simp: dbStep_def kp.refl intro: kept_trans)

lemma rewritten_row:
  assumes "rewritten t t'" and "t_actions t' i = Some a'"
  obtains a where "t_actions t i = Some a" "actionKept a a'"
  using assms by (auto simp: rewritten_def)

lemma rewritten_runRow:
  assumes "rewritten t t'" and "t_runs t' i = Some r'"
  obtains r where "t_runs t i = Some r" "r_ns r' = r_ns r" "r_root r' = r_root r"
  using assms by (auto simp: rewritten_def)

lemma rewritten_OK:
  assumes r: "rewritten t t'" and d: "dbOK t"
  shows "dbOK t'"
proof -
  have eq: "t_runKeys t' = t_runKeys t" "t_actionKeys t' = t_actionKeys t" "t_envs t' = t_envs t"
    "t_envKeys t' = t_envKeys t" "t_edges t' = t_edges t" "t_runIds t' = t_runIds t" "t_actionIds t' = t_actionIds t"
    "dom (t_runs t') = dom (t_runs t)" "dom (t_actions t') = dom (t_actions t)"
    using r by (auto simp: rewritten_def dom_def)
  have act: "\<exists>a'. t_actions t' i = Some a' \<and> actionKept a a'" if "t_actions t i = Some a" for i a
    using r that by (auto simp: rewritten_def)
  have run: "\<exists>x'. t_runs t' i = Some x' \<and> r_ns x' = r_ns x \<and> r_root x' = r_root x" if "t_runs t i = Some x" for i x
    using r that by (auto simp: rewritten_def)
  have c: "callerBefore (t_actionIds t') (t_actions t')"
    unfolding callerBefore_def eq(7)
  proof (intro allI impI)
    fix xs i ys a' c
    assume s: "t_actionIds t = xs @ i # ys" "t_actions t' i = Some a'" "a_caller a' = Some c"
    from rewritten_row [OF r s(2)] obtain a where a: "t_actions t i = Some a" "actionKept a a'" .
    from d have "callerBefore (t_actionIds t) (t_actions t)" by (simp add: dbOK_def)
    with s a show "c \<in> set xs" by (fastforce simp: callerBefore_def actionKept_def)
  qed
  have a: "actionOK t' i a'" if "t_actions t' i = Some a'" for i a'
  proof -
    from rewritten_row [OF r that] obtain a where a: "t_actions t i = Some a" "actionKept a a'" .
    from d a(1) have "actionOK t i a" by (simp add: dbOK_def)
    then have c: "\<forall>c. a_caller a = Some c \<longrightarrow> (\<exists>b. t_actions t c = Some b \<and> a_run b = a_run a)"
      and n: "1 \<le> a_entry a" "a_entry a < 2 ^ 32" "a_next a \<noteq> Some zeroTime"
      and "\<exists>r e. t_runs t (a_run a) = Some r \<and> t_envs t (a_env a) = Some e \<and> e_ns e = r_ns r \<and>
        (a_caller a = None \<longrightarrow> r_root r = Some i)"
      by (auto simp: actionOK_def)
    then obtain r e where r: "t_runs t (a_run a) = Some r" "t_envs t (a_env a) = Some e" "e_ns e = r_ns r"
      "a_caller a = None \<longrightarrow> r_root r = Some i"
      by (elim exE conjE) (rule that)
    have "\<exists>b. t_actions t' c = Some b \<and> a_run b = a_run a" if "a_caller a = Some c" for c
      using c that act by (fastforce simp: actionKept_def)
    with r n run [OF r(1)] a(2) show ?thesis by (auto simp: actionOK_def eq(3) actionKept_def)
  qed
  have rn: "runOK t' i x'" if "t_runs t' i = Some x'" for i x'
  proof -
    from rewritten_runRow [OF r that] obtain x where x: "t_runs t i = Some x" "r_root x' = r_root x" .
    from d x(1) have "runOK t i x" by (simp add: dbOK_def)
    then obtain y a where "r_root x = Some y" "t_actions t y = Some a" "a_run a = i" "a_caller a = None"
      unfolding runOK_def by blast
    with x(2) act [of y a] show ?thesis by (auto simp: runOK_def actionKept_def)
  qed
  show ?thesis
  proof (rule dbOKI)
    show "\<exists>r. t_runs t' i = Some r \<and> r_ns r = ns" if "t_runKeys t' (ns, k) = Some i" for ns k i
      using dbOK_keys(1) [OF d that [unfolded eq]] run by fastforce
    show "\<exists>a. t_actions t' i = Some a \<and> a_run a = run \<and> a_caller a \<noteq> None"
      if "t_actionKeys t' (run, k) = Some i" for run k i
      using dbOK_keys(2) [OF d that [unfolded eq]] act by (fastforce simp: actionKept_def)
    show "\<exists>e. t_envs t' i = Some e \<and> e_ns e = ns \<and> e_name e = n \<and> e_version e = v"
      if "t_envKeys t' (ns, n, v) = Some i" for ns n v i
      using dbOK_keys(3) [OF d that [unfolded eq]] by (simp add: eq)
    show "\<exists>a. t_actions t' s = Some a \<and> a_run a = run \<and> a_caller a = Some x" if "(run, s, x) \<in> t_edges t'" for run s x
      using dbOK_keys(4) [OF d that [unfolded eq]] act by (fastforce simp: actionKept_def)
  qed (use dbOK_ids [OF d] c a rn in \<open>simp_all add: eq\<close>)
qed

lemma rewritten_step: "rewritten t t' \<Longrightarrow> dbStep t t'"
  using rewritten_kept rewritten_OK by (auto simp: dbStep_def)

lemma other_step: "keeps sameOther m \<Longrightarrow> keeps dbStep m"
  by (auto simp: within_def intro: rewritten_step sameOther_rewritten)

lemma same_other: "keeps same m \<Longrightarrow> keeps sameOther m"
  by (simp add: within_def same_def sameOther_def)

lemmas same_step = other_step [OF same_other]

subsection \<open>New rows\<close>

lemma callerBefore_snoc:
  assumes "callerBefore is m" and "i \<notin> set is" and "\<And>c. a_caller a = Some c \<Longrightarrow> c \<in> set is"
  shows "callerBefore (is @ [i]) (m(i \<mapsto> a))"
  unfolding callerBefore_def
proof (intro allI impI)
  fix xs j ys b c
  assume s: "is @ [i] = xs @ j # ys" "(m(i \<mapsto> a)) j = Some b" "a_caller b = Some c"
  show "c \<in> set xs"
  proof (cases ys rule: rev_cases)
    case Nil
    with s(1) have "xs = is" "j = i" by simp_all
    with s assms(3) show ?thesis by simp
  next
    case (snoc zs z)
    with s(1) have "is = xs @ j # zs" by simp
    moreover with assms(2) have "j \<noteq> i" by auto
    ultimately show ?thesis using s assms(1) unfolding callerBefore_def by fastforce
  qed
qed

text \<open>A child of an action that is there.\<close>

lemma dbOK_addChild:
  assumes d: "dbOK t" and i: "t_actions t i = None" and r: "t_runs t (a_run row) = Some r"
    and e: "t_envs t (a_env row) = Some e" "e_ns e = r_ns r" and n: "1 \<le> a_entry row" "a_entry row < 2 ^ 32" "a_next row \<noteq> Some zeroTime"
    and c: "a_caller row = Some c" "t_actions t c = Some b" "a_run b = a_run row"
    and k: "t_actionKeys t (a_run row, key) = None"
    and root: "\<And>x q. r_root r = Some x \<Longrightarrow> t_actions t x = Some q \<Longrightarrow> \<not> ended (a_status q)"
    and t': "t' = (addAction i row t)\<lparr>t_actionKeys := (t_actionKeys t)((a_run row, key) \<mapsto> i)\<rparr>"
  shows "dbOK t' \<and> kept t t'"
proof -
  have f: "t_actions t' = (t_actions t)(i \<mapsto> row)" "t_actionIds t' = t_actionIds t @ [i]"
    "t_actionKeys t' = (t_actionKeys t)((a_run row, key) \<mapsto> i)" "t_runs t' = t_runs t" "t_runIds t' = t_runIds t"
    "t_runKeys t' = t_runKeys t" "t_envs t' = t_envs t" "t_envKeys t' = t_envKeys t" "t_edges t' = t_edges t"
    by (simp_all add: t' addAction_def)
  note ids = dbOK_ids [OF d]
  have i': "i \<notin> set (t_actionIds t)" using i ids(2) by auto
  have keep: "t_actions t' j = Some a" if "t_actions t j = Some a" for j a
    using that i by (auto simp: f)
  have old: "actionOK t' j a" if j: "t_actions t j = Some a" for j a
  proof -
    from dbOK_rows(1) [OF d j] have "actionOK t j a" .
    with keep show ?thesis unfolding actionOK_def f(4,7) by metis
  qed
  have new: "actionOK t' i row"
    using r e n c keep [OF c(2)] by (auto simp: actionOK_def f(4,7))
  have "dbOK t'"
  proof (rule dbOKI)
    show "callerBefore (t_actionIds t') (t_actions t')"
      unfolding f using callerBefore_snoc [OF ids(5) i', of row] c ids(2) by auto
    show "actionOK t' j a" if "t_actions t' j = Some a" for j a
      using that old new by (cases "j = i") (simp_all add: f)
    show "runOK t' j x" if "t_runs t' j = Some x" for j x
      using dbOK_rows(2) [OF d that [unfolded f]] keep unfolding runOK_def by blast
    show "\<exists>r. t_runs t' j = Some r \<and> r_ns r = ns" if "t_runKeys t' (ns, k) = Some j" for ns k j
      using dbOK_keys(1) [OF d that [unfolded f]] by (simp add: f)
    show "\<exists>a. t_actions t' j = Some a \<and> a_run a = run \<and> a_caller a \<noteq> None" if "t_actionKeys t' (run, k) = Some j" for run k j
    proof (cases "(run, k) = (a_run row, key)")
      case True
      with that c(1) show ?thesis by (auto simp: f)
    next
      case False
      with that have "t_actionKeys t (run, k) = Some j" by (simp add: f split: if_splits)
      from dbOK_keys(2) [OF d this] keep show ?thesis by blast
    qed
    show "\<exists>e. t_envs t' j = Some e \<and> e_ns e = ns \<and> e_name e = n \<and> e_version e = v"
      if "t_envKeys t' (ns, n, v) = Some j" for ns n v j
      using dbOK_keys(3) [OF d that [unfolded f]] by (simp add: f)
    show "\<exists>a. t_actions t' s = Some a \<and> a_run a = run \<and> a_caller a = Some x" if "(run, s, x) \<in> t_edges t'" for run s x
      using dbOK_keys(4) [OF d that [unfolded f]] keep by blast
  qed (use ids i' in \<open>auto simp: f\<close>)
  moreover have "grows t t'" using r root by (auto simp: grows_def f)
  ultimately show ?thesis
    using keep k by (auto simp: kept_def f map_le_def)
qed

text \<open>A run with its root, as \<open>CreateRun\<close> leaves them.\<close>

definition addRun :: "uuid \<Rightarrow> uuid \<Rightarrow> string option \<Rightarrow> time \<Rightarrow> uuid \<Rightarrow> action_row \<Rightarrow> tables \<Rightarrow> tables" where
  "addRun run ns key stamp i row t =
     t\<lparr>t_runs := (t_runs t)(run \<mapsto> (newRun ns stamp)\<lparr>r_root := Some i\<rparr>), t_runIds := t_runIds t @ [run],
       t_runKeys := (case key of None \<Rightarrow> t_runKeys t | Some k \<Rightarrow> (t_runKeys t)((ns, k) \<mapsto> run)),
       t_actions := (t_actions t)(i \<mapsto> row), t_actionIds := t_actionIds t @ [i]\<rparr>"

lemma dbOK_addRun:
  assumes d: "dbOK t" and run: "t_runs t run = None" and i: "t_actions t i = None"
    and row: "a_run row = run" "a_caller row = None" "1 \<le> a_entry row" "a_entry row < 2 ^ 32" "a_next row \<noteq> Some zeroTime"
    and e: "t_envs t (a_env row) = Some e" "e_ns e = ns"
    and key: "\<And>k. key = Some k \<Longrightarrow> t_runKeys t (ns, k) = None"
    and t': "t' = addRun run ns key stamp i row t"
  shows "dbOK t' \<and> kept t t'"
proof -
  let ?new = "(newRun ns stamp)\<lparr>r_root := Some i\<rparr>"
  have f: "t_actions t' = (t_actions t)(i \<mapsto> row)" "t_actionIds t' = t_actionIds t @ [i]"
    "t_actionKeys t' = t_actionKeys t" "t_runs t' = (t_runs t)(run \<mapsto> ?new)" "t_runIds t' = t_runIds t @ [run]"
    "t_runKeys t' = (case key of None \<Rightarrow> t_runKeys t | Some k \<Rightarrow> (t_runKeys t)((ns, k) \<mapsto> run))"
    "t_envs t' = t_envs t" "t_envKeys t' = t_envKeys t" "t_edges t' = t_edges t"
    by (simp_all add: t' addRun_def)
  note ids = dbOK_ids [OF d]
  have i': "i \<notin> set (t_actionIds t)" "run \<notin> set (t_runIds t)" using i run ids(2,4) by auto
  have keep: "t_actions t' j = Some a" if "t_actions t j = Some a" for j a
    using that i by (auto simp: f)
  have keepRun: "t_runs t' j = Some x" if "t_runs t j = Some x" for j x
    using that run by (auto simp: f)
  have keyed: "t_runKeys t' k = Some j" if "t_runKeys t k = Some j" for k j
    using that key by (cases key) (auto simp: f)
  have old: "actionOK t' j a" if j: "t_actions t j = Some a" for j a
  proof -
    from dbOK_rows(1) [OF d j] have "actionOK t j a" .
    with keep keepRun show ?thesis unfolding actionOK_def f(7) by metis
  qed
  have new: "actionOK t' i row"
    using row e by (auto simp: actionOK_def f(4,7) newRun_def)
  have newRun: "runOK t' run ?new"
    using row by (simp add: runOK_def f)
  have "dbOK t'"
  proof (rule dbOKI)
    show "callerBefore (t_actionIds t') (t_actions t')"
      unfolding f using callerBefore_snoc [OF ids(5) i'(1), of row] row by simp
    show "actionOK t' j a" if "t_actions t' j = Some a" for j a
      using that old new by (cases "j = i") (simp_all add: f)
    show "runOK t' j x" if j: "t_runs t' j = Some x" for j x
    proof (cases "j = run")
      case True
      with j newRun show ?thesis by (simp add: f)
    next
      case False
      with j have "t_runs t j = Some x" by (simp add: f)
      from dbOK_rows(2) [OF d this] keep show ?thesis unfolding runOK_def by blast
    qed
    show "\<exists>r. t_runs t' j = Some r \<and> r_ns r = n" if j: "t_runKeys t' (n, k) = Some j" for n k j
    proof (cases "key = Some k \<and> n = ns")
      case True
      with j show ?thesis by (simp add: f newRun_def)
    next
      case False
      with j have "t_runKeys t (n, k) = Some j" by (auto simp: f split: option.splits if_splits)
      from dbOK_keys(1) [OF d this] keepRun show ?thesis by blast
    qed
    show "\<exists>a. t_actions t' j = Some a \<and> a_run a = run \<and> a_caller a \<noteq> None" if "t_actionKeys t' (run, k) = Some j" for run k j
      using dbOK_keys(2) [OF d that [unfolded f]] keep by blast
    show "\<exists>e. t_envs t' j = Some e \<and> e_ns e = ns \<and> e_name e = n \<and> e_version e = v"
      if "t_envKeys t' (ns, n, v) = Some j" for ns n v j
      using dbOK_keys(3) [OF d that [unfolded f]] by (simp add: f)
    show "\<exists>a. t_actions t' s = Some a \<and> a_run a = run \<and> a_caller a = Some x" if "(run, s, x) \<in> t_edges t'" for run s x
      using dbOK_keys(4) [OF d that [unfolded f]] keep by blast
  qed (use ids i' in \<open>auto simp: f\<close>)
  moreover have "t_runKeys t \<subseteq>\<^sub>m t_runKeys t'" unfolding map_le_def using keyed by (metis domD)
  moreover have "grows t t'" using run row(1) by (auto simp: grows_def f)
  ultimately show ?thesis
    using keep keepRun by (auto simp: kept_def f)
qed

lemma insertEnvironment_step:
  assumes "insertEnvironment i row t = Inr (b, t')"
  shows "dbStep t t'"
proof (cases b)
  case False
  with assms have "t' = t" by (auto simp: insertEnvironment_def split: if_splits)
  then show ?thesis by (simp add: db.refl)
next
  case True
  with assms have n: "t_envKeys t (e_ns row, e_name row, e_version row) = None" "t_envs t i = None"
    and t': "t' = t\<lparr>t_envs := (t_envs t)(i \<mapsto> row),
      t_envKeys := (t_envKeys t)((e_ns row, e_name row, e_version row) \<mapsto> i)\<rparr>"
    by (auto simp: insertEnvironment_def split: if_splits)
  show ?thesis unfolding dbStep_def
  proof (intro impI conjI)
    assume d: "dbOK t"
    show "kept t t'" using n by (auto simp: kept_def grows_def t' map_le_def)
    have env: "t_envs t' j = Some e" if "t_envs t j = Some e" for j e using that n by (auto simp: t')
    show "dbOK t'"
    proof (rule dbOKI)
      show "actionOK t' j a" if "t_actions t' j = Some a" for j a
      proof -
        from that have "actionOK t j a" using dbOK_rows(1) [OF d] by (simp add: t')
        moreover have "t_runs t' = t_runs t" "t_actions t' = t_actions t" by (simp_all add: t')
        ultimately show ?thesis using env unfolding actionOK_def by metis
      qed
      show "runOK t' j x" if "t_runs t' j = Some x" for j x
        using that dbOK_rows(2) [OF d] by (simp add: t' runOK_def)
      show "\<exists>e. t_envs t' j = Some e \<and> e_ns e = ns \<and> e_name e = n \<and> e_version e = v"
        if k: "t_envKeys t' (ns, n, v) = Some j" for ns n v j
      proof (cases "(ns, n, v) = (e_ns row, e_name row, e_version row)")
        case True
        with k show ?thesis by (simp add: t')
      next
        case False
        with k have "t_envKeys t (ns, n, v) = Some j" by (auto simp: t' split: if_splits)
        from dbOK_keys(3) [OF d this] env show ?thesis by blast
      qed
      show "\<exists>r. t_runs t' j = Some r \<and> r_ns r = ns" if "t_runKeys t' (ns, k) = Some j" for ns k j
        using that dbOK_keys(1) [OF d] by (simp add: t')
      show "\<exists>a. t_actions t' j = Some a \<and> a_run a = run \<and> a_caller a \<noteq> None" if "t_actionKeys t' (run, k) = Some j" for run k j
        using that dbOK_keys(2) [OF d] by (simp add: t')
      show "\<exists>a. t_actions t' s = Some a \<and> a_run a = run \<and> a_caller a = Some x" if "(run, s, x) \<in> t_edges t'" for run s x
        using that dbOK_keys(4) [OF d] by (simp add: t')
    qed (use dbOK_ids [OF d] in \<open>simp_all add: t'\<close>)
  qed
qed

end
