(* ===== verification/Service_Runs.thy ===== *)
theory Service_Runs
  imports Service_Frame
begin

section \<open>The operations on runs keep the invariant\<close>

text \<open>
  What \<open>CreateRun\<close>, \<open>CreateTaskAction\<close>, \<open>CancelRun\<close> and \<open>RegisterEnvironment\<close> do to the
  database when they succeed, and that they keep \<open>dbOK\<close> and \<open>kept\<close> whatever fails.
\<close>

text \<open>The request's environment and entrypoint, and the action spec that is stored.\<close>

definition resolves :: "lib \<Rightarrow> encodings \<Rightarrow> envID option \<Rightarrow> nat \<Rightarrow> actionSpec \<Rightarrow> tables \<Rightarrow> uuid \<Rightarrow> env_row \<Rightarrow>
    bytes \<Rightarrow> bool" where
  "resolves L E env entry spec t envID row stored \<longleftrightarrow>
     (\<exists>d ns sp. env = Some d \<and> uuidParse L (id_ns d) = Some ns \<and>
        t_envKeys t (ns, id_name d, id_version d) = Some envID \<and> t_envs t envID = Some row \<and>
        unprotoSpec E (e_spec row) = Inr sp \<and> 1 \<le> entry \<and> entry < 2 ^ 32 \<and>
        resolvedActionSpec E (es_entries sp ! (entry - 1)) spec = Inr stored)"

lemma resolves_unique:
  assumes "resolves L E env entry spec t envID row stored" and "kept t t'"
    and "resolves L E env entry spec t' envID' row' stored'"
  shows "envID' = envID \<and> row' = row \<and> stored' = stored"
  using assms kept_maps(3,4) [OF assms(2)] unfolding resolves_def by fastforce

lemma lookup_resolves:
  assumes "lookupTask L E env entry w = (Inr (envID, row, ep), v)"
    and "orError (resolvedActionSpec E ep spec) v = (Inr stored, u)"
  shows "resolves L E env entry spec (tabs w) envID row stored" "tabs u = tabs w"
  using assms by (auto simp: resolves_def orError_Inr elim!: lookupTask_Inr)

lemma newIDE:
  assumes "andThen newID f w = (r, v)"
  obtains i u where "f i u = (r, v)" "tabs u = tabs w"
  using that [OF assms [unfolded newID_run]] by simp

subsection \<open>\<open>CreateRun\<close>\<close>

definition keyOf :: "string \<Rightarrow> string option" where
  "keyOf key = (if key = [] then None else Some key)"

lemma existingRun_Inr:
  assumes "existingRun ns key env entry stored w = (Inr run, w')"
  obtains r i a where "t_runKeys (tabs w) (ns, key) = Some run" "t_runs (tabs w) run = Some r"
    "r_root r = Some i" "t_actions (tabs w) i = Some a" "a_env a = env" "a_entry a = entry" "a_spec a = stored"
    "tabs w' = tabs w"
proof -
  from assms [unfolded existingRun_def] obtain p v where l: "one (getRunByIdempotencyKey ns key) w = (Inr p, v)"
    and k: "(case p of (run, root) \<Rightarrow> case root of
       None \<Rightarrow> fail (Rpc Internal ''idempotent run has no root action'')
     | Some i \<Rightarrow> andThen (one (readTaskActionRow i)) (\<lambda>(a, e).
         if a_env a \<noteq> env \<or> a_entry a \<noteq> entry \<or> a_spec a \<noteq> stored
         then fail (invalidTask ''idempotency key already belongs to a different invocation'')
         else ret run)) v = (Inr run, w')"
    by (rule andThen_InrE)
  from k obtain i q u where p: "p = (run, Some i)" and o: "one (readTaskActionRow i) v = (Inr q, u)"
    and q: "a_env (fst q) = env" "a_entry (fst q) = entry" "a_spec (fst q) = stored" "w' = u"
    by (cases p) (auto elim!: andThen_InrE split: option.splits prod.splits if_splits)
  from one_Inr [OF l] one_Inr [OF o] p have "getRunByIdempotencyKey ns key (tabs w) = Some (run, Some i)"
    "readTaskActionRow i (tabs w) = Some q" "tabs w' = tabs w" by (simp_all add: q)
  then show thesis using that q(1-3)
    by (auto simp: getRunByIdempotencyKey_def readTaskActionRow_def split: option.splits)
qed

lemma addRun_stmts:
  assumes "insertRun run ns key stamp t = Inr (Some run', t1)"
    and "insertRootAction i row t1' = Inr (root, t2)" "tabs1 = t1" "t1' = t1"
    and "updateRunRootAction root run' t2 = Inr (u, t3)"
  shows "run' = run \<and> t_runs t run = None \<and> t_actions t i = None \<and> root = i \<and>
    (\<forall>k. key = Some k \<longrightarrow> t_runKeys t (ns, k) = None) \<and> t3 = addRun run ns key stamp i row t"
proof -
  from assms(1) have a: "run' = run" "t_runs t run = None" "\<forall>k. key = Some k \<longrightarrow> t_runKeys t (ns, k) = None"
    "t1 = t\<lparr>t_runs := (t_runs t)(run \<mapsto> newRun ns stamp), t_runIds := t_runIds t @ [run],
       t_runKeys := (case key of None \<Rightarrow> t_runKeys t | Some k \<Rightarrow> (t_runKeys t)((ns, k) \<mapsto> run))\<rparr>"
    by (auto simp: insertRun_def split: if_splits option.splits)
  from assms(2,4) have b: "root = i" "t_actions t i = None" "t2 = addAction i row t1"
    using a(4) by (auto simp: insertRootAction_def actionFits_def split: if_splits)
  from assms(5) have "t3 = addRun run ns key stamp i row t"
    unfolding b(3) a(4) by (cases t) (auto simp: updateRunRootAction_def addAction_def addRun_def a(1) b(1))
  with a b show ?thesis by simp
qed

lemma createRunTx_Inr:
  assumes "createRunTx L E C s env entry spec key stamp w = (Inr run, w')"
  obtains (existing) envID row stored r i a where "resolves L E env entry spec (tabs w) envID row stored"
      "key \<noteq> []" "t_runKeys (tabs w) (e_ns row, key) = Some run" "t_runs (tabs w) run = Some r"
      "r_root r = Some i" "t_actions (tabs w) i = Some a" "a_env a = envID" "a_entry a = int entry"
      "a_spec a = stored" "tabs w' = tabs w"
  | (created) envID row stored i where "resolves L E env entry spec (tabs w) envID row stored"
      "t_runs (tabs w) run = None" "t_actions (tabs w) i = None"
      "\<And>k. keyOf key = Some k \<Longrightarrow> t_runKeys (tabs w) (e_ns row, k) = None"
      "sameOther (addRun run (e_ns row) (keyOf key) stamp i
         (newAction run None envID (int entry) stored stamp) (tabs w)) (tabs w')"
proof -
  from assms [unfolded createRunTx_def] obtain p v where l: "lookupTask L E env entry w = (Inr p, v)"
    and k: "(case p of (envID, row, ep) \<Rightarrow>
      andThen (orError (resolvedActionSpec E ep spec)) (\<lambda>stored.
     andThen newID (\<lambda>runID.
     andThen (stmt (insertRun runID (e_ns row) (if key = [] then None else Some key) stamp)) (\<lambda>inserted.
     case inserted of
       None \<Rightarrow> existingRun (e_ns row) key envID (int entry) stored
     | Some run \<Rightarrow>
         andThen newID (\<lambda>i.
         andThen (stmt (insertRootAction i (newAction run None envID (int entry) stored stamp))) (\<lambda>root.
         andThen (stmt (updateRunRootAction root run)) (\<lambda>_.
         andThen (AppendStatus L C s runID) (\<lambda>_.
         ret runID)))))))) v = (Inr run, w')"
    by (rule andThen_InrE)
  obtain envID row ep where p: "p = (envID, row, ep)" by (cases p)
  from k [unfolded p prod.case] obtain stored u where o: "orError (resolvedActionSpec E ep spec) v = (Inr stored, u)"
    and k: "andThen newID (\<lambda>runID.
     andThen (stmt (insertRun runID (e_ns row) (if key = [] then None else Some key) stamp)) (\<lambda>inserted.
     case inserted of
       None \<Rightarrow> existingRun (e_ns row) key envID (int entry) stored
     | Some run \<Rightarrow>
         andThen newID (\<lambda>i.
         andThen (stmt (insertRootAction i (newAction run None envID (int entry) stored stamp))) (\<lambda>root.
         andThen (stmt (updateRunRootAction root run)) (\<lambda>_.
         andThen (AppendStatus L C s runID) (\<lambda>_.
         ret runID)))))) u = (Inr run, w')"
    by (rule andThen_InrE)
  note res = lookup_resolves [OF l [unfolded p] o]
  obtain runID u1 where k: "andThen (stmt (insertRun runID (e_ns row) (if key = [] then None else Some key) stamp)) (\<lambda>inserted.
     case inserted of
       None \<Rightarrow> existingRun (e_ns row) key envID (int entry) stored
     | Some run \<Rightarrow>
         andThen newID (\<lambda>i.
         andThen (stmt (insertRootAction i (newAction run None envID (int entry) stored stamp))) (\<lambda>root.
         andThen (stmt (updateRunRootAction root run)) (\<lambda>_.
         andThen (AppendStatus L C s runID) (\<lambda>_.
         ret runID))))) u1 = (Inr run, w')" and "tabs u1 = tabs u"
    using k by (rule newIDE)
  with res have u1: "tabs u1 = tabs w" by simp
  from k obtain inserted v2 where
    st: "stmt (insertRun runID (e_ns row) (if key = [] then None else Some key) stamp) u1 = (Inr inserted, v2)"
    and k: "(case inserted of
       None \<Rightarrow> existingRun (e_ns row) key envID (int entry) stored
     | Some run \<Rightarrow>
         andThen newID (\<lambda>i.
         andThen (stmt (insertRootAction i (newAction run None envID (int entry) stored stamp))) (\<lambda>root.
         andThen (stmt (updateRunRootAction root run)) (\<lambda>_.
         andThen (AppendStatus L C s runID) (\<lambda>_.
         ret runID))))) v2 = (Inr run, w')"
    by (rule andThen_InrE)
  from st have ins: "insertRun runID (e_ns row) (keyOf key) stamp (tabs w) = Inr (inserted, tabs v2)"
    by (auto simp: stmt_Inr u1 keyOf_def)
  show thesis
  proof (cases inserted)
    case None
    with ins have same: "tabs v2 = tabs w" "key \<noteq> []"
      by (auto simp: insertRun_def keyOf_def split: if_splits option.splits)
    from k None have "existingRun (e_ns row) key envID (int entry) stored v2 = (Inr run, w')" by simp
    then show thesis
      by (rule existingRun_Inr) (use existing [OF res(1) same(2)] same(1) in simp)
  next
    case (Some run')
    from k [unfolded Some option.case] obtain i v3 where
      k: "andThen (stmt (insertRootAction i (newAction run' None envID (int entry) stored stamp))) (\<lambda>root.
         andThen (stmt (updateRunRootAction root run')) (\<lambda>_.
         andThen (AppendStatus L C s runID) (\<lambda>_. ret runID))) v3 = (Inr run, w')"
      and v3: "tabs v3 = tabs v2"
      by (rule newIDE)
    from k obtain root x y u z w'' where
      a: "stmt (insertRootAction i (newAction run' None envID (int entry) stored stamp)) v3 = (Inr root, x)"
      and b: "stmt (updateRunRootAction root run') x = (Inr u, y)"
      and c: "AppendStatus L C s runID y = (Inr z, w'')" "ret runID w'' = (Inr run, w')"
      by (elim andThen_InrE) (rule that)
    from a b have "insertRootAction i (newAction run' None envID (int entry) stored stamp) (tabs v2) = Inr (root, tabs x)"
      "updateRunRootAction root run' (tabs x) = Inr (u, tabs y)" by (auto simp: stmt_Inr v3)
    from addRun_stmts [OF ins [unfolded Some] this(1) refl refl this(2)] have f: "run' = runID"
      "t_runs (tabs w) runID = None" "t_actions (tabs w) i = None" "\<forall>k. keyOf key = Some k \<longrightarrow> t_runKeys (tabs w) (e_ns row, k) = None"
      "tabs y = addRun runID (e_ns row) (keyOf key) stamp i (newAction run' None envID (int entry) stored stamp) (tabs w)"
      by simp_all
    from keepsD [OF AppendStatus_other c(1)] f c(2) show thesis
      by (intro created [OF res(1)]) simp_all
  qed
qed

text \<open>A transaction is a step when its body, if it succeeds, is one.\<close>

lemma transaction_step:
  assumes "\<And>w x w'. m w = (Inr x, w') \<Longrightarrow> dbStep (tabs w) (tabs w')"
  shows "keeps dbStep (transaction b c m)"
proof (rule withinI)
  fix w r w'
  assume "transaction b c m w = (r, w')"
  then show "dbStep (tabs w) (tabs w')"
  proof (cases rule: transaction_cases)
    case (stays x w1 w2)
    with assms [OF stays(3)] show ?thesis by simp
  qed (simp_all add: db.refl)
qed

lemma createRunTx_step:
  assumes "createRunTx L E C s env entry spec key stamp w = (Inr run, w')"
  shows "dbStep (tabs w) (tabs w')"
  using assms
proof (cases rule: createRunTx_Inr)
  case (existing envID row stored r i a)
  then show ?thesis by (simp add: db.refl)
next
  case (created envID row stored i)
  let ?t = "addRun run (e_ns row) (keyOf key) stamp i (newAction run None envID (int entry) stored stamp) (tabs w)"
  have "dbStep (tabs w) ?t"
    unfolding dbStep_def
  proof
    assume d: "dbOK (tabs w)"
    from created(1) have "t_envs (tabs w) envID = Some row" "1 \<le> int entry" "int entry < 2 ^ 32"
      by (auto simp: resolves_def)
    then show "kept (tabs w) ?t \<and> dbOK ?t"
      using dbOK_addRun [OF d created(2,3) _ _ _ _ _ _ _ created(4) refl,
          where row = "newAction run None envID (int entry) stored stamp"]
      by (simp add: newAction_def)
  qed
  moreover have "dbStep ?t (tabs w')" by (rule rewritten_step [OF sameOther_rewritten [OF created(5)]])
  ultimately show ?thesis by (rule db.trans)
qed

lemma CreateRun_step: "keeps dbStep (CreateRun L E C s up env entry spec key)"
proof -
  have "keeps dbStep (andThen (transaction (\<lambda>e. e) (\<lambda>e. e) (createRunTx L E C s env entry as key stamp)) (readRunMessage L C))" for as stamp
    by (rule db.w.seq [OF transaction_step [OF createRunTx_step] same_step [OF readRunMessage_same]])
  then have "keeps dbStep (\<lambda>w. andThen (transaction (\<lambda>e. e) (\<lambda>e. e) (createRunTx L E C s env entry as key (clock w))) (readRunMessage L C) w)" for as
    by (rule within_clock)
  then show ?thesis
    unfolding CreateRun_def by (intro db.w.cond db.w.fail db.w.seq same_step [OF validateRequest_same])
qed

subsection \<open>\<open>CreateTaskAction\<close>\<close>

text \<open>What lets a task create an action: its own row is active, under the run's live claim.\<close>

definition authorized :: "encodings \<Rightarrow> taskContext \<Rightarrow> envID option \<Rightarrow> uuid \<Rightarrow> env_row \<Rightarrow> time \<Rightarrow> tables \<Rightarrow> bool" where
  "authorized E active child envID row stamp t \<longleftrightarrow>
     (\<exists>r root rr a e sp. t_runs t (tc_run active) = Some r \<and> r_token r = Some (tc_token active) \<and>
        stamp < r_lease r \<and> r_ns r = e_ns row \<and> r_root r = Some root \<and> t_actions t root = Some rr \<and>
        \<not> ended (a_status rr) \<and> t_actions t (tc_action active) = Some a \<and> a_run a = tc_run active \<and>
        a_attempts a = tc_attempt active \<and> (a_status a = SRunning \<or> a_status a = SWaiting) \<and>
        t_envs t (a_env a) = Some e \<and> unprotoSpec E (e_spec e) = Inr sp \<and>
        (a_env a = envID \<or> declared sp child))"

lemma terminal_status: "terminal (statusName s) \<longleftrightarrow> ended s"
  by (cases s) (simp_all add: terminal_def ended_def)

lemma mapErr_one: "mapErr h (one f) w = (Inr x, v) \<Longrightarrow> f (tabs w) = Some x \<and> tabs v = tabs w"
  by (auto simp: mapErr_Inr dest: one_Inr)

lemma authorizeCall_Inr:
  assumes "authorizeCall E active child envID row stamp w = (Inr u, v)"
  shows "authorized E active child envID row stamp (tabs w)"
proof -
  from assms [unfolded authorizeCall_def] obtain r w1 where
    l: "mapErr (\<lambda>_. runNotActive) (one (\<lambda>t. t_runs t (tc_run active))) w = (Inr r, w1)"
    and k: "(case r_root r of
       None \<Rightarrow> fail runNotActive
     | Some root \<Rightarrow>
         if e_ns row \<noteq> r_ns r then fail (invalidTask ''child task belongs to a different namespace'')
         else
           andThen (mapErr (\<lambda>_. runNotActive) (one (\<lambda>t. t_actions t root))) (\<lambda>rootRow.
           if terminal (statusName (a_status rootRow)) then fail runNotActive
           else
             andThen (mapErr (\<lambda>_. callerNotActive) (one (getActiveCaller (tc_action active) stamp))) (\<lambda>(a, r, e).
             if a_run a \<noteq> tc_run active \<or> r_token r \<noteq> Some (tc_token active) \<or> a_attempts a \<noteq> tc_attempt active
             then fail callerNotActive
             else
               andThen (orError (unprotoSpec E (e_spec e))) (\<lambda>callerSpec.
               if a_env a = envID \<or> declared callerSpec child then ret ()
               else fail (Rpc PermissionDenied ''child environment is not a declared dependency''))))) w1 = (Inr u, v)"
    by (rule andThen_InrE)
  from k obtain root where root: "r_root r = Some root" "e_ns row = r_ns r"
    and k: "andThen (mapErr (\<lambda>_. runNotActive) (one (\<lambda>t. t_actions t root))) (\<lambda>rootRow.
           if terminal (statusName (a_status rootRow)) then fail runNotActive
           else
             andThen (mapErr (\<lambda>_. callerNotActive) (one (getActiveCaller (tc_action active) stamp))) (\<lambda>(a, r, e).
             if a_run a \<noteq> tc_run active \<or> r_token r \<noteq> Some (tc_token active) \<or> a_attempts a \<noteq> tc_attempt active
             then fail callerNotActive
             else
               andThen (orError (unprotoSpec E (e_spec e))) (\<lambda>callerSpec.
               if a_env a = envID \<or> declared callerSpec child then ret ()
               else fail (Rpc PermissionDenied ''child environment is not a declared dependency'')))) w1 = (Inr u, v)"
    by (cases "r_root r") (simp_all split: if_splits)
  from k obtain rr w2 where o: "mapErr (\<lambda>_. runNotActive) (one (\<lambda>t. t_actions t root)) w1 = (Inr rr, w2)"
    and "\<not> terminal (statusName (a_status rr))"
    and k: "andThen (mapErr (\<lambda>_. callerNotActive) (one (getActiveCaller (tc_action active) stamp))) (\<lambda>(a, r, e).
             if a_run a \<noteq> tc_run active \<or> r_token r \<noteq> Some (tc_token active) \<or> a_attempts a \<noteq> tc_attempt active
             then fail callerNotActive
             else
               andThen (orError (unprotoSpec E (e_spec e))) (\<lambda>callerSpec.
               if a_env a = envID \<or> declared callerSpec child then ret ()
               else fail (Rpc PermissionDenied ''child environment is not a declared dependency''))) w2 = (Inr u, v)"
    by (elim andThen_InrE) (simp split: if_splits)
  from k obtain a r' e w3 where c: "mapErr (\<lambda>_. callerNotActive) (one (getActiveCaller (tc_action active) stamp)) w2 = (Inr (a, r', e), w3)"
    and f: "a_run a = tc_run active" "r_token r' = Some (tc_token active)" "a_attempts a = tc_attempt active"
      "\<exists>sp. unprotoSpec E (e_spec e) = Inr sp \<and> (a_env a = envID \<or> declared sp child)"
    by (auto elim!: andThen_InrE simp: orError_Inr split: if_splits)
  from mapErr_one [OF l] mapErr_one [OF o] mapErr_one [OF c] have
    "t_runs (tabs w) (tc_run active) = Some r" "t_actions (tabs w) root = Some rr"
    "getActiveCaller (tc_action active) stamp (tabs w) = Some (a, r', e)" by simp_all
  moreover from this(3) have "t_actions (tabs w) (tc_action active) = Some a" "t_envs (tabs w) (a_env a) = Some e"
    "t_runs (tabs w) (a_run a) = Some r'" "a_status a = SRunning \<or> a_status a = SWaiting" "stamp < r_lease r'"
    by (auto simp: getActiveCaller_def readTaskActionRow_def split: option.splits if_splits)
  moreover have "\<not> ended (a_status rr)" using \<open>\<not> terminal _\<close> by (simp add: terminal_status)
  ultimately show ?thesis
    unfolding authorized_def using root f by (intro exI [of _ r] exI [of _ root] exI [of _ rr] exI [of _ a] exI [of _ e]) auto
qed

lemma childAction_Inr:
  assumes "childAction L C s active env entry stored key stamp w = (Inr i, w')"
  obtains (existing) a where "t_actionKeys (tabs w) (tc_run active, key) = Some i" "t_actions (tabs w) i = Some a"
      "sameCall active env entry stored a" "tabs w' = tabs w"
  | (created) x y where "t_actionKeys (tabs w) (tc_run active, key) = None \<or> (\<exists>j. t_actionKeys (tabs w) (tc_run active, key) = Some j \<and> t_actions (tabs w) j = None)"
      "insertTaskAction i (newAction (tc_run active) (Some (tc_action active)) env entry stored stamp) key (tabs w) = Inr (Some i, x)"
      "sameOther x (tabs w')" "tabs y = x" "AppendActionStatus L C s i False y = (Inr (), w')"
proof -
  let ?row = "newAction (tc_run active) (Some (tc_action active)) env entry stored stamp"
  from assms [unfolded childAction_def] obtain ex v where q: "query (getTaskActionByIdempotency (tc_run active) key) w = (Inr ex, v)"
    and k: "(case ex of
       Some (i, a) \<Rightarrow> if sameCall active env entry stored a then ret i else fail otherAction
     | None \<Rightarrow> andThen newID (\<lambda>i. andThen (stmt (insertTaskAction i ?row key)) (\<lambda>inserted.
         case inserted of
           None \<Rightarrow>
             andThen (mapErr (\<lambda>_. otherAction) (one (getTaskActionByIdempotency (tc_run active) key))) (\<lambda>(j, a).
             if sameCall active env entry stored a then ret j else fail otherAction)
         | Some j \<Rightarrow> andThen (AppendActionStatus L C s j False) (\<lambda>_. ret j)))) v = (Inr i, w')"
    by (rule andThen_InrE)
  from q have q: "getTaskActionByIdempotency (tc_run active) key (tabs w) = ex" "tabs v = tabs w"
    by (auto simp: query_Inr dest: call_result)
  show thesis
  proof (cases ex)
    case (Some p)
    with k obtain a where "p = (i, a)" "sameCall active env entry stored a" "w' = v"
      by (cases p) (auto split: if_splits)
    with Some q existing show thesis by (auto simp: getTaskActionByIdempotency_def split: option.splits)
  next
    case None
    from k [unfolded None option.case] obtain i' v1 where
      k: "andThen (stmt (insertTaskAction i' ?row key)) (\<lambda>inserted.
         case inserted of
           None \<Rightarrow>
             andThen (mapErr (\<lambda>_. otherAction) (one (getTaskActionByIdempotency (tc_run active) key))) (\<lambda>(j, a).
             if sameCall active env entry stored a then ret j else fail otherAction)
         | Some j \<Rightarrow> andThen (AppendActionStatus L C s j False) (\<lambda>_. ret j)) v1 = (Inr i, w')" and v1: "tabs v1 = tabs v"
      by (rule newIDE)
    from k obtain ins v2 where st: "stmt (insertTaskAction i' ?row key) v1 = (Inr ins, v2)"
      and k: "(case ins of
           None \<Rightarrow>
             andThen (mapErr (\<lambda>_. otherAction) (one (getTaskActionByIdempotency (tc_run active) key))) (\<lambda>(j, a).
             if sameCall active env entry stored a then ret j else fail otherAction)
         | Some j \<Rightarrow> andThen (AppendActionStatus L C s j False) (\<lambda>_. ret j)) v2 = (Inr i, w')"
      by (rule andThen_InrE)
    from st v1 q have t: "insertTaskAction i' ?row key (tabs w) = Inr (ins, tabs v2)" by (auto simp: stmt_Inr)
    show thesis
    proof (cases ins)
      case None
      with t have "tabs v2 = tabs w" by (auto simp: insertTaskAction_def split: if_splits)
      moreover from k [unfolded None option.case] have "getTaskActionByIdempotency (tc_run active) key (tabs v2) \<noteq> None"
        by (auto elim!: andThen_InrE dest!: mapErr_one)
      ultimately show thesis using q \<open>ex = None\<close> by simp
    next
      case (Some j)
      with t have j: "j = i'" by (auto simp: insertTaskAction_def split: if_splits)
      from k [unfolded Some option.case] obtain u where "AppendActionStatus L C s j False v2 = (Inr u, w')" "i = j"
        by (auto elim!: andThen_InrE)
      from keepsD [OF AppendActionStatus_other this(1)] this(2) j t Some q \<open>ex = None\<close> created [of "tabs v2" v2] \<open>AppendActionStatus L C s j False v2 = (Inr u, w')\<close> show thesis
        by (auto simp: getTaskActionByIdempotency_def split: option.splits)
    qed
  qed
qed

lemma createActionTx_Inr:
  assumes "createActionTx L E C s active env entry spec key stamp w = (Inr i, w')"
  obtains envID row stored v u where "resolves L E env entry spec (tabs w) envID row stored"
    "authorized E active env envID row stamp (tabs w)" "tabs v = tabs w"
    "childAction L C s active envID (int entry) stored key stamp v = (Inr i, u)"
    "insertTaskActionEdge (tc_run active) i (tc_action active) (tabs u) = Inr ((), tabs w')"
proof -
  from assms [unfolded createActionTx_def] obtain p v where l: "lookupTask L E env entry w = (Inr p, v)"
    and k: "(case p of (envID, row, ep) \<Rightarrow>
     andThen (orError (resolvedActionSpec E ep spec)) (\<lambda>stored.
     andThen (authorizeCall E active env envID row stamp) (\<lambda>_.
     andThen (childAction L C s active envID (int entry) stored key stamp) (\<lambda>i.
     andThen (stmt (insertTaskActionEdge (tc_run active) i (tc_action active))) (\<lambda>_.
     ret i))))) v = (Inr i, w')"
    by (rule andThen_InrE)
  obtain envID row ep where p: "p = (envID, row, ep)" by (cases p)
  from k [unfolded p prod.case] obtain stored v1 a v2 j v3 e v4 where o: "orError (resolvedActionSpec E ep spec) v = (Inr stored, v1)"
    and au: "authorizeCall E active env envID row stamp v1 = (Inr a, v2)"
    and c: "childAction L C s active envID (int entry) stored key stamp v2 = (Inr j, v3)"
    and e: "stmt (insertTaskActionEdge (tc_run active) j (tc_action active)) v3 = (Inr e, v4)"
    and j: "ret j v4 = (Inr i, w')"
    by (elim andThen_InrE) (rule that)
  note res = lookup_resolves [OF l [unfolded p] o]
  from authorizeCall_Inr [OF au] sameD [OF authorizeCall_same au] res
  have "authorized E active env envID row stamp (tabs w)" "tabs v2 = tabs w" by simp_all
  moreover from e j have "insertTaskActionEdge (tc_run active) i (tc_action active) (tabs v3) = Inr ((), tabs w')"
    by (auto simp: stmt_Inr)
  ultimately show thesis using that res(1) c j by simp
qed

lemma edge_step:
  assumes "insertTaskActionEdge run s d t = Inr ((), t')" and "t_actions t s = Some a" and "a_caller a = Some d"
  shows "dbStep t t'" "t' = t\<lparr>t_edges := insert (run, s, d) (t_edges t)\<rparr>"
proof -
  from assms show t': "t' = t\<lparr>t_edges := insert (run, s, d) (t_edges t)\<rparr>"
    by (auto simp: insertTaskActionEdge_def Let_def split: if_splits)
  from assms(1,2) have run: "a_run a = run"
    by (auto simp: insertTaskActionEdge_def Let_def split: if_splits)
  show "dbStep t t'"
    unfolding dbStep_def
  proof (intro impI conjI)
    assume ok: "dbOK t"
    show "kept t t'" by (auto simp: kept_def grows_def t')
    show "dbOK t'"
    proof (rule dbOKI)
      show "actionOK t' i b" if "t_actions t' i = Some b" for i b
        using that dbOK_rows(1) [OF ok] by (simp add: t' actionOK_def)
      show "runOK t' i r" if "t_runs t' i = Some r" for i r
        using that dbOK_rows(2) [OF ok] by (simp add: t' runOK_def)
      show "\<exists>b. t_actions t' x = Some b \<and> a_run b = r \<and> a_caller b = Some y" if "(r, x, y) \<in> t_edges t'" for r x y
        using that dbOK_keys(4) [OF ok] assms(2,3) run by (auto simp: t')
    qed (use dbOK_ids [OF ok] dbOK_keys(1-3) [OF ok] in \<open>simp_all add: t'\<close>)
  qed
qed

lemma addChild_edge:
  assumes a: "authorized E active child envID row stamp t"
    and ins: "insertTaskAction i (newAction (tc_run active) (Some (tc_action active)) envID n stored stamp) key t = Inr (Some i, x)"
    and env: "t_envs t envID = Some row" and n: "1 \<le> n" "n < 2 ^ 32" and ok: "dbOK t"
  shows "dbOK x \<and> kept t x"
proof -
  let ?row = "newAction (tc_run active) (Some (tc_action active)) envID n stored stamp"
  from a obtain r b root rr where r: "t_runs t (tc_run active) = Some r" "r_ns r = e_ns row"
    "t_actions t (tc_action active) = Some b" "a_run b = tc_run active"
    and root: "r_root r = Some root" "t_actions t root = Some rr" "\<not> ended (a_status rr)"
    unfolding authorized_def by blast
  from ins have x: "x = (addAction i ?row t)\<lparr>t_actionKeys := (t_actionKeys t)((a_run ?row, key) \<mapsto> i)\<rparr>"
    and i: "t_actions t i = None" and k: "t_actionKeys t (a_run ?row, key) = None"
    by (auto simp: insertTaskAction_def actionFits_def split: if_splits)
  show ?thesis
    by (rule dbOK_addChild [OF ok i, where r = r and e = row and b = b and c = "tc_action active", OF _ _ _ _ _ _ _ _ _ k _ x])
      (use r root env n in \<open>simp_all add: newAction_def\<close>)
qed

lemma createActionTx_step:
  assumes "createActionTx L E C s active env entry spec key stamp w = (Inr i, w')"
  shows "dbStep (tabs w) (tabs w')"
  unfolding dbStep_def
proof
  assume ok: "dbOK (tabs w)"
  from assms obtain envID row stored v u where res: "resolves L E env entry spec (tabs w) envID row stored"
    and au: "authorized E active env envID row stamp (tabs w)" and v: "tabs v = tabs w"
    and c: "childAction L C s active envID (int entry) stored key stamp v = (Inr i, u)"
    and e: "insertTaskActionEdge (tc_run active) i (tc_action active) (tabs u) = Inr ((), tabs w')"
    by (rule createActionTx_Inr)
  from res have env: "t_envs (tabs w) envID = Some row" "1 \<le> int entry" "int entry < 2 ^ 32"
    by (auto simp: resolves_def)
  from c have "dbOK (tabs u) \<and> kept (tabs w) (tabs u) \<and> (\<exists>a. t_actions (tabs u) i = Some a \<and> a_caller a = Some (tc_action active))"
  proof (cases rule: childAction_Inr)
    case (existing a)
    with v ok show ?thesis by (auto simp: sameCall_def kp.refl)
  next
    case (created x)
    with v have ins: "insertTaskAction i (newAction (tc_run active) (Some (tc_action active)) envID (int entry) stored stamp) key
      (tabs w) = Inr (Some i, x)" by simp
    from addChild_edge [OF au ins env ok] have x: "dbOK x \<and> kept (tabs w) x" .
    have "t_actions x i = Some (newAction (tc_run active) (Some (tc_action active)) envID (int entry) stored stamp)"
      using ins by (auto simp: insertTaskAction_def addAction_def split: if_splits)
    with x rewritten_step [OF sameOther_rewritten [OF created(3)]] sameOther_fields(2) [OF created(3)]
    show ?thesis by (auto simp: dbStep_def newAction_def intro: kept_trans)
  qed
  then obtain a where a: "dbOK (tabs u)" "kept (tabs w) (tabs u)" "t_actions (tabs u) i = Some a" "a_caller a = Some (tc_action active)"
    by blast
  from edge_step(1) [OF e a(3,4)] a(1,2) show "kept (tabs w) (tabs w') \<and> dbOK (tabs w')"
    by (auto simp: dbStep_def intro: kept_trans)
qed

lemma CreateTaskAction_step:
  assumes "\<And>active add i. ctx = Some active \<Longrightarrow> tc_add active = Some add \<Longrightarrow> keeps dbStep (add i)"
  shows "keeps dbStep (CreateTaskAction L E C s ctx env entry spec key)"
proof (cases ctx)
  case None
  then show ?thesis by (simp add: CreateTaskAction_def db.w.fail)
next
  case (Some active)
  let ?after = "\<lambda>i. case tc_add active of None \<Rightarrow> fail (invalidTask ''run graph is unavailable'')
    | Some add \<Rightarrow> andThen (add i) (\<lambda>_. readTaskAction L E C i)"
  have after: "keeps dbStep (?after i)" for i
    by (cases "tc_add active") (auto intro: db.w.fail db.w.seq assms Some same_step [OF readTaskAction_same])
  have "keeps dbStep (andThen (transaction (\<lambda>e. e) (\<lambda>e. e) (createActionTx L E C s active env entry as key stamp)) ?after)" for as stamp
    by (rule db.w.seq [OF transaction_step [OF createActionTx_step] after])
  then have "keeps dbStep (\<lambda>w. andThen (transaction (\<lambda>e. e) (\<lambda>e. e) (createActionTx L E C s active env entry as key (clock w))) ?after w)" for as
    by (rule within_clock)
  then show ?thesis
    unfolding CreateTaskAction_def Some option.case by (intro db.w.seq same_step [OF validateRequest_same])
qed

subsection \<open>\<open>CancelRun\<close>, \<open>RegisterEnvironment\<close> and \<open>Transition\<close>\<close>

lemma cancelRow_kept: "actionKept a (cancelRow run stamp a)"
  by (simp add: cancelRow_def actionKept_def)

lemma cancelRunIfActive_step: "cancelRunIfActive run stamp t = Inr (n, t') \<Longrightarrow> dbStep t t'"
  by (rule rewritten_step, rule rewrittenI [where fr = "\<lambda>_ r. r" and fa = "\<lambda>_ a. if runActive run t then cancelRow run stamp a else a"])
    (auto simp: cancelRunIfActive_def cancelRow_kept option.map_ident split: if_splits)

lemma clearRunClaim_step: "clearRunClaim run t = Inr (n, t') \<Longrightarrow> dbStep t t'"
  by (rule rewritten_step, rule rewrittenI [where fr = "\<lambda>i r. if i = run then r\<lparr>r_token := None, r_lease := 0\<rparr> else r" and fa = "\<lambda>_ a. a"])
    (auto simp: clearRunClaim_def option.map_ident)

lemma stmt_mapped: "(\<And>t x t'. f t = Inr (x, t') \<Longrightarrow> dbStep t t') \<Longrightarrow> keeps dbStep (mapErr h (stmt f))"
  by (rule db.w.maps [OF db.statement])

lemma CancelRun_step: "keeps dbStep (CancelRun L C s name)"
proof -
  have "keeps dbStep (cancelTx L C s i stamp)" for i stamp
    unfolding cancelTx_def
    by (intro db.w.seq db.w.qry db.w.cond db.w.fail db.w.ret stmt_mapped db.statement
        other_step [OF AppendStatus_other]) (erule cancelRunIfActive_step clearRunClaim_step)+
  then have "keeps dbStep (andThen (transaction (\<lambda>e. e) (\<lambda>e. e) (cancelTx L C s i stamp)) (\<lambda>_. readRunMessage L C i))" for i stamp
    by (intro db.w.seq db.body same_step [OF readRunMessage_same])
  then have "keeps dbStep (\<lambda>w. andThen (transaction (\<lambda>e. e) (\<lambda>e. e) (cancelTx L C s i (clock w))) (\<lambda>_. readRunMessage L C i) w)" for i
    by (rule within_clock)
  then show ?thesis unfolding CancelRun_def by (cases "uuidParse L name") (simp_all add: db.w.fail)
qed

lemma lookupAll_same: "keeps same (lookupAll L ds)"
proof (induction ds)
  case Nil
  show ?case unfolding lookupAll.simps by (rule sm.w.ret)
next
  case (Cons d ds)
  show ?case unfolding lookupAll.simps by (intro sm.w.seq lookupEnvironment_same Cons.IH)
qed

lemma RegisterEnvironment_step: "keeps dbStep (RegisterEnvironment L E up runtime request)"
proof -
  have tx: "keeps dbStep (transaction (\<lambda>e. e) (\<lambda>e. e) (registerTx L i row deps))" for i row deps
    unfolding registerTx_def
    by (intro db.body db.w.seq db.w.cond db.statement same_step [OF lookupAll_same] db.w.ret) (erule insertEnvironment_step)
  have blob: "keeps dbStep (requireBlob msg digest)" for msg digest
    unfolding requireBlob_def by (intro db.rules)
  show ?thesis
    unfolding RegisterEnvironment_def Let_def by (intro db.w.cond db.w.fail db.w.alt db.w.opt db.w.seq db.w.qry db.w.ret db.new tx blob)
qed

lemma transitionRun_step: "transitionRunTaskAction x stamp t = Inr (n, t') \<Longrightarrow> dbStep t t'"
  by (rule rewritten_step, rule rewrittenI [where fr = "\<lambda>_ r. r" and
        fa = "\<lambda>i a. if i = t_node x \<and> transitionFits x stamp t then transitionRow x stamp a else a"])
    (auto simp: transitionRunTaskAction_def transitionFits_def transitionRow_def actionKept_def option.map_ident
      split: if_splits option.splits)

lemma Transition_step: "keeps dbStep (Transition L C s x)"
proof -
  have "keeps dbStep (transaction (\<lambda>e. e) (\<lambda>e. e) (transitionTx L C s x stamp))" for stamp
    unfolding transitionTx_def
    by (intro db.body db.w.seq db.w.cond db.w.fail db.w.ret db.statement same_step [OF one_same]
        other_step [OF AppendStatus_other] other_step [OF AppendActionStatus_other]) (erule transitionRun_step)
  then have "keeps dbStep (\<lambda>w. transaction (\<lambda>e. e) (\<lambda>e. e) (transitionTx L C s x (clock w)) w)"
    by (rule within_clock)
  moreover have "Transition L C s x = (\<lambda>w. transaction (\<lambda>e. e) (\<lambda>e. e) (transitionTx L C s x (clock w)) w)"
    by (rule ext) (simp add: Transition_def)
  ultimately show ?thesis by simp
qed

end
