(* ===== verification/Run_Worker.thy ===== *)
theory Run_Worker
  imports Service_Runs Graph_Execute
begin

section \<open>The run worker\<close>

text \<open>
  \<open>internal/lutra/run_worker.go\<close>: claiming a run, renewing and releasing the claim, loading
  the run's actions into a graph, the cache key and the execution request of an action, and
  adding a child action to the running graph, with the claim queries of
  \<open>db/queries/runs.sql\<close>. The executor's own state is that of \<open>Graph_Model\<close>, over the
  worlds of \<open>World\<close>.
\<close>

definition seconds :: "int \<Rightarrow> int" where
  "seconds n = n * 1000000000"

subsection \<open>The claim\<close>

definition hasOpenAction :: "uuid \<Rightarrow> tables \<Rightarrow> bool" where
  "hasOpenAction run t \<longleftrightarrow>
     list_ex (\<lambda>i. case t_actions t i of None \<Rightarrow> False | Some a \<Rightarrow> a_run a = run \<and> \<not> ended (a_status a)) (t_actionIds t)"

definition claimable :: "time \<Rightarrow> tables \<Rightarrow> uuid \<Rightarrow> bool" where
  "claimable stamp t i \<longleftrightarrow>
     (case t_runs t i of
        None \<Rightarrow> False
      | Some r \<Rightarrow> (r_token r = None \<or> r_lease r \<le> stamp) \<and> r_root r \<noteq> None \<and> hasOpenAction i t)"

definition runAge :: "tables \<Rightarrow> uuid \<Rightarrow> time \<times> uuid" where
  "runAge t i = (case t_runs t i of None \<Rightarrow> (0, i) | Some r \<Rightarrow> (r_created r, i))"

definition claimedRow :: "uuid \<Rightarrow> time \<Rightarrow> int \<Rightarrow> run_row \<Rightarrow> run_row" where
  "claimedRow token stamp lease r =
     r\<lparr>r_token := Some token, r_lease := stamp + seconds lease, r_attempts := r_attempts r + 1\<rparr>"

definition claimRun :: "uuid \<Rightarrow> int \<Rightarrow> time \<Rightarrow> tables \<Rightarrow> goerr + uuid option \<times> tables" where
  "claimRun token lease stamp t =
     (case sort_key (runAge t) (filter (claimable stamp t) (t_runIds t)) of
        [] \<Rightarrow> Inr (None, t)
      | i # _ \<Rightarrow> Inr (Some i,
          t\<lparr>t_runs := (t_runs t)(i := map_option (claimedRow token stamp lease) (t_runs t i))\<rparr>))"

definition holdsClaim :: "uuid \<Rightarrow> uuid \<Rightarrow> time \<Rightarrow> tables \<Rightarrow> bool" where
  "holdsClaim run token stamp t \<longleftrightarrow>
     (case t_runs t run of None \<Rightarrow> False | Some r \<Rightarrow> r_token r = Some token \<and> r_lease r > stamp)"

definition renewRunLease :: "uuid \<Rightarrow> uuid \<Rightarrow> int \<Rightarrow> time \<Rightarrow> tables \<Rightarrow> goerr + nat \<times> tables" where
  "renewRunLease run token lease stamp t =
     (if holdsClaim run token stamp t
      then Inr (1, t\<lparr>t_runs := (t_runs t)(run := map_option (\<lambda>r. r\<lparr>r_lease := stamp + seconds lease\<rparr>) (t_runs t run))\<rparr>)
      else Inr (0, t))"

definition releaseRunClaim :: "uuid \<Rightarrow> uuid \<Rightarrow> tables \<Rightarrow> goerr + nat \<times> tables" where
  "releaseRunClaim run token t =
     (if (case t_runs t run of None \<Rightarrow> False | Some r \<Rightarrow> r_token r = Some token)
      then Inr (1, t\<lparr>t_runs := (t_runs t)(run := map_option (\<lambda>r. r\<lparr>r_token := None, r_lease := 0\<rparr>) (t_runs t run))\<rparr>)
      else Inr (0, t))"

definition resetRow :: "uuid \<Rightarrow> time \<Rightarrow> action_row \<Rightarrow> action_row" where
  "resetRow run stamp a =
     (if a_run a = run \<and> (a_status a = SRunning \<or> a_status a = SWaiting)
      then a\<lparr>a_status := Queued, a_updated := stamp\<rparr> else a)"

definition resetRunActions :: "uuid \<Rightarrow> uuid \<Rightarrow> time \<Rightarrow> tables \<Rightarrow> goerr + unit \<times> tables" where
  "resetRunActions run token stamp t =
     Inr ((), if holdsClaim run token stamp t
              then t\<lparr>t_actions := (\<lambda>i. map_option (resetRow run stamp) (t_actions t i))\<rparr> else t)"

text \<open>One turn of \<open>loop\<close>, once an owner's place is free: no row is no run.\<close>

definition claimNext :: "uuid \<Rightarrow> uuid option act" where
  "claimNext token w = stmt (claimRun token 30 (clock w)) w"

text \<open>One tick of \<open>renew\<close>: whether it cancels the run's context.\<close>

definition renewTick :: "uuid \<Rightarrow> uuid \<Rightarrow> world \<Rightarrow> bool \<times> world" where
  "renewTick run token w =
     (case stmt (renewRunLease run token 30 (clock w)) w of
        (Inr n, v) \<Rightarrow> (n \<noteq> 1, v)
      | (Inl _, v) \<Rightarrow> (True, v))"

definition releaseClaim :: "uuid \<Rightarrow> uuid \<Rightarrow> unit act" where
  "releaseClaim run token w = (Inr (), snd (stmt (releaseRunClaim run token) w))"

subsection \<open>From rows to nodes\<close>

text \<open>The canonical CBOR encoding of the server's part of a cache key is a parameter.\<close>

record cacheServer =
  cs_provider :: string
  cs_runtime :: string
  cs_image :: image
  cs_deps :: "(string \<times> string) list" \<comment> \<open>name and version\<close>

definition depPair :: "envID option \<Rightarrow> string \<times> string" where
  "depPair d = (case d of None \<Rightarrow> ([], []) | Some i \<Rightarrow> (id_name i, id_version i))"

text \<open>A nil key stands for an error.\<close>

definition actionCacheKey :: "encodings \<Rightarrow> (cacheServer \<Rightarrow> goerr + bytes) \<Rightarrow> string \<Rightarrow> env_row \<Rightarrow> actionSpec \<Rightarrow> bytes" where
  "actionCacheKey E marshal runtime e spec =
     (case unprotoSpec E (e_spec e) of
        Inl _ \<Rightarrow> []
      | Inr environment \<Rightarrow>
          (case marshal \<lparr>cs_provider = e_provider e, cs_runtime = runtime, cs_image = specImage environment,
                  cs_deps = map depPair (es_deps environment)\<rparr> of
             Inl _ \<Rightarrow> []
           | Inr serverBytes \<Rightarrow>
               sha256 (bytesOf ''lutra.task-cache.v1'' @ [0] @ as_key spec @ serverBytes)))"

definition stateOf :: "status \<Rightarrow> state" where
  "stateOf s = (case s of Succeeded \<Rightarrow> Done | SFailed \<Rightarrow> Failed | SCanceled \<Rightarrow> Canceled | _ \<Rightarrow> Pending)"

definition graphNode :: "encodings \<Rightarrow> (cacheServer \<Rightarrow> goerr + bytes) \<Rightarrow> string \<Rightarrow> listedRow \<Rightarrow> goerr + node" where
  "graphNode E marshal runtime row =
     (case row of (i, a, e) \<Rightarrow>
      case unprotoAction E (a_spec a) of
        Inl x \<Rightarrow> Inl x
      | Inr spec \<Rightarrow>
          (let key = (if as_cache spec then actionCacheKey E marshal runtime e spec else []) in
           if as_cache spec \<and> key = [] then Inl (Plain ''invalid cached task environment'')
           else Inr
             \<lparr>nodeID = i, parentID = a_caller a, attempt = a_attempts a, failures = a_failures a,
              maxAttempts = max (as_attempts spec) 1, nstate = stateOf (a_status a), waitingOn = NoWait,
              imageKey = e_image e, noutput = a_output a, cacheKey = key, cacheHit = False, nerror = a_error a,
              nextAttemptAt = (case a_next a of None \<Rightarrow> zeroTime | Some x \<Rightarrow> x), prerequisites = []\<rparr>))"

fun graphNodes :: "encodings \<Rightarrow> (cacheServer \<Rightarrow> goerr + bytes) \<Rightarrow> string \<Rightarrow> listedRow list \<Rightarrow> goerr + node list" where
  "graphNodes E marshal runtime [] = Inr []"
| "graphNodes E marshal runtime (row # rows) =
     (case graphNode E marshal runtime row of
        Inl e \<Rightarrow> Inl e
      | Inr n \<Rightarrow>
          (case graphNodes E marshal runtime rows of Inl e \<Rightarrow> Inl e | Inr ns \<Rightarrow> Inr (n # ns)))"

record envExecution =
  ex_env :: envID
  ex_provider :: string
  ex_spec :: envSpec
  ex_entry :: int
  ex_input :: bytes
  ex_envs :: "envID option list"
  ex_run :: string
  ex_action :: string
  ex_attempt :: int

definition environmentExecution :: "lib \<Rightarrow> encodings \<Rightarrow> listedRow \<Rightarrow> uuid \<Rightarrow> int \<Rightarrow> goerr + envExecution" where
  "environmentExecution L E row run att =
     (case row of (i, a, e) \<Rightarrow>
      case unprotoSpec E (e_spec e) of
        Inl x \<Rightarrow> Inl x
      | Inr spec \<Rightarrow>
          (case unprotoAction E (a_spec a) of
             Inl x \<Rightarrow> Inl x
           | Inr action \<Rightarrow>
               if a_entry a < 1 \<or> a_entry a > int (length (es_entries spec))
               then Inl (Plain ''entrypoint is not registered'')
               else Inr
                 \<lparr>ex_env = environmentIdentifier L e, ex_provider = e_provider e, ex_spec = spec,
                  ex_entry = a_entry a mod 2 ^ 32, ex_input = as_input action,
                  ex_envs = Some (environmentIdentifier L e) # es_deps spec,
                  ex_run = uuidString L run, ex_action = uuidString L i, ex_attempt = att\<rparr>))"

subsection \<open>\<open>drive\<close>\<close>

text \<open>Lines 185 to 204: the transaction that resets the run's actions and reads them.\<close>

definition loadTx :: "uuid \<Rightarrow> uuid \<Rightarrow> time \<Rightarrow> listedRow list act" where
  "loadTx run token stamp =
     andThen (one (\<lambda>t. t_runs t run)) (\<lambda>_.
     andThen (stmt (resetRunActions run token stamp)) (\<lambda>_.
     query (runRows run)))"

definition driverOpts :: "lib \<Rightarrow> codecs \<Rightarrow> logService \<Rightarrow> slotPool \<Rightarrow> (nat \<Rightarrow> time) \<Rightarrow> uuid \<Rightarrow> uuid \<Rightarrow> world opts" where
  "driverOpts L C s slots timer run token =
     \<lparr>o_run = run, o_token = token, o_slots = 0, o_pool = Some slots, o_clock = timer,
      o_store = Some (graphStore L C s), o_hasRunner = True, o_hasImages = True, o_hasCache = True,
      o_backoff = None\<rparr>"

text \<open>The graph and the rows with which \<open>drive\<close> enters \<open>graph.Run\<close>; an error ends \<open>drive\<close>.\<close>

definition loadGraph :: "lib \<Rightarrow> encodings \<Rightarrow> codecs \<Rightarrow> logService \<Rightarrow> (cacheServer \<Rightarrow> goerr + bytes) \<Rightarrow> string \<Rightarrow> slotPool \<Rightarrow>
    (nat \<Rightarrow> time) \<Rightarrow> uuid \<Rightarrow> uuid \<Rightarrow> (world exec \<times> (uuid \<rightharpoonup> listedRow)) act" where
  "loadGraph L E C s marshal runtime slots timer run token w =
     andThen (transaction (\<lambda>e. e) (\<lambda>e. e) (loadTx run token (clock w))) (\<lambda>rows.
     andThen (orError (graphNodes E marshal runtime rows)) (\<lambda>snapshot v.
     ret (New snapshot (driverOpts L C s slots timer run token) v,
          map_of (map (\<lambda>row. (fst row, row)) rows)) v)) w"

subsection \<open>The driver's callbacks\<close>

text \<open>
  \<open>identity.add\<close>: a child created by the running task joins the graph. \<open>d.rows\<close> is the
  driver's map of rows. The query runs on the executor's database.
\<close>

fun findRow :: "uuid \<Rightarrow> listedRow list \<Rightarrow> listedRow option" where
  "findRow child [] = None"
| "findRow child (row # rows) = (if fst row = child then Some row else findRow child rows)"

definition addChild :: "lib \<Rightarrow> encodings \<Rightarrow> (cacheServer \<Rightarrow> goerr + bytes) \<Rightarrow> string \<Rightarrow> uuid \<Rightarrow> uuid \<Rightarrow> int \<Rightarrow> uuid \<Rightarrow>
    (uuid \<rightharpoonup> listedRow) \<Rightarrow> world exec \<Rightarrow> goerr option \<times> (uuid \<rightharpoonup> listedRow) \<times> world exec" where
  "addChild L E marshal runtime run parent att child rows s =
     (case Get None child s of
        (_, None) \<Rightarrow> (None, rows, s)
      | (_, Some _) \<Rightarrow>
          (case query (runRows run) (db s) of
             (Inl e, v) \<Rightarrow> (Some e, rows, s\<lparr>db := v\<rparr>)
           | (Inr found, v) \<Rightarrow>
               (case findRow child found of
                  None \<Rightarrow> (Some (Plain (''child action '' @ uuidString L child @ '' is missing'')), rows, s\<lparr>db := v\<rparr>)
                | Some row \<Rightarrow>
                    (case graphNode E marshal runtime row of
                       Inl e \<Rightarrow> (Some e, rows, s\<lparr>db := v\<rparr>)
                     | Inr n \<Rightarrow>
                         (case Add None parent att n (s\<lparr>db := v\<rparr>) of
                            (e, s') \<Rightarrow> (e, rows(child \<mapsto> row), s'))))))"

end
