(* ===== verification/Run_Restore.thy ===== *)
theory Run_Restore
  imports Run_Worker Graph_Persist
begin

section \<open>A run is restored from its rows\<close>

text \<open>
  The graph that \<open>drive\<close> builds from the rows of a run: it passes the executor's validation,
  it has a node for every action of the run, and its nodes agree with the rows, which is
  what \<open>Graph_Persist\<close> then keeps.
\<close>

lemma addSnapshot_nodes:
  assumes "distinct (map nodeID ns)" and "\<And>n. n \<in> set ns \<Longrightarrow> nodes s (nodeID n) = None"
  shows "err (addSnapshot ns s) = err s \<and> db (addSnapshot ns s) = db s \<and> opts (addSnapshot ns s) = opts s \<and>
    nodes (addSnapshot ns s) = (\<lambda>i. case map_of (map (\<lambda>n. (nodeID n, orPending n)) ns) i of None \<Rightarrow> nodes s i | Some n \<Rightarrow> Some n)"
  using assms
proof (induction ns arbitrary: s)
  case (Cons n ns)
  let ?s = "s\<lparr>nodes := (nodes s)(nodeID n \<mapsto> orPending n)\<rparr>"
  have k: "addSnapshot (n # ns) s = addSnapshot ns ?s" using Cons.prems(2) [of n] by (simp add: Let_def)
  have "nodes ?s (nodeID m) = None" if "m \<in> set ns" for m
  proof -
    from that have "nodeID m \<in> nodeID ` set ns" by simp
    with Cons.prems(1) have "nodeID m \<noteq> nodeID n" by auto
    with Cons.prems(2) [of m] that show ?thesis by simp
  qed
  from Cons.IH [OF _ this, simplified] Cons.prems(1) have IH: "err (addSnapshot ns ?s) = err s" "db (addSnapshot ns ?s) = db s" "opts (addSnapshot ns ?s) = opts s"
    "nodes (addSnapshot ns ?s) = (\<lambda>i. case map_of (map (\<lambda>n. (nodeID n, orPending n)) ns) i of None \<Rightarrow> nodes ?s i | Some n \<Rightarrow> Some n)"
    by simp_all
  have "nodeID n \<notin> fst ` set (map (\<lambda>n. (nodeID n, orPending n)) ns)" using Cons.prems(1) by force
  then have "map_of (map (\<lambda>n. (nodeID n, orPending n)) ns) (nodeID n) = None" by (simp add: map_of_eq_None_iff)
  then show ?case unfolding k using IH by (auto simp: fun_eq_iff split: option.splits)
qed (simp add: fun_eq_iff)

lemma New_nodes:
  assumes "distinct (map nodeID ns)"
  shows "err (New ns o' d) = None" "db (New ns o' d) = d" "opts (New ns o' d) = o'"
    "nodes (New ns o' d) = map_of (map (\<lambda>n. (nodeID n, orPending n)) ns)"
proof -
  have "\<exists>s. New ns o' d = addSnapshot ns s \<and> nodes s = Map.empty \<and> err s = None \<and> db s = d \<and> opts s = o'"
    unfolding New_def by (intro exI conjI, rule refl) simp_all
  then obtain s where s: "New ns o' d = addSnapshot ns s" "nodes s = Map.empty" "err s = None" "db s = d" "opts s = o'"
    by blast
  from addSnapshot_nodes [OF assms, of s] s show "err (New ns o' d) = None" "db (New ns o' d) = d"
    "opts (New ns o' d) = o'" "nodes (New ns o' d) = map_of (map (\<lambda>n. (nodeID n, orPending n)) ns)"
    by (simp_all add: fun_eq_iff split: option.splits)
qed

text \<open>The rows of a run.\<close>

lemma set_map_filter: "y \<in> set (List.map_filter f xs) \<longleftrightarrow> (\<exists>x\<in>set xs. f x = Some y)"
  by (induction xs) (auto simp: List.map_filter_simps split: option.splits)

lemma set_runRows:
  "set (runRows run t) = {(i, a, e). i \<in> set (t_actionIds t) \<and> t_actions t i = Some a \<and> t_envs t (a_env a) = Some e \<and> a_run a = run}"
proof -
  have "(i, a, e) \<in> set (runRows run t) \<longleftrightarrow> i \<in> set (t_actionIds t) \<and> t_actions t i = Some a \<and>
      t_envs t (a_env a) = Some e \<and> a_run a = run" for i a e
    unfolding runRows_def set_sort set_map_filter
    by (auto simp: readTaskActionRow_def split: option.splits if_splits)
  then show ?thesis by auto
qed

lemma map_filter_fst:
  "distinct is \<Longrightarrow> (\<And>i x. f i = Some x \<Longrightarrow> fst x = i) \<Longrightarrow> distinct (map fst (List.map_filter f is))"
proof (induction "is")
  case (Cons i "is")
  have "fst x \<noteq> i" if "x \<in> set (List.map_filter f is)" for x
    using that Cons.prems unfolding set_map_filter by (metis distinct.simps(2))
  with Cons show ?case by (auto simp: List.map_filter_simps split: option.splits) blast
qed (simp add: List.map_filter_simps)

lemma distinct_runRows: "distinct (t_actionIds t) \<Longrightarrow> distinct (map fst (runRows run t))"
proof -
  assume d: "distinct (t_actionIds t)"
  let ?f = "\<lambda>i. case readTaskActionRow i t of None \<Rightarrow> None
    | Some (a, e) \<Rightarrow> if a_run a = run then Some (i, a, e) else None"
  have "distinct (map fst (List.map_filter ?f (t_actionIds t)))"
    by (rule map_filter_fst [OF d]) (auto split: option.splits if_splits)
  moreover have "mset (map fst (runRows run t)) = mset (map fst (List.map_filter ?f (t_actionIds t)))"
    by (simp add: runRows_def)
  ultimately show ?thesis using mset_eq_imp_distinct_iff by blast
qed

lemma runRows_OK:
  assumes "dbOK t"
  shows "distinct (map fst (runRows run t))"
    "(i, a, e) \<in> set (runRows run t) \<longleftrightarrow> t_actions t i = Some a \<and> a_run a = run \<and> t_envs t (a_env a) = Some e"
    "t_actions t i = Some a \<Longrightarrow> a_run a = run \<Longrightarrow> \<exists>e. (i, a, e) \<in> set (runRows run t)"
proof -
  note ids = dbOK_ids(2) [OF assms]
  show "distinct (map fst (runRows run t))" by (rule distinct_runRows [OF dbOK_ids(1) [OF assms]])
  show "(i, a, e) \<in> set (runRows run t) \<longleftrightarrow> t_actions t i = Some a \<and> a_run a = run \<and> t_envs t (a_env a) = Some e" for e
    using ids by (auto simp: set_runRows)
  assume a: "t_actions t i = Some a" "a_run a = run"
  from dbOK_rows(1) [OF assms a(1)] obtain e where "t_envs t (a_env a) = Some e"
    unfolding actionOK_def by (elim exE conjE) (rule that)
  with a ids show "\<exists>e. (i, a, e) \<in> set (runRows run t)" by (auto simp: set_runRows)
qed

lemma graphNode_Inr:
  assumes "graphNode E marshal runtime (i, a, e) = Inr n"
  shows "nodeID n = i" "parentID n = a_caller a" "prerequisites n = []" "nstate n = stateOf (a_status a)"
    "attempt n = a_attempts a" "failures n = a_failures a" "noutput n = a_output a" "nerror n = a_error a"
    "nextAttemptAt n = (case a_next a of None \<Rightarrow> zeroTime | Some x \<Rightarrow> x)"
  using assms by (auto simp: graphNode_def Let_def split: sum.splits if_splits)

lemma graphNodes_Inr:
  assumes "graphNodes E marshal runtime rows = Inr ns"
  shows "list_all2 (\<lambda>row n. graphNode E marshal runtime row = Inr n) rows ns"
  using assms by (induction rows arbitrary: ns) (auto split: sum.splits)

text \<open>A caller comes before its callees, so the parents form no cycle.\<close>

definition position :: "uuid list \<Rightarrow> uuid \<Rightarrow> nat" where
  "position is i = length (takeWhile (\<lambda>x. x \<noteq> i) is)"

lemma position_less:
  assumes "callerBefore is m" and "i \<in> set is" and "m i = Some a" and "a_caller a = Some c"
  shows "position is c < position is i"
proof -
  from split_list_first [OF assms(2)] obtain xs ys where s: "is = xs @ i # ys" "i \<notin> set xs" by blast
  with assms have c: "c \<in> set xs" by (simp add: callerBefore_def)
  have "takeWhile (\<lambda>x. x \<noteq> i) is = xs"
    unfolding s(1) by (subst takeWhile_append2) (use s(2) in auto)
  moreover have "takeWhile (\<lambda>x. x \<noteq> c) is = takeWhile (\<lambda>x. x \<noteq> c) xs"
    using c s by (metis (mono_tags, lifting) takeWhile_append1)
  moreover have "length (takeWhile (\<lambda>x. x \<noteq> c) xs) < length xs"
    using c by (induction xs) auto
  ultimately show ?thesis by (simp add: position_def)
qed
lemma stateOf_Unset [simp]: "orPending n = n" if "nstate n = stateOf s"
  using that by (simp add: orPending_def stateOf_def split: status.splits)

text \<open>The nodes of a snapshot, one per row.\<close>

lemma snapshot_nodes:
  assumes d: "dbOK t" and g: "graphNodes E marshal runtime (runRows run t) = Inr ns"
  shows "distinct (map nodeID ns)"
    "map_of (map (\<lambda>n. (nodeID n, orPending n)) ns) i = Some n \<longleftrightarrow>
       (\<exists>row\<in>set (runRows run t). fst row = i \<and> graphNode E marshal runtime row = Inr n)"
proof -
  note all = graphNodes_Inr [OF g]
  have ids: "map nodeID ns = map fst (runRows run t)"
    using all by (induction rule: list_all2_induct) (auto dest: graphNode_Inr(1))
  with runRows_OK(1) [OF d] show dist: "distinct (map nodeID ns)" by simp
  have same: "orPending n = n" if "n \<in> set ns" for n
    using all that by (induction rule: list_all2_induct) (auto dest!: graphNode_Inr(4))
  then have pairs: "map (\<lambda>n. (nodeID n, orPending n)) ns = map (\<lambda>n. (nodeID n, n)) ns" by simp
  have "distinct (map fst (map (\<lambda>n. (nodeID n, n)) ns))" using dist by (simp add: comp_def)
  then have "map_of (map (\<lambda>n. (nodeID n, n)) ns) i = Some n \<longleftrightarrow> (i, n) \<in> set (map (\<lambda>n. (nodeID n, n)) ns)"
    by (rule map_of_eq_Some_iff)
  also have "\<dots> \<longleftrightarrow> n \<in> set ns \<and> nodeID n = i" by auto
  also have "\<dots> \<longleftrightarrow> (\<exists>row\<in>set (runRows run t). fst row = i \<and> graphNode E marshal runtime row = Inr n)"
    using all by (induction rule: list_all2_induct) (auto dest: graphNode_Inr(1))
  finally show "map_of (map (\<lambda>n. (nodeID n, orPending n)) ns) i = Some n \<longleftrightarrow>
       (\<exists>row\<in>set (runRows run t). fst row = i \<and> graphNode E marshal runtime row = Inr n)"
    unfolding pairs .
qed

lemma closedAcyclic_order:
  assumes "\<And>i n p. ns i = Some n \<Longrightarrow> p \<in> set (refs n) \<Longrightarrow> p \<in> dom ns \<and> f p < (f i :: nat)"
  shows "closedAcyclic refs ns"
  unfolding closedAcyclic_def
proof
  show "Domain (refRel refs ns) \<subseteq> dom ns" using assms by (auto simp: refRel_def)
  have "refRel refs ns \<subseteq> measure f" using assms by (auto simp: refRel_def)
  then show "acyclic (refRel refs ns)" by (rule acyclic_subset [OF wf_acyclic [OF wf_measure]])
qed

lemma snapshot_valid:
  assumes d: "dbOK t" and g: "graphNodes E marshal runtime (runRows run t) = Inr ns"
  shows "validGraph (map_of (map (\<lambda>n. (nodeID n, orPending n)) ns))"
proof -
  let ?m = "map_of (map (\<lambda>n. (nodeID n, orPending n)) ns)"
  note nodes = snapshot_nodes(2) [OF d g]
  have found: "\<exists>n. graphNode E marshal runtime row = Inr n" if "row \<in> set (runRows run t)" for row
    using graphNodes_Inr [OF g] that by (induction rule: list_all2_induct) auto
  have "closedAcyclic parentRefs ?m"
  proof (rule closedAcyclic_order [where f = "position (t_actionIds t)"])
    fix i n p assume n: "?m i = Some n" and p: "p \<in> set (parentRefs n)"
    from n nodes [of i n] obtain row where row: "row \<in> set (runRows run t)" "fst row = i" "graphNode E marshal runtime row = Inr n"
      by auto
    obtain a e where "row = (i, a, e)" using row(2) by (cases row) simp
    with row have r: "(i, a, e) \<in> set (runRows run t)" "graphNode E marshal runtime (i, a, e) = Inr n" by simp_all
    from p graphNode_Inr(2) [OF r(2)] have c: "a_caller a = Some p"
      by (simp add: parentRefs_def split: option.splits)
    from r(1) have a: "t_actions t i = Some a" "a_run a = run" "i \<in> set (t_actionIds t)" by (auto simp: set_runRows)
    from dbOK_rows(1) [OF d a(1)] c obtain b where b: "t_actions t p = Some b" "a_run b = run"
      by (auto simp: actionOK_def a(2))
    from runRows_OK(3) [OF d b] obtain e' where q: "(p, b, e') \<in> set (runRows run t)" ..
    from found [OF q] obtain n' where "graphNode E marshal runtime (p, b, e') = Inr n'" ..
    with q have "\<exists>row\<in>set (runRows run t). fst row = p \<and> graphNode E marshal runtime row = Inr n'"
      by (intro bexI [of _ "(p, b, e')"]) simp_all
    then have "?m p = Some n'" by (simp only: nodes)
    then have "p \<in> dom ?m" by (rule domI)
    then show "p \<in> dom ?m \<and> position (t_actionIds t) p < position (t_actionIds t) i"
      using position_less [OF dbOK_ids(5) [OF d] a(3,1) c] by simp
  qed
  moreover have "closedAcyclic prerequisites ?m"
  proof (rule closedAcyclic_order [where f = "\<lambda>_. 0"])
    fix i n p assume "?m i = Some n" "p \<in> set (prerequisites n)"
    with nodes graphNode_Inr(3) show "p \<in> dom ?m \<and> (0::nat) < 0" by fastforce
  qed
  ultimately show ?thesis by (simp add: validGraph_def)
qed

text \<open>What loading the graph does to the rows.\<close>

lemma resetRunActions_step: "resetRunActions run token stamp t = Inr (n, t') \<Longrightarrow> dbStep t t'"
  by (rule rewritten_step, rule rewrittenI [where fr = "\<lambda>_ r. r" and
        fa = "\<lambda>_. if holdsClaim run token stamp t then resetRow run stamp else (\<lambda>a. a)"])
    (auto simp: resetRunActions_def resetRow_def actionKept_def ended_def option.map_ident split: if_splits)

lemma loadGraph_Inr:
  assumes "loadGraph L E C s marshal runtime slots timer run token w = (Inr (s0, rows), w')"
  obtains ns t where "resetRunActions run token (clock w) (tabs w) = Inr ((), t)" "tabs w' = t"
    "graphNodes E marshal runtime (runRows run t) = Inr ns"
    "s0 = New ns (driverOpts L C s slots timer run token) w'" "rows = map_of (map (\<lambda>row. (fst row, row)) (runRows run t))"
proof -
  from assms [unfolded loadGraph_def] obtain found v where
    t: "transaction (\<lambda>e. e) (\<lambda>e. e) (loadTx run token (clock w)) w = (Inr found, v)"
    and k: "andThen (orError (graphNodes E marshal runtime found)) (\<lambda>snapshot v.
     ret (New snapshot (driverOpts L C s slots timer run token) v,
          map_of (map (\<lambda>row. (fst row, row)) found)) v) v = (Inr (s0, rows), w')"
    by (rule andThen_InrE)
  from t obtain w1 w2 where b: "loadTx run token (clock w) w1 = (Inr found, w2)"
    and tt: "tabs v = tabs w2" "tabs w1 = tabs w" by (rule transaction_Inr)
  from b [unfolded loadTx_def] obtain r x u y where o: "one (\<lambda>t. t_runs t run) w1 = (Inr r, x)"
    and st: "stmt (resetRunActions run token (clock w)) x = (Inr u, y)"
    and q: "query (runRows run) y = (Inr found, w2)"
    by (elim andThen_InrE) (rule that)
  from one_Inr [OF o] st q tt have "resetRunActions run token (clock w) (tabs w) = Inr ((), tabs v)"
    "found = runRows run (tabs v)"
    by (auto simp: stmt_Inr query_Inr dest!: call_result)
  moreover from k obtain ns where "graphNodes E marshal runtime found = Inr ns"
    "s0 = New ns (driverOpts L C s slots timer run token) w'" "rows = map_of (map (\<lambda>row. (fst row, row)) found)" "w' = v"
    by (auto elim!: andThen_InrE simp: orError_Inr)
  ultimately show thesis using that by blast
qed

lemma stateOf_graphStatus: "ended s \<or> s = Queued \<Longrightarrow> graphStatus (stateOf s) = s"
  by (auto simp: ended_def stateOf_def)

lemma graphNode_row:
  assumes "graphNode E marshal runtime (i, a, e) = Inr n" and "ended (a_status a) \<or> a_status a = Queued"
    and "a_next a \<noteq> Some zeroTime"
  shows "nodeRow n = persistedOf a"
  using graphNode_Inr [OF assms(1)] stateOf_graphStatus [OF assms(2)] assms(3)
  by (auto simp: nodeRow_def persistedOf_def nextOf_def split: option.splits)

lemma reset_status:
  assumes "resetRunActions run token stamp t = Inr (u, t')" and "holdsClaim run token stamp t"
    and "t_actions t' i = Some a" and "a_run a = run"
  shows "ended (a_status a) \<or> a_status a = Queued"
proof -
  from assms(1,2) have "t_actions t' i = map_option (resetRow run stamp) (t_actions t i)"
    by (auto simp: resetRunActions_def)
  with assms(3) obtain b where b: "a = resetRow run stamp b" by auto
  with assms(4) have "a_run b = run" by (simp add: resetRow_def split: if_splits)
  with b show ?thesis by (cases "a_status b") (simp_all add: resetRow_def ended_def)
qed

lemma reset_runs:
  assumes "resetRunActions run token stamp t = Inr (u, t')"
  shows "(\<exists>a. t_actions t' i = Some a \<and> a_run a = run) \<longleftrightarrow> (\<exists>a. t_actions t i = Some a \<and> a_run a = run)"
proof -
  have run: "a_run (resetRow r stamp b) = a_run b" for r b by (simp add: resetRow_def)
  from assms have c: "t_actions t' i = t_actions t i \<or> t_actions t' i = map_option (resetRow run stamp) (t_actions t i)"
    by (auto simp: resetRunActions_def split: if_splits)
  show ?thesis
  proof (cases "t_actions t i")
    case None
    with c show ?thesis by simp
  next
    case (Some a)
    with c obtain b where "t_actions t' i = Some b" "a_run b = a_run a" using run by (metis option.map(2))
    with Some show ?thesis by simp
  qed
qed

text \<open>
  C27: The graph that a worker restores from the rows of a run it has claimed passes the
  executor's validation, has exactly the run's actions as its nodes, and every node agrees
  with its row: running and waiting actions start over as queued, and terminal ones stay.
\<close>

theorem restored_graph:
  assumes "dbOK (tabs w)" and "holdsClaim run token (clock w) (tabs w)"
    and "loadGraph L E C s marshal runtime slots timer run token w = (Inr (s0, rows), w')"
  shows "validGraph (nodes s0) \<and> err s0 = None \<and>
    dom (nodes s0) = {i. \<exists>a. t_actions (tabs w) i = Some a \<and> a_run a = run} \<and>
    (\<forall>i\<in>dom (nodes s0). agrees actionRow s0 i)"
proof -
  from loadGraph_Inr [OF assms(3)] obtain ns where r: "resetRunActions run token (clock w) (tabs w) = Inr ((), tabs w')"
    and g: "graphNodes E marshal runtime (runRows run (tabs w')) = Inr ns"
    and s0: "s0 = New ns (driverOpts L C s slots timer run token) w'" by metis
  from resetRunActions_step [OF r] assms(1) have d: "dbOK (tabs w')" by (simp add: dbStep_def)
  note new = New_nodes [OF snapshot_nodes(1) [OF d g]]
  have nodes: "nodes s0 i = Some n \<longleftrightarrow>
      (\<exists>row\<in>set (runRows run (tabs w')). fst row = i \<and> graphNode E marshal runtime row = Inr n)" for i n
    unfolding s0 new(4) by (rule snapshot_nodes(2) [OF d g])
  have node: "\<exists>n a e. nodes s0 i = Some n \<and> t_actions (tabs w') i = Some a \<and> graphNode E marshal runtime (i, a, e) = Inr n"
    if a: "t_actions (tabs w') i = Some a" "a_run a = run" for i a
  proof -
    from runRows_OK(3) [OF d a] obtain e where q: "(i, a, e) \<in> set (runRows run (tabs w'))" ..
    from graphNodes_Inr [OF g] q obtain n where n: "graphNode E marshal runtime (i, a, e) = Inr n"
      by (induction rule: list_all2_induct) auto
    with q have "nodes s0 i = Some n"
      unfolding nodes by (intro bexI [of _ "(i, a, e)"]) simp_all
    with n a(1) show ?thesis by (intro exI conjI)
  qed
  have source: "\<exists>a. t_actions (tabs w') i = Some a \<and> a_run a = run" if "nodes s0 i = Some n" for i n
  proof -
    from that obtain row where row: "row \<in> set (runRows run (tabs w'))" "fst row = i" unfolding nodes by blast
    obtain j a e where "row = (j, a, e)" by (cases row)
    with row show ?thesis by (auto simp: set_runRows)
  qed
  have "agrees actionRow s0 i" if "nodes s0 i = Some m" for i m
  proof -
    from source [OF that] obtain a where a: "t_actions (tabs w') i = Some a" "a_run a = run" by blast
    from node [OF a] a(1) obtain n e where n: "nodes s0 i = Some n" "graphNode E marshal runtime (i, a, e) = Inr n"
      by auto
    have "a_next a \<noteq> Some zeroTime" using dbOK_rows(1) [OF d a(1)] by (auto simp: actionOK_def)
    from graphNode_row [OF n(2) reset_status [OF r assms(2) a] this] n(1) a(1) show ?thesis
      by (simp add: agrees_def actionRow_def s0 new(2))
  qed
  moreover have "dom (nodes s0) = {i. \<exists>a. t_actions (tabs w') i = Some a \<and> a_run a = run}"
    using node source by (auto simp: dom_def) metis
  moreover have "validGraph (nodes s0)" using snapshot_valid [OF d g] by (simp add: s0 new(4))
  ultimately have a: "\<forall>i\<in>dom (nodes s0). agrees actionRow s0 i" "validGraph (nodes s0)"
    "dom (nodes s0) = {i. \<exists>a. t_actions (tabs w) i = Some a \<and> a_run a = run}"
    unfolding reset_runs [OF r] by blast+
  moreover have "err s0 = None" unfolding s0 by (rule new(1))
  ultimately show ?thesis by blast
qed

end
