(* ===== verification/Run_System.thy ===== *)
theory Run_System
  imports Run_Restore Runlog_Read
begin

section \<open>The services and the workers on one database\<close>

text \<open>
  \<open>api_step\<close>: any request, any call of an executor's store and any statement of a worker's
  claim, by anyone, at any time. Every step keeps \<open>dbOK\<close> and \<open>kept\<close>.
\<close>

inductive api_step :: "lib \<Rightarrow> encodings \<Rightarrow> codecs \<Rightarrow> logService \<Rightarrow> world \<Rightarrow> world \<Rightarrow> bool" for L E C s where
  register: "RegisterEnvironment L E up runtime request w = (r, w') \<Longrightarrow> api_step L E C s w w'"
| create_run: "CreateRun L E C s up env entry spec key w = (r', w') \<Longrightarrow> api_step L E C s w w'"
| create_action: "(\<And>active add i. ctx = Some active \<Longrightarrow> tc_add active = Some add \<Longrightarrow> keeps same (add i)) \<Longrightarrow>
    CreateTaskAction L E C s ctx env entry spec key w = (r'', w') \<Longrightarrow> api_step L E C s w w'"
| cancel_run: "CancelRun L C s name w = (r', w') \<Longrightarrow> api_step L E C s w w'"
| transition: "Transition L C s x w = (u, w') \<Longrightarrow> api_step L E C s w w'"
| append: "Append L s sc name stream aid es w = (p, w') \<Longrightarrow> api_step L E C s w w'"
| claim: "claimNext token w = (c, w') \<Longrightarrow> api_step L E C s w w'"
| renew: "renewTick run token w = (b, w') \<Longrightarrow> api_step L E C s w w'"
| release: "releaseClaim run token w = (u, w') \<Longrightarrow> api_step L E C s w w'"
| load: "loadGraph L E C s marshal runtime slots timer run token w = (g, w') \<Longrightarrow> api_step L E C s w w'"
| time: "clock w \<le> c \<Longrightarrow> api_step L E C s w (w\<lparr>clock := c\<rparr>)"

subsection \<open>The worker's statements\<close>

lemma rewritten_runs:
  assumes "t' = t\<lparr>t_runs := (t_runs t)(run := map_option f (t_runs t run))\<rparr>"
    and "\<And>r. r_ns (f r) = r_ns r \<and> r_created (f r) = r_created r \<and> r_root (f r) = r_root r"
  shows "dbStep t t'"
  by (rule rewritten_step, rule rewrittenI [where fr = "\<lambda>i. if i = run then f else (\<lambda>r. r)" and fa = "\<lambda>_ a. a"])
    (simp_all add: assms option.map_ident)

lemma claimRun_step: "claimRun token lease stamp t = Inr (c, t') \<Longrightarrow> dbStep t t'"
  by (auto simp: claimRun_def db.refl claimedRow_def intro!: rewritten_runs split: list.splits)

lemma renewRunLease_step: "renewRunLease run token lease stamp t = Inr (n, t') \<Longrightarrow> dbStep t t'"
  by (auto simp: renewRunLease_def db.refl intro!: rewritten_runs split: if_splits)

lemma releaseRunClaim_step: "releaseRunClaim run token t = Inr (n, t') \<Longrightarrow> dbStep t t'"
  by (auto simp: releaseRunClaim_def db.refl intro!: rewritten_runs split: if_splits)

lemma loadGraph_step: "keeps dbStep (loadGraph L E C s marshal runtime slots timer run token)"
proof -
  have tx: "keeps dbStep (transaction (\<lambda>e. e) (\<lambda>e. e) (loadTx run token stamp))" for stamp
    unfolding loadTx_def
    by (intro db.body db.w.seq db.w.qry same_step [OF one_same] db.statement) (erule resetRunActions_step)
  let ?rest = "\<lambda>rows. andThen (orError (graphNodes E marshal runtime rows)) (\<lambda>snapshot v.
     ret (New snapshot (driverOpts L C s slots timer run token) v,
          map_of (map (\<lambda>row. (fst row, row)) rows)) v)"
  have "keeps dbStep (?rest rows)" for rows
  proof -
    have "keeps dbStep (\<lambda>v. ret (New snapshot (driverOpts L C s slots timer run token) v, m) v)" for snapshot m
      by (simp add: within_def db.refl)
    then show ?thesis by (intro db.w.seq same_step [OF orError_same])
  qed
  then have "keeps dbStep (andThen (transaction (\<lambda>e. e) (\<lambda>e. e) (loadTx run token stamp)) ?rest)" for stamp
    by (rule db.w.seq [OF tx])
  then have "keeps dbStep (\<lambda>w. andThen (transaction (\<lambda>e. e) (\<lambda>e. e) (loadTx run token (clock w))) ?rest w)"
    by (rule within_clock)
  moreover have "loadGraph L E C s marshal runtime slots timer run token =
      (\<lambda>w. andThen (transaction (\<lambda>e. e) (\<lambda>e. e) (loadTx run token (clock w))) ?rest w)"
    by (rule ext) (simp add: loadGraph_def)
  ultimately show ?thesis by simp
qed

lemma Append_step: "keeps dbStep (Append L s sc name stream aid es)"
proof -
  have "keeps dbStep (validateRun L s sc name)"
    unfolding validateRun_def by (intro same_step sm_rules)
  then show ?thesis
    unfolding Append_def by (intro db.w.seq same_step [OF orFail_same] other_step [OF AppendEntries_other])
qed

lemma api_step_db: "api_step L E C s w w' \<Longrightarrow> dbStep (tabs w) (tabs w')"
proof (induction rule: api_step.cases)
  case (claim token w c w')
  then show ?case
    using keepsD [OF db.statement [of "claimRun token 30 (clock w)", OF claimRun_step]] by (simp add: claimNext_def)
next
  case (renew run token w b w')
  have k: "keeps dbStep (stmt (renewRunLease run token 30 (clock w)))"
    by (rule db.statement) (erule renewRunLease_step)
  obtain r v where st: "stmt (renewRunLease run token 30 (clock w)) w = (r, v)"
    by (rule prod.exhaust)
  from renew(3) st have "w' = v" by (auto simp: renewTick_def split: sum.splits)
  with renew(1,2) keepsD [OF k st] show ?case by simp
next
  case (release run token w u w')
  have k: "keeps dbStep (stmt (releaseRunClaim run token))"
    by (rule db.statement) (erule releaseRunClaim_step)
  obtain r v where st: "stmt (releaseRunClaim run token) w = (r, v)"
    by (rule prod.exhaust)
  from release(3) st have "w' = v" by (auto simp: releaseClaim_def)
  with release(1,2) keepsD [OF k st] show ?case by simp
next
  case (create_action ctx env entry spec key w r w')
  then have "keeps dbStep (CreateTaskAction L E C s ctx env entry spec key)"
    by (intro CreateTaskAction_step same_step)
  from keepsD [OF this] create_action show ?case by simp
next
  case (register up runtime request w r w')
  then show ?case using keepsD [OF RegisterEnvironment_step] by simp
next
  case (create_run up env entry spec key w r w')
  then show ?case using keepsD [OF CreateRun_step] by simp
next
  case (cancel_run name w r w')
  then show ?case using keepsD [OF CancelRun_step] by simp
next
  case (transition x w u w')
  then show ?case using keepsD [OF Transition_step] by simp
next
  case (append sc name stream aid es w p w')
  then show ?case using keepsD [OF Append_step] by simp
next
  case (load marshal runtime slots timer run token w g w')
  then show ?case using keepsD [OF loadGraph_step] by simp
next
  case (time w c)
  then show ?case by (simp add: db.refl)
qed

lemma api_steps_db: "(api_step L E C s)\<^sup>*\<^sup>* w w' \<Longrightarrow> dbStep (tabs w) (tabs w')"
  by (induction rule: rtranclp_induct) (auto simp: db.refl intro: db.trans api_step_db)
end
