(* ===== verification/Run_Listing.thy ===== *)
theory Run_Listing
  imports Run_System
begin

section \<open>Listing a run's actions\<close>

text \<open>
  \<open>ListTaskActions\<close> answers one page and a token for the next. A client that follows the
  tokens gets every action of the run once, in the order of creation.
\<close>

subsection \<open>\<open>base64.RawURLEncoding\<close>\<close>

lemma alphabet_url: "CHR ''-'' \<notin> set alphabet" "CHR ''_'' \<notin> set alphabet"
  by (simp_all add: alphabet_def)

lemma b64char_url:
  assumes "n < 64"
  shows "b64char n \<noteq> CHR ''-''" "b64char n \<noteq> CHR ''_''"
  using assms alphabet_url alphabet_facts(2) nth_mem [of n alphabet] unfolding b64char_def by metis+

lemma stdChar_urlChar: "n < 64 \<Longrightarrow> stdChar (urlChar (b64char n)) = b64char n"
  using b64char_url [of n] by (simp add: stdChar_def urlChar_def)

lemma urlChar_plain:
  assumes "n < 64"
  shows "urlChar (b64char n) \<noteq> CHR 0x0A" "urlChar (b64char n) \<noteq> CHR 0x0D"
    "urlChar (b64char n) \<noteq> CHR ''+''" "urlChar (b64char n) \<noteq> CHR ''/''" "urlChar (b64char n) \<noteq> CHR ''=''"
  using b64char_plain [OF assms] by (auto simp: urlChar_def)

lemma sextets3_less: "n \<in> set (sextets3 a b c) \<Longrightarrow> n < 64"
proof -
  have "unat a < 256" "unat b < 256" "unat c < 256" by (rule byte_less)+
  moreover have "unat a mod 4 < 4" "unat b mod 16 < 16" "unat c mod 64 < 64" by simp_all
  moreover assume "n \<in> set (sextets3 a b c)"
  ultimately show ?thesis by (auto simp: sextets3_def)
qed

text \<open>The padding is what the length of the rest says.\<close>

definition unpadded :: "bytes \<Rightarrow> string" where
  "unpadded bs = filter (\<lambda>c. c \<noteq> CHR ''='') (b64encode bs)"

lemma filter_plain: "set ns \<subseteq> {..<64} \<Longrightarrow> filter (\<lambda>c. c \<noteq> CHR ''='') (map b64char ns) = map b64char ns"
  by (induction ns) (auto simp: b64char_plain)

lemma sextets3_plain: "set (take k (sextets3 a b c)) \<subseteq> {..<64}"
  using sextets3_less in_set_takeD by fastforce

lemma sextets3_length: "length (sextets3 a b c) = 4"
  by (simp add: sextets3_def)

lemma b64encode_padding: "b64encode bs = unpadded bs @ replicate ((4 - length (unpadded bs) mod 4) mod 4) (CHR ''='')"
proof (induction bs rule: b64encode.induct)
  case (2 a)
  show ?case
    using filter_plain [OF sextets3_plain [of 2 a 0 0]] by (simp add: unpadded_def sextets3_length numeral_2_eq_2)
next
  case (3 a b)
  show ?case
    using filter_plain [OF sextets3_plain [of 3 a b 0]] by (simp add: unpadded_def sextets3_length)
next
  case (4 a b c rest)
  have "set (sextets3 a b c) \<subseteq> {..<64}" using sextets3_less by auto
  then have "unpadded (a # b # c # rest) = map b64char (sextets3 a b c) @ unpadded rest"
    using filter_plain by (simp add: unpadded_def)
  with 4 show ?case by (simp add: sextets3_length)
qed (simp add: unpadded_def)

lemma unpadded_chars: "x \<in> set (unpadded bs) \<Longrightarrow> \<exists>n<64. x = b64char n"
  using b64encode_chars by (auto simp: unpadded_def)

lemma rawURL_roundtrip: "rawURLDecode (rawURLEncode bs) = Some bs"
proof -
  let ?s = "map urlChar (unpadded bs)"
  have plain: "x \<noteq> CHR 0x0A \<and> x \<noteq> CHR 0x0D \<and> x \<noteq> CHR ''+'' \<and> x \<noteq> CHR ''/'' \<and> x \<noteq> CHR ''=''" if "x \<in> set ?s" for x
    using that unpadded_chars urlChar_plain by fastforce
  then have body: "filter (\<lambda>c. c \<noteq> CHR 0x0A \<and> c \<noteq> CHR 0x0D) ?s = ?s" by (simp add: filter_id_conv)
  have "map stdChar ?s = unpadded bs"
    using unpadded_chars stdChar_urlChar by (fastforce intro: map_idI simp: o_def)
  then have "b64quanta (map stdChar ?s @ replicate ((4 - length ?s mod 4) mod 4) (CHR ''='')) = Some bs"
    using b64encode_padding [of bs] b64quanta_encode [of bs] by simp
  moreover have "\<not> (\<exists>c\<in>set ?s. c = CHR ''+'' \<or> c = CHR ''/'' \<or> c = CHR ''='')" using plain by blast
  moreover have "rawURLEncode bs = ?s" by (simp add: rawURLEncode_def unpadded_def)
  ultimately show ?thesis unfolding rawURLDecode_def Let_def by (simp only: body if_False)
qed

subsection \<open>The cursor\<close>

lemma splitAt_free: "c \<notin> set s \<Longrightarrow> splitAt c s = [s]"
  by (induction s) auto

lemma splitAt_two: "c \<notin> set s \<Longrightarrow> c \<notin> set u \<Longrightarrow> splitAt c (s @ c # u) = [s, u]"
  by (induction s) (auto simp: splitAt_free)

text \<open>
  What the code relies on: an id and a time read back from their text, which has no bar. A
  time in RFC 3339 form has only digits and signs.
\<close>

definition tokens_ok :: "lib \<Rightarrow> encodings \<Rightarrow> codecs \<Rightarrow> listedRow \<Rightarrow> bool" where
  "tokens_ok L E C row \<longleftrightarrow>
     (case row of (i, a, e) \<Rightarrow>
        uuidParse L (uuidString L i) = Some i \<and> readTime E (formatTime C (a_created a)) = Some (a_created a) \<and>
        CHR ''|'' \<notin> set (uuidString L i) \<and> CHR ''|'' \<notin> set (formatTime C (a_created a)))"

lemma b64encode_Nil: "b64encode bs = [] \<longleftrightarrow> bs = []"
  by (cases bs rule: b64encode.cases) (simp_all add: sextets3_def)

lemma pageToken_parses: "tokens_ok L E C row \<Longrightarrow> pageToken L C row \<noteq> [] \<and> parseToken L E (pageToken L C row) = Inr (listKey row)"
proof (cases row)
  case (fields i a e)
  assume ok: "tokens_ok L E C row"
  let ?bs = "bytesOf (formatTime C (a_created a) @ ''|'' @ uuidString L i)"
  have ne: "pageToken L C row \<noteq> []"
  proof
    assume "pageToken L C row = []"
    then have "rawURLDecode (rawURLEncode ?bs) = rawURLDecode []" by (simp add: pageToken_def fields)
    then show False unfolding rawURL_roundtrip by (simp add: rawURLDecode_def bytesOf_def)
  qed
  have "splitAt (CHR ''|'') (formatTime C (a_created a) @ ''|'' @ uuidString L i) = [formatTime C (a_created a), uuidString L i]"
    using ok splitAt_two by (simp add: tokens_ok_def fields)
  then show ?thesis
    using ok ne unfolding parseToken_def
    by (simp add: pageToken_def fields rawURL_roundtrip listKey_def tokens_ok_def)
qed

lemma runRows_strict:
  assumes "distinct (t_actionIds t)"
  shows "sorted_wrt (\<lambda>x y. listKey x < listKey y) (runRows run t)"
proof -
  have "sorted (map listKey (runRows run t))" by (simp add: runRows_def)
  moreover have "map fst (runRows run t) = map snd (map listKey (runRows run t))"
    by (simp add: listKey_def split: prod.splits)
  then have "distinct (map listKey (runRows run t))"
    using distinct_runRows [OF assms, of run] by (metis distinct_map)
  ultimately have "sorted_wrt (<) (map listKey (runRows run t))" by (simp add: strict_sorted_iff)
  then show ?thesis by (simp add: sorted_wrt_map)
qed

lemma filter_after:
  fixes f :: "'a \<Rightarrow> 'b :: linorder"
  assumes "sorted_wrt (\<lambda>x y. f x < f y) xs" and "k < length xs"
  shows "filter (\<lambda>y. f (xs ! k) < f y) xs = drop (Suc k) xs"
proof -
  have nth: "f (xs ! j) \<le> f (xs ! k)" if "j \<le> k" for j
    using that assms sorted_wrt_nth_less [OF assms(1), of j k] by (cases "j = k") auto
  have "\<not> f (xs ! k) < f y" if "y \<in> set (take (Suc k) xs)" for y
    using that nth assms(2) by (auto simp: in_set_conv_nth leD)
  moreover have "f (xs ! k) < f y" if "y \<in> set (drop (Suc k) xs)" for y
    using that sorted_wrt_nth_less [OF assms(1)] by (auto simp: in_set_conv_nth)
  ultimately have "filter (\<lambda>y. f (xs ! k) < f y) (take (Suc k) xs @ drop (Suc k) xs) = drop (Suc k) xs"
    by (simp only: filter_append) (simp add: filter_empty_conv filter_id_conv)
  then show ?thesis by simp
qed

subsection \<open>One page\<close>

definition quiet :: "world \<Rightarrow> world \<Rightarrow> bool" where
  "quiet w v \<longleftrightarrow> tabs v = tabs w \<and> faults v = (\<lambda>_. None)"

lemma quiet_query: "faults w = (\<lambda>_. None) \<Longrightarrow> \<exists>v. query f w = (Inr (f (tabs w)), v) \<and> quiet w v"
  by (simp add: query_def andThen_def call_def quiet_def)

lemma actionsFromRows_Inr:
  assumes "\<forall>row\<in>set rows. \<exists>sp. unprotoAction E (a_spec (fst (snd row))) = Inr sp"
  shows "\<exists>as. actionsFromRows L E C upstream rows = Inr as \<and> map am_id as = map (uuidString L \<circ> fst) rows"
  using assms
proof (induction rows)
  case (Cons row rows)
  obtain i a e where row: "row = (i, a, e)" by (cases row)
  with Cons.prems obtain sp where "unprotoAction E (a_spec a) = Inr sp" by auto
  then obtain m where m: "actionFromRow L E C row upstream = Inr m" "am_id m = uuidString L i"
    by (simp add: actionFromRow_def row)
  from Cons obtain as where "actionsFromRows L E C upstream rows = Inr as" "map am_id as = map (uuidString L \<circ> fst) rows"
    by fastforce
  with m row show ?case by simp
qed simp

lemma listed_page:
  assumes "faults w = (\<lambda>_. None)" and "uuidParse L name = Some run" and "parseToken L E token = Inr cursor"
    and rows: "rows = filter (\<lambda>row. cursor < listKey row) (runRows run (tabs w))"
    and dec: "\<forall>row\<in>set rows. \<exists>sp. unprotoAction E (a_spec (fst (snd row))) = Inr sp"
  shows "\<exists>as v. ListTaskActions L E C name limit token w =
      (Inr (as, if length rows > pageSizeOf limit then pageToken L C (rows ! (pageSizeOf limit - 1)) else []), v) \<and>
    quiet w v \<and> map am_id as = map (uuidString L \<circ> fst) (take (pageSizeOf limit) rows)"
proof -
  let ?p = "pageSizeOf limit"
  have p: "0 < ?p" by (simp add: pageSizeOf_def)
  let ?found = "listTaskActions run cursor (?p + 1) (tabs w)"
  have found: "?found = take (?p + 1) rows" by (simp add: listTaskActions_def rows)
  have more: "length ?found > ?p \<longleftrightarrow> length rows > ?p" unfolding found by auto
  have page: "(if length ?found > ?p then take ?p ?found else ?found) = take ?p rows"
    unfolding found by (auto simp: min_def)
  from quiet_query [OF assms(1), of "listTaskActions run cursor (?p + 1)"] obtain v
    where v: "query (listTaskActions run cursor (?p + 1)) w = (Inr ?found, v)" "quiet w v" by blast
  then obtain u where u: "query (listActionUpstreams run (map fst (take ?p rows))) v =
      (Inr (listActionUpstreams run (map fst (take ?p rows)) (tabs v)), u)" "quiet v u"
    using quiet_query [of v "listActionUpstreams run (map fst (take ?p rows))"] by (auto simp: quiet_def)
  let ?up = "listActionUpstreams run (map fst (take ?p rows)) (tabs v)"
  have "\<forall>row\<in>set (take ?p rows). \<exists>sp. unprotoAction E (a_spec (fst (snd row))) = Inr sp" using dec in_set_takeD by fastforce
  from actionsFromRows_Inr [where L = L and C = C and upstream = ?up, OF this] obtain as
    where as: "actionsFromRows L E C ?up (take ?p rows) = Inr as" "map am_id as = map (uuidString L \<circ> fst) (take ?p rows)"
    by blast
  have pre: "take ?p ?found = take ?p rows" unfolding found by (simp add: min_def)
  have token: "(if length ?found > ?p \<and> take ?p rows \<noteq> [] then pageToken L C (last (take ?p rows)) else []) =
    (if length rows > ?p then pageToken L C (rows ! (?p - 1)) else [])"
    using p more by (auto simp: last_conv_nth)
  have "ListTaskActions L E C name limit token w =
      (Inr (as, if length ?found > ?p \<and> take ?p rows \<noteq> [] then pageToken L C (last (take ?p rows)) else []), u)"
    using assms(2,3) v(1) u(1) as(1) unfolding ListTaskActions_def
    by (simp add: andThen_def orError_def mapErr_def Let_def page pre del: One_nat_def)
  with v(2) u(2) as(2) token show ?thesis by (auto simp: quiet_def)
qed


subsection \<open>All pages\<close>

text \<open>A client that asks for pages until there is no token, \<open>n\<close> of them at most.\<close>

fun listPages :: "lib \<Rightarrow> encodings \<Rightarrow> codecs \<Rightarrow> string \<Rightarrow> int \<Rightarrow> nat \<Rightarrow> string \<Rightarrow> actionMessage list act" where
  "listPages L E C name limit 0 token = fail CtxCanceled"
| "listPages L E C name limit (Suc n) token =
     andThen (ListTaskActions L E C name limit token) (\<lambda>(page, next).
     if next = [] then ret page
     else andThen (listPages L E C name limit n next) (\<lambda>rest. ret (page @ rest)))"

lemma listPages_from:
  assumes "faults w = (\<lambda>_. None)" and "tabs w = t" and "uuidParse L name = Some run" and "distinct (t_actionIds t)"
    and ok: "\<And>row. row \<in> set (runRows run t) \<Longrightarrow> tokens_ok L E C row"
    and dec: "\<forall>row\<in>set (runRows run t). \<exists>sp. unprotoAction E (a_spec (fst (snd row))) = Inr sp"
    and "parseToken L E token = Inr cursor"
    and "filter (\<lambda>row. cursor < listKey row) (runRows run t) = drop k (runRows run t)"
    and "length (runRows run t) - k < n"
  shows "\<exists>as v. listPages L E C name limit n token w = (Inr as, v) \<and> quiet w v \<and>
    map am_id as = map (uuidString L \<circ> fst) (drop k (runRows run t))"
  using assms(1,2,7-9)
proof (induction n arbitrary: w token cursor k)
  case (Suc n)
  let ?rows = "runRows run t" and ?p = "pageSizeOf limit"
  have p: "0 < ?p" by (simp add: pageSizeOf_def)
  have rows: "drop k ?rows = filter (\<lambda>row. cursor < listKey row) (runRows run (tabs w))"
    using Suc.prems(2,4) by simp
  have dec': "\<forall>row\<in>set (drop k ?rows). \<exists>sp. unprotoAction E (a_spec (fst (snd row))) = Inr sp" using dec in_set_dropD by fastforce
  from listed_page [where limit = limit and C = C, OF Suc.prems(1) assms(3) Suc.prems(3) rows dec'] obtain as v where
    page: "ListTaskActions L E C name limit token w =
      (Inr (as, if length (drop k ?rows) > ?p then pageToken L C (drop k ?rows ! (?p - 1)) else []), v)"
    and v: "quiet w v" and as: "map am_id as = map (uuidString L \<circ> fst) (take ?p (drop k ?rows))"
    by blast
  show ?case
  proof (cases "length (drop k ?rows) > ?p")
    case False
    with page as have "listPages L E C name limit (Suc n) token w = (Inr as, v)" by (simp add: andThen_def)
    with v as False show ?thesis by auto
  next
    case True
    let ?row = "?rows ! (k + (?p - 1))"
    from True p have k: "k + (?p - 1) < length ?rows" "drop k ?rows ! (?p - 1) = ?row" "Suc (k + (?p - 1)) = k + ?p" by auto
    then have row: "?row \<in> set ?rows" by simp
    note token = pageToken_parses [OF ok [OF row]]
    have after: "filter (\<lambda>row. listKey ?row < listKey row) ?rows = drop (k + ?p) ?rows"
      using filter_after [OF runRows_strict [OF assms(4)] k(1)] k(3) by simp
    have "faults v = (\<lambda>_. None)" "tabs v = t" using v Suc.prems(2) by (simp_all add: quiet_def)
    moreover have "length ?rows - (k + ?p) < n" using Suc.prems(5) p True by auto
    ultimately obtain bs u where rest: "listPages L E C name limit n (pageToken L C ?row) v = (Inr bs, u)" "quiet v u"
      "map am_id bs = map (uuidString L \<circ> fst) (drop (k + ?p) ?rows)"
      using Suc.IH [OF _ _ conjunct2 [OF token] after] by blast
    from page True k(2) rest(1) token have "listPages L E C name limit (Suc n) token w = (Inr (as @ bs), u)"
      by (simp add: andThen_def)
    moreover have "quiet w u" using v rest(2) by (simp add: quiet_def)
    moreover have "map am_id (as @ bs) = map (uuidString L \<circ> fst) (drop k ?rows)"
    proof -
      have "drop k ?rows = take ?p (drop k ?rows) @ drop (k + ?p) ?rows"
        using append_take_drop_id [of ?p "drop k ?rows"] unfolding drop_drop by (simp only: add.commute [of k ?p])
      then have "map (uuidString L \<circ> fst) (drop k ?rows) =
          map (uuidString L \<circ> fst) (take ?p (drop k ?rows)) @ map (uuidString L \<circ> fst) (drop (k + ?p) ?rows)"
        by (metis map_append)
      with as rest(3) show ?thesis by simp
    qed
    ultimately show ?thesis by blast
  qed
qed simp

text \<open>
  C26: Following the page tokens lists a run completely. With a page size from 1 to 1000 or
  the default, a client that repeats \<open>ListTaskActions\<close> while the actions stay as they are
  comes to the end, and has then seen every action of the run exactly once, in the order of
  creation.
\<close>

theorem pages_list_all:
  assumes "dbOK (tabs w)" and "faults w = (\<lambda>_. None)" and "uuidParse L name = Some run"
    and "\<forall>row\<in>set (runRows run (tabs w)). tokens_ok L E C row \<and> (0, nilUUID) < listKey row \<and>
      (\<exists>sp. unprotoAction E (a_spec (fst (snd row))) = Inr sp)"
    and "length (runRows run (tabs w)) < n"
  shows "\<exists>as v. listPages L E C name limit n [] w = (Inr as, v) \<and>
    map am_id as = map (uuidString L \<circ> fst) (runRows run (tabs w)) \<and>
    distinct (map am_id as) \<and> sorted (map listKey (runRows run (tabs w))) \<and>
    set (map am_id as) = uuidString L ` {i. \<exists>a. t_actions (tabs w) i = Some a \<and> a_run a = run}"
proof -
  let ?rows = "runRows run (tabs w)"
  have dec: "\<forall>row\<in>set ?rows. \<exists>sp. unprotoAction E (a_spec (fst (snd row))) = Inr sp" using assms(4) by blast
  have ok: "tokens_ok L E C row" if "row \<in> set ?rows" for row using assms(4) that by blast
  have first: "filter (\<lambda>row. (0, nilUUID) < listKey row) ?rows = drop 0 ?rows"
    using assms(4) by (simp add: filter_id_conv)
  have token: "parseToken L E [] = Inr (0, nilUUID)" by (simp add: parseToken_def)
  from listPages_from [OF assms(2) refl assms(3) dbOK_ids(1) [OF assms(1)] ok dec token first] assms(5) obtain as v where
    as: "listPages L E C name limit n [] w = (Inr as, v)" "map am_id as = map (uuidString L \<circ> fst) ?rows"
    by fastforce
  have inj: "inj_on (uuidString L) (fst ` set ?rows)"
  proof (rule inj_on_inverseI)
    fix x
    assume "x \<in> fst ` set ?rows"
    then obtain a e where "(x, a, e) \<in> set ?rows" by auto
    from ok [OF this] show "the (uuidParse L (uuidString L x)) = x" by (simp add: tokens_ok_def)
  qed
  have "distinct (map am_id as)"
    unfolding as(2) map_map [symmetric] distinct_map [of "uuidString L"] using inj runRows_OK(1) [OF assms(1)] by simp
  moreover have "i \<in> fst ` set ?rows \<longleftrightarrow> (\<exists>a. t_actions (tabs w) i = Some a \<and> a_run a = run)" for i
  proof
    assume "i \<in> fst ` set ?rows"
    then obtain a e where "(i, a, e) \<in> set ?rows" by auto
    then show "\<exists>a. t_actions (tabs w) i = Some a \<and> a_run a = run" using runRows_OK(2) [OF assms(1)] by blast
  next
    assume "\<exists>a. t_actions (tabs w) i = Some a \<and> a_run a = run"
    then obtain a e where "(i, a, e) \<in> set ?rows" using runRows_OK(3) [OF assms(1)] by blast
    then show "i \<in> fst ` set ?rows" by (rule rev_image_eqI) simp
  qed
  then have "fst ` set ?rows = {i. \<exists>a. t_actions (tabs w) i = Some a \<and> a_run a = run}" by blast
  then have "set (map am_id as) = uuidString L ` {i. \<exists>a. t_actions (tabs w) i = Some a \<and> a_run a = run}"
    unfolding as(2) set_map image_comp [symmetric] by simp
  moreover have "sorted (map listKey ?rows)" by (simp add: runRows_def)
  ultimately show ?thesis using as by blast
qed


end
