(* ===== verification/Run_Properties.thy ===== *)
theory Run_Properties
  imports Run_System
begin

section \<open>Properties of runs and actions\<close>

text \<open>
  What a client of the API can rely on, whatever the other clients and the workers do in
  between: idempotent creation, authorised children, an isolated and complete database,
  pages that list every action once, and cancellation that is final.
\<close>

subsection \<open>Requests with one transaction\<close>

lemma transaction_request:
  assumes "andThen (transaction b c tx) k w = (r, w')" and k: "\<And>x. keeps same (k x)"
  obtains (unchanged) e where "r = Inl e" "tabs w' = tabs w"
  | (changed) u v x where "tx u = (Inr x, v)" "tabs u = tabs w" "tabs w' = tabs v"
      "\<And>m. r = Inr m \<Longrightarrow> \<exists>y. k x y = (Inr m, w') \<and> tabs y = tabs v"
proof -
  obtain t w1 where t: "transaction b c tx w = (t, w1)" by (rule prod.exhaust)
  have same: "tabs w' = tabs w1" and fails: "\<And>e. t = Inl e \<Longrightarrow> r = Inl e"
    and after: "\<And>m. r = Inr m \<Longrightarrow> \<exists>x. t = Inr x \<and> k x w1 = (Inr m, w')"
    using assms(1) t sameD [OF k] by (auto simp: andThen_def split: sum.splits)
  from t show thesis
  proof (cases rule: transaction_cases)
    case (stays x u v)
    show ?thesis
    proof (rule changed [OF stays(3) stays(1)])
      show "tabs w' = tabs v" using same stays(4) by simp
      show "\<exists>y. k x y = (Inr m, w') \<and> tabs y = tabs v" if "r = Inr m" for m
        using after [OF that] stays(4,6) by auto
    qed
  qed (use same fails unchanged in simp_all)
qed

lemma validated_request:
  assumes "andThen pre (\<lambda>a w. andThen (transaction b c (tx a (clock w))) k w) w = (r, w')"
    and pre: "keeps same pre" and k: "\<And>x. keeps same (k x)"
  obtains (unchanged) e where "r = Inl e" "tabs w' = tabs w"
  | (changed) a p u v x where "pre w = (Inr a, p)" "tx a (clock p) u = (Inr x, v)" "tabs u = tabs w" "tabs w' = tabs v"
      "\<And>m. r = Inr m \<Longrightarrow> \<exists>y. k x y = (Inr m, w') \<and> tabs y = tabs v"
proof -
  obtain a p where p: "pre w = (a, p)" by (rule prod.exhaust)
  have pw: "tabs p = tabs w" using sameD [OF pre p] .
  show thesis
  proof (cases a)
    case (Inl e)
    with assms(1) p have "r = Inl e" "w' = p" by (simp_all add: andThen_def)
    with pw unchanged show ?thesis by simp
  next
    case (Inr y)
    with assms(1) p have "andThen (transaction b c (tx y (clock p))) k p = (r, w')" by (simp add: andThen_def)
    then show ?thesis
      by (rule transaction_request [OF _ k]) (use pw p Inr unchanged changed in auto)
  qed
qed

subsection \<open>One run for a key\<close>

lemma CreateRun_cases:
  assumes "CreateRun L E C s up env entry spec key w = (r, w')"
  obtains (unchanged) e where "r = Inl e" "tabs w' = tabs w"
  | (changed) a stamp u v run where "createRunTx L E C s env entry a key stamp u = (Inr run, v)" "tabs u = tabs w"
      "tabs w' = tabs v" "\<And>m. r = Inr m \<Longrightarrow> \<exists>y. readRunMessage L C run y = (Inr m, w') \<and> tabs y = tabs v"
proof (cases up)
  case False
  with assms have "r = Inl (Rpc Unavailable ''worker unavailable'')" "w' = w" by (simp_all add: CreateRun_def)
  with that(1) show ?thesis by simp
next
  case True
  with assms have "andThen (validateRequest E spec key False) (\<lambda>a w.
      andThen (transaction (\<lambda>e. e) (\<lambda>e. e) (createRunTx L E C s env entry a key (clock w))) (readRunMessage L C) w) w = (r, w')"
    by (simp add: CreateRun_def)
  then show ?thesis
    by (rule validated_request [OF _ validateRequest_same readRunMessage_same]) (use that in auto)
qed

lemma readRunMessage_Inr:
  assumes "readRunMessage L C run w = (Inr m, w')"
  obtains r a e i where "t_runs (tabs w) run = Some r" "r_root r = Some i" "t_actions (tabs w) i = Some a"
    "t_envs (tabs w) (a_env a) = Some e" "a_run a = run" "m = runMessageOf L C run r a e" "tabs w' = tabs w"
proof -
  from assms obtain r a e where q: "readRunRow run (tabs w) = Some (r, a, e)" "m = runMessageOf L C run r a e" "tabs w' = tabs w"
    by (auto simp: readRunMessage_def mapErr_Inr query_Inr elim!: andThen_InrE split: option.splits dest!: call_result)
  then obtain i where "t_runs (tabs w) run = Some r" "r_root r = Some i" "t_actions (tabs w) i = Some a"
    "t_envs (tabs w) (a_env a) = Some e" "a_run a = run"
    by (auto simp: readRunRow_def readTaskActionRow_def split: option.splits if_splits)
  with q that show thesis by blast
qed

text \<open>The same run, whatever its status is by now.\<close>

definition sameRun :: "runMessage \<Rightarrow> runMessage \<Rightarrow> bool" where
  "sameRun m m' \<longleftrightarrow> rm_id m' = rm_id m \<and> rm_root m' = rm_root m \<and> rm_env m' = rm_env m \<and>
     rm_entry m' = rm_entry m \<and> rm_created m' = rm_created m"

lemma readRunMessage_sameRun:
  assumes "readRunMessage L C run w = (Inr m, w1)" and "kept (tabs w) (tabs w')"
    and "readRunMessage L C run w' = (Inr m', w2)"
  shows "sameRun m m'"
proof -
  from assms(1) obtain r a e i where a: "t_runs (tabs w) run = Some r" "r_root r = Some i" "t_actions (tabs w) i = Some a"
    "t_envs (tabs w) (a_env a) = Some e" "m = runMessageOf L C run r a e"
    by (rule readRunMessage_Inr)
  from assms(3) obtain r' a' e' i' where b: "t_runs (tabs w') run = Some r'" "r_root r' = Some i'"
    "t_actions (tabs w') i' = Some a'" "t_envs (tabs w') (a_env a') = Some e'" "m' = runMessageOf L C run r' a' e'"
    by (rule readRunMessage_Inr)
  from kept_run [OF assms(2) a(1)] a(2) b(1,2) have r: "runKept r r'" "i' = i" by (auto simp: runKept_def)
  with kept_action [OF assms(2) a(3)] b(3) have k: "actionKept a a'" by simp
  with kept_maps(3) [OF assms(2) a(4)] b(4) have "e' = e" by (simp add: actionKept_def)
  with a b r k show ?thesis by (simp add: sameRun_def runMessageOf_def runKept_def actionKept_def)
qed

lemma resolves_ns: "dbOK t \<Longrightarrow> resolves L E (Some d) entry spec t envID row stored \<Longrightarrow> uuidParse L (id_ns d) = Some (e_ns row)"
  unfolding resolves_def by (auto dest: dbOK_keys(3))

lemma createRunTx_key:
  assumes "createRunTx L E C s env entry spec key stamp w = (Inr run, w')" and "key \<noteq> []"
  obtains envID row stored where "resolves L E env entry spec (tabs w) envID row stored"
    "t_runKeys (tabs w') (e_ns row, key) = Some run"
  using assms(1)
proof (cases rule: createRunTx_Inr)
  case (existing envID row stored r i a)
  then show ?thesis using that by metis
next
  case (created envID row stored i)
  then show ?thesis using that [of envID row stored] sameOther_fields(5) [OF created(5)] assms(2)
    by (simp add: addRun_def keyOf_def)
qed

text \<open>
  C24: A key names one run of its namespace. When \<open>CreateRun\<close> with a key has succeeded, any
  later \<open>CreateRun\<close> with that key in the namespace, whatever the clients and the workers did
  in between, changes nothing in the database, and if it succeeds it answers the same run.
\<close>

theorem CreateRun_idempotent:
  assumes "dbOK (tabs w)" and "key \<noteq> []"
    and "CreateRun L E C s up (Some d) entry spec key w = (Inr m, w1)"
    and "(api_step L E C s)\<^sup>*\<^sup>* w1 w2"
    and "CreateRun L E C s up' (Some d') entry' spec' key w2 = (r, w3)" and "id_ns d' = id_ns d"
  shows "tabs w3 = tabs w2 \<and> (\<forall>m'. r = Inr m' \<longrightarrow> sameRun m m')"
proof -
  have w1: "dbOK (tabs w1)" using keepsD [OF CreateRun_step assms(3)] assms(1) by (simp add: dbStep_def)
  with api_steps_db [OF assms(4)] have k: "kept (tabs w1) (tabs w2)" and w2: "dbOK (tabs w2)" by (simp_all add: dbStep_def)
  from assms(3) obtain a stamp u v run y where tx: "createRunTx L E C s (Some d) entry a key stamp u = (Inr run, v)"
    and u: "tabs u = tabs w"
    and m: "readRunMessage L C run y = (Inr m, w1)" "tabs w1 = tabs v" "tabs y = tabs v"
    by (cases rule: CreateRun_cases) auto
  from createRunTx_key [OF tx assms(2)] m obtain envID row stored where "resolves L E (Some d) entry a (tabs u) envID row stored"
    and key: "t_runKeys (tabs w1) (e_ns row, key) = Some run" by metis
  then have ns: "uuidParse L (id_ns d) = Some (e_ns row)" using resolves_ns u assms(1) by metis
  have same_ns: "e_ns row' = e_ns row" if "resolves L E (Some d') entry' a' (tabs w2) envID' row' stored'" for a' envID' row' stored'
    using resolves_ns [OF w2 that] ns assms(6) by simp
  from kept_maps(1) [OF k key] have key2: "t_runKeys (tabs w2) (e_ns row, key) = Some run" .
  show ?thesis
    using assms(5)
  proof (cases rule: CreateRun_cases)
    case (changed a' stamp' u' v' run')
    from changed(1) show ?thesis
    proof (cases rule: createRunTx_Inr)
      case (existing envID' row' stored' r' i' b')
      then have "e_ns row' = e_ns row" using same_ns changed(2) by metis
      with existing key2 changed(2) have "run' = run" by simp
      have "sameRun m m'" if "readRunMessage L C run x = (Inr m', w3)" "tabs x = tabs w2" for x m'
        using readRunMessage_sameRun [OF m(1) _ that(1)] that(2) k m by simp
      with existing(10) changed \<open>run' = run\<close> show ?thesis by auto
    next
      case (created envID' row' stored' i')
      then have "e_ns row' = e_ns row" using same_ns changed(2) by metis
      with created(4) key2 changed(2) assms(2) show ?thesis by (simp add: keyOf_def)
    qed
  qed simp
qed

subsection \<open>Children are authorised\<close>

text \<open>What a request from the task \<open>active\<close> may add: one action, called by the task itself.\<close>

definition addsChild :: "taskContext \<Rightarrow> uuid \<Rightarrow> int \<Rightarrow> bytes \<Rightarrow> string \<Rightarrow> time \<Rightarrow> uuid \<Rightarrow> tables \<Rightarrow> tables \<Rightarrow> bool" where
  "addsChild active envID entry stored key stamp i t t' \<longleftrightarrow>
     (tc_run active, i, tc_action active) \<in> t_edges t' \<and>
     (if t_actions t i = None
      then t_actionKeys t (tc_run active, key) = None \<and>
        t_actions t' = (t_actions t)(i \<mapsto> newAction (tc_run active) (Some (tc_action active)) envID entry stored stamp)
      else t_actionKeys t (tc_run active, key) = Some i \<and> t_actions t' = t_actions t \<and>
        (\<exists>a. t_actions t i = Some a \<and> sameCall active envID entry stored a))"

lemma createActionTx_adds:
  assumes ok: "dbOK (tabs w)" and tx: "createActionTx L E C s active env entry spec key stamp w = (Inr i, w')"
  shows "\<exists>envID row stored. resolves L E env entry spec (tabs w) envID row stored \<and>
    authorized E active env envID row stamp (tabs w) \<and>
    addsChild active envID (int entry) stored key stamp i (tabs w) (tabs w')"
proof -
  from tx obtain envID row stored v u where res: "resolves L E env entry spec (tabs w) envID row stored"
    and au: "authorized E active env envID row stamp (tabs w)" and v: "tabs v = tabs w"
    and c: "childAction L C s active envID (int entry) stored key stamp v = (Inr i, u)"
    and e: "insertTaskActionEdge (tc_run active) i (tc_action active) (tabs u) = Inr ((), tabs w')"
    by (rule createActionTx_Inr)
  from e have "tabs w' = (tabs u)\<lparr>t_edges := insert (tc_run active, i, tc_action active) (t_edges (tabs u))\<rparr>"
    by (simp add: insertTaskActionEdge_def Let_def split: if_splits)
  then have edge: "(tc_run active, i, tc_action active) \<in> t_edges (tabs w')" "t_actions (tabs w') = t_actions (tabs u)"
    by simp_all
  from c have "addsChild active envID (int entry) stored key stamp i (tabs w) (tabs w')"
  proof (cases rule: childAction_Inr)
    case (existing a)
    with edge v show ?thesis by (simp add: addsChild_def)
  next
    case (created x)
    from created(2) v have "t_actions (tabs w) i = None" "t_actionKeys (tabs w) (tc_run active, key) = None"
      "t_actions x = (t_actions (tabs w))(i \<mapsto> newAction (tc_run active) (Some (tc_action active)) envID (int entry) stored stamp)"
      by (auto simp: insertTaskAction_def actionFits_def addAction_def newAction_def split: if_splits)
    with edge sameOther_fields(2) [OF created(3)] show ?thesis by (simp add: addsChild_def)
  qed
  with res au show ?thesis by blast
qed

lemma CreateTaskAction_cases:
  assumes add: "\<forall>add i. tc_add active = Some add \<longrightarrow> keeps same (add i)"
    and "CreateTaskAction L E C s (Some active) env entry spec key w = (r, w')"
  obtains (unchanged) e where "r = Inl e" "tabs w' = tabs w"
  | (changed) a stamp u v i where "createActionTx L E C s active env entry a key stamp u = (Inr i, v)" "tabs u = tabs w"
      "tabs w' = tabs v" "stamp = clock w"
proof -
  let ?k = "\<lambda>i. case tc_add active of
       None \<Rightarrow> fail (invalidTask ''run graph is unavailable'')
     | Some add \<Rightarrow> andThen (add i) (\<lambda>_. readTaskAction L E C i)"
  have k: "keeps same (?k i)" for i
    by (cases "tc_add active") (use add in \<open>auto intro: sm_rules readTaskAction_same\<close>)
  have time: "clock p = clock w" if "validateRequest E spec key True w = (Inr a, p)" for a p
    using that by (auto simp: validateRequest_def orFail_def elim!: andThen_InrE split: option.splits)
  from assms(2) have "andThen (validateRequest E spec key True) (\<lambda>a w.
      andThen (transaction (\<lambda>e. e) (\<lambda>e. e) (createActionTx L E C s active env entry a key (clock w))) ?k w) w = (r, w')"
    by (simp add: CreateTaskAction_def)
  then show thesis
    by (rule validated_request [OF _ validateRequest_same k]) (use that time in auto)
qed



subsection \<open>The invariant\<close>


subsection \<open>Cancelling\<close>

text \<open>The actions of one run.\<close>

definition actionsOf :: "uuid \<Rightarrow> tables \<Rightarrow> uuid \<Rightarrow> action_row option" where
  "actionsOf run t i = (case t_actions t i of Some a \<Rightarrow> if a_run a = run then Some a else None | None \<Rightarrow> None)"

lemma actionsOf_Some: "actionsOf run t i = Some a \<longleftrightarrow> t_actions t i = Some a \<and> a_run a = run"
  by (auto simp: actionsOf_def split: option.splits)

lemma hasOpenAction_actionsOf: "hasOpenAction run t \<Longrightarrow> \<exists>i a. actionsOf run t i = Some a \<and> \<not> ended (a_status a)"
  by (auto simp: hasOpenAction_def list_ex_iff actionsOf_Some split: option.splits)

text \<open>When the root and with it every action is over, the run's actions are what they will always be.\<close>

lemma closed_run_stays:
  assumes ok: "dbOK t" and k: "kept t t'" and run: "t_runs t run = Some r"
    and closed: "\<And>i a. actionsOf run t i = Some a \<Longrightarrow> ended (a_status a)"
  shows "actionsOf run t' = actionsOf run t"
proof
  fix i
  from dbOK_rows(2) [OF ok run] obtain x b where x: "r_root r = Some x" "t_actions t x = Some b" "a_run b = run"
    by (auto simp: runOK_def)
  with closed [of x b] have root: "ended (a_status b)" by (simp add: actionsOf_Some)
  show "actionsOf run t' i = actionsOf run t i"
  proof (cases "t_actions t i")
    case None
    have "grows t t'" using k by (simp add: kept_def)
    with None run x root have "a_run a \<noteq> run" if "t_actions t' i = Some a" for a
      using that unfolding grows_def by metis
    with None show ?thesis by (simp add: actionsOf_def split: option.splits)
  next
    case (Some a)
    with kept_action [OF k Some] obtain a' where a': "t_actions t' i = Some a'" "actionKept a a'" by blast
    with Some closed [of i a] show ?thesis by (auto simp: actionsOf_def actionKept_def)
  qed
qed

lemma cancelTx_Inr:
  assumes "cancelTx L C s i stamp w = (Inr u, w')"
  obtains r n t n' where "t_runs (tabs w) i = Some r" "cancelRunIfActive i stamp (tabs w) = Inr (n, t)" "t_actions (tabs w') = t_actions t"
    "t_runs (tabs w') i = map_option (\<lambda>r. r\<lparr>r_token := None, r_lease := 0\<rparr>) (t_runs t i)"
proof -
  from assms [unfolded cancelTx_def] obtain l v where q: "query (\<lambda>t. t_runs t i) w = (Inr l, v)"
    and k: "(if l = None then fail (Rpc NotFound ''run not found'')
     else
       andThen (mapErr internal (stmt (cancelRunIfActive i stamp))) (\<lambda>rows.
       andThen (if rows > 0 then AppendStatus L C s i else ret ()) (\<lambda>_.
       andThen (stmt (clearRunClaim i)) (\<lambda>_. ret ())))) v = (Inr u, w')"
    by (rule andThen_InrE)
  from q have v: "tabs v = tabs w" "l = t_runs (tabs w) i" by (auto simp: query_Inr dest: call_result)
  from k have l: "l \<noteq> None" by (auto split: if_splits)
  with k obtain n v1 a v2 n' v3 where c: "mapErr internal (stmt (cancelRunIfActive i stamp)) v = (Inr n, v1)"
    and ap: "(if n > 0 then AppendStatus L C s i else ret ()) v1 = (Inr a, v2)"
    and cl: "stmt (clearRunClaim i) v2 = (Inr n', v3)" and r: "ret () v3 = (Inr u, w')"
    by (simp only: if_False) (elim andThen_InrE, rule that)
  have "sameOther (tabs v1) (tabs v2)"
    using ap keepsD [OF AppendStatus_other] so.refl by (auto split: if_splits)
  note f = sameOther_fields(1,2) [OF this]
  from c v have "cancelRunIfActive i stamp (tabs w) = Inr (n, tabs v1)" by (auto simp: mapErr_Inr stmt_Inr)
  moreover from cl r f have "t_actions (tabs w') = t_actions (tabs v1)"
    "t_runs (tabs w') i = map_option (\<lambda>r. r\<lparr>r_token := None, r_lease := 0\<rparr>) (t_runs (tabs v1) i)"
    by (auto simp: stmt_Inr clearRunClaim_def)
  moreover from l v obtain r where "t_runs (tabs w) i = Some r" by auto
  ultimately show thesis using that by simp
qed

lemma CancelRun_Inr:
  assumes "CancelRun L C s name w = (Inr m, w')" and "uuidParse L name = Some i" and "runActive i (tabs w)"
  obtains r y where "actionsOf i (tabs w') = map_option (cancelRow i (clock w)) \<circ> actionsOf i (tabs w)"
    "t_runs (tabs w') i = Some r" "r_token r = None" "readRunMessage L C i y = (Inr m, w')" "tabs y = tabs w'"
proof -
  have "andThen (transaction (\<lambda>e. e) (\<lambda>e. e) (cancelTx L C s i (clock w))) (\<lambda>_. readRunMessage L C i) w = (Inr m, w')"
    using assms(1,2) by (simp add: CancelRun_def)
  then obtain u v x where tx: "cancelTx L C s i (clock w) u = (Inr x, v)" and eq: "tabs u = tabs w" "tabs w' = tabs v"
    and m: "\<exists>y. readRunMessage L C i y = (Inr m, w') \<and> tabs y = tabs v"
    by (rule transaction_request [OF _ readRunMessage_same]) auto
  from tx obtain r n t where t: "t_runs (tabs u) i = Some r" "cancelRunIfActive i (clock w) (tabs u) = Inr (n, t)"
    "t_actions (tabs v) = t_actions t" "t_runs (tabs v) i = map_option (\<lambda>r. r\<lparr>r_token := None, r_lease := 0\<rparr>) (t_runs t i)"
    by (rule cancelTx_Inr)
  from t(2) assms(3) eq have t': "t = (tabs u)\<lparr>t_actions := (\<lambda>j. map_option (cancelRow i (clock w)) (t_actions (tabs u) j))\<rparr>"
    by (simp add: cancelRunIfActive_def)
  have "actionsOf i (tabs w') j = map_option (cancelRow i (clock w)) (actionsOf i (tabs w) j)" for j
    using eq t(3) t' by (auto simp: actionsOf_def cancelRow_def split: option.splits)
  then have "actionsOf i (tabs w') = map_option (cancelRow i (clock w)) \<circ> actionsOf i (tabs w)" by (simp add: fun_eq_iff)
  with that m t t' eq show thesis by auto
qed


text \<open>
  C25: Cancelling an active run is final. When \<open>CancelRun\<close> has succeeded, the answer's status
  is terminal and the run has no claim, its open actions are canceled and the others are as
  they were; whatever clients and workers do afterwards, the run's actions are never written
  again, it gets no new one, and no worker can claim it.
\<close>

theorem cancel_final:
  assumes "dbOK (tabs w)" and "uuidParse L name = Some i" and "runActive i (tabs w)"
    and "CancelRun L C s name w = (Inr m, w1)" and "(api_step L E C s)\<^sup>*\<^sup>* w1 w2"
  shows "terminal (rm_status m) \<and> (\<exists>r. t_runs (tabs w1) i = Some r \<and> r_token r = None) \<and>
    actionsOf i (tabs w2) = map_option (cancelRow i (clock w)) \<circ> actionsOf i (tabs w) \<and>
    \<not> claimable stamp (tabs w2) i"
proof -
  from CancelRun_Inr [OF assms(4,2,3)] obtain r y where acts: "actionsOf i (tabs w1) = map_option (cancelRow i (clock w)) \<circ> actionsOf i (tabs w)"
    and r: "t_runs (tabs w1) i = Some r" "r_token r = None" and m: "readRunMessage L C i y = (Inr m, w1)" "tabs y = tabs w1"
    by blast
  have w1: "dbOK (tabs w1)" using keepsD [OF CancelRun_step assms(4)] assms(1) by (simp add: dbStep_def)
  with api_steps_db [OF assms(5)] have k: "kept (tabs w1) (tabs w2)" by (simp add: dbStep_def)
  have closed: "ended (a_status a)" if "actionsOf i (tabs w1) j = Some a" for j a
  proof -
    from that [unfolded acts] obtain b where "a = cancelRow i (clock w) b" "a_run b = i" by (auto simp: actionsOf_Some)
    then show ?thesis by (simp add: cancelRow_def ended_def)
  qed
  have stays: "actionsOf i (tabs w2) = actionsOf i (tabs w1)"
    by (rule closed_run_stays [OF w1 k r(1)]) (rule closed)
  from closed have "\<not> hasOpenAction i (tabs w2)"
    using hasOpenAction_actionsOf [of i "tabs w2"] unfolding stays by blast
  moreover from m(1) obtain r' a e x where "t_actions (tabs y) x = Some a" "a_run a = i" "m = runMessageOf L C i r' a e"
    by (rule readRunMessage_Inr)
  then have "terminal (rm_status m)" using closed m(2) by (simp add: runMessageOf_def terminal_status actionsOf_Some)
  ultimately show ?thesis using r stays acts by (auto simp: claimable_def split: option.splits)
qed


end
