(* ===== verification/Run_Example.thy ===== *)
theory Run_Example
  imports Run_Listing Run_Properties Graph_Persist_Properties
begin

section \<open>The properties at a concrete database\<close>

text \<open>
  One namespace with one environment, and a run of it whose root is running under a claim.
  The properties of runs, of listing and of the restored graph hold there.
\<close>

definition exLib :: lib where
  "exLib = \<lparr>uuidString = (\<lambda>i. replicate (unat i) CHR ''a''), uuidParse = (\<lambda>s. Some (of_nat (length s))),
     cborWellformed = (\<lambda>_. True)\<rparr>"

definition exAction :: actionSpec where
  "exAction = \<lparr>as_input = [], as_attempts = 1, as_cache = False, as_version = [], as_key = []\<rparr>"

definition exSpec :: envSpec where
  "exSpec = \<lparr>es_ns = ''a'', es_name = ''e'', es_source = [], es_image = None, es_deps = [],
     es_entries = [Some \<lparr>en_command = None, en_attempts = 1, en_cache = False, en_version = []\<rparr>]\<rparr>"

definition exEncodings :: encodings where
  "exEncodings = \<lparr>protoSpec = (\<lambda>_. Inr [1]), unprotoSpec = (\<lambda>_. Inr exSpec), protoAction = (\<lambda>_. Inr [1]),
     unprotoAction = (\<lambda>_. Inr exAction), cborVersion = Inr, cborImage = (\<lambda>_ _ _ _. Inr []),
     cborInput = (\<lambda>_. Some [[], []]), cborList = (\<lambda>_. True), cborMap = (\<lambda>_. True),
     readTime = (\<lambda>s. Some (int (length s)))\<rparr>"

definition exCodecs :: codecs where
  "exCodecs = demoCodecs\<lparr>formatTime := (\<lambda>t. replicate (nat t) CHR ''t'')\<rparr>"

definition exVersion :: string where
  "exVersion = replicate 64 CHR ''0''"

definition exEnv :: envID where
  "exEnv = \<lparr>id_ns = ''a'', id_name = ''e'', id_version = exVersion\<rparr>"

definition exEnvRow :: env_row where
  "exEnvRow = \<lparr>e_ns = 1, e_name = ''e'', e_version = exVersion, e_provider = ''local-python'', e_spec = [], e_image = []\<rparr>"

definition exRoot :: action_row where
  "exRoot = (newAction 10 None 2 1 [1] 1)\<lparr>a_status := SRunning, a_attempts := 1\<rparr>"

definition exRun :: run_row where
  "exRun = (newRun 1 1)\<lparr>r_root := Some 11, r_token := Some 8, r_lease := 100\<rparr>"

definition exTables :: tables where
  "exTables = emptyTables\<lparr>t_namespaces := [\<lparr>n_id = 1, n_slug = ''n'', n_name = ''n'', n_created = 0\<rparr>],
     t_envs := [2 \<mapsto> exEnvRow], t_envKeys := [(1, ''e'', exVersion) \<mapsto> 2],
     t_runs := [10 \<mapsto> exRun], t_runIds := [10], t_actions := [11 \<mapsto> exRoot], t_actionIds := [11]\<rparr>"

definition exWorld :: world where
  "exWorld = \<lparr>tabs = exTables, objects = Map.empty, clock = 1, ids = of_nat, drawn = 20, faults = (\<lambda>_. None),
     landed = (\<lambda>_. False), calls = 0\<rparr>"

lemma ex_dbOK: "dbOK (tabs exWorld)"
proof (rule dbOKI)
  show "callerBefore (t_actionIds (tabs exWorld)) (t_actions (tabs exWorld))"
    by (auto simp: callerBefore_def exWorld_def exTables_def emptyTables_def exRoot_def newAction_def Cons_eq_append_conv
        split: if_splits)
  show "actionOK (tabs exWorld) i a" if "t_actions (tabs exWorld) i = Some a" for i a
    using that by (auto simp: actionOK_def exWorld_def exTables_def emptyTables_def exRoot_def newAction_def exRun_def
        newRun_def exEnvRow_def split: if_splits)
  show "runOK (tabs exWorld) i r" if "t_runs (tabs exWorld) i = Some r" for i r
    using that by (auto simp: runOK_def exWorld_def exTables_def emptyTables_def exRoot_def newAction_def exRun_def
        newRun_def split: if_splits)
qed (auto simp: exWorld_def exTables_def emptyTables_def exEnvRow_def split: if_splits)

text \<open>Without faults, a status event of a run without a stream is written.\<close>

lemma streamOK_status: "streamOK StatusStream"
  by (simp add: streamOK_def StatusStream_def letters_def)

lemma ex_AppendStatus:
  assumes "faults w = (\<lambda>_. None)" and "t_runs (tabs w) run = Some r" and "r_root r = Some i" and "t_actions (tabs w) i = Some a"
    and "t_streams (tabs w) (run, StatusStream) = None" and "t_records (tabs w) = []"
  shows "\<exists>v. AppendStatus exLib exCodecs storeLog run w = (Inr (), v) \<and> sameOther (tabs w) (tabs v) \<and>
    faults v = (\<lambda>_. None) \<and> clock v = clock w"
  using assms streamOK_status
  by (simp add: readRun_def AppendStatus_def one_def query_def stmt_def andThen_def call_def orError_def AppendTx_def lockStream_def
      appendNew_def Let_def mapErr_def limits_def wrap64_def createLogStream_def insertLogRecord_def updateNextSeq_def
      exLib_def exCodecs_def demoCodecs_def storeLog_def bytesOf_def sameOther_def otherTables_iff)

lemma andThen_to: "m w = (Inr x, v) \<Longrightarrow> andThen m f w = f x v"
  by (simp add: andThen_def)

lemma ex_resolved: "resolvedActionSpec exEncodings (es_entries exSpec ! 0) exAction = Inr [1]"
  by (simp add: resolvedActionSpec_def validateActionCache_def exAction_def exSpec_def resolveAttempts_def exEncodings_def)

lemma ex_input: "validateRequest exEncodings (Some exAction) ''k'' required w = (Inr exAction, w)"
  by (simp_all add: resolvedActionSpec_def validateActionCache_def exAction_def exSpec_def resolveAttempts_def exEncodings_def
      validateRequest_def validateInput_def validateIdempotency_def orFail_def andThen_def)

lemma ex_env: "validateEnvironmentIdentifier exLib (Some exEnv) = None"
proof -
  have "versionOK (replicate 64 CHR ''0'')" by code_simp
  moreover have "namespaceOK ''e''" by code_simp
  ultimately show ?thesis by (simp add: validateEnvironmentIdentifier_def validUUID_def exLib_def exEnv_def exVersion_def nilUUID_def)
qed

lemma ex_lookup: "lookupTask exLib exEncodings (Some exEnv) 1 (exWorld\<lparr>calls := c\<rparr>) =
      (Inr (2, exEnvRow, es_entries exSpec ! 0), exWorld\<lparr>calls := c + 1\<rparr>)"
  using ex_env
  by (simp add: lookupTask_def lookupEnvironment_def andThen_def query_def call_def orFail_def
        getEnvironment_def exLib_def exEncodings_def exSpec_def exEnv_def exWorld_def exTables_def emptyTables_def exEnvRow_def)

lemmas ex_defs = exWorld_def exTables_def emptyTables_def exEnvRow_def

definition exCreated :: world where
  "exCreated = exWorld\<lparr>tabs := addRun 20 1 (Some ''k'') 1 21 (newAction 20 None 2 1 [1] 1) exTables, drawn := 22, calls := 5\<rparr>"

lemma ex_createRunTx: "createRunTx exLib exEncodings exCodecs storeLog (Some exEnv) 1 exAction ''k'' 1 (exWorld\<lparr>calls := 1\<rparr>) =
    andThen (AppendStatus exLib exCodecs storeLog 20) (\<lambda>_. ret 20) exCreated"
proof -
  have lookup: "lookupTask exLib exEncodings (Some exEnv) 1 (exWorld\<lparr>calls := 1\<rparr>) =
      (Inr (2, exEnvRow, es_entries exSpec ! 0), exWorld\<lparr>calls := 2\<rparr>)"
    using ex_lookup [of 1] by simp
  show ?thesis
    unfolding createRunTx_def
    by (rule trans [OF andThen_to], rule lookup) (simp add: ex_resolved andThen_def orError_def newID_def stmt_def call_def insertRun_def hasNamespace_def insertRootAction_def actionFits_def addAction_def
        updateRunRootAction_def newAction_def newRun_def exCreated_def addRun_def ex_defs exRoot_def exRun_def)
qed

lemma ex_CreateRun: "\<exists>m v. CreateRun exLib exEncodings exCodecs storeLog True (Some exEnv) 1 (Some exAction) ''k'' exWorld = (Inr m, v)"
proof -
  have c: "faults exCreated = (\<lambda>_. None)" "t_streams (tabs exCreated) (20, StatusStream) = None" "t_records (tabs exCreated) = []"
    "t_runs (tabs exCreated) 20 = Some ((newRun 1 1)\<lparr>r_root := Some 21\<rparr>)"
    "t_actions (tabs exCreated) 21 = Some (newAction 20 None 2 1 [1] 1)" "t_envs (tabs exCreated) 2 = Some exEnvRow"
    by (simp_all add: exCreated_def addRun_def ex_defs)
  from ex_AppendStatus [OF c(1) c(4) _ c(5) c(2,3)] obtain v where v: "AppendStatus exLib exCodecs storeLog 20 exCreated = (Inr (), v)"
    "sameOther (tabs exCreated) (tabs v)" "faults v = (\<lambda>_. None)"
    by auto
  note f = sameOther_fields(1,2,3) [OF v(2)]
  have tx: "transaction (\<lambda>e. e) (\<lambda>e. e) (createRunTx exLib exEncodings exCodecs storeLog (Some exEnv) 1 exAction ''k'' 1) exWorld =
      (Inr 20, v\<lparr>calls := Suc (calls v)\<rparr>)"
  proof -
    have "call exWorld = (Inr (), exWorld\<lparr>calls := 1\<rparr>)" by (simp add: call_def exWorld_def)
    then show ?thesis using v(1,3) ex_createRunTx by (simp add: transaction_def andThen_def call_def)
  qed
  have clk: "clock exWorld = 1" by (simp add: exWorld_def)
  have "\<exists>m u. readRunMessage exLib exCodecs 20 (v\<lparr>calls := Suc (calls v)\<rparr>) = (Inr m, u)"
    using v(3) f c(4-6)
    by (simp add: readRunMessage_def andThen_def mapErr_def query_def call_def readRunRow_def readTaskActionRow_def newAction_def)
  with tx clk show ?thesis
    unfolding CreateRun_def by (simp add: andThen_def ex_input)
qed


theorem CreateRun_idempotent_witness:
  "\<exists>m w1 r w2. CreateRun exLib exEncodings exCodecs storeLog True (Some exEnv) 1 (Some exAction) ''k'' exWorld = (Inr m, w1) \<and>
     CreateRun exLib exEncodings exCodecs storeLog True (Some exEnv) 1 (Some exAction) ''k'' w1 = (r, w2) \<and> tabs w2 = tabs w1"
proof -
  obtain m w1 where 1: "CreateRun exLib exEncodings exCodecs storeLog True (Some exEnv) 1 (Some exAction) ''k'' exWorld = (Inr m, w1)"
    using ex_CreateRun by blast
  obtain r w2 where 2: "CreateRun exLib exEncodings exCodecs storeLog True (Some exEnv) 1 (Some exAction) ''k'' w1 = (r, w2)"
    by (rule prod.exhaust)
  from CreateRun_idempotent [OF ex_dbOK _ 1 rtranclp.rtrancl_refl 2] have "tabs w2 = tabs w1" by simp
  with 1 2 show ?thesis by blast
qed


lemma ex_runRows: "runRows 10 (tabs exWorld) = [(11, exRoot, exEnvRow)]"
  by (simp add: runRows_def List.map_filter_simps readTaskActionRow_def ex_defs exRoot_def newAction_def)

theorem pages_list_all_witness:
  "\<exists>as v. listPages exLib exEncodings exCodecs (replicate 10 CHR ''a'') 1 2 [] exWorld = (Inr as, v) \<and>
     map am_id as = [replicate 11 CHR ''a'']"
proof -
  have ok: "\<forall>row\<in>set (runRows 10 (tabs exWorld)). tokens_ok exLib exEncodings exCodecs row \<and> (0, nilUUID) < listKey row \<and>
      (\<exists>sp. unprotoAction exEncodings (a_spec (fst (snd row))) = Inr sp)"
    by (simp add: ex_runRows tokens_ok_def exLib_def exEncodings_def exCodecs_def listKey_def exRoot_def newAction_def)
  have "length (runRows 10 (tabs exWorld)) < 2" by (simp add: ex_runRows)
  moreover have "faults exWorld = (\<lambda>_. None)" "uuidParse exLib (replicate 10 CHR ''a'') = Some 10"
    by (simp_all add: exWorld_def exLib_def)
  ultimately show ?thesis
    using pages_list_all [OF ex_dbOK _ _ ok, of "replicate 10 CHR ''a''" 2 1] by (auto simp: ex_runRows exLib_def)
qed

lemma ex_graphNodes: "\<exists>ns. graphNodes exEncodings marshal runtime rows = Inr ns"
  by (induction rows) (auto simp: graphNode_def exEncodings_def exAction_def split: prod.splits)

lemma ex_parts: "faults exWorld = (\<lambda>_. None)" "calls exWorld = 0" "clock exWorld = 1" "tabs exWorld = exTables"
    "t_runs exTables 10 = Some exRun" "r_root exRun = Some 11" "t_actions exTables 11 = Some exRoot"
    "t_envs exTables 2 = Some exEnvRow"
  by (simp_all add: ex_defs exRun_def)

theorem restored_graph_witness:
  "\<exists>s0 rows w'. loadGraph exLib exEncodings exCodecs storeLog (\<lambda>_. Inr []) [] (NewSlots 4) int 10 8 exWorld = (Inr (s0, rows), w') \<and>
     validGraph (nodes s0) \<and> dom (nodes s0) = {11}"
proof -
  let ?t = "exTables\<lparr>t_actions := (\<lambda>i. map_option (resetRow 10 1) (t_actions exTables i))\<rparr>"
  have held: "holdsClaim 10 8 (clock exWorld) (tabs exWorld)"
    by (simp add: holdsClaim_def ex_defs exRun_def)
  have tx: "transaction (\<lambda>e. e) (\<lambda>e. e) (loadTx 10 8 1) exWorld = (Inr (runRows 10 ?t), exWorld\<lparr>tabs := ?t, calls := 5\<rparr>)"
    using held ex_parts by (simp add: transaction_def loadTx_def andThen_def one_def query_def stmt_def call_def resetRunActions_def)
  obtain ns where ns: "graphNodes exEncodings (\<lambda>_. Inr []) [] (runRows 10 ?t) = Inr ns" using ex_graphNodes by blast
  have "clock exWorld = 1" by (simp add: exWorld_def)
  with tx ns have "\<exists>s0 rows w'. loadGraph exLib exEncodings exCodecs storeLog (\<lambda>_. Inr []) [] (NewSlots 4) int 10 8 exWorld =
      (Inr (s0, rows), w')"
    by (simp add: loadGraph_def andThen_def orError_def)
  then obtain s0 rows w' where g: "loadGraph exLib exEncodings exCodecs storeLog (\<lambda>_. Inr []) [] (NewSlots 4) int 10 8 exWorld =
      (Inr (s0, rows), w')" by blast
  have "{i. \<exists>a. t_actions (tabs exWorld) i = Some a \<and> a_run a = 10} = {11}"
    by (auto simp: ex_defs exRoot_def newAction_def split: if_splits)
  with restored_graph [OF ex_dbOK held g] g show ?thesis by auto
qed

lemma ex_CancelRun: "\<exists>m v. CancelRun exLib exCodecs storeLog (replicate 10 CHR ''a'') exWorld = (Inr m, v)"
proof -
  let ?t = "exTables\<lparr>t_actions := (\<lambda>i. map_option (cancelRow 10 1) (t_actions exTables i))\<rparr>"
  let ?w = "exWorld\<lparr>calls := Suc (Suc (Suc 0)), tabs := ?t\<rparr>"
  have c: "faults ?w = (\<lambda>_. None)" "t_streams (tabs ?w) (10, StatusStream) = None" "t_records (tabs ?w) = []"
    "t_runs (tabs ?w) 10 = Some exRun" "t_actions (tabs ?w) 11 = Some (cancelRow 10 1 exRoot)"
    by (simp_all add: ex_defs)
  from ex_AppendStatus [OF c(1,4) ex_parts(6) c(5,2,3)] obtain v where
    v: "AppendStatus exLib exCodecs storeLog 10 ?w = (Inr (), v)" "sameOther (tabs ?w) (tabs v)" "faults v = (\<lambda>_. None)" by blast
  note f = sameOther_fields(1,2,3) [OF v(2)]
  have "runActive 10 exTables" "openActions 10 exTables = 1"
    by (simp_all add: runActive_def openActions_def ex_defs exRun_def exRoot_def newAction_def ended_def)
  then have "cancelTx exLib exCodecs storeLog 10 1 (exWorld\<lparr>calls := 1\<rparr>) = andThen (AppendStatus exLib exCodecs storeLog 10) (\<lambda>_.
     andThen (stmt (clearRunClaim 10)) (\<lambda>_. ret ())) ?w"
    using ex_parts by (simp add: cancelTx_def andThen_def query_def stmt_def mapErr_def call_def cancelRunIfActive_def)
  with v f have "\<exists>u. cancelTx exLib exCodecs storeLog 10 1 (exWorld\<lparr>calls := 1\<rparr>) = (Inr (), u) \<and> faults u = (\<lambda>_. None) \<and>
      t_actions (tabs u) = t_actions ?t \<and> t_envs (tabs u) = t_envs ?t \<and>
      t_runs (tabs u) 10 = Some (exRun\<lparr>r_token := None, r_lease := 0\<rparr>)"
    using ex_parts(5) by (simp add: andThen_def stmt_def call_def clearRunClaim_def)
  then obtain u where u: "cancelTx exLib exCodecs storeLog 10 1 (exWorld\<lparr>calls := 1\<rparr>) = (Inr (), u)" "faults u = (\<lambda>_. None)"
      "t_actions (tabs u) = t_actions ?t" "t_envs (tabs u) = t_envs ?t"
      "t_runs (tabs u) 10 = Some (exRun\<lparr>r_token := None, r_lease := 0\<rparr>)" by blast
  have tx: "transaction (\<lambda>e. e) (\<lambda>e. e) (cancelTx exLib exCodecs storeLog 10 1) exWorld = (Inr (), u\<lparr>calls := Suc (calls u)\<rparr>)"
    using u ex_parts by (simp add: transaction_def call_def)
  have "\<exists>m x. readRunMessage exLib exCodecs 10 (u\<lparr>calls := Suc (calls u)\<rparr>) = (Inr m, x)"
    using u ex_parts by (simp add: readRunMessage_def andThen_def mapErr_def query_def call_def readRunRow_def readTaskActionRow_def
        cancelRow_def exRoot_def newAction_def)
  with tx ex_parts(3) show ?thesis by (simp add: CancelRun_def andThen_def exLib_def)
qed

theorem cancel_final_witness:
  "\<exists>m w. CancelRun exLib exCodecs storeLog (replicate 10 CHR ''a'') exWorld = (Inr m, w) \<and> terminal (rm_status m) \<and>
     actionsOf 10 (tabs w) 11 = Some (cancelRow 10 1 exRoot) \<and> \<not> claimable 200 (tabs w) 10"
proof -
  obtain m w where c: "CancelRun exLib exCodecs storeLog (replicate 10 CHR ''a'') exWorld = (Inr m, w)" using ex_CancelRun by blast
  have "runActive 10 (tabs exWorld)" "uuidParse exLib (replicate 10 CHR ''a'') = Some 10"
    by (simp_all add: runActive_def ex_defs exRun_def exRoot_def newAction_def ended_def exLib_def)
  from cancel_final [where E = exEncodings and stamp = 200, OF ex_dbOK this(2,1) c rtranclp.rtrancl_refl]
  have f: "terminal (rm_status m)" "\<not> claimable 200 (tabs w) 10"
    "actionsOf 10 (tabs w) = map_option (cancelRow 10 (clock exWorld)) \<circ> actionsOf 10 (tabs exWorld)"
    by blast+
  have "actionsOf 10 (tabs exWorld) 11 = Some exRoot" using ex_parts by (simp add: actionsOf_def exRoot_def newAction_def)
  with f c ex_parts show ?thesis by (auto intro!: exI)
qed


definition exActive :: taskContext where
  "exActive = \<lparr>tc_run = 10, tc_action = 11, tc_token = 8, tc_attempt = 1, tc_wait = None, tc_get = (\<lambda>_. fail CtxCanceled),
     tc_add = Some (\<lambda>_. ret ())\<rparr>"

definition exChild :: action_row where
  "exChild = newAction 10 (Some 11) 2 1 [1] 1"

lemma ex_AppendActionStatus:
  assumes "faults w = (\<lambda>_. None)" and "t_actions (tabs w) 20 = Some exChild" and "t_runs (tabs w) 10 \<noteq> None"
    and "t_streams (tabs w) (10, StatusStream) = None" and "t_records (tabs w) = []"
  shows "\<exists>v. AppendActionStatus exLib exCodecs storeLog 20 False w = (Inr (), v) \<and> sameOther (tabs w) (tabs v) \<and>
    faults v = (\<lambda>_. None)"
  using assms streamOK_status
  by (simp add: AppendActionStatus_def one_def query_def stmt_def andThen_def call_def orError_def AppendTx_def lockStream_def
      appendNew_def Let_def mapErr_def limits_def wrap64_def createLogStream_def insertLogRecord_def updateNextSeq_def
      exLib_def exCodecs_def demoCodecs_def storeLog_def bytesOf_def sameOther_def otherTables_iff exChild_def newAction_def)

lemma ex_fields: "e_ns exEnvRow = 1" "r_ns exRun = 1" "r_token exRun = Some 8" "r_lease exRun = 100"
    "a_status exRoot = SRunning" "a_run exRoot = 10" "a_env exRoot = 2" "a_attempts exRoot = 1" "a_caller exRoot = None"
    "unprotoSpec exEncodings b = Inr exSpec" "\<not> terminal ''running''" "t_actionKeys exTables k = None"
    "t_actionIds exTables = [11]" "t_actions exTables i = (if i = 11 then Some exRoot else None)"
    "t_envs exTables j = (if j = 2 then Some exEnvRow else None)" "ids exWorld = of_nat" "drawn exWorld = 20"
    "t_edges exTables = {}"
  by (simp_all add: ex_defs exRun_def exRoot_def newAction_def newRun_def terminal_def exEncodings_def)

lemma ex_authorize: "authorizeCall exEncodings exActive (Some exEnv) 2 exEnvRow 1 (exWorld\<lparr>calls := 2\<rparr>) =
    (Inr (), exWorld\<lparr>calls := 5\<rparr>)"
  by (simp add: authorizeCall_def andThen_def mapErr_def one_def query_def call_def exActive_def ex_parts ex_fields getActiveCaller_def
      readTaskActionRow_def orError_def)

definition exAdded :: world where
  "exAdded = exWorld\<lparr>drawn := 21, calls := 7,
     tabs := (addAction 20 exChild exTables)\<lparr>t_actionKeys := (t_actionKeys exTables)((10, ''k'') \<mapsto> 20)\<rparr>\<rparr>"

lemma ex_child: "childAction exLib exCodecs storeLog exActive 2 1 [1] ''k'' 1 (exWorld\<lparr>calls := 5\<rparr>) =
    andThen (AppendActionStatus exLib exCodecs storeLog 20 False) (\<lambda>_. ret 20) exAdded"
  by (simp add: childAction_def andThen_def query_def stmt_def call_def newID_def getTaskActionByIdempotency_def
      insertTaskAction_def actionFits_def ex_parts ex_fields exActive_def exChild_def newAction_def exAdded_def)

lemma ex_CreateTaskAction:
  "\<exists>r v. CreateTaskAction exLib exEncodings exCodecs storeLog (Some exActive) (Some exEnv) 1 (Some exAction) ''k'' exWorld = (r, v) \<and>
     t_actions (tabs v) 20 = Some exChild"
proof -
  have c: "faults exAdded = (\<lambda>_. None)" "t_actions (tabs exAdded) 20 = Some exChild" "t_runs (tabs exAdded) 10 \<noteq> None"
    "t_streams (tabs exAdded) (10, StatusStream) = None" "t_records (tabs exAdded) = []"
    by (simp_all add: exAdded_def addAction_def ex_defs)
  from ex_AppendActionStatus [OF c] obtain v where
    v: "AppendActionStatus exLib exCodecs storeLog 20 False exAdded = (Inr (), v)" "sameOther (tabs exAdded) (tabs v)" "faults v = (\<lambda>_. None)"
    by blast
  have acts: "t_actions (tabs v) = t_actions (tabs exAdded)" using sameOther_fields(2) [OF v(2)] .
  have two: "t_actions (tabs v) 20 = Some exChild" "t_actions (tabs v) 11 = Some exRoot"
    unfolding acts by (simp_all add: exAdded_def addAction_def ex_parts)
  have child: "childAction exLib exCodecs storeLog exActive 2 1 [1] ''k'' 1 (exWorld\<lparr>calls := 5\<rparr>) = (Inr 20, v)"
    using ex_child v(1) by (simp add: andThen_def)
  let ?v = "v\<lparr>calls := Suc (calls v), tabs := (tabs v)\<lparr>t_edges := insert (10, 20, 11) (t_edges (tabs v))\<rparr>\<rparr>"
  have edge: "stmt (insertTaskActionEdge 10 20 11) v = (Inr (), ?v)"
    using v(3) two by (simp add: stmt_def call_def insertTaskActionEdge_def Let_def exChild_def newAction_def ex_fields)
  have lookup: "lookupTask exLib exEncodings (Some exEnv) 1 (exWorld\<lparr>calls := 1\<rparr>) =
      (Inr (2, exEnvRow, es_entries exSpec ! 0), exWorld\<lparr>calls := 2\<rparr>)"
    using ex_lookup [of 1] by simp
  have tx: "createActionTx exLib exEncodings exCodecs storeLog exActive (Some exEnv) 1 exAction ''k'' 1 (exWorld\<lparr>calls := 1\<rparr>) = (Inr 20, ?v)"
    unfolding createActionTx_def
    by (rule trans [OF andThen_to], rule lookup)
      (simp add: andThen_def orError_def ex_resolved ex_authorize child edge, simp add: exActive_def edge)
  obtain u where "transaction (\<lambda>e. e) (\<lambda>e. e)
      (createActionTx exLib exEncodings exCodecs storeLog exActive (Some exEnv) 1 exAction ''k'' 1) exWorld = (Inr 20, u)"
    "tabs u = tabs ?v"
    using tx v(3) ex_parts by (simp add: transaction_def call_def)
  moreover have "clock exWorld = 1" by (rule ex_parts)
  moreover have "t_actions (tabs ?v) 20 = Some exChild" using two by simp
  moreover obtain r x where x: "readTaskAction exLib exEncodings exCodecs 20 u = (r, x)" by (rule prod.exhaust)
  moreover have "tabs x = tabs u" using sameD [OF readTaskAction_same x] .
  ultimately show ?thesis
    by (simp add: CreateTaskAction_def andThen_def ex_input exActive_def)
qed


end
