(* ===== verification/Images.thy ===== *)
theory Images
  imports Service_Runs Blob_Service
begin

section \<open>Image builds\<close>

text \<open>
  \<open>internal/lutra/image.go\<close> and \<open>worker.go\<close>: claiming, renewing and finishing the build of
  an image, waiting for another worker's build, and storing and loading the artifact, with
  the queries of \<open>db/queries/image.sql\<close>. \<open>build\<close> is the provider's \<open>Build\<close>; other
  workers may act while it runs.
\<close>

definition buildAge :: "build_row \<Rightarrow> time \<times> uuid" where
  "buildAge b = (d_created b, d_id b)"

definition latestOf :: "build_row list \<Rightarrow> build_row option" where
  "latestOf bs = (case rev (sort_key buildAge bs) of [] \<Rightarrow> None | b # _ \<Rightarrow> Some b)"

definition leaseExpired :: string where "leaseExpired = ''build lease expired''"

definition expireRow :: "time \<Rightarrow> build_row \<Rightarrow> build_row" where
  "expireRow stamp b =
     (if d_status b = Building \<and> d_lease b \<le> stamp then b\<lparr>d_status := BuildFailed, d_error := leaseExpired\<rparr> else b)"

definition expireImageBuilds :: "bytes \<Rightarrow> time \<Rightarrow> tables \<Rightarrow> goerr + unit \<times> tables" where
  "expireImageBuilds key stamp t =
     Inr ((), t\<lparr>t_builds := map (\<lambda>b. if d_image b = key then expireRow stamp b else b) (t_builds t)\<rparr>)"

definition sweepExpiredImageBuilds :: "time \<Rightarrow> tables \<Rightarrow> goerr + unit \<times> tables" where
  "sweepExpiredImageBuilds stamp t = Inr ((), t\<lparr>t_builds := map (expireRow stamp) (t_builds t)\<rparr>)"

definition getImageBuild :: "uuid \<Rightarrow> tables \<Rightarrow> build_row option" where
  "getImageBuild i t = find (\<lambda>b. d_id b = i) (t_builds t)"

definition latestImageBuild :: "bytes \<Rightarrow> tables \<Rightarrow> build_row option" where
  "latestImageBuild key t = latestOf (filter (\<lambda>b. d_image b = key) (t_builds t))"

definition readyImageBuild :: "bytes \<Rightarrow> tables \<Rightarrow> build_row option" where
  "readyImageBuild key t = latestOf (filter (\<lambda>b. d_image b = key \<and> d_status b = BuildReady) (t_builds t))"

definition deleteUnneededImageBuild :: "uuid \<Rightarrow> tables \<Rightarrow> goerr + unit \<times> tables" where
  "deleteUnneededImageBuild i t =
     Inr ((), t\<lparr>t_builds := filter (\<lambda>b. \<not> (d_id b = i \<and> d_status b = Building)) (t_builds t)\<rparr>)"

text \<open>\<open>created_at\<close> is the time of the statement, the lease counts from the transaction's start.\<close>

definition newBuild :: "uuid \<Rightarrow> bytes \<Rightarrow> uuid \<Rightarrow> time \<Rightarrow> time \<Rightarrow> build_row" where
  "newBuild i key token stamp created =
     \<lparr>d_id = i, d_image = key, d_status = Building, d_token = token, d_lease = stamp + 30000000000,
      d_uri = [], d_error = [], d_created = created\<rparr>"

definition insertImageBuild :: "uuid \<Rightarrow> bytes \<Rightarrow> uuid \<Rightarrow> time \<Rightarrow> time \<Rightarrow> tables \<Rightarrow>
    goerr + build_row option \<times> tables" where
  "insertImageBuild i key token stamp created t =
     (if \<exists>b\<in>set (t_builds t). d_image b = key \<and> d_status b = Building then Inr (None, t)
      else if (\<exists>b\<in>set (t_builds t). d_id b = i) \<or> length key \<noteq> 32 then Inl constraint
      else Inr (Some (newBuild i key token stamp created),
             t\<lparr>t_builds := t_builds t @ [newBuild i key token stamp created]\<rparr>))"

definition liveBuild :: "uuid \<Rightarrow> uuid \<Rightarrow> time \<Rightarrow> build_row \<Rightarrow> bool" where
  "liveBuild i token stamp b \<longleftrightarrow> d_id b = i \<and> d_token b = token \<and> d_status b = Building \<and> d_lease b > stamp"

definition finishImageBuild :: "uuid \<Rightarrow> uuid \<Rightarrow> buildStatus \<Rightarrow> string \<Rightarrow> string \<Rightarrow> time \<Rightarrow> tables \<Rightarrow>
    goerr + nat \<times> tables" where
  "finishImageBuild i token st uri error stamp t =
     (if (\<exists>b\<in>set (t_builds t). liveBuild i token stamp b) \<and> st = BuildReady \<and> uri = [] then Inl constraint
      else Inr (length (filter (liveBuild i token stamp) (t_builds t)),
             t\<lparr>t_builds := map (\<lambda>b. if liveBuild i token stamp b
                                     then b\<lparr>d_status := st, d_uri := uri, d_error := error\<rparr> else b) (t_builds t)\<rparr>))"

definition renewImageBuild :: "uuid \<Rightarrow> uuid \<Rightarrow> time \<Rightarrow> tables \<Rightarrow> goerr + nat \<times> tables" where
  "renewImageBuild i token stamp t =
     Inr (length (filter (liveBuild i token stamp) (t_builds t)),
       t\<lparr>t_builds := map (\<lambda>b. if liveBuild i token stamp b then b\<lparr>d_lease := stamp + 30000000000\<rparr> else b) (t_builds t)\<rparr>)"

subsection \<open>Claiming\<close>

definition startBuild :: "bytes \<Rightarrow> time \<Rightarrow> (build_row option \<times> bool) act" where
  "startBuild key stamp =
     andThen newID (\<lambda>i.
     andThen newID (\<lambda>token w.
     andThen (stmt (insertImageBuild i key token stamp (clock w))) (\<lambda>row.
     case row of
       None \<Rightarrow> ret (None, False)
     | Some b \<Rightarrow>
         andThen (query (readyImageBuild key)) (\<lambda>previous.
         case previous of
           Some p \<Rightarrow> andThen (stmt (deleteUnneededImageBuild (d_id b))) (\<lambda>_. ret (Some p, False))
         | None \<Rightarrow> ret (Some b, True))) w))"

definition claimTx :: "bytes \<Rightarrow> time \<Rightarrow> (build_row option \<times> bool) act" where
  "claimTx key stamp =
     andThen (stmt (expireImageBuilds key stamp)) (\<lambda>_.
     andThen (query (latestImageBuild key)) (\<lambda>current.
     case current of
       None \<Rightarrow> startBuild key stamp
     | Some b \<Rightarrow> if d_status b = BuildReady \<or> d_status b = Building then ret (Some b, False) else startBuild key stamp))"

definition claimImageBuild :: "bytes \<Rightarrow> (build_row option \<times> bool) act" where
  "claimImageBuild key w = transaction (\<lambda>e. e) (\<lambda>e. e) (claimTx key (clock w)) w"

subsection \<open>Building and waiting\<close>

text \<open>One tick of the renewal: whether it cancels the build's context.\<close>

definition renewBuildTick :: "build_row \<Rightarrow> world \<Rightarrow> bool \<times> world" where
  "renewBuildTick b w =
     (case stmt (renewImageBuild (d_id b) (d_token b) (clock w)) w of
        (Inr n, v) \<Rightarrow> (n \<noteq> 1, v)
      | (Inl _, v) \<Rightarrow> (True, v))"

definition buildImage :: "build_row \<Rightarrow> string act \<Rightarrow> string act" where
  "buildImage b build w =
     (case build w of (result, v) \<Rightarrow>
      andThen (\<lambda>u. stmt (case result of
           Inl e \<Rightarrow> finishImageBuild (d_id b) (d_token b) BuildFailed [] (errText e) (clock u)
         | Inr uri \<Rightarrow> finishImageBuild (d_id b) (d_token b) BuildReady uri [] (clock u)) u) (\<lambda>rows.
      if rows \<noteq> 1 then fail (Plain ''image build lease lost'')
      else (case result of Inl e \<Rightarrow> fail e | Inr uri \<Rightarrow> ret uri)) v)"

text \<open>
  The fuel bounds the turns of the loop before the caller's context ends; \<open>pause n\<close> is what
  happens during the sleep, when other workers act.
\<close>

fun ensureImage :: "nat \<Rightarrow> bytes \<Rightarrow> string act \<Rightarrow> (nat \<Rightarrow> unit act) \<Rightarrow> uuid \<Rightarrow> string act" where
  "ensureImage 0 key build pause observed = fail CtxCanceled"
| "ensureImage (Suc n) key build pause observed =
     andThen (if observed = nilUUID then claimImageBuild key
              else andThen (one (getImageBuild observed)) (\<lambda>b. ret (Some b, False))) (\<lambda>(row, owned) w.
     case row of
       None \<Rightarrow> ensureImage n key build pause observed w
     | Some b \<Rightarrow>
         if d_status b = BuildReady then ret (d_uri b) w
         else if owned then buildImage b build w
         else if d_status b = BuildFailed then
           if d_error b = leaseExpired then ensureImage n key build pause nilUUID w else fail (Plain (d_error b)) w
         else andThen (pause n) (\<lambda>_. ensureImage n key build pause (if d_lease b > clock w then d_id b else nilUUID)) w)"

text \<open>The tick of \<open>RunWorker.sweep\<close>, which only logs an error.\<close>

definition sweepTick :: "unit act" where
  "sweepTick w = (Inr (), snd (stmt (sweepExpiredImageBuilds (clock w)) w))"

subsection \<open>Artifacts\<close>

definition storeArtifact :: "lib \<Rightarrow> logService \<Rightarrow> bytes \<Rightarrow> string act" where
  "storeArtifact L s data =
     (if \<not> hasStore s \<or> bucket s = [] then fail (Plain ''image artifact store unavailable'')
      else Put L archiveMIME data)"

definition readVerified :: "lib \<Rightarrow> uuid \<Rightarrow> bytes \<Rightarrow> int \<Rightarrow> bytes act" where
  "readVerified L i digest maxSize =
     andThen (getObject (ObjectKey L i)) (\<lambda>found.
     case found of
       None \<Rightarrow> fail (Plain ''The specified key does not exist.'')
     | Some ob \<Rightarrow>
         if int (length (ob_data ob)) > maxSize then fail (Plain ''blob exceeds size limit'')
         else if sha256 (ob_data ob) \<noteq> digest then fail (Plain ''blob checksum mismatch'')
         else ret (ob_data ob))"

definition maxImageSize :: int where "maxImageSize = 2147483648"

definition loadArtifact :: "lib \<Rightarrow> logService \<Rightarrow> string \<Rightarrow> bytes act" where
  "loadArtifact L s uri =
     (case ParseURI uri of
        Inl _ \<Rightarrow> fail (Plain ''invalid image artifact blob URI'')
      | Inr (digest, mime) \<Rightarrow>
          if mime \<noteq> archiveMIME \<or> uri \<noteq> sourceURI digest then fail (Plain ''invalid image artifact blob URI'')
          else if \<not> hasStore s \<or> bucket s = [] then fail (Plain ''image artifact unavailable'')
          else
            andThen (one (\<lambda>t. t_blobs t digest)) (\<lambda>i. readVerified L i digest maxImageSize))"

subsection \<open>One builder for a key\<close>

definition building :: "bytes \<Rightarrow> build_row \<Rightarrow> bool" where
  "building key b \<longleftrightarrow> d_image b = key \<and> d_status b = Building"

text \<open>
  Ids are keys, \<open>image_building_idx\<close> holds, and a ready build has an artifact. A ready
  build never changes.
\<close>

definition buildsOK :: "tables \<Rightarrow> bool" where
  "buildsOK t \<longleftrightarrow>
     distinct (map d_id (t_builds t)) \<and> (\<forall>key. length (filter (building key) (t_builds t)) \<le> 1) \<and>
     (\<forall>b\<in>set (t_builds t). d_status b = BuildReady \<longrightarrow> d_uri b \<noteq> [])"

definition buildStep :: "tables \<Rightarrow> tables \<Rightarrow> bool" where
  "buildStep t t' \<longleftrightarrow>
     (buildsOK t \<longrightarrow> buildsOK t') \<and>
     (\<forall>b\<in>set (t_builds t). d_status b = BuildReady \<longrightarrow> b \<in> set (t_builds t'))"

interpretation bs: frame buildStep
  by unfold_locales (auto simp: buildStep_def)

text \<open>Rewriting rows that keep their ids and keys, and start no build.\<close>

lemma buildStep_map:
  assumes t': "t_builds t' = map f (t_builds t)"
    and keep: "\<And>b. d_id (f b) = d_id b \<and> d_image (f b) = d_image b \<and> (d_status (f b) = Building \<longrightarrow> d_status b = Building)"
    and ready: "\<And>b. b \<in> set (t_builds t) \<Longrightarrow> d_status b = BuildReady \<Longrightarrow> f b = b"
    and uri: "\<And>b. b \<in> set (t_builds t) \<Longrightarrow> d_status b \<noteq> BuildReady \<Longrightarrow> d_status (f b) = BuildReady \<Longrightarrow> d_uri (f b) \<noteq> []"
  shows "buildStep t t'"
proof -
  have "length (filter (building key) (map f bs)) \<le> length (filter (building key) bs)" for key bs
    using keep by (induction bs) (auto simp: building_def)
  then have one: "length (filter (building key) (map f bs)) \<le> 1" if "length (filter (building key) bs) \<le> 1" for key bs
    using that order_trans by blast
  have ids: "map d_id (map f bs) = map d_id bs" for bs using keep by simp
  have uris: "d_uri (f b) \<noteq> []" if "\<forall>b\<in>set (t_builds t). d_status b = BuildReady \<longrightarrow> d_uri b \<noteq> []"
    "b \<in> set (t_builds t)" "d_status (f b) = BuildReady" for b
    using that uri [OF that(2)] ready [OF that(2)] by (cases "d_status b = BuildReady") auto
  have "buildsOK t'" if "buildsOK t"
    using that one uris unfolding buildsOK_def t' ids by (simp del: filter_map)
  moreover have "b \<in> set (t_builds t')" if "b \<in> set (t_builds t)" "d_status b = BuildReady" for b
    using ready [OF that] that(1) unfolding t' by (metis imageI list.set_map)
  ultimately show ?thesis by (auto simp: buildStep_def)
qed

lemma buildStep_filter: "t_builds t' = filter P (t_builds t) \<Longrightarrow> (\<And>b. d_status b = BuildReady \<Longrightarrow> P b) \<Longrightarrow> buildStep t t'"
proof -
  assume a: "t_builds t' = filter P (t_builds t)" "\<And>b. d_status b = BuildReady \<Longrightarrow> P b"
  have "length (filter (building key) (filter P bs)) \<le> length (filter (building key) bs)" for key bs
    by (induction bs) auto
  then have "length (filter (building key) (filter P bs)) \<le> 1" if "length (filter (building key) bs) \<le> 1" for key bs
    using that order_trans by blast
  with a show ?thesis unfolding buildStep_def buildsOK_def a(1) by (simp add: distinct_map_filter del: filter_filter)
qed

lemma build_stmts:
  "expireImageBuilds key stamp t = Inr (u, t') \<Longrightarrow> buildStep t t'"
  "sweepExpiredImageBuilds stamp t = Inr (u, t') \<Longrightarrow> buildStep t t'"
  "deleteUnneededImageBuild i t = Inr (u, t') \<Longrightarrow> buildStep t t'"
  "insertImageBuild i key token stamp created t = Inr (row, t') \<Longrightarrow> buildStep t t'"
  "st \<noteq> Building \<Longrightarrow> finishImageBuild i token st uri error stamp t = Inr (n, t') \<Longrightarrow> buildStep t t'"
  "renewImageBuild i token stamp t = Inr (n, t') \<Longrightarrow> buildStep t t'"
proof -
  show "expireImageBuilds key stamp t = Inr (u, t') \<Longrightarrow> buildStep t t'"
    by (rule buildStep_map [where f = "\<lambda>b. if d_image b = key then expireRow stamp b else b"])
      (auto simp: expireImageBuilds_def expireRow_def split: if_splits)
  show "sweepExpiredImageBuilds stamp t = Inr (u, t') \<Longrightarrow> buildStep t t'"
    by (rule buildStep_map [where f = "expireRow stamp"]) (auto simp: sweepExpiredImageBuilds_def expireRow_def)
  show "deleteUnneededImageBuild i t = Inr (u, t') \<Longrightarrow> buildStep t t'"
    by (rule buildStep_filter [where P = "\<lambda>b. \<not> (d_id b = i \<and> d_status b = Building)"]) (auto simp: deleteUnneededImageBuild_def)
  show "renewImageBuild i token stamp t = Inr (n, t') \<Longrightarrow> buildStep t t'"
    by (rule buildStep_map [where f = "\<lambda>b. if liveBuild i token stamp b then b\<lparr>d_lease := stamp + 30000000000\<rparr> else b"])
      (auto simp: renewImageBuild_def liveBuild_def)
  show "buildStep t t'" if "st \<noteq> Building" "finishImageBuild i token st uri error stamp t = Inr (n, t')"
    by (rule buildStep_map [where f = "\<lambda>b. if liveBuild i token stamp b
        then b\<lparr>d_status := st, d_uri := uri, d_error := error\<rparr> else b"])
      (use that in \<open>auto simp: finishImageBuild_def liveBuild_def split: if_splits\<close>)
  show "buildStep t t'" if ins: "insertImageBuild i key token stamp created t = Inr (row, t')"
  proof (cases row)
    case None
    with ins have "t' = t" by (auto simp: insertImageBuild_def split: if_splits)
    then show ?thesis by (simp add: bs.refl)
  next
    case (Some b)
    with ins have b: "b = newBuild i key token stamp created" "t_builds t' = t_builds t @ [b]"
      "filter (building key) (t_builds t) = []" "i \<notin> d_id ` set (t_builds t)"
      by (auto simp: insertImageBuild_def building_def filter_empty_conv split: if_splits)
    then show ?thesis by (auto simp: buildStep_def buildsOK_def building_def newBuild_def)
  qed
qed

lemma startBuild_keeps: "keeps buildStep (startBuild key stamp)"
proof -
  let ?rest = "\<lambda>row. case row of None \<Rightarrow> ret (None, False)
     | Some b \<Rightarrow> andThen (query (readyImageBuild key)) (\<lambda>previous.
         case previous of
           Some p \<Rightarrow> andThen (stmt (deleteUnneededImageBuild (d_id b))) (\<lambda>_. ret (Some p, False))
         | None \<Rightarrow> ret (Some b, True))"
  have "keeps buildStep (?rest row)" for row
    by (intro bs.rules bs.statement) (erule build_stmts)
  then have "keeps buildStep (andThen (stmt (insertImageBuild i key token stamp c)) ?rest)" for i token c
    by (intro bs.w.seq bs.statement) (erule build_stmts)
  then have "keeps buildStep (\<lambda>w. andThen (stmt (insertImageBuild i key token stamp (clock w))) ?rest w)" for i token
    by (rule within_clock)
  then show ?thesis unfolding startBuild_def by (intro bs.w.seq bs.new)
qed

lemma claimTx_keeps: "keeps buildStep (claimTx key stamp)"
  unfolding claimTx_def
  by (intro bs.w.seq bs.w.qry bs.w.opt bs.w.cond bs.w.ret startBuild_keeps bs.statement) (erule build_stmts)

lemma claimImageBuild_keeps: "keeps buildStep (claimImageBuild key)"
proof -
  have "keeps buildStep (\<lambda>w. transaction (\<lambda>e. e) (\<lambda>e. e) (claimTx key (clock w)) w)"
    by (rule within_clock) (rule bs.body [OF claimTx_keeps])
  moreover have "claimImageBuild key = (\<lambda>w. transaction (\<lambda>e. e) (\<lambda>e. e) (claimTx key (clock w)) w)"
    by (rule ext) (simp add: claimImageBuild_def)
  ultimately show ?thesis by simp
qed

text \<open>What a claim that owns the build has found and left.\<close>

lemma latestOf_None: "latestOf bs = None \<longleftrightarrow> bs = []"
  by (auto simp: latestOf_def split: list.splits) (metis length_0_conv length_rev length_sort)

lemma insertImageBuild_Some:
  "insertImageBuild i key token stamp c t = Inr (Some b, t') \<Longrightarrow>
     b = newBuild i key token stamp c \<and> t_builds t' = t_builds t @ [b] \<and> filter (building key) (t_builds t) = []"
  by (auto simp: insertImageBuild_def building_def filter_empty_conv split: if_splits)

lemma startBuild_owned:
  assumes "startBuild key stamp w = (Inr (Some b, True), w')"
  shows "d_image b = key \<and> t_builds (tabs w') = t_builds (tabs w) @ [b] \<and> filter (building key) (t_builds (tabs w)) = [] \<and>
    (\<forall>c\<in>set (t_builds (tabs w')). d_image c = key \<longrightarrow> d_status c \<noteq> BuildReady) \<and> building key b \<and>
    d_lease b = stamp + 30000000000"
proof -
  from assms obtain i token u where k: "andThen (stmt (insertImageBuild i key token stamp (clock u))) (\<lambda>row.
     case row of
       None \<Rightarrow> ret (None, False)
     | Some b \<Rightarrow>
         andThen (query (readyImageBuild key)) (\<lambda>previous.
         case previous of
           Some p \<Rightarrow> andThen (stmt (deleteUnneededImageBuild (d_id b))) (\<lambda>_. ret (Some p, False))
         | None \<Rightarrow> ret (Some b, True))) u = (Inr (Some b, True), w')" and u: "tabs u = tabs w"
    unfolding startBuild_def by (elim newIDE) (rule that, assumption, simp)
  from k obtain v where s: "stmt (insertImageBuild i key token stamp (clock u)) u = (Inr (Some b), v)"
    and q: "query (readyImageBuild key) v = (Inr None, w')"
    by (auto elim!: andThen_InrE split: option.splits)
  from s have ins: "insertImageBuild i key token stamp (clock u) (tabs u) = Inr (Some b, tabs v)" by (auto simp: stmt_Inr)
  from q have r: "readyImageBuild key (tabs v) = None" "tabs w' = tabs v" by (auto simp: query_Inr dest: call_result)
  from insertImageBuild_Some [OF ins] r u show ?thesis
    by (auto simp: readyImageBuild_def latestOf_None filter_empty_conv building_def newBuild_def)
qed

lemma claimTx_owned:
  assumes "claimTx key stamp w = (Inr (Some b, True), w')"
  shows "filter (building key) (t_builds (tabs w')) = [b] \<and> d_lease b = stamp + 30000000000 \<and>
    (\<forall>c\<in>set (t_builds (tabs w')). d_image c = key \<longrightarrow> d_status c \<noteq> BuildReady) \<and>
    (\<forall>c\<in>set (t_builds (tabs w)). building key c \<longrightarrow> d_lease c \<le> stamp)"
proof -
  from assms [unfolded claimTx_def] obtain u v current x where e: "stmt (expireImageBuilds key stamp) w = (Inr u, v)"
    and q: "query (latestImageBuild key) v = (Inr current, x)"
    and k: "(case current of None \<Rightarrow> startBuild key stamp
      | Some b \<Rightarrow> if d_status b = BuildReady \<or> d_status b = Building then ret (Some b, False) else startBuild key stamp) x =
      (Inr (Some b, True), w')"
    by (elim andThen_InrE) (rule that)
  from q have x: "tabs x = tabs v" by (auto simp: query_Inr dest: call_result)
  from e have v: "t_builds (tabs v) = map (\<lambda>b. if d_image b = key then expireRow stamp b else b) (t_builds (tabs w))"
    by (auto simp: stmt_Inr expireImageBuilds_def)
  from k have "startBuild key stamp x = (Inr (Some b, True), w')"
    by (auto split: option.splits if_splits)
  from startBuild_owned [OF this] x have s: "t_builds (tabs w') = t_builds (tabs v) @ [b]" "filter (building key) (t_builds (tabs v)) = []"
    "\<forall>c\<in>set (t_builds (tabs w')). d_image c = key \<longrightarrow> d_status c \<noteq> BuildReady" "building key b" "d_lease b = stamp + 30000000000"
    by simp_all
  have "d_lease c \<le> stamp" if c: "c \<in> set (t_builds (tabs w))" "building key c" for c
  proof (rule ccontr)
    assume "\<not> d_lease c \<le> stamp"
    with c(2) have "expireRow stamp c = c" by (simp add: expireRow_def)
    with c v have "c \<in> set (t_builds (tabs v))" by (force simp: building_def)
    with c(2) s(2) show False by (simp add: filter_empty_conv)
  qed
  with s show ?thesis by auto
qed

inductive image_step :: "world \<Rightarrow> world \<Rightarrow> bool" where
  claim: "claimImageBuild key w = (r, w') \<Longrightarrow> image_step w w'"
| renew: "renewBuildTick b w = (stop, w') \<Longrightarrow> image_step w w'"
| finish: "(\<And>u. image_step\<^sup>*\<^sup>* u (snd (build u))) \<Longrightarrow> buildImage b build w = (res, w') \<Longrightarrow> image_step w w'"
| sweep: "sweepTick w = (x, w') \<Longrightarrow> image_step w w'"
| time: "clock w \<le> c \<Longrightarrow> image_step w (w\<lparr>clock := c\<rparr>)"
  monos rtranclp_mono

lemma stmt_build:
  assumes "\<And>t x t'. f t = Inr (x, t') \<Longrightarrow> buildStep t t'" and "stmt f w = (r, v)"
  shows "buildStep (tabs w) (tabs v)"
  using keepsD [OF bs.statement [of f] assms(2)] assms(1) by blast

lemma image_step_keeps: "image_step w w' \<Longrightarrow> buildStep (tabs w) (tabs w')"
proof (induction rule: image_step.induct)
  case (claim key w r w')
  then show ?case by (rule keepsD [OF claimImageBuild_keeps])
next
  case (renew b w stop w')
  obtain r v where s: "stmt (renewImageBuild (d_id b) (d_token b) (clock w)) w = (r, v)" by fastforce
  with renew have "w' = v" by (auto simp: renewBuildTick_def split: sum.splits)
  then show ?case using stmt_build [OF _ s] build_stmts(6) by metis
next
  case (finish build b w res w')
  have steps: "buildStep (tabs u) (tabs x)" if "(\<lambda>w w'. image_step w w' \<and> buildStep (tabs w) (tabs w'))\<^sup>*\<^sup>* u x" for u x
    using that by (induction rule: rtranclp_induct) (auto simp: bs.refl intro: bs.trans)
  obtain r v where v: "build w = (r, v)" by fastforce
  with steps [OF finish(1) [of w]] have bv: "buildStep (tabs w) (tabs v)" by simp
  let ?f = "\<lambda>stamp. case r of Inl e \<Rightarrow> finishImageBuild (d_id b) (d_token b) BuildFailed [] (errText e) stamp
         | Inr uri \<Rightarrow> finishImageBuild (d_id b) (d_token b) BuildReady uri [] stamp"
  have "keeps buildStep (stmt (?f stamp))" for stamp
    by (rule bs.statement) (auto split: sum.splits intro: build_stmts(5))
  then have "keeps buildStep (\<lambda>u. stmt (?f (clock u)) u)" by (rule within_clock)
  then have "keeps buildStep (andThen (\<lambda>u. stmt (?f (clock u)) u) (\<lambda>rows. if rows \<noteq> 1 then fail (Plain ''image build lease lost'')
      else (case r of Inl e \<Rightarrow> fail e | Inr uri \<Rightarrow> ret uri)))"
    by (intro bs.w.seq bs.w.cond bs.w.fail bs.w.alt bs.w.ret)
  moreover have "andThen (\<lambda>u. stmt (?f (clock u)) u) (\<lambda>rows. if rows \<noteq> 1 then fail (Plain ''image build lease lost'')
      else (case r of Inl e \<Rightarrow> fail e | Inr uri \<Rightarrow> ret uri)) v = (res, w')"
    using finish(2) v by (simp only: buildImage_def prod.case)
  ultimately have "buildStep (tabs v) (tabs w')" by (rule keepsD)
  with bv show ?case by (rule bs.trans)
next
  case (sweep w x w')
  obtain r v where s: "stmt (sweepExpiredImageBuilds (clock w)) w = (r, v)" by fastforce
  with sweep have "w' = v" by (simp add: sweepTick_def)
  then show ?case using stmt_build [OF _ s] build_stmts(2) by metis
qed (simp add: bs.refl)

lemma image_steps_keep: "image_step\<^sup>*\<^sup>* w w' \<Longrightarrow> buildStep (tabs w) (tabs w')"
  by (induction rule: rtranclp_induct) (auto simp: bs.refl intro: bs.trans image_step_keeps)

text \<open>
  C30: Whatever the workers do, at most one build of an image key is under way, a ready build
  keeps its artifact for good, and a worker whose claim says that it owns the build is the
  only one: there was no ready build and no live one, and its row is the only one under way.
\<close>

theorem one_builder:
  assumes "buildsOK (tabs w)" and "image_step\<^sup>*\<^sup>* w u" and "claimImageBuild key u = (Inr (Some b, True), v)"
  shows "buildsOK (tabs v) \<and> filter (building key) (t_builds (tabs v)) = [b] \<and>
    (\<forall>c\<in>set (t_builds (tabs u)). d_image c = key \<longrightarrow>
       d_status c \<noteq> BuildReady \<and> (d_status c = Building \<longrightarrow> d_lease c \<le> clock u)) \<and>
    (\<forall>c\<in>set (t_builds (tabs w)). d_status c = BuildReady \<longrightarrow> c \<in> set (t_builds (tabs v)))"
proof -
  from image_steps_keep [OF assms(2)] have uv: "buildStep (tabs w) (tabs u)" .
  from claimImageBuild_keeps assms(3) have v: "buildStep (tabs u) (tabs v)" by (rule keepsD)
  from assms(3) obtain u1 v1 where c: "claimTx key (clock u) u1 = (Inr (Some b, True), v1)"
    and t: "tabs v = tabs v1" "tabs u1 = tabs u"
    unfolding claimImageBuild_def by (rule transaction_Inr)
  from claimTx_owned [OF c] t have f: "filter (building key) (t_builds (tabs v)) = [b]"
    "\<forall>c\<in>set (t_builds (tabs v)). d_image c = key \<longrightarrow> d_status c \<noteq> BuildReady"
    "\<forall>c\<in>set (t_builds (tabs u)). building key c \<longrightarrow> d_lease c \<le> clock u" by simp_all
  have "d_status c \<noteq> BuildReady" if "c \<in> set (t_builds (tabs u))" "d_image c = key" for c
    using that f(2) v unfolding buildStep_def by blast
  moreover have "buildsOK (tabs v)" using assms(1) uv v by (simp add: buildStep_def)
  moreover have "\<forall>c\<in>set (t_builds (tabs w)). d_status c = BuildReady \<longrightarrow> c \<in> set (t_builds (tabs v))"
    using bs.trans [OF uv v] by (simp add: buildStep_def)
  ultimately show ?thesis using f by (auto simp: building_def)
qed

definition imageWorld :: world where
  "imageWorld = \<lparr>tabs = emptyTables, objects = Map.empty, clock = 1, ids = of_nat, drawn = 1,
     faults = (\<lambda>_. None), landed = (\<lambda>_. False), calls = 0\<rparr>"

theorem one_builder_witness:
  "\<exists>b v. claimImageBuild (replicate 32 0) (imageWorld\<lparr>clock := 7\<rparr>) = (Inr (Some b, True), v) \<and>
     filter (building (replicate 32 0)) (t_builds (tabs v)) = [b] \<and> d_lease b = 30000000007"
proof -
  let ?key = "replicate 32 0 :: bytes" and ?u = "imageWorld\<lparr>clock := 7\<rparr>"
  let ?b = "newBuild 1 ?key 2 7 7"
  obtain v where v: "claimImageBuild ?key ?u = (Inr (Some ?b, True), v)"
    by (simp add: claimImageBuild_def transaction_def claimTx_def startBuild_def andThen_def stmt_def call_def query_def
        newID_def imageWorld_def emptyTables_def expireImageBuilds_def latestImageBuild_def latestOf_def
        insertImageBuild_def readyImageBuild_def newBuild_def)
  have "image_step imageWorld ?u" by (rule image_step.time) (simp add: imageWorld_def)
  moreover have "buildsOK (tabs imageWorld)" by (simp add: buildsOK_def imageWorld_def emptyTables_def)
  ultimately have "filter (building ?key) (t_builds (tabs v)) = [?b]"
    using one_builder [OF _ r_into_rtranclp v] by blast
  with v show ?thesis by (intro exI [of _ ?b] exI [of _ v]) (simp add: newBuild_def)
qed

end
