(* ===== verification/Run_Fleet.thy ===== *)
theory Run_Fleet
  imports Run_Worker Images
begin

section \<open>The workers of a deployment\<close>

text \<open>
  The loops of \<open>RunWorker\<close> in \<open>internal/lutra/run_worker.go\<close>, for any number of workers on one
  database: \<open>Start\<close>, \<open>loop\<close> with its channel of owners, \<open>drive\<close> from the claim to the release,
  \<open>renew\<close> and \<open>sweep\<close>. What goes on inside \<open>graph.Run\<close> is the system of \<open>Graph_Step\<close>; here a
  drive is in it, and returns from it at some time. Between the steps anything else may
  happen to the database.
\<close>

subsection \<open>\<open>Start\<close>\<close>

definition startWorker :: "int \<Rightarrow> int \<Rightarrow> int \<times> int" where
  "startWorker slots maxRuns =
     (if slots < 1 then 4 else slots, if maxRuns < 1 then 16 else maxRuns)"

record runWorker =
  wk_max :: int
  wk_holding :: bool \<comment> \<open>\<open>loop\<close> has put a token into \<open>owners\<close> and not yet a run to it\<close>
  wk_owners :: nat \<comment> \<open>the tokens in \<open>owners\<close>\<close>

datatype driveStage = Loading | Driving | Leaving | Left

record drive =
  dv_worker :: nat
  dv_run :: uuid
  dv_token :: uuid
  dv_stage :: driveStage
  dv_canceled :: bool

record fleet =
  fl_world :: world
  fl_workers :: "runWorker list"
  fl_drives :: "drive list"

definition startFleet :: "world \<Rightarrow> (int \<times> int) list \<Rightarrow> fleet" where
  "startFleet w configs =
     \<lparr>fl_world = w,
      fl_workers = map (\<lambda>(c, m). \<lparr>wk_max = snd (startWorker c m), wk_holding = False, wk_owners = 0\<rparr>) configs,
      fl_drives = []\<rparr>"

subsection \<open>\<open>loop\<close>\<close>

definition acquire :: "nat \<Rightarrow> fleet \<Rightarrow> fleet" where
  "acquire k st = st\<lparr>fl_workers := (fl_workers st)[k := (fl_workers st ! k)\<lparr>wk_holding := True,
     wk_owners := Suc (wk_owners (fl_workers st ! k))\<rparr>]\<rparr>"

definition claimTurn :: "nat \<Rightarrow> uuid \<Rightarrow> fleet \<Rightarrow> fleet" where
  "claimTurn k token st =
     (let wk = fl_workers st ! k in
      case claimNext token (fl_world st) of
        (Inr (Some run), w) \<Rightarrow>
          st\<lparr>fl_world := w, fl_workers := (fl_workers st)[k := wk\<lparr>wk_holding := False\<rparr>],
             fl_drives := fl_drives st @ [\<lparr>dv_worker = k, dv_run = run, dv_token = token, dv_stage = Loading, dv_canceled = False\<rparr>]\<rparr>
      | (_, w) \<Rightarrow>
          st\<lparr>fl_world := w, fl_workers := (fl_workers st)[k := wk\<lparr>wk_holding := False, wk_owners := wk_owners wk - 1\<rparr>]\<rparr>)"

subsection \<open>\<open>drive\<close> and \<open>renew\<close>\<close>

definition setDrive :: "nat \<Rightarrow> drive \<Rightarrow> world \<Rightarrow> fleet \<Rightarrow> fleet" where
  "setDrive i d w st = st\<lparr>fl_world := w, fl_drives := (fl_drives st)[i := d]\<rparr>"

definition loadTurn :: "(uuid \<Rightarrow> uuid \<Rightarrow> (world exec \<times> (uuid \<rightharpoonup> listedRow)) act) \<Rightarrow> nat \<Rightarrow> fleet \<Rightarrow> fleet" where
  "loadTurn load i st =
     (let d = fl_drives st ! i in
      case load (dv_run d) (dv_token d) (fl_world st) of
        (Inl e, w) \<Rightarrow> setDrive i (d\<lparr>dv_stage := Leaving\<rparr>) w st
      | (Inr g, w) \<Rightarrow> setDrive i (d\<lparr>dv_stage := Driving\<rparr>) w st)"

definition renewTurn :: "nat \<Rightarrow> fleet \<Rightarrow> fleet" where
  "renewTurn i st =
     (let d = fl_drives st ! i in
      case renewTick (dv_run d) (dv_token d) (fl_world st) of
        (stop, w) \<Rightarrow> setDrive i (d\<lparr>dv_canceled := stop\<rparr>) w st)"

text \<open>The deferred calls of \<open>drive\<close> and of its goroutine: the release, then the owner's token.\<close>

definition leaveTurn :: "nat \<Rightarrow> fleet \<Rightarrow> fleet" where
  "leaveTurn i st =
     (let d = fl_drives st ! i; k = dv_worker d; wk = fl_workers st ! k in
      case releaseClaim (dv_run d) (dv_token d) (fl_world st) of
        (_, w) \<Rightarrow> (setDrive i (d\<lparr>dv_stage := Left\<rparr>) w st)\<lparr>
            fl_workers := (fl_workers st)[k := wk\<lparr>wk_owners := wk_owners wk - 1\<rparr>]\<rparr>)"

subsection \<open>The system\<close>

text \<open>A token of \<open>uuid.New\<close> has not been drawn before.\<close>

inductive fleet_step :: "lib \<Rightarrow> encodings \<Rightarrow> codecs \<Rightarrow> logService \<Rightarrow> fleet \<Rightarrow> fleet \<Rightarrow> bool" for L E C s where
  Acquires: "k < length (fl_workers st) \<Longrightarrow> \<not> wk_holding (fl_workers st ! k) \<Longrightarrow>
     int (wk_owners (fl_workers st ! k)) < wk_max (fl_workers st ! k) \<Longrightarrow>
     fleet_step L E C s st (acquire k st)"
| Claims: "k < length (fl_workers st) \<Longrightarrow> wk_holding (fl_workers st ! k) \<Longrightarrow>
     token \<notin> dv_token ` set (fl_drives st) \<Longrightarrow> fleet_step L E C s st (claimTurn k token st)"
| Loads: "i < length (fl_drives st) \<Longrightarrow> dv_stage (fl_drives st ! i) = Loading \<Longrightarrow>
     fleet_step L E C s st (loadTurn (loadGraph L E C s marshal runtime slots timer) i st)"
| Renews: "i < length (fl_drives st) \<Longrightarrow> dv_stage (fl_drives st ! i) \<noteq> Left \<Longrightarrow>
     \<not> dv_canceled (fl_drives st ! i) \<Longrightarrow> fleet_step L E C s st (renewTurn i st)"
| Returns: "i < length (fl_drives st) \<Longrightarrow> dv_stage (fl_drives st ! i) = Driving \<Longrightarrow>
     fleet_step L E C s st (setDrive i ((fl_drives st ! i)\<lparr>dv_stage := Leaving\<rparr>) (fl_world st) st)"
| Leaves: "i < length (fl_drives st) \<Longrightarrow> dv_stage (fl_drives st ! i) = Leaving \<Longrightarrow>
     fleet_step L E C s st (leaveTurn i st)"
| Sweeps: "fleet_step L E C s st (st\<lparr>fl_world := snd (sweepTick (fl_world st))\<rparr>)"
| Elsewhere: "fleet_step L E C s st (st\<lparr>fl_world := w\<rparr>)"

inductive fleet_reachable :: "lib \<Rightarrow> encodings \<Rightarrow> codecs \<Rightarrow> logService \<Rightarrow> fleet \<Rightarrow> fleet \<Rightarrow> bool"
  for L E C s st0 where
  Started: "fleet_reachable L E C s st0 st0"
| Moved: "fleet_reachable L E C s st0 st \<Longrightarrow> fleet_step L E C s st st' \<Longrightarrow> fleet_reachable L E C s st0 st'"

inductive_cases fleet_stepE: "fleet_step L E C s st st'"

subsection \<open>The invariant\<close>

definition drivesOf :: "nat \<Rightarrow> fleet \<Rightarrow> nat" where
  "drivesOf k st = countP (\<lambda>d. dv_worker d = k \<and> dv_stage d \<noteq> Left) (fl_drives st)"

definition ownersOK :: "nat \<Rightarrow> fleet \<Rightarrow> bool" where
  "ownersOK k st \<longleftrightarrow>
     (let wk = fl_workers st ! k in
      wk_owners wk = drivesOf k st + (if wk_holding wk then 1 else 0) \<and> int (wk_owners wk) \<le> wk_max wk)"

definition fleetOK :: "fleet \<Rightarrow> bool" where
  "fleetOK st \<longleftrightarrow>
     distinct (map dv_token (fl_drives st)) \<and>
     (\<forall>k\<in>dv_worker ` set (fl_drives st). k < length (fl_workers st)) \<and>
     (\<forall>k<length (fl_workers st). ownersOK k st)"

lemma fleetOK_start: "fleetOK (startFleet w configs)"
  by (auto simp: fleetOK_def startFleet_def ownersOK_def drivesOf_def startWorker_def split: prod.split)

lemma map_same: "i < length xs \<Longrightarrow> f y = f (xs ! i) \<Longrightarrow> map f (xs[i := y]) = map f xs"
  by (metis list_update_id map_update)

text \<open>A drive that stays in \<open>drive\<close>.\<close>

lemma fleetOK_setDrive:
  assumes ok: "fleetOK st" and i: "i < length (fl_drives st)"
    and same: "dv_worker d = dv_worker (fl_drives st ! i)" "dv_token d = dv_token (fl_drives st ! i)"
    and stages: "dv_stage (fl_drives st ! i) \<noteq> Left" "dv_stage d \<noteq> Left"
  shows "fleetOK (setDrive i d w st)"
proof -
  have "drivesOf k (setDrive i d w st) = drivesOf k st" for k
    unfolding drivesOf_def setDrive_def using i same stages by (simp add: countP_update_same)
  then have "ownersOK k (setDrive i d w st) = ownersOK k st" for k by (simp add: ownersOK_def setDrive_def)
  moreover have "map dv_token (fl_drives (setDrive i d w st)) = map dv_token (fl_drives st)"
    using i same by (simp add: setDrive_def map_same)
  moreover have "dv_worker ` set (fl_drives (setDrive i d w st)) = dv_worker ` set (fl_drives st)"
  proof -
    have "map dv_worker (fl_drives (setDrive i d w st)) = map dv_worker (fl_drives st)"
      using i same by (simp add: setDrive_def map_same)
    then show ?thesis by (metis list.set_map)
  qed
  moreover have "fl_workers (setDrive i d w st) = fl_workers st" by (simp add: setDrive_def)
  ultimately show ?thesis using ok by (simp add: fleetOK_def)
qed

lemma fleetOK_world: "fleetOK (st\<lparr>fl_world := w\<rparr>) = fleetOK st"
  by (simp add: fleetOK_def ownersOK_def drivesOf_def)

lemma drivesOf_workers: "drivesOf k (st\<lparr>fl_workers := ws\<rparr>) = drivesOf k st"
  by (simp add: drivesOf_def)

lemma fleetOK_acquire:
  assumes "fleetOK st" and "k < length (fl_workers st)" and "\<not> wk_holding (fl_workers st ! k)"
    and "int (wk_owners (fl_workers st ! k)) < wk_max (fl_workers st ! k)"
  shows "fleetOK (acquire k st)"
  using assms by (auto simp: fleetOK_def acquire_def ownersOK_def drivesOf_def Let_def nth_list_update)

lemma fleetOK_claim:
  assumes ok: "fleetOK st" and k: "k < length (fl_workers st)" "wk_holding (fl_workers st ! k)"
    and new: "token \<notin> dv_token ` set (fl_drives st)"
  shows "fleetOK (claimTurn k token st)"
proof (cases "claimNext token (fl_world st)")
  case (Pair r w)
  show ?thesis
  proof (cases "\<exists>run. r = Inr (Some run)")
    case True
    with Pair ok k new show ?thesis
      by (auto simp: fleetOK_def claimTurn_def ownersOK_def drivesOf_def Let_def nth_list_update split: if_splits)
  next
    case False
    then have "claimTurn k token st = st\<lparr>fl_world := w, fl_workers := (fl_workers st)[k :=
        (fl_workers st ! k)\<lparr>wk_holding := False, wk_owners := wk_owners (fl_workers st ! k) - 1\<rparr>]\<rparr>"
      using Pair by (auto simp: claimTurn_def Let_def split: sum.splits option.splits)
    with ok k show ?thesis
      by (auto simp: fleetOK_def ownersOK_def drivesOf_def Let_def nth_list_update split: if_splits)
  qed
qed

lemma fleetOK_leave:
  assumes ok: "fleetOK st" and i: "i < length (fl_drives st)" "dv_stage (fl_drives st ! i) = Leaving"
  shows "fleetOK (leaveTurn i st)"
proof -
  let ?d = "fl_drives st ! i"
  let ?k = "dv_worker ?d"
  let ?ds = "(fl_drives st)[i := ?d\<lparr>dv_stage := Left\<rparr>]"
  obtain u w where r: "releaseClaim (dv_run ?d) (dv_token ?d) (fl_world st) = (u, w)" by fastforce
  have k: "?k < length (fl_workers st)" using ok i by (auto simp: fleetOK_def)
  have st': "leaveTurn i st = st\<lparr>fl_world := w, fl_drives := ?ds, fl_workers := (fl_workers st)[?k :=
      (fl_workers st ! ?k)\<lparr>wk_owners := wk_owners (fl_workers st ! ?k) - 1\<rparr>]\<rparr>"
    using r by (simp add: leaveTurn_def Let_def setDrive_def)
  have lose: "Suc (countP (\<lambda>d. dv_worker d = ?k \<and> dv_stage d \<noteq> Left) ?ds) = drivesOf ?k st"
    unfolding drivesOf_def using i by (intro countP_update_lose) simp_all
  have other: "countP (\<lambda>d. dv_worker d = j \<and> dv_stage d \<noteq> Left) ?ds = drivesOf j st" if "j \<noteq> ?k" for j
    unfolding drivesOf_def using i that by (intro countP_update_same) simp_all
  have "ownersOK j (leaveTurn i st)" if j: "j < length (fl_workers st)" for j
  proof (cases "j = ?k")
    case True
    have "ownersOK ?k st" using ok k by (simp add: fleetOK_def)
    with lose k True show ?thesis
      by (auto simp: ownersOK_def Let_def st' drivesOf_def split: if_splits)
  next
    case False
    have "ownersOK j st" using ok j by (simp add: fleetOK_def)
    with other [OF False] False show ?thesis by (simp add: ownersOK_def Let_def st' drivesOf_def)
  qed
  moreover have "map dv_token ?ds = map dv_token (fl_drives st)" "map dv_worker ?ds = map dv_worker (fl_drives st)"
    using i by (simp_all add: map_same)
  then have "distinct (map dv_token ?ds)" "dv_worker ` set ?ds = dv_worker ` set (fl_drives st)"
    using ok by (simp add: fleetOK_def, metis list.set_map)
  ultimately show ?thesis using ok by (simp add: fleetOK_def st')
qed

lemma fleet_step_OK:
  assumes "fleet_step L E C s st st'" and ok: "fleetOK st"
  shows "fleetOK st'"
  using assms(1)
proof cases
  case (Loads i marshal runtime slots timer)
  then show ?thesis
    by (auto simp: loadTurn_def Let_def intro!: fleetOK_setDrive [OF ok] split: prod.split sum.split)
next
  case (Renews i)
  then show ?thesis
    by (auto simp: renewTurn_def Let_def intro!: fleetOK_setDrive [OF ok] split: prod.split)
next
  case (Returns i)
  then show ?thesis by (auto intro!: fleetOK_setDrive [OF ok])
qed (use ok in \<open>auto simp: fleetOK_world intro: fleetOK_acquire fleetOK_claim fleetOK_leave\<close>)

lemma fleet_reachable_OK: "fleet_reachable L E C s st0 st \<Longrightarrow> fleetOK st0 \<Longrightarrow> fleetOK st"
  by (induction rule: fleet_reachable.induct) (auto intro: fleet_step_OK)

subsection \<open>The claim\<close>

lemma claimRun_free:
  assumes "claimRun token lease stamp t = Inr (Some run, t')"
  shows "claimable stamp t run \<and> (\<exists>r. t_runs t run = Some r \<and>
     t' = t\<lparr>t_runs := (t_runs t)(run \<mapsto> claimedRow token stamp lease r)\<rparr>)"
proof -
  from assms obtain rest where "sort_key (runAge t) (filter (claimable stamp t) (t_runIds t)) = run # rest"
    and t': "t' = t\<lparr>t_runs := (t_runs t)(run := map_option (claimedRow token stamp lease) (t_runs t run))\<rparr>"
    by (auto simp: claimRun_def split: list.splits)
  then have "run \<in> set (filter (claimable stamp t) (t_runIds t))"
    by (metis list.set_intros(1) set_sort)
  then have "claimable stamp t run" by simp
  then obtain r where "t_runs t run = Some r" by (auto simp: claimable_def split: option.splits)
  with t' \<open>claimable stamp t run\<close> show ?thesis by auto
qed

lemma claimable_unheld: "claimable stamp t run \<Longrightarrow> \<not> holdsClaim run token stamp t"
  by (auto simp: claimable_def holdsClaim_def split: option.splits)

lemma claimNext_takes:
  assumes "claimNext token w = (Inr (Some run), w')"
  shows "(\<forall>other. \<not> holdsClaim run other (clock w) (tabs w)) \<and> holdsClaim run token (clock w') (tabs w')"
proof -
  from assms have c: "claimRun token 30 (clock w) (tabs w) = Inr (Some run, tabs w')" and k: "clock w' = clock w"
    unfolding claimNext_def stmt_Inr by (auto dest: call_result)
  from claimRun_free [OF c] k claimable_unheld [of "clock w" "tabs w" run] show ?thesis
    by (auto simp: holdsClaim_def claimedRow_def seconds_def)
qed

lemma holdsClaim_one: "holdsClaim run a stamp t \<Longrightarrow> holdsClaim run b stamp t \<Longrightarrow> a = b"
  by (simp add: holdsClaim_def split: option.splits)

subsection \<open>The property\<close>

lemma fleet_step_max:
  assumes "fleet_step L E C s st st'"
  shows "map wk_max (fl_workers st') = map wk_max (fl_workers st)"
  using assms
proof cases
  case (Leaves i)
  then show ?thesis
    by (cases "dv_worker (fl_drives st ! i) < length (fl_workers st)")
      (auto simp: leaveTurn_def setDrive_def Let_def map_same list_update_beyond split: prod.split)
qed (auto simp: acquire_def claimTurn_def loadTurn_def renewTurn_def setDrive_def Let_def map_same
    split: prod.split sum.split option.split)

lemma fleet_reachable_max:
  "fleet_reachable L E C s st0 st \<Longrightarrow> map wk_max (fl_workers st) = map wk_max (fl_workers st0)"
  by (induction rule: fleet_reachable.induct) (auto dest: fleet_step_max)

text \<open>
  C28: However the workers of a deployment run, fail and lose their leases, and whatever else
  happens to the database, a worker never drives more runs than its \<open>MaxRuns\<close> (16 where that
  is below 1); of two drives of one run at most one holds the claim on it; and a claim is only
  given for a run that no drive holds, and is then held.
\<close>

theorem fleet_claims:
  assumes "fleet_reachable L E C s (startFleet w0 configs) st"
  shows "(\<forall>k<length configs. int (drivesOf k st) \<le> (case configs ! k of (c, m) \<Rightarrow> if m < 1 then 16 else m)) \<and>
    (\<forall>i<length (fl_drives st). \<forall>j<length (fl_drives st).
       i \<noteq> j \<and> dv_run (fl_drives st ! i) = dv_run (fl_drives st ! j) \<longrightarrow>
       \<not> (holdsClaim (dv_run (fl_drives st ! i)) (dv_token (fl_drives st ! i)) (clock (fl_world st)) (tabs (fl_world st)) \<and>
          holdsClaim (dv_run (fl_drives st ! j)) (dv_token (fl_drives st ! j)) (clock (fl_world st)) (tabs (fl_world st)))) \<and>
    (\<forall>token run w. claimNext token (fl_world st) = (Inr (Some run), w) \<longrightarrow>
       (\<forall>d\<in>set (fl_drives st). \<not> holdsClaim run (dv_token d) (clock (fl_world st)) (tabs (fl_world st))) \<and>
       holdsClaim run token (clock w) (tabs w))"
proof (intro conjI allI impI ballI)
  have ok: "fleetOK st" by (rule fleet_reachable_OK [OF assms fleetOK_start])
  have max: "map wk_max (fl_workers st) = map (\<lambda>(c, m). if m < 1 then 16 else m) configs"
    using fleet_reachable_max [OF assms] by (simp add: startFleet_def startWorker_def comp_def case_prod_unfold)
  fix k
  assume k: "k < length configs"
  then have l: "k < length (fl_workers st)" using arg_cong [OF max, of length] by simp
  then have "wk_max (fl_workers st ! k) = (case configs ! k of (c, m) \<Rightarrow> if m < 1 then 16 else m)"
    using arg_cong [OF max, of "\<lambda>xs. xs ! k"] k by simp
  moreover have "ownersOK k st" using ok l by (simp add: fleetOK_def)
  ultimately show "int (drivesOf k st) \<le> (case configs ! k of (c, m) \<Rightarrow> if m < 1 then 16 else m)"
    by (simp add: ownersOK_def Let_def)
next
  fix i j
  assume i: "i < length (fl_drives st)" and j: "j < length (fl_drives st)"
    and ij: "i \<noteq> j \<and> dv_run (fl_drives st ! i) = dv_run (fl_drives st ! j)"
  have "distinct (map dv_token (fl_drives st))"
    using fleet_reachable_OK [OF assms fleetOK_start] by (simp add: fleetOK_def)
  with i j ij have "dv_token (fl_drives st ! i) \<noteq> dv_token (fl_drives st ! j)"
    by (simp add: distinct_conv_nth)
  with ij show "\<not> (holdsClaim (dv_run (fl_drives st ! i)) (dv_token (fl_drives st ! i)) (clock (fl_world st)) (tabs (fl_world st)) \<and>
          holdsClaim (dv_run (fl_drives st ! j)) (dv_token (fl_drives st ! j)) (clock (fl_world st)) (tabs (fl_world st)))"
    by (auto dest: holdsClaim_one)
next
  fix token run w d
  assume "claimNext token (fl_world st) = (Inr (Some run), w)"
  note c = claimNext_takes [OF this]
  show "\<not> holdsClaim run (dv_token d) (clock (fl_world st)) (tabs (fl_world st))" using c by simp
  show "holdsClaim run token (clock w) (tabs w)" using c by simp
qed

subsection \<open>A worker that claims a run\<close>

definition openRun :: run_row where
  "openRun = (newRun 5 0)\<lparr>r_root := Some 8\<rparr>"

definition fleetTables :: tables where
  "fleetTables = emptyTables\<lparr>t_runs := [7 \<mapsto> openRun], t_runIds := [7],
     t_actions := [8 \<mapsto> newAction 7 None 2 1 [1] 1], t_actionIds := [8]\<rparr>"

definition fleetWorld :: world where
  "fleetWorld = \<lparr>tabs = fleetTables, objects = Map.empty, clock = 1, ids = of_nat, drawn = 0,
     faults = (\<lambda>_. None), landed = (\<lambda>_. False), calls = 0\<rparr>"

definition fleet1 :: fleet where "fleet1 = acquire 0 (startFleet fleetWorld [(2, 0)])"
definition fleet2 :: fleet where "fleet2 = claimTurn 0 9 fleet1"

text \<open>The lease runs out while the first drive is still in the run; a second drive claims it.\<close>

definition lapsedWorld :: world where
  "lapsedWorld = fleetWorld\<lparr>calls := 1, clock := 60000000000, tabs := fleetTables\<lparr>t_runs := [7 \<mapsto> claimedRow 9 1 30 openRun]\<rparr>\<rparr>"

definition fleet3 :: fleet where "fleet3 = acquire 0 (fleet2\<lparr>fl_world := lapsedWorld\<rparr>)"
definition fleet4 :: fleet where "fleet4 = claimTurn 0 10 fleet3"

lemma fleet_claimed: "claimNext 9 fleetWorld =
    (Inr (Some 7), fleetWorld\<lparr>calls := 1, tabs := fleetTables\<lparr>t_runs := [7 \<mapsto> claimedRow 9 1 30 openRun]\<rparr>\<rparr>)"
proof -
  have "claimable 1 fleetTables 7"
    by (simp add: claimable_def fleetTables_def openRun_def newRun_def hasOpenAction_def newAction_def ended_def emptyTables_def)
  then have "claimRun 9 30 1 fleetTables = Inr (Some 7, fleetTables\<lparr>t_runs := [7 \<mapsto> claimedRow 9 1 30 openRun]\<rparr>)"
    by (simp add: claimRun_def) (simp add: fleetTables_def emptyTables_def)
  then show ?thesis by (simp add: claimNext_def stmt_def call_def fleetWorld_def)
qed

lemma lapsed_claimed: "claimNext 10 lapsedWorld =
    (Inr (Some 7), lapsedWorld\<lparr>calls := 2, tabs := fleetTables\<lparr>t_runs := [7 \<mapsto> claimedRow 10 60000000000 30 (claimedRow 9 1 30 openRun)]\<rparr>\<rparr>)"
proof -
  let ?t = "fleetTables\<lparr>t_runs := [7 \<mapsto> claimedRow 9 1 30 openRun]\<rparr>"
  have "claimable 60000000000 ?t 7"
    by (simp add: claimable_def fleetTables_def openRun_def newRun_def hasOpenAction_def newAction_def ended_def emptyTables_def
        claimedRow_def seconds_def)
  then have "claimRun 10 30 60000000000 ?t = Inr (Some 7, ?t\<lparr>t_runs := [7 \<mapsto> claimedRow 10 60000000000 30 (claimedRow 9 1 30 openRun)]\<rparr>)"
    by (simp add: claimRun_def) (simp add: fleetTables_def emptyTables_def)
  then show ?thesis by (simp add: claimNext_def stmt_def call_def lapsedWorld_def fleetWorld_def)
qed

lemma fleet2_eq: "fleet2 = \<lparr>fl_world = fleetWorld\<lparr>calls := 1, tabs := fleetTables\<lparr>t_runs := [7 \<mapsto> claimedRow 9 1 30 openRun]\<rparr>\<rparr>,
    fl_workers = [\<lparr>wk_max = 16, wk_holding = False, wk_owners = 1\<rparr>],
    fl_drives = [\<lparr>dv_worker = 0, dv_run = 7, dv_token = 9, dv_stage = Loading, dv_canceled = False\<rparr>]\<rparr>"
  by (simp add: fleet2_def fleet1_def claimTurn_def acquire_def startFleet_def startWorker_def fleet_claimed)

lemma fleet4_eq: "fleet4 = \<lparr>fl_world = lapsedWorld\<lparr>calls := 2,
      tabs := fleetTables\<lparr>t_runs := [7 \<mapsto> claimedRow 10 60000000000 30 (claimedRow 9 1 30 openRun)]\<rparr>\<rparr>,
    fl_workers = [\<lparr>wk_max = 16, wk_holding = False, wk_owners = 2\<rparr>],
    fl_drives = [\<lparr>dv_worker = 0, dv_run = 7, dv_token = 9, dv_stage = Loading, dv_canceled = False\<rparr>,
      \<lparr>dv_worker = 0, dv_run = 7, dv_token = 10, dv_stage = Loading, dv_canceled = False\<rparr>]\<rparr>"
  by (simp add: fleet4_def fleet3_def claimTurn_def acquire_def fleet2_eq lapsed_claimed)

lemma fleet3_reached: "fleet_reachable L E C s (startFleet fleetWorld [(2, 0)]) fleet3"
proof -
  have "fleet_reachable L E C s (startFleet fleetWorld [(2, 0)]) fleet1"
    unfolding fleet1_def
    by (rule Moved, rule Started, rule Acquires) (simp_all add: startFleet_def startWorker_def)
  then have "fleet_reachable L E C s (startFleet fleetWorld [(2, 0)]) fleet2"
    unfolding fleet2_def
    by (rule Moved, intro Claims) (simp_all add: fleet1_def acquire_def startFleet_def)
  then have "fleet_reachable L E C s (startFleet fleetWorld [(2, 0)]) (fleet2\<lparr>fl_world := lapsedWorld\<rparr>)"
    by (rule Moved) (rule Elsewhere)
  then show ?thesis
    unfolding fleet3_def by (rule Moved, intro Acquires) (simp_all add: fleet2_eq)
qed

lemma fleet4_reached: "fleet_reachable L E C s (startFleet fleetWorld [(2, 0)]) fleet4"
  unfolding fleet4_def
  by (rule Moved, rule fleet3_reached, intro Claims) (simp_all add: fleet3_def acquire_def fleet2_eq)

lemma fleet4_holds: "holdsClaim 7 10 (clock (fl_world fleet4)) (tabs (fl_world fleet4))"
  by (simp add: fleet4_eq lapsedWorld_def holdsClaim_def claimedRow_def seconds_def)

theorem fleet_claims_witness:
  "\<forall>L E C s. fleet_reachable L E C s (startFleet fleetWorld [(2, 0)]) fleet4 \<and>
     drivesOf 0 fleet4 = 2 \<and> int (drivesOf 0 fleet4) \<le> 16 \<and>
     holdsClaim 7 10 (clock (fl_world fleet4)) (tabs (fl_world fleet4)) \<and>
     \<not> holdsClaim 7 9 (clock (fl_world fleet4)) (tabs (fl_world fleet4)) \<and>
     \<not> holdsClaim 7 9 (clock (fl_world fleet3)) (tabs (fl_world fleet3))"
proof (intro allI conjI)
  fix L E C s
  show reached: "fleet_reachable L E C s (startFleet fleetWorld [(2, 0)]) fleet4" by (rule fleet4_reached)
  note claims = fleet_claims [OF reached]
  show "drivesOf 0 fleet4 = 2" by (simp add: drivesOf_def fleet4_eq)
  show "int (drivesOf 0 fleet4) \<le> 16" using conjunct1 [OF claims] by simp
  show holds: "holdsClaim 7 10 (clock (fl_world fleet4)) (tabs (fl_world fleet4))" by (rule fleet4_holds)
  have drives: "length (fl_drives fleet4) = 2" "fl_drives fleet4 ! 0 = \<lparr>dv_worker = 0, dv_run = 7, dv_token = 9, dv_stage = Loading, dv_canceled = False\<rparr>"
    "fl_drives fleet4 ! Suc 0 = \<lparr>dv_worker = 0, dv_run = 7, dv_token = 10, dv_stage = Loading, dv_canceled = False\<rparr>"
    by (simp_all add: fleet4_eq)
  from conjunct1 [OF conjunct2 [OF claims]] have "0 < length (fl_drives fleet4) \<longrightarrow> 1 < length (fl_drives fleet4) \<longrightarrow>
      (0::nat) \<noteq> 1 \<and> dv_run (fl_drives fleet4 ! 0) = dv_run (fl_drives fleet4 ! 1) \<longrightarrow>
      \<not> (holdsClaim (dv_run (fl_drives fleet4 ! 0)) (dv_token (fl_drives fleet4 ! 0)) (clock (fl_world fleet4)) (tabs (fl_world fleet4)) \<and>
         holdsClaim (dv_run (fl_drives fleet4 ! 1)) (dv_token (fl_drives fleet4 ! 1)) (clock (fl_world fleet4)) (tabs (fl_world fleet4)))"
    by blast
  then show "\<not> holdsClaim 7 9 (clock (fl_world fleet4)) (tabs (fl_world fleet4))"
    using holds by (simp add: drives)
  have "claimNext 10 (fl_world fleet3) = (Inr (Some 7), fl_world fleet4)"
    by (simp add: fleet3_def acquire_def lapsed_claimed fleet4_eq)
  moreover have "\<lparr>dv_worker = 0, dv_run = 7, dv_token = 9, dv_stage = Loading, dv_canceled = False\<rparr> \<in> set (fl_drives fleet3)"
    by (simp add: fleet3_def acquire_def fleet2_eq)
  ultimately show "\<not> holdsClaim 7 9 (clock (fl_world fleet3)) (tabs (fl_world fleet3))"
    using conjunct2 [OF conjunct2 [OF fleet_claims [OF fleet3_reached]]] by fastforce
qed

end
