(* ===== verification/Task_Cache.thy ===== *)
theory Task_Cache
  imports Service_Runs
begin

section \<open>The cache of task results\<close>

text \<open>
  \<open>internal/lutra/task_cache.go\<close> and \<open>CacheableError\<close> of \<open>executor.go\<close>: looking a key up,
  claiming it when nobody computes it, waiting for whoever does, and storing a result under
  the claim, with the queries of \<open>db/queries/runs.sql\<close>. The key's row is a result when it is
  ready, and a claim with a lease otherwise. The CBOR encoding of an error is a parameter.
\<close>

definition cacheLease :: int where "cacheLease = 30000000000"

definition claimTaskCache :: "bytes \<Rightarrow> uuid \<Rightarrow> time \<Rightarrow> tables \<Rightarrow> goerr + bool \<times> tables" where
  "claimTaskCache key token stamp t =
     (if t_cache t key \<noteq> None then Inr (False, t)
      else if length key \<noteq> 32 then Inl constraint
      else Inr (True, t\<lparr>t_cache := (t_cache t)(key \<mapsto>
        \<lparr>c_ready = False, c_token = token, c_lease = stamp + cacheLease, c_output = None, c_code = [], c_details = None\<rparr>)\<rparr>))"

definition ownsCache :: "bytes \<Rightarrow> uuid \<Rightarrow> time \<Rightarrow> tables \<Rightarrow> bool" where
  "ownsCache key token stamp t \<longleftrightarrow>
     (case t_cache t key of
        None \<Rightarrow> False
      | Some r \<Rightarrow> \<not> c_ready r \<and> c_token r = token \<and> c_lease r > stamp)"

definition finishTaskCache :: "bytes \<Rightarrow> bytes option \<Rightarrow> string \<Rightarrow> bytes option \<Rightarrow> uuid \<Rightarrow> time \<Rightarrow> tables \<Rightarrow>
    goerr + nat \<times> tables" where
  "finishTaskCache key output code details token stamp t =
     (if \<not> ownsCache key token stamp t then Inr (0, t)
      else if output = None \<and> code = [] then Inl constraint
      else Inr (1, t\<lparr>t_cache := (t_cache t)(key := map_option (\<lambda>r.
        r\<lparr>c_ready := True, c_output := output, c_code := code, c_details := details, c_lease := stamp\<rparr>) (t_cache t key))\<rparr>))"

definition renewTaskCache :: "bytes \<Rightarrow> uuid \<Rightarrow> time \<Rightarrow> tables \<Rightarrow> goerr + nat \<times> tables" where
  "renewTaskCache key token stamp t =
     (if \<not> ownsCache key token stamp t then Inr (0, t)
      else Inr (1, t\<lparr>t_cache := (t_cache t)(key := map_option (\<lambda>r. r\<lparr>c_lease := stamp + cacheLease\<rparr>) (t_cache t key))\<rparr>))"

definition releaseTaskCache :: "bytes \<Rightarrow> uuid \<Rightarrow> tables \<Rightarrow> goerr + unit \<times> tables" where
  "releaseTaskCache key token t =
     Inr ((), if (case t_cache t key of None \<Rightarrow> False | Some r \<Rightarrow> \<not> c_ready r \<and> c_token r = token)
              then t\<lparr>t_cache := (t_cache t)(key := None)\<rparr> else t)"

definition expireTaskCache :: "time \<Rightarrow> tables \<Rightarrow> goerr + unit \<times> tables" where
  "expireTaskCache stamp t =
     Inr ((), t\<lparr>t_cache := (\<lambda>key. case t_cache t key of
        None \<Rightarrow> None
      | Some r \<Rightarrow> if \<not> c_ready r \<and> c_lease r \<le> stamp then None else Some r)\<rparr>)"

text \<open>What \<open>Lookup\<close> returns: a miss that is now claimed, or an output and an error.\<close>

datatype lookup = Miss | Hit "bytes option" "goerr option"

definition errorOutput :: "(string \<Rightarrow> bytes option \<Rightarrow> goerr + bytes) \<Rightarrow> string \<Rightarrow> bytes option \<Rightarrow> lookup" where
  "errorOutput marshal code details =
     (case marshal code details of
        Inl e \<Rightarrow> Hit None (Some e)
      | Inr out \<Rightarrow> Hit (Some out) (Some (CacheErr code (case details of None \<Rightarrow> [] | Some d \<Rightarrow> d))))"

fun Lookup :: "(string \<Rightarrow> bytes option \<Rightarrow> goerr + bytes) \<Rightarrow> nat \<Rightarrow> (nat \<Rightarrow> unit act) \<Rightarrow> uuid \<Rightarrow> bytes \<Rightarrow> world \<Rightarrow>
    lookup \<times> world" where
  "Lookup marshal 0 pause owner key w = (Hit None (Some CtxCanceled), w)"
| "Lookup marshal (Suc n) pause owner key w =
     (case query (\<lambda>t. t_cache t key) w of
        (Inl e, v) \<Rightarrow> (Hit None (Some e), v)
      | (Inr None, v) \<Rightarrow>
          (case stmt (claimTaskCache key owner (clock v)) v of
             (Inl e, u) \<Rightarrow> (Hit None (Some e), u)
           | (Inr claimed, u) \<Rightarrow> if claimed then (Miss, u) else Lookup marshal n pause owner key u)
      | (Inr (Some row), v) \<Rightarrow>
          if c_ready row then
            (if c_code row \<noteq> [] then errorOutput marshal (c_code row) (c_details row) else Hit (c_output row) None, v)
          else if \<not> c_lease row > clock v then
            (case stmt (expireTaskCache (clock v)) v of
               (Inl e, u) \<Rightarrow> (Hit None (Some e), u)
             | (Inr _, u) \<Rightarrow> Lookup marshal n pause owner key u)
          else (case pause n v of (_, u) \<Rightarrow> Lookup marshal n pause owner key u))"

text \<open>One tick of the renewal: whether it stops.\<close>

definition renewCacheTick :: "bytes \<Rightarrow> uuid \<Rightarrow> world \<Rightarrow> bool \<times> world" where
  "renewCacheTick key owner w =
     (case stmt (renewTaskCache key owner (clock w)) w of
        (Inr n, v) \<Rightarrow> (n \<noteq> 1, v)
      | (Inl _, v) \<Rightarrow> (True, v))"

definition Store :: "uuid \<Rightarrow> bytes \<Rightarrow> bytes option \<Rightarrow> goerr option \<Rightarrow> unit act" where
  "Store owner key output failure w =
     (let finish = (\<lambda>code details.
        andThen (stmt (finishTaskCache key output code details owner (clock w))) (\<lambda>rows.
        if rows \<noteq> 1 then fail ErrLeaseLost else ret ()))
      in
      case failure of
        None \<Rightarrow> finish [] None w
      | Some (CacheErr code details) \<Rightarrow> finish code (Some details) w
      | Some _ \<Rightarrow> stmt (releaseTaskCache key owner) w)"

subsection \<open>A stored result stays\<close>

definition cacheKept :: "tables \<Rightarrow> tables \<Rightarrow> bool" where
  "cacheKept t t' \<longleftrightarrow>
     (\<forall>key r. t_cache t key = Some r \<longrightarrow> c_ready r \<longrightarrow> t_cache t' key = Some r)"

interpretation ck: frame cacheKept
  by unfold_locales (auto simp: cacheKept_def)

lemma cache_stmts:
  "claimTaskCache key token stamp t = Inr (a, t') \<Longrightarrow> cacheKept t t'"
  "finishTaskCache key output code details token stamp t = Inr (b, t') \<Longrightarrow> cacheKept t t'"
  "renewTaskCache key token stamp t = Inr (c, t') \<Longrightarrow> cacheKept t t'"
  "releaseTaskCache key token t = Inr (d, t') \<Longrightarrow> cacheKept t t'"
  "expireTaskCache stamp t = Inr (e, t') \<Longrightarrow> cacheKept t t'"
  by (auto simp: claimTaskCache_def finishTaskCache_def renewTaskCache_def releaseTaskCache_def expireTaskCache_def
      cacheKept_def ownsCache_def split: if_splits option.splits)

lemma stmt_kept:
  assumes "\<And>t x t'. f t = Inr (x, t') \<Longrightarrow> cacheKept t t'" and "stmt f w = (r, v)"
  shows "cacheKept (tabs w) (tabs v)"
  using keepsD [OF ck.statement [of f] assms(2)] assms(1) by blast

text \<open>Once it is ready, every lookup that reads it returns it.\<close>

lemma Lookup_ready:
  assumes "t_cache (tabs w) key = Some r" and "c_ready r" and "Lookup marshal n pause owner key w = (l, w')"
  shows "l = (if c_code r \<noteq> [] then errorOutput marshal (c_code r) (c_details r) else Hit (c_output r) None) \<or>
    (\<exists>e. l = Hit None (Some e))"
proof (cases n)
  case 0
  with assms(3) show ?thesis by auto
next
  case (Suc m)
  with assms show ?thesis
    by (auto simp: query_def andThen_def split: prod.splits sum.splits dest: call_result)
qed
lemma finish_row:
  assumes "finishTaskCache key output code details token stamp t = Inr (n, t')" and "n = 1"
  shows "\<exists>r. t_cache t' key = Some r \<and> c_ready r \<and> c_output r = output \<and> c_code r = code \<and> c_details r = details"
  using assms by (auto simp: finishTaskCache_def ownsCache_def split: if_splits option.splits)

definition lookupOf :: "(string \<Rightarrow> bytes option \<Rightarrow> goerr + bytes) \<Rightarrow> bytes option \<Rightarrow> goerr option \<Rightarrow> lookup" where
  "lookupOf marshal output failure =
     (case failure of Some (CacheErr code details) \<Rightarrow> errorOutput marshal code (Some details) | _ \<Rightarrow> Hit output None)"

lemma Store_ready:
  assumes "Store owner key output failure w = (Inr (), w')"
    and "failure = None \<or> (\<exists>code details. failure = Some (CacheErr code details) \<and> code \<noteq> [])"
  shows "\<exists>r. t_cache (tabs w') key = Some r \<and> c_ready r \<and>
    (if c_code r \<noteq> [] then errorOutput marshal (c_code r) (c_details r) else Hit (c_output r) None) = lookupOf marshal output failure"
proof -
  have fin: "\<exists>r. t_cache (tabs w') key = Some r \<and> c_ready r \<and> c_output r = output \<and> c_code r = code \<and> c_details r = details"
    if "andThen (stmt (finishTaskCache key output code details owner (clock w))) (\<lambda>rows.
        if rows \<noteq> 1 then fail ErrLeaseLost else ret ()) w = (Inr (), w')" for code details
    using that by (auto elim!: andThen_InrE simp: stmt_Inr dest!: finish_row split: if_splits)
  from assms(2) show ?thesis
  proof (elim disjE exE conjE)
    assume "failure = None"
    with assms(1) fin [of "[]" None] show ?thesis by (auto simp: Store_def Let_def lookupOf_def)
  next
    fix code details
    assume "failure = Some (CacheErr code details)" "code \<noteq> []"
    with assms(1) fin [of code "Some details"] show ?thesis by (auto simp: Store_def Let_def lookupOf_def)
  qed
qed

subsection \<open>All workers together\<close>

text \<open>The pauses of a lookup are steps of the others; so are the ticks of the clock.\<close>

inductive cache_step :: "(string \<Rightarrow> bytes option \<Rightarrow> goerr + bytes) \<Rightarrow> world \<Rightarrow> world \<Rightarrow> bool" for marshal where
  lookup: "(\<And>k u. (cache_step marshal)\<^sup>*\<^sup>* u (snd (pause k u))) \<Longrightarrow> Lookup marshal n pause owner key w = (l, w') \<Longrightarrow>
    cache_step marshal w w'"
| store: "Store owner key output failure w = (r, w') \<Longrightarrow> cache_step marshal w w'"
| renew: "renewCacheTick key owner w = (b, w') \<Longrightarrow> cache_step marshal w w'"
| time: "clock w \<le> c \<Longrightarrow> cache_step marshal w (w\<lparr>clock := c\<rparr>)"
  monos rtranclp_mono

lemma Lookup_kept:
  assumes "\<And>k u. cacheKept (tabs u) (tabs (snd (pause k u)))" and "Lookup marshal n pause owner key w = (l, w')"
  shows "cacheKept (tabs w) (tabs w')"
  using assms(2)
proof (induction n arbitrary: w)
  case 0
  then show ?case by (simp add: ck.refl)
next
  case (Suc n)
  obtain q v where q: "query (\<lambda>t. t_cache t key) w = (q, v)" by fastforce
  have v: "tabs v = tabs w" using q by (auto simp: query_def andThen_def split: prod.splits sum.splits dest: call_result)
  have go: "cacheKept (tabs w) (tabs w')" if "Lookup marshal n pause owner key u = (l, w')" "cacheKept (tabs w) (tabs u)" for u
    using ck.trans [OF that(2) Suc.IH [OF that(1)]] .
  have st: "cacheKept (tabs w) (tabs u)" if "stmt f v = (r, u)" "\<And>t x t'. f t = Inr (x, t') \<Longrightarrow> cacheKept t t'"
    for f :: "tables \<Rightarrow> goerr + 'b \<times> tables" and r u
    using stmt_kept [OF that(2,1)] v by simp
  have pause: "cacheKept (tabs w) (tabs (snd (pause n v)))" using assms(1) [of v n] v by simp
  consider (fails) e where "q = Inl e" | (absent) "q = Inr None" | (found) r where "q = Inr (Some r)"
    by (cases q; auto)
  then show ?case
  proof cases
    case fails
    with Suc.prems q v show ?thesis by (simp add: ck.refl)
  next
    case absent
    obtain c u where c: "stmt (claimTaskCache key owner (clock v)) v = (c, u)" by fastforce
    have k: "cacheKept (tabs w) (tabs u)" by (rule st [OF c cache_stmts(1)])
    with Suc.prems q absent c go show ?thesis by (auto split: sum.splits if_splits)
  next
    case (found r)
    obtain c u where c: "stmt (expireTaskCache (clock v)) v = (c, u)" by fastforce
    have k: "cacheKept (tabs w) (tabs u)" by (rule st [OF c cache_stmts(5)])
    obtain p x where p: "pause n v = (p, x)" by fastforce
    with Suc.prems q found c k go pause v show ?thesis by (auto split: sum.splits if_splits simp: ck.refl)
  qed
qed

lemma cache_step_kept: "cache_step marshal w w' \<Longrightarrow> cacheKept (tabs w) (tabs w')"
proof (induction rule: cache_step.induct)
  case (lookup pause n owner key w l w')
  have steps: "cacheKept (tabs u) (tabs x)" if "(\<lambda>w w'. cache_step marshal w w' \<and> cacheKept (tabs w) (tabs w'))\<^sup>*\<^sup>* u x" for u x
    using that by (induction rule: rtranclp_induct) (auto simp: ck.refl intro: ck.trans)
  show ?case by (rule Lookup_kept [OF steps [OF lookup(1)] lookup(2)])
next
  case (store owner key res failure w r w')
  have st: "keeps cacheKept (stmt (finishTaskCache key res code details owner stamp))"
    "keeps cacheKept (stmt (releaseTaskCache key owner))" for code details stamp
    by (rule ck.statement, erule cache_stmts)+
  have "keeps cacheKept (andThen (stmt (finishTaskCache key res code details owner stamp)) (\<lambda>rows.
      if rows \<noteq> 1 then fail ErrLeaseLost else ret ()))" for code details stamp
    by (intro ck.w.seq ck.w.cond ck.w.fail ck.w.ret st)
  with st have "keeps cacheKept (Store owner key res failure)"
    unfolding Store_def within_def Let_def by (auto split: option.splits goerr.splits)
  with store show ?case by (rule keepsD [rotated])
next
  case (renew key owner w b w')
  obtain r v where s: "stmt (renewTaskCache key owner (clock w)) w = (r, v)" by fastforce
  with renew have "w' = v" by (auto simp: renewCacheTick_def split: sum.splits)
  then show ?case using stmt_kept [OF _ s] cache_stmts(3) by metis
qed (simp add: ck.refl)

lemma cache_steps_kept: "(cache_step marshal)\<^sup>*\<^sup>* w w' \<Longrightarrow> cacheKept (tabs w) (tabs w')"
  by (induction rule: rtranclp_induct) (auto simp: ck.refl intro: ck.trans cache_step_kept)

text \<open>
  After a \<open>Store\<close> that succeeded, whatever the workers do with the cache, a \<open>Lookup\<close> of the key
  that answers without an error of its own answers what was stored.
\<close>

lemma stored_found:
  assumes "Store owner key output failure w = (Inr (), w1)"
    and "failure = None \<or> (\<exists>code details. failure = Some (CacheErr code details) \<and> code \<noteq> [])"
    and "(cache_step marshal)\<^sup>*\<^sup>* w1 w2" and "Lookup marshal n pause owner' key w2 = (l, w3)"
  shows "l = lookupOf marshal output failure \<or> (\<exists>e. l = Hit None (Some e))"
proof -
  from Store_ready [OF assms(1,2), of marshal] obtain r where r: "t_cache (tabs w1) key = Some r" "c_ready r"
    "(if c_code r \<noteq> [] then errorOutput marshal (c_code r) (c_details r) else Hit (c_output r) None) = lookupOf marshal output failure"
    by blast
  from cache_steps_kept [OF assms(3)] r have "t_cache (tabs w2) key = Some r" by (auto simp: cacheKept_def)
  from Lookup_ready [OF this r(2) assms(4)] r(3) show ?thesis by simp
qed

definition cacheWorld :: world where
  "cacheWorld = \<lparr>tabs = emptyTables\<lparr>t_cache := [replicate 32 0 \<mapsto>
       \<lparr>c_ready = False, c_token = 8, c_lease = 100, c_output = None, c_code = [], c_details = None\<rparr>]\<rparr>,
     objects = Map.empty, clock = 1, ids = (\<lambda>_. 0), drawn = 0, faults = (\<lambda>_. None), landed = (\<lambda>_. False), calls = 0\<rparr>"

definition cacheStored :: world where
  "cacheStored = snd (Store 8 (replicate 32 0) (Some [1]) None cacheWorld)"

lemma cacheStored_run: "Store 8 (replicate 32 0) (Some [1]) None cacheWorld = (Inr (), cacheStored)"
  by (simp add: cacheStored_def Store_def Let_def andThen_def stmt_def call_def cacheWorld_def finishTaskCache_def ownsCache_def)

end
