(* ===== verification/Run_Driver.thy ===== *)
theory Run_Driver
  imports Run_Worker Task_Cache
begin

section \<open>From an image to the result of a task\<close>

text \<open>
  The driver of a run in \<open>internal/lutra/run_worker.go\<close>: \<open>Ensure\<close>, by which all attempts that need
  an image share one build, and \<open>Run\<close>; the choice of the executor in \<open>worker.go\<close>; and what
  \<open>localJob.Wait\<close> of \<open>executor.go\<close> makes of the answer of a task. A build itself is \<open>ensureImage\<close>
  of \<open>Images\<close>, whose outcome is an argument here.
\<close>

subsection \<open>\<open>Ensure\<close>\<close>

record imageWait =
  iw_over :: bool \<comment> \<open>\<open>done\<close> is closed\<close>
  iw_image :: "string option"
  iw_err :: "goerr option"

text \<open>A call of \<open>Ensure\<close> in its \<open>select\<close>, returned, or returned because its context ended.\<close>

datatype ensureCall = EWaiting | EReturned "goerr option" | EGaveUp goerr

record runDriver =
  dr_images :: "bytes \<rightharpoonup> imageWait"
  dr_rows :: "uuid \<rightharpoonup> listedRow"
  dr_calls :: "(bytes \<times> ensureCall) list"
  dr_builds :: "(bytes \<times> (goerr + envExecution)) list" \<comment> \<open>the goroutines that were started\<close>

definition newDriver :: "(uuid \<rightharpoonup> listedRow) \<Rightarrow> runDriver" where
  "newDriver rows = \<lparr>dr_images = Map.empty, dr_rows = rows, dr_calls = [], dr_builds = []\<rparr>"

definition rowImage :: "listedRow \<Rightarrow> bytes" where
  "rowImage row = (case row of (i, a, e) \<Rightarrow> e_image e)"

text \<open>The row of the range loop: any with the key, or the zero row, which has no entrypoint.\<close>

definition candidate :: "bytes \<Rightarrow> runDriver \<Rightarrow> listedRow option \<Rightarrow> bool" where
  "candidate key d pick \<longleftrightarrow>
     (case pick of
        Some row \<Rightarrow> (\<exists>i. dr_rows d i = Some row) \<and> rowImage row = key
      | None \<Rightarrow> (\<forall>i row. dr_rows d i = Some row \<longrightarrow> rowImage row \<noteq> key))"

definition buildTask :: "lib \<Rightarrow> encodings \<Rightarrow> uuid \<Rightarrow> listedRow option \<Rightarrow> goerr + envExecution" where
  "buildTask L E run pick =
     (case pick of
        None \<Rightarrow> Inl (Plain ''entrypoint is not registered'')
      | Some row \<Rightarrow> environmentExecution L E row run (a_attempts (fst (snd row))))"

definition executorFor :: "string \<Rightarrow> goerr option" where
  "executorFor name =
     (if name = localTaskImage then None else Some (Rpc Unimplemented (name @ '' executor is not configured'')))"

definition startEnsure :: "lib \<Rightarrow> encodings \<Rightarrow> uuid \<Rightarrow> bytes \<Rightarrow> listedRow option \<Rightarrow> runDriver \<Rightarrow> runDriver" where
  "startEnsure L E run key pick d =
     (let d' = (case dr_images d key of
          Some _ \<Rightarrow> d
        | None \<Rightarrow> d\<lparr>dr_images := (dr_images d)(key \<mapsto> \<lparr>iw_over = False, iw_image = None, iw_err = None\<rparr>),
                   dr_builds := dr_builds d @ [(key, buildTask L E run pick)]\<rparr>)
      in d'\<lparr>dr_calls := dr_calls d @ [(key, EWaiting)]\<rparr>)"

definition buildOutcome :: "goerr + envExecution \<Rightarrow> goerr + string \<Rightarrow> goerr + string" where
  "buildOutcome task built =
     (case task of
        Inl e \<Rightarrow> Inl e
      | Inr t \<Rightarrow> (case executorFor (ex_provider t) of Some e \<Rightarrow> Inl e | None \<Rightarrow> built))"

definition finishBuild :: "bytes \<Rightarrow> goerr + string \<Rightarrow> runDriver \<Rightarrow> runDriver" where
  "finishBuild key r d =
     d\<lparr>dr_images := (dr_images d)(key \<mapsto>
         (case r of
            Inl e \<Rightarrow> \<lparr>iw_over = True, iw_image = None, iw_err = Some e\<rparr>
          | Inr uri \<Rightarrow> \<lparr>iw_over = True, iw_image = Some uri, iw_err = None\<rparr>))\<rparr>"

inductive driver_step :: "lib \<Rightarrow> encodings \<Rightarrow> uuid \<Rightarrow> runDriver \<Rightarrow> runDriver \<Rightarrow> bool" for L E run where
  Enters: "candidate key d pick \<Longrightarrow> driver_step L E run d (startEnsure L E run key pick d)"
| Built: "(key, task) \<in> set (dr_builds d) \<Longrightarrow> dr_images d key = Some c \<Longrightarrow> \<not> iw_over c \<Longrightarrow>
    driver_step L E run d (finishBuild key (buildOutcome task built) d)"
| Returns: "i < length (dr_calls d) \<Longrightarrow> dr_calls d ! i = (key, EWaiting) \<Longrightarrow> dr_images d key = Some c \<Longrightarrow> iw_over c \<Longrightarrow>
    driver_step L E run d (d\<lparr>dr_calls := (dr_calls d)[i := (key, EReturned (iw_err c))]\<rparr>)"
| GivesUp: "i < length (dr_calls d) \<Longrightarrow> dr_calls d ! i = (key, EWaiting) \<Longrightarrow>
    driver_step L E run d (d\<lparr>dr_calls := (dr_calls d)[i := (key, EGaveUp e)]\<rparr>)"
| Adds: "driver_step L E run d (d\<lparr>dr_rows := (dr_rows d)(child \<mapsto> row)\<rparr>)"

subsection \<open>\<open>Run\<close>\<close>

text \<open>The image and the request with which \<open>executeEnvironment\<close> is called.\<close>

definition runTask :: "lib \<Rightarrow> encodings \<Rightarrow> uuid \<Rightarrow> uuid \<Rightarrow> int \<Rightarrow> runDriver \<Rightarrow> goerr + string option \<times> envExecution" where
  "runTask L E run node att d =
     (case dr_rows d node of
        None \<Rightarrow> Inl (Plain ''action image unavailable'')
      | Some row \<Rightarrow>
          (case dr_images d (rowImage row) of
             None \<Rightarrow> Inl (Plain ''action image unavailable'')
           | Some c \<Rightarrow>
               (case environmentExecution L E row run att of
                  Inl e \<Rightarrow> Inl e
                | Inr task \<Rightarrow> Inr (iw_image c, task))))"

text \<open>The first guards of \<open>LocalExecutor.Run\<close>.\<close>

definition startGuards :: "string option \<Rightarrow> envExecution \<Rightarrow> goerr option" where
  "startGuards uri task =
     (if uri = None then Some (Plain ''image and entrypoint are required'')
      else if ex_entry task = 0 \<or> ex_entry task > int (length (es_entries (ex_spec task)) mod 2 ^ 32)
      then Some (Plain ''entrypoint is not registered'') else None)"

subsection \<open>\<open>Wait\<close>\<close>

text \<open>\<open>^[a-z][a-z0-9_.-]{0,127}$\<close>\<close>

definition cacheCodeOK :: "string \<Rightarrow> bool" where
  "cacheCodeOK s \<longleftrightarrow>
     (case s of
        [] \<Rightarrow> False
      | c # r \<Rightarrow> c \<in> set lower \<and> length r \<le> 127 \<and> (\<forall>x\<in>set r. x \<in> set (lower @ digits @ ''_.-'')))"

record executeResponse =
  er_code :: string
  er_details :: bytes
  er_output :: bytes
  er_type :: string

definition jobWait :: "(bytes \<Rightarrow> bool) \<Rightarrow> (string \<Rightarrow> bytes option \<Rightarrow> goerr + bytes) \<Rightarrow> goerr + executeResponse \<Rightarrow>
    goerr option \<Rightarrow> bytes option \<times> goerr option" where
  "jobWait unmarshals marshal answer closeErr =
     (case answer of
        Inl e \<Rightarrow> (None, Some e)
      | Inr r \<Rightarrow>
          (case closeErr of
             Some e \<Rightarrow> (None, Some e)
           | None \<Rightarrow>
               if er_code r \<noteq> [] then
                 (if \<not> cacheCodeOK (er_code r) \<or> length (er_details r) > 65536 \<or> er_output r \<noteq> []
                  then (None, Some (Plain ''task returned invalid cacheable error''))
                  else if \<not> unmarshals (er_details r)
                  then (None, Some (Plain ''task returned invalid cacheable error details''))
                  else
                    (case marshal (er_code r) (Some (er_details r)) of
                       Inl e \<Rightarrow> (None, Some e)
                     | Inr output \<Rightarrow> (Some output, Some (CacheErr (er_code r) (er_details r)))))
               else if er_type r \<noteq> ''application/cbor''
               then (None, Some (Plain ''task returned unsupported content type''))
               else (if er_output r = [] then None else Some (er_output r), None)))"

end
