(* ===== verification/Run_Driver_Properties.thy ===== *)
theory Run_Driver_Properties
  imports Run_Driver
begin

section \<open>One build for all attempts, and results that the cache repeats\<close>

subsection \<open>The invariant of the driver\<close>

text \<open>A key is in the map when its one goroutine was started, and who returned got what its build left.\<close>

definition driverOK :: "runDriver \<Rightarrow> bool" where
  "driverOK d \<longleftrightarrow>
     distinct (map fst (dr_builds d)) \<and> dom (dr_images d) = fst ` set (dr_builds d) \<and>
     (\<forall>key c. dr_images d key = Some c \<longrightarrow> iw_over c \<longrightarrow> (iw_err c = None \<longleftrightarrow> iw_image c \<noteq> None)) \<and>
     fst ` set (dr_calls d) \<subseteq> dom (dr_images d) \<and>
     (\<forall>key e. (key, EReturned e) \<in> set (dr_calls d) \<longrightarrow>
        (\<exists>c. dr_images d key = Some c \<and> iw_over c \<and> iw_err c = e))"

lemma driverOKD:
  assumes "driverOK d"
  shows "distinct (map fst (dr_builds d))" "dom (dr_images d) = fst ` set (dr_builds d)"
    "fst ` set (dr_calls d) \<subseteq> dom (dr_images d)"
    "dr_images d key = Some c \<Longrightarrow> iw_over c \<Longrightarrow> iw_err c = None \<longleftrightarrow> iw_image c \<noteq> None"
    "(key, EReturned e) \<in> set (dr_calls d) \<Longrightarrow> \<exists>c. dr_images d key = Some c \<and> iw_over c \<and> iw_err c = e"
  using assms unfolding driverOK_def by (elim conjE, assumption | simp)+

text \<open>What a build has left stays.\<close>

definition driverKept :: "runDriver \<Rightarrow> runDriver \<Rightarrow> bool" where
  "driverKept d d' \<longleftrightarrow> (\<forall>key c. dr_images d key = Some c \<longrightarrow> iw_over c \<longrightarrow> dr_images d' key = Some c)"

lemma calls_OK:
  assumes ok: "driverOK d" and new: "set cs \<subseteq> insert (key, s) (set (dr_calls d))" and key: "key \<in> dom (dr_images d)"
    and s: "\<And>e. s = EReturned e \<Longrightarrow> \<exists>c. dr_images d key = Some c \<and> iw_over c \<and> iw_err c = e"
  shows "driverOK (d\<lparr>dr_calls := cs\<rparr>) \<and> driverKept d (d\<lparr>dr_calls := cs\<rparr>)"
proof -
  have "fst ` set cs \<subseteq> insert key (fst ` set (dr_calls d))" using image_mono [OF new, of fst] by simp
  then have "fst ` set cs \<subseteq> dom (dr_images d)" using key driverOKD(3) [OF ok] by (meson insert_subset subset_trans)
  moreover have "\<exists>c. dr_images d k = Some c \<and> iw_over c \<and> iw_err c = e" if "(k, EReturned e) \<in> set cs" for k e
  proof -
    from that new consider "k = key" "s = EReturned e" | "(k, EReturned e) \<in> set (dr_calls d)" by auto
    then show ?thesis by cases (simp_all add: s driverOKD(5) [OF ok])
  qed
  ultimately show ?thesis using ok by (simp add: driverOK_def driverKept_def)
qed

lemma driver_step_OK:
  assumes "driver_step L E run d d'" and ok: "driverOK d"
  shows "driverOK d' \<and> driverKept d d'"
  using assms(1)
proof cases
  case (Enters key pick)
  show ?thesis
  proof (cases "dr_images d key")
    case None
    then have d': "d' = d\<lparr>dr_images := (dr_images d)(key \<mapsto> \<lparr>iw_over = False, iw_image = None, iw_err = None\<rparr>),
        dr_builds := dr_builds d @ [(key, buildTask L E run pick)], dr_calls := dr_calls d @ [(key, EWaiting)]\<rparr>"
      using Enters(1) by (simp add: startEnsure_def)
    from None ok have new: "key \<notin> fst ` set (dr_builds d)" unfolding driverOK_def by (metis domIff)
    have "driverOK d'"
      unfolding driverOK_def
    proof (intro conjI allI impI)
      show "distinct (map fst (dr_builds d'))" using ok new by (simp add: d' driverOK_def)
      show "dom (dr_images d') = fst ` set (dr_builds d')" using ok by (simp add: d' driverOK_def)
      show "iw_err c = None \<longleftrightarrow> iw_image c \<noteq> None" if "dr_images d' k = Some c" "iw_over c" for k c
        using that ok by (auto simp: d' driverOK_def split: if_splits)
      show "fst ` set (dr_calls d') \<subseteq> dom (dr_images d')" using driverOKD(3) [OF ok] by (simp add: d') blast
      show "\<exists>c. dr_images d' k = Some c \<and> iw_over c \<and> iw_err c = e" if "(k, EReturned e) \<in> set (dr_calls d')" for k e
      proof -
        from that have "(k, EReturned e) \<in> set (dr_calls d)" by (simp add: d')
        with ok None have "k \<noteq> key" "\<exists>c. dr_images d k = Some c \<and> iw_over c \<and> iw_err c = e" by (auto simp: driverOK_def)
        then show ?thesis by (simp add: d')
      qed
    qed
    with None show ?thesis by (auto simp: d' driverKept_def)
  next
    case (Some c)
    then have d': "d' = d\<lparr>dr_calls := dr_calls d @ [(key, EWaiting)]\<rparr>" using Enters(1) by (simp add: startEnsure_def)
    have "driverOK (d\<lparr>dr_calls := dr_calls d @ [(key, EWaiting)]\<rparr>) \<and> driverKept d (d\<lparr>dr_calls := dr_calls d @ [(key, EWaiting)]\<rparr>)"
      by (rule calls_OK [OF ok, where key = key and s = EWaiting]) (use Some in auto)
    then show ?thesis by (simp add: d')
  qed
next
  case (Built key task c built)
  obtain c' where c': "(case buildOutcome task built of Inl e \<Rightarrow> \<lparr>iw_over = True, iw_image = None, iw_err = Some e\<rparr>
      | Inr uri \<Rightarrow> \<lparr>iw_over = True, iw_image = Some uri, iw_err = None\<rparr>) = c'" "iw_err c' = None \<longleftrightarrow> iw_image c' \<noteq> None"
    by (cases "buildOutcome task built") auto
  then have d': "d' = d\<lparr>dr_images := (dr_images d)(key \<mapsto> c')\<rparr>" using Built(1) by (simp add: finishBuild_def)
  have other: "k \<noteq> key" if "(k, EReturned e) \<in> set (dr_calls d)" for k e
  proof
    assume "k = key"
    with driverOKD(5) [OF ok that] Built(3,4) show False by simp
  qed
  have "driverOK d'"
    unfolding driverOK_def
  proof (intro conjI allI impI)
    show "dom (dr_images d') = fst ` set (dr_builds d')"
      using ok Built(3) unfolding driverOK_def d' by auto
    show "\<exists>c. dr_images d' k = Some c \<and> iw_over c \<and> iw_err c = e" if "(k, EReturned e) \<in> set (dr_calls d')" for k e
      using that other [of k e] driverOKD(5) [OF ok, of k e] by (simp add: d')
    show "fst ` set (dr_calls d') \<subseteq> dom (dr_images d')" using driverOKD(3) [OF ok] by (simp add: d') blast
  qed (use ok c'(2) in \<open>auto simp: d' driverOK_def split: if_splits\<close>)
  with Built(3,4) show ?thesis by (auto simp: d' driverKept_def)
next
  case (Returns i key c)
  show ?thesis
    unfolding Returns(1) by (rule calls_OK [OF ok set_update_subset_insert]) (use Returns in auto)
next
  case (GivesUp i key e)
  have "(key, EWaiting) \<in> set (dr_calls d)" using GivesUp(2,3) by (metis nth_mem)
  then have "key \<in> dom (dr_images d)" using driverOKD(3) [OF ok] by force
  then show ?thesis
    unfolding GivesUp(1) by (intro calls_OK [OF ok set_update_subset_insert]) auto
next
  case (Adds child row)
  have "driverOK (d\<lparr>dr_rows := rows\<rparr>) = driverOK d" for rows unfolding driverOK_def by simp
  with ok Adds show ?thesis by (simp add: driverKept_def)
qed

lemma driver_steps_OK:
  assumes "(driver_step L E run)\<^sup>*\<^sup>* d d'" and "driverOK d"
  shows "driverOK d' \<and> driverKept d d'"
  using assms(1)
proof (induction rule: rtranclp_induct)
  case base
  with assms(2) show ?case by (simp add: driverKept_def)
next
  case (step x y)
  with driver_step_OK [OF step.hyps(2)] show ?case by (simp add: driverKept_def)
qed

lemma newDriver_OK: "driverOK (newDriver rows)"
  by (simp add: driverOK_def newDriver_def)

text \<open>
  C31: However the attempts of a run interleave, an image is built at most once for all of them,
  every \<open>Ensure\<close> of an image that returns before its context ends returns the same, and after one
  that returned no error every attempt that needs the image, then and later, is run with the one
  that was built: \<open>Run\<close> never finds it missing, and only an undecodable row can stop it.
\<close>

theorem image_single_flight:
  assumes "(driver_step L E run)\<^sup>*\<^sup>* (newDriver rows) d" and "(driver_step L E run)\<^sup>*\<^sup>* d d'"
    and "(key, EReturned e) \<in> set (dr_calls d)"
  shows "distinct (map fst (dr_builds d')) \<and> (\<forall>e'. (key, EReturned e') \<in> set (dr_calls d') \<longrightarrow> e' = e) \<and>
    (e = None \<longrightarrow> (\<exists>uri. \<forall>node row att. dr_rows d' node = Some row \<and> rowImage row = key \<longrightarrow>
       runTask L E run node att d' = map_sum id (Pair (Some uri)) (environmentExecution L E row run att)))"
proof (intro conjI allI impI)
  from driver_steps_OK [OF assms(1) newDriver_OK] have ok: "driverOK d" by simp
  from driver_steps_OK [OF assms(2) ok] have ok': "driverOK d'" and k: "driverKept d d'" by simp_all
  from ok' show "distinct (map fst (dr_builds d'))" by (simp add: driverOK_def)
  from driverOKD(5) [OF ok assms(3)] obtain c where c: "dr_images d key = Some c" "iw_over c" "iw_err c = e" by blast
  from k c(1,2) have c': "dr_images d' key = Some c" by (simp add: driverKept_def)
  show "e' = e" if "(key, EReturned e') \<in> set (dr_calls d')" for e'
    using driverOKD(5) [OF ok' that] c c' by auto
  assume "e = None"
  with c driverOKD(4) [OF ok' c' c(2)] obtain uri where "iw_image c = Some uri" by blast
  with c' show "\<exists>uri. \<forall>node row att. dr_rows d' node = Some row \<and> rowImage row = key \<longrightarrow>
        runTask L E run node att d' = map_sum id (Pair (Some uri)) (environmentExecution L E row run att)"
    by (intro exI [of _ uri]) (auto simp: runTask_def split: sum.split)
qed

subsection \<open>Results\<close>

text \<open>Only \<open>Wait\<close> and \<open>Lookup\<close> make a \<open>CacheableError\<close>.\<close>

definition foreign :: "goerr \<Rightarrow> bool" where
  "foreign e \<longleftrightarrow> (\<forall>code details. e \<noteq> CacheErr code details)"

lemma jobWait_lookupOf:
  assumes "jobWait unmarshals marshal answer closeErr = (output, failure)"
    and "failure = None \<or> (\<exists>code details. failure = Some (CacheErr code details))"
    and "\<And>e. answer = Inl e \<Longrightarrow> foreign e" "\<And>e. closeErr = Some e \<Longrightarrow> foreign e" "\<And>code d e. marshal code d = Inl e \<Longrightarrow> foreign e"
  shows "(failure = None \<or> (\<exists>code details. failure = Some (CacheErr code details) \<and> code \<noteq> [])) \<and>
    lookupOf marshal output failure = Hit output failure"
proof (cases "\<exists>r. answer = Inr r \<and> closeErr = None")
  case False
  then obtain e where "answer = Inl e \<or> closeErr = Some e" by (cases answer; cases closeErr) auto
  moreover from this assms(1) have "\<exists>e. failure = Some e \<and> (answer = Inl e \<or> closeErr = Some e)"
    by (cases answer) (auto simp: jobWait_def split: option.splits)
  ultimately show ?thesis using assms(2,3,4) by (fastforce simp: foreign_def)
next
  case True
  then obtain r where r: "answer = Inr r" "closeErr = None" by blast
  show ?thesis
  proof (cases "marshal (er_code r) (Some (er_details r))")
    case (Inl e)
    with assms(5) have "foreign e" by blast
    with Inl r assms(1,2) show ?thesis by (auto simp: jobWait_def foreign_def lookupOf_def split: if_splits)
  next
    case (Inr out)
    with r assms(1,2) show ?thesis by (auto simp: jobWait_def lookupOf_def errorOutput_def split: if_splits)
  qed
qed

text \<open>
  C32: A result is final. When \<open>Wait\<close> gave an output or a failure that the task calls cacheable, and
  storing it succeeded, then whatever the workers do with the cache a \<open>Lookup\<close> of the key by anyone
  that answers without an error of its own answers exactly the output and the failure that \<open>Wait\<close>
  gave, and never claims the key again.
\<close>

theorem task_result_cached:
  assumes "jobWait unmarshals marshal answer closeErr = (output, failure)"
    and "failure = None \<or> (\<exists>code details. failure = Some (CacheErr code details))"
    and "\<And>e. answer = Inl e \<Longrightarrow> foreign e" and "\<And>e. closeErr = Some e \<Longrightarrow> foreign e"
    and "\<And>code d e. marshal code d = Inl e \<Longrightarrow> foreign e"
    and "Store owner key output failure w = (Inr (), w1)" and "(cache_step marshal)\<^sup>*\<^sup>* w1 w2"
    and "Lookup marshal n pause owner' key w2 = (l, w3)"
  shows "l = Hit output failure \<or> (\<exists>e. l = Hit None (Some e))"
proof -
  have res: "(failure = None \<or> (\<exists>code details. failure = Some (CacheErr code details) \<and> code \<noteq> [])) \<and>
      lookupOf marshal output failure = Hit output failure"
    by (rule jobWait_lookupOf [OF assms(1,2)]) (fact assms)+
  from stored_found [OF assms(6) conjunct1 [OF res] assms(7,8)] res show ?thesis by simp
qed

subsection \<open>One attempt, its image and its failure\<close>

definition exDriverSpec :: envSpec where
  "exDriverSpec = \<lparr>es_ns = ''n'', es_name = ''e'', es_source = [], es_image = None, es_deps = [], es_entries = [None]\<rparr>"

definition exDriverEnc :: encodings where
  "exDriverEnc =
     \<lparr>protoSpec = (\<lambda>_. Inr []), unprotoSpec = (\<lambda>_. Inr exDriverSpec), protoAction = (\<lambda>_. Inr []),
      unprotoAction = (\<lambda>_. Inr \<lparr>as_input = [5], as_attempts = 1, as_cache = False, as_version = [], as_key = []\<rparr>),
      cborVersion = Inr, cborImage = (\<lambda>_ _ _ _. Inr []), cborInput = (\<lambda>_. None), cborList = (\<lambda>_. True), cborMap = (\<lambda>_. True),
      readTime = (\<lambda>_. None)\<rparr>"

definition exEnvRow :: env_row where
  "exEnvRow = \<lparr>e_ns = 2, e_name = ''e'', e_version = ''v'', e_provider = localTaskImage, e_spec = [], e_image = [9]\<rparr>"

definition exDriverRow :: listedRow where "exDriverRow = (3, newAction 7 None 4 1 [] 0, exEnvRow)"

definition exRequest :: "lib \<Rightarrow> int \<Rightarrow> envExecution" where
  "exRequest L att =
     \<lparr>ex_env = environmentIdentifier L exEnvRow, ex_provider = localTaskImage, ex_spec = exDriverSpec, ex_entry = 1,
      ex_input = [5], ex_envs = [Some (environmentIdentifier L exEnvRow)], ex_run = uuidString L 7, ex_action = uuidString L 3,
      ex_attempt = att\<rparr>"

lemma exRequest_row: "environmentExecution L exDriverEnc exDriverRow 7 att = Inr (exRequest L att)"
  by (simp add: environmentExecution_def exDriverRow_def exDriverEnc_def exDriverSpec_def newAction_def exRequest_def exEnvRow_def)

definition exDriver :: "lib \<Rightarrow> imageWait \<Rightarrow> (bytes \<times> ensureCall) list \<Rightarrow> runDriver" where
  "exDriver L c cs = \<lparr>dr_images = [[9] \<mapsto> c], dr_rows = [3 \<mapsto> exDriverRow], dr_calls = cs, dr_builds = [([9], Inr (exRequest L 0))]\<rparr>"

text \<open>Two attempts ask for the image, one before its build is over and one after it.\<close>

lemma exDriver_reached:
  "(driver_step L exDriverEnc 7)\<^sup>*\<^sup>* (newDriver [3 \<mapsto> exDriverRow])
     (exDriver L \<lparr>iw_over = True, iw_image = Some ''blob:x'', iw_err = None\<rparr> [([9], EReturned None), ([9], EReturned None)])"
proof -
  let ?R = "driver_step L exDriverEnc 7" and ?d0 = "newDriver [3 \<mapsto> exDriverRow]"
  let ?built = "\<lparr>iw_over = True, iw_image = Some ''blob:x'', iw_err = None\<rparr> :: imageWait"
  let ?fresh = "\<lparr>iw_over = False, iw_image = None, iw_err = None\<rparr> :: imageWait"
  have row: "candidate [9] d (Some exDriverRow)" if "dr_rows d = [3 \<mapsto> exDriverRow]" for d
    using that by (auto simp: candidate_def rowImage_def exDriverRow_def exEnvRow_def)
  have task: "buildTask L exDriverEnc 7 (Some exDriverRow) = Inr (exRequest L 0)"
    using exRequest_row [of L 0] by (simp add: buildTask_def exDriverRow_def newAction_def)
  have out: "buildOutcome (Inr (exRequest L 0)) (Inr ''blob:x'') = Inr ''blob:x''"
    by (simp add: buildOutcome_def executorFor_def exRequest_def)
  have 1: "?R ?d0 (exDriver L ?fresh [([9], EWaiting)])"
    using Enters [OF row, of ?d0 L exDriverEnc 7] by (simp add: startEnsure_def newDriver_def exDriver_def task)
  have 2: "?R (exDriver L ?fresh cs) (exDriver L ?built cs)" for cs
    using Built [of "[9]" "Inr (exRequest L 0)" "exDriver L ?fresh cs" ?fresh L exDriverEnc 7 "Inr ''blob:x''"]
    by (simp add: out finishBuild_def exDriver_def)
  have 3: "?R (exDriver L ?built cs) (exDriver L ?built (cs @ [([9], EWaiting)]))" for cs
    using Enters [OF row, of "exDriver L ?built cs" L exDriverEnc 7] by (simp add: startEnsure_def exDriver_def)
  have 4: "?R (exDriver L ?built cs) (exDriver L ?built (cs[i := ([9], EReturned None)]))" if "i < length cs" "cs ! i = ([9], EWaiting)" for cs i
    using Returns [of i "exDriver L ?built cs" "[9]" ?built L exDriverEnc 7] that by (simp add: exDriver_def)
  have "?R (exDriver L ?built [([9], EWaiting), ([9], EWaiting)]) (exDriver L ?built [([9], EReturned None), ([9], EWaiting)])"
    using 4 [of 0 "[([9], EWaiting), ([9], EWaiting)]"] by simp
  moreover have "?R (exDriver L ?built [([9], EReturned None), ([9], EWaiting)]) (exDriver L ?built [([9], EReturned None), ([9], EReturned None)])"
    using 4 [of 1 "[([9], EReturned None), ([9], EWaiting)]"] by simp
  moreover have "?R (exDriver L ?built [([9], EWaiting)]) (exDriver L ?built [([9], EWaiting), ([9], EWaiting)])"
    using 3 [of "[([9], EWaiting)]"] by simp
  moreover note 1 2 [of "[([9], EWaiting)]"]
  ultimately show ?thesis by (meson r_into_rtranclp rtranclp_trans)
qed

theorem image_single_flight_witness:
  "\<forall>L. \<exists>d uri. (driver_step L exDriverEnc 7)\<^sup>*\<^sup>* (newDriver [3 \<mapsto> exDriverRow]) d \<and> length (dr_builds d) = 1 \<and>
     dr_calls d = [([9], EReturned None), ([9], EReturned None)] \<and> runTask L exDriverEnc 7 3 1 d = Inr (Some uri, exRequest L 1)"
proof
  fix L
  let ?d = "exDriver L \<lparr>iw_over = True, iw_image = Some ''blob:x'', iw_err = None\<rparr> [([9], EReturned None), ([9], EReturned None)]"
  have d: "([9], EReturned None) \<in> set (dr_calls ?d)" "dr_rows ?d 3 = Some exDriverRow" "rowImage exDriverRow = [9]"
    by (simp_all add: exDriver_def rowImage_def exDriverRow_def exEnvRow_def)
  from image_single_flight [OF exDriver_reached rtranclp.rtrancl_refl d(1)] d(2,3) obtain uri where
    "runTask L exDriverEnc 7 3 1 ?d = map_sum id (Pair (Some uri)) (environmentExecution L exDriverEnc exDriverRow 7 1)" by blast
  then have "runTask L exDriverEnc 7 3 1 ?d = Inr (Some uri, exRequest L 1)" by (simp add: exRequest_row)
  moreover have "length (dr_builds ?d) = 1" "dr_calls ?d = [([9], EReturned None), ([9], EReturned None)]" by (simp_all add: exDriver_def)
  ultimately show "\<exists>d uri. (driver_step L exDriverEnc 7)\<^sup>*\<^sup>* (newDriver [3 \<mapsto> exDriverRow]) d \<and> length (dr_builds d) = 1 \<and>
     dr_calls d = [([9], EReturned None), ([9], EReturned None)] \<and> runTask L exDriverEnc 7 3 1 d = Inr (Some uri, exRequest L 1)"
    using exDriver_reached by blast
qed

text \<open>A task that fails with a code of its own; the failure is stored and found again.\<close>

definition exAnswer :: executeResponse where
  "exAnswer = \<lparr>er_code = ''bad'', er_details = [246], er_output = [], er_type = ''application/cbor''\<rparr>"

definition exMarshal :: "string \<Rightarrow> bytes option \<Rightarrow> goerr + bytes" where
  "exMarshal code details = Inr (bytesOf code)"

definition exFailure :: "goerr option" where "exFailure = Some (CacheErr ''bad'' [246])"

definition exStored :: world where
  "exStored = snd (Store 8 (replicate 32 0) (Some (bytesOf ''bad'')) exFailure cacheWorld)"

lemma exStored_run: "Store 8 (replicate 32 0) (Some (bytesOf ''bad'')) exFailure cacheWorld = (Inr (), exStored)"
  by (simp add: exStored_def exFailure_def Store_def Let_def andThen_def stmt_def call_def cacheWorld_def finishTaskCache_def ownsCache_def)

theorem task_result_cached_witness:
  "fst (Lookup exMarshal 1 (\<lambda>_. ret ()) 9 (replicate 32 0) exStored) = Hit (Some (bytesOf ''bad'')) exFailure"
proof -
  have "cacheCodeOK ''bad''" by code_simp
  then have j: "jobWait (\<lambda>_. True) exMarshal (Inr exAnswer) None = (Some (bytesOf ''bad''), exFailure)"
    by (simp add: jobWait_def exAnswer_def exMarshal_def exFailure_def)
  obtain l v where l: "Lookup exMarshal 1 (\<lambda>_. ret ()) 9 (replicate 32 0) exStored = (l, v)" by fastforce
  have "l = Hit (Some (bytesOf ''bad'')) exFailure \<or> (\<exists>e. l = Hit None (Some e))"
    by (rule task_result_cached [OF j _ _ _ _ exStored_run _ l]) (simp_all add: exFailure_def exMarshal_def)
  moreover have "l \<noteq> Hit None (Some e)" for e
    using l by (auto simp: exStored_def exFailure_def Store_def Let_def andThen_def stmt_def call_def cacheWorld_def finishTaskCache_def
        ownsCache_def query_def numeral_eq_Suc errorOutput_def exMarshal_def)
  ultimately have "l = Hit (Some (bytesOf ''bad'')) exFailure" by blast
  with l show ?thesis by simp
qed

end
