(* ===== verification/Host_Files.thy ===== *)
theory Host_Files
  imports Environments "HOL-Library.Sublist"
begin

section \<open>The worker's file system\<close>

text \<open>
  What \<open>extract.go\<close> and \<open>executor.go\<close> use of package \<open>os\<close> and of the kernel below it: a tree
  of directories, files and symbolic links, the walk along a path that follows links, and the
  calls that create. Every call may also fail for a reason of the device; such an error is not
  one that the code tells apart. A path is the list of its components below the root.
\<close>

type_synonym fpath = "string list"

datatype fnode = DirNode | FileNode bytes int | LinkNode string

record host =
  files :: "fpath \<rightharpoonup> fnode"
  diskFaults :: "nat \<Rightarrow> string option"
  diskCalls :: nat

type_synonym 'a io = "host \<Rightarrow> (goerr + 'a) \<times> host"

definition eExist :: goerr where "eExist = Plain ''file exists''"
definition eNotExist :: goerr where "eNotExist = Plain ''no such file or directory''"
definition eNotDir :: goerr where "eNotDir = Plain ''not a directory''"
definition eLoop :: goerr where "eLoop = Plain ''too many levels of symbolic links''"
definition eDevice :: "string \<Rightarrow> goerr" where "eDevice s = Plain (''device: '' @ s)"

definition iret :: "'a \<Rightarrow> 'a io" where "iret x h = (Inr x, h)"
definition ifail :: "goerr \<Rightarrow> 'a io" where "ifail e h = (Inl e, h)"

definition ithen :: "'a io \<Rightarrow> ('a \<Rightarrow> 'b io) \<Rightarrow> 'b io" where
  "ithen m f h = (case m h of (Inl e, h') \<Rightarrow> (Inl e, h') | (Inr x, h') \<Rightarrow> f x h')"

text \<open>One call: a fault of the device, or what the kernel answers and leaves.\<close>

definition syscall :: "((fpath \<rightharpoonup> fnode) \<Rightarrow> (goerr + 'a) \<times> (fpath \<rightharpoonup> fnode)) \<Rightarrow> 'a io" where
  "syscall f h =
     (case diskFaults h (diskCalls h) of
        Some s \<Rightarrow> (Inl (eDevice s), h\<lparr>diskCalls := Suc (diskCalls h)\<rparr>)
      | None \<Rightarrow> (case f (files h) of (r, m) \<Rightarrow> (r, h\<lparr>diskCalls := Suc (diskCalls h), files := m\<rparr>)))"

subsection \<open>Walking a path\<close>

text \<open>
  \<open>n\<close> is the number of links that may still be followed (40 on Linux); \<open>follow\<close> says whether a
  link at the end is followed. The result is the place where the path leads, which exists or
  could be created.
\<close>

function walk :: "nat \<Rightarrow> (fpath \<rightharpoonup> fnode) \<Rightarrow> bool \<Rightarrow> fpath \<Rightarrow> string list \<Rightarrow> goerr + fpath" where
  "walk n m follow base [] = Inr base"
| "walk n m follow base (c # cs) =
     (if c = [] \<or> c = ''.'' then walk n m follow base cs
      else if c = ''..'' then walk n m follow (butlast base) cs
      else
        (case m (base @ [c]) of
           None \<Rightarrow> if cs = [] then Inr (base @ [c]) else Inl eNotExist
         | Some DirNode \<Rightarrow> walk n m follow (base @ [c]) cs
         | Some (FileNode _ _) \<Rightarrow> if cs = [] then Inr (base @ [c]) else Inl eNotDir
         | Some (LinkNode t) \<Rightarrow>
             if cs = [] \<and> \<not> follow then Inr (base @ [c])
             else
               (case n of
                  0 \<Rightarrow> Inl eLoop
                | Suc k \<Rightarrow> walk k m follow (if isAbs t then [] else base) (splitAt (CHR ''/'') t @ cs))))"
  by pat_completeness auto
termination
  by (relation "measures [\<lambda>(n, m, f, b, cs). n, \<lambda>(n, m, f, b, cs). length cs]") auto

definition maxLinks :: nat where "maxLinks = 40"

definition nodeAt :: "bool \<Rightarrow> fpath \<Rightarrow> (fpath \<rightharpoonup> fnode) \<Rightarrow> goerr + fnode" where
  "nodeAt follow p m =
     (case walk maxLinks m follow [] p of
        Inl e \<Rightarrow> Inl e
      | Inr q \<Rightarrow> (case m q of None \<Rightarrow> Inl eNotExist | Some n \<Rightarrow> Inr n))"

definition Lstat :: "fpath \<Rightarrow> fnode io" where
  "Lstat p = syscall (\<lambda>m. (nodeAt False p m, m))"

definition Stat :: "fpath \<Rightarrow> fnode io" where
  "Stat p = syscall (\<lambda>m. (nodeAt True p m, m))"

text \<open>\<open>os.Mkdir\<close>, \<open>os.Symlink\<close>, and \<open>os.OpenFile\<close> with \<open>O_CREATE\<close> and \<open>O_EXCL\<close>: none follows a link at the end.\<close>

definition createAt :: "fpath \<Rightarrow> fnode \<Rightarrow> (fpath \<rightharpoonup> fnode) \<Rightarrow> (goerr + fpath) \<times> (fpath \<rightharpoonup> fnode)" where
  "createAt p n m =
     (case walk maxLinks m False [] p of
        Inl e \<Rightarrow> (Inl e, m)
      | Inr q \<Rightarrow> (case m q of None \<Rightarrow> (Inr q, m(q \<mapsto> n)) | Some _ \<Rightarrow> (Inl eExist, m)))"

definition create :: "fpath \<Rightarrow> fnode \<Rightarrow> fpath io" where
  "create p n = syscall (createAt p n)"

text \<open>Writing to the file just opened.\<close>

definition writeFile :: "fpath \<Rightarrow> bytes \<Rightarrow> unit io" where
  "writeFile q bs = syscall (\<lambda>m.
     case m q of
       Some (FileNode old mode) \<Rightarrow> (Inr (), m(q \<mapsto> FileNode bs mode))
     | _ \<Rightarrow> (Inr (), m))"

function MkdirAll :: "fpath \<Rightarrow> unit io" where
  "MkdirAll p h =
     (case Stat p h of
        (Inr n, h1) \<Rightarrow> if n = DirNode then (Inr (), h1) else (Inl eNotDir, h1)
      | (Inl _, h1) \<Rightarrow>
          (case (if length p \<le> 1 then (Inr (), h1) else MkdirAll (butlast p) h1) of
             (Inl e, h2) \<Rightarrow> (Inl e, h2)
           | (Inr _, h2) \<Rightarrow>
               (case create p DirNode h2 of
                  (Inr _, h3) \<Rightarrow> (Inr (), h3)
                | (Inl e, h3) \<Rightarrow>
                    (case Lstat p h3 of
                       (Inr n, h4) \<Rightarrow> if n = DirNode then (Inr (), h4) else (Inl e, h4)
                     | (Inl _, h4) \<Rightarrow> (Inl e, h4)))))"
  by pat_completeness auto
termination
  by (relation "measure (\<lambda>(p, h). length p)") auto

declare MkdirAll.simps [simp del]

subsection \<open>Paths without links\<close>

definition plain :: "string \<Rightarrow> bool" where
  "plain c \<longleftrightarrow> c \<noteq> [] \<and> c \<noteq> ''.'' \<and> c \<noteq> ''..''"

definition isLink :: "fnode option \<Rightarrow> bool" where
  "isLink n \<longleftrightarrow> (\<exists>t. n = Some (LinkNode t))"

definition isFile :: "fnode option \<Rightarrow> bool" where
  "isFile n \<longleftrightarrow> (\<exists>b mode. n = Some (FileNode b mode))"

text \<open>No link on the way: the last component may be one.\<close>

definition noLinks :: "(fpath \<rightharpoonup> fnode) \<Rightarrow> fpath \<Rightarrow> fpath \<Rightarrow> bool" where
  "noLinks m base cs \<longleftrightarrow> (\<forall>k. 0 < k \<longrightarrow> k < length cs \<longrightarrow> \<not> isLink (m (base @ take k cs)))"

definition treeOK :: "(fpath \<rightharpoonup> fnode) \<Rightarrow> bool" where
  "treeOK m \<longleftrightarrow> m [] = Some DirNode \<and> (\<forall>p c. m (p @ [c]) \<noteq> None \<longrightarrow> m p = Some DirNode)"

lemma treeOK_above: "treeOK m \<Longrightarrow> m (p @ q) \<noteq> None \<Longrightarrow> q \<noteq> [] \<Longrightarrow> m p = Some DirNode"
proof (induction q rule: rev_induct)
  case (snoc c q)
  from snoc.prems have d: "m (p @ q) = Some DirNode" unfolding treeOK_def by (metis append.assoc)
  with snoc show ?case by (cases "q = []") auto
qed simp

lemma noLinks_step: "noLinks m base (c # cs) \<Longrightarrow> noLinks m (base @ [c]) cs"
  unfolding noLinks_def
proof (intro allI impI)
  fix k
  assume a: "\<forall>k. 0 < k \<longrightarrow> k < length (c # cs) \<longrightarrow> \<not> isLink (m (base @ take k (c # cs)))" "0 < k" "k < length cs"
  from a(1) [rule_format, of "Suc k"] a(2,3) show "\<not> isLink (m ((base @ [c]) @ take k cs))" by simp
qed

lemma walk_plain:
  assumes "list_all plain cs" and "noLinks m base cs" and "follow \<longrightarrow> \<not> isLink (m (base @ cs))"
    and "walk n m follow base cs = Inr q"
  shows "q = base @ cs \<and> (\<forall>k. 0 < k \<longrightarrow> k < length cs \<longrightarrow> m (base @ take k cs) = Some DirNode)"
  using assms
proof (induction cs arbitrary: base)
  case (Cons c cs)
  then have c: "c \<noteq> []" "c \<noteq> ''.''" "c \<noteq> ''..''" by (simp_all add: plain_def)
  show ?case
  proof (cases "cs = []")
    case True
    with Cons.prems c show ?thesis by (auto simp: isLink_def split: option.splits fnode.splits if_splits)
  next
    case False
    then have "\<not> isLink (m (base @ [c]))" using Cons.prems(2) unfolding noLinks_def by (auto dest: spec [of _ 1])
    with Cons.prems(4) c False have d: "m (base @ [c]) = Some DirNode" and w: "walk n m follow (base @ [c]) cs = Inr q"
      by (auto simp: isLink_def split: option.splits fnode.splits)
    from Cons.IH [OF _ noLinks_step [OF Cons.prems(2)] _ w] Cons.prems(1,3)
    have q: "q = base @ c # cs" and k: "\<And>k. 0 < k \<Longrightarrow> k < length cs \<Longrightarrow> m ((base @ [c]) @ take k cs) = Some DirNode"
      by auto
    have "m (base @ take j (c # cs)) = Some DirNode" if "0 < j" "j < length (c # cs)" for j
      using that d k by (cases j) (auto, metis append_Cons append_Nil append_assoc gr0I take_0)
    with q show ?thesis by blast
  qed
qed simp

text \<open>When the links on the way are known not to be there, an existing node is found at its own path.\<close>

lemma walk_exists:
  assumes "list_all plain cs" and "treeOK m" and "m (base @ cs) \<noteq> None" and "\<not> follow"
  shows "walk n m follow base cs = Inr (base @ cs)"
  using assms
proof (induction cs arbitrary: base)
  case (Cons c cs)
  then have c: "c \<noteq> []" "c \<noteq> ''.''" "c \<noteq> ''..''" by (simp_all add: plain_def)
  show ?case
  proof (cases "cs = []")
    case True
    with Cons.prems c show ?thesis by (auto split: fnode.splits)
  next
    case False
    with treeOK_above [OF Cons.prems(2), of "base @ [c]" cs] Cons.prems(3) have "m (base @ [c]) = Some DirNode" by simp
    with Cons.IH [of "base @ [c]"] Cons.prems c show ?thesis by simp
  qed
qed simp

subsection \<open>What a call changes\<close>

text \<open>Only places where nothing was, or the content of a file; \<open>P\<close> says which and what.\<close>

definition changed :: "(fpath \<Rightarrow> fnode option \<Rightarrow> bool) \<Rightarrow> (fpath \<rightharpoonup> fnode) \<Rightarrow> (fpath \<rightharpoonup> fnode) \<Rightarrow> bool" where
  "changed P m m' \<longleftrightarrow> treeOK m' \<and>
     (\<forall>q. m' q \<noteq> m q \<longrightarrow> P q (m' q) \<and> m' q \<noteq> None \<and> (m q = None \<or> isFile (m q) \<and> isFile (m' q)))"

lemma changed_refl: "treeOK m \<Longrightarrow> changed P m m"
  by (simp add: changed_def)

lemma changed_trans: "changed P m m' \<Longrightarrow> changed P m' m'' \<Longrightarrow> changed P m m''"
  unfolding changed_def by (elim conjE, intro conjI allI impI) (assumption, metis+)

lemma changed_mono: "changed P m m' \<Longrightarrow> (\<And>q n. m q = None \<or> isFile (m q) \<Longrightarrow> P q n \<Longrightarrow> Q q n) \<Longrightarrow> changed Q m m'"
  unfolding changed_def by blast

lemma changed_dir: "changed P m m' \<Longrightarrow> m q = Some DirNode \<Longrightarrow> m' q = Some DirNode"
  unfolding changed_def isFile_def by (metis fnode.distinct(1) option.distinct(1) option.inject)

lemma changed_link: "changed P m m' \<Longrightarrow> (\<And>q n. P q n \<Longrightarrow> \<not> isLink n) \<Longrightarrow> isLink (m' q) \<Longrightarrow> isLink (m q)"
  unfolding changed_def by metis

lemma syscall_files: "syscall f h = (r, h') \<Longrightarrow> files h' = files h \<or> (f (files h) = (r, files h'))"
  by (auto simp: syscall_def split: option.splits prod.splits)

lemma Stat_files: "Stat p h = (r, h') \<Longrightarrow> files h' = files h" and Lstat_files: "Lstat p h = (r, h') \<Longrightarrow> files h' = files h"
  by (auto simp: Stat_def Lstat_def dest!: syscall_files)

lemma create_changed:
  assumes "list_all plain p" and "noLinks (files h) [] p" and t: "treeOK (files h)" and "create p n h = (r, h')"
  shows "changed (\<lambda>q x. q = p \<and> q \<noteq> [] \<and> x = Some n) (files h) (files h') \<and> (\<forall>q. r = Inr q \<longrightarrow> q = p \<and> files h' p = Some n)"
proof (cases "\<exists>q. r = Inr q")
  case False
  have "files h' = files h \<or> (\<exists>q. r = Inr q)"
  proof (cases "walk maxLinks (files h) False [] p")
    case (Inl e)
    with assms(4) show ?thesis by (auto simp: create_def syscall_def createAt_def split: option.splits)
  next
    case (Inr x)
    then have "createAt p n (files h) = (case files h x of None \<Rightarrow> (Inr x, (files h)(x \<mapsto> n)) | Some _ \<Rightarrow> (Inl eExist, files h))"
      by (simp add: createAt_def)
    with assms(4) show ?thesis by (auto simp: create_def syscall_def split: option.splits)
  qed
  with False t show ?thesis by (simp add: changed_refl)
next
  case True
  then obtain q where r: "r = Inr q" ..
  with assms(4) have "walk maxLinks (files h) False [] p = Inr q" "files h q = None" "files h' = (files h)(q \<mapsto> n)"
    unfolding create_def syscall_def by (auto simp: createAt_def split: sum.splits option.splits prod.splits)
  with walk_plain [OF assms(1,2)] have q: "q = p" "files h p = None" "files h' = (files h)(p \<mapsto> n)"
    and dirs: "\<And>k. 0 < k \<Longrightarrow> k < length p \<Longrightarrow> files h (take k p) = Some DirNode"
    by auto
  have ne: "p \<noteq> []" using q(2) t by (auto simp: treeOK_def)
  have up: "files h (butlast p) = Some DirNode"
    using dirs [of "length p - 1"] t ne by (cases "length p = 1") (auto simp: butlast_conv_take treeOK_def)
  have "treeOK (files h')"
    unfolding treeOK_def q(3)
  proof (intro conjI allI impI)
    show "((files h)(p \<mapsto> n)) [] = Some DirNode" using t ne by (simp add: treeOK_def)
    fix a c
    assume a: "((files h)(p \<mapsto> n)) (a @ [c]) \<noteq> None"
    have "files h a = Some DirNode"
      using a up t unfolding treeOK_def by (cases "a @ [c] = p") auto
    with q(2) show "((files h)(p \<mapsto> n)) a = Some DirNode" by auto
  qed
  with r q ne show ?thesis by (auto simp: changed_def)
qed

lemma noLinks_changed:
  "noLinks m base p \<Longrightarrow> changed P m m' \<Longrightarrow> (\<And>q n. P q n \<Longrightarrow> \<not> isLink n) \<Longrightarrow> noLinks m' base p"
  unfolding noLinks_def using changed_link by metis

lemma noLinks_butlast: "noLinks m base p \<Longrightarrow> noLinks m base (butlast p)"
  unfolding noLinks_def by (simp add: take_butlast)

lemma MkdirAll_changed:
  assumes "list_all plain p" and "noLinks (files h) [] p" and "treeOK (files h)" and "MkdirAll p h = (r, h')"
  shows "changed (\<lambda>q x. prefix q p \<and> q \<noteq> [] \<and> x = Some DirNode) (files h) (files h')"
  using assms
proof (induction p h arbitrary: r h' rule: MkdirAll.induct)
  case (1 p h)
  let ?P = "\<lambda>p q x. prefix q p \<and> q \<noteq> [] \<and> x = Some DirNode"
  obtain st h1 where st: "Stat p h = (st, h1)" by (rule prod.exhaust)
  have h1: "files h1 = files h" by (rule Stat_files [OF st])
  show ?case
  proof (cases st)
    case (Inr n)
    with 1 st have "files h' = files h" using h1 by (auto simp: MkdirAll.simps split: if_splits)
    with 1 show ?thesis by (simp add: changed_refl)
  next
    case (Inl e)
    obtain r2 h2 where up: "(if length p \<le> 1 then (Inr (), h1) else MkdirAll (butlast p) h1) = (r2, h2)" by (rule prod.exhaust)
    have plain: "list_all plain (butlast p)" using 1(2) by (auto simp: list_all_iff dest: in_set_butlastD)
    have c2: "changed (?P p) (files h) (files h2)"
    proof (cases "length p \<le> 1")
      case True
      with up h1 1 show ?thesis by (auto intro: changed_refl)
    next
      case False
      with up have rec: "MkdirAll (butlast p) h1 = (r2, h2)" by simp
      from 1(1) [OF st [symmetric] Inl False plain _ _ rec] noLinks_butlast [OF 1(3)] 1(4) h1
      have "changed (?P (butlast p)) (files h) (files h2)" by simp
      then show ?thesis by (rule changed_mono) (auto intro: prefix_order.trans [OF _ prefixeq_butlast])
    qed
    show ?thesis
    proof (cases r2)
      case (Inl e2)
      with 1(5) st \<open>st = Inl e\<close> up c2 show ?thesis by (auto simp: MkdirAll.simps split: if_splits)
    next
      case (Inr u)
      obtain r3 h3 where cr: "create p DirNode h2 = (r3, h3)" by (rule prod.exhaust)
      have t2: "treeOK (files h2)" using c2 by (simp add: changed_def)
      have "noLinks (files h2) [] p" by (rule noLinks_changed [OF 1(3) c2]) (auto simp: isLink_def)
      from create_changed [OF 1(2) this t2 cr] have "changed (?P p) (files h2) (files h3)"
        by (auto elim: changed_mono)
      with c2 have c3: "changed (?P p) (files h) (files h3)" by (rule changed_trans)
      have "files h' = files h3"
        using 1(5) st \<open>st = Inl e\<close> up Inr cr Lstat_files
        by (auto simp: MkdirAll.simps split: sum.splits prod.splits if_splits)
      with c3 show ?thesis by simp
    qed
  qed
qed

text \<open>What is new on the way to a place below a directory is below it too.\<close>

lemma new_below:
  assumes "treeOK m" and "m dir = Some DirNode" and "prefix q (dir @ ps)" and "m q = None \<or> isFile (m q)"
  shows "strict_prefix dir q"
proof -
  have "\<not> prefix q dir"
  proof
    assume "prefix q dir"
    then obtain zs where z: "dir = q @ zs" by (auto elim: prefixE)
    with assms(1,2) treeOK_above [of m q zs] have "m q = Some DirNode" by (cases "zs = []") auto
    with assms(4) show False by (simp add: isFile_def)
  qed
  then show ?thesis using assms(3) by (metis prefix_same_cases prefixI prefix_order.le_less)
qed


end
