(* ===== verification/Extract.thy ===== *)
theory Extract
  imports Host_Files Runlog_Append
begin

section \<open>Unpacking archives into a task's directory\<close>

text \<open>
  \<open>internal/lutra/extract.go\<close> and the extraction of \<open>executor.go\<close>: the source bundle and the
  image archive of a task, both tar files under zstd, are unpacked into a fresh directory. A
  user writes the bundle. The decoder is a parameter: it gives the members that the tar
  reader finds and how it ends. The quoted names are left out of the messages.
\<close>

datatype memberType = MDir | MReg | MLink | MOther

record member =
  mb_name :: string
  mb_type :: memberType
  mb_size :: int
  mb_mode :: int
  mb_link :: string
  mb_data :: bytes \<comment> \<open>what can be read of the content\<close>

type_synonym decoder = "bytes \<Rightarrow> goerr + (member list \<times> goerr option)"

text \<open>\<open>filepath.Join(dir, name)\<close> for a clean absolute \<open>dir\<close>; \<open>filepath.Dir\<close>; \<open>filepath.Join\<close> of two texts.\<close>

definition joinPath :: "fpath \<Rightarrow> string \<Rightarrow> fpath" where
  "joinPath dir name = rev (cleanParts True (rev dir) (splitAt (CHR ''/'') name))"

definition pathDir :: "string \<Rightarrow> string" where
  "pathDir s = pathClean (concat (map (\<lambda>p. p @ ''/'') (butlast (splitAt (CHR ''/'') s))))"

definition pathJoin :: "string \<Rightarrow> string \<Rightarrow> string" where
  "pathJoin a b =
     (if a = [] then (if b = [] then [] else pathClean b) else pathClean (a @ ''/'' @ b))"

text \<open>\<open>os.OpenFile\<close>, \<open>io.CopyN\<close> and \<open>Close\<close>.\<close>

definition writeMember :: "fpath \<Rightarrow> int \<Rightarrow> member \<Rightarrow> unit io" where
  "writeMember target mode m =
     ithen (create target (FileNode [] mode)) (\<lambda>q.
     ithen (writeFile q (take (nat (mb_size m)) (mb_data m))) (\<lambda>_.
     if int (length (mb_data m)) < mb_size m then ifail (Plain ''unexpected EOF'') else iret ()))"

definition ending :: "goerr option \<Rightarrow> unit io" where
  "ending e = (case e of None \<Rightarrow> iret () | Some x \<Rightarrow> ifail x)"

subsection \<open>\<open>extractBundle\<close>\<close>

definition unsafeName :: "string \<Rightarrow> bool" where
  "unsafeName name \<longleftrightarrow>
     name = [] \<or> isAbs name \<or> CHR 0x5C \<in> set name \<or> pathClean name \<noteq> name \<or> name = ''..'' \<or> hasPrefix name ''../''"

definition venv :: string where "venv = ''.venv''"

definition bundleMember :: "fpath \<Rightarrow> int \<Rightarrow> member \<Rightarrow> int io" where
  "bundleMember dir extracted m =
     (let name = trimSuffix (mb_name m) ''/'' in
      if unsafeName name then ifail (Plain ''unsafe bundle path'')
      else if name = venv \<or> hasPrefix name (venv @ ''/'')
      then ifail (Plain ''source bundle cannot replace the built image'')
      else
        (let target = joinPath dir name in
         case mb_type m of
           MDir \<Rightarrow> ithen (MkdirAll target) (\<lambda>_. iret extracted)
         | MReg \<Rightarrow>
             if mb_size m < 0 \<or> mb_size m > 134217728 then ifail (Plain ''bundle entry too large'')
             else if wrap64 (extracted + mb_size m) > 536870912 then ifail (Plain ''bundle is too large when extracted'')
             else
               ithen (MkdirAll (butlast target)) (\<lambda>_.
               ithen (writeMember target (if (mb_mode m div 64) mod 2 \<noteq> 0 then 448 else 384) m) (\<lambda>_.
               iret (wrap64 (extracted + mb_size m))))
         | _ \<Rightarrow> ifail (Plain ''unsupported bundle entry'')))"

fun bundleLoop :: "fpath \<Rightarrow> nat \<Rightarrow> int \<Rightarrow> member list \<Rightarrow> goerr option \<Rightarrow> unit io" where
  "bundleLoop dir entries extracted [] e = ending e"
| "bundleLoop dir entries extracted (m # ms) e =
     (if entries + 1 > 10000 then ifail (Plain ''bundle has too many entries'')
      else ithen (bundleMember dir extracted m) (\<lambda>extracted'. bundleLoop dir (entries + 1) extracted' ms e))"

definition extractBundle :: "decoder \<Rightarrow> bytes \<Rightarrow> fpath \<Rightarrow> unit io" where
  "extractBundle decode archive dir =
     (case decode archive of
        Inl e \<Rightarrow> ifail e
      | Inr (ms, e) \<Rightarrow> bundleLoop dir 0 0 ms e)"

text \<open>
  \<open>unpackSource\<close>: \<open>fetch\<close> is \<open>OpenBundle\<close>, with what its reader gives and the error at which it
  stops, if any.
\<close>

definition maxSourceSize :: nat where "maxSourceSize = 67108864"

definition unpackSource :: "decoder \<Rightarrow> (bytes \<Rightarrow> goerr + (bytes \<times> goerr option)) option \<Rightarrow> string \<Rightarrow> fpath \<Rightarrow> unit io" where
  "unpackSource decode fetch uri dir =
     (case ParseURI uri of
        Inl _ \<Rightarrow> ifail (Plain ''invalid source bundle URI'')
      | Inr (digest, mime) \<Rightarrow>
          if mime \<noteq> archiveMIME \<or> uri \<noteq> sourceURI digest then ifail (Plain ''invalid source bundle URI'')
          else
            (case fetch of
               None \<Rightarrow> ifail (Plain ''source blob store unavailable'')
             | Some open \<Rightarrow>
                 (case open digest of
                    Inl e \<Rightarrow> ifail e
                  | Inr (data, readErr) \<Rightarrow>
                      ithen (extractBundle decode (take (maxSourceSize + 1) data) dir) (\<lambda>_.
                      if length data > maxSourceSize then ifail (Plain ''source bundle exceeds size limit'')
                      else if readErr \<noteq> None then ifail (the readErr)
                      else if sha256 data \<noteq> digest then ifail (Plain ''source bundle checksum mismatch'')
                      else iret ()))))"

subsection \<open>\<open>extractImage\<close>\<close>

text \<open>The loop over the parents of the target, from the deepest, given below \<open>dir\<close>.\<close>

function checkParents :: "fpath \<Rightarrow> fpath \<Rightarrow> unit io" where
  "checkParents dir ps =
     (if ps = [] then iret ()
      else (\<lambda>h.
        case Lstat (dir @ ps) h of
          (Inr (LinkNode _), h1) \<Rightarrow> (Inl (Plain ''image archive traverses symlink''), h1)
        | (Inr _, h1) \<Rightarrow> checkParents dir (butlast ps) h1
        | (Inl e, h1) \<Rightarrow> if e \<noteq> eNotExist then (Inl e, h1) else checkParents dir (butlast ps) h1))"
  by pat_completeness auto
termination by (relation "measure (\<lambda>(d, ps). length ps)") auto

declare checkParents.simps [simp del]

definition unsafeLink :: "string \<Rightarrow> string \<Rightarrow> bool" where
  "unsafeLink name link \<longleftrightarrow>
     (let resolved = pathClean (pathJoin (pathDir name) link) in
      if isAbs link then \<not> hasPrefix (pathClean link) ''/nix/store/'' \<and> \<not> hasPrefix (pathClean link) ''/usr/''
      else resolved \<noteq> venv \<and> \<not> hasPrefix resolved (venv @ ''/''))"

definition imageMember :: "fpath \<Rightarrow> nat \<Rightarrow> int \<Rightarrow> member \<Rightarrow> int io" where
  "imageMember dir entries written m =
     (let name = trimSuffix (mb_name m) ''/'' in
      if entries > 100000 \<or> isAbs name \<or> pathClean name \<noteq> name \<or>
         name \<noteq> venv \<and> \<not> hasPrefix name (venv @ ''/'') \<or> CHR 0x5C \<in> set name
      then ifail (Plain ''unsafe image archive path'')
      else
        (let target = joinPath dir name in
         ithen (checkParents dir (drop (length dir) (butlast target))) (\<lambda>_.
         ithen (MkdirAll (butlast target)) (\<lambda>_.
         case mb_type m of
           MDir \<Rightarrow> ithen (MkdirAll target) (\<lambda>_. iret written)
         | MReg \<Rightarrow>
             if mb_size m < 0 \<or> wrap64 (written + mb_size m) > 2147483648 then ifail (Plain ''image archive exceeds limit'')
             else ithen (writeMember target (mb_mode m mod 512) m) (\<lambda>_. iret (wrap64 (written + mb_size m)))
         | MLink \<Rightarrow>
             if unsafeLink name (mb_link m) then ifail (Plain ''unsafe image symlink'')
             else ithen (create target (LinkNode (mb_link m))) (\<lambda>_. iret written)
         | MOther \<Rightarrow> ifail (Plain ''unsupported image archive entry'')))))"

fun imageLoop :: "fpath \<Rightarrow> nat \<Rightarrow> int \<Rightarrow> member list \<Rightarrow> goerr option \<Rightarrow> unit io" where
  "imageLoop dir entries written [] e = ending e"
| "imageLoop dir entries written (m # ms) e =
     ithen (imageMember dir (entries + 1) written m) (\<lambda>written'. imageLoop dir (entries + 1) written' ms e)"

definition extractImage :: "decoder \<Rightarrow> bytes \<Rightarrow> fpath \<Rightarrow> unit io" where
  "extractImage decode archive dir =
     (case decode archive of
        Inl e \<Rightarrow> ifail e
      | Inr (ms, e) \<Rightarrow> imageLoop dir 0 0 ms e)"

text \<open>Lines 204 to 213 of \<open>LocalExecutor.Run\<close>, in the directory that \<open>MkdirTemp\<close> made.\<close>

definition unpackImage :: "decoder \<Rightarrow> bytes \<Rightarrow> string \<Rightarrow> fpath \<Rightarrow> unit io" where
  "unpackImage decode archive workdir dir =
     ithen (MkdirAll (joinPath dir workdir)) (\<lambda>_. extractImage decode archive (joinPath dir workdir))"

definition prepareWorkdir :: "decoder \<Rightarrow> (bytes \<Rightarrow> goerr + (bytes \<times> goerr option)) option \<Rightarrow> bytes \<Rightarrow> string \<Rightarrow> string \<Rightarrow> fpath \<Rightarrow>
    unit io" where
  "prepareWorkdir decode fetch archive workdir source dir =
     ithen (unpackImage decode archive workdir dir) (\<lambda>_.
     unpackSource decode fetch source (joinPath dir workdir))"

end
