(* ===== verification/Local_Executor.thy ===== *)
theory Local_Executor
  imports Run_Driver Extract
begin

section \<open>Building an image and starting a task\<close>

text \<open>
  \<open>LocalExecutor\<close> of \<open>internal/lutra/executor.go\<close>: \<open>Build\<close>, \<open>Run\<close>, \<open>archiveImage\<close>, the arguments of
  the sandbox, and what \<open>localJob.Wait\<close> and \<open>Kill\<close> do with the task's directory. What the code
  calls outside the repository is the record \<open>platform\<close>: the lookup of programs, running and
  starting a command, the names of temporary files, JSON, and the order in which Go visits a
  map. A command that runs may change the files.
\<close>

record command =
  cm_program :: string
  cm_args :: "string list"
  cm_env :: "string list"

record platform =
  pf_path :: string \<comment> \<open>the variable \<open>PATH\<close>\<close>
  pf_look :: "string \<Rightarrow> goerr + string"
  pf_eval :: "string \<Rightarrow> goerr + string"
  pf_run :: "command \<Rightarrow> (fpath \<rightharpoonup> fnode) \<Rightarrow> goerr option \<times> (fpath \<rightharpoonup> fnode)"
  pf_start :: "command \<Rightarrow> goerr option"
  pf_pick :: "string \<Rightarrow> (fpath \<rightharpoonup> fnode) \<Rightarrow> fpath"
  pf_removes :: "fpath \<Rightarrow> (fpath \<rightharpoonup> fnode) \<Rightarrow> bool" \<comment> \<open>whether a removal succeeds\<close>
  pf_json :: "envID option list \<Rightarrow> goerr + string"
  pf_visit :: "(string \<times> string) list \<Rightarrow> (string \<times> string) list"
  pf_decode :: decoder

type_synonym bundles = "(bytes \<Rightarrow> goerr + (bytes \<times> goerr option)) option"

subsection \<open>Calls of the platform\<close>

definition ilift :: "goerr + 'a \<Rightarrow> 'a io" where
  "ilift r h = (r, h)"

definition wrapping :: "string \<Rightarrow> 'a io \<Rightarrow> 'a io" where
  "wrapping text m h =
     (case m h of (Inl e, h') \<Rightarrow> (Inl (Plain (text @ '': '' @ errText e)), h') | (Inr x, h') \<Rightarrow> (Inr x, h'))"

text \<open>\<open>os.MkdirTemp\<close> and \<open>os.CreateTemp\<close>, at the name that was free.\<close>

definition makeTemp :: "platform \<Rightarrow> string \<Rightarrow> fnode \<Rightarrow> fpath io" where
  "makeTemp pl pattern n = syscall (\<lambda>m.
     (case createAt (pf_pick pl pattern m) n m of
        (Inl e, m') \<Rightarrow> (Inl e, m')
      | (Inr _, m') \<Rightarrow> (Inr (pf_pick pl pattern m), m')))"

text \<open>\<open>os.RemoveAll\<close>, and \<open>os.Remove\<close>, whose errors the code ignores.\<close>

definition RemoveAll :: "platform \<Rightarrow> fpath \<Rightarrow> host \<Rightarrow> host" where
  "RemoveAll pl p h =
     (if pf_removes pl p (files h) then h\<lparr>files := (\<lambda>q. if prefix p q then None else files h q)\<rparr> else h)"

definition Remove :: "platform \<Rightarrow> fpath \<Rightarrow> host \<Rightarrow> host" where
  "Remove pl p h =
     (if pf_removes pl p (files h) \<and> (files h p = Some DirNode \<longrightarrow> (\<forall>c. files h (p @ [c]) = None))
      then h\<lparr>files := (files h)(p := None)\<rparr> else h)"

definition runProgram :: "platform \<Rightarrow> command \<Rightarrow> unit io" where
  "runProgram pl c h =
     (case pf_run pl c (files h) of
        (None, m) \<Rightarrow> (Inr (), h\<lparr>files := m\<rparr>)
      | (Some e, m) \<Rightarrow> (Inl e, h\<lparr>files := m\<rparr>))"

definition readFile :: "fpath \<Rightarrow> bytes io" where
  "readFile p = syscall (\<lambda>m.
     (case nodeAt True p m of
        Inl e \<Rightarrow> Inl e
      | Inr (FileNode bs mode) \<Rightarrow> Inr bs
      | Inr _ \<Rightarrow> Inl (Plain ''is a directory''), m))"

subsection \<open>The sandbox\<close>

fun pathText :: "fpath \<Rightarrow> string" where
  "pathText [] = ''/''"
| "pathText [c] = CHR ''/'' # c"
| "pathText (c # cs) = CHR ''/'' # c @ pathText cs"

definition setenv :: "string \<Rightarrow> string \<Rightarrow> string list" where
  "setenv name val = [''--setenv'', name, val]"

definition sandboxArgs :: "platform \<Rightarrow> fpath \<Rightarrow> string \<Rightarrow> string list" where
  "sandboxArgs pl dir workdir =
     [''--die-with-parent'', ''--new-session'', ''--unshare-pid'', ''--clearenv'',
      ''--ro-bind-try'', ''/nix/store'', ''/nix/store'', ''--ro-bind'', ''/usr'', ''/usr'',
      ''--ro-bind-try'', ''/etc/ssl'', ''/etc/ssl'', ''--ro-bind-try'', ''/etc/static/ssl'', ''/etc/static/ssl'',
      ''--ro-bind-try'', ''/etc/resolv.conf'', ''/etc/resolv.conf'', ''--ro-bind-try'', ''/etc/hosts'', ''/etc/hosts'',
      ''--ro-bind-try'', ''/etc/nsswitch.conf'', ''/etc/nsswitch.conf'', ''--ro-bind-try'', ''/etc/passwd'', ''/etc/passwd'',
      ''--ro-bind-try'', ''/etc/group'', ''/etc/group'',
      ''--ro-bind-try'', ''/bin'', ''/bin'', ''--ro-bind-try'', ''/lib'', ''/lib'', ''--ro-bind-try'', ''/lib64'', ''/lib64'',
      ''--tmpfs'', ''/tmp'',
      ''--bind'', pathText dir, ''/workspace'', ''--dev'', ''/dev'', ''--proc'', ''/proc''] @
     setenv ''PATH'' (pf_path pl) @ setenv ''HOME'' workdir @ setenv ''UV_CACHE_DIR'' ''/workspace/.uv-cache'' @
     [''--chdir'', workdir]"

definition sandboxed :: "platform \<Rightarrow> string \<Rightarrow> fpath \<Rightarrow> string \<Rightarrow> string list \<Rightarrow> string list \<Rightarrow> command" where
  "sandboxed pl bwrap dir workdir options args =
     \<lparr>cm_program = bwrap, cm_args = sandboxArgs pl dir workdir @ options @ ''--'' # args,
      cm_env = [''PATH='' @ pf_path pl]\<rparr>"

definition imWorkdir :: "envExecution \<Rightarrow> string" where
  "imWorkdir t = (case es_image (ex_spec t) of None \<Rightarrow> [] | Some im \<Rightarrow> im_workdir im)"

definition sandboxWorkdir :: "envExecution \<Rightarrow> string" where
  "sandboxWorkdir t = pathJoin ''/workspace'' (imWorkdir t)"

subsection \<open>\<open>Build\<close>\<close>

definition archiveLimit :: nat where "archiveLimit = 2147483648"

definition archiveArgs :: "fpath \<Rightarrow> fpath \<Rightarrow> string list" where
  "archiveArgs dir path =
     [''run'', ''--no-sync'', ''--package'', ''lutra'', ''python'', ''-m'', ''lutra.archive'', ''create'',
      ''--prefix'', ''.venv'', pathText (dir @ [venv]), pathText path]"

definition archiveImage :: "platform \<Rightarrow> fpath \<Rightarrow> bytes io" where
  "archiveImage pl dir =
     ithen (makeTemp pl ''lutra-image-*.tar.zst'' (FileNode [] 384)) (\<lambda>path h.
     case (ithen (syscall (\<lambda>m. (Inr (), m))) (\<lambda>_.
           ithen (wrapping ''archive image'' (runProgram pl
              \<lparr>cm_program = ''uv'', cm_args = archiveArgs dir path, cm_env = []\<rparr>)) (\<lambda>_.
           ithen (readFile path) (\<lambda>bs.
           if length (take (archiveLimit + 1) bs) > archiveLimit
           then ifail (Plain ''image archive exceeds limit'')
           else iret (take (archiveLimit + 1) bs))))) h of
       (r, h') \<Rightarrow> (r, Remove pl path h'))"

definition buildArgs :: "envExecution \<Rightarrow> string list" where
  "buildArgs t =
     (case es_image (ex_spec t) of
        None \<Rightarrow> []
      | Some im \<Rightarrow> (case im_command im of None \<Rightarrow> [] | Some args \<Rightarrow> args))"

definition buildContext :: "envExecution \<Rightarrow> string" where
  "buildContext t = (case es_image (ex_spec t) of None \<Rightarrow> [] | Some im \<Rightarrow> im_context im)"

text \<open>What \<open>Build\<close> does in its directory, which is removed in the end.\<close>

definition buildIn :: "platform \<Rightarrow> (bytes \<Rightarrow> goerr + string) option \<Rightarrow> bundles \<Rightarrow> envExecution \<Rightarrow> fpath \<Rightarrow> string io" where
  "buildIn pl store fetch t dir =
     (let hostWorkdir = joinPath dir (imWorkdir t) in
      ithen (MkdirAll hostWorkdir) (\<lambda>_.
      ithen (unpackSource (pf_decode pl) fetch (buildContext t) hostWorkdir) (\<lambda>_.
      ithen (ilift (pf_look pl ''python3'')) (\<lambda>python.
      ithen (ilift (pf_eval pl python)) (\<lambda>python.
      ithen (ilift (pf_look pl ''bwrap'')) (\<lambda>bwrap.
      ithen (wrapping ''build uv environment'' (runProgram pl (sandboxed pl bwrap dir (sandboxWorkdir t)
           (setenv ''UV_PROJECT_ENVIRONMENT'' (sandboxWorkdir t @ ''/.venv'') @ setenv ''UV_PYTHON'' python)
           (buildArgs t)))) (\<lambda>_.
      ithen (archiveImage pl hostWorkdir) (\<lambda>archive.
      case store of
        None \<Rightarrow> ifail (Plain ''image artifact store unavailable'')
      | Some st \<Rightarrow> ilift (st archive)))))))))"

definition Build :: "platform \<Rightarrow> (bytes \<Rightarrow> goerr + string) option \<Rightarrow> bundles \<Rightarrow> envExecution option \<Rightarrow> string io" where
  "Build pl store fetch task =
     (case task of
        None \<Rightarrow> ifail (Plain ''environment is required'')
      | Some t \<Rightarrow>
          ithen (makeTemp pl ''lutra-build-'' DirNode) (\<lambda>dir h.
          case buildIn pl store fetch t dir h of (r, h') \<Rightarrow> (r, RemoveAll pl dir h')))"

subsection \<open>\<open>Run\<close>\<close>

text \<open>The variables of a task, in the order in which they are written down.\<close>

definition taskValues :: "envExecution \<Rightarrow> string \<Rightarrow> (string \<times> string) list" where
  "taskValues t json =
     [(''LUTRA_TASK_NAMESPACE'', id_ns (ex_env t)), (''LUTRA_TASK_VERSION'', id_version (ex_env t)),
      (''LUTRA_ENVIRONMENT_NAME'', id_name (ex_env t)), (''LUTRA_ENVIRONMENTS_JSON'', json),
      (''LUTRA_ATTEMPT'', (if ex_attempt t < 0 then ''-'' else []) @ decimalText (nat \<bar>ex_attempt t\<bar>)),
      (''LUTRA_TASK_RUN_ID'', ex_run t), (''LUTRA_TASK_ACTION_ID'', ex_action t),
      (''PYTHONPATH'', sandboxWorkdir t @ '':'' @ sandboxWorkdir t @ ''/src:'' @ sandboxWorkdir t @ ''/sdk/src'')]"

definition imageEnv :: "envExecution \<Rightarrow> (string \<times> string) list" where
  "imageEnv t = (case es_image (ex_spec t) of None \<Rightarrow> [] | Some im \<Rightarrow> sort_key fst (im_env im))"

definition taskOptions :: "platform \<Rightarrow> envExecution \<Rightarrow> string \<Rightarrow> string list" where
  "taskOptions pl t json =
     concat (map (\<lambda>(k, v). setenv k v) (imageEnv t)) @
     concat (map (\<lambda>(k, v). setenv k v) (pf_visit pl (taskValues t json)))"

definition syncCheck :: "string list" where
  "syncCheck = [''uv'', ''sync'', ''--check'', ''--offline'', ''--locked'', ''--no-dev'', ''--no-install-workspace'', ''--inexact'']"

text \<open>The command of the entrypoint; one without a command is a nil pointer.\<close>

definition startup :: "envExecution \<Rightarrow> goerr + string list" where
  "startup t =
     (case es_entries (ex_spec t) ! nat (ex_entry t - 1) of
        None \<Rightarrow> Inl nilPanic
      | Some en \<Rightarrow> (case en_command en of None \<Rightarrow> Inl nilPanic | Some args \<Rightarrow> Inr args))"

record localJob =
  jb_task :: envExecution
  jb_dir :: fpath
  jb_command :: command

definition runIn :: "platform \<Rightarrow> bundles \<Rightarrow> bytes \<Rightarrow> envExecution \<Rightarrow> fpath \<Rightarrow> localJob io" where
  "runIn pl fetch archive t dir =
     (let hostWorkdir = joinPath dir (imWorkdir t); workdir = sandboxWorkdir t in
      ithen (prepareWorkdir (pf_decode pl) fetch archive (imWorkdir t) (es_source (ex_spec t)) dir) (\<lambda>_.
      ithen (ilift (pf_json pl (ex_envs t))) (\<lambda>json.
      ithen (wrapping ''image python unavailable'' (Stat (hostWorkdir @ [venv, ''bin'', ''python'']))) (\<lambda>_.
      ithen (ilift (pf_look pl ''bwrap'')) (\<lambda>bwrap.
      ithen (wrapping ''check uv environment'' (runProgram pl (sandboxed pl bwrap dir workdir [] syncCheck))) (\<lambda>_.
      ithen (ilift (startup t)) (\<lambda>args.
      let c = sandboxed pl bwrap dir workdir (taskOptions pl t json) args in
      case pf_start pl c of
        Some e \<Rightarrow> ifail e
      | None \<Rightarrow> iret \<lparr>jb_task = t, jb_dir = dir, jb_command = c\<rparr>)))))))"

definition Run :: "platform \<Rightarrow> (string \<Rightarrow> goerr + bytes) option \<Rightarrow> bundles \<Rightarrow> string option \<Rightarrow> envExecution \<Rightarrow> localJob io" where
  "Run pl load fetch uri t =
     (case startGuards uri t of
        Some e \<Rightarrow> ifail e
      | None \<Rightarrow>
          (case load of
             None \<Rightarrow> ifail (Plain ''image artifact store unavailable'')
           | Some ld \<Rightarrow>
               ithen (ilift (ld (the uri))) (\<lambda>archive.
               ithen (makeTemp pl ''lutra-run-'' DirNode) (\<lambda>dir h.
               case runIn pl fetch archive t dir h of
                 (Inr job, h') \<Rightarrow> (Inr job, h')
               | (Inl e, h') \<Rightarrow> (Inl e, RemoveAll pl dir h')))))"

text \<open>\<open>Wait\<close>: the deferred \<open>stop\<close> ends the command, and the directory goes on every path.\<close>

definition Wait :: "platform \<Rightarrow> (bytes \<Rightarrow> bool) \<Rightarrow> (string \<Rightarrow> bytes option \<Rightarrow> goerr + bytes) \<Rightarrow> localJob \<Rightarrow>
    goerr + executeResponse \<Rightarrow> goerr option \<Rightarrow> host \<Rightarrow> (bytes option \<times> goerr option) \<times> host" where
  "Wait pl unmarshals marshal job answer closeErr h =
     (jobWait unmarshals marshal answer closeErr, RemoveAll pl (jb_dir job) h)"

subsection \<open>\<open>executeEnvironment\<close>\<close>

text \<open>
  \<open>executeEnvironment\<close> of \<open>worker.go\<close>: \<open>course\<close> is what happens between the start of the job's
  process and its end, with what \<open>Execute\<close> answered and \<open>Close\<close> returned. The final \<open>Kill\<close> only
  calls \<open>stop\<close> again.
\<close>

type_synonym course = "localJob \<Rightarrow> host \<Rightarrow> ((goerr + executeResponse) \<times> goerr option) \<times> host"

definition executeEnvironment :: "platform \<Rightarrow> (string \<Rightarrow> goerr + bytes) option \<Rightarrow> bundles \<Rightarrow> (bytes \<Rightarrow> bool) \<Rightarrow>
    (string \<Rightarrow> bytes option \<Rightarrow> goerr + bytes) \<Rightarrow> course \<Rightarrow> string option \<Rightarrow> envExecution \<Rightarrow> host \<Rightarrow>
    (bytes option \<times> goerr option) \<times> host" where
  "executeEnvironment pl load fetch unmarshals marshal course uri t h =
     (case executorFor (ex_provider t) of
        Some e \<Rightarrow> ((None, Some e), h)
      | None \<Rightarrow>
          (case Run pl load fetch uri t h of
             (Inl e, h1) \<Rightarrow> ((None, Some e), h1)
           | (Inr job, h1) \<Rightarrow>
               (case course job h1 of
                  ((answer, closeErr), h2) \<Rightarrow> Wait pl unmarshals marshal job answer closeErr h2)))"

end
