(* ===== verification/Extract_Properties.thy ===== *)
theory Extract_Properties
  imports Extract Environment_Properties
begin

section \<open>Unpacking stays inside\<close>

text \<open>
  Whatever an archive holds, unpacking it creates and writes only below the task's directory,
  and a source bundle leaves the image in \<open>.venv\<close> alone, although the image has links.
\<close>

subsection \<open>Clean names\<close>

lemma splitAt_parts: "p \<in> set (splitAt c s) \<Longrightarrow> c \<notin> set p"
  by (induction s arbitrary: p) (auto split: list.splits if_splits)

lemma splitAt_Nil: "splitAt c s \<noteq> []"
  by (induction s) (auto split: list.splits)

lemma joinWith_Cons: "joinWith c ((x # p) # ps) = x # joinWith c (p # ps)"
  by (cases ps) simp_all

lemma join_split: "joinWith c (splitAt c s) = s"
proof (induction s)
  case (Cons x s)
  obtain p ps where "splitAt c s = p # ps" using splitAt_Nil [of c s] by (cases "splitAt c s") auto
  with Cons show ?case by (simp add: joinWith_Cons)
qed simp

lemma splitAt_cons: "c \<notin> set p \<Longrightarrow> splitAt c (p @ c # s) = p # splitAt c s"
  by (induction p) auto

lemma splitAt_one: "c \<notin> set p \<Longrightarrow> splitAt c p = [p]"
  by (induction p) auto

lemma split_join: "qs \<noteq> [] \<Longrightarrow> \<forall>p\<in>set qs. c \<notin> set p \<Longrightarrow> splitAt c (joinWith c qs) = qs"
  by (induction c qs rule: joinWith.induct) (auto simp: splitAt_cons splitAt_one)

definition upThenPlain :: "string list \<Rightarrow> bool" where
  "upThenPlain out \<longleftrightarrow> (\<exists>xs k. out = xs @ replicate k ''..'' \<and> list_all plain xs)"

lemma cleanParts_form: "upThenPlain out \<Longrightarrow> upThenPlain (cleanParts False out ps)"
proof (induction "False" out ps rule: cleanParts.induct)
  case (2 out p ps)
  from 2(6) obtain xs k where out: "out = xs @ replicate k ''..''" "list_all plain xs" unfolding upThenPlain_def by blast
  show ?case
  proof (cases "p = [] \<or> p = ''.''")
    case True
    with 2 show ?thesis by simp
  next
    case False
    note n = this
    show ?thesis
    proof (cases "p = ''..''")
      case False
      have "upThenPlain (p # out)"
        unfolding upThenPlain_def using out n False by (intro exI [of _ "p # xs"] exI [of _ k]) (simp add: plain_def)
      with 2 n False show ?thesis by simp
    next
      case True
      show ?thesis
      proof (cases xs)
        case Nil
        have "upThenPlain (replicate (Suc k) ''..'')" unfolding upThenPlain_def by (intro exI [of _ "[]"] exI [of _ "Suc k"]) simp
        moreover have "out = replicate k ''..''" using out Nil by simp
        ultimately show ?thesis using 2 n True by (cases k) auto
      next
        case (Cons q qs)
        have "upThenPlain (qs @ replicate k ''..'')" unfolding upThenPlain_def using out Cons by auto
        with 2 n True out Cons show ?thesis by (auto simp: plain_def)
      qed
    qed
  qed
qed simp

lemma cleanParts_set: "set (cleanParts r out ps) \<subseteq> set out \<union> set ps \<union> {''..''}"
  by (induction r out ps rule: cleanParts.induct) (auto split: list.splits if_splits)

lemma name_plain:
  assumes "pathClean s = s" "\<not> isAbs s" "s \<noteq> ''..''" "\<not> hasPrefix s ''../''" "s \<noteq> ''.''"
  shows "list_all plain (splitAt (CHR ''/'') s)"
proof -
  let ?out = "cleanParts False [] (splitAt (CHR ''/'') s)"
  from assms(1,2,5) have s: "s = joinWith (CHR ''/'') (rev ?out)" "?out \<noteq> []"
    by (auto simp: pathClean_def Let_def split: if_splits)
  have "upThenPlain []" unfolding upThenPlain_def by (intro exI [of _ "[]"] exI [of _ 0]) simp
  from cleanParts_form [OF this, of "splitAt (CHR ''/'') s"] obtain xs k where out: "?out = xs @ replicate k ''..''" "list_all plain xs"
    unfolding upThenPlain_def by blast
  have "k = 0"
  proof (rule ccontr)
    assume "k \<noteq> 0"
    then obtain j where "k = Suc j" by (cases k) auto
    with out(1) have r: "rev ?out = ''..'' # (replicate j ''..'' @ rev xs)" by (simp add: replicate_append_same)
    show False
    proof (cases "replicate j ''..'' @ rev xs")
      case Nil
      with s(1) r have "s = ''..''" by simp
      with assms(3) show False by simp
    next
      case (Cons a b)
      with s(1) r have "s = ''../'' @ joinWith (CHR ''/'') (a # b)" by simp
      with assms(4) show False unfolding hasPrefix_iff by blast
    qed
  qed
  moreover have "CHR ''/'' \<notin> set p" if "p \<in> set ?out" for p
    using that cleanParts_set [of False "[]" "splitAt (CHR ''/'') s"] splitAt_parts [of p "CHR ''/''" s] by auto
  then have "splitAt (CHR ''/'') (joinWith (CHR ''/'') (rev ?out)) = rev ?out" using s(2) by (intro split_join) auto
  then have "splitAt (CHR ''/'') s = rev ?out" using s(1) by simp
  ultimately show ?thesis using out by simp
qed

lemma joinPath_plain: "list_all plain (splitAt (CHR ''/'') name) \<Longrightarrow> joinPath dir name = dir @ splitAt (CHR ''/'') name"
proof -
  have "list_all plain ps \<Longrightarrow> cleanParts True out ps = rev ps @ out" for out ps
    by (induction ps arbitrary: out) (auto simp: plain_def)
  then show "list_all plain (splitAt (CHR ''/'') name) \<Longrightarrow> joinPath dir name = dir @ splitAt (CHR ''/'') name"
    by (simp add: joinPath_def)
qed

subsection \<open>The way to a member\<close>

text \<open>\<open>dir\<close> is a directory and no component between it and the target is a link.\<close>

definition way :: "(fpath \<rightharpoonup> fnode) \<Rightarrow> fpath \<Rightarrow> string list \<Rightarrow> bool" where
  "way m dir ps \<longleftrightarrow> treeOK m \<and> m dir = Some DirNode \<and> list_all plain (dir @ ps) \<and> noLinks m [] (dir @ ps)"

definition onWay :: "fpath \<Rightarrow> string list \<Rightarrow> fpath \<Rightarrow> fnode option \<Rightarrow> bool" where
  "onWay dir ps q n \<longleftrightarrow> strict_prefix dir q \<and> prefix q (dir @ ps) \<and> \<not> isLink n"

lemma wayI:
  assumes "treeOK m" "m dir = Some DirNode" "list_all plain (dir @ ps)"
    and "\<And>k. 0 < k \<Longrightarrow> k < length ps \<Longrightarrow> \<not> isLink (m (dir @ take k ps))"
  shows "way m dir ps"
  unfolding way_def noLinks_def
proof (intro conjI allI impI assms(1-3))
  fix k
  assume k: "0 < k" "k < length (dir @ ps)"
  show "\<not> isLink (m ([] @ take k (dir @ ps)))"
  proof (cases "k \<le> length dir")
    case True
    then have "m (take k dir) = Some DirNode"
      using treeOK_above [OF assms(1), of "take k dir" "drop k dir"] assms(2) by (cases "k = length dir") auto
    with True show ?thesis by (simp add: isLink_def)
  next
    case False
    with assms(4) [of "k - length dir"] k show ?thesis by simp
  qed
qed

lemma way_changed:
  assumes "way m dir ps" and c: "changed P m m'" and n: "\<And>q n. P q n \<Longrightarrow> \<not> isLink n"
  shows "way m' dir ps"
proof -
  have "treeOK m'" using c by (simp add: changed_def)
  moreover have "m' dir = Some DirNode" using changed_dir [OF c] assms(1) by (simp add: way_def)
  moreover have "noLinks m' [] (dir @ ps)"
    by (rule noLinks_changed [OF _ c n]) (use assms(1) in \<open>simp add: way_def\<close>)
  ultimately show ?thesis using assms(1) by (simp add: way_def)
qed

lemma noLinks_prefix:
  assumes "noLinks m [] p" and "prefix q p"
  shows "noLinks m [] q"
  unfolding noLinks_def
proof (intro allI impI)
  fix k
  assume k: "0 < k" "k < length q"
  from assms(2) obtain zs where "p = q @ zs" by (rule prefixE)
  with k have "take k p = take k q" "k < length p" by simp_all
  with k(1) assms(1) show "\<not> isLink (m ([] @ take k q))" unfolding noLinks_def by metis
qed

lemma MkdirAll_way:
  assumes "way (files h) dir ps" and "prefix p (dir @ ps)" and "MkdirAll p h = (r, h')"
  shows "changed (onWay dir ps) (files h) (files h')"
proof -
  have t: "treeOK (files h)" "files h dir = Some DirNode" using assms(1) by (simp_all add: way_def)
  from assms(2) obtain zs where "dir @ ps = p @ zs" by (rule prefixE)
  with assms(1) have "list_all plain (p @ zs)" by (simp only: way_def)
  then have "list_all plain p" by simp
  moreover have "noLinks (files h) [] p" using assms(1,2) noLinks_prefix by (auto simp: way_def)
  ultimately have "changed (\<lambda>q x. prefix q p \<and> q \<noteq> [] \<and> x = Some DirNode) (files h) (files h')"
    by (rule MkdirAll_changed [OF _ _ t(1) assms(3)])
  then show ?thesis
    by (rule changed_mono)
      (use assms(2) new_below [OF t] in \<open>auto simp: onWay_def isLink_def intro: prefix_order.trans\<close>)
qed

lemma create_way:
  assumes "way (files h) dir ps" and "create (dir @ ps) n h = (r, h')"
  shows "changed (\<lambda>q x. strict_prefix dir q \<and> q = dir @ ps \<and> x = Some n) (files h) (files h') \<and>
    (\<forall>q. r = Inr q \<longrightarrow> q = dir @ ps \<and> files h' q = Some n)"
proof -
  have t: "treeOK (files h)" "files h dir = Some DirNode" using assms(1) by (simp_all add: way_def)
  have "changed (\<lambda>q x. q = dir @ ps \<and> q \<noteq> [] \<and> x = Some n) (files h) (files h') \<and>
    (\<forall>q. r = Inr q \<longrightarrow> q = dir @ ps \<and> files h' (dir @ ps) = Some n)"
    by (rule create_changed [OF _ _ t(1) assms(2)]) (use assms(1) in \<open>simp_all add: way_def\<close>)
  then show ?thesis
    using new_below [OF t prefix_order.refl] by (auto elim!: changed_mono)
qed

lemma treeOK_file:
  assumes t: "treeOK m" and q: "m q = Some (FileNode a x)"
  shows "treeOK (m(q \<mapsto> FileNode b y))"
  unfolding treeOK_def
proof (intro conjI allI impI)
  show "(m(q \<mapsto> FileNode b y)) [] = Some DirNode" using assms by (auto simp: treeOK_def)
  fix p c
  assume "(m(q \<mapsto> FileNode b y)) (p @ [c]) \<noteq> None"
  with q have "m (p @ [c]) \<noteq> None" by (auto split: if_splits)
  with t have "m p = Some DirNode" unfolding treeOK_def by blast
  with q show "(m(q \<mapsto> FileNode b y)) p = Some DirNode" by auto
qed

lemma writeMember_way:
  assumes w: "way (files h) dir ps" and "writeMember (dir @ ps) mode m h = (r, h')"
  shows "changed (onWay dir ps) (files h) (files h')"
proof -
  let ?P = "\<lambda>q x. strict_prefix dir q \<and> q = dir @ ps \<and> isFile x"
  obtain r1 h1 where c: "create (dir @ ps) (FileNode [] mode) h = (r1, h1)" by (rule prod.exhaust)
  note cw = create_way [OF w c]
  have ch: "changed ?P (files h) (files h1)" by (rule changed_mono [OF conjunct1 [OF cw]]) (auto simp: isFile_def)
  have "changed ?P (files h) (files h')"
  proof (cases r1)
    case (Inl e)
    with assms(2) c ch show ?thesis by (auto simp: writeMember_def ithen_def)
  next
    case (Inr q)
    with cw have q: "q = dir @ ps" "files h1 q = Some (FileNode [] mode)" by auto
    have "files h q \<noteq> files h1 q"
      using c Inr unfolding create_def syscall_def createAt_def
      by (auto split: option.splits sum.splits prod.splits)
    then have P: "strict_prefix dir q" using cw q(1) by (auto simp: changed_def)
    obtain r2 h2 where wr: "writeFile q (take (nat (mb_size m)) (mb_data m)) h1 = (r2, h2)" by (rule prod.exhaust)
    have "files h' = files h2"
      using assms(2) c Inr wr by (auto simp: writeMember_def ithen_def ifail_def iret_def split: sum.splits if_splits)
    moreover have "files h2 = files h1 \<or> files h2 = (files h1)(q \<mapsto> FileNode (take (nat (mb_size m)) (mb_data m)) mode)"
      using wr q(2) by (auto simp: writeFile_def syscall_def split: option.splits)
    moreover have "changed ?P (files h1) ((files h1)(q \<mapsto> FileNode b mode))" for b
    proof -
      have t: "treeOK (files h1)" using ch by (simp add: changed_def)
      then have "treeOK ((files h1)(q \<mapsto> FileNode b mode))"
        using q(2) by (rule treeOK_file)
      then show ?thesis using P q by (auto simp: changed_def isFile_def)
    qed
    moreover have "changed ?P (files h1) (files h1)" using ch by (simp add: changed_def)
    ultimately have "changed ?P (files h1) (files h')" by (elim disjE) simp_all
    with ch show ?thesis by (rule changed_trans)
  qed
  then show ?thesis by (rule changed_mono) (auto simp: onWay_def isFile_def isLink_def)
qed


subsection \<open>The source bundle\<close>

text \<open>Links are only in the image; a bundle adds none.\<close>

definition imageLinks :: "fpath \<Rightarrow> (fpath \<rightharpoonup> fnode) \<Rightarrow> bool" where
  "imageLinks dir m \<longleftrightarrow> (\<forall>q. isLink (m q) \<longrightarrow> strict_prefix dir q \<longrightarrow> prefix (dir @ [venv]) q)"

definition ready :: "fpath \<Rightarrow> (fpath \<rightharpoonup> fnode) \<Rightarrow> bool" where
  "ready dir m \<longleftrightarrow> treeOK m \<and> m dir = Some DirNode \<and> list_all plain dir \<and> imageLinks dir m"

definition besideImage :: "fpath \<Rightarrow> fpath \<Rightarrow> fnode option \<Rightarrow> bool" where
  "besideImage dir q n \<longleftrightarrow> strict_prefix dir q \<and> \<not> prefix (dir @ [venv]) q \<and> \<not> isLink n"

lemma ready_changed: "ready dir m \<Longrightarrow> changed (besideImage dir) m m' \<Longrightarrow> ready dir m'"
proof -
  assume r: "ready dir m" and c: "changed (besideImage dir) m m'"
  have "isLink (m' q) \<Longrightarrow> isLink (m q)" for q by (rule changed_link [OF c]) (auto simp: besideImage_def)
  then show "ready dir m'"
    using r changed_dir [OF c] c by (auto simp: ready_def imageLinks_def changed_def)
qed

lemma prefix_below:
  assumes "prefix q (dir @ ps)" and "strict_prefix dir q"
  shows "ps \<noteq> []" "prefix (dir @ [x]) q \<longleftrightarrow> hd ps = x"
proof -
  from assms(2) obtain c cs where q: "q = dir @ c # cs" by (auto elim: strict_prefixE')
  with assms(1) show "ps \<noteq> []" "prefix (dir @ [x]) q \<longleftrightarrow> hd ps = x" by (cases ps; auto)+
qed

lemma way_besideImage:
  assumes "ready dir m" and "list_all plain ps" and "ps = [] \<or> hd ps \<noteq> venv"
  shows "way m dir ps" "onWay dir ps q n \<Longrightarrow> besideImage dir q n"
proof -
  have "\<not> isLink (m (dir @ take k ps))" if "0 < k" "k < length ps" for k
  proof
    assume l: "isLink (m (dir @ take k ps))"
    have s: "strict_prefix dir (dir @ take k ps)" "prefix (dir @ take k ps) (dir @ ps)" using that by (auto simp: take_is_prefix strict_prefix_def)
    with l assms(1) have "prefix (dir @ [venv]) (dir @ take k ps)" by (auto simp: ready_def imageLinks_def)
    with prefix_below(2) [OF s(2,1), of venv] assms(3) show False by simp
  qed
  with assms show "way m dir ps" by (intro wayI) (auto simp: ready_def)
  show "onWay dir ps q n \<Longrightarrow> besideImage dir q n"
    using assms(3) prefix_below [of q dir ps] by (auto simp: onWay_def besideImage_def)
qed

lemma bundle_name:
  assumes "\<not> unsafeName name" and "\<not> (name = venv \<or> hasPrefix name (venv @ ''/''))"
  obtains ps where "joinPath dir name = dir @ ps" "list_all plain ps" "ps = [] \<or> hd ps \<noteq> venv"
proof (cases "name = ''.''")
  case True
  with that [of "[]"] show ?thesis by (simp add: joinPath_def)
next
  case False
  let ?ps = "splitAt (CHR ''/'') name"
  have plain: "list_all plain ?ps" using assms(1) False by (intro name_plain) (auto simp: unsafeName_def)
  have "hd ?ps \<noteq> venv"
  proof
    assume h: "hd ?ps = venv"
    obtain p qs where ps: "?ps = p # qs" using splitAt_Nil [of "CHR ''/''" name] by (cases ?ps) auto
    have "name = joinWith (CHR ''/'') (venv # qs)" using join_split [of "CHR ''/''" name] ps h by simp
    then have "name = venv \<or> hasPrefix name (venv @ ''/'')" by (cases qs) (auto simp: hasPrefix_iff)
    with assms(2) show False by blast
  qed
  with plain joinPath_plain [OF plain] that show ?thesis by blast
qed

lemma ithen_changed:
  assumes "ithen m f h = (x, h')" and m: "\<And>y h1. m h = (y, h1) \<Longrightarrow> changed P (files h) (files h1)"
    and f: "\<And>y h1. m h = (Inr y, h1) \<Longrightarrow> f y h1 = (x, h') \<Longrightarrow> changed P (files h1) (files h')"
  shows "changed P (files h) (files h')"
proof -
  obtain y h1 where y: "m h = (y, h1)" by (rule prod.exhaust)
  show ?thesis
  proof (cases y)
    case (Inl e)
    with assms(1) y m show ?thesis by (auto simp: ithen_def)
  next
    case (Inr z)
    with assms(1) y have "f z h1 = (x, h')" by (simp add: ithen_def)
    with f [of z h1] m y Inr changed_trans show ?thesis by metis
  qed
qed

lemma stop_changed: "ifail e h = (x, h') \<Longrightarrow> treeOK (files h) \<Longrightarrow> changed P (files h) (files h')"
  "iret y h = (x', h') \<Longrightarrow> treeOK (files h) \<Longrightarrow> changed P (files h) (files h')"
  by (auto simp: ifail_def iret_def changed_refl)

lemma changed_tree: "changed P m m' \<Longrightarrow> treeOK m'"
  by (simp add: changed_def)

text \<open>What any member does at its target, once the way is free.\<close>

lemma mkdir_member:
  assumes "way (files h) dir ps" and "prefix p (dir @ ps)" and "ithen (MkdirAll p) (\<lambda>_. iret y) h = (x, h')"
  shows "changed (onWay dir ps) (files h) (files h')"
  by (rule ithen_changed [OF assms(3)]) (auto intro: MkdirAll_way [OF assms(1,2)] stop_changed(2) changed_tree)

lemma write_member:
  assumes "way (files h) dir ps" and "ithen (writeMember (dir @ ps) mode m) (\<lambda>_. iret y) h = (x, h')"
  shows "changed (onWay dir ps) (files h) (files h')"
  by (rule ithen_changed [OF assms(2)]) (auto intro: writeMember_way [OF assms(1)] stop_changed(2) changed_tree)

lemma onWay_way: "way m dir ps \<Longrightarrow> changed (onWay dir ps) m m' \<Longrightarrow> way m' dir ps"
  by (erule (1) way_changed) (simp add: onWay_def)

lemma bundleMember_changed:
  assumes r: "ready dir (files h)" and b: "bundleMember dir extracted m h = (x, h')"
  shows "changed (besideImage dir) (files h) (files h')"
proof -
  let ?name = "trimSuffix (mb_name m) ''/''"
  have t: "treeOK (files h)" using r by (simp add: ready_def)
  consider (unsafe) e where "ifail e h = (x, h')"
    | (safe) "\<not> unsafeName ?name" "\<not> (?name = venv \<or> hasPrefix ?name (venv @ ''/''))"
  proof (cases "unsafeName ?name")
    case True
    with b have "ifail (Plain ''unsafe bundle path'') h = (x, h')" by (simp add: bundleMember_def Let_def)
    then show thesis by (rule unsafe)
  next
    case False
    show thesis
    proof (cases "?name = venv \<or> hasPrefix ?name (venv @ ''/'')")
      case True
      with b False have "ifail (Plain ''source bundle cannot replace the built image'') h = (x, h')"
        by (simp add: bundleMember_def Let_def)
      then show thesis by (rule unsafe)
    next
      case safe: False
      with False show thesis by (rule that(2))
    qed
  qed
  then show ?thesis
  proof cases
    case unsafe
    then show ?thesis using t by (rule stop_changed(1))
  next
    case safe
    then obtain ps where ps: "joinPath dir ?name = dir @ ps" "list_all plain ps" "ps = [] \<or> hd ps \<noteq> venv"
      by (rule bundle_name)
    note w = way_besideImage(1) [OF r ps(2,3)] and mono = way_besideImage(2) [OF r ps(2,3)]
    have "changed (onWay dir ps) (files h) (files h')"
    proof (cases "mb_type m")
      case MDir
      with b safe ps have "ithen (MkdirAll (dir @ ps)) (\<lambda>_. iret extracted) h = (x, h')" by (simp add: bundleMember_def Let_def)
      then show ?thesis by (rule mkdir_member [OF w prefix_order.refl])
    next
      case MReg
      let ?mode = "if (mb_mode m div 64) mod 2 \<noteq> 0 then 448 else 384"
      consider (halts) e where "ifail e h = (x, h')"
        | (goes) "ithen (MkdirAll (butlast (dir @ ps))) (\<lambda>_. ithen (writeMember (dir @ ps) ?mode m) (\<lambda>_.
               iret (wrap64 (extracted + mb_size m)))) h = (x, h')"
        using b safe ps MReg by (auto simp: bundleMember_def Let_def split: if_splits)
      then show ?thesis
      proof cases
        case halts
        then show ?thesis using t by (rule stop_changed(1))
      next
        case goes
        have up: "changed (onWay dir ps) (files h) (files h1)" if "MkdirAll (butlast (dir @ ps)) h = (y, h1)" for y h1
          by (rule MkdirAll_way [OF w prefixeq_butlast that])
        from goes show ?thesis
        proof (rule ithen_changed)
          fix y h1
          assume "MkdirAll (butlast (dir @ ps)) h = (y, h1)"
          then show "changed (onWay dir ps) (files h) (files h1)" by (rule up)
        next
          fix y h1
          assume m: "MkdirAll (butlast (dir @ ps)) h = (Inr y, h1)"
            and k: "ithen (writeMember (dir @ ps) ?mode m) (\<lambda>_. iret (wrap64 (extracted + mb_size m))) h1 = (x, h')"
          from onWay_way [OF w up [OF m]] k show "changed (onWay dir ps) (files h1) (files h')" by (rule write_member)
        qed
      qed
    qed (use b safe ps in \<open>auto simp: bundleMember_def Let_def intro: stop_changed(1) [OF _ t]\<close>)
    then show ?thesis by (rule changed_mono) (rule mono)
  qed
qed

lemma bundleLoop_changed:
  "ready dir (files h) \<Longrightarrow> bundleLoop dir entries extracted ms e h = (x, h') \<Longrightarrow> changed (besideImage dir) (files h) (files h')"
proof (induction ms arbitrary: entries extracted h)
  case Nil
  then have "files h' = files h" by (auto simp: ending_def iret_def ifail_def split: option.splits)
  with Nil show ?case by (simp add: ready_def changed_refl)
next
  case (Cons m ms)
  show ?case
  proof (cases "entries + 1 > 10000")
    case True
    with Cons.prems show ?thesis by (auto simp: ready_def intro: stop_changed(1))
  next
    case False
    with Cons.prems(2) have "ithen (bundleMember dir extracted m) (\<lambda>extracted'. bundleLoop dir (entries + 1) extracted' ms e) h = (x, h')"
      by simp
    then show ?thesis
    proof (rule ithen_changed)
      fix y h1
      assume "bundleMember dir extracted m h = (y, h1)"
      with Cons.prems(1) show "changed (besideImage dir) (files h) (files h1)" by (rule bundleMember_changed)
    next
      fix y h1
      assume m: "bundleMember dir extracted m h = (Inr y, h1)" and k: "bundleLoop dir (entries + 1) y ms e h1 = (x, h')"
      from ready_changed [OF Cons.prems(1) bundleMember_changed [OF Cons.prems(1) m]] k
      show "changed (besideImage dir) (files h1) (files h')" by (rule Cons.IH)
    qed
  qed
qed

lemma extractBundle_changed:
  "ready dir (files h) \<Longrightarrow> extractBundle decode archive dir h = (x, h') \<Longrightarrow> changed (besideImage dir) (files h) (files h')"
  unfolding extractBundle_def by (auto split: sum.splits intro: bundleLoop_changed stop_changed(1) simp: ready_def)

lemma unpackSource_cases:
  assumes "unpackSource decode fetch uri dir h = (x, h')"
  obtains (halts) e where "ifail e h = (x, h')"
  | (reads) digest mime rd data readErr where "ParseURI uri = Inr (digest, mime)" "fetch = Some rd"
      "rd digest = Inr (data, readErr)"
      "ithen (extractBundle decode (take (maxSourceSize + 1) data) dir) (\<lambda>_.
         if length data > maxSourceSize then ifail (Plain ''source bundle exceeds size limit'')
         else if readErr \<noteq> None then ifail (the readErr)
         else if sha256 data \<noteq> digest then ifail (Plain ''source bundle checksum mismatch'')
         else iret ()) h = (x, h')"
proof (cases "ParseURI uri")
  case (Inl e)
  with assms show thesis by (intro halts) (simp add: unpackSource_def)
next
  case (Inr p)
  then obtain digest mime where p: "ParseURI uri = Inr (digest, mime)" by (cases p) auto
  show thesis
  proof (cases "mime \<noteq> archiveMIME \<or> uri \<noteq> sourceURI digest")
    case True
    with assms p show thesis by (intro halts) (simp add: unpackSource_def)
  next
    case False
    with assms p have u: "(case fetch of
               None \<Rightarrow> ifail (Plain ''source blob store unavailable'')
             | Some rd \<Rightarrow>
                 (case rd digest of
                    Inl e \<Rightarrow> ifail e
                  | Inr (data, readErr) \<Rightarrow>
                      ithen (extractBundle decode (take (maxSourceSize + 1) data) dir) (\<lambda>_.
                      if length data > maxSourceSize then ifail (Plain ''source bundle exceeds size limit'')
                      else if readErr \<noteq> None then ifail (the readErr)
                      else if sha256 data \<noteq> digest then ifail (Plain ''source bundle checksum mismatch'')
                      else iret ()))) h = (x, h')"
      by (simp add: unpackSource_def)
    show thesis
    proof (cases fetch)
      case None
      with u show thesis by (intro halts) simp
    next
      case (Some rd)
      show thesis
      proof (cases "rd digest")
        case (Inl e)
        with u Some show thesis by (intro halts) simp
      next
        case (Inr d)
        obtain data readErr where d: "d = (data, readErr)" by (rule prod.exhaust)
        from u Some Inr d show thesis by (intro reads [OF p Some Inr [unfolded d]]) simp
      qed
    qed
  qed
qed

lemma unpackSource_changed:
  assumes r: "ready dir (files h)" and u: "unpackSource decode fetch uri dir h = (x, h')"
  shows "changed (besideImage dir) (files h) (files h')"
  using u
proof (cases rule: unpackSource_cases)
  case halts
  then show ?thesis using r by (intro stop_changed(1)) (simp_all add: ready_def)
next
  case (reads digest mime rd data readErr)
  from reads(4) show ?thesis
  proof (rule ithen_changed)
    fix y h1
    assume "extractBundle decode (take (maxSourceSize + 1) data) dir h = (y, h1)"
    with r show "changed (besideImage dir) (files h) (files h1)" by (rule extractBundle_changed)
  next
    fix y h1
    assume e: "extractBundle decode (take (maxSourceSize + 1) data) dir h = (Inr y, h1)"
      and k: "(if length data > maxSourceSize then ifail (Plain ''source bundle exceeds size limit'')
         else if readErr \<noteq> None then ifail (the readErr)
         else if sha256 data \<noteq> digest then ifail (Plain ''source bundle checksum mismatch'')
         else iret ()) h1 = (x, h')"
    have "treeOK (files h1)" by (rule changed_tree [OF extractBundle_changed [OF r e]])
    moreover have "files h' = files h1" using k by (simp add: ifail_def iret_def split: if_splits)
    ultimately show "changed (besideImage dir) (files h1) (files h')" by (simp add: changed_refl)
  qed
qed

lemma unpackSource_verified:
  assumes "unpackSource decode fetch uri dir h = (Inr y, h')"
  shows "\<exists>rd data. fetch = Some rd \<and> ParseURI uri = Inr (sha256 data, archiveMIME) \<and>
    rd (sha256 data) = Inr (data, None) \<and> length data \<le> maxSourceSize"
  using assms
proof (cases rule: unpackSource_cases)
  case (reads digest mime rd data readErr)
  have m: "mime = archiveMIME"
    using assms reads(1) by (auto simp: unpackSource_def ifail_def split: if_splits)
  from reads(4) show ?thesis
    using m reads(1-3) by (auto simp: ithen_def ifail_def iret_def split: prod.splits sum.splits if_splits)
qed (simp add: ifail_def)

subsection \<open>The image\<close>

definition inImage :: "fpath \<Rightarrow> fpath \<Rightarrow> fnode option \<Rightarrow> bool" where
  "inImage dir q n \<longleftrightarrow> prefix (dir @ [venv]) q"

definition rooted :: "fpath \<Rightarrow> (fpath \<rightharpoonup> fnode) \<Rightarrow> bool" where
  "rooted dir m \<longleftrightarrow> treeOK m \<and> m dir = Some DirNode \<and> list_all plain dir"

lemma rooted_changed: "rooted dir m \<Longrightarrow> changed P m m' \<Longrightarrow> rooted dir m'"
  using changed_dir [of P m m' dir] changed_tree [of P m m'] by (simp add: rooted_def)

lemma checkParents_Nil: "checkParents dir [] h = (Inr (), h)"
  by (simp add: checkParents.simps [of dir "[]"] iret_def)

lemma checkParents_snoc:
  assumes "checkParents dir (ps @ [p]) h = (r, h')" and "Lstat (dir @ ps @ [p]) h = (st, h1)"
  shows "(\<exists>e. r = Inl e \<and> h' = h1) \<or>
    (checkParents dir ps h1 = (r, h') \<and> (\<forall>t. st \<noteq> Inr (LinkNode t)) \<and> (\<forall>e. st = Inl e \<longrightarrow> e = eNotExist))"
proof -
  have "checkParents dir (ps @ [p]) h = (case Lstat (dir @ ps @ [p]) h of
          (Inr (LinkNode _), h1) \<Rightarrow> (Inl (Plain ''image archive traverses symlink''), h1)
        | (Inr _, h1) \<Rightarrow> checkParents dir ps h1
        | (Inl e, h1) \<Rightarrow> if e \<noteq> eNotExist then (Inl e, h1) else checkParents dir ps h1)"
    unfolding checkParents.simps [of dir "ps @ [p]"] butlast_snoc by simp
  with assms show ?thesis by (auto split: sum.splits fnode.splits if_splits)
qed

lemma checkParents_files: "checkParents dir ps h = (r, h') \<Longrightarrow> files h' = files h"
proof (induction ps arbitrary: h rule: rev_induct)
  case Nil
  then show ?case by (simp add: checkParents_Nil)
next
  case (snoc p ps)
  obtain st h1 where st: "Lstat (dir @ ps @ [p]) h = (st, h1)" by (rule prod.exhaust)
  from checkParents_snoc [OF snoc.prems st] Lstat_files [OF st] snoc.IH show ?case by auto
qed

lemma checkParents_free:
  assumes "checkParents dir ps h = (Inr (), h')" and "list_all plain (dir @ ps)" and "treeOK (files h)"
    and "0 < k" and "k \<le> length ps"
  shows "\<not> isLink (files h (dir @ take k ps))"
  using assms
proof (induction ps arbitrary: h rule: rev_induct)
  case (snoc p ps)
  obtain st h1 where st: "Lstat (dir @ ps @ [p]) h = (st, h1)" by (rule prod.exhaust)
  have h1: "files h1 = files h" by (rule Lstat_files [OF st])
  from checkParents_snoc [OF snoc.prems(1) st] have rec: "checkParents dir ps h1 = (Inr (), h')"
    and free: "\<And>t. st \<noteq> Inr (LinkNode t)" "\<And>e. st = Inl e \<Longrightarrow> e = eNotExist" by auto
  show ?case
  proof (cases "k = length (ps @ [p])")
    case False
    with snoc.IH [OF rec] snoc.prems h1 show ?thesis by simp
  next
    case True
    show ?thesis
    proof
      assume "isLink (files h (dir @ take k (ps @ [p])))"
      with True obtain t where l: "files h (dir @ ps @ [p]) = Some (LinkNode t)" by (auto simp: isLink_def)
      have "walk maxLinks (files h) False [] (dir @ ps @ [p]) = Inr ([] @ dir @ ps @ [p])"
        by (rule walk_exists) (use snoc.prems l in simp_all)
      with l have "nodeAt False (dir @ ps @ [p]) (files h) = Inr (LinkNode t)" by (simp add: nodeAt_def)
      with st have "st = Inr (LinkNode t) \<or> (\<exists>s. st = Inl (eDevice s))"
        by (auto simp: Lstat_def syscall_def split: option.splits)
      with free show False by (auto simp: eDevice_def eNotExist_def)
    qed
  qed
qed simp

lemma image_name:
  assumes "pathClean name = name" and "name = venv \<or> hasPrefix name (venv @ ''/'')"
  obtains ps where "joinPath dir name = dir @ ps" "list_all plain ps" "ps \<noteq> []" "hd ps = venv"
proof -
  let ?ps = "splitAt (CHR ''/'') name"
  from assms(2) obtain zs where n: "name = venv \<or> name = venv @ ''/'' @ zs" by (auto simp: hasPrefix_iff)
  have "CHR ''/'' \<notin> set venv" by (simp add: venv_def)
  with n have hd: "?ps \<noteq> []" "hd ?ps = venv" using splitAt_one [of "CHR ''/''" venv] splitAt_cons [of "CHR ''/''" venv zs] by auto
  have "list_all plain ?ps" by (rule name_plain [OF assms(1)]) (use n in \<open>auto simp: venv_def isAbs_def\<close>)
  with that joinPath_plain hd show thesis by blast
qed

lemma onWay_inImage: "ps \<noteq> [] \<Longrightarrow> hd ps = venv \<Longrightarrow> strict_prefix dir q \<Longrightarrow> prefix q (dir @ ps) \<Longrightarrow> inImage dir q n"
  using prefix_below [of q dir ps] by (simp add: inImage_def)

lemma imageMember_changed:
  assumes r: "rooted dir (files h)" and b: "imageMember dir entries written m h = (x, h')"
  shows "changed (inImage dir) (files h) (files h')"
proof -
  let ?name = "trimSuffix (mb_name m) ''/''"
  let ?unsafe = "entries > 100000 \<or> isAbs ?name \<or> pathClean ?name \<noteq> ?name \<or>
         ?name \<noteq> venv \<and> \<not> hasPrefix ?name (venv @ ''/'') \<or> CHR 0x5C \<in> set ?name"
  have t: "treeOK (files h)" using r by (simp add: rooted_def)
  show ?thesis
  proof (cases ?unsafe)
    case True
    with b have "ifail (Plain ''unsafe image archive path'') h = (x, h')" unfolding imageMember_def Let_def by (simp only: if_True)
    then show ?thesis using t by (rule stop_changed(1))
  next
    case False
    then obtain ps where ps: "joinPath dir ?name = dir @ ps" "list_all plain ps" "ps \<noteq> []" "hd ps = venv"
      using image_name [of ?name dir] by blast
    let ?kind = "\<lambda>_::unit. case mb_type m of
           MDir \<Rightarrow> ithen (MkdirAll (dir @ ps)) (\<lambda>_. iret written)
         | MReg \<Rightarrow>
             if mb_size m < 0 \<or> wrap64 (written + mb_size m) > 2147483648 then ifail (Plain ''image archive exceeds limit'')
             else ithen (writeMember (dir @ ps) (mb_mode m mod 512) m) (\<lambda>_. iret (wrap64 (written + mb_size m)))
         | MLink \<Rightarrow>
             if unsafeLink ?name (mb_link m) then ifail (Plain ''unsafe image symlink'')
             else ithen (create (dir @ ps) (LinkNode (mb_link m))) (\<lambda>_. iret written)
         | MOther \<Rightarrow> ifail (Plain ''unsupported image archive entry'')"
    from b False ps(1,3) have b': "ithen (checkParents dir (butlast ps)) (\<lambda>_. ithen (MkdirAll (butlast (dir @ ps))) ?kind) h = (x, h')"
      unfolding imageMember_def Let_def by (simp only: if_False ps(1)) (simp add: butlast_append)
    note onWay = onWay_inImage [OF ps(3,4)]
    have up: "changed (inImage dir) m' m''" if "changed (onWay dir ps) m' m''" for m' m''
      using that by (rule changed_mono) (simp add: onWay_def onWay)
    from b' show ?thesis
    proof (rule ithen_changed)
      fix y h1
      assume "checkParents dir (butlast ps) h = (y, h1)"
      with checkParents_files t show "changed (inImage dir) (files h) (files h1)" by (metis changed_refl)
    next
      fix y h1
      assume c: "checkParents dir (butlast ps) h = (Inr y, h1)"
        and k: "ithen (MkdirAll (butlast (dir @ ps))) ?kind h1 = (x, h')"
      have h1: "files h1 = files h" by (rule checkParents_files [OF c])
      have plain: "list_all plain (dir @ ps)" using r ps(2) by (simp add: rooted_def)
      then have "list_all plain (dir @ butlast ps)" by (auto simp: list_all_iff dest: in_set_butlastD)
      with checkParents_free [of dir "butlast ps" h h1] c t have "\<not> isLink (files h (dir @ take j ps))" if "0 < j" "j < length ps" for j
        using that by (simp add: take_butlast)
      with r plain have w: "way (files h1) dir ps" unfolding h1 by (intro wayI) (auto simp: rooted_def)
      have mk: "changed (onWay dir ps) (files h1) (files h2)" if "MkdirAll (butlast (dir @ ps)) h1 = (z, h2)" for z h2
        by (rule MkdirAll_way [OF w prefixeq_butlast that])
      from k show "changed (inImage dir) (files h1) (files h')"
      proof (rule ithen_changed)
        fix z h2
        assume "MkdirAll (butlast (dir @ ps)) h1 = (z, h2)"
        then show "changed (inImage dir) (files h1) (files h2)" by (intro up mk)
      next
        fix z h2
        assume m2: "MkdirAll (butlast (dir @ ps)) h1 = (Inr z, h2)" and k2: "?kind z h2 = (x, h')"
        have w2: "way (files h2) dir ps" by (rule onWay_way [OF w mk [OF m2]])
        then have t2: "treeOK (files h2)" by (simp add: way_def)
        show "changed (inImage dir) (files h2) (files h')"
        proof (cases "mb_type m")
          case MDir
          with k2 have "ithen (MkdirAll (dir @ ps)) (\<lambda>_. iret written) h2 = (x, h')" by simp
          then show ?thesis by (intro up mkdir_member [OF w2 prefix_order.refl])
        next
          case MReg
          with k2 show ?thesis
            by (auto split: if_splits intro: stop_changed(1) [OF _ t2] up write_member [OF w2])
        next
          case MLink
          have ln: "changed (inImage dir) (files h2) (files h3)" if "create (dir @ ps) (LinkNode l) h2 = (q, h3)" for l q h3
            by (rule changed_mono [OF conjunct1 [OF create_way [OF w2 that]]]) (auto intro: onWay)
          show ?thesis
          proof (cases "unsafeLink ?name (mb_link m)")
            case True
            with k2 MLink show ?thesis by (auto intro: stop_changed(1) [OF _ t2])
          next
            case False
            with k2 MLink have "ithen (create (dir @ ps) (LinkNode (mb_link m))) (\<lambda>_. iret written) h2 = (x, h')" by simp
            then show ?thesis by (rule ithen_changed) (auto intro: ln stop_changed(2) changed_tree)
          qed
        next
          case MOther
          with k2 show ?thesis by (auto intro: stop_changed(1) [OF _ t2])
        qed
      qed
    qed
  qed
qed

lemma imageLoop_changed:
  "rooted dir (files h) \<Longrightarrow> imageLoop dir entries written ms e h = (x, h') \<Longrightarrow> changed (inImage dir) (files h) (files h')"
proof (induction ms arbitrary: entries written h)
  case Nil
  then have "files h' = files h" by (auto simp: ending_def iret_def ifail_def split: option.splits)
  with Nil show ?case by (simp add: rooted_def changed_refl)
next
  case (Cons m ms)
  from Cons.prems(2)
  have "ithen (imageMember dir (entries + 1) written m) (\<lambda>written'. imageLoop dir (entries + 1) written' ms e) h = (x, h')"
    by simp
  then show ?case
  proof (rule ithen_changed)
    fix y h1
    assume "imageMember dir (entries + 1) written m h = (y, h1)"
    with Cons.prems(1) show "changed (inImage dir) (files h) (files h1)" by (rule imageMember_changed)
  next
    fix y h1
    assume m: "imageMember dir (entries + 1) written m h = (Inr y, h1)" and k: "imageLoop dir (entries + 1) y ms e h1 = (x, h')"
    from rooted_changed [OF Cons.prems(1) imageMember_changed [OF Cons.prems(1) m]] k
    show "changed (inImage dir) (files h1) (files h')" by (rule Cons.IH)
  qed
qed

lemma extractImage_changed:
  "rooted dir (files h) \<Longrightarrow> extractImage decode archive dir h = (x, h') \<Longrightarrow> changed (inImage dir) (files h) (files h')"
  unfolding extractImage_def by (auto split: sum.splits intro: imageLoop_changed stop_changed(1) simp: rooted_def)

subsection \<open>A task's directory\<close>

text \<open>What \<open>os.MkdirTemp\<close> leaves: a new directory, with nothing in it.\<close>

definition fresh :: "fpath \<Rightarrow> (fpath \<rightharpoonup> fnode) \<Rightarrow> bool" where
  "fresh dir m \<longleftrightarrow> treeOK m \<and> m dir = Some DirNode \<and> list_all plain dir \<and> (\<forall>q. strict_prefix dir q \<longrightarrow> m q = None)"

lemma MkdirAll_made:
  assumes "way (files h) dir ps" and "ps = [] \<or> \<not> isLink (files h (dir @ ps))" and "MkdirAll (dir @ ps) h = (Inr y, h')"
  shows "files h' (dir @ ps) = Some DirNode"
proof -
  let ?p = "dir @ ps"
  have w: "list_all plain ?p" "noLinks (files h) [] ?p" "treeOK (files h)" using assms(1) by (simp_all add: way_def)
  have nl: "\<not> isLink (files h ?p)" using assms(1,2) by (auto simp: way_def isLink_def)
  obtain st h1 where st: "Stat ?p h = (st, h1)" by (rule prod.exhaust)
  have h1: "files h1 = files h" by (rule Stat_files [OF st])
  show ?thesis
  proof (cases st)
    case (Inr n)
    with assms(3) st have n: "n = DirNode" and h': "h' = h1" by (auto simp: MkdirAll.simps split: if_splits)
    from st Inr n obtain q where "walk maxLinks (files h) True [] ?p = Inr q" "files h q = Some DirNode"
      by (auto simp: Stat_def syscall_def nodeAt_def split: option.splits sum.splits)
    with walk_plain [OF w(1,2)] nl h1 h' show ?thesis by auto
  next
    case (Inl e)
    obtain r2 h2 where up: "(if length ?p \<le> 1 then (Inr (), h1) else MkdirAll (butlast ?p) h1) = (r2, h2)" by (rule prod.exhaust)
    have plain: "list_all plain (butlast ?p)" using w(1) by (auto simp: list_all_iff dest: in_set_butlastD)
    have c2: "changed (\<lambda>q x. prefix q (butlast ?p) \<and> q \<noteq> [] \<and> x = Some DirNode) (files h) (files h2)"
    proof (cases "length ?p \<le> 1")
      case True
      with up h1 w show ?thesis by (auto intro: changed_refl)
    next
      case False
      with up have "MkdirAll (butlast ?p) h1 = (r2, h2)" by simp
      from MkdirAll_changed [OF plain _ _ this] noLinks_butlast [OF w(2)] w(3) h1 show ?thesis by simp
    qed
    obtain u where u: "r2 = Inr u" using assms(3) st Inl up by (cases r2) (auto simp: MkdirAll.simps split: if_splits)
    obtain r3 h3 where cr: "create ?p DirNode h2 = (r3, h3)" by (rule prod.exhaust)
    have t2: "treeOK (files h2)" using c2 by (simp add: changed_def)
    have n2: "noLinks (files h2) [] ?p" by (rule noLinks_changed [OF w(2) c2]) (auto simp: isLink_def)
    note made = create_changed [OF w(1) n2 t2 cr]
    show ?thesis
    proof (cases r3)
      case (Inr q)
      with made assms(3) st Inl up u cr show ?thesis by (auto simp: MkdirAll.simps split: if_splits)
    next
      case (Inl e3)
      obtain r4 h4 where ls: "Lstat ?p h3 = (r4, h4)" by (rule prod.exhaust)
      with assms(3) st \<open>st = Inl e\<close> up u cr Inl have r4: "r4 = Inr DirNode" "h' = h4"
        by (auto simp: MkdirAll.simps split: if_splits sum.splits)
      have "noLinks (files h3) [] ?p" by (rule noLinks_changed [OF n2 conjunct1 [OF made]]) (auto simp: isLink_def)
      moreover from ls r4 obtain q where "walk maxLinks (files h3) False [] ?p = Inr q" "files h3 q = Some DirNode"
        by (auto simp: Lstat_def syscall_def nodeAt_def split: option.splits sum.splits)
      ultimately show ?thesis using walk_plain [OF w(1), of "files h3" "[]" False] Lstat_files [OF ls] r4 by auto
    qed
  qed
qed

lemma workdir_below:
  assumes "\<not> badWorkdir workdir"
  obtains ws where "joinPath dir workdir = dir @ ws" "list_all plain ws"
proof (cases "workdir = ''.''")
  case True
  with that [of "[]"] show ?thesis by (simp add: joinPath_def)
next
  case False
  with assms have "list_all plain (splitAt (CHR ''/'') workdir)" by (intro name_plain) (auto simp: badWorkdir_def)
  with joinPath_plain that show ?thesis by blast
qed

lemma fresh_below: "fresh dir m \<Longrightarrow> zs \<noteq> [] \<Longrightarrow> m (dir @ zs) = None"
  by (auto simp: fresh_def strict_prefix_def)

lemma fresh_way:
  assumes f: "fresh dir m" and ws: "list_all plain ws"
  shows "way m dir ws \<and> (ws = [] \<or> \<not> isLink (m (dir @ ws)))"
proof
  show "way m dir ws"
  proof (rule wayI)
    fix k
    assume "0 < k" "k < length ws"
    then have "m (dir @ take k ws) = None" by (intro fresh_below [OF f]) auto
    then show "\<not> isLink (m (dir @ take k ws))" by (simp add: isLink_def)
  qed (use f ws in \<open>simp_all add: fresh_def\<close>)
  show "ws = [] \<or> \<not> isLink (m (dir @ ws))" using fresh_below [OF f, of ws] by (auto simp: isLink_def)
qed

lemma unpackImage_changed:
  assumes f: "fresh dir (files h)" and ws: "joinPath dir workdir = dir @ ws" "list_all plain ws"
    and u: "unpackImage decode archive workdir dir h = (x, h')"
  shows "changed (\<lambda>q n. strict_prefix dir q) (files h) (files h') \<and> (\<forall>y. x = Inr y \<longrightarrow> ready (dir @ ws) (files h'))"
proof -
  let ?wd = "dir @ ws"
  have w: "way (files h) dir ws" and nl: "ws = [] \<or> \<not> isLink (files h ?wd)" using fresh_way [OF f ws(2)] by simp_all
  obtain r1 h1 where mk: "MkdirAll ?wd h = (r1, h1)" by (rule prod.exhaust)
  have c1: "changed (onWay dir ws) (files h) (files h1)" by (rule MkdirAll_way [OF w prefix_order.refl mk])
  then have c1': "changed (\<lambda>q n. strict_prefix dir q) (files h) (files h1)" by (rule changed_mono) (simp add: onWay_def)
  show ?thesis
  proof (cases r1)
    case (Inl e)
    with u mk ws have "x = Inl e" "h' = h1" by (simp_all add: unpackImage_def ithen_def)
    with c1' show ?thesis by simp
  next
    case (Inr y)
    with u mk ws have e: "extractImage decode archive ?wd h1 = (x, h')" by (simp add: unpackImage_def ithen_def)
    have made: "files h1 ?wd = Some DirNode" by (rule MkdirAll_made [OF w nl mk [unfolded Inr]])
    have r: "rooted ?wd (files h1)" using made w changed_tree [OF c1] by (simp add: rooted_def way_def)
    have c2: "changed (inImage ?wd) (files h1) (files h')" by (rule extractImage_changed [OF r e])
    then have "changed (\<lambda>q n. strict_prefix dir q) (files h1) (files h')"
      by (rule changed_mono) (auto simp: inImage_def strict_prefix_def elim!: prefixE)
    with c1' have "changed (\<lambda>q n. strict_prefix dir q) (files h) (files h')" by (rule changed_trans)
    moreover have "imageLinks ?wd (files h')"
      unfolding imageLinks_def
    proof (intro allI impI)
      fix q
      assume l: "isLink (files h' q)" and s: "strict_prefix ?wd q"
      show "prefix (?wd @ [venv]) q"
      proof (rule ccontr)
        assume "\<not> prefix (?wd @ [venv]) q"
        then have "files h' q = files h1 q" using c2 unfolding changed_def inImage_def by blast
        moreover have "\<not> onWay dir ws q n" for n using s by (auto simp: onWay_def strict_prefix_def dest: prefix_order.antisym)
        then have "files h1 q = files h q" using c1 unfolding changed_def by blast
        moreover from s obtain zs where "q = ?wd @ zs" "zs \<noteq> []"
          by (auto simp: strict_prefix_def prefix_def)
        then have "files h q = None" using fresh_below [OF f, of "ws @ zs"] by simp
        ultimately show False using l by (simp add: isLink_def)
      qed
    qed
    moreover have "rooted ?wd (files h')" by (rule rooted_changed [OF r c2])
    ultimately show ?thesis by (simp add: ready_def rooted_def)
  qed
qed

lemma besideImage_below: "besideImage (dir @ ws) q n \<Longrightarrow> strict_prefix dir q"
  by (auto simp: besideImage_def strict_prefix_def elim!: prefixE)

lemma prepareWorkdir_changed:
  assumes f: "fresh dir (files h)" and ws: "joinPath dir workdir = dir @ ws" "list_all plain ws"
    and p: "prepareWorkdir decode fetch archive workdir source dir h = (r, h')"
  shows "changed (\<lambda>q n. strict_prefix dir q) (files h) (files h')"
proof -
  obtain x h1 where i: "unpackImage decode archive workdir dir h = (x, h1)" by (rule prod.exhaust)
  note u = unpackImage_changed [OF f ws i]
  show ?thesis
  proof (cases x)
    case (Inl e)
    with p i u show ?thesis by (simp add: prepareWorkdir_def ithen_def)
  next
    case (Inr y)
    with p i ws have s: "unpackSource decode fetch source (dir @ ws) h1 = (r, h')"
      by (simp add: prepareWorkdir_def ithen_def)
    from u Inr have "changed (besideImage (dir @ ws)) (files h1) (files h')"
      by (intro unpackSource_changed [OF _ s]) simp
    then have "changed (\<lambda>q n. strict_prefix dir q) (files h1) (files h')"
      by (rule changed_mono) (rule besideImage_below)
    with u show ?thesis using changed_trans by blast
  qed
qed

text \<open>
  C33: whatever an image archive and a source bundle hold, unpacking them changes nothing
  outside the task's fresh directory; the bundle changes nothing of the image in \<open>.venv\<close>; and
  unpacking succeeds only on a bundle whose whole content has the digest of the task's source.
\<close>

theorem sandbox_confined:
  assumes "fresh dir (files h)" and "\<not> badWorkdir workdir"
    and "prepareWorkdir decode fetch archive workdir source dir h = (r, h')"
  shows "(\<forall>q. \<not> strict_prefix dir q \<longrightarrow> files h' q = files h q) \<and>
    (\<forall>q. prefix (joinPath dir workdir @ [venv]) q \<longrightarrow>
      files h' q = files (snd (unpackImage decode archive workdir dir h)) q) \<and>
    (r = Inr () \<longrightarrow> (\<exists>rd data. fetch = Some rd \<and> ParseURI source = Inr (sha256 data, archiveMIME) \<and>
      rd (sha256 data) = Inr (data, None) \<and> length data \<le> maxSourceSize))"
proof -
  obtain ws where ws: "joinPath dir workdir = dir @ ws" "list_all plain ws" by (rule workdir_below [OF assms(2)])
  obtain x h1 where i: "unpackImage decode archive workdir dir h = (x, h1)" by (rule prod.exhaust)
  note u = unpackImage_changed [OF assms(1) ws i]
  have out: "files h' q = files h q" if "\<not> strict_prefix dir q" for q
    using prepareWorkdir_changed [OF assms(1) ws assms(3)] that unfolding changed_def by blast
  show ?thesis
  proof (cases x)
    case (Inl e)
    with assms(3) i have "h' = h1" "r = Inl e" by (simp_all add: prepareWorkdir_def ithen_def)
    with out i show ?thesis by simp
  next
    case (Inr y)
    with assms(3) i ws have s: "unpackSource decode fetch source (dir @ ws) h1 = (r, h')" by (simp add: prepareWorkdir_def ithen_def)
    from u Inr have c: "changed (besideImage (dir @ ws)) (files h1) (files h')" by (intro unpackSource_changed [OF _ s]) simp
    have "files h' q = files h1 q" if "prefix (dir @ ws @ [venv]) q" for q
      using c that unfolding changed_def besideImage_def by auto
    then show ?thesis using out unpackSource_verified s i ws by fastforce
  qed
qed


end
