(* ===== verification/Local_Executor_Properties.thy ===== *)
theory Local_Executor_Properties
  imports Local_Executor Extract_Properties
begin

section \<open>What the executor leaves on the worker's disk\<close>

text \<open>
  Every temporary directory and file of a build and of a task is gone in the end, on every
  path. The sandbox is trusted to write below its directory only, the archiver to its file, and
  removals to succeed: this is \<open>platformOK\<close>.
\<close>

text \<open>Only what is below \<open>dir\<close> may differ.\<close>

definition keepsOutside :: "fpath \<Rightarrow> (fpath \<rightharpoonup> fnode) \<Rightarrow> (fpath \<rightharpoonup> fnode) \<Rightarrow> bool" where
  "keepsOutside dir m m' \<longleftrightarrow> treeOK m' \<and> m' dir = Some DirNode \<and> (\<forall>q. \<not> strict_prefix dir q \<longrightarrow> m' q = m q)"

definition platformOK :: "platform \<Rightarrow> bool" where
  "platformOK pl \<longleftrightarrow>
     (\<forall>pattern m. treeOK m \<longrightarrow> pf_pick pl pattern m \<noteq> [] \<and> list_all plain (pf_pick pl pattern m) \<and>
        noLinks m [] (pf_pick pl pattern m)) \<and>
     (\<forall>p m. pf_removes pl p m) \<and>
     (\<forall>bwrap dir workdir options args m. treeOK m \<and> m dir = Some DirNode \<longrightarrow>
        keepsOutside dir m (snd (pf_run pl (sandboxed pl bwrap dir workdir options args) m))) \<and>
     (\<forall>dir path m. treeOK m \<and> isFile (m path) \<longrightarrow>
        (let m' = snd (pf_run pl \<lparr>cm_program = ''uv'', cm_args = archiveArgs dir path, cm_env = []\<rparr> m)
         in treeOK m' \<and> isFile (m' path) \<and> (\<forall>q. q \<noteq> path \<longrightarrow> m' q = m q)))"

lemma platformOKD:
  assumes "platformOK pl"
  shows "treeOK m \<Longrightarrow> pf_pick pl pattern m \<noteq> [] \<and> list_all plain (pf_pick pl pattern m) \<and> noLinks m [] (pf_pick pl pattern m)"
    "pf_removes pl p m"
    "treeOK m \<Longrightarrow> m dir = Some DirNode \<Longrightarrow>
       keepsOutside dir m (snd (pf_run pl (sandboxed pl bwrap dir workdir options args) m))"
    "treeOK m \<Longrightarrow> isFile (m path) \<Longrightarrow>
       (let m' = snd (pf_run pl \<lparr>cm_program = ''uv'', cm_args = archiveArgs dir path, cm_env = []\<rparr> m)
        in treeOK m' \<and> isFile (m' path) \<and> (\<forall>q. q \<noteq> path \<longrightarrow> m' q = m q))"
  using assms unfolding platformOK_def by blast+

subsection \<open>Temporary files\<close>

lemma makeTemp_Inr:
  assumes ok: "platformOK pl" and t: "treeOK (files h)" and m: "makeTemp pl pattern n h = (Inr p, h')"
  shows "files h p = None \<and> files h' = (files h)(p \<mapsto> n) \<and> treeOK (files h') \<and> list_all plain p \<and> p \<noteq> []"
proof -
  let ?p = "pf_pick pl pattern (files h)"
  note pick = platformOKD(1) [OF ok t, of pattern]
  from m obtain q where q: "createAt ?p n (files h) = (Inr q, files h')" and p: "p = ?p"
    by (auto simp: makeTemp_def syscall_def split: option.splits prod.splits sum.splits)
  then obtain w: "walk maxLinks (files h) False [] ?p = Inr q" and free: "files h q = None"
    and h': "files h' = (files h)(q \<mapsto> n)"
    by (auto simp: createAt_def split: sum.splits option.splits)
  have q: "q = ?p" using walk_plain [of ?p "files h" "[]" False maxLinks q] pick w by simp
  have "create ?p n \<lparr>files = files h, diskFaults = \<lambda>_. None, diskCalls = 0\<rparr> =
      (Inr q, \<lparr>files = files h', diskFaults = \<lambda>_. None, diskCalls = 1\<rparr>)"
    using w free h' by (simp add: create_def syscall_def createAt_def)
  from create_changed [OF _ _ _ this] pick t have "treeOK (files h')" by (simp add: changed_def)
  with pick p q free h' show ?thesis by simp
qed

lemma makeTemp_Inl: "makeTemp pl pattern n h = (Inl e, h') \<Longrightarrow> files h' = files h"
  by (auto simp: makeTemp_def syscall_def createAt_def split: option.splits prod.splits sum.splits)

lemma makeTemp_fresh:
  assumes ok: "platformOK pl" and t: "treeOK (files h)" and m: "makeTemp pl pattern DirNode h = (Inr dir, h')"
  shows "fresh dir (files h')"
proof -
  note d = makeTemp_Inr [OF assms]
  have "files h q = None" if "strict_prefix dir q" for q
    using that d treeOK_above [OF t, of dir] by (auto simp: strict_prefix_def prefix_def)
  with d show ?thesis by (auto simp: fresh_def)
qed

lemma RemoveAll_restores:
  assumes ok: "platformOK pl" and t: "treeOK m" and d: "m dir = None" and k: "keepsOutside dir (m(dir \<mapsto> DirNode)) (files h)"
  shows "files (RemoveAll pl dir h) = m"
proof
  fix q
  show "files (RemoveAll pl dir h) q = m q"
  proof (cases "prefix dir q")
    case True
    then have "m q = None" using treeOK_above [OF t, of dir] d by (cases "q = dir") (auto simp: prefix_def)
    with True platformOKD(2) [OF ok] show ?thesis by (simp add: RemoveAll_def)
  next
    case False
    then have "\<not> strict_prefix dir q" "q \<noteq> dir" by (auto simp: strict_prefix_def)
    with k have "files h q = m q" by (simp add: keepsOutside_def)
    with False show ?thesis by (simp add: RemoveAll_def)
  qed
qed

subsection \<open>Staying below the directory\<close>

lemma ithen_go: "m h = (Inr x, h') \<Longrightarrow> ithen m f h = f x h'"
  by (simp add: ithen_def)

lemma keepsOutside_refl: "treeOK m \<Longrightarrow> m dir = Some DirNode \<Longrightarrow> keepsOutside dir m m"
  by (simp add: keepsOutside_def)

lemma keepsOutside_trans: "keepsOutside dir m m1 \<Longrightarrow> keepsOutside dir m1 m2 \<Longrightarrow> keepsOutside dir m m2"
  by (simp add: keepsOutside_def)

lemma changed_outside:
  "changed (\<lambda>q n. strict_prefix dir q) m m' \<Longrightarrow> m dir = Some DirNode \<Longrightarrow> keepsOutside dir m m'"
  unfolding keepsOutside_def using changed_dir changed_tree by (metis changed_def)

definition below :: "fpath \<Rightarrow> 'a io \<Rightarrow> bool" where
  "below dir f \<longleftrightarrow> (\<forall>h. treeOK (files h) \<longrightarrow> files h dir = Some DirNode \<longrightarrow> keepsOutside dir (files h) (files (snd (f h))))"

lemma belowD: "below dir f \<Longrightarrow> f h = (r, h') \<Longrightarrow> treeOK (files h) \<Longrightarrow> files h dir = Some DirNode \<Longrightarrow>
    keepsOutside dir (files h) (files h')"
  unfolding below_def by (metis snd_conv)

lemma below_then:
  assumes m: "below dir m" and f: "\<And>x. below dir (f x)"
  shows "below dir (ithen m f)"
  unfolding below_def
proof (intro allI impI)
  fix h :: host
  assume h: "treeOK (files h)" "files h dir = Some DirNode"
  obtain r h1 where r: "m h = (r, h1)" by (rule prod.exhaust)
  have k: "keepsOutside dir (files h) (files h1)" by (rule belowD [OF m r h])
  then have "treeOK (files h1)" "files h1 dir = Some DirNode" by (simp_all add: keepsOutside_def)
  then have "keepsOutside dir (files h1) (files (snd (f x h1)))" for x using f unfolding below_def by blast
  with k r show "keepsOutside dir (files h) (files (snd (ithen m f h)))"
    by (cases r) (auto simp: ithen_def intro: keepsOutside_trans)
qed

lemma below_same: "(\<And>h. files (snd (f h)) = files h) \<Longrightarrow> below dir f"
  by (simp add: below_def keepsOutside_refl)

lemma below_wrapping: "below dir m \<Longrightarrow> below dir (wrapping text m)"
  unfolding below_def by (auto simp: wrapping_def split: prod.splits sum.splits)

lemma below_lift: "below dir (ilift r)" "below dir (ifail e)" "below dir (iret x)"
  by (simp_all add: below_same ilift_def ifail_def iret_def)

lemma runProgram_files: "files (snd (runProgram pl c h)) = snd (pf_run pl c (files h))"
  by (simp add: runProgram_def split: prod.split option.split)

lemma below_sandboxed:
  "platformOK pl \<Longrightarrow> below dir (runProgram pl (sandboxed pl bwrap dir workdir options args))"
  by (simp add: below_def runProgram_files platformOKD(3))

lemma below_Stat: "below dir (Stat p)"
  by (rule below_same) (metis Stat_files prod.collapse)

lemmas below_rules = below_then below_wrapping below_lift below_sandboxed below_Stat

subsection \<open>\<open>archiveImage\<close>\<close>

lemma readFile_files: "readFile p h = (r, h') \<Longrightarrow> files h' = files h"
  by (auto simp: readFile_def dest!: syscall_files)

lemma archiveImage_files:
  assumes ok: "platformOK pl" and t: "treeOK (files h)"
  shows "files (snd (archiveImage pl dir h)) = files h"
proof (cases "makeTemp pl ''lutra-image-*.tar.zst'' (FileNode [] 384) h")
  case (Pair r h1)
  show ?thesis
  proof (cases r)
    case (Inl e)
    with Pair makeTemp_Inl [of pl _ _ h e h1] show ?thesis by (simp add: archiveImage_def ithen_def)
  next
    case (Inr path)
    note d = makeTemp_Inr [OF ok t Pair [unfolded Inr]]
    let ?body = "ithen (syscall (\<lambda>m. (Inr (), m))) (\<lambda>_.
           ithen (wrapping ''archive image'' (runProgram pl
              \<lparr>cm_program = ''uv'', cm_args = archiveArgs dir path, cm_env = []\<rparr>)) (\<lambda>_.
           ithen (readFile path) (\<lambda>bs.
           if length (take (archiveLimit + 1) bs) > archiveLimit
           then ifail (Plain ''image archive exceeds limit'')
           else iret (take (archiveLimit + 1) bs))))"
    obtain r2 h2 where b: "?body h1 = (r2, h2)" by (rule prod.exhaust)
    have isf: "isFile (files h1 path)" using d by (simp add: isFile_def)
    have k: "isFile (files h2 path) \<and> (\<forall>q. q \<noteq> path \<longrightarrow> files h2 q = files h1 q)"
    proof -
      obtain r3 h3 where c: "syscall (\<lambda>m. (Inr (), m)) h1 = (r3, h3)" by (rule prod.exhaust)
      have h3: "files h3 = files h1" using syscall_files [OF c] by auto
      let ?run = "wrapping ''archive image'' (runProgram pl
              \<lparr>cm_program = ''uv'', cm_args = archiveArgs dir path, cm_env = []\<rparr>)"
      obtain r4 h4 where w: "?run h3 = (r4, h4)" by (rule prod.exhaust)
      have "files h4 = snd (pf_run pl \<lparr>cm_program = ''uv'', cm_args = archiveArgs dir path, cm_env = []\<rparr> (files h3))"
        using w by (auto simp: wrapping_def runProgram_def split: prod.splits sum.splits option.splits)
      moreover have "treeOK (files h3)" "isFile (files h3 path)" using d isf unfolding h3 by blast+
      ultimately have h4: "isFile (files h4 path) \<and> (\<forall>q. q \<noteq> path \<longrightarrow> files h4 q = files h1 q)"
        using platformOKD(4) [OF ok, of "files h3" path dir] by (simp add: Let_def h3 del: fun_upd_apply)
      obtain r5 h5 where f: "readFile path h4 = (r5, h5)" by (rule prod.exhaust)
      have "files h2 = files h1 \<or> files h2 = files h4"
        using b c w f h3 readFile_files [OF f]
        by (auto simp: ithen_def ifail_def iret_def split: sum.splits if_splits)
      with h4 isf show ?thesis by auto
    qed
    have "files (Remove pl path h2) = files h"
      using k d platformOKD(2) [OF ok] by (auto simp: Remove_def isFile_def fun_eq_iff)
    with Pair Inr b show ?thesis by (simp add: archiveImage_def ithen_def)
  qed
qed

lemma below_archive: "platformOK pl \<Longrightarrow> below dir (archiveImage pl dir')"
  by (simp add: below_def archiveImage_files keepsOutside_refl)

subsection \<open>\<open>Build\<close> and \<open>Run\<close> in their directory\<close>

lemma below_none: "below dir (case x of None \<Rightarrow> ifail e | Some y \<Rightarrow> ilift (f y))"
  by (cases x) (simp_all add: below_lift)

lemma buildIn_outside:
  assumes ok: "platformOK pl" and f: "fresh dir (files h)" and nb: "\<not> badWorkdir (imWorkdir t)"
    and b: "buildIn pl store fetch t dir h = (r, h')"
  shows "keepsOutside dir (files h) (files h')"
proof -
  obtain ws where ws: "joinPath dir (imWorkdir t) = dir @ ws" "list_all plain ws" by (rule workdir_below [OF nb])
  have d: "treeOK (files h)" "files h dir = Some DirNode" using f by (simp_all add: fresh_def)
  obtain x h1 where mk: "MkdirAll (dir @ ws) h = (x, h1)" by (rule prod.exhaust)
  have "unpackImage (\<lambda>_. Inr ([], None)) [] (imWorkdir t) dir h = (x, h1)"
    using mk ws by (cases x) (simp_all add: unpackImage_def extractImage_def ending_def ithen_def iret_def)
  note u = unpackImage_changed [OF f ws this]
  have k1: "keepsOutside dir (files h) (files h1)" using u d changed_outside by blast
  show ?thesis
  proof (cases x)
    case (Inl e)
    with b mk ws k1 show ?thesis by (simp add: buildIn_def Let_def ithen_def)
  next
    case (Inr y)
    obtain x2 h2 where s: "unpackSource (pf_decode pl) fetch (buildContext t) (dir @ ws) h1 = (x2, h2)" by (rule prod.exhaust)
    from u Inr have "changed (besideImage (dir @ ws)) (files h1) (files h2)"
      by (intro unpackSource_changed [OF _ s]) simp
    then have "changed (\<lambda>q n. strict_prefix dir q) (files h1) (files h2)"
      by (rule changed_mono) (rule besideImage_below)
    moreover have d1: "treeOK (files h1)" "files h1 dir = Some DirNode" using k1 by (simp_all add: keepsOutside_def)
    ultimately have k2: "keepsOutside dir (files h1) (files h2)" using changed_outside by blast
    show ?thesis
    proof (cases x2)
      case (Inl e)
      with b mk ws s \<open>x = Inr y\<close> have "h' = h2" by (simp add: buildIn_def Let_def ithen_def)
      with k1 k2 keepsOutside_trans show ?thesis by blast
    next
      case (Inr z)
      let ?rest = "ithen (ilift (pf_look pl ''python3'')) (\<lambda>python.
        ithen (ilift (pf_eval pl python)) (\<lambda>python.
        ithen (ilift (pf_look pl ''bwrap'')) (\<lambda>bwrap.
        ithen (wrapping ''build uv environment'' (runProgram pl (sandboxed pl bwrap dir (sandboxWorkdir t)
             (setenv ''UV_PROJECT_ENVIRONMENT'' (sandboxWorkdir t @ ''/.venv'') @ setenv ''UV_PYTHON'' python)
             (buildArgs t)))) (\<lambda>_.
        ithen (archiveImage pl (dir @ ws)) (\<lambda>archive.
        case store of
          None \<Rightarrow> ifail (Plain ''image artifact store unavailable'')
        | Some st \<Rightarrow> ilift (st archive))))))"
      have "below dir ?rest"
        by (intro below_rules below_archive below_none ok)
      moreover have "?rest h2 = (r, h')"
        using b unfolding buildIn_def Let_def ws(1) ithen_go [where m = "MkdirAll (dir @ ws)", OF mk [unfolded \<open>x = Inr y\<close>]] 
          ithen_go [where m = "unpackSource (pf_decode pl) fetch (buildContext t) (dir @ ws)", OF s [unfolded Inr]] .
      moreover have "treeOK (files h2)" "files h2 dir = Some DirNode" using k2 by (simp_all add: keepsOutside_def)
      ultimately have "keepsOutside dir (files h2) (files h')" by (rule belowD)
      with k1 k2 keepsOutside_trans show ?thesis by blast
    qed
  qed
qed

lemma runIn_outside:
  assumes ok: "platformOK pl" and f: "fresh dir (files h)" and nb: "\<not> badWorkdir (imWorkdir t)"
    and b: "runIn pl fetch archive t dir h = (r, h')"
  shows "keepsOutside dir (files h) (files h') \<and> (\<forall>job. r = Inr job \<longrightarrow> jb_dir job = dir)"
proof -
  obtain ws where ws: "joinPath dir (imWorkdir t) = dir @ ws" "list_all plain ws" by (rule workdir_below [OF nb])
  have d: "treeOK (files h)" "files h dir = Some DirNode" using f by (simp_all add: fresh_def)
  obtain x h1 where p: "prepareWorkdir (pf_decode pl) fetch archive (imWorkdir t) (es_source (ex_spec t)) dir h = (x, h1)"
    by (rule prod.exhaust)
  have k1: "keepsOutside dir (files h) (files h1)"
    using prepareWorkdir_changed [OF f ws p] d changed_outside by blast
  show ?thesis
  proof (cases x)
    case (Inl e)
    with b p k1 show ?thesis by (auto simp: runIn_def Let_def ithen_def)
  next
    case (Inr y)
    let ?job = "\<lambda>json bwrap args. let c = sandboxed pl bwrap dir (sandboxWorkdir t) (taskOptions pl t json) args in
        case pf_start pl c of
          Some e \<Rightarrow> ifail e
        | None \<Rightarrow> iret \<lparr>jb_task = t, jb_dir = dir, jb_command = c\<rparr>"
    let ?rest = "ithen (ilift (pf_json pl (ex_envs t))) (\<lambda>json.
      ithen (wrapping ''image python unavailable'' (Stat ((dir @ ws) @ [venv, ''bin'', ''python'']))) (\<lambda>_.
      ithen (ilift (pf_look pl ''bwrap'')) (\<lambda>bwrap.
      ithen (wrapping ''check uv environment'' (runProgram pl (sandboxed pl bwrap dir (sandboxWorkdir t) [] syncCheck))) (\<lambda>_.
      ithen (ilift (startup t)) (\<lambda>args. ?job json bwrap args)))))"
    have run: "?rest h1 = (r, h')"
      using b unfolding runIn_def Let_def ws(1) 
        ithen_go [where m = "prepareWorkdir (pf_decode pl) fetch archive (imWorkdir t) (es_source (ex_spec t)) dir", OF p [unfolded Inr]] .
    have "below dir (?job json bwrap args)" for json bwrap args
      by (simp add: Let_def below_lift split: option.split)
    then have "below dir ?rest" by (intro below_rules ok)
    moreover have "treeOK (files h1)" "files h1 dir = Some DirNode" using k1 by (simp_all add: keepsOutside_def)
    ultimately have "keepsOutside dir (files h1) (files h')" using run by (intro belowD)
    moreover have "jb_dir job = dir" if "r = Inr job" for job
      using run that by (auto simp: ithen_def iret_def ifail_def Let_def split: prod.splits sum.splits option.splits)
    ultimately show ?thesis using k1 keepsOutside_trans by blast
  qed
qed

subsection \<open>The property\<close>

lemma Build_files:
  assumes ok: "platformOK pl" and t: "treeOK (files h)" and nb: "\<not> badWorkdir (imWorkdir t)"
  shows "files (snd (Build pl store fetch (Some t) h)) = files h"
proof (cases "makeTemp pl ''lutra-build-'' DirNode h")
  case (Pair r h1)
  show ?thesis
  proof (cases r)
    case (Inl e)
    with Pair makeTemp_Inl [of pl _ _ h e h1] show ?thesis by (simp add: Build_def ithen_def)
  next
    case (Inr dir)
    note mk = Pair [unfolded Inr]
    note d = makeTemp_Inr [OF ok t mk] and f = makeTemp_fresh [OF ok t mk]
    obtain x h2 where b: "buildIn pl store fetch t dir h1 = (x, h2)" by (rule prod.exhaust)
    have "keepsOutside dir ((files h)(dir \<mapsto> DirNode)) (files h2)"
      using buildIn_outside [OF ok f nb b] d by simp
    then have "files (RemoveAll pl dir h2) = files h" by (rule RemoveAll_restores [OF ok t conjunct1 [OF d]])
    with mk b show ?thesis by (simp add: Build_def ithen_def)
  qed
qed

lemma Run_files:
  assumes ok: "platformOK pl" and t: "treeOK (files h)" and nb: "\<not> badWorkdir (imWorkdir t)"
    and r: "Run pl load fetch uri t h = (r, h')"
  shows "case r of
      Inl e \<Rightarrow> files h' = files h
    | Inr job \<Rightarrow> files h (jb_dir job) = None \<and> keepsOutside (jb_dir job) ((files h)(jb_dir job \<mapsto> DirNode)) (files h')"
proof (cases "startGuards uri t = None \<and> (\<exists>ld archive. load = Some ld \<and> ld (the uri) = Inr archive)")
  case False
  with r show ?thesis
    by (cases r) (auto simp: Run_def ifail_def ithen_def ilift_def split: option.splits sum.splits)
next
  case True
  then obtain ld archive where s: "startGuards uri t = None" "load = Some ld" "ld (the uri) = Inr archive" by blast
  obtain x h1 where mk: "makeTemp pl ''lutra-run-'' DirNode h = (x, h1)" by (rule prod.exhaust)
  show ?thesis
  proof (cases x)
    case (Inl e)
    with r s mk makeTemp_Inl [of pl _ _ h e h1] show ?thesis
      by (auto simp: Run_def ithen_def ilift_def)
  next
    case (Inr dir)
    note mk' = mk [unfolded Inr]
    note d = makeTemp_Inr [OF ok t mk'] and f = makeTemp_fresh [OF ok t mk']
    obtain y h2 where b: "runIn pl fetch archive t dir h1 = (y, h2)" by (rule prod.exhaust)
    note o = runIn_outside [OF ok f nb b]
    then have k: "keepsOutside dir ((files h)(dir \<mapsto> DirNode)) (files h2)" using d by simp
    have "files (RemoveAll pl dir h2) = files h" by (rule RemoveAll_restores [OF ok t conjunct1 [OF d] k])
    with r s mk' b k o d show ?thesis
      by (cases y) (auto simp: Run_def ithen_def ilift_def)
  qed
qed

text \<open>The process of a job writes below the job's directory only.\<close>

definition courseOK :: "course \<Rightarrow> bool" where
  "courseOK course \<longleftrightarrow> (\<forall>job h. treeOK (files h) \<and> files h (jb_dir job) = Some DirNode \<longrightarrow>
     keepsOutside (jb_dir job) (files h) (files (snd (course job h))))"


end
