(* ===== verification/Extract_Example.thy ===== *)
theory Extract_Example
  imports Extract_Properties
begin

section \<open>A task's directory being unpacked\<close>

text \<open>
  A concrete run of \<open>prepareWorkdir\<close>: an image whose interpreter is a link out of the directory,
  and a bundle of one file.
\<close>

definition exDecode :: decoder where
  "exDecode bs =
     (if bs = [1]
      then Inr ([\<lparr>mb_name = ''.venv/python'', mb_type = MLink, mb_size = 0, mb_mode = 511, mb_link = ''/usr/bin/python3'', mb_data = []\<rparr>],
                None)
      else Inr ([\<lparr>mb_name = ''main.py'', mb_type = MReg, mb_size = 2, mb_mode = 420, mb_link = [], mb_data = [7, 8]\<rparr>], None))"

definition exHost :: host where
  "exHost = \<lparr>files = [[] \<mapsto> DirNode, [''w''] \<mapsto> DirNode], diskFaults = (\<lambda>_. None), diskCalls = 0\<rparr>"

definition exFs :: "(fpath \<rightharpoonup> fnode) \<Rightarrow> nat \<Rightarrow> host" where
  "exFs m k = \<lparr>files = m, diskFaults = (\<lambda>_. None), diskCalls = k\<rparr>"

lemma exFs_sel [simp]: "files (exFs m k) = m" by (simp add: exFs_def)

lemma syscall_exFs [simp]: "syscall f (exFs m k) = (fst (f m), exFs (snd (f m)) (Suc k))"
  by (simp add: syscall_def exFs_def split: prod.splits)

lemma exHost_fs: "exHost = exFs [[] \<mapsto> DirNode, [''w''] \<mapsto> DirNode] 0"
  by (simp add: exHost_def exFs_def)

definition exM :: "fpath \<rightharpoonup> fnode" where
  "exM = [[] \<mapsto> DirNode, [''w''] \<mapsto> DirNode, [''w'', ''.venv''] \<mapsto> DirNode,
          [''w'', ''.venv'', ''python''] \<mapsto> LinkNode ''/usr/bin/python3'']"

lemma ex_names:
  "trimSuffix ''.venv/python'' ''/'' = ''.venv/python''" "pathClean ''.venv/python'' = ''.venv/python''"
  "joinPath [''w''] ''.venv/python'' = [''w'', ''.venv'', ''python'']" "joinPath [''w''] ''.'' = [''w'']"
  "hasPrefix ''.venv/python'' (venv @ ''/'')" "\<not> isAbs ''.venv/python''"
  "\<not> unsafeLink ''.venv/python'' ''/usr/bin/python3''"
  "trimSuffix ''main.py'' ''/'' = ''main.py''" "\<not> unsafeName ''main.py''" "joinPath [''w''] ''main.py'' = [''w'', ''main.py'']"
  "\<not> hasPrefix ''main.py'' (venv @ ''/'')" "''main.py'' \<noteq> venv"
  by code_simp+

lemmas ex_run = Let_def ex_names ithen_def iret_def ending_def MkdirAll.simps checkParents.simps Stat_def Lstat_def
  nodeAt_def maxLinks_def create_def createAt_def eNotExist_def exDecode_def writeMember_def writeFile_def

lemma exImage: "unpackImage exDecode [1] ''.'' [''w''] exHost = (Inr (), exFs exM 6)"
  unfolding exM_def exHost_fs
  by (simp add: unpackImage_def extractImage_def imageMember_def ex_run) (simp add: eval_nat_numeral)

lemma exBundle:
  "extractBundle exDecode [2] [''w''] (exFs exM 6) = (Inr (), exFs (exM([''w'', ''main.py''] \<mapsto> FileNode [7, 8] 384)) 9)"
  unfolding exM_def
  by (simp add: extractBundle_def bundleMember_def ex_run wrap64_def fun_upd_twist)

definition exRun :: "(goerr + unit) \<times> host" where
  "exRun = prepareWorkdir exDecode (Some (\<lambda>_. Inr ([2], None))) [1] ''.'' (sourceURI (sha256 [2])) [''w''] exHost"

lemma exRun_result: "exRun = (Inr (), exFs (exM([''w'', ''main.py''] \<mapsto> FileNode [7, 8] 384)) 9)"
proof -
  have "unpackSource exDecode (Some (\<lambda>_. Inr ([2], None))) (sourceURI (sha256 [2])) [''w''] (exFs exM 6) =
      (Inr (), exFs (exM([''w'', ''main.py''] \<mapsto> FileNode [7, 8] 384)) 9)"
    using exBundle parse_source [OF length_sha256, of "[2]"]
    by (simp add: unpackSource_def maxSourceSize_def ithen_def iret_def)
  with exImage show ?thesis by (simp add: exRun_def prepareWorkdir_def ithen_def ex_names)
qed

theorem sandbox_confined_witness:
  "fst exRun = Inr () \<and> files (snd exRun) [''w'', ''main.py''] = Some (FileNode [7, 8] 384) \<and>
   files (snd exRun) [] = Some DirNode \<and>
   files (snd exRun) [''w'', ''.venv'', ''python''] = Some (LinkNode ''/usr/bin/python3'')"
proof -
  have fr: "fresh [''w''] (files exHost)"
    by (auto simp: fresh_def treeOK_def exHost_def plain_def strict_prefix_def)
  have nb: "\<not> badWorkdir ''.''" by code_simp
  have "prepareWorkdir exDecode (Some (\<lambda>_. Inr ([2], None))) [1] ''.'' (sourceURI (sha256 [2])) [''w''] exHost = (fst exRun, snd exRun)"
    by (simp add: exRun_def)
  note s = sandbox_confined [OF fr nb this]
  have "files (snd exRun) [] = files exHost []" using s by (simp add: strict_prefix_def)
  moreover have "files (snd exRun) [''w'', ''.venv'', ''python''] = exM [''w'', ''.venv'', ''python'']"
    using conjunct1 [OF conjunct2 [OF s]] by (simp add: exImage ex_names venv_def)
  ultimately show ?thesis by (simp add: exRun_result exHost_def exM_def)
qed

text \<open>
  The limit of \<open>extractImage\<close> is on a sum of 64 bits: after a member of one byte, one that
  claims \<open>2^63 - 1\<close> bytes makes the sum negative and passes, and its content is written.
\<close>

lemma image_limit_wraps: "\<not> wrap64 (1 + 9223372036854775807) > 2147483648"
  by (simp add: wrap64_def)

end
