(* ===== verification/Local_Executor_Example.thy ===== *)
theory Local_Executor_Example
  imports Local_Executor_Properties Extract_Example
begin

section \<open>A build and a task on a small host\<close>

text \<open>
  A platform whose sandbox changes nothing, and a task whose image and bundle hold one file
  each: the property of \<open>Local_Executor_Properties\<close> at a run that starts its job.
\<close>

subsection \<open>A task that is built and run\<close>

definition hostDecode :: decoder where
  "hostDecode bs =
     (if bs = [1]
      then Inr ([\<lparr>mb_name = ''.venv/bin/python'', mb_type = MReg, mb_size = 1, mb_mode = 493, mb_link = [], mb_data = [5]\<rparr>], None)
      else Inr ([\<lparr>mb_name = ''main.py'', mb_type = MReg, mb_size = 2, mb_mode = 420, mb_link = [], mb_data = [7, 8]\<rparr>], None))"

definition hostPlatform :: platform where
  "hostPlatform = \<lparr>pf_path = ''/bin'', pf_look = Inr, pf_eval = Inr, pf_run = (\<lambda>c m. (None, m)), pf_start = (\<lambda>_. None),
     pf_pick = (\<lambda>pattern m. if pattern = ''lutra-image-*.tar.zst'' then [''x''] else [''w'']),
     pf_removes = (\<lambda>_ _. True), pf_json = (\<lambda>_. Inr ''[]''), pf_visit = rev, pf_decode = hostDecode\<rparr>"

definition hostTask :: envExecution where
  "hostTask =
     \<lparr>ex_env = \<lparr>id_ns = ''n'', id_name = ''e'', id_version = []\<rparr>, ex_provider = localTaskImage,
      ex_spec = \<lparr>es_ns = ''n'', es_name = ''e'', es_source = sourceURI (sha256 [2]),
        es_image = Some \<lparr>im_name = [], im_reference = [], im_cpu = 0, im_memory = 0, im_env = [(''A'', ''1'')],
          im_context = sourceURI (sha256 [2]), im_command = Some [''uv'', ''sync''], im_workdir = ''.''\<rparr>,
        es_deps = [], es_entries = [Some \<lparr>en_command = Some [''python'', ''main.py''], en_attempts = 1, en_cache = False, en_version = []\<rparr>]\<rparr>,
      ex_entry = 1, ex_input = [], ex_envs = [], ex_run = ''r'', ex_action = ''a'', ex_attempt = 1\<rparr>"

definition emptyHost :: host where
  "emptyHost = \<lparr>files = [[] \<mapsto> DirNode], diskFaults = (\<lambda>_. None), diskCalls = 0\<rparr>"

lemma hostPlatform_ok: "platformOK hostPlatform"
  by (simp add: platformOK_def hostPlatform_def plain_def noLinks_def keepsOutside_refl)

lemma emptyHost_tree: "treeOK (files emptyHost)"
  by (simp add: treeOK_def emptyHost_def)

lemma hostTask_workdir: "imWorkdir hostTask = ''.''" "\<not> badWorkdir (imWorkdir hostTask)"
proof -
  show w: "imWorkdir hostTask = ''.''" by (simp add: imWorkdir_def hostTask_def)
  have "\<not> badWorkdir ''.''" by code_simp
  with w show "\<not> badWorkdir (imWorkdir hostTask)" by simp
qed

definition hostM :: "fpath \<rightharpoonup> fnode" where
  "hostM = [[] \<mapsto> DirNode, [''w''] \<mapsto> DirNode, [''w'', ''.venv''] \<mapsto> DirNode, [''w'', ''.venv'', ''bin''] \<mapsto> DirNode,
          [''w'', ''.venv'', ''bin'', ''python''] \<mapsto> FileNode [5] 493]"

lemma host_names:
  "trimSuffix ''.venv/bin/python'' ''/'' = ''.venv/bin/python''" "pathClean ''.venv/bin/python'' = ''.venv/bin/python''"
  "joinPath [''w''] ''.venv/bin/python'' = [''w'', ''.venv'', ''bin'', ''python'']"
  "hasPrefix ''.venv/bin/python'' (venv @ ''/'')" "\<not> isAbs ''.venv/bin/python''"
  by code_simp+

lemma hostImage: "unpackImage hostDecode [1] ''.'' [''w''] (exFs [[] \<mapsto> DirNode, [''w''] \<mapsto> DirNode] 1) = (Inr (), exFs hostM 11)"
  unfolding hostM_def
  by (simp add: unpackImage_def extractImage_def imageMember_def ex_run host_names hostDecode_def wrap64_def)
    (simp add: eval_nat_numeral)

lemma hostPrepared:
  "prepareWorkdir hostDecode (Some (\<lambda>_. Inr ([2], None))) [1] ''.'' (sourceURI (sha256 [2])) [''w'']
     (exFs [[] \<mapsto> DirNode, [''w''] \<mapsto> DirNode] 1) =
   (Inr (), exFs (hostM([''w'', ''main.py''] \<mapsto> FileNode [7, 8] 384)) 14)"
proof -
  have b: "extractBundle hostDecode [2] [''w''] (exFs hostM 11) =
      (Inr (), exFs (hostM([''w'', ''main.py''] \<mapsto> FileNode [7, 8] 384)) 14)"
    unfolding hostM_def
    by (simp add: extractBundle_def bundleMember_def ex_run hostDecode_def wrap64_def fun_upd_twist)
  have "unpackSource hostDecode (Some (\<lambda>_. Inr ([2], None))) (sourceURI (sha256 [2])) [''w''] (exFs hostM 11) =
      (Inr (), exFs (hostM([''w'', ''main.py''] \<mapsto> FileNode [7, 8] 384)) 14)"
    using b parse_source [OF length_sha256, of "[2]"]
    by (simp add: unpackSource_def maxSourceSize_def ithen_def iret_def)
  with hostImage show ?thesis by (simp add: prepareWorkdir_def ithen_def ex_names)
qed

definition hostCommand :: command where
  "hostCommand = sandboxed hostPlatform ''bwrap'' [''w''] (sandboxWorkdir hostTask) (taskOptions hostPlatform hostTask ''[]'')
     [''python'', ''main.py'']"

lemma hostTask_parts: "es_source (ex_spec hostTask) = sourceURI (sha256 [2])" "startup hostTask = Inr [''python'', ''main.py'']"
  "startGuards (Some u) hostTask = None"
  by (simp_all add: hostTask_def startup_def startGuards_def)

lemma hostStat: "Stat [''w'', ''.venv'', ''bin'', ''python''] (exFs (hostM([''w'', ''main.py''] \<mapsto> FileNode [7, 8] 384)) 14) =
    (Inr (FileNode [5] 493), exFs (hostM([''w'', ''main.py''] \<mapsto> FileNode [7, 8] 384)) 15)"
  unfolding hostM_def by (simp add: Stat_def nodeAt_def maxLinks_def)

lemma hostPlatform_parts: "pf_look hostPlatform = Inr" "pf_run hostPlatform c m = (None, m)" "pf_start hostPlatform c = None"
  "pf_json hostPlatform es = Inr ''[]''" "pf_decode hostPlatform = hostDecode"
  by (simp_all add: hostPlatform_def)

lemma exFs_same: "(exFs m k)\<lparr>files := m\<rparr> = exFs m k"
  by (simp add: exFs_def)

lemma hostRuns:
  "Run hostPlatform (Some (\<lambda>_. Inr [1])) (Some (\<lambda>_. Inr ([2], None))) (Some ''u'') hostTask emptyHost =
   (Inr \<lparr>jb_task = hostTask, jb_dir = [''w''], jb_command = hostCommand\<rparr>,
    exFs (hostM([''w'', ''main.py''] \<mapsto> FileNode [7, 8] 384)) 15)"
proof -
  have e: "emptyHost = exFs [[] \<mapsto> DirNode] 0" by (simp add: emptyHost_def exFs_def)
  have mk: "makeTemp hostPlatform ''lutra-run-'' DirNode emptyHost = (Inr [''w''], exFs [[] \<mapsto> DirNode, [''w''] \<mapsto> DirNode] 1)"
    by (simp add: e makeTemp_def hostPlatform_def createAt_def maxLinks_def)
  have "runIn hostPlatform (Some (\<lambda>_. Inr ([2], None))) [1] hostTask [''w''] (exFs [[] \<mapsto> DirNode, [''w''] \<mapsto> DirNode] 1) =
    (Inr \<lparr>jb_task = hostTask, jb_dir = [''w''], jb_command = hostCommand\<rparr>,
     exFs (hostM([''w'', ''main.py''] \<mapsto> FileNode [7, 8] 384)) 15)"
    using hostPrepared hostStat
    by (simp add: runIn_def hostTask_workdir(1) hostTask_parts hostPlatform_parts ithen_def ilift_def wrapping_def
        runProgram_def iret_def Let_def ex_names venv_def hostCommand_def exFs_same)
  with mk show ?thesis by (simp add: Run_def hostTask_parts ithen_def ilift_def)
qed

text \<open>The task leaves a file in its directory and answers.\<close>

definition hostCourse :: course where
  "hostCourse job h =
     ((Inr \<lparr>er_code = [], er_details = [], er_output = [9], er_type = ''application/cbor''\<rparr>, None),
      (if jb_dir job = [''w''] then snd (create [''w'', ''out''] (FileNode [1] 420) h) else h))"

lemma hostCourse_ok: "courseOK hostCourse"
  unfolding courseOK_def
proof (intro allI impI)
  fix job :: localJob and h :: host
  assume h: "treeOK (files h) \<and> files h (jb_dir job) = Some DirNode"
  show "keepsOutside (jb_dir job) (files h) (files (snd (hostCourse job h)))"
  proof (cases "jb_dir job = [''w'']")
    case True
    obtain r h' where c: "create [''w'', ''out''] (FileNode [1] 420) h = (r, h')" by (rule prod.exhaust)
    have "noLinks (files h) [] [''w'', ''out'']"
      using h True by (auto simp: noLinks_def isLink_def less_Suc_eq)
    from create_changed [OF _ this _ c] h
    have "changed (\<lambda>q x. q = [''w'', ''out''] \<and> q \<noteq> [] \<and> x = Some (FileNode [1] 420)) (files h) (files h')"
      by (simp add: plain_def)
    then have "changed (\<lambda>q n. strict_prefix [''w''] q) (files h) (files h')"
      by (rule changed_mono) (auto simp: strict_prefix_def)
    with changed_outside h True c show ?thesis by (simp add: hostCourse_def)
  next
    case False
    with h show ?thesis by (simp add: hostCourse_def keepsOutside_refl)
  qed
qed


end
