(* ===== verification/Settings.thy ===== *)
theory Settings
  imports Runs
begin

section \<open>Namespaces and their settings\<close>

text \<open>
  \<open>internal/settings/service.go\<close>: namespaces, and the settings under each, which are CBOR
  values by path, with the queries of \<open>db/queries/settings.sql\<close> and the constraints of the
  two tables. The collation by which PostgreSQL orders text and \<open>cbor.Unmarshal\<close> are parameters.
\<close>

subsection \<open>Names and paths\<close>

definition lowerLetter :: "char \<Rightarrow> bool" where
  "lowerLetter c \<longleftrightarrow> 97 \<le> (of_char c :: nat) \<and> (of_char c :: nat) \<le> 122"

definition decimal :: "char \<Rightarrow> bool" where
  "decimal c \<longleftrightarrow> 48 \<le> (of_char c :: nat) \<and> (of_char c :: nat) \<le> 57"

text \<open>\<open>[a-z][a-z0-9\<close>\<open>extra\<close>\<open>]{0,n}\<close>\<close>

definition slugWord :: "string \<Rightarrow> nat \<Rightarrow> string \<Rightarrow> bool" where
  "slugWord extra n s =
     (case s of
        [] \<Rightarrow> False
      | c # cs \<Rightarrow> lowerLetter c \<and> length cs \<le> n \<and> list_all (\<lambda>c. lowerLetter c \<or> decimal c \<or> c \<in> set extra) cs)"

definition slugPattern :: "string \<Rightarrow> bool" where
  "slugPattern s = slugWord ''-'' 62 s"

definition pathPattern :: "string \<Rightarrow> bool" where
  "pathPattern s = list_all (slugWord ''_-'' 63) (splitAt (CHR ''/'') s)"

definition invalidSetting :: "string \<Rightarrow> goerr" where
  "invalidSetting m = Rpc InvalidArgument m"

definition validateName :: "string \<Rightarrow> goerr option" where
  "validateName s =
     (let n = length (trimSpace s) in if n = 0 \<or> n > 200 then Some (invalidSetting ''invalid name'') else None)"

definition validatePath :: "string \<Rightarrow> goerr option" where
  "validatePath s =
     (if \<not> pathPattern s \<or> length s > 512 then Some (invalidSetting ''invalid setting path'') else None)"

definition validateCBOR :: "(bytes \<Rightarrow> bool) \<Rightarrow> bytes \<Rightarrow> goerr option" where
  "validateCBOR unmarshals v =
     (if length v = 0 \<or> length v > 65536 then Some (invalidSetting ''invalid CBOR value size'')
      else if \<not> unmarshals v then Some (invalidSetting ''invalid CBOR value'')
      else None)"

subsection \<open>The queries\<close>

text \<open>The error of code 23505. PostgreSQL's \<open>length\<close> counts the characters of UTF-8 text.\<close>

definition uniqueViolation :: goerr where "uniqueViolation = Plain ''duplicate key value violates unique constraint''"

definition runeCount :: "string \<Rightarrow> nat" where
  "runeCount s = length (filter (\<lambda>c. (of_char c :: nat) div 64 \<noteq> 2) s)"

definition createNamespace :: "uuid \<Rightarrow> string \<Rightarrow> string \<Rightarrow> time \<Rightarrow> tables \<Rightarrow> goerr + namespace_row \<times> tables" where
  "createNamespace i slug name stamp t =
     (if \<not> slugPattern slug \<or> runeCount name < 1 \<or> runeCount name > 200 then Inl constraint
      else if \<exists>n\<in>set (t_namespaces t). n_id n = i \<or> n_slug n = slug then Inl uniqueViolation
      else
        (let row = \<lparr>n_id = i, n_slug = slug, n_name = name, n_created = stamp\<rparr> in
         Inr (row, t\<lparr>t_namespaces := t_namespaces t @ [row]\<rparr>)))"

definition listNamespaces :: "(string \<Rightarrow> 'k :: linorder) \<Rightarrow> tables \<Rightarrow> namespace_row list" where
  "listNamespaces collate t = sort_key (\<lambda>n. collate (n_slug n)) (t_namespaces t)"

definition getNamespaceByID :: "uuid \<Rightarrow> tables \<Rightarrow> namespace_row option" where
  "getNamespaceByID i t = find (\<lambda>n. n_id n = i) (t_namespaces t)"

definition settingKey :: "setting_row \<Rightarrow> uuid \<times> string" where
  "settingKey g = (g_ns g, g_path g)"

definition upsertSetting :: "uuid \<Rightarrow> string \<Rightarrow> bytes \<Rightarrow> time \<Rightarrow> tables \<Rightarrow> goerr + setting_row \<times> tables" where
  "upsertSetting i path v stamp t =
     (let row = \<lparr>g_ns = i, g_path = path, g_value = v, g_updated = stamp\<rparr> in
      if \<not> pathPattern path \<or> length v < 1 \<or> length v > 65536 then Inl constraint
      else if \<exists>g\<in>set (t_settings t). settingKey g = (i, path)
      then Inr (row, t\<lparr>t_settings := map (\<lambda>g. if settingKey g = (i, path) then row else g) (t_settings t)\<rparr>)
      else if \<not> hasNamespace i t then Inl constraint
      else Inr (row, t\<lparr>t_settings := t_settings t @ [row]\<rparr>))"

definition deleteSetting :: "uuid \<Rightarrow> string \<Rightarrow> tables \<Rightarrow> goerr + nat \<times> tables" where
  "deleteSetting i path t =
     Inr (length (filter (\<lambda>g. settingKey g = (i, path)) (t_settings t)),
       t\<lparr>t_settings := filter (\<lambda>g. settingKey g \<noteq> (i, path)) (t_settings t)\<rparr>)"

definition listSettings :: "(string \<Rightarrow> 'k :: linorder) \<Rightarrow> uuid \<Rightarrow> string list \<Rightarrow> tables \<Rightarrow> setting_row list" where
  "listSettings collate i paths t =
     sort_key (\<lambda>g. collate (g_path g))
       (filter (\<lambda>g. g_ns g = i \<and> (paths = [] \<or> g_path g \<in> set paths)) (t_settings t))"

subsection \<open>The service\<close>

record namespaceMsg =
  nm_id :: string
  nm_slug :: string
  nm_name :: string
  nm_created :: string

record settingMsg =
  sm_ns :: string
  sm_path :: string
  sm_value :: bytes
  sm_updated :: string

definition namespaceMessage :: "lib \<Rightarrow> codecs \<Rightarrow> namespace_row \<Rightarrow> namespaceMsg" where
  "namespaceMessage L C n =
     \<lparr>nm_id = uuidString L (n_id n), nm_slug = n_slug n, nm_name = n_name n, nm_created = formatTime C (n_created n)\<rparr>"

definition settingMessage :: "lib \<Rightarrow> codecs \<Rightarrow> setting_row \<Rightarrow> settingMsg" where
  "settingMessage L C g =
     \<lparr>sm_ns = uuidString L (g_ns g), sm_path = g_path g, sm_value = g_value g, sm_updated = formatTime C (g_updated g)\<rparr>"

definition namespaceID :: "lib \<Rightarrow> string \<Rightarrow> uuid act" where
  "namespaceID L s =
     (case uuidParse L s of
        None \<Rightarrow> fail (invalidSetting ''invalid namespace ID'')
      | Some i \<Rightarrow>
          if i = nilUUID then fail (invalidSetting ''invalid namespace ID'')
          else
            andThen (query (getNamespaceByID i)) (\<lambda>row.
            case row of
              None \<Rightarrow> fail (Rpc NotFound ''namespace not found'')
            | Some n \<Rightarrow> ret (n_id n)))"

definition namespaceError :: "goerr \<Rightarrow> goerr" where
  "namespaceError e = Rpc (if e = uniqueViolation then AlreadyExists else Internal) (errText e)"

definition CreateNamespace :: "lib \<Rightarrow> codecs \<Rightarrow> string \<Rightarrow> string \<Rightarrow> namespaceMsg act" where
  "CreateNamespace L C slug name =
     andThen (guard (slugPattern slug) (invalidSetting ''invalid namespace slug'')) (\<lambda>_.
     andThen (orFail (validateName name)) (\<lambda>_.
     andThen newID (\<lambda>i.
     andThen (\<lambda>w. mapErr namespaceError (stmt (createNamespace i slug name (clock w))) w) (\<lambda>row.
     ret (namespaceMessage L C row)))))"

definition ListNamespaces :: "(string \<Rightarrow> 'k :: linorder) \<Rightarrow> lib \<Rightarrow> codecs \<Rightarrow> namespaceMsg list act" where
  "ListNamespaces collate L C =
     andThen (mapErr internal (query (listNamespaces collate))) (\<lambda>rows.
     ret (map (namespaceMessage L C) rows))"

definition UpsertSetting :: "(bytes \<Rightarrow> bool) \<Rightarrow> lib \<Rightarrow> codecs \<Rightarrow> string \<Rightarrow> string \<Rightarrow> bytes \<Rightarrow> settingMsg act" where
  "UpsertSetting unmarshals L C ns path v =
     andThen (namespaceID L ns) (\<lambda>i.
     andThen (orFail (validatePath path)) (\<lambda>_.
     andThen (orFail (validateCBOR unmarshals v)) (\<lambda>_.
     andThen (\<lambda>w. mapErr (\<lambda>e. Rpc FailedPrecondition (errText e)) (stmt (upsertSetting i path v (clock w))) w) (\<lambda>row.
     ret (settingMessage L C row)))))"

definition DeleteSetting :: "lib \<Rightarrow> string \<Rightarrow> string \<Rightarrow> unit act" where
  "DeleteSetting L ns path =
     andThen (namespaceID L ns) (\<lambda>i.
     andThen (orFail (validatePath path)) (\<lambda>_.
     andThen (mapErr internal (stmt (deleteSetting i path))) (\<lambda>_. ret ())))"

fun validatePaths :: "string list \<Rightarrow> goerr option" where
  "validatePaths [] = None"
| "validatePaths (p # ps) = (case validatePath p of Some e \<Rightarrow> Some e | None \<Rightarrow> validatePaths ps)"

definition ListSettings :: "(string \<Rightarrow> 'k :: linorder) \<Rightarrow> lib \<Rightarrow> codecs \<Rightarrow> string \<Rightarrow> string list \<Rightarrow> settingMsg list act" where
  "ListSettings collate L C ns paths =
     andThen (namespaceID L ns) (\<lambda>i.
     andThen (orFail (validatePaths paths)) (\<lambda>_.
     andThen (mapErr internal (query (listSettings collate i paths))) (\<lambda>rows.
     ret (map (settingMessage L C) rows))))"

end
