(* ===== verification/Settings_Properties.thy ===== *)
theory Settings_Properties
  imports Settings
begin

section \<open>Settings are kept and read back\<close>

text \<open>
  \<open>settingsOK\<close> is what the constraints of the two tables and the checks of the service promise
  together. A setting that was written is what a listing answers, until a request on the same
  path.
\<close>

definition namespaceOK :: "namespace_row \<Rightarrow> bool" where
  "namespaceOK n \<longleftrightarrow> slugPattern (n_slug n) \<and> 1 \<le> runeCount (n_name n) \<and> runeCount (n_name n) \<le> 200"

definition settingOK :: "tables \<Rightarrow> setting_row \<Rightarrow> bool" where
  "settingOK t g \<longleftrightarrow> hasNamespace (g_ns g) t \<and> pathPattern (g_path g) \<and> 1 \<le> length (g_value g) \<and> length (g_value g) \<le> 65536"

definition settingsOK :: "tables \<Rightarrow> bool" where
  "settingsOK t \<longleftrightarrow> distinct (map n_id (t_namespaces t)) \<and> distinct (map n_slug (t_namespaces t)) \<and>
     list_all namespaceOK (t_namespaces t) \<and> distinct (map settingKey (t_settings t)) \<and> list_all (settingOK t) (t_settings t)"

text \<open>No namespace is lost or renamed.\<close>

definition settingsStep :: "tables \<Rightarrow> tables \<Rightarrow> bool" where
  "settingsStep t t' \<longleftrightarrow> set (t_namespaces t) \<subseteq> set (t_namespaces t') \<and> (settingsOK t \<longrightarrow> settingsOK t')"

interpretation sg: frame settingsStep
  by unfold_locales (auto simp: settingsStep_def)

lemma hasNamespace_mono: "set (t_namespaces t) \<subseteq> set (t_namespaces t') \<Longrightarrow> hasNamespace i t \<Longrightarrow> hasNamespace i t'"
  by (auto simp: hasNamespace_def)

lemma createNamespace_step: "createNamespace i slug name stamp t = Inr (row, t') \<Longrightarrow> settingsStep t t'"
  by (auto simp: createNamespace_def Let_def settingsStep_def settingsOK_def namespaceOK_def settingOK_def list_all_iff
      hasNamespace_def split: if_splits)

lemma settingKey_row [simp]: "settingKey \<lparr>g_ns = i, g_path = p, g_value = v, g_updated = s\<rparr> = (i, p)"
  by (simp add: settingKey_def)

lemma upsertSetting_Inr:
  assumes "upsertSetting i path v stamp t = Inr (row, t')"
  obtains "row = \<lparr>g_ns = i, g_path = path, g_value = v, g_updated = stamp\<rparr>" "pathPattern path" "1 \<le> length v" "length v \<le> 65536"
    "t_namespaces t' = t_namespaces t"
    "(i, path) \<in> settingKey ` set (t_settings t) \<and>
       t_settings t' = map (\<lambda>g. if settingKey g = (i, path) then row else g) (t_settings t) \<or>
     (i, path) \<notin> settingKey ` set (t_settings t) \<and> hasNamespace i t \<and> t_settings t' = t_settings t @ [row]"
proof -
  let ?row = "\<lparr>g_ns = i, g_path = path, g_value = v, g_updated = stamp\<rparr>"
  have ok: "pathPattern path" "1 \<le> length v" "length v \<le> 65536"
    using assms unfolding upsertSetting_def Let_def by (simp_all add: Suc_le_eq split: if_splits)
  show thesis
  proof (cases "\<exists>g\<in>set (t_settings t). settingKey g = (i, path)")
    case True
    then have "(i, path) \<in> settingKey ` set (t_settings t)" by force
    with True assms ok that show thesis unfolding upsertSetting_def Let_def by (auto split: if_splits)
  next
    case False
    then have "(i, path) \<notin> settingKey ` set (t_settings t)" by force
    with False assms ok that show thesis unfolding upsertSetting_def Let_def by (auto split: if_splits)
  qed
qed

lemma map_upsert_keys:
  "settingKey row = k \<Longrightarrow> map settingKey (map (\<lambda>g. if settingKey g = k then row else g) gs) = map settingKey gs"
  by (induction gs) auto

lemma upsertSetting_step:
  assumes u: "upsertSetting i path v stamp t = Inr (row, t')"
  shows "settingsStep t t'"
  using u
proof (cases rule: upsertSetting_Inr)
  case 1
  have ns: "hasNamespace x t' = hasNamespace x t" for x using 1(5) by (simp add: hasNamespace_def)
  have key: "settingKey row = (i, path)" using 1(1) by simp
  have "settingsOK t'" if ok: "settingsOK t"
  proof -
    have "distinct (map settingKey (t_settings t'))"
      using 1(6) ok key by (auto simp: settingsOK_def map_upsert_keys simp del: map_map)
    moreover have "hasNamespace i t" using 1(6) ok by (auto simp: settingsOK_def list_all_iff settingOK_def settingKey_def)
    then have "list_all (settingOK t') (t_settings t')"
      using 1(1-4,6) ok ns by (auto simp: settingsOK_def list_all_iff settingOK_def)
    ultimately show ?thesis using ok 1(5) by (simp add: settingsOK_def)
  qed
  then show ?thesis using 1(5) by (simp add: settingsStep_def)
qed

lemma deleteSetting_step: "deleteSetting i path t = Inr (n, t') \<Longrightarrow> settingsStep t t'"
  by (auto simp: deleteSetting_def settingsStep_def settingsOK_def settingOK_def hasNamespace_def list_all_iff distinct_map
      inj_on_def)

text \<open>A request of the service, whatever its arguments.\<close>

datatype settingsRequest =
    NewNamespace string string
  | AllNamespaces
  | PutSetting string string bytes
  | DropSetting string string
  | GetSettings string "string list"

definition serveSettings :: "(string \<Rightarrow> 'k :: linorder) \<Rightarrow> (bytes \<Rightarrow> bool) \<Rightarrow> lib \<Rightarrow> codecs \<Rightarrow> settingsRequest \<Rightarrow> unit act" where
  "serveSettings collate unmarshals L C q =
     (case q of
        NewNamespace slug name \<Rightarrow> andThen (CreateNamespace L C slug name) (\<lambda>_. ret ())
      | AllNamespaces \<Rightarrow> andThen (ListNamespaces collate L C) (\<lambda>_. ret ())
      | PutSetting ns path v \<Rightarrow> andThen (UpsertSetting unmarshals L C ns path v) (\<lambda>_. ret ())
      | DropSetting ns path \<Rightarrow> DeleteSetting L ns path
      | GetSettings ns paths \<Rightarrow> andThen (ListSettings collate L C ns paths) (\<lambda>_. ret ()))"

fun afterRequests :: "(string \<Rightarrow> 'k :: linorder) \<Rightarrow> (bytes \<Rightarrow> bool) \<Rightarrow> lib \<Rightarrow> codecs \<Rightarrow> settingsRequest list \<Rightarrow> world \<Rightarrow> world" where
  "afterRequests collate unmarshals L C [] w = w"
| "afterRequests collate unmarshals L C (q # qs) w =
     afterRequests collate unmarshals L C qs (snd (serveSettings collate unmarshals L C q w))"

text \<open>What every statement keeps, every request keeps, and so do all of them.\<close>

locale settings_frame = frame R for R +
  fixes allowed :: "settingsRequest \<Rightarrow> bool" and L :: lib
  assumes namespaces: "createNamespace i slug name stamp t = Inr (space, t') \<Longrightarrow> R t t'"
    and upserts: "allowed (PutSetting ns path v) \<Longrightarrow> uuidParse L ns = Some i \<Longrightarrow> upsertSetting i path v stamp t = Inr (row, t') \<Longrightarrow> R t t'"
    and deletes: "allowed (DropSetting ns path) \<Longrightarrow> uuidParse L ns = Some i \<Longrightarrow> deleteSetting i path t = Inr (n, t') \<Longrightarrow> R t t'"
begin

lemma orFail: "keeps R (orFail e)"
  unfolding orFail_def by (intro rules)

lemma timed:
  assumes "\<And>c t x t'. f c t = Inr (x, t') \<Longrightarrow> R t t'"
  shows "keeps R (\<lambda>w. mapErr h (stmt (f (clock w))) w)"
proof -
  have "keeps R (mapErr h (stmt (f c)))" for c by (intro rules statement) (rule assms)
  then show ?thesis by (simp add: within_def)
qed

lemma byNamespace:
  assumes "\<And>i. uuidParse L ns = Some i \<Longrightarrow> keeps R (f i)"
  shows "keeps R (andThen (namespaceID L ns) f)"
proof (cases "uuidParse L ns")
  case None
  then have "andThen (namespaceID L ns) f = fail (invalidSetting ''invalid namespace ID'')"
    by (simp add: fun_eq_iff namespaceID_def andThen_def)
  then show ?thesis by (simp add: w.fail)
next
  case (Some i)
  have found: "fst (namespaceID L ns w) = Inr x \<Longrightarrow> x = i" for w x
    using Some by (auto simp: namespaceID_def query_def andThen_def getNamespaceByID_def call_def find_Some_iff
        split: if_splits option.splits prod.splits sum.splits)
  have "keeps R (namespaceID L ns)" unfolding namespaceID_def by (intro rules)
  moreover have "keeps R (f i)" using Some by (rule assms)
  ultimately show ?thesis
    unfolding within_def
  proof (intro allI)
    fix w
    assume n: "\<forall>w. R (tabs w) (tabs (snd (namespaceID L ns w)))" and f: "\<forall>w. R (tabs w) (tabs (snd (f i w)))"
    obtain r v where r: "namespaceID L ns w = (r, v)" by (rule prod.exhaust)
    with n [rule_format, of w] have v: "R (tabs w) (tabs v)" by simp
    show "R (tabs w) (tabs (snd (andThen (namespaceID L ns) f w)))"
    proof (cases r)
      case (Inl e)
      with r v show ?thesis by (simp add: andThen_def)
    next
      case (Inr x)
      with r found [of w x] have "x = i" by simp
      with r Inr have "andThen (namespaceID L ns) f w = f i v" by (simp add: andThen_def)
      with trans [OF v f [rule_format, of v]] show ?thesis by simp
    qed
  qed
qed

lemma serve: "allowed q \<Longrightarrow> keeps R (serveSettings collate unmarshals L C q)"
proof (cases q)
  case (NewNamespace slug name)
  have "keeps R (CreateNamespace L C slug name)"
    unfolding CreateNamespace_def by (intro rules orFail timed) (rule namespaces)
  with NewNamespace show ?thesis by (simp add: serveSettings_def rules)
next
  case AllNamespaces
  then show ?thesis by (simp add: serveSettings_def ListNamespaces_def rules)
next
  case (PutSetting ns path v)
  assume a: "allowed q"
  have "keeps R (UpsertSetting unmarshals L C ns path v)"
    unfolding UpsertSetting_def
    by (rule byNamespace) (intro rules orFail timed, rule upserts [OF a [unfolded PutSetting]])
  with PutSetting show ?thesis by (simp add: serveSettings_def rules)
next
  case (DropSetting ns path)
  assume a: "allowed q"
  have "keeps R (DeleteSetting L ns path)"
    unfolding DeleteSetting_def
    by (rule byNamespace) (intro rules orFail statement, rule deletes [OF a [unfolded DropSetting]])
  with DropSetting show ?thesis by (simp add: serveSettings_def)
next
  case (GetSettings ns paths)
  have "keeps R (ListSettings collate L C ns paths)"
    unfolding ListSettings_def by (rule byNamespace) (intro rules orFail)
  with GetSettings show ?thesis by (simp add: serveSettings_def rules)
qed

lemma requests: "list_all allowed qs \<Longrightarrow> R (tabs w) (tabs (afterRequests collate unmarshals L C qs w))"
proof (induction qs arbitrary: w)
  case (Cons q qs)
  let ?v = "snd (serveSettings collate unmarshals L C q w)"
  from Cons.prems have "keeps R (serveSettings collate unmarshals L C q)" by (simp add: serve)
  then have "R (tabs w) (tabs ?v)" by (simp add: within_def)
  with Cons.IH [of ?v] Cons.prems show ?case by (auto intro: trans)
qed (simp add: refl)

end

interpretation sk: settings_frame settingsStep "\<lambda>_. True" L for L
  by unfold_locales (auto intro: createNamespace_step upsertSetting_step deleteSetting_step)


subsection \<open>Reading back\<close>

definition spares :: "lib \<Rightarrow> string \<Rightarrow> string \<Rightarrow> settingsRequest \<Rightarrow> bool" where
  "spares L ns path q =
     (case q of
        PutSetting ns' path' _ \<Rightarrow> uuidParse L ns' \<noteq> uuidParse L ns \<or> path' \<noteq> path
      | DropSetting ns' path' \<Rightarrow> uuidParse L ns' \<noteq> uuidParse L ns \<or> path' \<noteq> path
      | _ \<Rightarrow> True)"

definition rowKept :: "(uuid \<times> string) option \<Rightarrow> tables \<Rightarrow> tables \<Rightarrow> bool" where
  "rowKept k t t' \<longleftrightarrow> (\<forall>g\<in>set (t_settings t). Some (settingKey g) = k \<longrightarrow> g \<in> set (t_settings t'))"

definition keyOf :: "lib \<Rightarrow> string \<Rightarrow> string \<Rightarrow> (uuid \<times> string) option" where
  "keyOf L ns path = map_option (\<lambda>i. (i, path)) (uuidParse L ns)"

interpretation rk: frame "rowKept k" for k
  by unfold_locales (auto simp: rowKept_def)

interpretation rk: settings_frame "rowKept (keyOf L ns path)" "spares L ns path" L for L ns path
proof unfold_locales
  fix i slug name stamp t row t'
  assume "createNamespace i slug name stamp t = Inr (row, t')"
  then show "rowKept (keyOf L ns path) t t'" by (auto simp: rowKept_def createNamespace_def Let_def split: if_splits)
next
  fix n p v i stamp t row t'
  assume "spares L ns path (PutSetting n p v)" and "uuidParse L n = Some i" and u: "upsertSetting i p v stamp t = Inr (row, t')"
  then have "keyOf L ns path \<noteq> Some (i, p)" by (auto simp: spares_def keyOf_def)
  then show "rowKept (keyOf L ns path) t t'"
    using u by (elim upsertSetting_Inr) (auto simp: rowKept_def image_iff)
next
  fix n p i t k t'
  assume "spares L ns path (DropSetting n p)" and "uuidParse L n = Some i" and "deleteSetting i p t = Inr (k, t')"
  moreover from this have "keyOf L ns path \<noteq> Some (i, p)" by (auto simp: spares_def keyOf_def)
  ultimately show "rowKept (keyOf L ns path) t t'" by (auto simp: rowKept_def deleteSetting_def)
qed

lemma namespaceID_Inr:
  assumes "namespaceID L ns w = (Inr i, v)"
  shows "uuidParse L ns = Some i" "tabs v = tabs w"
  using assms
  by (auto simp: namespaceID_def getNamespaceByID_def find_Some_iff query_Inr split: option.splits if_splits elim!: andThen_InrE
      dest: call_result)

lemma orFail_Inr: "orFail e w = (Inr u, v) \<longleftrightarrow> e = None \<and> v = w"
  by (auto simp: orFail_def split: option.splits)

lemma UpsertSetting_Inr:
  assumes "UpsertSetting unmarshals L C ns path v w = (Inr msg, w')"
  obtains i stamp where "uuidParse L ns = Some i"
    "msg = settingMessage L C \<lparr>g_ns = i, g_path = path, g_value = v, g_updated = stamp\<rparr>"
    "\<lparr>g_ns = i, g_path = path, g_value = v, g_updated = stamp\<rparr> \<in> set (t_settings (tabs w'))"
proof -
  from assms obtain i w1 row where i: "namespaceID L ns w = (Inr i, w1)"
    and s: "stmt (upsertSetting i path v (clock w1)) w1 = (Inr row, w')" and m: "msg = settingMessage L C row"
    unfolding UpsertSetting_def by (auto elim!: andThen_InrE simp: orFail_Inr mapErr_Inr)
  from s obtain t where u: "upsertSetting i path v (clock w1) (tabs w1) = Inr (row, t)" and t: "tabs w' = t"
    by (auto simp: stmt_Inr)
  from u have "row = \<lparr>g_ns = i, g_path = path, g_value = v, g_updated = clock w1\<rparr>" "row \<in> set (t_settings t)"
    by (elim upsertSetting_Inr; auto simp: image_iff)+
  with that namespaceID_Inr(1) [OF i] m t show thesis by metis
qed

lemma ListSettings_Inr:
  assumes "ListSettings collate L C ns paths w = (Inr msgs, w')"
  obtains i where "uuidParse L ns = Some i" "msgs = map (settingMessage L C) (listSettings collate i paths (tabs w))"
proof -
  from assms obtain i w1 where "namespaceID L ns w = (Inr i, w1)" "msgs = map (settingMessage L C) (listSettings collate i paths (tabs w1))"
    unfolding ListSettings_def by (auto elim!: andThen_InrE simp: orFail_Inr mapErr_Inr query_Inr)
  with that namespaceID_Inr show thesis by metis
qed

lemma listSettings_rows:
  assumes "settingsOK t"
  shows "set (listSettings collate i paths t) = {g \<in> set (t_settings t). g_ns g = i \<and> (paths = [] \<or> g_path g \<in> set paths)}"
    "distinct (map g_path (listSettings collate i paths t))" "sorted (map (\<lambda>g. collate (g_path g)) (listSettings collate i paths t))"
proof -
  show "set (listSettings collate i paths t) = {g \<in> set (t_settings t). g_ns g = i \<and> (paths = [] \<or> g_path g \<in> set paths)}"
    "sorted (map (\<lambda>g. collate (g_path g)) (listSettings collate i paths t))"
    by (auto simp: listSettings_def)
  have "inj_on settingKey (set (t_settings t))" "distinct (t_settings t)" using assms by (simp_all add: settingsOK_def distinct_map)
  then have "inj_on g_path {g \<in> set (t_settings t). g_ns g = i \<and> (paths = [] \<or> g_path g \<in> set paths)}"
    by (auto simp: inj_on_def settingKey_def)
  with \<open>distinct (t_settings t)\<close> show "distinct (map g_path (listSettings collate i paths t))"
    by (auto simp: listSettings_def distinct_map)
qed

text \<open>
  after an UpsertSetting that succeeded, and any other requests on other paths whatever fails,
  a ListSettings of the namespace that asks for the path answers the written value once, with the
  paths in order and each at most once.
\<close>

theorem settings_read_back:
  assumes "settingsOK (tabs w)" and "UpsertSetting unmarshals L C ns path v w = (Inr msg, w1)"
    and "list_all (spares L ns path) qs"
    and "ListSettings collate L C ns paths (afterRequests collate unmarshals L C qs w1) = (Inr msgs, w2)"
    and "paths = [] \<or> path \<in> set paths"
  shows "msg \<in> set msgs \<and> sm_path msg = path \<and> sm_value msg = v \<and> distinct (map sm_path msgs) \<and>
    sorted (map (\<lambda>m. collate (sm_path m)) msgs)"
proof -
  let ?t = "tabs (afterRequests collate unmarshals L C qs w1)"
  from assms(2) obtain i stamp where u: "uuidParse L ns = Some i"
    "msg = settingMessage L C \<lparr>g_ns = i, g_path = path, g_value = v, g_updated = stamp\<rparr>"
    "\<lparr>g_ns = i, g_path = path, g_value = v, g_updated = stamp\<rparr> \<in> set (t_settings (tabs w1))" by (rule UpsertSetting_Inr)
  let ?g = "\<lparr>g_ns = i, g_path = path, g_value = v, g_updated = stamp\<rparr>"
  from assms(4) u(1) have m: "msgs = map (settingMessage L C) (listSettings collate i paths ?t)" by (auto elim: ListSettings_Inr)
  have "tabs (afterRequests collate unmarshals L C [PutSetting ns path v] w) = tabs w1"
    using assms(2) by (simp add: serveSettings_def andThen_def)
  moreover have "settingsStep (tabs w) (tabs (afterRequests collate unmarshals L C [PutSetting ns path v] w))"
    "settingsStep (tabs w1) ?t" by (rule sk.requests, simp add: list_all_iff)+
  ultimately have ok: "settingsOK ?t" using assms(1) by (simp add: settingsStep_def)
  have "?g \<in> set (t_settings ?t)"
    using rk.requests [OF assms(3)] u by (force simp: rowKept_def keyOf_def)
  with assms(5) have "?g \<in> set (listSettings collate i paths ?t)" by (simp add: listSettings_rows(1) [OF ok])
  with m u(2) have "msg \<in> set msgs" by simp
  moreover have "map sm_path msgs = map g_path (listSettings collate i paths ?t)" by (simp add: m settingMessage_def)
  moreover have "map (\<lambda>m. collate (sm_path m)) msgs = map (\<lambda>g. collate (g_path g)) (listSettings collate i paths ?t)"
    by (simp add: m settingMessage_def)
  moreover have "sm_path msg = path" "sm_value msg = v" by (simp_all add: u(2) settingMessage_def)
  ultimately show ?thesis using listSettings_rows(2,3) [OF ok] by metis
qed

subsection \<open>An example\<close>

definition setLib :: lib where
  "setLib = \<lparr>uuidString = (\<lambda>_. ''u''), uuidParse = (\<lambda>s. if s = ''u'' then Some 7 else None), cborWellformed = (\<lambda>_. True)\<rparr>"

definition setWorld :: "tables \<Rightarrow> nat \<Rightarrow> nat \<Rightarrow> world" where
  "setWorld t d n = \<lparr>tabs = t, objects = Map.empty, clock = 1, ids = (\<lambda>_. 7), drawn = d,
     faults = (\<lambda>_. None), landed = (\<lambda>_. False), calls = n\<rparr>"

lemma setWorld_simps [simp]:
  "tabs (setWorld t d n) = t" "clock (setWorld t d n) = 1" "query g (setWorld t d n) = (Inr (g t), setWorld t d (Suc n))"
  "newID (setWorld t d n) = (Inr 7, setWorld t (Suc d) n)"
  "stmt f (setWorld t d n) = (case f t of Inl e \<Rightarrow> (Inl e, setWorld t d (Suc n)) | Inr (x, t') \<Rightarrow> (Inr x, setWorld t' d (Suc n)))"
  by (simp_all add: setWorld_def query_def stmt_def call_def newID_def andThen_def split: sum.split)

definition setTables :: "setting_row list \<Rightarrow> tables" where
  "setTables gs = emptyTables\<lparr>t_namespaces := [\<lparr>n_id = 7, n_slug = ''default'', n_name = ''Default'', n_created = 1\<rparr>], t_settings := gs\<rparr>"

definition setRow :: "string \<Rightarrow> bytes \<Rightarrow> setting_row" where
  "setRow p v = \<lparr>g_ns = 7, g_path = p, g_value = v, g_updated = 1\<rparr>"

lemma set_words: "slugPattern ''default''" "pathPattern ''a/b''" "pathPattern ''a''" "validatePath ''a/b'' = None" "validatePath ''a'' = None"
    "runeCount ''Default'' = 7" "\<not> pathPattern ''A''"
  by code_simp+

lemma set_empty: "settingsOK (setTables [])"
  by (simp add: settingsOK_def setTables_def emptyTables_def namespaceOK_def set_words)

lemmas set_run = andThen_def mapErr_def orFail_def namespaceID_def getNamespaceByID_def setLib_def setTables_def
  upsertSetting_def validateCBOR_def set_words settingKey_def hasNamespace_def nilUUID_def Let_def emptyTables_def setRow_def


theorem settings_read_back_witness:
  "\<forall>C. \<exists>msg msgs w1 w2. UpsertSetting (\<lambda>_. True) setLib C ''u'' ''a/b'' [1] (setWorld (setTables []) 0 0) = (Inr msg, w1) \<and>
     ListSettings length setLib C ''u'' []
       (afterRequests length (\<lambda>_. True) setLib C [PutSetting ''u'' ''a'' [2]] w1) = (Inr msgs, w2) \<and>
     msg \<in> set msgs \<and> sm_value msg = [1] \<and> length msgs = 2" (is "\<forall>C. ?P C")
proof
  fix C :: codecs
  have u: "UpsertSetting (\<lambda>_. True) setLib C ''u'' ''a/b'' [1] (setWorld (setTables []) 0 0)
      = (Inr (settingMessage setLib C (setRow ''a/b'' [1])), setWorld (setTables [setRow ''a/b'' [1]]) 0 (Suc (Suc 0)))"
    by (simp add: UpsertSetting_def set_run)
  have p: "afterRequests length (\<lambda>_. True) setLib C [PutSetting ''u'' ''a'' [2]] (setWorld (setTables [setRow ''a/b'' [1]]) 0 (Suc (Suc 0)))
      = setWorld (setTables [setRow ''a/b'' [1], setRow ''a'' [2]]) 0 (Suc (Suc (Suc (Suc 0))))"
    by (simp add: serveSettings_def UpsertSetting_def set_run)
  have l: "ListSettings length setLib C ''u'' [] (setWorld (setTables [setRow ''a/b'' [1], setRow ''a'' [2]]) 0 (Suc (Suc (Suc (Suc 0)))))
      = (Inr (map (settingMessage setLib C) [setRow ''a'' [2], setRow ''a/b'' [1]]),
         setWorld (setTables [setRow ''a/b'' [1], setRow ''a'' [2]]) 0 (Suc (Suc (Suc (Suc (Suc (Suc 0)))))))"
    by (simp add: ListSettings_def listSettings_def set_run)
  have w: "settingsOK (tabs (setWorld (setTables []) 0 0))" by (simp add: set_empty)
  have s: "list_all (spares setLib ''u'' ''a/b'') [PutSetting ''u'' ''a'' [2]]" by (simp add: spares_def)
  from settings_read_back [OF w u s l [folded p]] u l p show "?P C" by fastforce
qed

text \<open>
  The service bounds the trimmed name in bytes, the table the whole name in characters: a name
  of two hundred letters and a space passes the service and fails in the database, as an
  internal error.
\<close>

lemma long_name: "validateName (replicate 200 CHR ''a'' @ '' '') = None" "runeCount (replicate 200 CHR ''a'' @ '' '') = 201"
  by code_simp+

end
