(* ===== verification/Stdio_Frames.thy ===== *)
theory Stdio_Frames
  imports Codec
begin

section \<open>Frames on a pipe\<close>

text \<open>
  \<open>internal/taskstdio/transport.go\<close>: a frame is one line of JSON. \<open>encoding/json\<close> is the
  record \<open>json\<close>; the lines, with the limit that \<open>bufio.Scanner\<close> puts on them, and the
  envelopes of the Connect protocol inside a request's and a response's body are written out.
  A header map is the list of its entries in the order in which \<open>range\<close> yields them.
\<close>

type_synonym headers = "(string \<times> string list) list"

record frame =
  fr_id :: string
  fr_type :: string
  fr_path :: string
  fr_headers :: headers
  fr_status :: int
  fr_value :: bytes
  fr_trailers :: headers
  fr_error :: bytes

definition frame0 :: "string \<Rightarrow> string \<Rightarrow> frame" where
  "frame0 i ty = \<lparr>fr_id = i, fr_type = ty, fr_path = [], fr_headers = [], fr_status = 0, fr_value = [],
     fr_trailers = [], fr_error = []\<rparr>"

text \<open>
  \<open>json.Marshal\<close> and \<open>json.Unmarshal\<close> of a frame, \<open>json.Marshal\<close> of the payload of the end of a
  stream and of an error's code and message, and \<open>json.Valid\<close>.
\<close>

record json =
  encodeFrame :: "frame \<Rightarrow> bytes option"
  decodeFrame :: "bytes \<Rightarrow> frame option"
  encodeEnd :: "frame \<Rightarrow> bytes"
  encodeError :: "string \<Rightarrow> string \<Rightarrow> bytes"
  validJSON :: "bytes \<Rightarrow> bool"

definition maxLine :: nat where "maxLine = 33554432"

subsection \<open>Lines\<close>

text \<open>What \<open>send\<close> writes.\<close>

definition sendBytes :: "json \<Rightarrow> frame \<Rightarrow> goerr + bytes" where
  "sendBytes J f =
     (case encodeFrame J f of
        None \<Rightarrow> Inl (Plain ''json: unsupported value'')
      | Some data \<Rightarrow>
          if length data \<ge> maxLine then Inl (Plain ''stdio frame exceeds limit'') else Inr (data @ [10]))"

definition dropCR :: "bytes \<Rightarrow> bytes" where
  "dropCR line = (if line \<noteq> [] \<and> List.last line = 13 then butlast line else line)"

text \<open>
  \<open>bufio.Scanner\<close> with \<open>ScanLines\<close> and a buffer of at most \<open>limit\<close> bytes, over all that the
  stream gives before it ends: the lines, and whether one was too long.
\<close>

function scanLines :: "nat \<Rightarrow> bytes \<Rightarrow> bytes list \<times> bool" where
  "scanLines limit s =
     (if s = [] then ([], False)
      else
        (let line = takeWhile (\<lambda>b. b \<noteq> 10) s; rest = dropWhile (\<lambda>b. b \<noteq> 10) s in
         if length line \<ge> limit then ([], True)
         else
           (case scanLines limit (tl rest) of (ls, long) \<Rightarrow> (dropCR line # ls, long))))"
  by pat_completeness auto
termination
proof (relation "measure (\<lambda>(k, s). length s)", goal_cases)
  case (2 limit s line rest)
  have "length (tl (dropWhile (\<lambda>b. b \<noteq> 10) s)) \<le> length (dropWhile (\<lambda>b. b \<noteq> 10) s) - 1" by simp
  moreover have "length (dropWhile (\<lambda>b. b \<noteq> 10) s) \<le> length s" by (rule length_dropWhile_le)
  moreover have "length s > 0" using 2 by simp
  ultimately have "length (tl (dropWhile (\<lambda>b. b \<noteq> 10) s)) < length s" by linarith
  with 2 show ?case by simp
qed simp

declare scanLines.simps [simp del]

text \<open>The frames that \<open>readLoop\<close> handles, and the error with which it then fails the transport.\<close>

fun parseLines :: "json \<Rightarrow> bytes list \<Rightarrow> frame list \<times> goerr option" where
  "parseLines J [] = ([], None)"
| "parseLines J (l # ls) =
     (case decodeFrame J l of
        None \<Rightarrow> ([], Some (Plain ''invalid stdio response frame''))
      | Some f \<Rightarrow>
          if fr_id f = [] then ([], Some (Plain ''invalid stdio response frame''))
          else (case parseLines J ls of (fs, e) \<Rightarrow> (f # fs, e)))"

definition ioEOF :: goerr where "ioEOF = Plain ''EOF''"

definition readFrames :: "json \<Rightarrow> bytes \<Rightarrow> goerr option \<Rightarrow> frame list \<times> goerr" where
  "readFrames J input readErr =
     (case scanLines maxLine input of
        (ls, long) \<Rightarrow>
          (case parseLines J ls of
             (fs, Some e) \<Rightarrow> (fs, e)
           | (fs, None) \<Rightarrow>
               (fs, if long then Plain ''bufio.Scanner: token too long''
                    else case readErr of None \<Rightarrow> ioEOF | Some e \<Rightarrow> e)))"

subsection \<open>Envelopes\<close>

definition envelope :: "byte \<Rightarrow> bytes \<Rightarrow> bytes" where
  "envelope flags payload = flags # be32 (of_nat (length payload)) @ payload"

text \<open>
  The messages that \<open>sendRequest\<close> takes from the body of a stream, and whether it came to the
  end: a body that fails, a flag, a length over the limit or a short message cancels the call.
\<close>

function readEnvelopes :: "bytes \<Rightarrow> bool \<Rightarrow> bytes list \<times> bool" where
  "readEnvelopes s broken =
     (if s = [] then ([], \<not> broken)
      else if length s < 5 \<or> hd s \<noteq> 0 then ([], False)
      else
        (let n = nat_of_bytes (take 4 (tl s)); rest = drop 5 s in
         if n \<ge> maxLine \<or> length rest < n then ([], False)
         else (case readEnvelopes (drop n rest) broken of (ms, ok) \<Rightarrow> (take n rest # ms, ok))))"
  by pat_completeness auto
termination by (relation "measure (\<lambda>(s, b). length s)") auto

declare readEnvelopes.simps [simp del]

text \<open>The frames of a request's body; \<^const>\<open>None\<close> is \<open>cancel\<close>.\<close>

definition requestFrames :: "string \<Rightarrow> bool \<Rightarrow> bytes \<Rightarrow> bool \<Rightarrow> frame option list" where
  "requestFrames i stream body broken =
     (if stream then
        (case readEnvelopes body broken of
           (ms, ok) \<Rightarrow> map (\<lambda>m. Some (frame0 i ''message''\<lparr>fr_value := m\<rparr>)) ms @
             [if ok then Some (frame0 i ''half_close'') else None])
      else if broken \<and> length body < maxLine then [None]
      else [Some (frame0 i ''message''\<lparr>fr_value := take maxLine body\<rparr>), Some (frame0 i ''half_close'')])"

subsection \<open>Headers\<close>

text \<open>\<open>textproto.CanonicalMIMEHeaderKey\<close>\<close>

definition upper :: "char \<Rightarrow> char" where
  "upper c = (if 97 \<le> (of_char c :: nat) \<and> (of_char c :: nat) \<le> 122 then char_of ((of_char c :: nat) - 32) else c)"

definition lower :: "char \<Rightarrow> char" where
  "lower c = (if 65 \<le> (of_char c :: nat) \<and> (of_char c :: nat) \<le> 90 then char_of ((of_char c :: nat) + 32) else c)"

definition headerChar :: "char \<Rightarrow> bool" where
  "headerChar c \<longleftrightarrow> 48 \<le> (of_char c :: nat) \<and> (of_char c :: nat) \<le> 57 \<or> 65 \<le> (of_char c :: nat) \<and> (of_char c :: nat) \<le> 90 \<or>
     97 \<le> (of_char c :: nat) \<and> (of_char c :: nat) \<le> 122 \<or> c \<in> set ''!#$%&*+-.^_`|~'' \<or> c = CHR 0x27"

fun capitalise :: "bool \<Rightarrow> string \<Rightarrow> string" where
  "capitalise up [] = []"
| "capitalise up (c # cs) = (if up then upper c else lower c) # capitalise (c = CHR ''-'') cs"

definition canonicalKey :: "string \<Rightarrow> string" where
  "canonicalKey s = (if list_all headerChar s then capitalise True s else s)"

definition canonicalHeaders :: "headers \<Rightarrow> string \<rightharpoonup> string list" where
  "canonicalHeaders hs = fold (\<lambda>(k, vs) m. m(canonicalKey k \<mapsto> vs)) hs Map.empty"

text \<open>\<open>Get\<close>: the first value, or the empty text.\<close>

definition getHeader :: "(string \<rightharpoonup> string list) \<Rightarrow> string \<Rightarrow> string" where
  "getHeader m k = (case m (canonicalKey k) of Some (v # _) \<Rightarrow> v | _ \<Rightarrow> [])"

subsection \<open>What is sent is what is read\<close>

lemma scan_line:
  assumes "10 \<notin> set line" and "length line < limit"
  shows "scanLines limit (line @ 10 # rest) = (case scanLines limit rest of (ls, long) \<Rightarrow> (dropCR line # ls, long))"
proof -
  have "takeWhile (\<lambda>b. b \<noteq> 10) (line @ 10 # rest) = line" "dropWhile (\<lambda>b. b \<noteq> 10) (line @ 10 # rest) = 10 # rest"
    using assms(1) by (auto simp: takeWhile_append dropWhile_append)
  with assms(2) show ?thesis by (simp add: scanLines.simps [of limit "line @ 10 # rest"])
qed

lemma scan_lines:
  "list_all (\<lambda>l. 10 \<notin> set l \<and> length l < limit) ls \<Longrightarrow> scanLines limit (concat (map (\<lambda>l. l @ [10]) ls)) = (map dropCR ls, False)"
  by (induction ls) (simp_all add: scanLines.simps [of limit "[]"] scan_line)

text \<open>What is documented of \<open>json.Marshal\<close>: one line that does not end in a carriage return, and \<open>Unmarshal\<close> inverts it.\<close>

definition jsonOK :: "json \<Rightarrow> bool" where
  "jsonOK J \<longleftrightarrow> (\<forall>f data. encodeFrame J f = Some data \<longrightarrow>
     10 \<notin> set data \<and> (data \<noteq> [] \<longrightarrow> List.last data \<noteq> 13) \<and> decodeFrame J data = Some f)"

lemma sendBytes_Inr:
  assumes "jsonOK J" and "sendBytes J f = Inr bs"
  obtains data where "bs = data @ [10]" "10 \<notin> set data" "dropCR data = data" "length data < maxLine" "decodeFrame J data = Some f"
proof -
  from assms(2) obtain data where d: "encodeFrame J f = Some data" "bs = data @ [10]" "length data < maxLine"
    by (auto simp: sendBytes_def split: option.splits if_splits)
  with assms(1) have "10 \<notin> set data" "data \<noteq> [] \<longrightarrow> List.last data \<noteq> 13" "decodeFrame J data = Some f" by (auto simp: jsonOK_def)
  with d that show thesis by (auto simp: dropCR_def)
qed

lemma sent_lines:
  assumes "jsonOK J" and "list_all2 (\<lambda>f bs. sendBytes J f = Inr bs) fs pieces" and "list_all (\<lambda>f. fr_id f \<noteq> []) fs"
  shows "\<exists>ls. concat pieces = concat (map (\<lambda>l. l @ [10]) ls) \<and> list_all (\<lambda>l. 10 \<notin> set l \<and> length l < maxLine) ls \<and>
    parseLines J (map dropCR ls) = (fs, None)"
  using assms(2,3)
proof (induction rule: list_all2_induct)
  case Nil
  show ?case by (intro exI [of _ "[]"]) simp
next
  case (Cons f fs bs pieces)
  from Cons.IH Cons.prems obtain ls where ls: "concat pieces = concat (map (\<lambda>l. l @ [10]) ls)"
    "list_all (\<lambda>l. 10 \<notin> set l \<and> length l < maxLine) ls" "parseLines J (map dropCR ls) = (fs, None)" by auto
  from assms(1) Cons.hyps(1) obtain data where "bs = data @ [10]" "10 \<notin> set data" "dropCR data = data" "length data < maxLine"
    "decodeFrame J data = Some f" by (rule sendBytes_Inr)
  with ls Cons.prems show ?case by (intro exI [of _ "data # ls"]) simp
qed

text \<open>
  what one side writes with \<open>send\<close>, frame after frame, the other side's \<open>readLoop\<close> reads
  as exactly these frames in order and then the end of the stream: the limit on a frame is the
  one that the scanner can hold.
\<close>

theorem stdio_roundtrip:
  assumes "jsonOK J" and "list_all2 (\<lambda>f bs. sendBytes J f = Inr bs) fs pieces" and "list_all (\<lambda>f. fr_id f \<noteq> []) fs"
  shows "readFrames J (concat pieces) None = (fs, ioEOF)"
proof -
  from sent_lines [OF assms] obtain ls where ls: "concat pieces = concat (map (\<lambda>l. l @ [10]) ls)"
    "list_all (\<lambda>l. 10 \<notin> set l \<and> length l < maxLine) ls" "parseLines J (map dropCR ls) = (fs, None)" by blast
  then show ?thesis by (simp add: readFrames_def scan_lines)
qed


subsection \<open>Envelopes read back\<close>

lemma nat_of_be32:
  assumes "n < 2 ^ 32"
  shows "nat_of_bytes (be32 (of_nat n)) = n"
proof -
  have b: "unat (ucast (drop_bit k (of_nat n :: 32 word)) :: byte) = n div 2 ^ k mod 256" for k
  proof -
    have "unat (drop_bit k (of_nat n :: 32 word)) = drop_bit k n"
      using assms by (simp add: unsigned_drop_bit_eq unsigned_of_nat take_bit_eq_mod)
    then show ?thesis by (simp add: unsigned_ucast_eq take_bit_eq_mod drop_bit_eq_div)
  qed
  have d: "n div 65536 = n div 256 div 256" "n div 16777216 = n div 256 div 256 div 256"
    by (simp_all add: div_mult2_eq [symmetric])
  have "n div 256 div 256 div 256 < 256" using assms by (simp add: less_mult_imp_div_less)
  then have e: "n div 2 ^ 24 mod 256 = n div 256 div 256 div 256" by (simp add: d)
  have e16: "n div 2 ^ 16 mod 256 = n div 256 div 256 mod 256" and e8: "n div 2 ^ 8 mod 256 = n div 256 mod 256"
    by (simp_all add: d)
  have shift: "((a * 256 + b) * 256 + c) * 256 + x = (a * 256 + b) * 65536 + c * 256 + x" for a b c x :: nat by simp
  have r: "m = m div 256 * 256 + m mod 256" for m :: nat by simp
  have "n = ((n div 256 div 256 div 256 * 256 + n div 256 div 256 mod 256) * 256 + n div 256 mod 256) * 256 + n mod 256"
    unfolding r [of "n div 256 div 256", symmetric] r [of "n div 256", symmetric] by (rule r)
  then have "n = ((n div 2 ^ 24 mod 256) * 256 + n div 2 ^ 16 mod 256) * 65536 + (n div 2 ^ 8 mod 256) * 256 + n mod 256"
    unfolding e shift e16 e8 .
  with b [of 24] b [of 16] b [of 8] b [of 0] show ?thesis by (simp add: be32_def algebra_simps)
qed

lemma read_envelope:
  assumes "length m < maxLine"
  shows "readEnvelopes (envelope 0 m @ s) broken = (case readEnvelopes s broken of (ms, ok) \<Rightarrow> (m # ms, ok))"
proof -
  have n: "nat_of_bytes (be32 (of_nat (length m))) = length m" using assms by (intro nat_of_be32) (simp add: maxLine_def)
  have parts: "take 4 (be32 (of_nat (length m)) @ m @ s) = be32 (of_nat (length m))"
    "drop 4 (be32 (of_nat (length m)) @ m @ s) = m @ s" by simp_all
  have "drop 5 (0 # be32 (of_nat (length m)) @ m @ s) = m @ s" by (simp add: numeral_eq_Suc)
  with assms n parts show ?thesis
    unfolding envelope_def append_Cons append_assoc by (subst readEnvelopes.simps) simp
qed

lemma read_envelopes:
  "list_all (\<lambda>m. length m < maxLine) ms \<Longrightarrow> readEnvelopes (concat (map (envelope 0) ms)) False = (ms, True)"
  by (induction ms) (simp_all add: readEnvelopes.simps [of "[]"] read_envelope)

end
