(* ===== verification/Stdio.thy ===== *)
theory Stdio
  imports Stdio_Frames Environments
begin

section \<open>Calls over a pipe\<close>

text \<open>
  The rest of \<open>internal/taskstdio/transport.go\<close>, and \<open>handler.go\<close>: the calls in flight, the
  goroutines that serve them and the requests that the peer makes. A \<open>*call\<close> is an object that
  outlives its entry in \<open>t.calls\<close>; it has the number of the \<open>Do\<close> that made it. A step of the
  system is what one goroutine does under a lock, one frame that is read or written, one write
  to a response's pipe, or one thing that a caller does.
\<close>

subsection \<open>State\<close>

datatype callResult = Response int "string \<rightharpoonup> string list" | NoResponse goerr

text \<open>Where the goroutine of \<open>receiveCall\<close> stands: before it runs, between two frames, in the \<open>select\<close>, in a write, or gone.\<close>

datatype receiver = RIdle | RPop | RSelect | RWrite bytes bool | RGone

text \<open>The caller of \<open>Do\<close>: before \<open>open\<close> is sent, in the \<open>select\<close>, with its response, or with an error.\<close>

datatype caller = COpening | CSelect | CHas callResult | CError goerr

datatype pipeEnd = Closed | ClosedWith goerr

record call =
  k_id :: string
  queue :: "frame list"
  notify :: bool
  finished :: bool \<comment> \<open>\<open>done\<close> is closed\<close>
  requestStream :: bool
  responseStream :: bool
  begun :: bool \<comment> \<open>\<open>started\<close>\<close>
  ready :: "callResult option" \<comment> \<open>the channel, of capacity one\<close>
  received :: bytes \<comment> \<open>what was written to the pipe of the response's body\<close>
  writerEnd :: "pipeEnd option"
  readerShut :: bool
  at :: receiver
  who :: caller
  ctxOver :: bool
  unsent :: "frame option list" \<comment> \<open>what \<open>sendRequest\<close> has still to do\<close>

record incoming =
  i_id :: string
  i_path :: string
  i_headers :: "string \<rightharpoonup> string list"
  i_message :: bytes
  i_cancelled :: bool
  i_serving :: bool

record transport =
  calls :: "nat \<rightharpoonup> call"
  live :: "string \<rightharpoonup> nat" \<comment> \<open>\<open>t.calls\<close>\<close>
  serial :: nat
  inward :: "nat \<rightharpoonup> incoming"
  inLive :: "string \<rightharpoonup> nat" \<comment> \<open>\<open>t.incomingCalls\<close>\<close>
  inSerial :: nat
  terr :: "goerr option"
  sent :: "frame list"
  loopOver :: bool \<comment> \<open>\<open>readLoop\<close> has returned\<close>

definition newTransport :: transport where
  "newTransport = \<lparr>calls = Map.empty, live = Map.empty, serial = 0, inward = Map.empty, inLive = Map.empty, inSerial = 0,
     terr = None, sent = [], loopOver = False\<rparr>"

definition updCall :: "nat \<Rightarrow> (call \<Rightarrow> call) \<Rightarrow> transport \<Rightarrow> transport" where
  "updCall n f t = t\<lparr>calls := (calls t)(n := map_option f (calls t n))\<rparr>"

subsection \<open>The queue of a call\<close>

definition pushFrame :: "frame \<Rightarrow> call \<Rightarrow> call" where
  "pushFrame f c = c\<lparr>queue := queue c @ [f], notify := True\<rparr>"

definition popFrame :: "call \<Rightarrow> (frame \<times> call) option" where
  "popFrame c = (case queue c of [] \<Rightarrow> None | f # fs \<Rightarrow> Some (f, c\<lparr>queue := fs\<rparr>))"

definition closeCall :: "call \<Rightarrow> call" where
  "closeCall c = c\<lparr>finished := True\<rparr>"

subsection \<open>\<open>remove\<close>, \<open>fail\<close> and \<open>closeResponses\<close>\<close>

definition removeCall :: "string \<Rightarrow> transport \<Rightarrow> transport" where
  "removeCall i t =
     (case live t i of
        None \<Rightarrow> t
      | Some n \<Rightarrow> (updCall n closeCall t)\<lparr>live := (live t)(i := None)\<rparr>)"

definition failTransport :: "goerr \<Rightarrow> transport \<Rightarrow> transport" where
  "failTransport e t =
     (if terr t \<noteq> None then t
      else t\<lparr>terr := Some e,
             calls := (\<lambda>n. map_option (\<lambda>c. if live t (k_id c) = Some n then closeCall c else c) (calls t n)),
             inward := (\<lambda>n. map_option (\<lambda>c. if inLive t (i_id c) = Some n then c\<lparr>i_cancelled := True\<rparr> else c) (inward t n))\<rparr>)"

definition closeResponses :: "transport \<Rightarrow> transport" where
  "closeResponses t =
     t\<lparr>calls := (\<lambda>n. map_option (\<lambda>c. if live t (k_id c) = Some n then c\<lparr>readerShut := True\<rparr> else c) (calls t n))\<rparr>"

text \<open>\<open>cancel\<close>; whether the frame could be written does not matter.\<close>

definition cancelCall :: "bool \<Rightarrow> string \<Rightarrow> transport \<Rightarrow> transport" where
  "cancelCall wrote i t = removeCall i (if wrote then t\<lparr>sent := sent t @ [frame0 i ''cancel'']\<rparr> else t)"

subsection \<open>\<open>Do\<close>\<close>

definition jsonType :: string where "jsonType = ''application/json''"
definition connectType :: string where "connectType = ''application/connect+json''"

definition checkRequest :: "string \<Rightarrow> string \<Rightarrow> goerr option" where
  "checkRequest verb contentType =
     (if verb \<noteq> ''POST'' then Some (Plain ''stdio transport supports POST only'')
      else if contentType \<noteq> jsonType \<and> contentType \<noteq> connectType then Some (Plain ''stdio transport requires Connect JSON'')
      else None)"

definition callID :: "nat \<Rightarrow> string" where
  "callID n = CHR ''g'' # decimalText (n mod 2 ^ 64)"

definition newCall :: "nat \<Rightarrow> string \<Rightarrow> call" where
  "newCall n contentType =
     \<lparr>k_id = callID n, queue = [], notify = False, finished = False, requestStream = hasPrefix contentType ''application/connect+'',
      responseStream = False, begun = False, ready = None, received = [], writerEnd = None, readerShut = False,
      at = RIdle, who = COpening, ctxOver = False, unsent = []\<rparr>"

definition openCall :: "string \<Rightarrow> transport \<Rightarrow> transport" where
  "openCall contentType t =
     (let n = Suc (serial t) in
      t\<lparr>serial := n, live := (live t)(callID n \<mapsto> n), calls := (calls t)(n \<mapsto> newCall n contentType)\<rparr>)"

text \<open>\<open>open\<close> was written: the two goroutines start.\<close>

definition startCall :: "nat \<Rightarrow> string \<Rightarrow> headers \<Rightarrow> bytes \<Rightarrow> bool \<Rightarrow> transport \<Rightarrow> transport" where
  "startCall n path hs body broken t =
     (case calls t n of
        None \<Rightarrow> t
      | Some c \<Rightarrow>
          updCall n (\<lambda>c. c\<lparr>who := CSelect, at := RPop, unsent := requestFrames (k_id c) (requestStream c) body broken\<rparr>)
            (t\<lparr>sent := sent t @ [frame0 (k_id c) ''open''\<lparr>fr_path := path, fr_headers := hs\<rparr>]\<rparr>))"

text \<open>It was not: both ends of the pipe are closed.\<close>

definition abandonCall :: "nat \<Rightarrow> goerr \<Rightarrow> transport \<Rightarrow> transport" where
  "abandonCall n e t =
     (case calls t n of
        None \<Rightarrow> t
      | Some c \<Rightarrow>
          updCall n (\<lambda>c. c\<lparr>who := CError e, readerShut := True, writerEnd := Some Closed\<rparr>) (removeCall (k_id c) t))"

subsection \<open>\<open>receiveCall\<close>\<close>

definition shutWriter :: "pipeEnd \<Rightarrow> call \<Rightarrow> call" where
  "shutWriter e c = c\<lparr>writerEnd := Some (case writerEnd c of None \<Rightarrow> e | Some old \<Rightarrow> old)\<rparr>"

text \<open>What the deferred functions do to the call when \<open>receiveCall\<close> returns.\<close>

definition leaveCall :: "call \<Rightarrow> call" where
  "leaveCall c =
     (shutWriter Closed (if begun c then c else c\<lparr>ready := Some (NoResponse (Plain ''stdio response ended before headers''))\<rparr>))
       \<lparr>at := RGone\<rparr>"

definition finishCall :: "nat \<Rightarrow> transport \<Rightarrow> transport" where
  "finishCall n t =
     (case calls t n of
        None \<Rightarrow> t
      | Some c \<Rightarrow> removeCall (k_id c) (updCall n leaveCall t))"

text \<open>
  The \<open>switch\<close> on a frame: \<^const>\<open>RPop\<close> goes on, \<^const>\<open>RGone\<close> returns, and a write is still to
  be done, after which a \<open>True\<close> returns.
\<close>

definition handleFrame :: "json \<Rightarrow> frame \<Rightarrow> call \<Rightarrow> receiver \<times> call" where
  "handleFrame J f c =
     (if fr_type f = ''headers'' then
        if begun c then (RGone, c)
        else
          (let hs = canonicalHeaders (fr_headers f) in
           (RPop, c\<lparr>begun := True, responseStream := hasPrefix (getHeader hs ''Content-Type'') ''application/connect+'',
                    ready := Some (Response (fr_status f) hs)\<rparr>))
      else if fr_type f = ''message'' then
        if \<not> begun c then (RGone, c)
        else (RWrite (if responseStream c then envelope 0 (fr_value f) else fr_value f) False, c)
      else if fr_type f = ''error'' then (RWrite (fr_value f) False, c)
      else if fr_type f = ''end'' then
        if responseStream c then (RWrite (envelope 2 (encodeEnd J f)) True, c) else (RGone, c)
      else (RPop, c))"

definition receiveFrame :: "json \<Rightarrow> nat \<Rightarrow> frame \<Rightarrow> call \<Rightarrow> transport \<Rightarrow> transport" where
  "receiveFrame J n f c t =
     (case handleFrame J f c of
        (RGone, c') \<Rightarrow> finishCall n (updCall n (\<lambda>_. c') t)
      | (r, c') \<Rightarrow> updCall n (\<lambda>_. c'\<lparr>at := r\<rparr>) t)"

text \<open>A write that the reader took, and one that it cut short by closing after \<open>k\<close> bytes.\<close>

definition wroteBody :: "nat \<Rightarrow> bytes \<Rightarrow> bool \<Rightarrow> transport \<Rightarrow> transport" where
  "wroteBody n bs returns t =
     (let t' = updCall n (\<lambda>c. c\<lparr>received := received c @ bs, at := RPop\<rparr>) t in if returns then finishCall n t' else t')"

definition cutBody :: "nat \<Rightarrow> bytes \<Rightarrow> nat \<Rightarrow> transport \<Rightarrow> transport" where
  "cutBody n bs k t = finishCall n (updCall n (\<lambda>c. c\<lparr>received := received c @ take k bs\<rparr>) t)"

subsection \<open>Frames that arrive\<close>

definition incomingRequest :: "frame \<Rightarrow> transport \<Rightarrow> transport" where
  "incomingRequest f t =
     (let k = Suc (inSerial t) in
      t\<lparr>inSerial := k, inLive := (inLive t)(fr_id f \<mapsto> k),
        inward := (inward t)(k \<mapsto> \<lparr>i_id = fr_id f, i_path = fr_path f, i_headers = canonicalHeaders (fr_headers f),
                                    i_message = fr_value f, i_cancelled = False, i_serving = True\<rparr>)\<rparr>)"

definition handleIncomingFrame :: "frame \<Rightarrow> transport \<Rightarrow> transport" where
  "handleIncomingFrame f t =
     (if terr t \<noteq> None then t
      else if fr_type f = ''request'' then
        if inLive t (fr_id f) \<noteq> None then t else incomingRequest f t
      else
        (case inLive t (fr_id f) of
           None \<Rightarrow> t
         | Some k \<Rightarrow>
             if fr_type f = ''cancel'' then
               t\<lparr>inLive := (inLive t)(fr_id f := None),
                 inward := (inward t)(k := map_option (\<lambda>c. c\<lparr>i_cancelled := True\<rparr>) (inward t k))\<rparr>
             else t))"

definition readFrame :: "frame \<Rightarrow> transport \<Rightarrow> transport" where
  "readFrame f t =
     (if hasPrefix (fr_id f) ''p'' then handleIncomingFrame f t
      else
        (case live t (fr_id f) of
           None \<Rightarrow> t
         | Some n \<Rightarrow> updCall n (pushFrame f) t))"

subsection \<open>\<open>serveIncoming\<close>\<close>

definition errorFrame :: "json \<Rightarrow> string \<Rightarrow> int \<Rightarrow> string \<Rightarrow> string \<Rightarrow> frame" where
  "errorFrame J i status code message =
     frame0 i ''response''\<lparr>fr_status := status, fr_headers := [(''Content-Type'', [jsonType])], fr_error := encodeError J code message\<rparr>"

text \<open>
  The frame that answers a request, if any: \<open>parses\<close> is whether \<open>http.NewRequest\<close> takes the path,
  \<open>answer\<close> what the handler recorded, when there is one, and \<open>over\<close> whether the request was
  cancelled meanwhile. The queue holds one message, always.
\<close>

definition answerFrame :: "json \<Rightarrow> incoming \<Rightarrow> (int \<times> headers \<times> bytes) option \<Rightarrow> bool \<Rightarrow> bool \<Rightarrow> frame option" where
  "answerFrame J c answer parses over =
     (case answer of
        None \<Rightarrow> Some (errorFrame J (i_id c) 404 ''unimplemented'' ''incoming handler is unavailable'')
      | Some (status, hs, body) \<Rightarrow>
          if i_path c = [] \<or> hd (i_path c) \<noteq> CHR ''/''
          then Some (errorFrame J (i_id c) 400 ''invalid_argument'' ''incoming path must be absolute'')
          else if \<not> parses then Some (errorFrame J (i_id c) 400 ''invalid_argument'' ''invalid incoming path'')
          else if over then None
          else if body \<noteq> [] \<and> \<not> validJSON J body
          then Some (errorFrame J (i_id c) 500 ''internal'' ''incoming handler returned non-JSON'')
          else if status = 200
          then Some (frame0 (i_id c) ''response''\<lparr>fr_status := status, fr_headers := hs, fr_value := body\<rparr>)
          else Some (frame0 (i_id c) ''response''\<lparr>fr_status := status, fr_headers := hs, fr_error := body\<rparr>))"

definition endIncoming :: "nat \<Rightarrow> incoming \<Rightarrow> transport \<Rightarrow> transport" where
  "endIncoming k c t =
     t\<lparr>inLive := (inLive t)(i_id c := None),
       inward := (inward t)(k \<mapsto> c\<lparr>i_cancelled := True, i_serving := False\<rparr>)\<rparr>"

definition sendFrame :: "goerr option \<Rightarrow> frame \<Rightarrow> transport \<Rightarrow> transport" where
  "sendFrame e f t = (case e of None \<Rightarrow> t\<lparr>sent := sent t @ [f]\<rparr> | Some x \<Rightarrow> failTransport x t)"

definition serveIncoming :: "json \<Rightarrow> (int \<times> headers \<times> bytes) option \<Rightarrow> bool \<Rightarrow> goerr option \<Rightarrow> nat \<Rightarrow> incoming \<Rightarrow> transport \<Rightarrow>
    transport" where
  "serveIncoming J answer parses writeErr k c t =
     endIncoming k c
       (case answerFrame J c answer parses (i_cancelled c) of None \<Rightarrow> t | Some f \<Rightarrow> sendFrame writeErr f t)"

end
