(* ===== verification/Stdio_System.thy ===== *)
theory Stdio_System
  imports Stdio "HOL-Library.Sublist"
begin

section \<open>The transport at work\<close>

text \<open>
  All goroutines of a transport, its callers and its peer, in any order: the step relation
  \<open>pipeStep\<close>, and what one step does to one call, \<open>cstep\<close>. The events record which frames were
  queued for a call and which its goroutine took.
\<close>

datatype event = Pushed nat frame | Popped nat frame | Quiet

definition connectionClosed :: goerr where "connectionClosed = Plain ''stdio connection closed''"

inductive pipeStep :: "json \<Rightarrow> transport \<Rightarrow> event \<Rightarrow> transport \<Rightarrow> bool" for J where
  Opens: "terr t = None \<Longrightarrow> checkRequest verb ct = None \<Longrightarrow> pipeStep J t Quiet (openCall ct t)"
| Starts: "calls t n = Some c \<Longrightarrow> who c = COpening \<Longrightarrow> pipeStep J t Quiet (startCall n path hs body broken t)"
| Abandons: "calls t n = Some c \<Longrightarrow> who c = COpening \<Longrightarrow> pipeStep J t Quiet (abandonCall n e t)"
| Returns: "calls t n = Some c \<Longrightarrow> who c = CSelect \<Longrightarrow> ready c = Some r \<Longrightarrow>
    pipeStep J t Quiet (updCall n (\<lambda>c. c\<lparr>who := CHas r, ready := None\<rparr>) t)"
| ContextEnds: "calls t n = Some c \<Longrightarrow> pipeStep J t Quiet (updCall n (\<lambda>c. c\<lparr>ctxOver := True\<rparr>) t)"
| GivesUp: "calls t n = Some c \<Longrightarrow> who c = CSelect \<Longrightarrow> ctxOver c \<Longrightarrow>
    pipeStep J t Quiet (updCall n (\<lambda>c. c\<lparr>who := CError CtxCanceled\<rparr>) (cancelCall wrote (k_id c) t))"
| Pops: "calls t n = Some c \<Longrightarrow> at c = RPop \<Longrightarrow> popFrame c = Some (f, d) \<Longrightarrow> pipeStep J t (Popped n f) (receiveFrame J n f d t)"
| Sleeps: "calls t n = Some c \<Longrightarrow> at c = RPop \<Longrightarrow> popFrame c = None \<Longrightarrow>
    pipeStep J t Quiet (updCall n (\<lambda>c. c\<lparr>at := RSelect\<rparr>) t)"
| Notified: "calls t n = Some c \<Longrightarrow> at c = RSelect \<Longrightarrow> notify c \<Longrightarrow>
    pipeStep J t Quiet (updCall n (\<lambda>c. c\<lparr>at := RPop, notify := False\<rparr>) t)"
| SeesDone: "calls t n = Some c \<Longrightarrow> at c = RSelect \<Longrightarrow> finished c \<Longrightarrow>
    pipeStep J t Quiet (finishCall n (updCall n (shutWriter (ClosedWith connectionClosed)) t))"
| SeesContext: "calls t n = Some c \<Longrightarrow> at c = RSelect \<Longrightarrow> ctxOver c \<Longrightarrow>
    pipeStep J t Quiet (finishCall n (cancelCall wrote (k_id c) (updCall n (shutWriter (ClosedWith CtxCanceled)) t)))"
| Writes: "calls t n = Some c \<Longrightarrow> at c = RWrite bs returns \<Longrightarrow> \<not> readerShut c \<Longrightarrow> who c = CHas (Response status hs) \<Longrightarrow>
    pipeStep J t Quiet (wroteBody n bs returns t)"
| WriteFails: "calls t n = Some c \<Longrightarrow> at c = RWrite bs returns \<Longrightarrow> readerShut c \<Longrightarrow> k \<le> length bs \<Longrightarrow>
    k = 0 \<or> who c = CHas (Response status hs) \<Longrightarrow> pipeStep J t Quiet (cutBody n bs k t)"
| ClosesBody: "calls t n = Some c \<Longrightarrow> who c = CHas (Response status hs) \<Longrightarrow>
    pipeStep J t Quiet (updCall n (\<lambda>c. c\<lparr>readerShut := True\<rparr>) t)"
| SendsNext: "calls t n = Some c \<Longrightarrow> unsent c = Some f # fs \<Longrightarrow>
    pipeStep J t Quiet (sendFrame e f (updCall n (\<lambda>c. c\<lparr>unsent := if e = None then fs else []\<rparr>) t))"
| SendsCancel: "calls t n = Some c \<Longrightarrow> unsent c = None # fs \<Longrightarrow>
    pipeStep J t Quiet (cancelCall wrote (k_id c) (updCall n (\<lambda>c. c\<lparr>unsent := []\<rparr>) t))"
| ReadsFor: "\<not> loopOver t \<Longrightarrow> \<not> hasPrefix (fr_id f) ''p'' \<Longrightarrow> live t (fr_id f) = Some n \<Longrightarrow> pipeStep J t (Pushed n f) (readFrame f t)"
| Reads: "\<not> loopOver t \<Longrightarrow> hasPrefix (fr_id f) ''p'' \<or> live t (fr_id f) = None \<Longrightarrow> pipeStep J t Quiet (readFrame f t)"
| LoopEnds: "\<not> loopOver t \<Longrightarrow> pipeStep J t Quiet ((failTransport e t)\<lparr>loopOver := True\<rparr>)"
| Serves: "inward t k = Some i \<Longrightarrow> i_serving i \<Longrightarrow> pipeStep J t Quiet (serveIncoming J answer parses writeErr k i t)"
| Shutdown1: "pipeStep J t Quiet (failTransport (Plain ''io: read/write on closed pipe'') t)"
| Shutdown2: "pipeStep J t Quiet (closeResponses t)"

inductive pipeReached :: "json \<Rightarrow> event list \<Rightarrow> transport \<Rightarrow> bool" for J where
  starts: "pipeReached J [] newTransport"
| steps: "pipeReached J tr t \<Longrightarrow> pipeStep J t e t' \<Longrightarrow> pipeReached J (tr @ [e]) t'"

text \<open>The frames that were queued for a call, and those that its goroutine took.\<close>

definition pushed :: "nat \<Rightarrow> event list \<Rightarrow> frame list" where
  "pushed n tr = concat (map (\<lambda>e. case e of Pushed m f \<Rightarrow> if m = n then [f] else [] | _ \<Rightarrow> []) tr)"

definition popped :: "nat \<Rightarrow> event list \<Rightarrow> frame list" where
  "popped n tr = concat (map (\<lambda>e. case e of Popped m f \<Rightarrow> if m = n then [f] else [] | _ \<Rightarrow> []) tr)"

subsection \<open>One call\<close>

definition closeIf :: "bool \<Rightarrow> call \<Rightarrow> call" where
  "closeIf b c = c\<lparr>finished := finished c \<or> b\<rparr>"

inductive cstep :: "json \<Rightarrow> nat \<Rightarrow> bool \<Rightarrow> event \<Rightarrow> call \<Rightarrow> call \<Rightarrow> bool" for J n listed where
  stays: "e = Quiet \<or> (\<exists>m f. m \<noteq> n \<and> (e = Pushed m f \<or> e = Popped m f)) \<Longrightarrow> cstep J n listed e c c"
| starting: "who c = COpening \<Longrightarrow> cstep J n listed Quiet c (c\<lparr>who := CSelect, at := RPop, unsent := us\<rparr>)"
| abandoning: "who c = COpening \<Longrightarrow> cstep J n listed Quiet c (c\<lparr>who := CError e, readerShut := True, writerEnd := Some Closed\<rparr>)"
| taking: "who c = CSelect \<Longrightarrow> ready c = Some r \<Longrightarrow> cstep J n listed Quiet c (c\<lparr>who := CHas r, ready := None\<rparr>)"
| ctx_ends: "cstep J n listed Quiet c (c\<lparr>ctxOver := True\<rparr>)"
| giving_up: "who c = CSelect \<Longrightarrow> ctxOver c \<Longrightarrow> cstep J n listed Quiet c (c\<lparr>who := CError CtxCanceled\<rparr>)"
| pushing: "cstep J n listed (Pushed n f) c (pushFrame f c)"
| popping: "at c = RPop \<Longrightarrow> queue c = f # fs \<Longrightarrow> handleFrame J f (c\<lparr>queue := fs\<rparr>) = (r, d) \<Longrightarrow>
    d' = (if r = RGone then leaveCall d else d\<lparr>at := r\<rparr>) \<Longrightarrow> cstep J n listed (Popped n f) c d'"
| sleeping: "at c = RPop \<Longrightarrow> queue c = [] \<Longrightarrow> cstep J n listed Quiet c (c\<lparr>at := RSelect\<rparr>)"
| waking: "at c = RSelect \<Longrightarrow> notify c \<Longrightarrow> cstep J n listed Quiet c (c\<lparr>at := RPop, notify := False\<rparr>)"
| leaving: "at c = RSelect \<Longrightarrow> cstep J n listed Quiet c (leaveCall (shutWriter (ClosedWith e) c))"
| writing: "at c = RWrite bs returns \<Longrightarrow> \<not> readerShut c \<Longrightarrow> who c = CHas (Response status hs) \<Longrightarrow> d = c\<lparr>received := received c @ bs, at := RPop\<rparr> \<Longrightarrow>
    cstep J n listed Quiet c (if returns then leaveCall d else d)"
| cutting: "at c = RWrite bs returns \<Longrightarrow> readerShut c \<Longrightarrow> cstep J n listed Quiet c (leaveCall (c\<lparr>received := received c @ take k bs\<rparr>))"
| shutting: "listed \<or> (\<exists>status hs. who c = CHas (Response status hs)) \<Longrightarrow> cstep J n listed Quiet c (c\<lparr>readerShut := True\<rparr>)"
| sending: "cstep J n listed Quiet c (c\<lparr>unsent := us\<rparr>)"

lemma calls_updCall: "calls (updCall n f t) m = (if m = n then map_option f (calls t m) else calls t m)"
  by (simp add: updCall_def)

lemma calls_fields [simp]:
  "calls (t\<lparr>sent := s\<rparr>) = calls t" "calls (t\<lparr>live := l\<rparr>) = calls t" "calls (t\<lparr>loopOver := b\<rparr>) = calls t"
  "calls (endIncoming k i t) = calls t" "calls (handleIncomingFrame f t) = calls t"
  by (auto simp: endIncoming_def handleIncomingFrame_def incomingRequest_def Let_def split: option.splits)

lemma closeIf_simps [simp]: "closeIf False c = c" "closeIf True c = closeCall c" "closeIf b (closeIf b' c) = closeIf (b \<or> b') c"
  by (simp_all add: closeIf_def closeCall_def disj_ac)

lemma closeCall_eq: "closeCall = closeIf True"
  by (simp add: fun_eq_iff)

text \<open>Closing \<open>done\<close> of calls, in whatever way.\<close>

definition closesSome :: "transport \<Rightarrow> transport \<Rightarrow> bool" where
  "closesSome t t' \<longleftrightarrow> (\<forall>m. \<exists>b. calls t' m = map_option (closeIf b) (calls t m))"

lemma closesSome_refl: "calls t' = calls t \<Longrightarrow> closesSome t t'"
  unfolding closesSome_def
proof
  fix m
  assume "calls t' = calls t"
  then show "\<exists>b. calls t' m = map_option (closeIf b) (calls t m)" by (intro exI [of _ False], cases "calls t m") simp_all
qed

lemma closesSome_trans: "closesSome t u \<Longrightarrow> closesSome u v \<Longrightarrow> closesSome t v"
  unfolding closesSome_def
proof
  fix m
  assume a: "\<forall>m. \<exists>b. calls u m = map_option (closeIf b) (calls t m)" "\<forall>m. \<exists>b. calls v m = map_option (closeIf b) (calls u m)"
  then obtain b b' where "calls u m = map_option (closeIf b) (calls t m)" "calls v m = map_option (closeIf b') (calls u m)" by blast
  then have "calls v m = map_option (closeIf (b' \<or> b)) (calls t m)" by (simp add: option.map_comp comp_def)
  then show "\<exists>b. calls v m = map_option (closeIf b) (calls t m)" ..
qed

lemma removeCall_closes: "closesSome t (removeCall i t)"
  unfolding closesSome_def
proof
  fix m
  show "\<exists>b. calls (removeCall i t) m = map_option (closeIf b) (calls t m)"
  proof (cases "live t i = Some m")
    case True
    then show ?thesis by (intro exI [of _ True]) (simp add: removeCall_def calls_updCall closeCall_eq)
  next
    case False
    then show ?thesis
      by (intro exI [of _ False], cases "calls t m") (auto simp: removeCall_def calls_updCall split: option.split)
  qed
qed

lemma cancelCall_closes: "closesSome t (cancelCall wrote i t)"
proof -
  have "closesSome u (removeCall i u)" for u by (rule removeCall_closes)
  moreover have "closesSome t (if wrote then t\<lparr>sent := s\<rparr> else t)" for s by (rule closesSome_refl) simp
  ultimately show ?thesis unfolding cancelCall_def by (blast intro: closesSome_trans)
qed

lemma failTransport_closes: "closesSome t (failTransport e t)"
  unfolding closesSome_def
proof
  fix m
  show "\<exists>b. calls (failTransport e t) m = map_option (closeIf b) (calls t m)"
  proof (cases "terr t = None \<and> (\<exists>c. calls t m = Some c \<and> live t (k_id c) = Some m)")
    case True
    then show ?thesis by (intro exI [of _ True]) (auto simp: failTransport_def)
  next
    case False
    then show ?thesis by (intro exI [of _ False]) (auto simp: failTransport_def map_option_case split: option.split)
  qed
qed

lemma sendFrame_closes: "closesSome t (sendFrame e f t)"
  by (cases e) (simp_all add: sendFrame_def closesSome_refl failTransport_closes)

subsection \<open>What a step does to a call\<close>

text \<open>\<open>g\<close> on the call \<open>n\<close>, and nothing on the others, but for closing \<open>done\<close>.\<close>

definition onCall :: "nat \<Rightarrow> (call \<Rightarrow> call) \<Rightarrow> transport \<Rightarrow> transport \<Rightarrow> bool" where
  "onCall n g t t' \<longleftrightarrow> (\<forall>m. \<exists>b. calls t' m = map_option (\<lambda>c. closeIf b (if m = n then g c else c)) (calls t m))"

lemma onCall_upd: "onCall n g t (updCall n g t)"
  unfolding onCall_def
proof
  fix m
  show "\<exists>b. calls (updCall n g t) m = map_option (\<lambda>c. closeIf b (if m = n then g c else c)) (calls t m)"
    by (intro exI [of _ False]) (auto simp: calls_updCall option.map_ident)
qed

lemma onCall_eq: "calls u = calls t \<Longrightarrow> onCall n g t v = onCall n g u v"
  by (simp add: onCall_def)

lemma onCall_seq:
  assumes "onCall n g t u" and "onCall n h u v" and "\<And>b c. h (closeIf b c) = closeIf b (h c)"
  shows "onCall n (\<lambda>c. h (g c)) t v"
  unfolding onCall_def
proof
  fix m
  from assms(1,2) obtain b b' where
    "calls u m = map_option (\<lambda>c. closeIf b (if m = n then g c else c)) (calls t m)"
    "calls v m = map_option (\<lambda>c. closeIf b' (if m = n then h c else c)) (calls u m)"
    unfolding onCall_def by meson
  then have "calls v m = map_option (\<lambda>c. closeIf (b' \<or> b) (if m = n then h (g c) else c)) (calls t m)"
    by (cases "calls t m") (simp_all add: assms(3))
  then show "\<exists>b. calls v m = map_option (\<lambda>c. closeIf b (if m = n then h (g c) else c)) (calls t m)" ..
qed

lemma closes_onCall: "closesSome t u \<longleftrightarrow> onCall n (\<lambda>c. c) t u"
  by (simp add: closesSome_def onCall_def cong: if_cong)

lemma onCall_closes: "onCall n g t u \<Longrightarrow> closesSome u v \<Longrightarrow> onCall n g t v"
  using onCall_seq [of n g t u "\<lambda>c. c" v] closes_onCall by blast

lemma closes_before: "closesSome t u \<Longrightarrow> onCall n g u v \<Longrightarrow> (\<And>b c. g (closeIf b c) = closeIf b (g c)) \<Longrightarrow> onCall n g t v"
  using onCall_seq [of n "\<lambda>c. c" t u g v] closes_onCall by blast

lemma leaveCall_closeIf: "leaveCall (closeIf b c) = closeIf b (leaveCall c)"
  by (simp add: leaveCall_def shutWriter_def closeIf_def)

lemma finishCall_on: "onCall n leaveCall t (finishCall n t)"
proof (cases "calls t n")
  case None
  then have "calls (updCall n leaveCall t) = calls t" by (auto simp: updCall_def)
  with None onCall_upd [of n leaveCall t] show ?thesis by (simp add: finishCall_def onCall_def)
next
  case (Some c)
  then show ?thesis using onCall_closes [OF onCall_upd removeCall_closes] by (simp add: finishCall_def)
qed

lemma onCall_step:
  assumes "onCall n g t t'" and "calls t m = Some c"
  shows "\<exists>b. calls t' m = Some (closeIf b (if m = n then g c else c))"
  using assms unfolding onCall_def by (metis (no_types, lifting) option.simps(9))

text \<open>\<open>listed\<close>: the call is still in \<open>t.calls\<close>. So a step of the system that is one of \<open>cstep\<close> on \<open>n\<close> is one on every call.\<close>

lemma cstep_all:
  assumes "onCall n g t t'" and "calls t m = Some c" and "\<And>c. calls t n = Some c \<Longrightarrow> cstep J n (live t (k_id c) = Some n) e c (g c)"
    and "e = Quiet \<or> (\<exists>f. e = Pushed n f \<or> e = Popped n f)"
  shows "\<exists>b d. cstep J m (live t (k_id c) = Some m) e c d \<and> calls t' m = Some (closeIf b d)"
proof (cases "m = n")
  case True
  with onCall_step [OF assms(1,2)] assms(2,3) show ?thesis by auto
next
  case False
  with assms(4) have "cstep J m (live t (k_id c) = Some m) e c c" by (intro stays) auto
  with False onCall_step [OF assms(1,2)] show ?thesis by auto
qed

end
