(* ===== verification/Stdio_Calls.thy ===== *)
theory Stdio_Calls
  imports Stdio_System
begin

section \<open>What a call receives\<close>

text \<open>
  Every step of the system is, on each call, one of the local steps \<open>cstep\<close>, but for the closing
  of \<open>done\<close>; the invariant of a call is kept by those. It says what its goroutine has made of
  the frames it took, and that it sleeps only when nothing was queued without a notification.
\<close>

lemma onCall_sent: "onCall n g t (updCall n g (t\<lparr>sent := s\<rparr>))"
  using onCall_upd [of n g "t\<lparr>sent := s\<rparr>"] by (simp add: onCall_def)

lemma pipeStep_call:
  assumes "pipeStep J t e t'" and "calls t m = Some c" and "m \<le> serial t"
  shows "\<exists>b d. cstep J m (live t (k_id c) = Some m) e c d \<and> calls t' m = Some (closeIf b d)"
  using assms(1)
proof cases
  case (Opens verb ct)
  with assms(2,3) have "calls t' m = Some (closeIf False c)" by (simp add: openCall_def Let_def)
  with Opens(1) stays show ?thesis by blast
next
  case (Starts n c0 path hs body broken)
  let ?g = "\<lambda>c. c\<lparr>who := CSelect, at := RPop, unsent := requestFrames (k_id c) (requestStream c) body broken\<rparr>"
  have "onCall n ?g t t'"
    unfolding Starts using Starts onCall_sent by (simp add: startCall_def)
  then show ?thesis by (rule cstep_all [OF _ assms(2)]) (use Starts in \<open>auto intro: starting\<close>)
next
  case (Abandons n c0 e0)
  have "onCall n (\<lambda>c. c\<lparr>who := CError e0, readerShut := True, writerEnd := Some Closed\<rparr>) t t'"
    unfolding Abandons abandonCall_def
    using Abandons closes_before [OF removeCall_closes onCall_upd] by (simp add: closeIf_def)
  then show ?thesis by (rule cstep_all [OF _ assms(2)]) (use Abandons in \<open>auto intro: abandoning\<close>)
next
  case (Returns n c0 r)
  then show ?thesis using onCall_upd by (intro cstep_all [OF _ assms(2)]) (auto intro: taking)
next
  case (ContextEnds n c0)
  then show ?thesis using onCall_upd by (intro cstep_all [OF _ assms(2)]) (auto intro: ctx_ends)
next
  case (GivesUp n c0 wrote)
  have "onCall n (\<lambda>c. c\<lparr>who := CError CtxCanceled\<rparr>) t t'"
    unfolding GivesUp by (rule closes_before [OF cancelCall_closes onCall_upd]) (simp add: closeIf_def)
  then show ?thesis by (rule cstep_all [OF _ assms(2)]) (use GivesUp in \<open>auto intro: giving_up\<close>)
next
  case (Pops n c0 f d0)
  from Pops(5) obtain fs where q: "queue c0 = f # fs" "d0 = c0\<lparr>queue := fs\<rparr>" by (auto simp: popFrame_def split: list.splits)
  obtain r d where h: "handleFrame J f d0 = (r, d)" by (rule prod.exhaust)
  let ?g = "\<lambda>_. if r = RGone then leaveCall d else d\<lparr>at := r\<rparr>"
  have k: "calls t n = Some c0" by fact
  have "onCall n ?g t t'"
  proof (cases "r = RGone")
    case True
    with h Pops(2) have "t' = finishCall n (updCall n (\<lambda>_. d) t)" by (simp add: receiveFrame_def)
    with onCall_seq [OF onCall_upd finishCall_on leaveCall_closeIf] True show ?thesis by simp
  next
    case False
    with h Pops(2) have "t' = updCall n (\<lambda>_. d\<lparr>at := r\<rparr>) t" by (simp add: receiveFrame_def split: receiver.split)
    with onCall_upd False show ?thesis by simp
  qed
  then show ?thesis
  proof (rule cstep_all [OF _ assms(2)])
    fix c'
    assume "calls t n = Some c'"
    with k have "c' = c0" by simp
    with popping [of c0 f fs J r d _ n "live t (k_id c0) = Some n"] q h Pops show "cstep J n (live t (k_id c') = Some n) e c' (if r = RGone then leaveCall d else d\<lparr>at := r\<rparr>)" by simp
  qed (use Pops in auto)
next
  case (Sleeps n c0)
  then show ?thesis
    using onCall_upd by (intro cstep_all [OF _ assms(2)]) (auto simp: popFrame_def split: list.splits intro: sleeping)
next
  case (Notified n c0)
  then show ?thesis using onCall_upd by (intro cstep_all [OF _ assms(2)]) (auto intro: waking)
next
  case (SeesDone n c0)
  have "onCall n (\<lambda>c. leaveCall (shutWriter (ClosedWith connectionClosed) c)) t t'"
    unfolding SeesDone by (rule onCall_seq [OF onCall_upd finishCall_on leaveCall_closeIf])
  then show ?thesis by (rule cstep_all [OF _ assms(2)]) (use SeesDone in \<open>auto intro: leaving\<close>)
next
  case (SeesContext n c0 wrote)
  have "onCall n (\<lambda>c. leaveCall (shutWriter (ClosedWith CtxCanceled) c)) t t'"
    unfolding SeesContext
    by (rule onCall_seq [OF onCall_closes [OF onCall_upd cancelCall_closes] finishCall_on leaveCall_closeIf])
  then show ?thesis by (rule cstep_all [OF _ assms(2)]) (use SeesContext in \<open>auto intro: leaving\<close>)
next
  case (Writes n c0 bs returns status hs)
  let ?w = "\<lambda>c. c\<lparr>received := received c @ bs, at := RPop\<rparr>"
  have "onCall n (\<lambda>c. if returns then leaveCall (?w c) else ?w c) t t'"
    using onCall_seq [OF onCall_upd finishCall_on leaveCall_closeIf, of n ?w t] onCall_upd [of n ?w t] Writes
    by (simp add: wroteBody_def Let_def)
  then show ?thesis
  proof (rule cstep_all [OF _ assms(2)])
    fix c'
    assume "calls t n = Some c'"
    with Writes writing [of c' bs returns status hs "?w c'" J n "live t (k_id c') = Some n"] show "cstep J n (live t (k_id c') = Some n) e c' (if returns then leaveCall (?w c') else ?w c')" by simp
  qed (use Writes in auto)
next
  case (WriteFails n c0 bs returns k status hs)
  have "onCall n (\<lambda>c. leaveCall (c\<lparr>received := received c @ take k bs\<rparr>)) t t'"
    unfolding WriteFails cutBody_def by (rule onCall_seq [OF onCall_upd finishCall_on leaveCall_closeIf])
  then show ?thesis by (rule cstep_all [OF _ assms(2)]) (use WriteFails in \<open>auto intro: cutting\<close>)
next
  case (ClosesBody n c0 status hs)
  then show ?thesis using onCall_upd by (intro cstep_all [OF _ assms(2)]) (auto intro: shutting)
next
  case (SendsNext n c0 f fs e0)
  have "onCall n (\<lambda>c. c\<lparr>unsent := if e0 = None then fs else []\<rparr>) t t'"
    unfolding SendsNext by (rule onCall_closes [OF onCall_upd sendFrame_closes])
  then show ?thesis by (rule cstep_all [OF _ assms(2)]) (use SendsNext in \<open>auto intro: sending\<close>)
next
  case (SendsCancel n c0 fs wrote)
  have "onCall n (\<lambda>c. c\<lparr>unsent := []\<rparr>) t t'"
    unfolding SendsCancel by (rule onCall_closes [OF onCall_upd cancelCall_closes])
  then show ?thesis by (rule cstep_all [OF _ assms(2)]) (use SendsCancel in \<open>auto intro: sending\<close>)
next
  case (ReadsFor f n)
  have "onCall n (pushFrame f) t t'"
    unfolding ReadsFor using ReadsFor onCall_upd by (simp add: readFrame_def)
  then show ?thesis by (rule cstep_all [OF _ assms(2)]) (use ReadsFor in \<open>auto intro: pushing\<close>)
next
  case (Reads f)
  then have "calls t' m = Some (closeIf False c)" using assms(2) by (auto simp: readFrame_def)
  with Reads(1) stays show ?thesis by blast
next
  case (LoopEnds e0)
  have "onCall m (\<lambda>c. c) t t'"
    unfolding LoopEnds using failTransport_closes [of t e0] by (simp add: closesSome_def onCall_def)
  then show ?thesis by (rule cstep_all [OF _ assms(2)]) (use LoopEnds in \<open>auto intro: stays\<close>)
next
  case (Serves k i answer parses writeErr)
  have "onCall m (\<lambda>c. c) t t'"
    unfolding Serves serveIncoming_def
    using sendFrame_closes closesSome_refl by (auto simp: closesSome_def onCall_def split: option.split)
  then show ?thesis by (rule cstep_all [OF _ assms(2)]) (use Serves in \<open>auto intro: stays\<close>)
next
  case Shutdown1
  have "onCall m (\<lambda>c. c) t t'"
    unfolding Shutdown1 using failTransport_closes by (simp add: closesSome_def onCall_def)
  then show ?thesis by (rule cstep_all [OF _ assms(2)]) (use Shutdown1 in \<open>auto intro: stays\<close>)
next
  case Shutdown2
  let ?l = "live t (k_id c) = Some m"
  show ?thesis
  proof (cases ?l)
    case True
    with assms(2) Shutdown2 have "calls t' m = Some (closeIf False (c\<lparr>readerShut := True\<rparr>))" by (simp add: closeResponses_def)
    moreover have "cstep J m ?l Quiet c (c\<lparr>readerShut := True\<rparr>)" by (rule shutting) (use True in simp)
    ultimately show ?thesis using Shutdown2(1) by metis
  next
    case False
    with assms(2) Shutdown2 have "calls t' m = Some (closeIf False c)" by (simp add: closeResponses_def)
    moreover have "cstep J m ?l Quiet c c" by (rule stays) simp
    ultimately show ?thesis using Shutdown2(1) by metis
  qed
qed

subsection \<open>The response that frames make\<close>

text \<open>A reference: what a list of frames means, whoever receives them and however they arrive.\<close>

record response =
  rs_begun :: bool
  rs_stream :: bool
  rs_body :: bytes
  rs_over :: bool

definition noResponse :: response where
  "noResponse = \<lparr>rs_begun = False, rs_stream = False, rs_body = [], rs_over = False\<rparr>"

definition connectStream :: "frame \<Rightarrow> bool" where
  "connectStream f = hasPrefix (getHeader (canonicalHeaders (fr_headers f)) ''Content-Type'') ''application/connect+''"

definition respondTo :: "json \<Rightarrow> response \<Rightarrow> frame \<Rightarrow> response" where
  "respondTo J r f =
     (if rs_over r then r
      else if fr_type f = ''headers'' then
        if rs_begun r then r\<lparr>rs_over := True\<rparr> else r\<lparr>rs_begun := True, rs_stream := connectStream f\<rparr>
      else if fr_type f = ''message'' then
        if rs_begun r then r\<lparr>rs_body := rs_body r @ (if rs_stream r then envelope 0 (fr_value f) else fr_value f)\<rparr>
        else r\<lparr>rs_over := True\<rparr>
      else if fr_type f = ''error'' then r\<lparr>rs_body := rs_body r @ fr_value f\<rparr>
      else if fr_type f = ''end'' then
        r\<lparr>rs_body := rs_body r @ (if rs_stream r then envelope 2 (encodeEnd J f) else []), rs_over := True\<rparr>
      else r)"

definition respond :: "json \<Rightarrow> frame list \<Rightarrow> response" where
  "respond J fs = foldl (respondTo J) noResponse fs"

lemma respond_snoc: "respond J (fs @ [f]) = respondTo J (respond J fs) f" and respond_Nil [simp]: "respond J [] = noResponse"
  by (simp_all add: respond_def)

text \<open>Where the goroutine stands agrees with the frames \<open>fs\<close> it took.\<close>

definition readsBack :: "response \<Rightarrow> call \<Rightarrow> bool" where
  "readsBack r c \<longleftrightarrow> begun c = rs_begun r \<and> responseStream c = rs_stream r \<and> prefix (received c) (rs_body r) \<and>
     (case at c of
        RIdle \<Rightarrow> r = noResponse
      | RWrite bs returns \<Rightarrow> rs_body r = received c @ bs \<and> rs_over r = returns \<and> writerEnd c = None
      | RGone \<Rightarrow> writerEnd c \<noteq> None \<and> (writerEnd c = Some Closed \<and> \<not> readerShut c \<longrightarrow> received c = rs_body r \<and> rs_over r)
      | _ \<Rightarrow> received c = rs_body r \<and> \<not> rs_over r \<and> writerEnd c = None)"

definition callerOK :: "call \<Rightarrow> bool" where
  "callerOK c \<longleftrightarrow> (who c = COpening \<longrightarrow> at c = RIdle \<and> writerEnd c = None) \<and>
     (who c = CSelect \<longrightarrow> at c \<noteq> RIdle \<and> (begun c \<or> at c = RGone \<longrightarrow> ready c \<noteq> None))"

definition awake :: "call \<Rightarrow> bool" where
  "awake c \<longleftrightarrow> (at c = RSelect \<longrightarrow> queue c \<noteq> [] \<longrightarrow> notify c)"

definition callInv :: "json \<Rightarrow> nat \<Rightarrow> event list \<Rightarrow> call \<Rightarrow> bool" where
  "callInv J n tr c \<longleftrightarrow> popped n tr @ queue c = pushed n tr \<and> readsBack (respond J (popped n tr)) c \<and> callerOK c \<and> awake c"

lemma callInv_closeIf: "callInv J n tr (closeIf b c) = callInv J n tr c"
  by (simp add: callInv_def readsBack_def callerOK_def awake_def closeIf_def cong: receiver.case_cong)

lemma trace_snoc:
  "pushed n (tr @ [e]) = pushed n tr @ (case e of Pushed m f \<Rightarrow> if m = n then [f] else [] | _ \<Rightarrow> [])"
  "popped n (tr @ [e]) = popped n tr @ (case e of Popped m f \<Rightarrow> if m = n then [f] else [] | _ \<Rightarrow> [])"
  by (simp_all add: pushed_def popped_def)

lemma callInv_quiet:
  "e = Quiet \<or> (\<exists>m f. m \<noteq> n \<and> (e = Pushed m f \<or> e = Popped m f)) \<Longrightarrow> callInv J n (tr @ [e]) c = callInv J n tr c"
  by (auto simp: callInv_def trace_snoc)

lemma handle_reads:
  assumes "readsBack r c" and "at c = RPop" and "handleFrame J f c = (p, d)"
  shows "readsBack (respondTo J r f) (if p = RGone then leaveCall d else d\<lparr>at := p\<rparr>)"
proof -
  have r: "begun c = rs_begun r" "responseStream c = rs_stream r" "received c = rs_body r" "\<not> rs_over r" "writerEnd c = None"
    using assms(1,2) by (simp_all add: readsBack_def)
  consider "fr_type f = ''headers''" "begun c" | "fr_type f = ''headers''" "\<not> begun c"
    | "fr_type f = ''message''" "begun c" | "fr_type f = ''message''" "\<not> begun c"
    | "fr_type f = ''error''" | "fr_type f = ''end''" "responseStream c" | "fr_type f = ''end''" "\<not> responseStream c"
    | "fr_type f \<notin> {''headers'', ''message'', ''error'', ''end''}" by blast
  then show ?thesis
    using assms(3) r
    by cases (auto simp: handleFrame_def respondTo_def readsBack_def leaveCall_def shutWriter_def connectStream_def Let_def)
qed

lemma handle_fields: "handleFrame J f c = (p, d) \<Longrightarrow> queue d = queue c \<and> who d = who c \<and> at d = at c \<and> (\<not> begun c \<and> begun d \<longrightarrow> ready d \<noteq> None) \<and>
    (begun c \<longrightarrow> begun d \<and> ready d = ready c) \<and> p \<noteq> RIdle \<and> p \<noteq> RSelect"
  by (auto simp: handleFrame_def Let_def split: if_splits)

lemma cstep_inv:
  assumes "cstep J n listed e c d" and "callInv J n tr c"
  shows "callInv J n (tr @ [e]) d"
  using assms(1)
proof cases
  case stays
  with assms(2) show ?thesis by (simp add: callInv_quiet)
next
  case (popping f fs r d0)
  have inv: "popped n tr @ f # fs = pushed n tr" "readsBack (respond J (popped n tr)) (c\<lparr>queue := fs\<rparr>)" "callerOK c"
    using assms(2) popping by (auto simp: callInv_def readsBack_def)
  note h = handle_fields [OF popping(4)]
  have "readsBack (respond J (popped n tr @ [f])) d"
    unfolding popping(5) respond_snoc by (rule handle_reads [OF inv(2) _ popping(4)]) (simp add: popping)
  moreover have "queue d = fs" using h popping(5) by (auto simp: leaveCall_def shutWriter_def)
  moreover have "callerOK d" "awake d"
    using h popping(2,5) inv(3) by (auto simp: callerOK_def awake_def leaveCall_def shutWriter_def)
  ultimately show ?thesis using inv(1) popping(1) by (simp add: callInv_def trace_snoc)
next
  case (pushing f)
  with assms(2) show ?thesis by (simp add: callInv_def trace_snoc pushFrame_def readsBack_def callerOK_def awake_def cong: receiver.case_cong)
next
  case (leaving e0)
  with assms(2) show ?thesis
    by (auto simp: callInv_def trace_snoc readsBack_def callerOK_def awake_def leaveCall_def shutWriter_def)
next
  case (writing bs returns d0)
  with assms(2) show ?thesis
    by (auto simp: callInv_def trace_snoc readsBack_def callerOK_def awake_def leaveCall_def shutWriter_def)
next
  case (cutting bs returns k)
  with assms(2) show ?thesis
    by (auto simp: callInv_def trace_snoc readsBack_def callerOK_def awake_def leaveCall_def shutWriter_def take_is_prefix)
qed (use assms(2) in \<open>auto simp: callInv_def trace_snoc readsBack_def callerOK_def awake_def noResponse_def split: receiver.splits\<close>)

subsection \<open>Every reachable state\<close>

text \<open>What all steps but \<open>Do\<close>'s keep of the tables of calls.\<close>

definition tame :: "transport \<Rightarrow> transport \<Rightarrow> bool" where
  "tame t t' \<longleftrightarrow> dom (calls t') = dom (calls t) \<and> serial t' = serial t \<and> live t' \<subseteq>\<^sub>m live t"

lemma tame_refl: "tame t t"
  by (simp add: tame_def)

lemma tame_trans: "tame t u \<Longrightarrow> tame u v \<Longrightarrow> tame t v"
  unfolding tame_def by (auto intro: map_le_trans)

lemma tame_upd: "tame t u \<Longrightarrow> tame t (updCall n g u)"
  by (auto simp: tame_def updCall_def dom_def)

lemma tame_fields: "tame t u \<Longrightarrow> tame t (u\<lparr>sent := s\<rparr>)" "tame t u \<Longrightarrow> tame t (u\<lparr>loopOver := b\<rparr>)"
    "tame t u \<Longrightarrow> tame t (u\<lparr>inLive := il\<rparr>)" "tame t u \<Longrightarrow> tame t (u\<lparr>inward := iw\<rparr>)"
    "tame t u \<Longrightarrow> tame t (u\<lparr>inLive := il, inward := iw\<rparr>)" "tame t u \<Longrightarrow> tame t (u\<lparr>inSerial := k, inLive := il, inward := iw\<rparr>)"
  by (simp_all add: tame_def)

lemma tame_remove: "tame t u \<Longrightarrow> tame t (removeCall i u)"
  using tame_upd [of t u "the (live u i)" closeCall]
  by (cases "live u i") (auto simp: removeCall_def tame_def map_le_def dom_def)

lemma tame_cancel: "tame t u \<Longrightarrow> tame t (cancelCall w i u)"
  unfolding cancelCall_def by (auto intro!: tame_remove tame_fields)

lemma tame_fail: "tame t u \<Longrightarrow> tame t (failTransport e u)"
  by (auto simp: failTransport_def tame_def dom_def)

lemma tame_responses: "tame t u \<Longrightarrow> tame t (closeResponses u)"
  by (auto simp: closeResponses_def tame_def dom_def)

lemma tame_finish: "tame t u \<Longrightarrow> tame t (finishCall n u)"
  unfolding finishCall_def by (auto intro: tame_remove tame_upd split: option.split)

lemma tame_send: "tame t u \<Longrightarrow> tame t (sendFrame e f u)"
  unfolding sendFrame_def by (auto intro: tame_fields tame_fail split: option.split)

lemma tame_incoming: "tame t u \<Longrightarrow> tame t (handleIncomingFrame f u)"
  unfolding handleIncomingFrame_def incomingRequest_def Let_def by (auto intro!: tame_fields split: option.split)

lemmas tame_rules = tame_refl tame_upd tame_fields tame_remove tame_cancel tame_fail tame_responses tame_finish tame_send tame_incoming

lemma tstep_tame:
  assumes "pipeStep J t e t'"
  shows "tame t t' \<or> (\<exists>ct. t' = openCall ct t \<and> e = Quiet)"
  using assms
proof cases
  case (Pops n c f d)
  have "tame t (receiveFrame J n f d t)"
    unfolding receiveFrame_def by (auto intro: tame_rules split: prod.split receiver.split)
  with Pops show ?thesis by simp
next
  case (Serves k i answer parses writeErr)
  have "tame t (serveIncoming J answer parses writeErr k i t)"
    unfolding serveIncoming_def endIncoming_def by (auto intro!: tame_rules split: option.split)
  with Serves show ?thesis by simp
qed (auto simp: startCall_def abandonCall_def wroteBody_def cutBody_def readFrame_def Let_def intro!: tame_rules split: option.split)

definition reachInv :: "json \<Rightarrow> event list \<Rightarrow> transport \<Rightarrow> bool" where
  "reachInv J tr t \<longleftrightarrow>
     (\<forall>n c. calls t n = Some c \<longrightarrow> callInv J n tr c \<and> n \<le> serial t) \<and>
     (\<forall>n. calls t n = None \<longrightarrow> pushed n tr = [] \<and> popped n tr = []) \<and>
     (\<forall>i n. live t i = Some n \<longrightarrow> calls t n \<noteq> None)"

lemma event_known: "pipeStep J t e t' \<Longrightarrow> (\<And>i n. live t i = Some n \<Longrightarrow> calls t n \<noteq> None) \<Longrightarrow> e = Pushed n f \<or> e = Popped n f \<Longrightarrow> calls t n \<noteq> None"
  by (erule pipeStep.cases) auto

lemma pipeReached_inv: "pipeReached J tr t \<Longrightarrow> reachInv J tr t"
proof (induction rule: pipeReached.induct)
  case starts
  show ?case by (simp add: reachInv_def newTransport_def pushed_def popped_def)
next
  case (steps tr t e t')
  note inv = steps.IH [unfolded reachInv_def]
  have known: "calls t n \<noteq> None" if "e = Pushed n f \<or> e = Popped n f" for n f
    by (rule event_known [OF steps.hyps(2) _ that]) (use inv in blast)
  have old: "callInv J n (tr @ [e]) d" if "calls t n = Some c" "calls t' n = Some d" for n c d
  proof -
    from inv that have c: "callInv J n tr c" "n \<le> serial t" by auto
    from pipeStep_call [OF steps.hyps(2) that(1) c(2)] obtain b d0 where "cstep J n (live t (k_id c) = Some n) e c d0" "calls t' n = Some (closeIf b d0)" by blast
    with cstep_inv [OF _ c(1)] that(2) show ?thesis by (auto simp: callInv_closeIf)
  qed
  have none: "pushed n (tr @ [e]) = [] \<and> popped n (tr @ [e]) = []" if "calls t n = None" for n
    using inv that known by (cases e) (auto simp: trace_snoc)
  from tstep_tame [OF steps.hyps(2)] show ?case
  proof
    assume tame: "tame t t'"
    then have d: "calls t' n = None \<longleftrightarrow> calls t n = None" for n unfolding tame_def by (metis domIff)
    have "live t i = Some n" if "live t' i = Some n" for i n using tame that by (auto simp: tame_def map_le_def dom_def)
    with d inv have l: "\<forall>i n. live t' i = Some n \<longrightarrow> calls t' n \<noteq> None" by blast
    moreover have "callInv J n (tr @ [e]) c \<and> n \<le> serial t'" if "calls t' n = Some c" for n c
    proof -
      from d [of n] that obtain c0 where "calls t n = Some c0" by auto
      with old [OF _ that] inv tame show ?thesis by (simp add: tame_def)
    qed
    ultimately show ?thesis using d none by (simp add: reachInv_def)
  next
    assume "\<exists>ct. t' = openCall ct t \<and> e = Quiet"
    then obtain ct where o: "t' = openCall ct t" "e = Quiet" by blast
    let ?n = "Suc (serial t)"
    have fresh: "calls t ?n = None"
    proof (cases "calls t ?n")
      case (Some c)
      with inv have "?n \<le> serial t" by blast
      then show ?thesis by simp
    qed
    have new: "callInv J ?n (tr @ [e]) (newCall ?n ct)"
      using none [OF fresh] by (simp add: callInv_def newCall_def readsBack_def callerOK_def awake_def noResponse_def)
    have "callInv J n (tr @ [e]) c \<and> n \<le> serial t'" if "calls t' n = Some c" for n c
    proof (cases "n = ?n")
      case True
      with that new o show ?thesis by (simp add: openCall_def Let_def)
    next
      case False
      with that o have "calls t n = Some c" by (simp add: openCall_def Let_def)
      moreover from inv this have "n \<le> serial t" by blast
      ultimately show ?thesis using old [OF _ that] o by (simp add: openCall_def Let_def)
    qed
    moreover have "pushed n (tr @ [e]) = [] \<and> popped n (tr @ [e]) = []" if "calls t' n = None" for n
      using that o none by (auto simp: openCall_def Let_def split: if_splits)
    moreover have "calls t' n \<noteq> None" if "live t' i = Some n" for i n
      using that o inv by (auto simp: openCall_def Let_def split: if_splits)
    ultimately show ?thesis by (simp add: reachInv_def)
  qed
qed

text \<open>
  C36: the goroutine of a call takes the frames that were read for it, and no others, in the order
  in which they came; the body that its caller can read is at any time a prefix of the body that
  these frames make, and when it ends without an error and was not closed by the caller, it is
  the whole body of a response that has come to its end.
\<close>

theorem stdio_response_exact:
  assumes "pipeReached J tr t" and "calls t n = Some c"
  shows "popped n tr @ queue c = pushed n tr \<and> prefix (received c) (rs_body (respond J (popped n tr))) \<and>
    (at c = RGone \<and> writerEnd c = Some Closed \<and> \<not> readerShut c \<longrightarrow>
      received c = rs_body (respond J (popped n tr)) \<and> rs_over (respond J (popped n tr)))"
proof -
  have "callInv J n tr c" using pipeReached_inv [OF assms(1)] assms(2) by (simp add: reachInv_def)
  then show ?thesis by (auto simp: callInv_def readsBack_def)
qed

text \<open>
  C37: the goroutine of a call that sleeps while a frame is queued, the call is closed or its
  context is over can go on, whoever pushed the frame and whenever: no wakeup is lost. A caller
  whose goroutine is gone has a result to take.
\<close>

theorem stdio_receiver_wakes:
  assumes "pipeReached J tr t" and "calls t n = Some c"
  shows "(at c = RSelect \<and> (queue c \<noteq> [] \<or> finished c \<or> ctxOver c) \<longrightarrow>
      (\<exists>t' d. pipeStep J t Quiet t' \<and> calls t' n = Some d \<and> at d \<noteq> RSelect)) \<and>
    (at c = RGone \<and> who c = CSelect \<longrightarrow>
      (\<exists>r t' d. ready c = Some r \<and> pipeStep J t Quiet t' \<and> calls t' n = Some d \<and> who d = CHas r))"
proof (intro conjI impI)
  have inv: "callInv J n tr c" using pipeReached_inv [OF assms(1)] assms(2) by (simp add: reachInv_def)
  assume a: "at c = RSelect \<and> (queue c \<noteq> [] \<or> finished c \<or> ctxOver c)"
  have gone: "\<exists>d. calls t' n = Some d \<and> at d \<noteq> RSelect"
    if "onCall n g t t'" and "at (g c) \<noteq> RSelect" for g t'
    using onCall_step [OF that(1) assms(2)] that(2) by (auto simp: closeIf_def)
  consider "notify c" | "finished c" | "ctxOver c" using a inv by (auto simp: callInv_def awake_def)
  then show "\<exists>t' d. pipeStep J t Quiet t' \<and> calls t' n = Some d \<and> at d \<noteq> RSelect"
  proof cases
    case 1
    with a have "pipeStep J t Quiet (updCall n (\<lambda>c. c\<lparr>at := RPop, notify := False\<rparr>) t)" by (intro Notified [OF assms(2)]) simp_all
    moreover have "\<exists>d. calls (updCall n (\<lambda>c. c\<lparr>at := RPop, notify := False\<rparr>) t) n = Some d \<and> at d \<noteq> RSelect"
      by (rule gone [OF onCall_upd]) simp
    ultimately show ?thesis by blast
  next
    case 2
    with a have "pipeStep J t Quiet (finishCall n (updCall n (shutWriter (ClosedWith connectionClosed)) t))"
      by (intro SeesDone [OF assms(2)]) simp_all
    moreover have "\<exists>d. calls (finishCall n (updCall n (shutWriter (ClosedWith connectionClosed)) t)) n = Some d \<and> at d \<noteq> RSelect"
      by (rule gone [OF onCall_seq [OF onCall_upd finishCall_on leaveCall_closeIf]]) (simp add: leaveCall_def)
    ultimately show ?thesis by blast
  next
    case 3
    let ?u = "finishCall n (cancelCall True (k_id c) (updCall n (shutWriter (ClosedWith CtxCanceled)) t))"
    from 3 a have "pipeStep J t Quiet ?u" by (intro SeesContext [OF assms(2)]) simp_all
    moreover have "\<exists>d. calls ?u n = Some d \<and> at d \<noteq> RSelect"
      by (rule gone [OF onCall_seq [OF onCall_closes [OF onCall_upd cancelCall_closes] finishCall_on leaveCall_closeIf]])
        (simp add: leaveCall_def)
    ultimately show ?thesis by blast
  qed
next
  have inv: "callInv J n tr c" using pipeReached_inv [OF assms(1)] assms(2) by (simp add: reachInv_def)
  assume a: "at c = RGone \<and> who c = CSelect"
  with inv obtain r where r: "ready c = Some r" by (auto simp: callInv_def callerOK_def)
  with a have "pipeStep J t Quiet (updCall n (\<lambda>c. c\<lparr>who := CHas r, ready := None\<rparr>) t)" by (intro Returns [OF assms(2)]) simp_all
  moreover have "\<exists>d. calls (updCall n (\<lambda>c. c\<lparr>who := CHas r, ready := None\<rparr>) t) n = Some d \<and> who d = CHas r"
    using assms(2) by (simp add: updCall_def)
  ultimately show "\<exists>r t' d. ready c = Some r \<and> pipeStep J t Quiet t' \<and> calls t' n = Some d \<and> who d = CHas r" using r by blast
qed

subsection \<open>The messages of a stream\<close>

definition messageFrame :: "string \<Rightarrow> bytes \<Rightarrow> frame" where
  "messageFrame i v = frame0 i ''message''\<lparr>fr_value := v\<rparr>"

lemma respond_messages:
  "rs_begun r \<Longrightarrow> rs_stream r \<Longrightarrow> \<not> rs_over r \<Longrightarrow>
   foldl (respondTo J) r (map (messageFrame i) vs) = r\<lparr>rs_body := rs_body r @ concat (map (envelope 0) vs)\<rparr>"
  by (induction vs arbitrary: r) (simp_all add: respondTo_def messageFrame_def frame0_def)

text \<open>
  the envelopes of a request's body become one message frame each and then the half close, and
  the message frames of a streamed response become the same envelopes again, so that the other
  end's reader gets the messages as they were sent.
\<close>

theorem stdio_stream_messages:
  assumes "list_all (\<lambda>v. length v < maxLine) vs" and "fr_type h = ''headers''" and "connectStream h" and "fr_type e = ''end''"
  shows "requestFrames i True (concat (map (envelope 0) vs)) False =
      map Some (map (messageFrame i) vs) @ [Some (frame0 i ''half_close'')] \<and>
    rs_body (respond J (h # map (messageFrame i) vs @ [e])) = concat (map (envelope 0) vs) @ envelope 2 (encodeEnd J e) \<and>
    rs_over (respond J (h # map (messageFrame i) vs @ [e])) \<and>
    readEnvelopes (concat (map (envelope 0) vs)) False = (vs, True)"
  using assms respond_messages [of "respondTo J noResponse h" J i vs] read_envelopes [OF assms(1)]
  by (simp add: requestFrames_def messageFrame_def respond_def respondTo_def noResponse_def)

end
