(* ===== verification/Stdio_Example.thy ===== *)
theory Stdio_Example
  imports Stdio_Calls
begin

section \<open>Two races\<close>

text \<open>
  A call and its response, step by step: the properties of \<open>Stdio_Calls\<close> hold there, and two
  things that go wrong. A response that has arrived in full is dropped when the input ends
  before the call's goroutine looks at its queue again, since \<open>select\<close> may then see \<open>done\<close>
  instead of \<open>notify\<close>. And a caller whose context ends while a message is queued leaves the
  goroutine in a write that nobody reads: \<open>cancel\<close> takes the call out of \<open>t.calls\<close>, so
  \<open>closeResponses\<close> does not find it and \<open>Shutdown\<close> waits for it for ever.
\<close>

subsection \<open>States with one call\<close>

definition plainJSON :: json where
  "plainJSON = \<lparr>encodeFrame = (\<lambda>f. None), decodeFrame = (\<lambda>b. None), encodeEnd = (\<lambda>f. []), encodeError = (\<lambda>c m. []),
     validJSON = (\<lambda>b. True)\<rparr>"

definition oneCall :: "call \<Rightarrow> bool \<Rightarrow> goerr option \<Rightarrow> frame list \<Rightarrow> bool \<Rightarrow> transport" where
  "oneCall c listed e out over =
     newTransport\<lparr>serial := 1, live := (if listed then [''g1'' \<mapsto> 1] else Map.empty), calls := [1 \<mapsto> c], terr := e,
       sent := out, loopOver := over\<rparr>"

definition idle :: call where "idle = newCall 1 jsonType"

definition openFrame :: frame where "openFrame = frame0 ''g1'' ''open''"
definition headFrame :: frame where "headFrame = frame0 ''g1'' ''headers''\<lparr>fr_status := 200\<rparr>"
definition bodyFrame :: frame where "bodyFrame = messageFrame ''g1'' [1]"
definition endFrame :: frame where "endFrame = frame0 ''g1'' ''end''"

lemma callID_one: "callID 1 = ''g1''"
proof -
  have "char_of (49 :: nat) = CHR ''1''" by code_simp
  then show ?thesis by (simp add: callID_def decimalText.simps [of "Suc 0"])
qed

definition waiting :: call where
  "waiting = idle\<lparr>who := CSelect, at := RPop, unsent := requestFrames ''g1'' False [] False\<rparr>"

lemma idle_fields: "k_id idle = ''g1''" "who idle = COpening" "requestStream idle = False"
  unfolding idle_def newCall_def callID_one by (simp_all add: jsonType_def)

lemma step1: "pipeStep J newTransport Quiet (oneCall idle True None [] False)"
proof -
  have "openCall jsonType newTransport = oneCall idle True None [] False"
    by (simp add: openCall_def oneCall_def newTransport_def idle_def callID_one [simplified] Let_def)
  moreover have "pipeStep J newTransport Quiet (openCall jsonType newTransport)"
    by (rule Opens [of _ "''POST''"]) (simp_all add: newTransport_def checkRequest_def)
  ultimately show ?thesis by simp
qed

lemma step2: "pipeStep J (oneCall idle True None [] False) Quiet (oneCall waiting True None [openFrame] False)"
proof -
  have "startCall 1 [] [] [] False (oneCall idle True None [] False) = oneCall waiting True None [openFrame] False"
    by (simp add: startCall_def oneCall_def updCall_def newTransport_def waiting_def idle_fields openFrame_def frame0_def)
  moreover have "pipeStep J (oneCall idle True None [] False) Quiet (startCall 1 [] [] [] False (oneCall idle True None [] False))"
    by (rule Starts [of _ _ idle]) (simp_all add: oneCall_def idle_fields)
  ultimately show ?thesis by simp
qed

lemma one_push:
  assumes "fr_id f = ''g1''"
  shows "pipeStep J (oneCall c True e out False) (Pushed 1 f) (oneCall (pushFrame f c) True e out False)"
proof -
  have "readFrame f (oneCall c True e out False) = oneCall (pushFrame f c) True e out False"
    using assms by (simp add: readFrame_def oneCall_def updCall_def newTransport_def)
  moreover have "pipeStep J (oneCall c True e out False) (Pushed 1 f) (readFrame f (oneCall c True e out False))"
    by (rule ReadsFor) (use assms in \<open>simp_all add: oneCall_def newTransport_def\<close>)
  ultimately show ?thesis by simp
qed

lemma one_sleep:
  assumes "at c = RPop" and "queue c = []"
  shows "pipeStep J (oneCall c l e out over) Quiet (oneCall (c\<lparr>at := RSelect\<rparr>) l e out over)"
proof -
  have "updCall 1 (\<lambda>c. c\<lparr>at := RSelect\<rparr>) (oneCall c l e out over) = oneCall (c\<lparr>at := RSelect\<rparr>) l e out over"
    by (simp add: oneCall_def updCall_def newTransport_def)
  moreover have "pipeStep J (oneCall c l e out over) Quiet (updCall 1 (\<lambda>c. c\<lparr>at := RSelect\<rparr>) (oneCall c l e out over))"
    by (rule Sleeps [of _ _ c]) (use assms in \<open>simp_all add: oneCall_def popFrame_def\<close>)
  ultimately show ?thesis by simp
qed

lemma one_pop:
  assumes "at c = RPop" and "queue c = f # fs" and "handleFrame J f (c\<lparr>queue := fs\<rparr>) = (r, d)" and "r \<noteq> RGone"
  shows "pipeStep J (oneCall c l e out over) (Popped 1 f) (oneCall (d\<lparr>at := r\<rparr>) l e out over)"
proof -
  have "receiveFrame J 1 f (c\<lparr>queue := fs\<rparr>) (oneCall c l e out over) = oneCall (d\<lparr>at := r\<rparr>) l e out over"
    using assms(3,4) by (simp add: receiveFrame_def oneCall_def updCall_def newTransport_def split: receiver.split)
  moreover have "pipeStep J (oneCall c l e out over) (Popped 1 f) (receiveFrame J 1 f (c\<lparr>queue := fs\<rparr>) (oneCall c l e out over))"
    by (rule Pops [of _ _ c]) (use assms in \<open>simp_all add: oneCall_def popFrame_def\<close>)
  ultimately show ?thesis by simp
qed

lemma one_context: "pipeStep J (oneCall c l e out over) Quiet (oneCall (c\<lparr>ctxOver := True\<rparr>) l e out over)"
proof -
  have "updCall 1 (\<lambda>c. c\<lparr>ctxOver := True\<rparr>) (oneCall c l e out over) = oneCall (c\<lparr>ctxOver := True\<rparr>) l e out over"
    by (simp add: oneCall_def updCall_def newTransport_def)
  moreover have "pipeStep J (oneCall c l e out over) Quiet (updCall 1 (\<lambda>c. c\<lparr>ctxOver := True\<rparr>) (oneCall c l e out over))"
    by (rule ContextEnds [of _ _ c]) (simp add: oneCall_def)
  ultimately show ?thesis by simp
qed

lemma one_gives_up:
  assumes "who c = CSelect" and "ctxOver c" and "k_id c = ''g1''"
  shows "pipeStep J (oneCall c True e out over) Quiet
    (oneCall ((closeCall c)\<lparr>who := CError CtxCanceled\<rparr>) False e (out @ [frame0 ''g1'' ''cancel'']) over)"
proof -
  have "updCall 1 (\<lambda>c. c\<lparr>who := CError CtxCanceled\<rparr>) (cancelCall True (k_id c) (oneCall c True e out over)) =
      oneCall ((closeCall c)\<lparr>who := CError CtxCanceled\<rparr>) False e (out @ [frame0 ''g1'' ''cancel'']) over"
    by (simp add: assms(3) oneCall_def updCall_def cancelCall_def removeCall_def newTransport_def)
  moreover have "pipeStep J (oneCall c True e out over) Quiet
      (updCall 1 (\<lambda>c. c\<lparr>who := CError CtxCanceled\<rparr>) (cancelCall True (k_id c) (oneCall c True e out over)))"
    by (rule GivesUp) (use assms in \<open>simp_all add: oneCall_def\<close>)
  ultimately show ?thesis by simp
qed

lemma one_input_ends:
  assumes "k_id c = ''g1''"
  shows "pipeStep J (oneCall c True None out False) Quiet (oneCall (closeCall c) True (Some ioEOF) out True)"
proof -
  have "(failTransport ioEOF (oneCall c True None out False))\<lparr>loopOver := True\<rparr> = oneCall (closeCall c) True (Some ioEOF) out True"
    using assms by (auto simp: failTransport_def oneCall_def newTransport_def fun_eq_iff)
  moreover have "pipeStep J (oneCall c True None out False) Quiet ((failTransport ioEOF (oneCall c True None out False))\<lparr>loopOver := True\<rparr>)"
    by (rule LoopEnds) (simp add: oneCall_def)
  ultimately show ?thesis by simp
qed

lemma one_sees_done:
  assumes "at c = RSelect" and "finished c" and "k_id c = ''g1''"
  shows "pipeStep J (oneCall c True e out over) Quiet
    (oneCall (closeCall (leaveCall (shutWriter (ClosedWith connectionClosed) c))) False e out over)"
proof -
  have "finishCall 1 (updCall 1 (shutWriter (ClosedWith connectionClosed)) (oneCall c True e out over)) =
      oneCall (closeCall (leaveCall (shutWriter (ClosedWith connectionClosed) c))) False e out over"
    using assms(3) by (simp add: finishCall_def removeCall_def oneCall_def updCall_def newTransport_def shutWriter_def)
  moreover have "pipeStep J (oneCall c True e out over) Quiet
      (finishCall 1 (updCall 1 (shutWriter (ClosedWith connectionClosed)) (oneCall c True e out over)))"
    by (rule SeesDone) (use assms in \<open>simp_all add: oneCall_def\<close>)
  ultimately show ?thesis by simp
qed

lemma pipe_open: "pipeReached J [Quiet, Quiet] (oneCall waiting True None [openFrame] False)"
  using steps [OF steps [OF starts step1] step2] by simp

lemma frame_fields: "fr_id headFrame = ''g1''" "fr_id bodyFrame = ''g1''" "fr_id endFrame = ''g1''"
    "fr_type headFrame = ''headers''" "fr_type bodyFrame = ''message''" "fr_type endFrame = ''end''" "fr_value bodyFrame = [1]"
  by (simp_all add: headFrame_def bodyFrame_def endFrame_def messageFrame_def frame0_def)

lemma waiting_fields: "k_id waiting = ''g1''" "who waiting = CSelect" "at waiting = RPop" "queue waiting = []" "begun waiting = False"
    "finished waiting = False" "readerShut waiting = False" "writerEnd waiting = None" "ready waiting = None" "received waiting = []"
  unfolding waiting_def idle_def newCall_def callID_one by simp_all

subsection \<open>A complete response is dropped\<close>

text \<open>
  A response whose headers, message and end have all been read for a call can end as
  "stdio response ended before headers" for its caller, when the input ends right after it.
\<close>

lemma response_dropped:
  "\<exists>tr t c. pipeReached J tr t \<and> calls t 1 = Some c \<and> pushed 1 tr = [headFrame, bodyFrame, endFrame] \<and>
     rs_over (respond J (pushed 1 tr)) \<and> at c = RGone \<and> received c = [] \<and>
     ready c = Some (NoResponse (Plain ''stdio response ended before headers''))"
proof -
  let ?s = "waiting\<lparr>at := RSelect\<rparr>"
  let ?q = "pushFrame endFrame (pushFrame bodyFrame (pushFrame headFrame ?s))"
  let ?c = "closeCall (leaveCall (shutWriter (ClosedWith connectionClosed) (closeCall ?q)))"
  let ?tr = "[Quiet, Quiet, Quiet, Pushed 1 headFrame, Pushed 1 bodyFrame, Pushed 1 endFrame, Quiet, Quiet]"
  have "pipeReached J [Quiet, Quiet, Quiet] (oneCall ?s True None [openFrame] False)"
    using steps [OF pipe_open one_sleep] by (simp add: waiting_fields)
  from steps [OF this one_push [OF frame_fields(1)]]
  have "pipeReached J [Quiet, Quiet, Quiet, Pushed 1 headFrame] (oneCall (pushFrame headFrame ?s) True None [openFrame] False)" by simp
  from steps [OF steps [OF this one_push [OF frame_fields(2)]] one_push [OF frame_fields(3)]]
  have "pipeReached J [Quiet, Quiet, Quiet, Pushed 1 headFrame, Pushed 1 bodyFrame, Pushed 1 endFrame] (oneCall ?q True None [openFrame] False)"
    by simp
  from steps [OF this one_input_ends]
  have "pipeReached J [Quiet, Quiet, Quiet, Pushed 1 headFrame, Pushed 1 bodyFrame, Pushed 1 endFrame, Quiet]
      (oneCall (closeCall ?q) True (Some ioEOF) [openFrame] True)"
    by (simp add: pushFrame_def waiting_fields)
  from steps [OF this one_sees_done]
  have r: "pipeReached J ?tr (oneCall ?c False (Some ioEOF) [openFrame] True)"
    by (simp add: pushFrame_def waiting_fields closeCall_def)
  have c: "at ?c = RGone" "received ?c = []" "ready ?c = Some (NoResponse (Plain ''stdio response ended before headers''))"
    by (simp_all add: closeCall_def leaveCall_def shutWriter_def pushFrame_def waiting_fields)
  have p: "pushed 1 ?tr = [headFrame, bodyFrame, endFrame]" by (simp add: pushed_def)
  have o: "rs_over (respond J [headFrame, bodyFrame, endFrame])"
    by (simp add: respond_def respondTo_def noResponse_def frame_fields)
  have k: "calls (oneCall ?c False (Some ioEOF) [openFrame] True) 1 = Some ?c" by (simp add: oneCall_def)
  show ?thesis
    by (intro exI [of _ ?tr] exI [of _ "oneCall ?c False (Some ioEOF) [openFrame] True"] exI [of _ ?c] conjI r k c)
      (simp_all only: p o)
qed

subsection \<open>A cancelled call keeps \<open>Shutdown\<close> waiting\<close>

text \<open>What \<open>t.workers.Wait\<close> waits for.\<close>

definition workersDone :: "transport \<Rightarrow> bool" where
  "workersDone t \<longleftrightarrow> loopOver t \<and>
     (\<forall>n c. calls t n = Some c \<longrightarrow> (at c = RGone \<or> at c = RIdle \<and> who c \<noteq> COpening) \<and> unsent c = []) \<and>
     (\<forall>k i. inward t k = Some i \<longrightarrow> \<not> i_serving i)"

definition stuckCall :: "call \<Rightarrow> bool" where
  "stuckCall c \<longleftrightarrow> (\<exists>bs returns. at c = RWrite bs returns) \<and> (\<exists>e. who c = CError e) \<and> \<not> readerShut c"

definition stuck :: "nat \<Rightarrow> transport \<Rightarrow> bool" where
  "stuck n t \<longleftrightarrow> (\<exists>c. calls t n = Some c \<and> stuckCall c) \<and> (\<forall>i. live t i \<noteq> Some n) \<and> n \<le> serial t"

text \<open>The one step left to such a call, a write that the reader takes, needs a caller that has the response.\<close>

lemma stuck_cstep: "cstep J n False e c d \<Longrightarrow> stuckCall c \<Longrightarrow> stuckCall d"
  by (erule cstep.cases) (auto simp: stuckCall_def pushFrame_def)

lemma stuck_step:
  assumes "pipeStep J t e t'" and "stuck n t"
  shows "stuck n t'"
proof -
  from assms(2) obtain c where c: "calls t n = Some c" "stuckCall c" "\<And>i. live t i \<noteq> Some n" "n \<le> serial t"
    by (auto simp: stuck_def)
  from pipeStep_call [OF assms(1) c(1,4)] c(3) obtain b d where "cstep J n False e c d" "calls t' n = Some (closeIf b d)" by auto
  with stuck_cstep c(2) have s: "\<exists>d. calls t' n = Some d \<and> stuckCall d" by (auto simp: stuckCall_def closeIf_def)
  from tstep_tame [OF assms(1)] show ?thesis
  proof
    assume t: "tame t t'"
    have "live t' i \<noteq> Some n" for i
    proof
      assume "live t' i = Some n"
      then have "live t i = Some n" using t by (auto simp: tame_def map_le_def dom_def)
      with c(3) show False by simp
    qed
    with s t c(4) show ?thesis by (simp add: stuck_def tame_def)
  next
    assume "\<exists>ct. t' = openCall ct t \<and> e = Quiet"
    with s c(3,4) show ?thesis by (auto simp: stuck_def openCall_def Let_def split: if_splits)
  qed
qed

lemma stuck_for_ever: "(\<lambda>a b. \<exists>e. pipeStep J a e b)\<^sup>*\<^sup>* t u \<Longrightarrow> stuck n t \<Longrightarrow> stuck n u"
  by (induction rule: rtranclp_induct) (auto intro: stuck_step)

lemma stuck_workers: "stuck n t \<Longrightarrow> \<not> workersDone t"
proof
  assume "stuck n t" and w: "workersDone t"
  then obtain c bs returns where c: "calls t n = Some c" "at c = RWrite bs returns" by (auto simp: stuck_def stuckCall_def)
  from w c(1) have "at c = RGone \<or> at c = RIdle" unfolding workersDone_def by blast
  with c(2) show False by simp
qed

text \<open>
  C38: when a caller gives up while a message of its response is queued, the goroutine of the call
  can end in a write that nothing ever ends: in no state that follows, a shutdown of the
  transport included, are the transport's workers done.
\<close>

theorem cancelled_call_hangs:
  "\<exists>tr t. pipeReached J tr t \<and> pushed 1 tr = [headFrame, bodyFrame] \<and>
     {u. (\<lambda>a b. \<exists>e. pipeStep J a e b)\<^sup>*\<^sup>* t u \<and> workersDone u} = {}"
proof -
  let ?q = "pushFrame bodyFrame (pushFrame headFrame waiting)\<lparr>ctxOver := True\<rparr>"
  let ?g = "(closeCall ?q)\<lparr>who := CError CtxCanceled\<rparr>"
  let ?out = "[openFrame, frame0 ''g1'' ''cancel'']"
  let ?tr = "[Quiet, Quiet, Pushed 1 headFrame, Pushed 1 bodyFrame, Quiet, Quiet, Popped 1 headFrame, Popped 1 bodyFrame]"
  from steps [OF steps [OF pipe_open one_push [OF frame_fields(1)]] one_push [OF frame_fields(2)]]
  have "pipeReached J [Quiet, Quiet, Pushed 1 headFrame, Pushed 1 bodyFrame]
      (oneCall (pushFrame bodyFrame (pushFrame headFrame waiting)) True None [openFrame] False)" by simp
  from steps [OF this one_context]
  have "pipeReached J [Quiet, Quiet, Pushed 1 headFrame, Pushed 1 bodyFrame, Quiet] (oneCall ?q True None [openFrame] False)" by simp
  from steps [OF this one_gives_up]
  have r: "pipeReached J [Quiet, Quiet, Pushed 1 headFrame, Pushed 1 bodyFrame, Quiet, Quiet] (oneCall ?g False None ?out False)"
    by (simp add: pushFrame_def waiting_fields)
  have g: "at ?g = RPop" "queue ?g = headFrame # [bodyFrame]" by (simp_all add: closeCall_def pushFrame_def waiting_fields)
  obtain p d where h: "handleFrame J headFrame (?g\<lparr>queue := [bodyFrame]\<rparr>) = (p, d)" by (rule prod.exhaust)
  have d: "p = RPop" "begun d" "queue d = [bodyFrame]" "who d = CError CtxCanceled" "readerShut d = False"
    using h by (auto simp: handleFrame_def frame_fields closeCall_def pushFrame_def waiting_fields Let_def)
  let ?d = "d\<lparr>at := RPop\<rparr>"
  from steps [OF r one_pop [OF g h]] d(1)
  have r2: "pipeReached J [Quiet, Quiet, Pushed 1 headFrame, Pushed 1 bodyFrame, Quiet, Quiet, Popped 1 headFrame]
      (oneCall ?d False None ?out False)" by simp
  have q2: "at ?d = RPop" "queue ?d = bodyFrame # []" using d by simp_all
  obtain p2 d2 where h2: "handleFrame J bodyFrame (?d\<lparr>queue := []\<rparr>) = (p2, d2)" by (rule prod.exhaust)
  have d2: "\<exists>bs. p2 = RWrite bs False" "who d2 = CError CtxCanceled" "readerShut d2 = False"
    using h2 d by (auto simp: handleFrame_def frame_fields)
  let ?t = "oneCall (d2\<lparr>at := p2\<rparr>) False None ?out False"
  from steps [OF r2 one_pop [OF q2 h2]] d2(1) have "pipeReached J ?tr ?t" by auto
  moreover have "stuck 1 ?t" using d2 by (auto simp: stuck_def stuckCall_def oneCall_def newTransport_def)
  then have "{u. (\<lambda>a b. \<exists>e. pipeStep J a e b)\<^sup>*\<^sup>* ?t u \<and> workersDone u} = {}"
    using stuck_for_ever stuck_workers by blast
  moreover have "pushed 1 ?tr = [headFrame, bodyFrame]" by (simp add: pushed_def)
  ultimately show ?thesis by blast
qed

subsection \<open>Witnesses\<close>

definition exSleeping :: call where "exSleeping = pushFrame headFrame (waiting\<lparr>at := RSelect\<rparr>)"

lemma reached_sleeping: "pipeReached J [Quiet, Quiet, Quiet, Pushed 1 headFrame] (oneCall exSleeping True None [openFrame] False)"
proof -
  have "pipeReached J [Quiet, Quiet, Quiet] (oneCall (waiting\<lparr>at := RSelect\<rparr>) True None [openFrame] False)"
    using steps [OF pipe_open one_sleep] by (simp add: waiting_fields)
  from steps [OF this one_push [OF frame_fields(1)]] show ?thesis by (simp add: exSleeping_def)
qed

lemma exSleeping_call: "calls (oneCall exSleeping True None [openFrame] False) 1 = Some exSleeping"
  by (simp add: oneCall_def)

theorem stdio_response_exact_witness:
  "\<exists>tr t c. pipeReached plainJSON tr t \<and> calls t 1 = Some c \<and> popped 1 tr @ queue c = [headFrame]"
proof -
  have "popped 1 [Quiet, Quiet, Quiet, Pushed 1 headFrame] @ queue exSleeping = pushed 1 [Quiet, Quiet, Quiet, Pushed 1 headFrame]"
    using stdio_response_exact [OF reached_sleeping [of plainJSON] exSleeping_call] by blast
  with reached_sleeping [of plainJSON] exSleeping_call show ?thesis by (intro exI conjI) (auto simp: pushed_def)
qed

theorem stdio_receiver_wakes_witness:
  "\<exists>t c t' d. calls t 1 = Some c \<and> at c = RSelect \<and> pipeStep plainJSON t Quiet t' \<and> calls t' 1 = Some d \<and> at d \<noteq> RSelect"
proof -
  have "at exSleeping = RSelect" "queue exSleeping \<noteq> []" by (simp_all add: exSleeping_def pushFrame_def)
  with stdio_receiver_wakes [OF reached_sleeping [of plainJSON] exSleeping_call] exSleeping_call show ?thesis by blast
qed

theorem stdio_stream_messages_witness:
  "requestFrames ''g1'' True (concat (map (envelope 0) [[1], [2, 3]])) False =
     map Some (map (messageFrame ''g1'') [[1], [2, 3]]) @ [Some (frame0 ''g1'' ''half_close'')]"
proof -
  let ?h = "frame0 ''g1'' ''headers''\<lparr>fr_headers := [(''content-type'', [''application/connect+json''])]\<rparr>"
  have "connectStream ?h" by code_simp
  with stdio_stream_messages [of "[[1], [2, 3]]" ?h endFrame "''g1''" plainJSON] show ?thesis
    by (simp add: maxLine_def frame0_def endFrame_def)
qed

definition pairJSON :: json where
  "pairJSON = plainJSON\<lparr>encodeFrame := \<lambda>f. if f = openFrame then Some [65] else if f = endFrame then Some [66] else None,
     decodeFrame := \<lambda>b. if b = [65] then Some openFrame else if b = [66] then Some endFrame else None\<rparr>"

theorem stdio_roundtrip_witness:
  "\<exists>J fs pieces. readFrames J (concat pieces) None = (fs, ioEOF) \<and> length fs = 2 \<and> map (sendBytes J) fs = map Inr pieces"
proof -
  have ne: "openFrame \<noteq> endFrame" "fr_id openFrame \<noteq> []" "fr_id endFrame \<noteq> []"
    by (simp_all add: openFrame_def endFrame_def frame0_def)
  have ok: "jsonOK pairJSON" using ne by (simp add: jsonOK_def pairJSON_def)
  have s: "sendBytes pairJSON openFrame = Inr [65, 10]" "sendBytes pairJSON endFrame = Inr [66, 10]"
    using ne by (simp_all add: sendBytes_def pairJSON_def maxLine_def)
  have "readFrames pairJSON (concat [[65, 10], [66, 10]]) None = ([openFrame, endFrame], ioEOF)"
    by (rule stdio_roundtrip [OF ok]) (use s ne in simp_all)
  with s show ?thesis by (intro exI [of _ pairJSON] exI [of _ "[openFrame, endFrame]"] exI [of _ "[[65, 10], [66, 10]]"]) simp
qed

end
