(* ===== verification/Task_Log_Properties.thy ===== *)
theory Task_Log_Properties
  imports Task_Logs
begin

section \<open>Every line of a task's output is logged once, in order\<close>

text \<open>The invariant of a collector beside other appends, and what it gives when the task has ended.\<close>

definition logged :: "lib \<Rightarrow> logCodec \<Rightarrow> logTask \<Rightarrow> string \<Rightarrow> entry \<Rightarrow> bool" where
  "logged L C a line e \<longleftrightarrow> (\<exists>now. timeError C now = None \<and> e = (logKey L a, encodeLog C (lineEvent L a now line)))"

text \<open>The rows of the task in the stream.\<close>

definition taskRows :: "lib \<Rightarrow> logTask \<Rightarrow> tables \<Rightarrow> log_row list" where
  "taskRows L a t = filter (\<lambda>r. l_key r = logKey L a) (streamRows t (lt_run a) TaskLogStream)"

definition unused :: "lib \<Rightarrow> logTask \<Rightarrow> nat \<Rightarrow> tables \<Rightarrow> bool" where
  "unused L a k t \<longleftrightarrow> (\<forall>n>k. t_appends t (lt_run a, TaskLogStream, appendID L a n) = None)"

text \<open>The batches \<open>ps\<close>, some of those posted and all that were answered, are what was added to the rows of the task.\<close>

definition inLog :: "logTask \<Rightarrow> post list \<Rightarrow> post list \<Rightarrow> log_row list \<Rightarrow> bool" where
  "inLog a posts ps rs \<longleftrightarrow>
     subseq ps posts \<and> (\<forall>p\<in>set posts. po_ok p \<longrightarrow> p \<in> set ps) \<and>
     list_all2 (rowOf (lt_run a) TaskLogStream) (concat (map po_entries ps)) rs"

definition logInv :: "lib \<Rightarrow> logCodec \<Rightarrow> logTask \<Rightarrow> string \<Rightarrow> log_row list \<Rightarrow> collector \<Rightarrow> bool" where
  "logInv L C a text rows0 c \<longleftrightarrow>
     logOK (tabs (co_world c)) \<and> unused L a (co_number c) (tabs (co_world c)) \<and>
     (\<exists>done. stderrLines text = done @ co_lines c \<and>
        list_all2 (logged L C a) done (concat (map po_entries (co_posts c)) @ co_batch c)) \<and>
     map po_id (co_posts c) = map (appendID L a) [1..<Suc (co_number c)] \<and>
     (\<forall>p\<in>set (co_posts c). po_entries p \<noteq> [] \<and> length (po_entries p) \<le> 32) \<and>
     (\<exists>ps rs. inLog a (co_posts c) ps rs \<and> taskRows L a (tabs (co_world c)) = rows0 @ rs)"

lemma appendID_inj: "appendID L a m = appendID L a n \<longleftrightarrow> m = n"
  by (simp add: appendID_def decimalText_inj)

lemma list_all2_right: "list_all2 P xs ys \<Longrightarrow> y \<in> set ys \<Longrightarrow> (\<And>x. P x y \<Longrightarrow> thesis) \<Longrightarrow> thesis"
  by (induction rule: list_all2_induct) auto

subsection \<open>One append\<close>

text \<open>An append of others adds no row of the task and uses none of its ids.\<close>

lemma other_append:
  assumes "AppendEntries L' s run stream aid es w = (res, w')" and "logOK (tabs w)" and "int (length es) < 2 ^ 63"
    and "\<forall>n. aid \<noteq> appendID L a n" and "run = lt_run a \<and> stream = TaskLogStream \<longrightarrow> logKey L a \<notin> fst ` set es"
  shows "logOK (tabs w') \<and> taskRows L a (tabs w') = taskRows L a (tabs w) \<and> (unused L a k (tabs w) \<longrightarrow> unused L a k (tabs w'))"
proof -
  have ok: "logOK (tabs w')" using AppendEntries_tabs [OF assms(1)] AppendTx_logOK assms(2,3) by metis
  show ?thesis using assms(1,2,3)
  proof (rule AppendEntries_cases)
    assume "tabs w' = tabs w"
    with assms(2) show ?thesis by simp
  next
    assume ap: "appended s run stream aid es (nextSeq (tabs w) run stream)
       (nextSeq (tabs w) run stream + int (length es) - 1) (tabs w) (tabs w')"
    obtain rows where rows: "rowsOf run stream (nextSeq (tabs w) run stream) es rows"
      and sr: "\<And>run' stream'. streamRows (tabs w') run' stream' =
        streamRows (tabs w) run' stream' @ (if run' = run \<and> stream' = stream then rows else [])"
      using streamRows_appended [OF ap] by blast
    have "filter (\<lambda>r. l_key r = logKey L a) rows = []" if "run = lt_run a \<and> stream = TaskLogStream"
    proof -
      have "e \<in> set es \<Longrightarrow> fst e \<noteq> logKey L a" for e using assms(5) that by force
      from rows_key [of run stream _ es rows "\<lambda>key. key \<noteq> logKey L a", OF rows this] show ?thesis by (simp add: filter_empty_conv)
    qed
    then have "taskRows L a (tabs w') = taskRows L a (tabs w)" by (auto simp: taskRows_def sr)
    moreover have "unused L a k (tabs w) \<longrightarrow> unused L a k (tabs w')" using ap assms(4) by (auto simp: unused_def appended_def)
    ultimately show ?thesis using ok by blast
  qed
qed

text \<open>An append of a batch of the task.\<close>

lemma own_append:
  assumes "AppendEntries L s (lt_run a) TaskLogStream (appendID L a (Suc k)) es w = (res, w')" and "logOK (tabs w)"
    and "int (length es) < 2 ^ 63" and "unused L a k (tabs w)" and "\<forall>e\<in>set es. fst e = logKey L a"
  shows "logOK (tabs w')" and "unused L a (Suc k) (tabs w')"
    and "(\<exists>e. res = Inl e) \<and> taskRows L a (tabs w') = taskRows L a (tabs w) \<or>
      (\<exists>rs. taskRows L a (tabs w') = taskRows L a (tabs w) @ rs \<and> list_all2 (rowOf (lt_run a) TaskLogStream) es rs)"
proof -
  let ?n = "nextSeq (tabs w) (lt_run a) TaskLogStream"
  have free: "t_appends (tabs w) (lt_run a, TaskLogStream, appendID L a (Suc k)) = None"
    using assms(4) by (simp add: unused_def)
  show "logOK (tabs w')" using AppendEntries_tabs [OF assms(1)] AppendTx_logOK assms(2,3) by metis
  have add: "\<exists>rs. taskRows L a (tabs w') = taskRows L a (tabs w) @ rs \<and> list_all2 (rowOf (lt_run a) TaskLogStream) es rs"
    if "rowsOf (lt_run a) TaskLogStream ?n es rows" and "t_records (tabs w') = t_records (tabs w) @ rows" for rows
  proof (intro exI conjI)
    from rows_key [OF that(1), of "\<lambda>key. key = logKey L a"] assms(5) have "filter (\<lambda>r. l_key r = logKey L a) rows = rows"
      by (auto intro!: filter_True)
    with rowsOf_streamRows [OF that(1)] show "taskRows L a (tabs w') = taskRows L a (tabs w) @ rows"
      by (simp add: taskRows_def streamRows_def that(2))
    show "list_all2 (rowOf (lt_run a) TaskLogStream) es rows" using that(1) by (simp add: rowsOf_def)
  qed
  have cases: "tabs w' = tabs w \<or> appended s (lt_run a) TaskLogStream (appendID L a (Suc k)) es ?n
      (?n + int (length es) - 1) (tabs w) (tabs w')"
    using AppendEntries_cases [OF assms(1-3)] by blast
  then show "unused L a (Suc k) (tabs w')"
    using assms(4) by (auto simp: unused_def appended_def appendID_inj)
  show "(\<exists>e. res = Inl e) \<and> taskRows L a (tabs w') = taskRows L a (tabs w) \<or>
      (\<exists>rs. taskRows L a (tabs w') = taskRows L a (tabs w) @ rs \<and> list_all2 (rowOf (lt_run a) TaskLogStream) es rs)"
  proof (cases res)
    case (Inl e)
    with cases add show ?thesis by (auto simp: appended_def)
  next
    case (Inr r)
    obtain fst fin where r: "r = (fst, fin)" by (cases r)
    from append_writes [OF assms(1) [unfolded Inr r] assms(2,3)] free add show ?thesis by blast
  qed
qed

subsection \<open>The invariant\<close>

lemma logInv_flush:
  assumes inv: "logInv L C a text rows0 c" and len: "length (co_batch c) \<le> 32"
  shows "logInv L C a text rows0 (flushLogs L s a c)" and "co_batch (flushLogs L s a c) = []"
    and "co_lines (flushLogs L s a c) = co_lines c"
proof -
  obtain r w where rw: "AppendEntries L s (lt_run a) TaskLogStream (appendID L a (Suc (co_number c))) (co_batch c) (co_world c) = (r, w)"
    by (cases "AppendEntries L s (lt_run a) TaskLogStream (appendID L a (Suc (co_number c))) (co_batch c) (co_world c)")
  let ?p = "\<lparr>po_id = appendID L a (Suc (co_number c)), po_entries = co_batch c, po_ok = (case r of Inl _ \<Rightarrow> False | Inr _ \<Rightarrow> True)\<rparr>"
  have fl: "flushLogs L s a c = (if co_batch c = [] then c else c\<lparr>co_number := Suc (co_number c), co_batch := [], co_world := w,
      co_posts := co_posts c @ [?p]\<rparr>)"
    by (simp add: flushLogs_def Let_def rw)
  then show "co_batch (flushLogs L s a c) = []" "co_lines (flushLogs L s a c) = co_lines c" by simp_all
  show "logInv L C a text rows0 (flushLogs L s a c)"
  proof (cases "co_batch c = []")
    case True
    with fl inv show ?thesis by simp
  next
    case False
    from inv [unfolded logInv_def] obtain lines ps rs where
      ok: "logOK (tabs (co_world c))" "unused L a (co_number c) (tabs (co_world c))"
      and ln: "stderrLines text = lines @ co_lines c"
        "list_all2 (logged L C a) lines (concat (map po_entries (co_posts c)) @ co_batch c)"
      and ids: "map po_id (co_posts c) = map (appendID L a) [1..<Suc (co_number c)]"
      and size: "\<forall>p\<in>set (co_posts c). po_entries p \<noteq> [] \<and> length (po_entries p) \<le> 32"
      and ps: "inLog a (co_posts c) ps rs" "taskRows L a (tabs (co_world c)) = rows0 @ rs"
      by (elim conjE exE) (rule that)
    have key: "\<forall>e\<in>set (co_batch c). fst e = logKey L a"
    proof
      fix e assume "e \<in> set (co_batch c)"
      then have "e \<in> set (concat (map po_entries (co_posts c)) @ co_batch c)" by simp
      with ln(2) obtain l where "logged L C a l e" by (rule list_all2_right)
      then show "fst e = logKey L a" by (auto simp: logged_def)
    qed
    have short: "int (length (co_batch c)) < 2 ^ 63" using len by simp
    note own = own_append [OF rw ok(1) short ok(2) key]
    have "\<exists>ps rs. inLog a (co_posts c @ [?p]) ps rs \<and> taskRows L a (tabs w) = rows0 @ rs"
      using own(3)
    proof (elim disjE exE conjE)
      fix e assume e: "r = Inl e" and "taskRows L a (tabs w) = taskRows L a (tabs (co_world c))"
      with ps have "inLog a (co_posts c @ [?p]) ps rs \<and> taskRows L a (tabs w) = rows0 @ rs"
        by (auto simp: inLog_def intro: list_emb_append2)
      then show ?thesis by blast
    next
      fix new assume "taskRows L a (tabs w) = taskRows L a (tabs (co_world c)) @ new"
        and "list_all2 (rowOf (lt_run a) TaskLogStream) (co_batch c) new"
      with ps have "inLog a (co_posts c @ [?p]) (ps @ [?p]) (rs @ new) \<and> taskRows L a (tabs w) = rows0 @ rs @ new"
        by (auto simp: inLog_def intro: list_all2_appendI subseq_append_iff [THEN iffD2])
      then show ?thesis by blast
    qed
    with False own(1,2) ln ids size len show ?thesis
      unfolding fl logInv_def by auto
  qed
qed

lemma logInv_step:
  assumes "collects L C s a c c'" and inv: "logInv L C a text rows0 c" and len: "length (co_batch c) < 32"
    and over: "co_over c \<Longrightarrow> co_lines c = [] \<and> co_batch c = []"
    and valid: "0 < lt_attempt a" "uuidParse L (uuidString L (lt_action a)) \<noteq> None"
  shows "logInv L C a text rows0 c' \<and> length (co_batch c') < 32 \<and> (co_over c' \<longrightarrow> co_lines c' = [] \<and> co_batch c' = [])"
  using assms(1)
proof cases
  case (Line line ls now)
  let ?e = "(logKey L a, encodeLog C (lineEvent L a now line))" and ?c = "c\<lparr>co_lines := ls\<rparr>"
  let ?d = "?c\<lparr>co_batch := co_batch c @ [?e]\<rparr>"
  have enc: "EncodeTaskLog L C (lineEvent L a now line) = Inr (encodeLog C (lineEvent L a now line))"
    using valid Line(3) by (simp add: EncodeTaskLog_def validateTaskLog_def lineEvent_def)
  from inv obtain lines where "stderrLines text = lines @ line # ls"
    "list_all2 (logged L C a) lines (concat (map po_entries (co_posts c)) @ co_batch c)"
    unfolding logInv_def using Line(2) by auto
  moreover have "logged L C a line ?e" using Line(3) by (auto simp: logged_def)
  ultimately have "stderrLines text = (lines @ [line]) @ ls \<and>
      list_all2 (logged L C a) (lines @ [line]) (concat (map po_entries (co_posts c)) @ co_batch c @ [?e])"
    using list_all2_appendI [of "logged L C a" lines "concat (map po_entries (co_posts c)) @ co_batch c" "[line]" "[?e]"]
    by simp
  with inv have d: "logInv L C a text rows0 ?d" unfolding logInv_def by auto
  have c': "c' = (if 32 \<le> length (co_batch c @ [?e]) then flushLogs L s a ?d else ?d)"
    unfolding Line(1) by (simp add: takeLine_def enc Let_def)
  have no: "\<not> co_over c" using over Line(2) by auto
  have "co_over (flushLogs L s a ?d) = co_over c" by (simp add: flushLogs_def Let_def split: prod.split)
  with logInv_flush [OF d, of s] len d no show ?thesis unfolding c' by auto
next
  case Tick
  with logInv_flush [OF inv, of s] len over show ?thesis by (auto simp: flushLogs_def Let_def split: prod.split)
next
  case End
  with logInv_flush [OF inv, of s] len show ?thesis by (simp add: logInv_def)
next
  case (Append s' run stream aid es r w)
  have "logOK (tabs (co_world c))" using inv by (simp add: logInv_def)
  from other_append [OF Append(2) this Append(3,4,5), of "co_number c"] inv len over show ?thesis
    unfolding Append(1) by (auto simp: logInv_def)
next
  case (Other w)
  then have "logOK (tabs w) = logOK (tabs (co_world c))" "taskRows L a (tabs w) = taskRows L a (tabs (co_world c))"
    "unused L a (co_number c) (tabs w) = unused L a (co_number c) (tabs (co_world c))"
    by (simp_all add: sameLog_def logOK_def nextSeq_def streamRows_def taskRows_def unused_def)
  with inv len over show ?thesis unfolding Other(1) by (auto simp: logInv_def)
qed

lemma collected:
  assumes "(collects L C s a)\<^sup>*\<^sup>* (startCollector text w) c" and "logOK (tabs w)" and "unused L a 0 (tabs w)"
    and "0 < lt_attempt a" and "uuidParse L (uuidString L (lt_action a)) \<noteq> None"
  shows "logInv L C a text (taskRows L a (tabs w)) c \<and> length (co_batch c) < 32 \<and>
    (co_over c \<longrightarrow> co_lines c = [] \<and> co_batch c = [])"
  using assms(1)
proof (induction rule: rtranclp_induct)
  case base
  have "inLog a [] [] []" by (simp add: inLog_def)
  with assms(2,3) show ?case by (auto simp: startCollector_def logInv_def)
next
  case (step c d)
  from step.IH have inv: "logInv L C a text (taskRows L a (tabs w)) c" and len: "length (co_batch c) < 32"
    and over: "co_over c \<Longrightarrow> co_lines c = [] \<and> co_batch c = []" by blast+
  show ?case by (rule logInv_step [OF step.hyps(2) inv len over assms(4,5)])
qed


subsection \<open>A task with two lines\<close>

definition exLogLib :: lib where "exLogLib = demoLib\<lparr>uuidParse := (\<lambda>_. Some 7)\<rparr>"

definition exLogCodec :: logCodec where
  "exLogCodec = \<lparr>encodeLog = bytesOf \<circ> tl_message, decodeLog = (\<lambda>_. Inl (Plain ''unused'')), timeError = (\<lambda>_. None)\<rparr>"

definition exTask :: logTask where "exTask = \<lparr>lt_run = 7, lt_action = 1, lt_attempt = 1\<rparr>"

definition exText :: string where "exText = ''a'' @ [newline] @ ''b''"

definition exLogEntries :: "entry list" where
  "exLogEntries = [(logKey exLogLib exTask, bytesOf ''a''), (logKey exLogLib exTask, bytesOf ''b'')]"

lemma exText_lines: "stderrLines exText = [''a'', ''b'']"
  by (simp add: exText_def newline_def trimReturn_def stderrLines.simps [of "_ # _"] stderrLines.simps [of "[]"])

lemma exLog_append: "\<exists>w. AppendEntries exLogLib demoLog 7 TaskLogStream (appendID exLogLib exTask (Suc 0)) exLogEntries demoWorld = (Inr (1, 2), w)"
proof -
  have "streamOK TaskLogStream" by code_simp
  moreover have "char_of (49 :: nat) = CHR ''1''" by code_simp
  then have "appendID exLogLib exTask (Suc 0) = ''task-log:a:1:1''"
    by (simp add: appendID_def signedText_def decimalText.simps [of "Suc 0"] exLogLib_def exTask_def demoLib_def)
  ultimately show ?thesis
    by (simp add: AppendEntries_def AppendTx_def lockStream_def appendNew_def exLogEntries_def logKey_def exTask_def exLogLib_def
        bytesOf_def storeValue_def Let_def act_defs demo_defs limits_def wrap64_def createLogStream_def insertLogRecord_def
        insertLogAppend_def updateNextSeq_def insertBlobIfAbsent_def)
qed


end
