(* ===== verification/Task_Api.thy ===== *)
theory Task_Api
  imports Run_Properties Blob_Service Runlog_Properties
begin

section \<open>What a task may ask for\<close>

text \<open>
  The handler that \<open>executeEnvironment\<close> of \<open>internal/lutra/worker.go\<close> gives to the transport of a
  task: nine procedures of the API, called with the identity of the task and with its checkpoint
  scope; anything else is refused before the API sees it.
\<close>

subsection \<open>Requests\<close>

text \<open>A request whose path is not one of the nine, or whose body does not decode, is an \<open>Elsewhere\<close>.\<close>

datatype taskRequest =
    CreateAction "envID option" nat "actionSpec option" string
  | GetAction string bool
  | AppendLog string string string "entry list"
  | ReadLog string string int int "bytes option"
  | StartUpload bytes int string "(string \<times> string) list"
  | SignPart string int
  | FinishUpload string "(int \<times> string) list"
  | DropUpload string
  | Download string
  | Elsewhere string

definition procedure :: "taskRequest \<Rightarrow> string" where
  "procedure q =
     (case q of
        CreateAction _ _ _ _ \<Rightarrow> ''/lutra.v1.LutraService/CreateTaskAction''
      | GetAction _ _ \<Rightarrow> ''/lutra.v1.LutraService/GetTaskAction''
      | AppendLog _ _ _ _ \<Rightarrow> ''/lutra.v1.LogService/Append''
      | ReadLog _ _ _ _ _ \<Rightarrow> ''/lutra.v1.LogService/Read''
      | StartUpload _ _ _ _ \<Rightarrow> ''/lutra.v1.BlobService/CreateUpload''
      | SignPart _ _ \<Rightarrow> ''/lutra.v1.BlobService/PresignPart''
      | FinishUpload _ _ \<Rightarrow> ''/lutra.v1.BlobService/CompleteUpload''
      | DropUpload _ \<Rightarrow> ''/lutra.v1.BlobService/AbortUpload''
      | Download _ \<Rightarrow> ''/lutra.v1.BlobService/GetDownload''
      | Elsewhere path \<Rightarrow> path)"

definition taskProcedures :: "string list" where
  "taskProcedures =
     [''/lutra.v1.LutraService/CreateTaskAction'', ''/lutra.v1.LutraService/GetTaskAction'',
      ''/lutra.v1.LogService/Append'', ''/lutra.v1.LogService/Read'',
      ''/lutra.v1.BlobService/CreateUpload'', ''/lutra.v1.BlobService/PresignPart'',
      ''/lutra.v1.BlobService/CompleteUpload'', ''/lutra.v1.BlobService/AbortUpload'',
      ''/lutra.v1.BlobService/GetDownload'']"

definition permissionDenied :: goerr where
  "permissionDenied = Rpc PermissionDenied ''procedure is unavailable to task''"

text \<open>Only what a request does matters here, not what it answers.\<close>

definition answerless :: "'a act \<Rightarrow> unit act" where
  "answerless m = andThen m (\<lambda>_. ret ())"

record apiServer =
  ap_lib :: lib
  ap_enc :: encodings
  ap_codecs :: codecs
  ap_log :: logService
  ap_s3 :: s3
  ap_blob :: blobService
  ap_rest :: "string \<Rightarrow> unit act" \<comment> \<open>what the API does with any other request\<close>

definition serveAPI :: "apiServer \<Rightarrow> taskContext option \<Rightarrow> scope \<Rightarrow> taskRequest \<Rightarrow> unit act" where
  "serveAPI A ctx sc q =
     (let L = ap_lib A in
      case q of
        CreateAction env entry spec key \<Rightarrow> answerless (CreateTaskAction L (ap_enc A) (ap_codecs A) (ap_log A) ctx env entry spec key)
      | GetAction name wait \<Rightarrow> answerless (GetTaskAction L (ap_enc A) (ap_codecs A) ctx name wait)
      | AppendLog name stream aid es \<Rightarrow> answerless (Append L (ap_log A) sc name stream aid es)
      | ReadLog name stream since lim key \<Rightarrow> answerless (Read L (ap_log A) sc name stream since lim key)
      | StartUpload digest len mime values \<Rightarrow> answerless (CreateUpload L (ap_s3 A) (ap_blob A) digest len mime values)
      | SignPart name n \<Rightarrow> answerless (PresignPart L (ap_s3 A) (ap_blob A) name n)
      | FinishUpload name parts \<Rightarrow> answerless (CompleteUpload L (ap_s3 A) (ap_blob A) name parts)
      | DropUpload name \<Rightarrow> AbortUpload L (ap_blob A) name
      | Download uri \<Rightarrow> answerless (GetDownload L (ap_s3 A) (ap_blob A) uri)
      | Elsewhere path \<Rightarrow> ap_rest A path)"

definition taskHandler :: "apiServer \<Rightarrow> taskContext \<Rightarrow> taskRequest \<Rightarrow> unit act" where
  "taskHandler A identity q =
     (if procedure q \<notin> set taskProcedures then fail permissionDenied
      else serveAPI A (Some identity) (withCheckpointScope (ap_lib A) (tc_run identity) (tc_action identity)) q)"

fun taskRequests :: "apiServer \<Rightarrow> taskContext \<Rightarrow> taskRequest list \<Rightarrow> world \<Rightarrow> world" where
  "taskRequests A identity [] w = w"
| "taskRequests A identity (q # qs) w = taskRequests A identity qs (snd (taskHandler A identity q w))"

subsection \<open>The traces a task can leave\<close>

text \<open>Rows of its own checkpoints, and status events of its run.\<close>

definition taskMay :: "lib \<Rightarrow> taskContext \<Rightarrow> log_row \<Rightarrow> bool" where
  "taskMay L active r \<longleftrightarrow>
     l_run r = tc_run active \<and>
     (l_stream r = ''checkpoint'' \<and> hasPrefix (l_key r) (bytesOf (uuidString L (tc_action active) @ ''/'')) \<or>
      l_stream r = StatusStream)"

definition childOf :: "taskContext \<Rightarrow> action_row \<Rightarrow> bool" where
  "childOf active a \<longleftrightarrow> a_run a = tc_run active \<and> a_caller a = Some (tc_action active) \<and> a_status a = Queued"

definition confined :: "lib \<Rightarrow> taskContext \<Rightarrow> tables \<Rightarrow> tables \<Rightarrow> bool" where
  "confined L active t t' \<longleftrightarrow>
     t_runs t' = t_runs t \<and> t_namespaces t' = t_namespaces t \<and> t_settings t' = t_settings t \<and> t_envs t' = t_envs t \<and>
     t_envKeys t' = t_envKeys t \<and> t_runKeys t' = t_runKeys t \<and> t_builds t' = t_builds t \<and> t_cache t' = t_cache t \<and>
     (\<exists>rows. t_records t' = t_records t @ rows \<and> (\<forall>r\<in>set rows. taskMay L active r)) \<and>
     (\<forall>i. t_actions t' i = t_actions t i \<or> t_actions t i = None \<and> (\<exists>a. t_actions t' i = Some a \<and> childOf active a))"

lemma confined_refl: "confined L active t t"
  by (simp add: confined_def)

lemma confined_trans:
  assumes "confined L active t u" and "confined L active u v"
  shows "confined L active t v"
proof -
  from assms obtain xs ys where "t_records u = t_records t @ xs" "t_records v = t_records u @ ys"
    "\<forall>r\<in>set xs. taskMay L active r" "\<forall>r\<in>set ys. taskMay L active r"
    unfolding confined_def by blast
  then have rows: "t_records v = t_records t @ (xs @ ys)" "\<forall>r\<in>set (xs @ ys). taskMay L active r" by auto
  have "t_actions v i = t_actions t i \<or> t_actions t i = None \<and> (\<exists>a. t_actions v i = Some a \<and> childOf active a)" for i
    using assms unfolding confined_def by (metis option.distinct(1))
  with rows assms show ?thesis unfolding confined_def by auto
qed

interpretation cn: frame "confined L active" for L active
  by unfold_locales (rule confined_refl, rule confined_trans)

lemma same_confined: "keeps same m \<Longrightarrow> keeps (confined L active) m"
  by (simp add: within_def same_def confined_refl)

lemma rewrite_confined:
  assumes "f t = Inr (x, t')" and "\<And>t x t'. f t = Inr (x, t') \<Longrightarrow> t' = t\<lparr>t_blobs := t_blobs t', t_uploads := t_uploads t'\<rparr>"
  shows "confined L active t t'"
proof -
  obtain b u where "t' = t\<lparr>t_blobs := b, t_uploads := u\<rparr>" using assms by blast
  then show ?thesis by (simp add: confined_def)
qed

subsection \<open>Blobs\<close>

lemma blob_statements:
  "keeps (confined L active) (stmt (createBlobUpload i row))" "keeps (confined L active) (stmt (deleteBlobUpload i))"
  "keeps (confined L active) (stmt (insertBlobIfAbsent d j))"
  by (rule cn.statement; erule rewrite_confined;
      auto simp: createBlobUpload_def deleteBlobUpload_def insertBlobIfAbsent_def split: if_splits)+

lemma ignore_confined: "keeps (confined L active) m \<Longrightarrow> keeps (confined L active) (ignore m)"
  by (simp add: within_def ignore_def)

lemma try_confined: "keeps (confined L active) m \<Longrightarrow> keeps (confined L active) (try_act m)"
  by (auto simp: within_def try_act_def split: prod.splits) (metis snd_conv)

lemma orFail_confined: "keeps (confined L active) (orFail e)"
  by (rule same_confined [OF orFail_same])

lemma session_confined: "keeps (confined L active) (session l name)"
proof -
  have "keeps (confined L active) (\<lambda>w. andThen (mapErr internal (query (getBlobUpload i (clock w)))) (\<lambda>row.
      case row of None \<Rightarrow> fail (Rpc NotFound ''upload session not found'') | Some r \<Rightarrow> ret (i, r)) w)" for i
    by (rule within_clock [of _ "\<lambda>c. andThen (mapErr internal (query (getBlobUpload i c))) (\<lambda>row.
      case row of None \<Rightarrow> fail (Rpc NotFound ''upload session not found'') | Some r \<Rightarrow> ret (i, r))"]) (intro cn.rules)
  then show ?thesis unfolding session_def by (intro cn.rules)
qed

lemmas cn_rules = cn.rules blob_statements ignore_confined try_confined orFail_confined session_confined

lemma completeMultipart_confined: "keeps (confined L active) (completeMultipart S key upload parts)"
proof (rule withinI)
  fix w w' and r :: "goerr + unit"
  assume run: "completeMultipart S key upload parts w = (r, w')"
  show "confined L active (tabs w) (tabs w')"
  proof (cases "objects w key = None \<and> assembled S upload parts \<noteq> None")
    case True
    with run obtain ob where "putObject key ob w = (r, w')" by (auto simp: completeMultipart_def)
    then show ?thesis by (simp add: putObject_tabs confined_refl)
  next
    case False
    with run have "andThen call (\<lambda>_. fail (Plain ''complete multipart upload'')) w = (r, w')"
      by (auto simp: completeMultipart_def split: option.splits)
    moreover have "keeps (confined L active) (andThen call (\<lambda>_. fail (Plain ''complete multipart upload'') :: unit act))"
      by (intro cn_rules)
    ultimately show ?thesis by (blast dest: keepsD)
  qed
qed

lemma verifyUpload_confined: "keeps (confined L active) (verifyUpload l S r parts)"
proof -
  have stat: "keeps (confined L active) (case stat of
        Inr (Some ob) \<Rightarrow> if int (length (ob_data ob)) \<noteq> n then fail e1 else ret ()
      | Inr None \<Rightarrow> fail (f dn) | Inl e' \<Rightarrow> fail (g e'))" for stat :: "goerr + object option" and n e1 f dn g
    by (auto split: sum.splits option.splits intro: cn_rules)
  show ?thesis
    unfolding verifyUpload_def Let_def by (intro cn_rules completeMultipart_confined stat)
qed

lemma openUpload_confined: "keeps (confined L active) (openUpload l digest len mime metadata i objectID)"
proof -
  let ?row = "\<lambda>multipart stamp. \<lparr>u_sha256 = digest, u_object = objectID, u_size = len, u_mime = mime,
      u_meta = metadata, u_multipart = multipart, u_expires = stamp + 86400000000000\<rparr>"
  have writes: "keeps (confined L active) (\<lambda>w. case stmt (createBlobUpload i (?row multipart (clock w))) w of
        (Inl e, w') \<Rightarrow> andThen (if multipart \<noteq> None then ignore call else ret ()) (\<lambda>_. fail (internal e)) w'
      | (Inr _, w') \<Rightarrow> ret (up :: created_upload) w')" for multipart up
  proof (rule withinI)
    fix w w' r
    assume run: "(case stmt (createBlobUpload i (?row multipart (clock w))) w of
        (Inl e, w') \<Rightarrow> andThen (if multipart \<noteq> None then ignore call else ret ()) (\<lambda>_. fail (internal e)) w'
      | (Inr _, w') \<Rightarrow> ret up w') = (r, w')"
    obtain s v where st: "stmt (createBlobUpload i (?row multipart (clock w))) w = (s, v)" by (rule prod.exhaust)
    from keepsD [OF blob_statements(1) st] have v: "confined L active (tabs w) (tabs v)" .
    have "keeps (confined L active) (andThen (if multipart \<noteq> None then ignore call else ret ()) (\<lambda>_. fail e :: created_upload act))" for e
      by (intro cn_rules)
    with run st have "confined L active (tabs v) (tabs w')"
      by (cases s) (auto dest: keepsD simp: confined_refl)
    with v show "confined L active (tabs w) (tabs w')" by (rule confined_trans)
  qed
  show ?thesis unfolding openUpload_def by (intro cn_rules writes)
qed

lemma CreateUpload_confined: "keeps (confined L active) (CreateUpload l S s digest len mime values)"
  unfolding CreateUpload_def randomID_def by (intro cn_rules openUpload_confined)

lemma PresignPart_confined: "keeps (confined L active) (PresignPart l S s name n)"
  unfolding PresignPart_def Let_def by (intro cn_rules)

lemma CompleteUpload_confined: "keeps (confined L active) (CompleteUpload l S s name parts)"
  unfolding CompleteUpload_def completeTx_def by (intro cn_rules cn.body verifyUpload_confined)

lemma abortSession_confined: "keeps (confined L active) (abortSession l i)"
proof (rule withinI)
  fix w w' and r :: "goerr + unit"
  assume run: "abortSession l i w = (r, w')"
  obtain c w1 where c: "call w = (c, w1)" by (rule prod.exhaust)
  obtain b w2 where b: "abortTx l i w1 = (b, w2)" by (rule prod.exhaust)
  have "keeps (confined L active) (abortTx l i)" unfolding abortTx_def Let_def by (intro cn_rules)
  from keepsD [OF this b] call_result [OF c] have w2: "confined L active (tabs w) (tabs w2)" by simp
  obtain d w3 where d: "call w2 = (d, w3)" by (rule prod.exhaust)
  from run c b d call_result [OF c] call_result [OF d] have "tabs w' = tabs w \<or> tabs w' = tabs w2"
    by (auto simp: abortSession_def split: sum.splits bool.splits if_splits)
  with w2 show "confined L active (tabs w) (tabs w')" by (auto simp: confined_refl)
qed

lemma AbortUpload_confined: "keeps (confined L active) (AbortUpload l s name)"
  unfolding AbortUpload_def by (intro cn_rules abortSession_confined)

lemma GetDownload_confined: "keeps (confined L active) (GetDownload l S s uri)"
  unfolding GetDownload_def by (intro cn_rules)

subsection \<open>The log\<close>

lemma checkKeys_None: "checkKeys prefix ks = None \<longleftrightarrow> (\<forall>k\<in>set ks. hasPrefix k prefix)"
  by (induction ks) auto

lemma validateRun_confined: "keeps (confined L active) (validateRun l s sc name)"
  by (rule same_confined) (simp only: validateRun_def, intro sm_rules)

lemma readRows_confined: "keeps (confined L active) (readRows l s rows)"
proof (induction rows)
  case Nil
  show ?case by (simp add: within_def confined_refl)
next
  case (Cons r rows)
  have "keeps (confined L active) (rowValue l s cbor uri)" for cbor uri
    unfolding rowValue_def Let_def by (intro cn_rules)
  with Cons show ?case by (simp only: readRows.simps) (intro cn_rules)
qed

lemma Read_confined: "keeps (confined L active) (Read l s sc name stream since lim key)"
  unfolding Read_def Let_def by (intro cn_rules validateRun_confined readRows_confined)

text \<open>A batch whose keys carry the prefix of the task, in the stream of checkpoints of its run.\<close>

lemma checkpoint_confined:
  assumes "AppendEntries l s (tc_run active) ''checkpoint'' aid es w = (r, w')"
    and "\<forall>k\<in>fst ` set es. hasPrefix k (bytesOf (uuidString L (tc_action active) @ ''/''))"
  shows "confined L active (tabs w) (tabs w')"
proof -
  have rest: "sameOther (tabs w) (tabs w')" using keepsD [OF AppendEntries_other assms(1)] .
  have "\<exists>rows. t_records (tabs w') = t_records (tabs w) @ rows \<and> (\<forall>r\<in>set rows. taskMay L active r)"
    using AppendEntries_tabs [OF assms(1)]
  proof (elim disjE exE conjE)
    fix w1 w2 p
    assume tx: "AppendTx l s (tc_run active) ''checkpoint'' aid es w1 = (Inr p, w2)" and eq: "tabs w1 = tabs w" "tabs w' = tabs w2"
    from tx show ?thesis
    proof (cases rule: AppendTx_Inr)
      case old
      then show ?thesis using eq by simp
    next
      case (new first fin)
      then obtain rows where rows: "t_records (tabs w2) = t_records (tabs w1) @ rows" "rowsOf (tc_run active) ''checkpoint'' first es rows"
        by (auto simp: appended_def)
      have "e \<in> set es \<Longrightarrow> hasPrefix (fst e) (bytesOf (uuidString L (tc_action active) @ ''/''))" for e
        using assms(2) by auto
      from rows_key [of _ _ _ es rows "\<lambda>k. hasPrefix k (bytesOf (uuidString L (tc_action active) @ ''/''))", OF rows(2) this]
      have "\<forall>r\<in>set rows. hasPrefix (l_key r) (bytesOf (uuidString L (tc_action active) @ ''/''))" .
      moreover have "\<forall>r\<in>set rows. l_run r = tc_run active \<and> l_stream r = ''checkpoint''"
        using rows(2) by (auto simp: rowsOf_def rowOf_def list_all2_conv_all_nth in_set_conv_nth)
      ultimately show ?thesis using rows(1) eq by (simp add: taskMay_def)
    qed
  qed simp
  with rest show ?thesis
    by (simp add: sameOther_fields(1,2,3,4,5,10,11,12) [OF rest] confined_def) (simp add: sameOther_def otherTables_iff)
qed

lemma Append_confined: "keeps (confined L active) (Append L s (withCheckpointScope L (tc_run active) (tc_action active)) name stream aid es)"
proof (rule withinI)
  let ?sc = "withCheckpointScope L (tc_run active) (tc_action active)"
  fix w w' r
  assume run: "Append L s ?sc name stream aid es w = (r, w')"
  obtain v w1 where v: "validateRun L s ?sc name w = (v, w1)" by (rule prod.exhaust)
  note w1 = keepsD [OF validateRun_confined [of L active] v]
  show "confined L active (tabs w) (tabs w')"
  proof (cases v)
    case (Inl e)
    with run v w1 show ?thesis by (simp add: Append_def andThen_def)
  next
    case (Inr i)
    show ?thesis
    proof (cases "checkCheckpointScope ?sc i stream (map fst es)")
      case (Some e)
      with run v Inr w1 show ?thesis by (simp add: Append_def andThen_def orFail_def)
    next
      case None
      then have i: "i = tc_run active" "stream = ''checkpoint''"
        and keys: "\<forall>k\<in>fst ` set es. hasPrefix k (bytesOf (uuidString L (tc_action active) @ ''/''))"
        by (auto simp: checkCheckpointScope_def withCheckpointScope_def checkKeys_None split: if_splits)
      from run v Inr None have "AppendEntries L s i stream aid es w1 = (r, w')"
        by (simp add: Append_def andThen_def orFail_def)
      from checkpoint_confined [OF this [unfolded i] keys] w1 show ?thesis by (blast intro: confined_trans)
    qed
  qed
qed

subsection \<open>Actions\<close>

text \<open>The callbacks of the graph: what they do to the tables is the doing of others.\<close>

definition graphReads :: "taskContext \<Rightarrow> bool" where
  "graphReads active \<longleftrightarrow>
     (\<forall>add i. tc_add active = Some add \<longrightarrow> keeps same (add i)) \<and>
     (\<forall>wait a n i. tc_wait active = Some wait \<longrightarrow> keeps same (wait a n i)) \<and> (\<forall>i. keeps same (tc_get active i))"

lemma inserted_child:
  assumes "insertTaskAction i (newAction (tc_run active) (Some (tc_action active)) env entry stored stamp) key t = Inr (Some i, x)"
  shows "t_actions x = (t_actions t)(i \<mapsto> newAction (tc_run active) (Some (tc_action active)) env entry stored stamp)"
    and "confined L active t x"
  using assms by (auto simp: insertTaskAction_def actionFits_def addAction_def confined_def childOf_def newAction_def split: if_splits)

lemma childAction_confined:
  assumes "childAction l C s active env entry stored key stamp w = (Inr i, w')"
  shows "confined L active (tabs w) (tabs w')"
  using assms
proof (cases rule: childAction_Inr)
  case (existing a)
  then show ?thesis by (simp add: confined_refl)
next
  case (created x y)
  let ?row = "newAction (tc_run active) (Some (tc_action active)) env entry stored stamp"
  from inserted_child(1) [OF created(2)] created(4) have row: "t_actions (tabs y) i = Some ?row" by simp
  from AppendActionStatus_Inr [OF created(5) row] obtain v where
    "published (a_run ?row) (bytesOf (uuidString l i)) v (tabs y) (tabs w')" by (auto simp: newAction_def)
  then obtain r where r: "t_records (tabs w') = t_records x @ [r]" "taskMay L active r"
    using created(4) by (auto simp: published_def rowOf_def newAction_def taskMay_def)
  have "confined L active x (tabs w')"
    using r sameOther_fields [OF created(3)] created(3) by (simp add: confined_def) (simp add: sameOther_def otherTables_iff)
  with inserted_child(2) [OF created(2)] show ?thesis by (rule confined_trans)
qed

lemma CreateTaskAction_confined:
  assumes "graphReads active"
  shows "keeps (confined L active) (CreateTaskAction l E C s (Some active) env entry spec key)"
proof (rule withinI)
  fix w w' r
  assume run: "CreateTaskAction l E C s (Some active) env entry spec key w = (r, w')"
  from assms have add: "\<forall>add i. tc_add active = Some add \<longrightarrow> keeps same (add i)" by (simp add: graphReads_def)
  from add run show "confined L active (tabs w) (tabs w')"
  proof (cases rule: CreateTaskAction_cases)
    case (unchanged e)
    then show ?thesis by (simp add: confined_refl)
  next
    case (changed a stamp u v i)
    from changed(1) obtain envID stored x y where x: "tabs x = tabs u"
      and c: "childAction l C s active envID (int entry) stored key stamp x = (Inr i, y)"
      and e: "insertTaskActionEdge (tc_run active) i (tc_action active) (tabs y) = Inr ((), tabs v)"
      by (rule createActionTx_Inr)
    from e have "tabs v = (tabs y)\<lparr>t_edges := insert (tc_run active, i, tc_action active) (t_edges (tabs y))\<rparr>"
      by (simp add: insertTaskActionEdge_def Let_def split: if_splits)
    with childAction_confined [OF c, of L] show ?thesis using changed(2,3) x by (simp add: confined_def)
  qed
qed

lemma waitFor_same: "graphReads active \<Longrightarrow> keeps same (waitFor active i)"
proof (rule withinI)
  fix w w' r
  assume g: "graphReads active" and run: "waitFor active i w = (r, w')"
  show "same (tabs w) (tabs w')"
  proof (cases "tc_wait active")
    case None
    with run show ?thesis by (simp add: waitFor_def same_def)
  next
    case (Some wait)
    obtain a v where a: "wait (tc_action active) (tc_attempt active) i w = (a, v)" by (rule prod.exhaust)
    obtain b u where b: "tc_get active i v = (b, u)" by (rule prod.exhaust)
    from g Some have k: "keeps same (wait (tc_action active) (tc_attempt active) i)" "keeps same (tc_get active i)"
      by (simp_all add: graphReads_def)
    from sameD [OF k(1) a] sameD [OF k(2) b] have "tabs v = tabs w" "tabs u = tabs v" .
    with run Some a b show ?thesis by (auto simp: waitFor_def same_def split: sum.splits if_splits)
  qed
qed

lemma GetTaskAction_same: "graphReads active \<Longrightarrow> keeps same (GetTaskAction l E C (Some active) name wait)"
  unfolding GetTaskAction_def option.case by (intro sm_rules waitFor_same readTaskAction_same)

subsection \<open>The property\<close>

lemma answerless_confined: "keeps (confined L active) m \<Longrightarrow> keeps (confined L active) (answerless m)"
  unfolding answerless_def by (intro cn_rules)

lemma taskHandler_confined:
  assumes "graphReads active" and "\<forall>path. path \<in> set taskProcedures \<longrightarrow> keeps same (ap_rest A path)"
  shows "keeps (confined (ap_lib A) active) (taskHandler A active q)"
proof (cases "procedure q \<in> set taskProcedures")
  case False
  then show ?thesis by (simp add: taskHandler_def within_def confined_refl)
next
  case True
  let ?sc = "withCheckpointScope (ap_lib A) (tc_run active) (tc_action active)"
  from True assms(2) have "keeps (confined (ap_lib A) active) (serveAPI A (Some active) ?sc q)"
    by (cases q) (simp_all add: serveAPI_def procedure_def answerless_confined CreateTaskAction_confined assms(1)
        same_confined GetTaskAction_same Append_confined Read_confined CreateUpload_confined PresignPart_confined
        CompleteUpload_confined AbortUpload_confined GetDownload_confined)
  with True show ?thesis by (simp add: taskHandler_def)
qed


subsection \<open>A task that checkpoints and tries to cancel its run\<close>

definition exIdentity :: taskContext where
  "exIdentity = \<lparr>tc_run = 7, tc_action = 1, tc_token = 9, tc_attempt = 1, tc_wait = None, tc_get = (\<lambda>_. fail CtxCanceled), tc_add = None\<rparr>"

definition exServer :: "encodings \<Rightarrow> codecs \<Rightarrow> s3 \<Rightarrow> blobService \<Rightarrow> apiServer" where
  "exServer E C S B =
     \<lparr>ap_lib = demoLib, ap_enc = E, ap_codecs = C, ap_log = demoLog, ap_s3 = S, ap_blob = B,
      ap_rest = (\<lambda>path w. if path \<in> set taskProcedures then (Inl permissionDenied, w) else (Inr (), w\<lparr>tabs := emptyTables\<rparr>))\<rparr>"

definition exCheckpoint :: taskRequest where
  "exCheckpoint = AppendLog ''run'' ''checkpoint'' ''c1'' [(bytesOf ''a/step'', [2])]"

definition exCancel :: taskRequest where "exCancel = Elsewhere ''/lutra.v1.LutraService/CancelRun''"

lemma exCheckpoint_run:
  "\<exists>w. taskHandler (exServer E C S B) exIdentity exCheckpoint demoWorld = (Inr (), w) \<and> length (t_records (tabs w)) = 1"
proof -
  have "streamOK ''checkpoint''" "hasPrefix (bytesOf ''a/step'') (bytesOf ''a/'')" "length (bytesOf ''a/step'') = 6" by code_simp+
  then show ?thesis
    by (simp add: taskHandler_def procedure_def exCheckpoint_def taskProcedures_def serveAPI_def exServer_def exIdentity_def
        answerless_def Append_def validateRun_def checkCheckpointScope_def withCheckpointScope_def orFail_def
        AppendEntries_def AppendTx_def lockStream_def appendNew_def
        storeValue_def Let_def act_defs demo_defs limits_def wrap64_def createLogStream_def insertLogRecord_def
        insertLogAppend_def updateNextSeq_def insertBlobIfAbsent_def)
qed


end
