(* ===== verification/Spec2Isabelle.thy ===== *)
theory Spec2Isabelle
  imports Graph_Properties Run_Watch_Properties Blob_Properties Graph_Persist_Properties Environment_Properties
    Run_Example Run_Fleet Run_Driver_Properties Local_Executor_Example Settings_Properties Stdio_Example Task_Log_Properties Task_Api
begin

text \<open>
  Lutra runs tasks: a client registers an environment, a declaration of an image with its entry
  points, and creates a run of one of them; the run's root action may create further actions;
  a worker claims the run, builds the images and executes the actions with bounded concurrency,
  retries and a cache, and everything is recorded in PostgreSQL, an object store and a log that
  clients follow. These theories translate the Go server and worker under \<open>src/internal\<close> into
  executable definitions and prove what makes the parts correct. Paths below are relative to
  \<open>src/internal\<close>.

  Conventions.

  \<^item> \<open>Prelude\<close> and \<open>World\<close> hold what all parts share. A Go error is a \<open>goerr\<close>; a fallible
    function returns \<open>goerr + 'a\<close>. \<open>int32\<close> arithmetic is written with its wrap-around
    (\<open>wrap32\<close>), or in \<open>32 word\<close> and \<open>64 word\<close>. An instant is a number of nanoseconds.
  \<^item> A service is a state transformer over the record \<open>world\<close>: the tables, the object store, the
    clock, the supply of fresh identifiers, and an oracle of faults. Every call of the database or
    of the store asks the oracle, and may fail with or without having taken effect; a transaction
    that fails leaves the tables alone. A SQL statement is a function on \<open>tables\<close>, translated
    from the query of that name under \<open>src/db/queries\<close> and the constraints of the migrations.
  \<^item> Code with goroutines is a step relation. A step is a critical section, a statement or a
    channel operation, and reachability quantifies over every interleaving. What other
    processes do is a step as well.
  \<^item> Code that is not in the repository (protobuf and CBOR encodings, SHA-256, \<open>mime\<close>, the sandbox,
    what S3 answers, the order in which Go iterates over a map) is an argument of the definitions,
    with the documented facts the code relies on as the assumptions of a locale or of a theorem.

  The executor, \<open>graphexec/executor.go\<close>. \<open>Graph_Model\<close> has the nodes, transitions, the slot pool,
  \<open>New\<close> and \<open>commitLocked\<close>; \<open>Graph_Validate\<close>, \<open>Graph_Close\<close> and \<open>Graph_Dispatch\<close> the operations
  under the lock; \<open>Graph_Execute\<close> the sections of \<open>execute\<close>, \<open>Add\<close>, \<open>Get\<close>, \<open>Wait\<close>, \<open>resume\<close>
  and \<open>Run\<close>, and \<open>Graph_Step\<close> their interleaving with the driver and the environment.
  \<open>Graph_Invariant\<close>, \<open>Graph_Safety\<close>, \<open>Graph_Reach\<close> and \<open>Graph_System\<close> prove one invariant of all
  reachable states: a slot in use belongs to one attempt, a running node has one attempt
  object, and a waiter that sleeps has a reason to. \<open>Graph_Properties\<close> states what follows: slots are
  conserved, terminal states are final, a store error freezes the graph, the driver and the waiters
  are woken, dispatching and closing do exactly what they should. \<open>Graph_Frame\<close> says how nodes
  change, and \<open>Graph_Example\<close> is a concrete run.

  The executor's store, \<open>lutra/graphexec_store.go\<close>. \<open>Graph_Store\<close> is the SQL adapter with
  the status events it appends (\<open>runlog/status.go\<close>, \<open>actionstatus.go\<close>),
  \<open>Graph_Persist\<close> the contract between it and the executor as a locale, interpreted by the adapter;
  \<open>Graph_Persist_Properties\<close> states the fencing by lease, attempt and terminal state, that a
  reachable graph agrees with the rows, and that each status is published.

  The log, \<open>runlog/\<close>. \<open>Runlog_Append\<close> (\<open>service.go\<close>: \<open>AppendEntries\<close>, \<open>AppendTx\<close>, \<open>storeValue\<close>),
  \<open>Runlog_Read\<close> (\<open>Read\<close>, \<open>rowValue\<close>) and \<open>Runlog_Tail\<close> (\<open>tail.go\<close>) model it; \<open>Runlog_Properties\<close>
  proves appends exactly once by append id and that a read returns what was appended;
  \<open>Runlog_Deliver\<close> and \<open>Runlog_Follow\<close> prove that a subscription sends every matching record
  once and in order, whatever reconnections, lost notifications and appends come between.
  \<open>Task_Logs\<close> has \<open>tasklog.go\<close> and \<open>collectTaskLogs\<close> of \<open>lutra/worker.go\<close>, \<open>Task_Log_Properties\<close>
  that what a task prints is what the log holds.

  Blobs, \<open>blob/service.go\<close>. \<open>Codec\<close> has SHA-256's interface, base64 and the strings functions,
  \<open>Blob_Uri\<close> the URIs, \<open>Blob_Service\<close> the uploads, downloads and the sweep; \<open>Blob_Stored\<close> and
  \<open>Blob_Properties\<close> prove that a row always names a stored object, and that a completed upload
  has the content it declared.

  The API, \<open>lutra/\<close>. \<open>Environments\<close> (\<open>environments.go\<close>), \<open>Runs\<close> (\<open>runs.go\<close>, \<open>retry.go\<close>), \<open>Run_Watch\<close>
  (\<open>WatchRun\<close>) and \<open>Task_Api\<close> (what a task may call, in \<open>worker.go\<close>) model it. \<open>Service_Frame\<close> and
  \<open>Service_Runs\<close> hold what each operation adds and keeps, \<open>Run_System\<close> the system of all clients
  and workers; \<open>Run_Properties\<close>, \<open>Run_Listing\<close>, \<open>Run_Watch_Properties\<close>, \<open>Environment_Properties\<close>
  and \<open>Task_Api\<close> the properties, with \<open>Run_Example\<close> as the concrete system. \<open>Settings\<close> and
  \<open>Settings_Properties\<close> are \<open>settings/service.go\<close>.

  The worker, \<open>lutra/\<close>. \<open>Run_Worker\<close> (\<open>run_worker.go\<close>: claiming, renewing, restoring a graph),
  \<open>Run_Restore\<close> (the restored graph is valid and agrees with the rows), \<open>Run_Fleet\<close> (the loops of any
  number of workers), \<open>Images\<close> (\<open>image.go\<close>, \<open>worker.go\<close>), \<open>Task_Cache\<close> (\<open>task_cache.go\<close>), \<open>Run_Driver\<close>
  and \<open>Run_Driver_Properties\<close> (\<open>Ensure\<close> and \<open>Run\<close> of the driver), \<open>Host_Files\<close>, \<open>Extract\<close> and
  \<open>Extract_Properties\<close> (\<open>extract.go\<close>: an archive cannot write outside its directory, at work in \<open>Extract_Example\<close>), \<open>Local_Executor\<close>
  and \<open>Local_Executor_Properties\<close> (\<open>executor.go\<close>: nothing is left behind on any path). The pipe to
  a task, \<open>taskstdio/\<close>, is \<open>Stdio_Frames\<close>, \<open>Stdio\<close> and \<open>Stdio_System\<close> (\<open>transport.go\<close>,
  \<open>handler.go\<close>); \<open>Stdio_Calls\<close> proves that a call receives exactly the frames sent to it and is
  woken, \<open>Stdio_Example\<close> that a cancelled call may hang.

  How the parts meet. \<open>Graph_Persist\<close> joins the executor to the store and \<open>Run_Restore\<close> the store
  to the worker, so a graph that is driven began in agreement with the rows and stays so.
  \<open>Graph_Store\<close> appends status events with the log's \<open>AppendTx\<close> in its transaction, and
  \<open>Run_Watch\<close> follows them with the log's subscription: its properties rest on \<open>Runlog_Follow\<close>.
  The log stores long values as blobs, under the invariant of \<open>Blob_Stored\<close>. \<open>Task_Api\<close> dispatches
  to the handlers of \<open>Runs\<close>, \<open>Blob_Service\<close> and the log.

  Bounds. A recursion over a map that the code iterates takes the keys as a list, and is structural.
  The cycle searches of \<open>validateLocked\<close> have one unit of fuel more than the graph has nodes;
  \<open>visit_total\<close> and \<open>chain_total\<close> show that this is enough, since a visited node is not entered again.
  The rounds of \<open>dispatchLocked\<close> have one more than the pending nodes, each round but the last
  starting one (\<open>dispatchLoop_enough\<close>). The polling loop \<open>ensureImage\<close> takes the number
  of polls until the caller's context ends, and returns its error then; path lookup follows at most forty links, as Linux does.

  Not modelled. \<open>src/cmd\<close> and \<open>lutra/service.go\<close> wire the parts together. \<open>taskstdio/process.go\<close>
  starts and reaps a process, and \<open>s3/client.go\<close> configures a client. \<open>runlog/config.go\<close> reads the
  bounds of a subscription from the environment; the subscription has them as arguments. \<open>lutra/web\<close> serves
  embedded files. The migrations are applied by a library, and the sqlc and protobuf code is generated:
  queries, constraints and messages appear in the definitions that use them. The Python SDK and the
  web interface are other programs on the far side of the API.
\<close>

end
